(* ===== verification/Prelude.thy ===== *)
theory Prelude
  imports
    Main
    "HOL-Library.FSet"
    "HOL-Library.Finite_Map"
    "HOL-Library.Word"
    "HOL-Library.Monad_Syntax"
    "HOL-Library.Product_Lexorder"
    "HOL-Library.Multiset"
begin

text \<open>
  Shared vocabulary of the development.

  A Rust panic (a failed \<^verbatim>\<open>assert!\<close>, an \<^verbatim>\<open>expect\<close> on \<^verbatim>\<open>None\<close>, an index out of
  range, an explicit \<^verbatim>\<open>panic!\<close>) aborts the process, so a function that may panic returns an
  \<open>option\<close> and \<open>None\<close> is the panic; the bodies are written in the option monad.
  A \<^verbatim>\<open>ConsensusResult\<close> is a sum, \<open>Inl\<close> the error.
  \<^verbatim>\<open>BTreeSet\<close> and \<^verbatim>\<open>BTreeMap\<close> are finite sets and finite maps whose iteration order
  is the order of the keys (\<open>sorted_list_of_fset\<close>, \<open>sorted_list_of_fmap\<close>).
  A \<^verbatim>\<open>u64\<close> stake is a 64-bit word, so sums wrap as they do in the release profile.
\<close>

named_theorems panic_simps \<open>unfolding of the panic combinators\<close>
named_theorems wf_intros \<open>introduction rules for well-formedness invariants\<close>

type_synonym u64 = "64 word"
type_synonym bytes = "8 word list"
type_synonym digest = "256 word"

subsection \<open>Panics\<close>

definition assert_that :: "bool \<Rightarrow> unit option" where
  "assert_that b = (if b then Some () else None)"

definition vec_get :: "'a list \<Rightarrow> nat \<Rightarrow> 'a option" where
  "vec_get xs i = (if i < length xs then Some (xs ! i) else None)"

definition vec_set :: "'a list \<Rightarrow> nat \<Rightarrow> 'a \<Rightarrow> 'a list option" where
  "vec_set xs i v = (if i < length xs then Some (xs[i := v]) else None)"

text \<open>A \<^verbatim>\<open>for\<close> loop whose body updates a state and may panic.\<close>

fun foldM :: "('a \<Rightarrow> 's \<Rightarrow> 's option) \<Rightarrow> 'a list \<Rightarrow> 's \<Rightarrow> 's option" where
  "foldM f [] s = Some s"
| "foldM f (x # xs) s = Option.bind (f x s) (foldM f xs)"

text \<open>A \<^verbatim>\<open>map ... collect\<close> whose body may panic.\<close>

fun mapM :: "('a \<Rightarrow> 'b option) \<Rightarrow> 'a list \<Rightarrow> 'b list option" where
  "mapM f [] = Some []"
| "mapM f (x # xs) = Option.bind (f x) (\<lambda>y. Option.bind (mapM f xs) (\<lambda>ys. Some (y # ys)))"

text \<open>A \<^verbatim>\<open>filter ... collect\<close> whose predicate may panic.\<close>

fun filterM :: "('a \<Rightarrow> bool option) \<Rightarrow> 'a list \<Rightarrow> 'a list option" where
  "filterM p [] = Some []"
| "filterM p (x # xs) =
     Option.bind (p x) (\<lambda>b. Option.bind (filterM p xs) (\<lambda>ys. Some (if b then x # ys else ys)))"

lemma assert_that_Some [simp, panic_simps]: "assert_that b = Some u \<longleftrightarrow> b"
  by (simp add: assert_that_def)

lemma assert_that_None [simp, panic_simps]: "assert_that b = None \<longleftrightarrow> \<not> b"
  by (simp add: assert_that_def)

lemma assert_that_True [simp]: "assert_that True = Some ()"
  by (simp add: assert_that_def)

lemma assert_that_bind:
  "Option.bind (assert_that b) k = (if b then k () else None)"
  by (simp add: assert_that_def)

lemma vec_get_Some [simp, panic_simps]: "vec_get xs i = Some v \<longleftrightarrow> i < length xs \<and> v = xs ! i"
  by (auto simp: vec_get_def)

lemma vec_get_None [simp, panic_simps]: "vec_get xs i = None \<longleftrightarrow> length xs \<le> i"
  by (auto simp: vec_get_def)

lemma vec_get_in [simp]: "i < length xs \<Longrightarrow> vec_get xs i = Some (xs ! i)"
  by (simp add: vec_get_def)

lemma vec_set_Some [simp, panic_simps]:
  "vec_set xs i v = Some ys \<longleftrightarrow> i < length xs \<and> ys = xs[i := v]"
  by (auto simp: vec_set_def)

lemma vec_set_None [simp, panic_simps]: "vec_set xs i v = None \<longleftrightarrow> length xs \<le> i"
  by (auto simp: vec_set_def)

lemma vec_set_in [simp]: "i < length xs \<Longrightarrow> vec_set xs i v = Some (xs[i := v])"
  by (simp add: vec_set_def)

lemmas bind_Some_iff [panic_simps] = Option.bind_eq_Some_conv

lemma bind_SomeE: "Option.bind m f = Some y \<Longrightarrow> (\<And>x. m = Some x \<Longrightarrow> f x = Some y \<Longrightarrow> P) \<Longrightarrow> P"
  by (cases m) simp_all

lemma foldM_append: "foldM f (xs @ ys) s = Option.bind (foldM f xs s) (foldM f ys)"
proof (induction xs arbitrary: s)
  case (Cons x xs)
  then have "foldM f (xs @ ys) = (\<lambda>s. Option.bind (foldM f xs s) (foldM f ys))" by auto
  then show ?case by (simp add: Option.bind_assoc)
qed simp

lemma foldM_inv:
  assumes "foldM f xs s = Some t" and "P s"
    and "\<And>x s s'. x \<in> set xs \<Longrightarrow> P s \<Longrightarrow> f x s = Some s' \<Longrightarrow> P s'"
  shows "P t"
  using assms
proof (induction xs arbitrary: s)
  case (Cons x xs)
  from Cons.prems(1) obtain s' where s': "f x s = Some s'" "foldM f xs s' = Some t"
    by (auto simp: panic_simps)
  show ?case
    by (rule Cons.IH [OF s'(2)]) (use Cons.prems(2,3) s'(1) in auto)
qed simp

text \<open>The loop invariant may speak of the elements already processed.\<close>

lemma foldM_inv_prefix:
  assumes "foldM f xs s = Some t" and "P [] s"
    and "\<And>ys x zs s s'. xs = ys @ x # zs \<Longrightarrow> P ys s \<Longrightarrow> f x s = Some s' \<Longrightarrow> P (ys @ [x]) s'"
  shows "P xs t"
proof -
  have "\<And>ys zs s. xs = ys @ zs \<Longrightarrow> P ys s \<Longrightarrow> foldM f zs s = Some t \<Longrightarrow> P xs t"
  proof -
    fix ys zs s assume "xs = ys @ zs" "P ys s" "foldM f zs s = Some t"
    then show "P xs t"
    proof (induction zs arbitrary: ys s)
      case (Cons z zs)
      from Cons.prems obtain s' where s': "f z s = Some s'" "foldM f zs s' = Some t"
        by (auto simp: panic_simps)
      have "P (ys @ [z]) s'" using assms(3)[OF Cons.prems(1,2) s'(1)] .
      with Cons.IH[of "ys @ [z]" s'] Cons.prems(1) s'(2) show ?case by simp
    qed simp
  qed
  from this[of "[]" xs s] assms(1,2) show ?thesis by simp
qed

text \<open>A loop does not panic when each step keeps the invariant and does not panic.\<close>

lemma foldM_total:
  assumes "P s" and "\<And>x s. x \<in> set xs \<Longrightarrow> P s \<Longrightarrow> \<exists>s'. f x s = Some s' \<and> P s'"
  shows "\<exists>t. foldM f xs s = Some t \<and> P t"
  using assms
proof (induction xs arbitrary: s)
  case (Cons x xs)
  from Cons.prems(2)[of x s] Cons.prems(1) obtain s' where s': "f x s = Some s'" "P s'" by auto
  have "\<exists>t. foldM f xs s' = Some t \<and> P t"
    by (rule Cons.IH [OF s'(2)]) (simp add: Cons.prems(2))
  with s' show ?case by simp
qed simp

lemma mapM_Some_iff: "mapM f xs = Some ys \<longleftrightarrow> list_all2 (\<lambda>x y. f x = Some y) xs ys"
  by (induction xs arbitrary: ys) (auto simp: panic_simps list_all2_Cons1)

lemma mapM_length: "mapM f xs = Some ys \<Longrightarrow> length ys = length xs"
  by (auto simp: mapM_Some_iff dest: list_all2_lengthD)

lemma mapM_set: "mapM f xs = Some ys \<Longrightarrow> y \<in> set ys \<longleftrightarrow> (\<exists>x\<in>set xs. f x = Some y)"
  by (induction xs arbitrary: ys) (auto simp: panic_simps)

lemma mapM_total: "(\<And>x. x \<in> set xs \<Longrightarrow> f x = Some (g x)) \<Longrightarrow> mapM f xs = Some (map g xs)"
  by (induction xs) auto

lemma mapM_ex: "(\<And>x. x \<in> set xs \<Longrightarrow> \<exists>y. f x = Some y) \<Longrightarrow> \<exists>ys. mapM f xs = Some ys"
proof (induction xs)
  case (Cons x xs)
  then obtain y ys where "f x = Some y" "mapM f xs = Some ys" by (metis list.set_intros)
  then show ?case by simp
qed simp

lemma filterM_total:
  "(\<And>x. x \<in> set xs \<Longrightarrow> p x = Some (q x)) \<Longrightarrow> filterM p xs = Some (filter q xs)"
  by (induction xs) auto

lemma filterM_Some:
  "filterM p xs = Some ys \<Longrightarrow> ys = filter (\<lambda>x. p x = Some True) xs \<and> (\<forall>x\<in>set xs. p x \<noteq> None)"
  by (induction xs arbitrary: ys) (auto simp: panic_simps)

text \<open>A loop that updates each position of a vector from the value at the same position of another one.\<close>

definition update_each :: "('a \<Rightarrow> 'b \<Rightarrow> 'a option) \<Rightarrow> 'b list \<Rightarrow> 'a list \<Rightarrow> 'a list option" where
  "update_each g xs = foldM (\<lambda>(i, x) ys. Option.bind (vec_get ys i) (\<lambda>y. Option.bind (g y x) (vec_set ys i))) (enumerate 0 xs)"

lemma update_each_eq: "length xs = length ys \<Longrightarrow> update_each g xs ys = mapM (\<lambda>(y, x). g y x) (zip ys xs)"
proof -
  have "length xs = length ys \<Longrightarrow>
      foldM (\<lambda>(i, x) ys. Option.bind (vec_get ys i) (\<lambda>y. Option.bind (g y x) (vec_set ys i))) (enumerate (length ps) xs) (ps @ ys)
      = map_option (\<lambda>zs. ps @ zs) (mapM (\<lambda>(y, x). g y x) (zip ys xs))" for ps
  proof (induction xs arbitrary: ps ys)
    case (Cons x xs)
    then obtain y ys' where ys: "ys = y # ys'" "length xs = length ys'" by (cases ys) auto
    show ?case using Cons.IH[OF ys(2), of "ps @ [z]" for z]
      by (cases "g y x"; cases "mapM (\<lambda>(y, x). g y x) (zip ys' xs)") (simp_all add: ys(1) nth_append list_update_append)
  qed simp
  from this[of "[]"] show "length xs = length ys \<Longrightarrow> ?thesis" by (simp add: update_each_def option.map_ident)
qed

lemma foldM_cong [fundef_cong]:
  "xs = ys \<Longrightarrow> s = t \<Longrightarrow> (\<And>x s. x \<in> set ys \<Longrightarrow> f x s = g x s) \<Longrightarrow> foldM f xs s = foldM g ys t"
proof -
  assume a: "xs = ys" "s = t" "\<And>x s. x \<in> set ys \<Longrightarrow> f x s = g x s"
  have "(\<And>x s. x \<in> set ys \<Longrightarrow> f x s = g x s) \<Longrightarrow> foldM f ys t = foldM g ys t"
    by (induction ys arbitrary: t) (auto intro!: Option.bind_cong)
  with a show ?thesis by simp
qed

subsection \<open>Finite sets and maps in key order\<close>

lemma set_sorted_list_of_fset [simp]: "set (sorted_list_of_fset S) = fset S"
  by simp

lemma distinct_sorted_list_of_fset [simp]: "distinct (sorted_list_of_fset S)"
  by (simp add: sorted_list_of_fset.rep_eq)

lemma sorted_sorted_list_of_fset [simp]: "sorted (sorted_list_of_fset S)"
  by (simp add: sorted_list_of_fset.rep_eq)

lemma set_sorted_list_of_fmap: "(k, v) \<in> set (sorted_list_of_fmap m) \<longleftrightarrow> fmlookup m k = Some v"
  by (auto simp: sorted_list_of_fmap_def fmlookup_dom_iff image_iff)

text \<open>
  \<^verbatim>\<open>BTreeMap::range\<close> and \<^verbatim>\<open>BTreeSet::range\<close> on the sorted entries, with the panic on a start
  above the end.
\<close>

definition range_incl_excl :: "('a \<Rightarrow> 'k :: linorder) \<Rightarrow> 'k \<Rightarrow> 'k \<Rightarrow> 'a list \<Rightarrow> 'a list option" where
  "range_incl_excl key lo hi xs =
     (if hi < lo then None else Some (filter (\<lambda>x. lo \<le> key x \<and> key x < hi) xs))"

definition range_incl_incl :: "('a \<Rightarrow> 'k :: linorder) \<Rightarrow> 'k \<Rightarrow> 'k \<Rightarrow> 'a list \<Rightarrow> 'a list option" where
  "range_incl_incl key lo hi xs =
     (if hi < lo then None else Some (filter (\<lambda>x. lo \<le> key x \<and> key x \<le> hi) xs))"

definition last_opt :: "'a list \<Rightarrow> 'a option" where
  "last_opt xs = (if xs = [] then None else Some (last xs))"

subsection \<open>Batched lookups\<close>

text \<open>
  The two-phase loop of the cache readers: resolve each request from memory into a result
  vector or record its position, read the recorded ones from the store in one call, and put the
  results at their positions.
\<close>

definition batch_lookup :: "('r \<Rightarrow> 'v option) \<Rightarrow> ('r list \<Rightarrow> 'v list) \<Rightarrow> 'v \<Rightarrow> 'r list \<Rightarrow> 'v list" where
  "batch_lookup cached reads dflt rs =
     (let (results, missing) =
        fold (\<lambda>(i, r) (results, missing).
            case cached r of
              Some v \<Rightarrow> (results[i := v], missing)
            | None \<Rightarrow> (results, missing @ [(i, r)]))
          (enumerate 0 rs) (replicate (length rs) dflt, [])
      in if missing = [] then results
         else fold (\<lambda>((i, r), v) results. results[i := v])
                (zip missing (reads (map snd missing))) results)"

lemma batch_fill:
  "(\<And>i r. (i, r) \<in> set missing \<Longrightarrow> i < length rs \<and> rs ! i = r) \<Longrightarrow>
   length xs = length rs \<Longrightarrow>
   (\<And>i. i < length rs \<Longrightarrow> i \<notin> fst ` set missing \<Longrightarrow> xs ! i = f (rs ! i)) \<Longrightarrow>
   fold (\<lambda>((i, r), v) xs. xs[i := v]) (zip missing (map (f \<circ> snd) missing)) xs = map f rs"
proof (induction missing arbitrary: xs)
  case Nil
  then show ?case by (auto intro: nth_equalityI)
next
  case (Cons m ms)
  obtain i r where m: "m = (i, r)" by (cases m)
  with Cons.prems(1) have i: "i < length rs" "rs ! i = r" by auto
  have "fold (\<lambda>((i, r), v) xs. xs[i := v]) (zip ms (map (f \<circ> snd) ms)) (xs[i := f r]) = map f rs"
  proof (rule Cons.IH)
    show "length (xs[i := f r]) = length rs" using Cons.prems(2) by simp
    fix j assume "j < length rs" "j \<notin> fst ` set ms"
    then show "xs[i := f r] ! j = f (rs ! j)"
      using Cons.prems(2,3) i m by (cases "j = i") auto
  qed (use Cons.prems(1) in auto)
  then show ?case by (simp add: m comp_def)
qed

lemma batch_lookup_eq:
  assumes reads: "\<And>xs. reads xs = map g xs"
  shows "batch_lookup cached reads dflt rs = map (\<lambda>r. case cached r of Some v \<Rightarrow> v | None \<Rightarrow> g r) rs"
proof -
  let ?f = "\<lambda>r. case cached r of Some v \<Rightarrow> v | None \<Rightarrow> g r"
  let ?step = "\<lambda>(i, r) (results, missing).
      case cached r of Some v \<Rightarrow> (results[i := v], missing) | None \<Rightarrow> (results, missing @ [(i, r)])"
  define Q where "Q k acc \<longleftrightarrow> (case acc of (xs, missing) \<Rightarrow> length xs = length rs \<and>
      (\<forall>(i, r) \<in> set missing. i < k \<and> rs ! i = r \<and> cached r = None) \<and>
      (\<forall>i<k. i \<notin> fst ` set missing \<longrightarrow> xs ! i = ?f (rs ! i)))" for k acc
  have "k \<le> length rs \<Longrightarrow> Q k (fold ?step (take k (enumerate 0 rs)) (replicate (length rs) dflt, []))" for k
  proof (induction k)
    case 0
    then show ?case by (simp add: Q_def)
  next
    case (Suc k)
    then have "take (Suc k) (enumerate 0 rs) = take k (enumerate 0 rs) @ [(k, rs ! k)]"
      by (simp add: take_Suc_conv_app_nth nth_enumerate_eq)
    moreover have "Q (Suc k) (?step (k, rs ! k) acc)" if "Q k acc" for acc
      using that Suc.prems by (cases acc; cases "cached (rs ! k)") (fastforce simp: Q_def less_Suc_eq)+
    ultimately show ?case using Suc by simp
  qed
  from this[of "length rs"] obtain xs missing where
    run: "fold ?step (enumerate 0 rs) (replicate (length rs) dflt, []) = (xs, missing)" and
    q: "Q (length rs) (xs, missing)" by (cases "fold ?step (enumerate 0 rs) (replicate (length rs) dflt, [])") auto
  have m: "map (g \<circ> snd) missing = map (?f \<circ> snd) missing" using q by (auto simp: Q_def)
  have "fold (\<lambda>((i, r), v) xs. xs[i := v]) (zip missing (reads (map snd missing))) xs = map ?f rs"
    unfolding reads list.map_comp m by (rule batch_fill) (use q in \<open>auto simp: Q_def\<close>)
  then show ?thesis unfolding batch_lookup_def run by auto
qed

subsection \<open>Words as bounded naturals\<close>

lemma unat_sum_list:
  "sum_list (map unat xs) < 2 ^ 64 \<Longrightarrow> unat (sum_list (xs :: u64 list)) = sum_list (map unat xs)"
proof (induction xs)
  case (Cons x xs)
  then have "unat (sum_list xs) = sum_list (map unat xs)" by simp
  with Cons.prems have "unat x + unat (sum_list xs) < 2 ^ 64" by simp
  then show ?case using Cons by (simp add: unat_add_lem [THEN iffD1])
qed simp

lemma unat_add_u64: "unat a + unat b < 2 ^ 64 \<Longrightarrow> unat ((a :: u64) + b) = unat a + unat b"
  by (simp add: unat_add_lem [THEN iffD1])

lemma unat_sub_u64: "unat b \<le> unat a \<Longrightarrow> unat ((a :: u64) - b) = unat a - unat b"
  by (simp add: unat_sub word_le_nat_alt)

lemma unat_mult_u64: "unat a * unat b < 2 ^ 64 \<Longrightarrow> unat ((a :: u64) * b) = unat a * unat b"
  by (simp add: unat_mult_lem [THEN iffD1])

lemma sum_list_le_sum_set:
  "sum_list (map f xs) = (\<Sum>i<length xs. f (xs ! i :: 'a) :: nat)"
  by (simp add: sum_list_sum_nth atLeast0LessThan)

end
