(* ===== verification/Committee.thy ===== *)
theory Committee
  imports Prelude
begin

text \<open>
  The consensus committee (\<^verbatim>\<open>consensus/config/src/committee.rs\<close>): the authorities with their
  stakes, the three stake thresholds and the two constructors that compute them.
  Stakes are \<^verbatim>\<open>u64\<close> words; \<open>stake_of\<close> reads one as a natural number, and the lemmas
  say when the word arithmetic of the constructors is exact.
  The locale \<open>quorum_system\<close> is the interface the commit rule relies on: two sets of
  authorities that reach the quorum threshold share an authority outside any set of faulty
  authorities within the fault budget.
\<close>

subsection \<open>Data\<close>

type_synonym stake = u64
type_synonym authority_index = nat

record authority =
  a_stake :: stake
  a_address :: string
  a_hostname :: string
  a_authority_name :: bytes
  a_protocol_key :: bytes
  a_network_key :: bytes

record committee =
  c_epoch :: nat
  c_authorities :: "authority list"
  c_total_stake :: stake
  c_quorum_threshold :: stake
  c_certification_threshold :: stake
  c_validity_threshold :: stake

subsection \<open>Operations\<close>

definition u32_max :: nat where
  "u32_max = 4294967295"

definition committee_new :: "nat \<Rightarrow> authority list \<Rightarrow> committee option" where
  "committee_new ep auths = do {
     assert_that (auths \<noteq> []);
     assert_that (length auths < u32_max);
     let total_stake = sum_list (map a_stake auths);
     assert_that (total_stake \<noteq> 0);
     let fault_tolerance = (total_stake - 1) div 3;
     let quorum_threshold = total_stake - fault_tolerance;
     let validity_threshold = fault_tolerance + 1;
     assert_that (2 * quorum_threshold - fault_tolerance > total_stake);
     Some \<lparr>c_epoch = ep, c_authorities = auths, c_total_stake = total_stake,
           c_quorum_threshold = quorum_threshold,
           c_certification_threshold = quorum_threshold,
           c_validity_threshold = validity_threshold\<rparr>
   }"

definition checked_mul :: "u64 \<Rightarrow> u64 \<Rightarrow> u64 option" where
  "checked_mul a b = (if unat a * unat b < 2 ^ 64 then Some (a * b) else None)"

definition checked_add :: "u64 \<Rightarrow> u64 \<Rightarrow> u64 option" where
  "checked_add a b = (if unat a + unat b < 2 ^ 64 then Some (a + b) else None)"

definition checked_sub :: "u64 \<Rightarrow> u64 \<Rightarrow> u64 option" where
  "checked_sub a b = (if b \<le> a then Some (a - b) else None)"

definition checked_div :: "u64 \<Rightarrow> u64 \<Rightarrow> u64 option" where
  "checked_div a b = (if b = 0 then None else Some (a div b))"

text \<open>The overflow tests evaluate on integers.\<close>

lemma checked_add_code [code]: "checked_add a b = (if uint a + uint b < 18446744073709551616 then Some (a + b) else None)"
proof -
  have "unat a + unat b < 2 ^ 64 \<longleftrightarrow> int (unat a + unat b) < int (2 ^ 64)" by (simp only: of_nat_less_iff)
  then show ?thesis unfolding checked_add_def uint_nat by simp
qed

lemma checked_mul_code [code]: "checked_mul a b = (if uint a * uint b < 18446744073709551616 then Some (a * b) else None)"
proof -
  have "unat a * unat b < 2 ^ 64 \<longleftrightarrow> int (unat a * unat b) < int (2 ^ 64)" by (simp only: of_nat_less_iff)
  then show ?thesis unfolding checked_mul_def uint_nat by simp
qed

text \<open>The closure \<^verbatim>\<open>scale\<close> of \<^verbatim>\<open>new_v3\<close>, with the two values it captures as arguments.\<close>

definition v3_scale :: "stake \<Rightarrow> stake \<Rightarrow> stake \<Rightarrow> stake option" where
  "v3_scale actual_total_stake base_stake nominal = do {
     p \<leftarrow> checked_mul nominal (actual_total_stake - 1);
     checked_div p base_stake
   }"

definition committee_new_v3 ::
  "nat \<Rightarrow> authority list \<Rightarrow> stake \<Rightarrow> stake \<Rightarrow> committee option" where
  "committee_new_v3 ep auths malicious_stake crash_stake = do {
     assert_that (auths \<noteq> []);
     assert_that (length auths < u32_max);
     let actual_total_stake = sum_list (map a_stake auths);
     assert_that (actual_total_stake \<noteq> 0);
     let base_stake = 5 * malicious_stake + 3 * crash_stake;
     (f, c) \<leftarrow> (if base_stake > 0 then do {
                 f \<leftarrow> v3_scale actual_total_stake base_stake malicious_stake;
                 c \<leftarrow> v3_scale actual_total_stake base_stake crash_stake;
                 Some (f, c)
               } else Some (0, 0));
     let validity_threshold = f + 1;
     let certification_threshold = 2 * f + c + 1;
     let quorum_threshold = actual_total_stake - f - c;
     assert_that (certification_threshold + quorum_threshold \<ge> actual_total_stake + f + 1);
     assert_that (quorum_threshold * 2 \<ge> actual_total_stake + f + certification_threshold);
     Some \<lparr>c_epoch = ep, c_authorities = auths, c_total_stake = actual_total_stake,
           c_quorum_threshold = quorum_threshold,
           c_certification_threshold = certification_threshold,
           c_validity_threshold = validity_threshold\<rparr>
   }"

definition committee_size :: "committee \<Rightarrow> nat" where
  "committee_size c = length (c_authorities c)"

definition committee_authority :: "committee \<Rightarrow> authority_index \<Rightarrow> authority option" where
  "committee_authority c i = vec_get (c_authorities c) i"

definition committee_stake :: "committee \<Rightarrow> authority_index \<Rightarrow> stake option" where
  "committee_stake c i = map_option a_stake (vec_get (c_authorities c) i)"

definition reached_quorum :: "committee \<Rightarrow> stake \<Rightarrow> bool" where
  "reached_quorum c s \<longleftrightarrow> s \<ge> c_quorum_threshold c"

definition reached_validity :: "committee \<Rightarrow> stake \<Rightarrow> bool" where
  "reached_validity c s \<longleftrightarrow> s \<ge> c_validity_threshold c"

definition to_authority_index :: "committee \<Rightarrow> nat \<Rightarrow> authority_index option" where
  "to_authority_index c i = (if i < length (c_authorities c) then Some i else None)"

definition is_valid_index :: "committee \<Rightarrow> authority_index \<Rightarrow> bool" where
  "is_valid_index c i \<longleftrightarrow> i < committee_size c"

definition authority_indices :: "committee \<Rightarrow> authority_index list" where
  "authority_indices c = [0..<length (c_authorities c)]"

subsection \<open>Stakes as natural numbers\<close>

definition stake_of :: "committee \<Rightarrow> authority_index \<Rightarrow> nat" where
  "stake_of c i = (if i < committee_size c then unat (a_stake (c_authorities c ! i)) else 0)"

definition members :: "committee \<Rightarrow> authority_index set" where
  "members c = {..<committee_size c}"

definition set_stake :: "committee \<Rightarrow> authority_index set \<Rightarrow> nat" where
  "set_stake c S = sum (stake_of c) (S \<inter> members c)"

definition auths_total :: "authority list \<Rightarrow> nat" where
  "auths_total auths = sum_list (map (unat \<circ> a_stake) auths)"

text \<open>The stake the thresholds tolerate as faulty: one below the validity threshold.\<close>

definition fault_budget :: "committee \<Rightarrow> nat" where
  "fault_budget c = unat (c_validity_threshold c) - 1"

text \<open>What both constructors establish, on the naturals.\<close>

definition committee_wf :: "committee \<Rightarrow> bool" where
  "committee_wf c \<longleftrightarrow>
     auths_total (c_authorities c) < 2 ^ 64 \<and>
     unat (c_total_stake c) = auths_total (c_authorities c) \<and>
     c_validity_threshold c \<noteq> 0 \<and>
     0 < unat (c_quorum_threshold c) \<and>
     unat (c_quorum_threshold c) + fault_budget c \<le> unat (c_total_stake c) \<and>
     unat (c_total_stake c) + fault_budget c < 2 * unat (c_quorum_threshold c)"

lemma finite_members [simp]: "finite (members c)"
  by (simp add: members_def)

lemma set_stake_mono: "S \<subseteq> T \<Longrightarrow> set_stake c S \<le> set_stake c T"
  unfolding set_stake_def by (rule sum_mono2) auto

lemma set_stake_empty [simp]: "set_stake c {} = 0"
  by (simp add: set_stake_def)

lemma set_stake_insert:
  "a < committee_size c \<Longrightarrow> a \<notin> S \<Longrightarrow> set_stake c (insert a S) = stake_of c a + set_stake c S"
  by (simp add: set_stake_def members_def)

lemma auths_total_members: "auths_total (c_authorities c) = set_stake c (members c)"
proof -
  have "auths_total (c_authorities c)
      = (\<Sum>i<committee_size c. unat (a_stake (c_authorities c ! i)))"
    by (simp add: auths_total_def sum_list_le_sum_set committee_size_def)
  also have "\<dots> = (\<Sum>i<committee_size c. stake_of c i)"
    by (rule sum.cong) (auto simp: stake_of_def)
  finally show ?thesis by (simp add: set_stake_def members_def)
qed

lemma set_stake_le_total: "set_stake c S \<le> auths_total (c_authorities c)"
proof -
  have "set_stake c S = set_stake c (S \<inter> members c)" by (simp add: set_stake_def)
  also have "\<dots> \<le> set_stake c (members c)" by (rule set_stake_mono) simp
  finally show ?thesis by (simp only: auths_total_members)
qed

lemma committee_stake_Some [simp]:
  "committee_stake c i = Some s \<longleftrightarrow> i < committee_size c \<and> s = a_stake (c_authorities c ! i)"
  by (auto simp: committee_stake_def committee_size_def)

lemma committee_stake_in: "i < committee_size c \<Longrightarrow> \<exists>s. committee_stake c i = Some s \<and> unat s = stake_of c i"
  by (simp add: stake_of_def)

subsection \<open>Quorum systems\<close>

locale quorum_system =
  fixes valid :: "'c \<Rightarrow> bool"
    and weight :: "'c \<Rightarrow> 'a set \<Rightarrow> nat"
    and total :: "'c \<Rightarrow> nat"
    and quorum :: "'c \<Rightarrow> nat"
    and budget :: "'c \<Rightarrow> nat"
  assumes weight_modular:
      "valid c \<Longrightarrow> weight c A + weight c B = weight c (A \<union> B) + weight c (A \<inter> B)"
    and weight_mono: "valid c \<Longrightarrow> A \<subseteq> B \<Longrightarrow> weight c A \<le> weight c B"
    and weight_total: "valid c \<Longrightarrow> weight c A \<le> total c"
    and quorums_overlap: "valid c \<Longrightarrow> total c + budget c < 2 * quorum c"
begin

lemma overlap_weight:
  assumes "valid c"
  shows "weight c A + weight c B \<le> total c + weight c (A \<inter> B)"
  using weight_modular[OF assms, of A B] weight_total[OF assms, of "A \<union> B"] by simp

lemma common_correct_general:
  assumes "valid c" and "total c + budget c < weight c A + weight c B"
    and "weight c F \<le> budget c"
  shows "\<exists>a. a \<in> A \<and> a \<in> B \<and> a \<notin> F"
proof (rule ccontr)
  assume "\<not> ?thesis"
  then have "A \<inter> B \<subseteq> F" by blast
  then have "weight c (A \<inter> B) \<le> budget c"
    using weight_mono[OF assms(1)] assms(3) order_trans by blast
  with overlap_weight[OF assms(1), of A B] assms(2) show False by simp
qed

lemma common_correct:
  assumes "valid c" and "quorum c \<le> weight c A" and "quorum c \<le> weight c B"
    and "weight c F \<le> budget c"
  shows "\<exists>a. a \<in> A \<and> a \<in> B \<and> a \<notin> F"
  by (rule common_correct_general[OF assms(1)]) (use quorums_overlap[OF assms(1)] assms in simp_all)

lemma quorum_has_correct:
  assumes "valid c" and "quorum c \<le> weight c A" and "weight c F \<le> budget c"
  shows "\<exists>a. a \<in> A \<and> a \<notin> F"
  using common_correct[OF assms(1,2,2,3)] by blast

end

lemma set_stake_modular:
  "set_stake c A + set_stake c B = set_stake c (A \<union> B) + set_stake c (A \<inter> B)"
proof -
  let ?M = "members c"
  have "sum (stake_of c) (A \<inter> ?M \<union> B \<inter> ?M) + sum (stake_of c) (A \<inter> ?M \<inter> (B \<inter> ?M))
      = sum (stake_of c) (A \<inter> ?M) + sum (stake_of c) (B \<inter> ?M)"
    by (rule sum.union_inter) auto
  moreover have "A \<inter> ?M \<union> B \<inter> ?M = (A \<union> B) \<inter> ?M" and "A \<inter> ?M \<inter> (B \<inter> ?M) = A \<inter> B \<inter> ?M"
    by auto
  ultimately show ?thesis by (simp add: set_stake_def)
qed

interpretation committee_quorums:
  quorum_system committee_wf set_stake "\<lambda>c. unat (c_total_stake c)"
    "\<lambda>c. unat (c_quorum_threshold c)" fault_budget
  using set_stake_modular set_stake_mono set_stake_le_total
  by unfold_locales (simp_all add: committee_wf_def)

subsection \<open>The constructors\<close>

lemma unat_sum_stakes:
  "auths_total auths < 2 ^ 64 \<Longrightarrow> unat (sum_list (map a_stake auths)) = auths_total auths"
  using unat_sum_list[of "map a_stake auths"] by (simp add: auths_total_def)

lemma u64_nonzero: "(x :: u64) \<noteq> 0 \<longleftrightarrow> 0 < unat x"
  by (simp add: unat_gt_0)

lemma unat_fault_tolerance: "x \<noteq> 0 \<Longrightarrow> unat ((x - 1) div (3 :: u64)) = (unat x - 1) div 3"
  by (simp add: unat_div unat_minus_one)

text \<open>The arithmetic of \<^verbatim>\<open>Committee::new\<close> on a total \<open>t\<close> that leaves a factor two of headroom.\<close>

lemma v2_thresholds:
  assumes "unat (t :: u64) < 2 ^ 63" and "t \<noteq> 0"
  defines "f \<equiv> (t - 1) div 3"
  shows "unat f = (unat t - 1) div 3" and "unat (t - f) = unat t - (unat t - 1) div 3"
    and "unat (f + 1) = (unat t - 1) div 3 + 1" and "t < 2 * (t - f) - f"
proof -
  have pos: "0 < unat t" using assms(2) by (simp add: unat_gt_0)
  show f: "unat f = (unat t - 1) div 3" using assms(2) by (simp add: f_def unat_fault_tolerance)
  have q: "unat (t - f) = unat t - unat f"
    by (rule unat_sub_u64) (use f in simp)
  then show "unat (t - f) = unat t - (unat t - 1) div 3" using f by simp
  have v: "unat (f + 1) = unat f + 1"
    using unat_add_u64[of f 1] f assms(1) by simp
  then show "unat (f + 1) = (unat t - 1) div 3 + 1" using f by simp
  have d: "unat (2 * (t - f)) = 2 * unat (t - f)"
    using unat_mult_u64[of 2 "t - f"] q assms(1) by simp
  have e: "unat (2 * (t - f) - f) = 2 * unat (t - f) - unat f"
    unfolding d [symmetric] by (rule unat_sub_u64) (unfold d q f, arith)
  show "t < 2 * (t - f) - f"
    unfolding word_less_nat_alt e q f using pos by arith
qed

lemma committee_new_exact:
  assumes "auths_total auths < 2 ^ 63" and "committee_new ep auths = Some c"
  shows "c_authorities c = auths" and "c_epoch c = ep"
    and "unat (c_total_stake c) = auths_total auths" and "0 < auths_total auths"
    and "unat (c_quorum_threshold c) = auths_total auths - (auths_total auths - 1) div 3"
    and "unat (c_validity_threshold c) = (auths_total auths - 1) div 3 + 1"
    and "c_certification_threshold c = c_quorum_threshold c"
proof -
  define t where "t = sum_list (map a_stake auths)"
  have t: "unat t = auths_total auths" using unat_sum_stakes assms(1) by (simp add: t_def)
  from assms(2) have nz: "t \<noteq> 0"
    by (auto simp: committee_new_def Let_def panic_simps t_def)
  note th = v2_thresholds[OF _ nz]
  from assms(2) show "c_authorities c = auths" "c_epoch c = ep"
    "c_certification_threshold c = c_quorum_threshold c"
    by (auto simp: committee_new_def Let_def panic_simps)
  show "0 < auths_total auths" using nz t by (simp add: unat_gt_0 flip: t)
  from assms(2) t show "unat (c_total_stake c) = auths_total auths"
    by (auto simp: committee_new_def Let_def panic_simps t_def)
  from assms(2) th(2) t assms(1)
  show "unat (c_quorum_threshold c) = auths_total auths - (auths_total auths - 1) div 3"
    by (auto simp: committee_new_def Let_def panic_simps t_def)
  from assms(2) th(3) t assms(1)
  show "unat (c_validity_threshold c) = (auths_total auths - 1) div 3 + 1"
    by (auto simp: committee_new_def Let_def panic_simps t_def)
qed

lemma committee_new_wf:
  assumes "auths_total auths < 2 ^ 63" and "committee_new ep auths = Some c"
  shows "committee_wf c"
proof -
  note e = committee_new_exact[OF assms]
  have "c_validity_threshold c \<noteq> 0" using e(6) by auto
  moreover have "fault_budget c = (auths_total auths - 1) div 3"
    by (simp add: fault_budget_def e(6))
  moreover have "auths_total auths + (auths_total auths - 1) div 3
      < 2 * (auths_total auths - (auths_total auths - 1) div 3)"
    and "(auths_total auths - 1) div 3 < auths_total auths" using e(4) by arith+
  ultimately show ?thesis
    using e(3-5) assms(1) unfolding committee_wf_def e(1) by simp
qed

lemma committee_new_None:
  assumes "auths_total auths < 2 ^ 63"
  shows "committee_new ep auths = None \<longleftrightarrow>
    auths = [] \<or> u32_max \<le> length auths \<or> auths_total auths = 0"
proof -
  define t where "t = sum_list (map a_stake auths)"
  have t: "unat t = auths_total auths" using unat_sum_stakes assms(1) by (simp add: t_def)
  have z: "t = 0 \<longleftrightarrow> auths_total auths = 0" using t by (metis unat_eq_zero)
  have "t \<noteq> 0 \<Longrightarrow> t < 2 * (t - (t - 1) div 3) - (t - 1) div 3"
    using v2_thresholds(4)[of t] t assms by simp
  then show ?thesis
    unfolding committee_new_def Let_def t_def[symmetric] z[symmetric]
    by (auto simp: assert_that_bind)
qed

lemma v3_scaling:
  fixes F C T :: nat
  assumes "0 < 5 * F + 3 * C" and "0 < T"
  defines "f \<equiv> F * (T - 1) div (5 * F + 3 * C)" and "c \<equiv> C * (T - 1) div (5 * F + 3 * C)"
  shows "5 * f + 3 * c + 1 \<le> T"
proof -
  define B where "B = 5 * F + 3 * C"
  have "f * B \<le> F * (T - 1)" and "c * B \<le> C * (T - 1)"
    unfolding f_def c_def B_def by (simp_all only: div_times_less_eq_dividend)
  then have "5 * (f * B) + 3 * (c * B) \<le> 5 * (F * (T - 1)) + 3 * (C * (T - 1))" by simp
  also have "\<dots> = (T - 1) * B" by (simp add: B_def algebra_simps)
  finally have "(5 * f + 3 * c) * B \<le> (T - 1) * B" by (simp add: algebra_simps)
  then have "5 * f + 3 * c \<le> T - 1" using assms(1) by (auto simp: B_def)
  with assms(2) show ?thesis by simp
qed

text \<open>The scaled fault budgets of \<^verbatim>\<open>Committee::new_v3\<close>, as naturals.\<close>

definition v3_faults :: "nat \<Rightarrow> stake \<Rightarrow> stake \<Rightarrow> nat \<times> nat" where
  "v3_faults tot malicious crash =
     (let base = 5 * unat malicious + 3 * unat crash in
      if base = 0 then (0, 0)
      else (unat malicious * (tot - 1) div base, unat crash * (tot - 1) div base))"

lemma v3_faults_bound:
  "0 < tot \<Longrightarrow> v3_faults tot m k = (f, c) \<Longrightarrow> 5 * f + 3 * c + 1 \<le> tot"
  using v3_scaling[of "unat m" "unat k" tot]
  by (auto simp: v3_faults_def Let_def split: if_splits)

lemma v3_asserts:
  fixes t f c :: u64
  assumes "unat t < 2 ^ 62" and "5 * unat f + 3 * unat c + 1 \<le> unat t"
  shows "unat (f + 1) = unat f + 1" and "unat (2 * f + c + 1) = 2 * unat f + unat c + 1"
    and "unat (t - f - c) = unat t - unat f - unat c"
    and "t + f + 1 \<le> (2 * f + c + 1) + (t - f - c)"
    and "t + f + (2 * f + c + 1) \<le> (t - f - c) * 2"
proof -
  show "unat (f + 1) = unat f + 1" using unat_add_u64[of f 1] assms by simp
  have a: "unat (2 * f) = 2 * unat f" using unat_mult_u64[of 2 f] assms by simp
  have b: "unat (2 * f + c) = 2 * unat f + unat c" using unat_add_u64[of "2 * f" c] a assms by simp
  show cert: "unat (2 * f + c + 1) = 2 * unat f + unat c + 1"
    using unat_add_u64[of "2 * f + c" 1] b assms by simp
  have d: "unat (t - f) = unat t - unat f" by (rule unat_sub_u64) (use assms in simp)
  show q: "unat (t - f - c) = unat t - unat f - unat c"
    using unat_sub_u64[of c "t - f"] d assms by simp
  show "t + f + 1 \<le> (2 * f + c + 1) + (t - f - c)" by (simp add: algebra_simps)
  have l1: "unat (t + f) = unat t + unat f" using unat_add_u64[of t f] assms by simp
  have l: "unat (t + f + (2 * f + c + 1)) = unat t + unat f + (2 * unat f + unat c + 1)"
    using unat_add_u64[of "t + f" "2 * f + c + 1"] l1 cert assms by simp
  have r: "unat ((t - f - c) * 2) = (unat t - unat f - unat c) * 2"
    using unat_mult_u64[of "t - f - c" 2] q assms by simp
  show "t + f + (2 * f + c + 1) \<le> (t - f - c) * 2"
    unfolding word_le_nat_alt l r using assms(2) by simp
qed

lemma committee_new_v3_exact:
  assumes "auths \<noteq> []" and "length auths < u32_max" and "0 < auths_total auths"
    and "auths_total auths < 2 ^ 62" and "5 * unat m + 3 * unat k < 2 ^ 64"
    and "unat m * (auths_total auths - 1) < 2 ^ 64" and "unat k * (auths_total auths - 1) < 2 ^ 64"
    and "v3_faults (auths_total auths) m k = (f, c)"
  shows "\<exists>cm. committee_new_v3 ep auths m k = Some cm \<and> c_authorities cm = auths \<and> c_epoch cm = ep \<and>
    unat (c_total_stake cm) = auths_total auths \<and>
    unat (c_validity_threshold cm) = f + 1 \<and>
    unat (c_certification_threshold cm) = 2 * f + c + 1 \<and>
    unat (c_quorum_threshold cm) = auths_total auths - f - c"
proof -
  define t where "t = sum_list (map a_stake auths)"
  have t: "unat t = auths_total auths" using unat_sum_stakes assms(4) by (simp add: t_def)
  then have nz: "t \<noteq> 0" using assms(3) by auto
  then have t1: "unat (t - 1) = auths_total auths - 1" using t by (simp add: unat_minus_one)
  define b where "b = 5 * m + 3 * k"
  have "unat (5 * m) = 5 * unat m" and "unat (3 * k) = 3 * unat k"
    using unat_mult_u64[of 5 m] unat_mult_u64[of 3 k] assms(5) by simp_all
  then have b: "unat b = 5 * unat m + 3 * unat k"
    using unat_add_u64[of "5 * m" "3 * k"] assms(5) by (simp add: b_def)
  have sc: "v3_scale t b n = Some ((n * (t - 1)) div b) \<and>
      unat ((n * (t - 1)) div b) = unat n * (auths_total auths - 1) div unat b"
    if "b > 0" "unat n * (auths_total auths - 1) < 2 ^ 64" for n
    using that t1 unat_mult_u64[of n "t - 1"]
    by (auto simp: v3_scale_def checked_mul_def checked_div_def unat_div)
  have "\<exists>fw cw. (if b > 0 then do { f \<leftarrow> v3_scale t b m; c \<leftarrow> v3_scale t b k; Some (f, c) } else Some (0, 0)) = Some (fw, cw)
      \<and> unat fw = f \<and> unat cw = c"
  proof (cases "b > 0")
    case True
    then have "0 < 5 * unat m + 3 * unat k" using b by (simp add: word_less_nat_alt)
    with True sc[of m] sc[of k] assms(6,7,8) show ?thesis
      by (auto simp: v3_faults_def b Let_def)
  next
    case False
    then have "unat b = 0" by (simp add: word_less_nat_alt)
    with False b assms(8) show ?thesis by (auto simp: v3_faults_def)
  qed
  then obtain fw cw where fc: "(if b > 0 then do { f \<leftarrow> v3_scale t b m; c \<leftarrow> v3_scale t b k; Some (f, c) } else Some (0, 0))
      = Some (fw, cw)" "unat fw = f" "unat cw = c" by blast
  have "5 * unat fw + 3 * unat cw + 1 \<le> unat t"
    using v3_faults_bound[OF assms(3,8)] fc(2,3) t by simp
  note a = v3_asserts[OF _ this]
  show ?thesis
    unfolding committee_new_v3_def Let_def t_def[symmetric] b_def[symmetric]
    using assms(1,2) nz a t assms(4) fc by (simp add: assert_that_bind del: word_le_nat_alt)
qed

subsection \<open>Sample committees\<close>

definition sample_authority :: "stake \<Rightarrow> authority" where
  "sample_authority s = \<lparr>a_stake = s, a_address = [], a_hostname = [], a_authority_name = [],
     a_protocol_key = [], a_network_key = []\<rparr>"

text \<open>Four authorities of stake 1: the smallest committee that tolerates a fault.\<close>

definition committee4 :: committee where
  "committee4 = \<lparr>c_epoch = 0, c_authorities = map sample_authority [1, 1, 1, 1],
     c_total_stake = 4, c_quorum_threshold = 3, c_certification_threshold = 3,
     c_validity_threshold = 2\<rparr>"

lemma committee4_new: "committee_new 0 (map sample_authority [1, 1, 1, 1]) = Some committee4"
  by (simp add: committee_new_def Let_def sample_authority_def u32_max_def committee4_def)

lemma committee4_size [simp]: "committee_size committee4 = 4"
  by (simp add: committee4_def committee_size_def)

lemma committee4_wf: "committee_wf committee4"
  by (rule committee_new_wf[OF _ committee4_new]) (simp add: auths_total_def sample_authority_def)

lemma committee4_budget: "fault_budget committee4 = 1"
  by (simp add: fault_budget_def committee4_def)

lemma committee4_stake_of: "i < 4 \<Longrightarrow> stake_of committee4 i = 1"
  by (auto simp: stake_of_def committee4_def committee_size_def sample_authority_def less_Suc_eq numeral_eq_Suc)

lemma committee4_set_stake: "S \<subseteq> {..<4} \<Longrightarrow> set_stake committee4 S = card S"
proof -
  assume S: "S \<subseteq> {..<4}"
  then have "set_stake committee4 S = sum (stake_of committee4) S"
    by (auto simp: set_stake_def members_def intro!: arg_cong2[of _ _ _ _ sum])
  also have "\<dots> = sum (\<lambda>_. 1) S" by (rule sum.cong) (use S committee4_stake_of in auto)
  finally show ?thesis by simp
qed

subsection \<open>Properties\<close>

text \<open>
  With less than \<open>2^63\<close> total stake, \<^verbatim>\<open>Committee::new\<close> panics exactly on an empty or
  oversized authority list or a zero total, and never on its quorum assertion.
\<close>

theorem committee_new_panics_iff:
  assumes "auths_total auths < 2 ^ 63"
  shows "committee_new ep auths = None \<longleftrightarrow>
    auths = [] \<or> u32_max \<le> length auths \<or> auths_total auths = 0"
  using committee_new_None[OF assms] .

theorem committee_new_panics_iff_witness:
  "committee_new 0 (map sample_authority [1, 1, 1, 1]) \<noteq> None \<and>
   committee_new 0 (map sample_authority [0, 0]) = None"
  using committee_new_panics_iff[of "map sample_authority [1, 1, 1, 1]" 0]
    committee_new_panics_iff[of "map sample_authority [0, 0]" 0]
  by (simp add: auths_total_def sample_authority_def u32_max_def)

text \<open>
  C31. The thresholds of \<^verbatim>\<open>Committee::new_v3\<close>: for every fault budget the authorities can carry,
  the constructor does not panic on its two stake-safety assertions, the thresholds are the
  documented ones with the scaled budgets \<open>f\<close> and \<open>c\<close>, and any two quorums share an
  authority outside every set of authorities of stake at most \<open>f\<close>; moreover a certificate
  and a quorum do.
\<close>

theorem committee_new_v3_safe:
  assumes "auths \<noteq> []" and "length auths < u32_max" and "0 < auths_total auths"
    and "auths_total auths < 2 ^ 62" and "5 * unat m + 3 * unat k < 2 ^ 64"
    and "unat m * (auths_total auths - 1) < 2 ^ 64" and "unat k * (auths_total auths - 1) < 2 ^ 64"
    and "v3_faults (auths_total auths) m k = (f, c)"
  shows "\<exists>cm. committee_new_v3 ep auths m k = Some cm \<and>
    unat (c_validity_threshold cm) = f + 1 \<and>
    unat (c_certification_threshold cm) = 2 * f + c + 1 \<and>
    unat (c_quorum_threshold cm) = auths_total auths - f - c \<and>
    (\<forall>A B F. set_stake cm F \<le> f \<and> unat (c_quorum_threshold cm) \<le> set_stake cm B \<and>
       (unat (c_quorum_threshold cm) \<le> set_stake cm A \<or>
        unat (c_certification_threshold cm) \<le> set_stake cm A) \<longrightarrow>
       (\<exists>a. a \<in> A \<and> a \<in> B \<and> a \<notin> F))"
proof -
  from committee_new_v3_exact[OF assms, of ep] obtain cm where
    cm: "committee_new_v3 ep auths m k = Some cm" "c_authorities cm = auths"
      "unat (c_total_stake cm) = auths_total auths" "unat (c_validity_threshold cm) = f + 1"
      "unat (c_certification_threshold cm) = 2 * f + c + 1"
      "unat (c_quorum_threshold cm) = auths_total auths - f - c" by blast
  note b = v3_faults_bound[OF assms(3,8)]
  have fb: "fault_budget cm = f" by (simp add: fault_budget_def cm(4))
  have wf: "committee_wf cm"
    using cm(2-6) b assms(4) fb by (auto simp: committee_wf_def)
  have "\<exists>a. a \<in> A \<and> a \<in> B \<and> a \<notin> F"
    if "set_stake cm F \<le> f" "unat (c_quorum_threshold cm) \<le> set_stake cm B"
      "unat (c_quorum_threshold cm) \<le> set_stake cm A \<or>
       unat (c_certification_threshold cm) \<le> set_stake cm A" for A B F
    by (rule committee_quorums.common_correct_general[OF wf]) (use that cm(3,5,6) b fb in auto)
  with cm show ?thesis by blast
qed

theorem committee_new_v3_safe_witness:
  "\<exists>cm. committee_new_v3 0 (map sample_authority [3, 3, 3]) 1 1 = Some cm \<and>
    unat (c_validity_threshold cm) = 2 \<and> unat (c_certification_threshold cm) = 4 \<and>
    unat (c_quorum_threshold cm) = 7"
proof -
  have T: "auths_total (map sample_authority [3, 3, 3]) = 9"
    by (simp add: auths_total_def sample_authority_def)
  have "v3_faults 9 1 1 = (1, 1)" by (simp add: v3_faults_def)
  with committee_new_v3_safe[of "map sample_authority [3, 3, 3]" 1 1 1 1 0] T show ?thesis
    by (auto simp: u32_max_def)
qed

end
