(* ===== verification/Block_Types.thy ===== *)
theory Block_Types
  imports Committee
begin

text \<open>
  Blocks, slots, references and the per-epoch context
  (\<^verbatim>\<open>consensus/types/src/block.rs\<close>, \<^verbatim>\<open>consensus/core/src/block.rs\<close>,
  \<^verbatim>\<open>consensus/core/src/context.rs\<close>, \<^verbatim>\<open>consensus/config/src/consensus_protocol_config.rs\<close>).
  A 32-byte digest is a 256-bit word: the lexicographic order of big-endian byte arrays is the
  numeric order. Rounds, authority and transaction indices are natural numbers.
  The \<^verbatim>\<open>bcs\<close> serializer, the hash function and the signature scheme come from other crates and
  are the fields of a record \<open>crypto\<close> that the definitions take as an argument.
\<close>

subsection \<open>References and slots\<close>

type_synonym round = nat
type_synonym timestamp_ms = nat
type_synonym transaction_index = nat
type_synonym commit_index = nat

datatype block_ref = BlockRef (br_round: round) (br_author: authority_index) (br_digest: digest)

datatype slot = Slot (slot_round: round) (slot_authority: authority_index)

instantiation block_ref :: linorder
begin

definition less_eq_block_ref :: "block_ref \<Rightarrow> block_ref \<Rightarrow> bool" where
  "less_eq_block_ref a b \<longleftrightarrow>
     (br_round a, br_author a, br_digest a) \<le> (br_round b, br_author b, br_digest b)"

definition less_block_ref :: "block_ref \<Rightarrow> block_ref \<Rightarrow> bool" where
  "less_block_ref a b \<longleftrightarrow>
     (br_round a, br_author a, br_digest a) < (br_round b, br_author b, br_digest b)"

instance
  by standard (auto simp: less_eq_block_ref_def less_block_ref_def block_ref.expand)

end

instantiation slot :: linorder
begin

definition less_eq_slot :: "slot \<Rightarrow> slot \<Rightarrow> bool" where
  "less_eq_slot a b \<longleftrightarrow> (slot_round a, slot_authority a) \<le> (slot_round b, slot_authority b)"

definition less_slot :: "slot \<Rightarrow> slot \<Rightarrow> bool" where
  "less_slot a b \<longleftrightarrow> (slot_round a, slot_authority a) < (slot_round b, slot_authority b)"

instance
  by standard (auto simp: less_eq_slot_def less_slot_def slot.expand)

end

instance block_ref :: wellorder
proof
  fix P :: "block_ref \<Rightarrow> bool" and a
  assume step: "\<And>x. (\<And>y. y < x \<Longrightarrow> P y) \<Longrightarrow> P x"
  let ?m = "\<lambda>b. (br_round b, br_author b, unat (br_digest b))"
  have "wf (inv_image (less_than <*lex*> less_than <*lex*> less_than) ?m)" by auto
  then show "P a"
  proof (induction a)
    case (less x)
    show ?case
    proof (rule step)
      fix y assume "y < x"
      then have "(y, x) \<in> inv_image (less_than <*lex*> less_than <*lex*> less_than) ?m"
        by (auto simp: less_block_ref_def word_less_nat_alt)
      then show "P y" by (rule less)
    qed
  qed
qed

lemma block_ref_less_round: "br_round a < br_round b \<Longrightarrow> a < b"
  by (simp add: less_block_ref_def)

lemma block_ref_le_round: "a \<le> b \<Longrightarrow> br_round a \<le> br_round b"
  by (auto simp: less_eq_block_ref_def)

definition slot_from :: "block_ref \<Rightarrow> slot" where
  "slot_from r = Slot (br_round r) (br_author r)"

lemma slot_from_sel [simp]:
  "slot_round (slot_from r) = br_round r" "slot_authority (slot_from r) = br_author r"
  by (simp_all add: slot_from_def)

definition GENESIS_ROUND :: round where
  "GENESIS_ROUND = 0"

subsection \<open>Blocks\<close>

record commit_ref =
  cr_index :: commit_index
  cr_digest :: digest

record transaction =
  t_data :: bytes

record block_transaction_votes =
  btv_block_ref :: block_ref
  btv_rejects :: "transaction_index list"

datatype misbehavior_proof = InvalidBlock block_ref

record misbehavior_report =
  mr_target :: authority_index
  mr_proof :: misbehavior_proof

record block_v1 =
  b1_epoch :: nat
  b1_round :: round
  b1_author :: authority_index
  b1_timestamp_ms :: timestamp_ms
  b1_ancestors :: "block_ref list"
  b1_transactions :: "transaction list"
  b1_commit_votes :: "commit_ref list"
  b1_misbehavior_reports :: "misbehavior_report list"

record block_v2 =
  b2_epoch :: nat
  b2_round :: round
  b2_author :: authority_index
  b2_timestamp_ms :: timestamp_ms
  b2_ancestors :: "block_ref list"
  b2_transactions :: "transaction list"
  b2_transaction_votes :: "block_transaction_votes list"
  b2_commit_votes :: "commit_ref list"
  b2_misbehavior_reports :: "misbehavior_report list"

record block_v3 =
  b3_epoch :: nat
  b3_round :: round
  b3_author :: authority_index
  b3_timestamp_ms :: timestamp_ms
  b3_ancestors :: "block_ref list"
  b3_transactions :: "transaction list"
  b3_transaction_votes :: "block_transaction_votes list"
  b3_transaction_votes_cutoff_round :: round
  b3_commit_votes :: "commit_ref list"
  b3_misbehavior_reports :: "misbehavior_report list"

datatype block = V1 block_v1 | V2 block_v2 | V3 block_v3

text \<open>The \<^verbatim>\<open>BlockAPI\<close> trait, dispatched on the version.\<close>

fun block_epoch :: "block \<Rightarrow> nat" where
  "block_epoch (V1 b) = b1_epoch b"
| "block_epoch (V2 b) = b2_epoch b"
| "block_epoch (V3 b) = b3_epoch b"

fun block_round :: "block \<Rightarrow> round" where
  "block_round (V1 b) = b1_round b"
| "block_round (V2 b) = b2_round b"
| "block_round (V3 b) = b3_round b"

fun block_author :: "block \<Rightarrow> authority_index" where
  "block_author (V1 b) = b1_author b"
| "block_author (V2 b) = b2_author b"
| "block_author (V3 b) = b3_author b"

definition block_slot :: "block \<Rightarrow> slot" where
  "block_slot b = Slot (block_round b) (block_author b)"

fun block_timestamp_ms :: "block \<Rightarrow> timestamp_ms" where
  "block_timestamp_ms (V1 b) = b1_timestamp_ms b"
| "block_timestamp_ms (V2 b) = b2_timestamp_ms b"
| "block_timestamp_ms (V3 b) = b3_timestamp_ms b"

fun block_ancestors :: "block \<Rightarrow> block_ref list" where
  "block_ancestors (V1 b) = b1_ancestors b"
| "block_ancestors (V2 b) = b2_ancestors b"
| "block_ancestors (V3 b) = b3_ancestors b"

fun block_transactions :: "block \<Rightarrow> transaction list" where
  "block_transactions (V1 b) = b1_transactions b"
| "block_transactions (V2 b) = b2_transactions b"
| "block_transactions (V3 b) = b3_transactions b"

definition block_transactions_data :: "block \<Rightarrow> bytes list" where
  "block_transactions_data b = map t_data (block_transactions b)"

fun block_transaction_votes_list :: "block \<Rightarrow> block_transaction_votes list" where
  "block_transaction_votes_list (V1 b) = []"
| "block_transaction_votes_list (V2 b) = b2_transaction_votes b"
| "block_transaction_votes_list (V3 b) = b3_transaction_votes b"

fun block_transaction_votes_cutoff_round :: "block \<Rightarrow> round option" where
  "block_transaction_votes_cutoff_round (V1 b) = None"
| "block_transaction_votes_cutoff_round (V2 b) = None"
| "block_transaction_votes_cutoff_round (V3 b) = Some (b3_transaction_votes_cutoff_round b)"

fun block_commit_votes :: "block \<Rightarrow> commit_ref list" where
  "block_commit_votes (V1 b) = b1_commit_votes b"
| "block_commit_votes (V2 b) = b2_commit_votes b"
| "block_commit_votes (V3 b) = b3_commit_votes b"

fun block_misbehavior_reports :: "block \<Rightarrow> misbehavior_report list" where
  "block_misbehavior_reports (V1 b) = b1_misbehavior_reports b"
| "block_misbehavior_reports (V2 b) = b2_misbehavior_reports b"
| "block_misbehavior_reports (V3 b) = b3_misbehavior_reports b"

record signed_block =
  sb_inner :: block
  sb_signature :: bytes

record verified_block =
  vb_block :: signed_block
  vb_digest :: digest
  vb_serialized :: bytes

text \<open>\<^verbatim>\<open>VerifiedBlock\<close> dereferences to its block; the accessors the other components use.\<close>

definition vb_round :: "verified_block \<Rightarrow> round" where
  "vb_round b = block_round (sb_inner (vb_block b))"

definition vb_author :: "verified_block \<Rightarrow> authority_index" where
  "vb_author b = block_author (sb_inner (vb_block b))"

definition vb_ancestors :: "verified_block \<Rightarrow> block_ref list" where
  "vb_ancestors b = block_ancestors (sb_inner (vb_block b))"

definition vb_timestamp_ms :: "verified_block \<Rightarrow> timestamp_ms" where
  "vb_timestamp_ms b = block_timestamp_ms (sb_inner (vb_block b))"

definition vb_commit_votes :: "verified_block \<Rightarrow> commit_ref list" where
  "vb_commit_votes b = block_commit_votes (sb_inner (vb_block b))"

definition vb_transactions_data :: "verified_block \<Rightarrow> bytes list" where
  "vb_transactions_data b = block_transactions_data (sb_inner (vb_block b))"

definition reference :: "verified_block \<Rightarrow> block_ref" where
  "reference b = BlockRef (vb_round b) (vb_author b) (vb_digest b)"

lemma reference_sel [simp]:
  "br_round (reference b) = vb_round b" "br_author (reference b) = vb_author b"
  "br_digest (reference b) = vb_digest b"
  by (simp_all add: reference_def)

record extended_block =
  eb_block :: verified_block
  eb_excluded_ancestors :: "block_ref list"

subsection \<open>Cryptography and serialization\<close>

record crypto =
  cy_hash :: "bytes \<Rightarrow> digest"
  cy_bcs_block :: "block \<Rightarrow> string + bytes"
  cy_bcs_signed_block :: "signed_block \<Rightarrow> string + bytes"
  cy_bcs_intent :: "digest \<Rightarrow> string + bytes"
  cy_signature_from_bytes :: "bytes \<Rightarrow> string + bytes"
  cy_verify :: "bytes \<Rightarrow> bytes \<Rightarrow> bytes \<Rightarrow> string + unit"

definition new_verified :: "crypto \<Rightarrow> signed_block \<Rightarrow> bytes \<Rightarrow> verified_block" where
  "new_verified cy sb ser = \<lparr>vb_block = sb, vb_digest = cy_hash cy ser, vb_serialized = ser\<rparr>"

definition new_genesis :: "block \<Rightarrow> signed_block" where
  "new_genesis b = \<lparr>sb_inner = b, sb_signature = []\<rparr>"

subsection \<open>Context\<close>

record consensus_protocol_config =
  pc_max_transaction_size_bytes :: nat
  pc_max_transactions_in_block_bytes :: nat
  pc_max_num_transactions_in_block :: nat
  pc_gc_depth :: nat
  pc_transaction_voting_enabled :: bool
  pc_num_leaders_per_round :: "nat option"
  pc_bad_nodes_stake_threshold :: u64
  pc_enable_v3 :: bool
  pc_leader_schedule_window_size :: nat
  pc_leader_schedule_update_interval :: nat

record parameters =
  pa_dag_state_cached_rounds :: nat
  pa_skip_equivocation_validation :: bool
  pa_min_round_delay :: nat
  pa_propagation_delay_stop_proposal_threshold :: nat
  pa_commit_sync_batch_size :: nat

record consensus_context =
  cx_epoch_start_timestamp_ms :: timestamp_ms
  cx_own_index :: authority_index
  cx_committee :: committee
  cx_parameters :: parameters
  cx_protocol_config :: consensus_protocol_config

definition context_is_validator :: "consensus_context \<Rightarrow> bool" where
  "context_is_validator cx = is_valid_index (cx_committee cx) (cx_own_index cx)"

subsection \<open>Genesis\<close>

definition genesis_block_v1 :: "consensus_context \<Rightarrow> authority_index \<Rightarrow> block_v1" where
  "genesis_block_v1 ctx a =
     \<lparr>b1_epoch = c_epoch (cx_committee ctx), b1_round = GENESIS_ROUND, b1_author = a,
      b1_timestamp_ms = cx_epoch_start_timestamp_ms ctx, b1_ancestors = [],
      b1_transactions = [], b1_commit_votes = [], b1_misbehavior_reports = []\<rparr>"

definition genesis_block_v2 :: "consensus_context \<Rightarrow> authority_index \<Rightarrow> block_v2" where
  "genesis_block_v2 ctx a =
     \<lparr>b2_epoch = c_epoch (cx_committee ctx), b2_round = GENESIS_ROUND, b2_author = a,
      b2_timestamp_ms = cx_epoch_start_timestamp_ms ctx, b2_ancestors = [],
      b2_transactions = [], b2_transaction_votes = [], b2_commit_votes = [],
      b2_misbehavior_reports = []\<rparr>"

definition genesis_block :: "crypto \<Rightarrow> consensus_context \<Rightarrow> authority_index \<Rightarrow> verified_block option" where
  "genesis_block cy ctx a =
     (let b = (if pc_transaction_voting_enabled (cx_protocol_config ctx)
               then V2 (genesis_block_v2 ctx a) else V1 (genesis_block_v1 ctx a));
          sb = new_genesis b
      in case cy_bcs_signed_block cy sb of
           Inl e \<Rightarrow> None
         | Inr ser \<Rightarrow> Some (new_verified cy sb ser))"

definition genesis_blocks :: "crypto \<Rightarrow> consensus_context \<Rightarrow> verified_block list option" where
  "genesis_blocks cy ctx = mapM (genesis_block cy ctx) (authority_indices (cx_committee ctx))"

lemma genesis_block_sel:
  assumes "genesis_block cy ctx a = Some b"
  shows "vb_round b = GENESIS_ROUND" "vb_author b = a" "vb_ancestors b = []"
  using assms
  by (auto simp: genesis_block_def Let_def new_verified_def new_genesis_def vb_round_def
      vb_author_def vb_ancestors_def genesis_block_v1_def genesis_block_v2_def split: sum.splits if_splits)

lemma genesis_blocks_nth:
  assumes "genesis_blocks cy ctx = Some bs"
  shows "length bs = committee_size (cx_committee ctx)"
    and "i < length bs \<Longrightarrow> vb_round (bs ! i) = GENESIS_ROUND \<and> vb_author (bs ! i) = i \<and> vb_ancestors (bs ! i) = []"
proof -
  from assms have l: "list_all2 (\<lambda>x y. genesis_block cy ctx x = Some y)
      [0..<committee_size (cx_committee ctx)] bs"
    by (simp add: genesis_blocks_def authority_indices_def mapM_Some_iff committee_size_def)
  from list_all2_lengthD[OF l] show len: "length bs = committee_size (cx_committee ctx)" by simp
  assume "i < length bs"
  with list_all2_nthD2[OF l this] len have "genesis_block cy ctx i = Some (bs ! i)" by simp
  from genesis_block_sel[OF this] show "vb_round (bs ! i) = GENESIS_ROUND \<and> vb_author (bs ! i) = i \<and> vb_ancestors (bs ! i) = []"
    by simp
qed

subsection \<open>Errors\<close>

text \<open>The variants of \<^verbatim>\<open>ConsensusError\<close> that the modelled components return.\<close>

datatype consensus_error =
    MalformedBlock string
  | MalformedCommit string
  | SerializationFailure string
  | TransactionTooLarge nat nat
  | TooManyTransactions nat nat
  | TooManyTransactionBytes nat nat
  | WrongEpoch nat nat
  | UnexpectedGenesisBlock
  | InvalidAuthorityIndex authority_index nat
  | MalformedSignature string
  | SignatureVerificationFailure string
  | InvalidAncestorPosition authority_index authority_index nat
  | InvalidAncestorRound round round
  | InvalidGenesisAncestor block_ref
  | TooManyAncestors nat nat
  | DuplicatedAncestorsAuthority authority_index
  | InsufficientParentStakes stake stake
  | InvalidTransaction string
  | UnexpectedCertifiedCommitIndex commit_index commit_index
  | Shutdown

type_synonym 'a consensus_result = "consensus_error + 'a"

subsection \<open>Sample data\<close>

text \<open>A deterministic stand-in for the cryptography, a context over the four-member committee, and blocks, for concrete instances.\<close>

definition sample_crypto :: crypto where
  "sample_crypto = \<lparr>cy_hash = (\<lambda>b. of_nat (length b)), cy_bcs_block = (\<lambda>b. Inr []),
     cy_bcs_signed_block = (\<lambda>b. Inr []), cy_bcs_intent = (\<lambda>d. Inr []),
     cy_signature_from_bytes = (\<lambda>s. Inr s), cy_verify = (\<lambda>k m s. if s = [7] then Inr () else Inl ''bad'')\<rparr>"

definition sample_context :: consensus_context where
  "sample_context = \<lparr>cx_epoch_start_timestamp_ms = 0, cx_own_index = 0, cx_committee = committee4,
     cx_parameters = \<lparr>pa_dag_state_cached_rounds = 500, pa_skip_equivocation_validation = False,
       pa_min_round_delay = 50, pa_propagation_delay_stop_proposal_threshold = 5, pa_commit_sync_batch_size = 100\<rparr>,
     cx_protocol_config = \<lparr>pc_max_transaction_size_bytes = 10, pc_max_transactions_in_block_bytes = 12,
       pc_max_num_transactions_in_block = 5, pc_gc_depth = 3, pc_transaction_voting_enabled = True,
       pc_num_leaders_per_round = Some 1, pc_bad_nodes_stake_threshold = 20, pc_enable_v3 = False,
       pc_leader_schedule_window_size = 2, pc_leader_schedule_update_interval = 3\<rparr>\<rparr>"

definition sample_block :: "round \<Rightarrow> authority_index \<Rightarrow> timestamp_ms \<Rightarrow> block_ref list \<Rightarrow> signed_block" where
  "sample_block r a t as = \<lparr>sb_inner = V2 \<lparr>b2_epoch = 0, b2_round = r, b2_author = a, b2_timestamp_ms = t,
     b2_ancestors = as, b2_transactions = [], b2_transaction_votes = [], b2_commit_votes = [],
     b2_misbehavior_reports = []\<rparr>, sb_signature = [7]\<rparr>"

lemma sample_block_simps [simp]:
  "block_epoch (sb_inner (sample_block r a t as)) = 0" "block_round (sb_inner (sample_block r a t as)) = r"
  "block_author (sb_inner (sample_block r a t as)) = a" "block_ancestors (sb_inner (sample_block r a t as)) = as"
  "block_timestamp_ms (sb_inner (sample_block r a t as)) = t"
  "block_transactions_data (sb_inner (sample_block r a t as)) = []" "sb_signature (sample_block r a t as) = [7]"
  by (simp_all add: sample_block_def block_transactions_data_def)

lemma sample_context_simps [simp]: "cx_committee sample_context = committee4"
  by (simp add: sample_context_def)

definition sample_vb :: "round \<Rightarrow> authority_index \<Rightarrow> digest \<Rightarrow> timestamp_ms \<Rightarrow> block_ref list \<Rightarrow> verified_block" where
  "sample_vb r a d t as = \<lparr>vb_block = sample_block r a t as, vb_digest = d, vb_serialized = []\<rparr>"

lemma sample_vb_simps [simp]:
  "vb_round (sample_vb r a d t as) = r" "vb_author (sample_vb r a d t as) = a"
  "vb_digest (sample_vb r a d t as) = d" "vb_ancestors (sample_vb r a d t as) = as"
  "vb_timestamp_ms (sample_vb r a d t as) = t" "vb_commit_votes (sample_vb r a d t as) = []"
  "reference (sample_vb r a d t as) = BlockRef r a d"
  by (simp_all add: sample_vb_def vb_round_def vb_author_def vb_ancestors_def vb_timestamp_ms_def
      vb_commit_votes_def reference_def) (simp add: sample_block_def)

end
