(* ===== verification/Commit_Types.thy ===== *)
theory Commit_Types
  imports Block_Types
begin

text \<open>
  Commits, committed sub-dags, leader statuses and commit ranges
  (\<^verbatim>\<open>consensus/core/src/commit.rs\<close>, and the \<^verbatim>\<open>ReputationScores\<close> struct of
  \<^verbatim>\<open>consensus/core/src/leader_scoring.rs\<close>).
\<close>

subsection \<open>Commits\<close>

definition GENESIS_COMMIT_INDEX :: commit_index where
  "GENESIS_COMMIT_INDEX = 0"

definition MINIMUM_WAVE_LENGTH :: round where
  "MINIMUM_WAVE_LENGTH = 3"

definition DEFAULT_WAVE_LENGTH :: round where
  "DEFAULT_WAVE_LENGTH = MINIMUM_WAVE_LENGTH"

record commit_v1 =
  cm1_index :: commit_index
  cm1_previous_digest :: digest
  cm1_timestamp_ms :: timestamp_ms
  cm1_leader :: block_ref
  cm1_blocks :: "block_ref list"

datatype commit = CommitV1 commit_v1

definition commit_new :: "commit_index \<Rightarrow> digest \<Rightarrow> timestamp_ms \<Rightarrow> block_ref \<Rightarrow> block_ref list \<Rightarrow> commit" where
  "commit_new i prev t leader blocks =
     CommitV1 \<lparr>cm1_index = i, cm1_previous_digest = prev, cm1_timestamp_ms = t, cm1_leader = leader,
               cm1_blocks = blocks\<rparr>"

fun commit_round :: "commit \<Rightarrow> round" where
  "commit_round (CommitV1 c) = br_round (cm1_leader c)"

fun commit_index_of :: "commit \<Rightarrow> commit_index" where
  "commit_index_of (CommitV1 c) = cm1_index c"

fun commit_previous_digest :: "commit \<Rightarrow> digest" where
  "commit_previous_digest (CommitV1 c) = cm1_previous_digest c"

fun commit_timestamp_ms :: "commit \<Rightarrow> timestamp_ms" where
  "commit_timestamp_ms (CommitV1 c) = cm1_timestamp_ms c"

fun commit_leader :: "commit \<Rightarrow> block_ref" where
  "commit_leader (CommitV1 c) = cm1_leader c"

fun commit_blocks :: "commit \<Rightarrow> block_ref list" where
  "commit_blocks (CommitV1 c) = cm1_blocks c"

lemma commit_new_sel [simp]:
  "commit_index_of (commit_new i prev t l bs) = i" "commit_previous_digest (commit_new i prev t l bs) = prev"
  "commit_timestamp_ms (commit_new i prev t l bs) = t" "commit_leader (commit_new i prev t l bs) = l"
  "commit_blocks (commit_new i prev t l bs) = bs" "commit_round (commit_new i prev t l bs) = br_round l"
  by (simp_all add: commit_new_def)

record trusted_commit =
  tcm_inner :: commit
  tcm_digest :: digest
  tcm_serialized :: bytes

definition new_trusted :: "crypto \<Rightarrow> commit \<Rightarrow> bytes \<Rightarrow> trusted_commit" where
  "new_trusted cy cm ser = \<lparr>tcm_inner = cm, tcm_digest = cy_hash cy ser, tcm_serialized = ser\<rparr>"

abbreviation tcm_index :: "trusted_commit \<Rightarrow> commit_index" where
  "tcm_index tc \<equiv> commit_index_of (tcm_inner tc)"

abbreviation tcm_leader :: "trusted_commit \<Rightarrow> block_ref" where
  "tcm_leader tc \<equiv> commit_leader (tcm_inner tc)"

abbreviation tcm_timestamp_ms :: "trusted_commit \<Rightarrow> timestamp_ms" where
  "tcm_timestamp_ms tc \<equiv> commit_timestamp_ms (tcm_inner tc)"

abbreviation tcm_blocks :: "trusted_commit \<Rightarrow> block_ref list" where
  "tcm_blocks tc \<equiv> commit_blocks (tcm_inner tc)"

definition tcm_reference :: "trusted_commit \<Rightarrow> commit_ref" where
  "tcm_reference tc = \<lparr>cr_index = tcm_index tc, cr_digest = tcm_digest tc\<rparr>"

lemma new_trusted_sel [simp]:
  "tcm_inner (new_trusted cy cm ser) = cm" "tcm_digest (new_trusted cy cm ser) = cy_hash cy ser"
  by (simp_all add: new_trusted_def)

record certified_commit =
  cc_commit :: trusted_commit
  cc_blocks :: "verified_block list"

subsection \<open>Committed sub-dags\<close>

record committed_sub_dag =
  csd_leader :: block_ref
  csd_blocks :: "verified_block list"
  csd_timestamp_ms :: timestamp_ms
  csd_commit_ref :: commit_ref
  csd_decided_with_local_blocks :: bool
  csd_recovered_rejected_transactions :: bool
  csd_rejected_transactions_by_block :: "(block_ref, transaction_index list) fmap"

definition committed_sub_dag_new ::
  "block_ref \<Rightarrow> verified_block list \<Rightarrow> timestamp_ms \<Rightarrow> commit_ref \<Rightarrow> committed_sub_dag" where
  "committed_sub_dag_new leader blocks t cref =
     \<lparr>csd_leader = leader, csd_blocks = blocks, csd_timestamp_ms = t, csd_commit_ref = cref,
      csd_decided_with_local_blocks = True, csd_recovered_rejected_transactions = False,
      csd_rejected_transactions_by_block = fmempty\<rparr>"

text \<open>The stable sort by round, then author.\<close>

definition sort_sub_dag_blocks :: "verified_block list \<Rightarrow> verified_block list" where
  "sort_sub_dag_blocks = sort_key (\<lambda>b. (vb_round b, vb_author b))"

lemma set_sort_sub_dag_blocks [simp]: "set (sort_sub_dag_blocks bs) = set bs"
  by (simp add: sort_sub_dag_blocks_def)

lemma distinct_sort_sub_dag_blocks [simp]: "distinct (map f (sort_sub_dag_blocks bs)) = distinct (map f bs)"
proof -
  have "mset (map f (sort_sub_dag_blocks bs)) = mset (map f bs)" by (simp add: sort_sub_dag_blocks_def)
  then show ?thesis using mset_eq_imp_distinct_iff by blast
qed

lemma sorted_sort_sub_dag_blocks: "sorted (map (\<lambda>b. (vb_round b, vb_author b)) (sort_sub_dag_blocks bs))"
  by (simp add: sort_sub_dag_blocks_def)

subsection \<open>Decisions\<close>

datatype decision = Direct | Indirect | Certified

datatype leader_status = LSCommit verified_block | LSSkip slot | LSUndecided slot

fun status_round :: "leader_status \<Rightarrow> round" where
  "status_round (LSCommit b) = vb_round b"
| "status_round (LSSkip s) = slot_round s"
| "status_round (LSUndecided s) = slot_round s"

fun is_decided :: "leader_status \<Rightarrow> bool" where
  "is_decided (LSCommit b) = True"
| "is_decided (LSSkip s) = True"
| "is_decided (LSUndecided s) = False"

datatype decided_leader = DLCommit verified_block bool | DLSkip slot

fun into_decided_leader :: "leader_status \<Rightarrow> bool \<Rightarrow> decided_leader option" where
  "into_decided_leader (LSCommit b) direct = Some (DLCommit b direct)"
| "into_decided_leader (LSSkip s) direct = Some (DLSkip s)"
| "into_decided_leader (LSUndecided s) direct = None"

fun decided_slot :: "decided_leader \<Rightarrow> slot" where
  "decided_slot (DLCommit b direct) = slot_from (reference b)"
| "decided_slot (DLSkip s) = s"

fun into_committed_block :: "decided_leader \<Rightarrow> verified_block option" where
  "into_committed_block (DLCommit b direct) = Some b"
| "into_committed_block (DLSkip s) = None"

subsection \<open>Commit ranges\<close>

definition u32_saturating_add :: "nat \<Rightarrow> nat \<Rightarrow> nat" where
  "u32_saturating_add a b = min (a + b) u32_max"

text \<open>Evaluation compares the sum with the bound in binary.\<close>

lemma u32_saturating_add_code [code]: "u32_saturating_add a b = nat (min (int a + int b) 4294967295)"
  by (auto simp: u32_saturating_add_def u32_max_def min_def nat_add_distrib)

text \<open>The half-open range the source stores; \<open>crg_start\<close> and \<open>commit_range_end\<close> are inclusive.\<close>

datatype commit_range = CommitRange (crg_start: commit_index) (crg_excl: commit_index)

definition commit_range_default :: commit_range where
  "commit_range_default = CommitRange 0 0"

definition commit_range_new :: "commit_index \<Rightarrow> commit_index \<Rightarrow> commit_range" where
  "commit_range_new lo hi = CommitRange lo (u32_saturating_add hi 1)"

definition commit_range_end :: "commit_range \<Rightarrow> commit_index" where
  "commit_range_end r = crg_excl r - 1"

definition commit_range_extend_to :: "commit_index \<Rightarrow> commit_range \<Rightarrow> commit_range option" where
  "commit_range_extend_to other r = do {
     let new_end = u32_saturating_add other 1;
     assert_that (crg_excl r \<le> new_end);
     Some (CommitRange (crg_start r) new_end)
   }"

definition commit_range_size :: "commit_range \<Rightarrow> nat option" where
  "commit_range_size r = (if crg_start r \<le> crg_excl r then Some (crg_excl r - crg_start r) else None)"

definition commit_range_is_equal_size :: "commit_range \<Rightarrow> commit_range \<Rightarrow> bool option" where
  "commit_range_is_equal_size r other = do {
     a \<leftarrow> commit_range_size r;
     b \<leftarrow> commit_range_size other;
     Some (a = b)
   }"

definition commit_range_is_next :: "commit_range \<Rightarrow> commit_range \<Rightarrow> bool" where
  "commit_range_is_next r other \<longleftrightarrow> crg_excl r = crg_start other"

text \<open>The comparison of ranges: by their starts, then by their inclusive ends.\<close>

definition commit_range_le :: "commit_range \<Rightarrow> commit_range \<Rightarrow> bool" where
  "commit_range_le a b \<longleftrightarrow> crg_start a < crg_start b \<or> crg_start a = crg_start b \<and> commit_range_end a \<le> commit_range_end b"

definition commit_range_less :: "commit_range \<Rightarrow> commit_range \<Rightarrow> bool" where
  "commit_range_less a b \<longleftrightarrow> crg_start a < crg_start b \<or> crg_start a = crg_start b \<and> commit_range_end a < commit_range_end b"

instantiation commit_range :: ord
begin

definition less_eq_commit_range :: "commit_range \<Rightarrow> commit_range \<Rightarrow> bool" where
  "less_eq_commit_range = commit_range_le"

definition less_commit_range :: "commit_range \<Rightarrow> commit_range \<Rightarrow> bool" where
  "less_commit_range = commit_range_less"

instance ..

end

text \<open>The indices a range stands for.\<close>

definition commit_range_set :: "commit_range \<Rightarrow> commit_index set" where
  "commit_range_set r = {crg_start r..<crg_excl r}"

text \<open>
  A commit range built from an inclusive range below the top index is exactly that set of
  indices, with its end and size, and extending it and asking for the next range agree with the sets:
  the union of a range and its successor is the range extended to the successor's end.
\<close>

theorem commit_range_extend_next:
  assumes "a \<le> b" and "b < k" and "k < u32_max"
  shows "commit_range_set (commit_range_new a b) = {a..b} \<and>
    commit_range_end (commit_range_new a b) = b \<and>
    commit_range_size (commit_range_new a b) = Some (card {a..b}) \<and>
    commit_range_is_next (commit_range_new a b) (commit_range_new (Suc b) k) \<and>
    (\<exists>r. commit_range_extend_to k (commit_range_new a b) = Some r \<and>
      commit_range_set r = commit_range_set (commit_range_new a b) \<union> commit_range_set (commit_range_new (Suc b) k))"
  using assms
  by (auto simp: commit_range_set_def commit_range_new_def commit_range_end_def commit_range_size_def
      commit_range_is_next_def commit_range_extend_to_def u32_saturating_add_def)

theorem commit_range_extend_next_witness:
  "commit_range_size (commit_range_new 1 300) = Some 300 \<and>
   commit_range_is_next (commit_range_new 1 300) (commit_range_new 301 600)"
  using commit_range_extend_next[of 1 300 600] by (simp add: u32_max_def)

subsection \<open>Reputation scores and commit info\<close>

record reputation_scores =
  rs_scores_per_authority :: "u64 list"
  rs_commit_range :: commit_range

definition reputation_scores_new :: "commit_range \<Rightarrow> u64 list \<Rightarrow> reputation_scores" where
  "reputation_scores_new r ss = \<lparr>rs_scores_per_authority = ss, rs_commit_range = r\<rparr>"

definition reputation_scores_default :: reputation_scores where
  "reputation_scores_default = \<lparr>rs_scores_per_authority = [], rs_commit_range = commit_range_default\<rparr>"

definition highest_score :: "reputation_scores \<Rightarrow> u64" where
  "highest_score rs = (if rs_scores_per_authority rs = [] then 0 else Max (set (rs_scores_per_authority rs)))"

definition authorities_by_score :: "committee \<Rightarrow> reputation_scores \<Rightarrow> (authority_index \<times> u64) list option" where
  "authorities_by_score c rs =
     mapM (\<lambda>(i, score). do { a \<leftarrow> to_authority_index c i; Some (a, score) })
       (enumerate 0 (rs_scores_per_authority rs))"

record commit_info =
  ci_committed_rounds :: "round list"
  ci_reputation_scores :: reputation_scores

lemma authorities_by_score_Some:
  "length (rs_scores_per_authority rs) \<le> committee_size c \<Longrightarrow>
   authorities_by_score c rs = Some (enumerate 0 (rs_scores_per_authority rs))"
  unfolding authorities_by_score_def
  by (rule mapM_total[where g = id, simplified])
     (auto simp: in_set_enumerate_eq to_authority_index_def committee_size_def)

end
