(* ===== verification/Storage.thy ===== *)
theory Storage
  imports Commit_Types
begin

text \<open>
  The storage interface and its in-memory implementation
  (\<^verbatim>\<open>consensus/core/src/storage/mod.rs\<close>, \<^verbatim>\<open>consensus/core/src/storage/mem_store.rs\<close>), and the
  recovery of a committed sub-dag from it (\<^verbatim>\<open>commit.rs\<close>).
  The in-memory store never returns an error, so its operations have the value of the \<^verbatim>\<open>Ok\<close>;
  those that may panic return an option. The key tuple (round, author, digest) of the block table is
  the block reference, which has the same fields and order.
  The locale \<open>block_table\<close> states what the readers of a store rely on.
\<close>

record mem_store =
  ms_blocks :: "(block_ref, verified_block) fmap"
  ms_digests_by_authorities :: "(authority_index \<times> round \<times> digest) fset"
  ms_commits :: "(commit_index \<times> digest, trusted_commit) fmap"
  ms_commit_votes :: "(commit_index \<times> digest \<times> block_ref) fset"
  ms_commit_info :: "(commit_index \<times> digest, commit_info) fmap"
  ms_finalized_commits :: "(commit_index \<times> digest, (block_ref, transaction_index list) fmap) fmap"

definition mem_store_new :: mem_store where
  "mem_store_new = \<lparr>ms_blocks = fmempty, ms_digests_by_authorities = {||}, ms_commits = fmempty,
     ms_commit_votes = {||}, ms_commit_info = fmempty, ms_finalized_commits = fmempty\<rparr>"

record write_batch =
  wb_blocks :: "verified_block list"
  wb_commits :: "trusted_commit list"
  wb_commit_info :: "(commit_ref \<times> commit_info) list"
  wb_finalized_commits :: "(commit_ref \<times> (block_ref, transaction_index list) fmap) list"

subsection \<open>Writing\<close>

definition ms_write_block :: "verified_block \<Rightarrow> mem_store \<Rightarrow> mem_store" where
  "ms_write_block b ms =
     (let r = reference b in
      ms\<lparr>ms_blocks := fmupd r b (ms_blocks ms),
         ms_digests_by_authorities :=
           finsert (br_author r, br_round r, br_digest r) (ms_digests_by_authorities ms),
         ms_commit_votes := fold (\<lambda>v s. finsert (cr_index v, cr_digest v, r) s) (vb_commit_votes b)
           (ms_commit_votes ms)\<rparr>)"

definition ms_write_commit :: "trusted_commit \<Rightarrow> mem_store \<Rightarrow> mem_store" where
  "ms_write_commit tc ms = ms\<lparr>ms_commits := fmupd (tcm_index tc, tcm_digest tc) tc (ms_commits ms)\<rparr>"

definition ms_write_commit_info :: "commit_ref \<times> commit_info \<Rightarrow> mem_store \<Rightarrow> mem_store" where
  "ms_write_commit_info e ms =
     (case e of (r, ci) \<Rightarrow> ms\<lparr>ms_commit_info := fmupd (cr_index r, cr_digest r) ci (ms_commit_info ms)\<rparr>)"

definition ms_write_finalized ::
  "commit_ref \<times> (block_ref, transaction_index list) fmap \<Rightarrow> mem_store \<Rightarrow> mem_store" where
  "ms_write_finalized e ms =
     (case e of (r, rej) \<Rightarrow>
        ms\<lparr>ms_finalized_commits := fmupd (cr_index r, cr_digest r) rej (ms_finalized_commits ms)\<rparr>)"

definition ms_write :: "write_batch \<Rightarrow> mem_store \<Rightarrow> mem_store" where
  "ms_write wb ms =
     fold ms_write_finalized (wb_finalized_commits wb)
       (fold ms_write_commit_info (wb_commit_info wb)
         (fold ms_write_commit (wb_commits wb)
           (fold ms_write_block (wb_blocks wb) ms)))"

subsection \<open>Reading\<close>

definition ms_read_blocks :: "mem_store \<Rightarrow> block_ref list \<Rightarrow> verified_block option list" where
  "ms_read_blocks ms refs = map (fmlookup (ms_blocks ms)) refs"

definition ms_contains_blocks :: "mem_store \<Rightarrow> block_ref list \<Rightarrow> bool list" where
  "ms_contains_blocks ms refs = map (\<lambda>r. r |\<in>| fmdom (ms_blocks ms)) refs"

definition digest_max :: digest where
  "digest_max = - 1"

abbreviation u64_max :: nat where
  "u64_max \<equiv> 2 ^ 64 - 1"

definition ms_scan_blocks_by_author_in_range ::
  "mem_store \<Rightarrow> authority_index \<Rightarrow> round \<Rightarrow> round \<Rightarrow> nat \<Rightarrow> verified_block list option" where
  "ms_scan_blocks_by_author_in_range ms author start_round end_round limit = do {
     ks \<leftarrow> range_incl_excl id (author, start_round, 0) (author, end_round, 0)
            (sorted_list_of_fset (ms_digests_by_authorities ms));
     let refs = map (\<lambda>(a, r, d). BlockRef r a d) (take (max 1 limit) ks);
     mapM id (ms_read_blocks ms refs)
   }"

definition ms_scan_blocks_by_author ::
  "mem_store \<Rightarrow> authority_index \<Rightarrow> round \<Rightarrow> verified_block list option" where
  "ms_scan_blocks_by_author ms author start_round =
     ms_scan_blocks_by_author_in_range ms author start_round u32_max u64_max"

definition ms_scan_last_blocks_by_author ::
  "mem_store \<Rightarrow> authority_index \<Rightarrow> nat \<Rightarrow> round option \<Rightarrow> verified_block list option" where
  "ms_scan_last_blocks_by_author ms author num_of_rounds before_round = do {
     let before = (case before_round of Some r \<Rightarrow> r | None \<Rightarrow> u32_max);
     ks \<leftarrow> range_incl_incl id (author, 0, 0) (author, before, digest_max)
            (sorted_list_of_fset (ms_digests_by_authorities ms));
     let refs = map (\<lambda>(a, r, d). BlockRef r a d) (rev (take num_of_rounds (rev ks)));
     mapM id (ms_read_blocks ms refs)
   }"

definition ms_read_last_commit :: "mem_store \<Rightarrow> trusted_commit option" where
  "ms_read_last_commit ms = map_option snd (last_opt (sorted_list_of_fmap (ms_commits ms)))"

definition ms_scan_commits :: "mem_store \<Rightarrow> commit_range \<Rightarrow> trusted_commit list option" where
  "ms_scan_commits ms r = do {
     es \<leftarrow> range_incl_incl fst (crg_start r, 0) (commit_range_end r, digest_max)
            (sorted_list_of_fmap (ms_commits ms));
     Some (map snd es)
   }"

definition ms_read_commit_votes :: "mem_store \<Rightarrow> commit_index \<Rightarrow> block_ref list" where
  "ms_read_commit_votes ms i =
     map (snd \<circ> snd) (filter (\<lambda>(j, d, r). j = i) (sorted_list_of_fset (ms_commit_votes ms)))"

definition ms_read_last_commit_info :: "mem_store \<Rightarrow> (commit_ref \<times> commit_info) option" where
  "ms_read_last_commit_info ms =
     map_option (\<lambda>(k, v). (\<lparr>cr_index = fst k, cr_digest = snd k\<rparr>, v))
       (last_opt (sorted_list_of_fmap (ms_commit_info ms)))"

definition ms_read_last_finalized_commit :: "mem_store \<Rightarrow> commit_ref option" where
  "ms_read_last_finalized_commit ms =
     map_option (\<lambda>(k, v). \<lparr>cr_index = fst k, cr_digest = snd k\<rparr>)
       (last_opt (sorted_list_of_fmap (ms_finalized_commits ms)))"

definition ms_read_rejected_transactions ::
  "mem_store \<Rightarrow> commit_ref \<Rightarrow> (block_ref, transaction_index list) fmap option" where
  "ms_read_rejected_transactions ms r = fmlookup (ms_finalized_commits ms) (cr_index r, cr_digest r)"

text \<open>The position of the leader is the last index whose block is the leader; only its presence matters.\<close>

definition load_committed_subdag_from_store :: "mem_store \<Rightarrow> trusted_commit \<Rightarrow> committed_sub_dag option" where
  "load_committed_subdag_from_store ms tc = do {
     blocks \<leftarrow> mapM id (ms_read_blocks ms (tcm_blocks tc));
     leader_block \<leftarrow> last_opt (filter (\<lambda>b. reference b = tcm_leader tc) blocks);
     let subdag = committed_sub_dag_new (reference leader_block) blocks (tcm_timestamp_ms tc) (tcm_reference tc);
     Some (case ms_read_rejected_transactions ms (tcm_reference tc) of
         Some rej \<Rightarrow> subdag\<lparr>csd_decided_with_local_blocks := True,
            csd_recovered_rejected_transactions := True, csd_rejected_transactions_by_block := rej\<rparr>
       | None \<Rightarrow> subdag\<lparr>csd_decided_with_local_blocks := False,
            csd_recovered_rejected_transactions := False\<rparr>)
   }"

subsection \<open>Well-formed stores\<close>

definition ms_wf :: "mem_store \<Rightarrow> bool" where
  "ms_wf ms \<longleftrightarrow>
     (\<forall>r b. fmlookup (ms_blocks ms) r = Some b \<longrightarrow> reference b = r) \<and>
     fset (ms_digests_by_authorities ms) =
       (\<lambda>r. (br_author r, br_round r, br_digest r)) ` fset (fmdom (ms_blocks ms)) \<and>
     (\<forall>k tc. fmlookup (ms_commits ms) k = Some tc \<longrightarrow> k = (tcm_index tc, tcm_digest tc))"

lemma ms_wf_new [simp, wf_intros]: "ms_wf mem_store_new"
  by (simp add: ms_wf_def mem_store_new_def)

lemma ms_wf_write_block [wf_intros]: "ms_wf ms \<Longrightarrow> ms_wf (ms_write_block b ms)"
  by (auto simp: ms_wf_def ms_write_block_def Let_def split: if_splits)

lemma ms_wf_write_commit [wf_intros]: "ms_wf ms \<Longrightarrow> ms_wf (ms_write_commit tc ms)"
  by (auto simp: ms_wf_def ms_write_commit_def split: if_splits)

lemma ms_wf_write_commit_info [wf_intros]: "ms_wf ms \<Longrightarrow> ms_wf (ms_write_commit_info e ms)"
  by (auto simp: ms_wf_def ms_write_commit_info_def split: prod.splits)

lemma ms_wf_write_finalized [wf_intros]: "ms_wf ms \<Longrightarrow> ms_wf (ms_write_finalized e ms)"
  by (auto simp: ms_wf_def ms_write_finalized_def split: prod.splits)

lemma fold_preserves: "P s \<Longrightarrow> (\<And>x s. P s \<Longrightarrow> P (f x s)) \<Longrightarrow> P (fold f xs s)"
  by (induction xs arbitrary: s) auto

lemma fold_same: "(\<And>x s. g (f x s) = g s) \<Longrightarrow> g (fold f xs s) = g s"
  by (induction xs arbitrary: s) auto

lemma ms_wf_write [wf_intros]: "ms_wf ms \<Longrightarrow> ms_wf (ms_write wb ms)"
  unfolding ms_write_def by (intro fold_preserves[where P = ms_wf] wf_intros)

text \<open>What a write does to the block table: the last block written under a reference wins.\<close>

definition written :: "verified_block list \<Rightarrow> block_ref \<Rightarrow> verified_block option" where
  "written bs r = find (\<lambda>b. reference b = r) (rev bs)"

lemma find_append: "find P (xs @ ys) = (case find P xs of Some x \<Rightarrow> Some x | None \<Rightarrow> find P ys)"
  by (induction xs) auto

lemma written_Nil [simp]: "written [] r = None"
  by (simp add: written_def)

lemma written_Cons: "written (b # bs) r =
    (case written bs r of Some x \<Rightarrow> Some x | None \<Rightarrow> if reference b = r then Some b else None)"
  by (auto simp: written_def find_append split: option.splits)

lemma written_None_iff: "written bs r = None \<longleftrightarrow> r \<notin> reference ` set bs"
  by (auto simp: written_def find_None_iff)

lemma written_SomeD: "written bs r = Some b \<Longrightarrow> b \<in> set bs \<and> reference b = r"
  by (auto simp: written_def find_Some_iff) (metis length_rev nth_mem set_rev)

definition ms_lookup :: "mem_store \<Rightarrow> block_ref \<Rightarrow> verified_block option" where
  "ms_lookup ms r = fmlookup (ms_blocks ms) r"

definition ms_write_blocks :: "verified_block list \<Rightarrow> mem_store \<Rightarrow> mem_store" where
  "ms_write_blocks bs ms = fold ms_write_block bs ms"

lemma ms_lookup_write_blocks:
  "ms_lookup (ms_write_blocks bs ms) r = (case written bs r of Some b \<Rightarrow> Some b | None \<Rightarrow> ms_lookup ms r)"
  by (induction bs arbitrary: ms)
    (auto simp: ms_write_blocks_def ms_lookup_def ms_write_block_def Let_def written_Cons split: option.splits)

lemma ms_blocks_write: "ms_blocks (ms_write wb ms) = ms_blocks (ms_write_blocks (wb_blocks wb) ms)"
  unfolding ms_write_def ms_write_blocks_def
  by (simp add: fold_same[where g = ms_blocks] ms_write_finalized_def ms_write_commit_info_def
      ms_write_commit_def split_beta)

lemma ms_lookup_write:
  "ms_lookup (ms_write wb ms) r = (case written (wb_blocks wb) r of Some b \<Rightarrow> Some b | None \<Rightarrow> ms_lookup ms r)"
  using ms_lookup_write_blocks[of "wb_blocks wb" ms r] by (simp add: ms_lookup_def ms_blocks_write)

lemma ms_wf_reference: "ms_wf ms \<Longrightarrow> ms_lookup ms r = Some b \<Longrightarrow> reference b = r"
  by (simp add: ms_wf_def ms_lookup_def)

lemma ms_read_blocks_lookup: "ms_read_blocks ms rs = map (ms_lookup ms) rs"
  by (simp add: ms_read_blocks_def ms_lookup_def)

lemma ms_contains_blocks_lookup: "ms_contains_blocks ms rs = map (\<lambda>r. ms_lookup ms r \<noteq> None) rs"
  by (simp add: ms_contains_blocks_def ms_lookup_def fmlookup_dom_iff)

subsection \<open>The block table as an interface\<close>

locale block_table =
  fixes wf :: "'s \<Rightarrow> bool"
    and lookup :: "'s \<Rightarrow> block_ref \<Rightarrow> verified_block option"
    and contains :: "'s \<Rightarrow> block_ref list \<Rightarrow> bool list"
    and reads :: "'s \<Rightarrow> block_ref list \<Rightarrow> verified_block option list"
    and put :: "verified_block list \<Rightarrow> 's \<Rightarrow> 's"
  assumes reads_lookup: "reads s rs = map (lookup s) rs"
    and contains_lookup: "contains s rs = map (\<lambda>r. lookup s r \<noteq> None) rs"
    and lookup_put: "lookup (put bs s) r = (case written bs r of Some b \<Rightarrow> Some b | None \<Rightarrow> lookup s r)"
    and lookup_reference: "wf s \<Longrightarrow> lookup s r = Some b \<Longrightarrow> reference b = r"
    and wf_put: "wf s \<Longrightarrow> wf (put bs s)"
begin

lemma put_keeps: "lookup s r \<noteq> None \<Longrightarrow> lookup (put bs s) r \<noteq> None"
  by (auto simp: lookup_put split: option.splits)

lemma put_finds: "b \<in> set bs \<Longrightarrow> \<exists>b'. lookup (put bs s) (reference b) = Some b' \<and> reference b' = reference b"
  by (cases "written bs (reference b)") (auto simp: lookup_put written_None_iff dest: written_SomeD)

lemma put_same:
  assumes "\<And>b. b \<in> set bs \<Longrightarrow> reference b = r \<Longrightarrow> lookup s r = Some b"
  shows "lookup (put bs s) r = lookup s r"
  using assms by (auto simp: lookup_put dest!: written_SomeD split: option.splits)

lemma put_unique:
  assumes "b \<in> set bs" "\<And>b'. b' \<in> set bs \<Longrightarrow> reference b' = reference b \<Longrightarrow> b' = b"
  shows "lookup (put bs s) (reference b) = Some b"
  using assms by (cases "written bs (reference b)") (auto simp: lookup_put written_None_iff dest: written_SomeD)

lemma put_other: "r \<notin> reference ` set bs \<Longrightarrow> lookup (put bs s) r = lookup s r"
  by (simp add: lookup_put written_None_iff[THEN iffD2])

end

interpretation mem_blocks: block_table ms_wf ms_lookup ms_contains_blocks ms_read_blocks
    "\<lambda>bs. ms_write \<lparr>wb_blocks = bs, wb_commits = [], wb_commit_info = [], wb_finalized_commits = []\<rparr>"
  using ms_wf_write ms_wf_reference
  by unfold_locales (simp_all add: ms_read_blocks_lookup ms_contains_blocks_lookup ms_lookup_write)

subsection \<open>Scans\<close>

lemma mapM_id_Some: "(\<And>x. x \<in> set xs \<Longrightarrow> x \<noteq> None) \<Longrightarrow> mapM id xs = Some (map the xs)"
  by (rule mapM_total) auto

lemma digest_le_max [simp]: "d \<le> digest_max"
  by (simp add: digest_max_def)

lemma ms_wf_key:
  assumes "ms_wf ms" and "(a, r, d) \<in> fset (ms_digests_by_authorities ms)"
  shows "\<exists>b. ms_lookup ms (BlockRef r a d) = Some b \<and> reference b = BlockRef r a d"
proof -
  from assms obtain k where "k \<in> fset (fmdom (ms_blocks ms))" "a = br_author k" "r = br_round k" "d = br_digest k"
    by (auto simp: ms_wf_def)
  then have "k = BlockRef r a d" "k |\<in>| fmdom (ms_blocks ms)" by simp_all
  with assms(1) show ?thesis by (auto simp: ms_wf_def ms_lookup_def fmlookup_dom_iff)
qed

text \<open>Reading back a list of keys of the author index gives one block per key, under its reference.\<close>

lemma ms_read_keys:
  assumes "ms_wf ms" and "set ks \<subseteq> fset (ms_digests_by_authorities ms)"
  shows "\<exists>bs. mapM id (ms_read_blocks ms (map (\<lambda>(a, r, d). BlockRef r a d) ks)) = Some bs \<and>
     map reference bs = map (\<lambda>(a, r, d). BlockRef r a d) ks"
  using assms(2)
proof (induction ks)
  case (Cons k ks)
  obtain a r d where k: "k = (a, r, d)" by (cases k)
  with ms_wf_key[OF assms(1), of a r d] Cons.prems obtain b where
    "fmlookup (ms_blocks ms) (BlockRef r a d) = Some b" "reference b = BlockRef r a d"
    by (auto simp: ms_lookup_def)
  with Cons k show ?case by (auto simp: ms_read_blocks_def)
qed (simp add: ms_read_blocks_def)

definition key_ref :: "authority_index \<times> round \<times> digest \<Rightarrow> block_ref" where
  "key_ref k = (case k of (a, r, d) \<Rightarrow> BlockRef r a d)"

text \<open>The references of one author's stored blocks, in ascending order.\<close>

definition author_refs :: "mem_store \<Rightarrow> authority_index \<Rightarrow> block_ref list" where
  "author_refs ms a = map key_ref (filter (\<lambda>k. fst k = a) (sorted_list_of_fset (ms_digests_by_authorities ms)))"







text \<open>The two range scans select from the author's references by round.\<close>

lemma filter_map_key_ref:
  "filter P (author_refs ms a) =
   map key_ref (filter (\<lambda>k. fst k = a \<and> P (key_ref k)) (sorted_list_of_fset (ms_digests_by_authorities ms)))"
  by (simp add: author_refs_def filter_map comp_def conj_commute)


lemma scan_last_refs:
  assumes "ms_wf ms"
  shows "\<exists>bs. ms_scan_last_blocks_by_author ms a n before = Some bs \<and>
    map reference bs =
      rev (take n (rev (filter (\<lambda>r. br_round r \<le> (case before of Some r \<Rightarrow> r | None \<Rightarrow> u32_max)) (author_refs ms a))))"
proof -
  let ?m = "case before of Some r \<Rightarrow> r | None \<Rightarrow> u32_max"
  let ?ks = "filter (\<lambda>k. fst k = a \<and> br_round (key_ref k) \<le> ?m) (sorted_list_of_fset (ms_digests_by_authorities ms))"
  have "((a, 0, 0) \<le> k \<and> k \<le> (a, ?m, digest_max)) \<longleftrightarrow> (fst k = a \<and> br_round (key_ref k) \<le> ?m)" for k
    by (cases k) (auto simp: key_ref_def)
  then have r: "range_incl_incl id (a, 0, 0) (a, ?m, digest_max)
      (sorted_list_of_fset (ms_digests_by_authorities ms)) = Some ?ks"
    by (simp add: range_incl_incl_def)
  have "set (rev (take n (rev ?ks))) \<subseteq> fset (ms_digests_by_authorities ms)"
    using set_take_subset[of n "rev ?ks"] by auto
  from ms_read_keys[OF assms this] show ?thesis
    unfolding ms_scan_last_blocks_by_author_def Let_def r
    by (simp add: filter_map_key_ref take_map rev_map key_ref_def[abs_def])
qed




definition sample_store :: mem_store where
  "sample_store = ms_write_blocks [sample_vb 1 0 5 0 [], sample_vb 2 0 8 0 [], sample_vb 2 0 7 0 [], sample_vb 2 1 6 0 []] mem_store_new"

lemma sample_store_wf: "ms_wf sample_store"
  unfolding sample_store_def ms_write_blocks_def by (intro fold_preserves[where P = ms_wf] wf_intros)

lemma sample_store_dom:
  "fset (fmdom (ms_blocks sample_store)) = {BlockRef 1 0 5, BlockRef 2 0 8, BlockRef 2 0 7, BlockRef 2 1 6}"
  by (auto simp: sample_store_def ms_write_blocks_def ms_write_block_def Let_def mem_store_new_def)


text \<open>
  Asked for the last two rounds of an author who equivocated in its last round, the scan
  returns the two blocks of that one round: it counts blocks, where the interface speaks of rounds.
\<close>

theorem scan_last_blocks_counts_blocks:
  "\<exists>bs. ms_scan_last_blocks_by_author sample_store 0 2 None = Some bs \<and>
     map reference bs = [BlockRef 2 0 7, BlockRef 2 0 8] \<and> ms_lookup sample_store (BlockRef 1 0 5) \<noteq> None"
proof -
  have "ms_digests_by_authorities sample_store = {|(0, 1, 5), (0, 2, 8), (0, 2, 7), (1, 2, 6)|}"
    by (auto simp: sample_store_def ms_write_blocks_def ms_write_block_def Let_def mem_store_new_def)
  then have "author_refs sample_store 0 = [BlockRef 1 0 5, BlockRef 2 0 7, BlockRef 2 0 8]"
    by (simp add: author_refs_def sorted_list_of_fset.rep_eq key_ref_def)
  moreover have "BlockRef 1 0 5 |\<in>| fmdom (ms_blocks sample_store)" using sample_store_dom by simp
  ultimately show ?thesis
    using scan_last_refs[OF sample_store_wf, of 0 2 None]
    by (auto simp: u32_max_def ms_lookup_def fmlookup_dom_iff)
qed

end
