(* ===== verification/Stake_Aggregator.thy ===== *)
theory Stake_Aggregator
  imports Committee
begin

text \<open>
  Stake aggregation (\<^verbatim>\<open>consensus/core/src/stake_aggregator.rs\<close>): a set of voters and the sum of
  their stakes, compared with one of the committee's thresholds. The Rust type parameter
  \<^verbatim>\<open>T: CommitteeThreshold\<close> is the datatype \<open>committee_threshold\<close>.
  The lemmas relate the running \<^verbatim>\<open>u64\<close> sum to the stake of the voter set: every voter is
  counted once and the sum never wraps.
\<close>

subsection \<open>Data and operations\<close>

datatype committee_threshold = QuorumThreshold | CertificationThreshold | ValidityThreshold

fun is_threshold :: "committee_threshold \<Rightarrow> committee \<Rightarrow> stake \<Rightarrow> bool" where
  "is_threshold QuorumThreshold c amount = reached_quorum c amount"
| "is_threshold CertificationThreshold c amount = (amount \<ge> c_certification_threshold c)"
| "is_threshold ValidityThreshold c amount = reached_validity c amount"

fun threshold :: "committee_threshold \<Rightarrow> committee \<Rightarrow> stake" where
  "threshold QuorumThreshold c = c_quorum_threshold c"
| "threshold CertificationThreshold c = c_certification_threshold c"
| "threshold ValidityThreshold c = c_validity_threshold c"

record stake_aggregator =
  sa_votes :: "authority_index fset"
  sa_stake :: stake

definition sa_new :: stake_aggregator where
  "sa_new = \<lparr>sa_votes = {||}, sa_stake = 0\<rparr>"

definition sa_add_unique ::
  "authority_index \<Rightarrow> committee \<Rightarrow> stake_aggregator \<Rightarrow> (stake_aggregator \<times> bool) option" where
  "sa_add_unique vote c sa =
     (if vote |\<notin>| sa_votes sa
      then do {
        s \<leftarrow> committee_stake c vote;
        Some (\<lparr>sa_votes = finsert vote (sa_votes sa), sa_stake = sa_stake sa + s\<rparr>, True)
      }
      else Some (sa, False))"

definition sa_add ::
  "committee_threshold \<Rightarrow> authority_index \<Rightarrow> committee \<Rightarrow> stake_aggregator \<Rightarrow>
   (stake_aggregator \<times> bool) option" where
  "sa_add t vote c sa = do {
     sa' \<leftarrow> (if vote |\<notin>| sa_votes sa
            then do {
              s \<leftarrow> committee_stake c vote;
              Some \<lparr>sa_votes = finsert vote (sa_votes sa), sa_stake = sa_stake sa + s\<rparr>
            }
            else Some sa);
     Some (sa', is_threshold t c (sa_stake sa'))
   }"

definition sa_reached_threshold :: "committee_threshold \<Rightarrow> committee \<Rightarrow> stake_aggregator \<Rightarrow> bool" where
  "sa_reached_threshold t c sa = is_threshold t c (sa_stake sa)"

definition sa_clear :: "stake_aggregator \<Rightarrow> stake_aggregator" where
  "sa_clear sa = sa\<lparr>sa_votes := {||}, sa_stake := 0\<rparr>"

subsection \<open>Invariant\<close>

definition sa_inv :: "committee \<Rightarrow> stake_aggregator \<Rightarrow> bool" where
  "sa_inv c sa \<longleftrightarrow> fset (sa_votes sa) \<subseteq> members c \<and> unat (sa_stake sa) = set_stake c (fset (sa_votes sa))"

lemma sa_inv_new [simp, wf_intros]: "sa_inv c sa_new"
  by (simp add: sa_inv_def sa_new_def)

lemma sa_inv_clear [simp, wf_intros]: "sa_inv c (sa_clear sa)"
  by (simp add: sa_inv_def sa_clear_def)

lemma sa_votes_new [simp]: "sa_votes sa_new = {||}"
  by (simp add: sa_new_def)

lemma sa_clear_new: "sa_clear sa = sa_new"
  by (simp add: sa_clear_def sa_new_def)

lemma is_threshold_iff: "is_threshold t c amount \<longleftrightarrow> threshold t c \<le> amount"
  by (cases t) (auto simp: reached_quorum_def reached_validity_def)

lemma sa_reached_iff:
  "sa_inv c sa \<Longrightarrow> sa_reached_threshold t c sa \<longleftrightarrow> unat (threshold t c) \<le> set_stake c (fset (sa_votes sa))"
  by (simp add: sa_reached_threshold_def is_threshold_iff word_le_nat_alt sa_inv_def)

text \<open>
  The state after inserting a vote. Both \<^verbatim>\<open>add\<close> and \<^verbatim>\<open>add_unique\<close> reach it.
\<close>

definition sa_insert :: "committee \<Rightarrow> authority_index \<Rightarrow> stake_aggregator \<Rightarrow> stake_aggregator" where
  "sa_insert c v sa = (if v |\<in>| sa_votes sa then sa else
     \<lparr>sa_votes = finsert v (sa_votes sa), sa_stake = sa_stake sa + a_stake (c_authorities c ! v)\<rparr>)"

lemma sa_insert_votes [simp]: "sa_votes (sa_insert c v sa) = finsert v (sa_votes sa)"
  by (auto simp: sa_insert_def)

lemma sa_add_eq:
  "v < committee_size c \<Longrightarrow>
   sa_add t v c sa = Some (sa_insert c v sa, sa_reached_threshold t c (sa_insert c v sa))"
  by (auto simp: sa_add_def sa_insert_def sa_reached_threshold_def panic_simps)

lemma sa_add_unique_eq:
  "v < committee_size c \<Longrightarrow>
   sa_add_unique v c sa = Some (sa_insert c v sa, v |\<notin>| sa_votes sa)"
  by (auto simp: sa_add_unique_def sa_insert_def panic_simps)

lemma sa_add_None:
  "sa_add t v c sa = None \<longleftrightarrow> committee_size c \<le> v \<and> v |\<notin>| sa_votes sa"
  by (auto simp: sa_add_def committee_stake_def committee_size_def vec_get_def Option.bind_eq_None_conv)

lemma sa_inv_insert [wf_intros]:
  assumes "committee_wf c" and "sa_inv c sa" and "v < committee_size c"
  shows "sa_inv c (sa_insert c v sa)"
proof (cases "v |\<in>| sa_votes sa")
  case False
  let ?S = "fset (sa_votes sa)"
  have sum: "set_stake c (insert v ?S) = stake_of c v + set_stake c ?S"
    using set_stake_insert[OF assms(3)] False by simp
  then have "stake_of c v + set_stake c ?S < 2 ^ 64"
    using set_stake_le_total[of c "insert v ?S"] assms(1) by (simp add: committee_wf_def)
  then have "unat (sa_stake sa + a_stake (c_authorities c ! v)) = set_stake c (insert v ?S)"
    using sum assms(2,3) unat_add_u64[of "sa_stake sa" "a_stake (c_authorities c ! v)"]
    by (simp add: sa_inv_def stake_of_def)
  with False assms(2,3) show ?thesis
    by (simp add: sa_insert_def sa_inv_def members_def)
qed (use assms in \<open>simp add: sa_insert_def\<close>)

subsection \<open>Feeding a sequence of votes\<close>

definition sa_feed :: "committee \<Rightarrow> authority_index list \<Rightarrow> stake_aggregator \<Rightarrow> stake_aggregator" where
  "sa_feed c vs sa = fold (sa_insert c) vs sa"

lemma sa_feed_simps [simp]:
  "sa_feed c [] sa = sa" "sa_feed c (v # vs) sa = sa_feed c vs (sa_insert c v sa)"
  by (simp_all add: sa_feed_def)

lemma sa_feed_votes: "fset (sa_votes (sa_feed c vs sa)) = fset (sa_votes sa) \<union> set vs"
  by (induction vs arbitrary: sa) auto

lemma sa_inv_feed [wf_intros]:
  "committee_wf c \<Longrightarrow> sa_inv c sa \<Longrightarrow> set vs \<subseteq> members c \<Longrightarrow> sa_inv c (sa_feed c vs sa)"
  by (induction vs arbitrary: sa) (auto simp: members_def intro: sa_inv_insert)

lemma sa_feed_reached:
  assumes "committee_wf c" and "set vs \<subseteq> members c"
  shows "sa_reached_threshold t c (sa_feed c vs sa_new)
    \<longleftrightarrow> unat (threshold t c) \<le> set_stake c (set vs)"
  using sa_reached_iff[OF sa_inv_feed[OF assms(1) _ assms(2), of sa_new]]
  by (simp add: sa_feed_votes)

text \<open>Once reached, a threshold stays reached: adding votes never lowers the stake.\<close>

lemma sa_feed_mono:
  assumes "committee_wf c" "sa_inv c sa" "set vs \<subseteq> members c" "sa_reached_threshold t c sa"
  shows "sa_reached_threshold t c (sa_feed c vs sa)"
  using assms(4) sa_reached_iff[OF assms(2)] sa_reached_iff[OF sa_inv_feed[OF assms(1-3)]]
    set_stake_mono[of "fset (sa_votes sa)" "fset (sa_votes (sa_feed c vs sa))" c]
  by (simp add: sa_feed_votes)

text \<open>
  The early-exit loop used by the commit rule: add the votes one by one and stop at the first
  one that reaches the threshold.
\<close>

fun sa_add_until :: "committee_threshold \<Rightarrow> committee \<Rightarrow> authority_index list \<Rightarrow> stake_aggregator \<Rightarrow>
  bool option" where
  "sa_add_until t c [] sa = Some False"
| "sa_add_until t c (v # vs) sa = do {
     (sa', reached) \<leftarrow> sa_add t v c sa;
     if reached then Some True else sa_add_until t c vs sa'
   }"

lemma sa_add_until_eq:
  assumes "committee_wf c" and "set vs \<subseteq> members c"
    and "sa_inv c sa" and "\<not> sa_reached_threshold t c sa"
  shows "sa_add_until t c vs sa = Some (sa_reached_threshold t c (sa_feed c vs sa))"
  using assms
proof (induction vs arbitrary: sa)
  case (Cons v vs)
  then have v: "v < committee_size c" by (simp add: members_def)
  have inv: "sa_inv c (sa_insert c v sa)" using Cons.prems v by (intro wf_intros)
  show ?case
  proof (cases "sa_reached_threshold t c (sa_insert c v sa)")
    case True
    then show ?thesis using sa_feed_mono[OF Cons.prems(1) inv, of vs] Cons.prems v
      by (simp add: sa_add_eq)
  next
    case False
    then show ?thesis using Cons.IH[OF Cons.prems(1) _ inv] Cons.prems v by (simp add: sa_add_eq)
  qed
qed simp

text \<open>
  C35. The aggregator counts every authority once and never overflows: after any sequence of
  votes from committee members, starting empty, the \<^verbatim>\<open>u64\<close> stake equals the total stake of the
  distinct voters, and the threshold is reported reached exactly when that stake reaches it.
\<close>

theorem stake_aggregator_exact:
  assumes "committee_wf c" and "\<forall>v\<in>set vs. is_valid_index c v"
  shows "\<exists>sa. foldM (\<lambda>v sa. map_option fst (sa_add t v c sa)) vs sa_new = Some sa \<and>
    fset (sa_votes sa) = set vs \<and> unat (sa_stake sa) = set_stake c (set vs) \<and>
    (sa_reached_threshold t c sa \<longleftrightarrow> unat (threshold t c) \<le> set_stake c (set vs))"
proof -
  have vs: "set vs \<subseteq> members c" using assms(2) by (auto simp: is_valid_index_def members_def)
  have "foldM (\<lambda>v sa. map_option fst (sa_add t v c sa)) vs sa = Some (sa_feed c vs sa)" for sa
    using vs by (induction vs arbitrary: sa) (auto simp: sa_add_eq members_def)
  moreover have "sa_inv c (sa_feed c vs sa_new)" using assms(1) vs by (intro wf_intros) auto
  ultimately show ?thesis
    using sa_feed_reached[OF assms(1) vs, of t]
    by (simp add: sa_inv_def sa_feed_votes)
qed

theorem stake_aggregator_exact_witness:
  "\<exists>sa. foldM (\<lambda>v sa. map_option fst (sa_add QuorumThreshold v committee4 sa)) [0, 2, 0, 1] sa_new = Some sa \<and>
    unat (sa_stake sa) = 3 \<and> sa_reached_threshold QuorumThreshold committee4 sa"
proof -
  have "set_stake committee4 {0, 2, 1} = 3" by (simp add: committee4_set_stake)
  moreover have "unat (threshold QuorumThreshold committee4) = 3" by (simp add: committee4_def)
  ultimately show ?thesis
    using stake_aggregator_exact[OF committee4_wf, of "[0, 2, 0, 1]" QuorumThreshold]
    by (auto simp: is_valid_index_def insert_commute)
qed

end
