(* ===== verification/Threshold_Clock.thy ===== *)
theory Threshold_Clock
  imports Stake_Aggregator Block_Types
begin

text \<open>
  The threshold clock (\<^verbatim>\<open>consensus/core/src/threshold_clock.rs\<close>): the round this authority may
  propose for. The instants the source reads with \<^verbatim>\<open>Instant::now()\<close> are an argument \<open>now\<close>;
  the delay metric is not modelled.
\<close>

record threshold_clock =
  tc_aggregator :: stake_aggregator
  tc_round :: round
  tc_quorum_ts :: nat

definition tc_new :: "round \<Rightarrow> nat \<Rightarrow> threshold_clock" where
  "tc_new r now = \<lparr>tc_aggregator = sa_new, tc_round = r, tc_quorum_ts = now\<rparr>"

definition tc_add_block ::
  "committee \<Rightarrow> nat \<Rightarrow> block_ref \<Rightarrow> threshold_clock \<Rightarrow> (threshold_clock \<times> bool) option" where
  "tc_add_block c now b tc =
     (if br_round b < tc_round tc then Some (tc, False)
      else if br_round b = tc_round tc then do {
        (agg, reached) \<leftarrow> sa_add QuorumThreshold (br_author b) c (tc_aggregator tc);
        if reached
        then Some (tc\<lparr>tc_aggregator := sa_clear agg, tc_round := br_round b + 1, tc_quorum_ts := now\<rparr>, True)
        else do {
          _ \<leftarrow> committee_authority c (br_author b);
          Some (tc\<lparr>tc_aggregator := agg\<rparr>, False)
        }
      }
      else do {
        (agg, reached) \<leftarrow> sa_add QuorumThreshold (br_author b) c (sa_clear (tc_aggregator tc));
        Some (tc\<lparr>tc_aggregator := agg,
                 tc_round := (if reached then br_round b + 1 else br_round b),
                 tc_quorum_ts := now\<rparr>, True)
      })"

text \<open>The test helper \<^verbatim>\<open>add_blocks\<close> of the source, as the run of the clock over a sequence.\<close>

definition tc_add_blocks ::
  "committee \<Rightarrow> nat \<Rightarrow> block_ref list \<Rightarrow> threshold_clock \<Rightarrow> threshold_clock option" where
  "tc_add_blocks c now = foldM (\<lambda>b tc. map_option fst (tc_add_block c now b tc))"

subsection \<open>The round as a function of the accepted blocks\<close>

definition authors_at :: "block_ref set \<Rightarrow> round \<Rightarrow> authority_index set" where
  "authors_at B r = br_author ` {b \<in> B. br_round b = r}"

definition is_quorum :: "committee \<Rightarrow> authority_index set \<Rightarrow> bool" where
  "is_quorum c S \<longleftrightarrow> unat (c_quorum_threshold c) \<le> set_stake c S"

text \<open>The highest round with a block, at least the start round.\<close>

definition top_round :: "round \<Rightarrow> block_ref set \<Rightarrow> round" where
  "top_round start B = Max (insert start (br_round ` B))"

definition clock_round :: "committee \<Rightarrow> round \<Rightarrow> block_ref set \<Rightarrow> round" where
  "clock_round c start B =
     (if is_quorum c (authors_at B (top_round start B)) then top_round start B + 1
      else top_round start B)"

lemma authors_at_insert:
  "authors_at (insert b B) r = (if br_round b = r then insert (br_author b) (authors_at B r) else authors_at B r)"
  by (auto simp: authors_at_def)

lemma authors_at_empty [simp]: "authors_at {} r = {}"
  by (simp add: authors_at_def)

lemma authors_at_above: "finite B \<Longrightarrow> top_round start B < r \<Longrightarrow> authors_at B r = {}"
  by (auto simp: authors_at_def top_round_def)

lemma top_round_insert: "finite B \<Longrightarrow> top_round start (insert b B) = max (br_round b) (top_round start B)"
  by (simp add: top_round_def insert_commute[of start])

lemma is_quorum_empty: "committee_wf c \<Longrightarrow> \<not> is_quorum c {}"
  by (simp add: is_quorum_def committee_wf_def)

text \<open>What the clock's state says about the blocks added so far.\<close>

definition tc_inv :: "committee \<Rightarrow> round \<Rightarrow> block_ref set \<Rightarrow> threshold_clock \<Rightarrow> bool" where
  "tc_inv c start B tc \<longleftrightarrow>
     tc_round tc = clock_round c start B \<and> sa_inv c (tc_aggregator tc) \<and>
     fset (sa_votes (tc_aggregator tc)) = authors_at B (tc_round tc)"

lemma tc_inv_new: "committee_wf c \<Longrightarrow> tc_inv c start {} (tc_new start now)"
  by (simp add: tc_inv_def tc_new_def clock_round_def authors_at_def is_quorum_empty top_round_def)

lemma reached_is_quorum:
  "sa_inv c sa \<Longrightarrow> sa_reached_threshold QuorumThreshold c sa \<longleftrightarrow> is_quorum c (fset (sa_votes sa))"
  by (simp add: sa_reached_iff is_quorum_def)

lemma clock_round_ge: "finite B \<Longrightarrow> top_round start B \<le> clock_round c start B"
  by (simp add: clock_round_def)

lemma clock_not_quorum:
  "committee_wf c \<Longrightarrow> finite B \<Longrightarrow> \<not> is_quorum c (authors_at B (clock_round c start B))"
  using authors_at_above[of B start "Suc (top_round start B)"]
  by (auto simp: clock_round_def is_quorum_empty)

lemma tc_add_block_inv:
  assumes wf: "committee_wf c" and fin: "finite B" and inv: "tc_inv c start B tc"
    and v: "br_author b < committee_size c" and single: "\<not> is_quorum c {br_author b}"
  shows "\<exists>tc' adv. tc_add_block c now b tc = Some (tc', adv) \<and> tc_inv c start (insert b B) tc' \<and>
    (adv \<longleftrightarrow> tc_round tc < tc_round tc')"
proof -
  let ?r = "br_round b" and ?a = "br_author b" and ?t = "top_round start B"
  let ?R = "clock_round c start B"
  have R: "tc_round tc = ?R" and sa: "sa_inv c (tc_aggregator tc)"
    and votes: "fset (sa_votes (tc_aggregator tc)) = authors_at B ?R"
    using inv by (auto simp: tc_inv_def)
  note top = top_round_insert[OF fin, of start b]
  note nq = clock_not_quorum[OF wf fin, of start]
  have tR: "?t \<le> ?R" using clock_round_ge[OF fin] .
  consider "?r < ?R" | "?r = ?R" | "?R < ?r" by linarith
  then show ?thesis
  proof cases
    case 1
    have "clock_round c start (insert b B) = ?R \<and> authors_at (insert b B) ?R = authors_at B ?R"
    proof (cases "?r \<le> ?t")
      case True
      then have t': "top_round start (insert b B) = ?t" using top by simp
      show ?thesis
      proof (cases "is_quorum c (authors_at B ?t)")
        case True
        have "authors_at B ?t \<subseteq> authors_at (insert b B) ?t" by (auto simp: authors_at_insert)
        then have "is_quorum c (authors_at (insert b B) ?t)"
          using True set_stake_mono is_quorum_def order_trans by metis
        then show ?thesis using True 1 by (simp add: clock_round_def t' authors_at_insert)
      next
        case False
        then show ?thesis using 1 by (simp add: clock_round_def t' authors_at_insert)
      qed
    qed (use 1 in \<open>auto simp: clock_round_def split: if_splits\<close>)
    then have "tc_inv c start (insert b B) tc" using R sa votes by (simp add: tc_inv_def)
    then show ?thesis using 1 R by (auto simp: tc_add_block_def)
  next
    case 2
    let ?sa = "sa_insert c ?a (tc_aggregator tc)"
    have i: "sa_inv c ?sa" using wf sa v by (intro wf_intros)
    have au: "authors_at (insert b B) ?R = insert ?a (authors_at B ?R)" using 2 by (simp add: authors_at_insert)
    have top': "top_round start (insert b B) = ?R" using 2 tR top by simp
    have vs: "fset (sa_votes ?sa) = authors_at (insert b B) ?R" using votes au by simp
    have rq: "sa_reached_threshold QuorumThreshold c ?sa \<longleftrightarrow> is_quorum c (authors_at (insert b B) ?R)"
      using reached_is_quorum[OF i] vs by simp
    have ab: "authors_at (insert b B) (Suc ?R) = {}"
      using authors_at_above[of "insert b B" start "Suc ?R"] fin top' by simp
    show ?thesis
      using R 2 v i vs ab rq
      by (auto simp: tc_add_block_def sa_add_eq tc_inv_def clock_round_def top' committee_authority_def
          committee_size_def sa_clear_new)
  next
    case 3
    let ?sa = "sa_insert c ?a sa_new"
    have i: "sa_inv c ?sa" using wf v by (intro wf_intros)
    have top': "top_round start (insert b B) = ?r" using 3 tR top by simp
    have "authors_at B ?r = {}" using authors_at_above[OF fin, of start ?r] 3 tR by simp
    then have au: "authors_at (insert b B) ?r = {?a}" by (simp add: authors_at_insert)
    have rq: "sa_reached_threshold QuorumThreshold c ?sa \<longleftrightarrow> is_quorum c {?a}"
      using reached_is_quorum[OF i] by simp
    show ?thesis
      using R 3 v i au rq single
      by (auto simp: tc_add_block_def sa_add_eq sa_clear_new tc_inv_def clock_round_def top')
  qed
qed

lemma tc_add_blocks_inv:
  assumes "committee_wf c" and "\<forall>b\<in>set bs. br_author b < committee_size c \<and> \<not> is_quorum c {br_author b}"
    and "finite B" and "tc_inv c start B tc"
  shows "\<exists>tc'. tc_add_blocks c now bs tc = Some tc' \<and> tc_inv c start (B \<union> set bs) tc'"
  using assms(2-4)
proof (induction bs arbitrary: B tc)
  case (Cons b bs)
  from tc_add_block_inv[OF assms(1) Cons.prems(2,3), of b now] Cons.prems(1) obtain tc1 adv where
    s: "tc_add_block c now b tc = Some (tc1, adv)" "tc_inv c start (insert b B) tc1" by auto
  from Cons.IH[of "insert b B" tc1] Cons.prems s(2) obtain tc' where
    "tc_add_blocks c now bs tc1 = Some tc'" "tc_inv c start (insert b B \<union> set bs) tc'" by auto
  with s(1) show ?case by (simp add: tc_add_blocks_def)
qed (simp add: tc_add_blocks_def)

text \<open>
  C30. The threshold clock is a function of the set of accepted blocks. Started at round \<open>start\<close>
  and fed any sequence of block references from committee members, none of which alone holds a
  quorum of stake, the clock does not panic and its round is one past the highest round with a
  block if the authors of that round's blocks form a quorum, and that highest round otherwise;
  the order of the blocks does not matter.
\<close>

theorem threshold_clock_round:
  assumes "committee_wf c"
    and "\<forall>b\<in>set bs. is_valid_index c (br_author b) \<and> \<not> is_quorum c {br_author b}"
  shows "\<exists>tc. tc_add_blocks c now bs (tc_new start t0) = Some tc \<and> tc_round tc = clock_round c start (set bs)"
  using tc_add_blocks_inv[OF assms(1) _ _ tc_inv_new[OF assms(1)], of bs now start t0] assms(2)
  by (auto simp: tc_inv_def is_valid_index_def)

theorem threshold_clock_round_witness:
  "\<exists>tc. tc_add_blocks committee4 5 [BlockRef 1 0 7, BlockRef 1 3 9, BlockRef 1 2 8] (tc_new 1 0) = Some tc \<and>
     tc_round tc = 2"
proof -
  let ?bs = "[BlockRef 1 0 7, BlockRef 1 3 9, BlockRef 1 2 8]"
  have q: "unat (c_quorum_threshold committee4) = 3" by (simp add: committee4_def)
  have top: "top_round 1 (set ?bs) = 1" by (simp add: top_round_def)
  have "authors_at (set ?bs) 1 = {0, 3, 2}" by (simp add: authors_at_insert)
  then have "clock_round committee4 1 (set ?bs) = 2"
    unfolding clock_round_def top by (simp add: is_quorum_def q committee4_set_stake)
  with threshold_clock_round[OF committee4_wf, of ?bs 5 1 0] q show ?thesis
    by (simp add: is_valid_index_def is_quorum_def committee4_set_stake)
qed

text \<open>
  An authority that alone holds a quorum of stake breaks this: the branch for a block of a
  later round does not clear the aggregator after advancing, so its vote is still counted in
  the next round.
\<close>

text \<open>
  C36. The vote that completes a quorum in the catching-up branch is not cleared: with stakes
  7, 1, 1, 1 (quorum 7), after a block of authority 0 at round 2 a single block of authority 1
  at round 3 moves the clock to round 4, although the blocks of round 3 hold stake 1 only.
\<close>

theorem threshold_clock_stale_vote:
  "\<exists>c tc. committee_new 0 (map sample_authority [7, 1, 1, 1]) = Some c \<and>
     tc_add_blocks c 0 [BlockRef 2 0 0, BlockRef 3 1 0] (tc_new 1 0) = Some tc \<and>
     tc_round tc = 4 \<and>
     \<not> is_quorum c (authors_at {BlockRef 2 0 0, BlockRef 3 1 0} 3) \<and>
     clock_round c 1 {BlockRef 2 0 0, BlockRef 3 1 0} = 3"
proof -
  let ?as = "map sample_authority [7, 1, 1, 1]"
  let ?c = "\<lparr>c_epoch = 0, c_authorities = ?as, c_total_stake = 10, c_quorum_threshold = 7,
     c_certification_threshold = 7, c_validity_threshold = 4\<rparr>"
  have c: "committee_new 0 ?as = Some ?c"
    by (simp add: committee_new_def Let_def sample_authority_def u32_max_def)
  have run: "map_option tc_round (tc_add_blocks ?c 0 [BlockRef 2 0 0, BlockRef 3 1 0] (tc_new 1 0)) = Some 4"
    by (simp add: tc_add_blocks_def tc_add_block_def tc_new_def sa_new_def sa_clear_def sa_add_def
        committee_stake_def vec_get_def sample_authority_def reached_quorum_def)
  have top: "top_round 1 {BlockRef 2 0 0, BlockRef 3 1 0} = 3" by (simp add: top_round_def)
  have au: "authors_at {BlockRef 2 0 0, BlockRef 3 1 0} 3 = {1}" by (simp add: authors_at_insert)
  have "\<not> is_quorum ?c {1}"
    by (simp add: is_quorum_def set_stake_def members_def stake_of_def committee_size_def sample_authority_def)
  with c run top au show ?thesis by (auto simp: clock_round_def)
qed

end
