(* ===== verification/Leader_Scoring.thy ===== *)
theory Leader_Scoring
  imports Commit_Types Stake_Aggregator
begin

text \<open>
  Scoring of leaders from committed sub-dags (\<^verbatim>\<open>consensus/core/src/leader_scoring.rs\<close>): a vote is a committed
  block whose strong link is a committed leader, and it scores the stake of the distinct
  authors of the next round's committed blocks that link to it.
\<close>

record scoring_subdag =
  ss_commit_range :: "commit_range option"
  ss_leaders :: "block_ref fset"
  ss_votes :: "(block_ref, stake_aggregator) fmap"

definition scoring_subdag_new :: scoring_subdag where
  "scoring_subdag_new = \<lparr>ss_commit_range = None, ss_leaders = {||}, ss_votes = fmempty\<rparr>"

subsection \<open>Adding sub-dags\<close>

definition ss_count_vote ::
  "committee \<Rightarrow> verified_block \<Rightarrow> block_ref \<Rightarrow> (block_ref, stake_aggregator) fmap \<Rightarrow>
   (block_ref, stake_aggregator) fmap option" where
  "ss_count_vote c b ancestor votes =
     (case fmlookup votes ancestor of
        Some stake \<Rightarrow> do {
          (stake', reached) \<leftarrow> sa_add QuorumThreshold (vb_author b) c stake;
          Some (fmupd ancestor stake' votes)
        }
      | None \<Rightarrow> Some votes)"

definition ss_add_ancestor ::
  "committee \<Rightarrow> block_ref fset \<Rightarrow> verified_block \<Rightarrow> block_ref \<Rightarrow> (block_ref, stake_aggregator) fmap \<Rightarrow>
   (block_ref, stake_aggregator) fmap option" where
  "ss_add_ancestor c leaders b ancestor votes =
     (if br_round ancestor \<noteq> vb_round b - 1 then Some votes
      else do {
        votes \<leftarrow> (if ancestor |\<in>| leaders
                  then do {
                    assert_that (fmlookup votes (reference b) = None);
                    Some (fmupd (reference b) sa_new votes)
                  }
                  else Some votes);
        ss_count_vote c b ancestor votes
      })"

definition ss_add_block ::
  "committee \<Rightarrow> block_ref fset \<Rightarrow> verified_block \<Rightarrow> (block_ref, stake_aggregator) fmap \<Rightarrow>
   (block_ref, stake_aggregator) fmap option" where
  "ss_add_block c leaders b votes = foldM (ss_add_ancestor c leaders b) (vb_ancestors b) votes"

definition ss_add_subdag :: "committee \<Rightarrow> committed_sub_dag \<Rightarrow> scoring_subdag \<Rightarrow> scoring_subdag option" where
  "ss_add_subdag c subdag ss = do {
     let i = cr_index (csd_commit_ref subdag);
     range \<leftarrow> (case ss_commit_range ss of
                None \<Rightarrow> Some (commit_range_new i i)
              | Some r \<Rightarrow> commit_range_extend_to i r);
     let leaders = finsert (csd_leader subdag) (ss_leaders ss);
     votes \<leftarrow> foldM (ss_add_block c leaders) (csd_blocks subdag) (ss_votes ss);
     Some \<lparr>ss_commit_range = Some range, ss_leaders = leaders, ss_votes = votes\<rparr>
   }"

definition ss_add_subdags :: "committee \<Rightarrow> committed_sub_dag list \<Rightarrow> scoring_subdag \<Rightarrow> scoring_subdag option" where
  "ss_add_subdags c = foldM (ss_add_subdag c)"

subsection \<open>Scores\<close>

definition ss_distributed_votes_scores :: "committee \<Rightarrow> scoring_subdag \<Rightarrow> u64 list option" where
  "ss_distributed_votes_scores c ss =
     foldM (\<lambda>(vote, agg) scores. do {
         s \<leftarrow> vec_get scores (br_author vote);
         vec_set scores (br_author vote) (s + sa_stake agg)
       }) (sorted_list_of_fmap (ss_votes ss)) (replicate (committee_size c) 0)"

definition ss_calculate_distributed_vote_scores :: "committee \<Rightarrow> scoring_subdag \<Rightarrow> reputation_scores option" where
  "ss_calculate_distributed_vote_scores c ss = do {
     scores \<leftarrow> ss_distributed_votes_scores c ss;
     r \<leftarrow> ss_commit_range ss;
     Some (reputation_scores_new r scores)
   }"

definition ss_scored_subdags_count :: "scoring_subdag \<Rightarrow> nat option" where
  "ss_scored_subdags_count ss =
     (case ss_commit_range ss of Some r \<Rightarrow> commit_range_size r | None \<Rightarrow> Some 0)"

definition ss_is_empty :: "scoring_subdag \<Rightarrow> bool" where
  "ss_is_empty ss \<longleftrightarrow> ss_leaders ss = {||} \<and> ss_votes ss = fmempty \<and> ss_commit_range ss = None"

definition ss_clear :: "scoring_subdag \<Rightarrow> scoring_subdag" where
  "ss_clear ss = \<lparr>ss_commit_range = None, ss_leaders = {||}, ss_votes = fmempty\<rparr>"

lemma ss_is_empty_clear [simp]: "ss_is_empty (ss_clear ss)"
  by (simp add: ss_is_empty_def ss_clear_def)

subsection \<open>Invariant\<close>

text \<open>Every vote is keyed by a member's block and its aggregator counts members once.\<close>

definition votes_inv :: "committee \<Rightarrow> (block_ref, stake_aggregator) fmap \<Rightarrow> bool" where
  "votes_inv c votes \<longleftrightarrow>
     (\<forall>r sa. fmlookup votes r = Some sa \<longrightarrow> br_author r < committee_size c \<and> sa_inv c sa)"

lemma votes_inv_empty [simp]: "votes_inv c fmempty"
  by (simp add: votes_inv_def)

lemma votes_inv_upd: "votes_inv c votes \<Longrightarrow> br_author r < committee_size c \<Longrightarrow> sa_inv c sa \<Longrightarrow> votes_inv c (fmupd r sa votes)"
  by (simp add: votes_inv_def)

lemma ss_count_vote_inv:
  assumes "committee_wf c" "votes_inv c votes" "vb_author b < committee_size c"
    and "ss_count_vote c b a votes = Some votes'"
  shows "votes_inv c votes'"
proof (cases "fmlookup votes a")
  case (Some sa)
  with assms(2) have "br_author a < committee_size c" "sa_inv c sa" by (auto simp: votes_inv_def)
  moreover have "votes' = fmupd a (sa_insert c (vb_author b) sa) votes"
    using assms(3,4) Some by (simp add: ss_count_vote_def sa_add_eq)
  ultimately show ?thesis using votes_inv_upd[OF assms(2)] sa_inv_insert[OF assms(1) _ assms(3)] by simp
qed (use assms in \<open>simp add: ss_count_vote_def\<close>)

lemma ss_add_ancestor_eq:
  "ss_add_ancestor c leaders b a votes =
     (if br_round a \<noteq> vb_round b - 1 then Some votes
      else if a |\<in>| leaders
      then (if fmlookup votes (reference b) = None then ss_count_vote c b a (fmupd (reference b) sa_new votes) else None)
      else ss_count_vote c b a votes)"
  by (simp add: ss_add_ancestor_def assert_that_bind)

lemma ss_add_ancestor_inv:
  assumes "committee_wf c" "votes_inv c votes" "vb_author b < committee_size c"
    and "ss_add_ancestor c leaders b a votes = Some votes'"
  shows "votes_inv c votes'"
proof -
  note cv = ss_count_vote_inv[OF assms(1) _ assms(3)]
  have "votes_inv c (fmupd (reference b) sa_new votes)"
    using votes_inv_upd[OF assms(2), of "reference b" sa_new] assms(3) by simp
  from cv[OF this] cv[OF assms(2)] assms(2,4) show ?thesis
    unfolding ss_add_ancestor_eq by (metis option.distinct(1) option.inject)
qed

lemma ss_add_subdags_inv:
  assumes "committee_wf c" "votes_inv c (ss_votes ss)"
    and "\<forall>d\<in>set ds. \<forall>b\<in>set (csd_blocks d). vb_author b < committee_size c"
    and "ss_add_subdags c ds ss = Some ss'"
  shows "votes_inv c (ss_votes ss')"
proof -
  have blk: "votes_inv c v'" if "ss_add_block c l b v = Some v'" "votes_inv c v" "vb_author b < committee_size c"
    for l b v v'
    using foldM_inv[of "ss_add_ancestor c l b" "vb_ancestors b" v v' "votes_inv c"] that ss_add_ancestor_inv[OF assms(1)]
    by (metis ss_add_block_def)
  have sub: "votes_inv c (ss_votes s')"
    if "ss_add_subdag c d s = Some s'" "votes_inv c (ss_votes s)" "\<forall>b\<in>set (csd_blocks d). vb_author b < committee_size c"
    for d s s'
  proof -
    from that(1) obtain l where
      "foldM (ss_add_block c l) (csd_blocks d) (ss_votes s) = Some (ss_votes s')"
      by (auto simp: ss_add_subdag_def Let_def panic_simps split: option.splits)
    then show ?thesis
      by (rule foldM_inv[where P = "votes_inv c"]) (use that blk in blast)+
  qed
  show ?thesis
    using assms(4) unfolding ss_add_subdags_def
    by (rule foldM_inv[where P = "\<lambda>s. votes_inv c (ss_votes s)"]) (use assms(2,3) sub in blast)+
qed

subsection \<open>Exactness of the scores\<close>

definition score_of :: "authority_index \<Rightarrow> (block_ref \<times> stake_aggregator) list \<Rightarrow> nat" where
  "score_of a vs = sum_list (map (unat \<circ> sa_stake \<circ> snd) (filter (\<lambda>(vote, agg). br_author vote = a) vs))"

lemma scores_fold:
  assumes "\<forall>(vote, agg)\<in>set vs. br_author vote < length init"
    and "\<forall>a<length init. unat (init ! a) + score_of a vs < 2 ^ 64"
  shows "\<exists>scores. foldM (\<lambda>(vote, agg) scores. do {
         s \<leftarrow> vec_get scores (br_author vote);
         vec_set scores (br_author vote) (s + sa_stake agg)
       }) vs init = Some scores \<and> length scores = length init \<and>
     (\<forall>a<length init. unat (scores ! a) = unat (init ! a) + score_of a vs)"
  using assms
proof (induction vs arbitrary: init)
  case (Cons v vs)
  obtain vote agg where v: "v = (vote, agg)" by (cases v)
  let ?x = "br_author vote"
  let ?init = "init[?x := init ! ?x + sa_stake agg]"
  have x: "?x < length init" using Cons.prems(1) v by simp
  have sc: "score_of a (v # vs) = (if ?x = a then unat (sa_stake agg) else 0) + score_of a vs" for a
    by (simp add: v score_of_def)
  have "unat (init ! ?x) + unat (sa_stake agg) < 2 ^ 64"
    using Cons.prems(2) x sc[of ?x] by fastforce
  then have i: "unat (?init ! a) + score_of a vs = unat (init ! a) + score_of a (v # vs)" if "a < length init" for a
    using that x sc[of a] unat_add_u64[of "init ! ?x" "sa_stake agg"] by (auto simp: nth_list_update)
  have "\<forall>a<length ?init. unat (?init ! a) + score_of a vs < 2 ^ 64" using i Cons.prems(2) by simp
  with Cons.IH[of ?init] Cons.prems(1) obtain scores where
    "foldM (\<lambda>(vote, agg) scores. do {
         s \<leftarrow> vec_get scores (br_author vote);
         vec_set scores (br_author vote) (s + sa_stake agg)
       }) vs ?init = Some scores" "length scores = length init"
    "\<forall>a<length init. unat (scores ! a) = unat (?init ! a) + score_of a vs" by auto
  then show ?case using v x i by simp
qed (simp add: score_of_def)

lemma score_of_le: "score_of a vs \<le> length vs * t" if "\<forall>(vote, agg)\<in>set vs. unat (sa_stake agg) \<le> t"
  using that by (induction vs) (auto simp: score_of_def)

lemma sum_list_distinct_map: "distinct xs \<Longrightarrow> sum_list (map f xs) = sum f (set xs)"
  by (simp add: sum_list_distinct_conv_sum_set)

lemma sorted_list_of_fmap_distinct: "distinct (sorted_list_of_fmap m)"
  by (simp add: sorted_list_of_fmap_def distinct_map inj_on_def)

lemma score_of_votes:
  assumes "votes_inv c votes"
  shows "score_of a (sorted_list_of_fmap votes) =
    (\<Sum>r \<in> {r \<in> fset (fmdom votes). br_author r = a}. set_stake c (fset (sa_votes (the (fmlookup votes r)))))"
proof -
  let ?xs = "filter (\<lambda>r. br_author r = a) (sorted_list_of_fset (fmdom votes))"
  let ?g = "\<lambda>r. (r, the (fmlookup votes r))"
  have "filter (\<lambda>(vote, agg). br_author vote = a) (sorted_list_of_fmap votes) = map ?g ?xs"
    by (simp add: sorted_list_of_fmap_def filter_map comp_def)
  then have "score_of a (sorted_list_of_fmap votes) = sum_list (map (\<lambda>r. unat (sa_stake (the (fmlookup votes r)))) ?xs)"
    by (simp add: score_of_def comp_def)
  also have "\<dots> = (\<Sum>r\<in>set ?xs. unat (sa_stake (the (fmlookup votes r))))"
    by (rule sum_list_distinct_map) simp
  also have "\<dots> = (\<Sum>r\<in>set ?xs. set_stake c (fset (sa_votes (the (fmlookup votes r)))))"
    using assms by (intro sum.cong) (auto simp: votes_inv_def sa_inv_def fmlookup_dom_iff)
  finally show ?thesis by simp
qed

subsection \<open>The votes recorded from sub-dags\<close>

text \<open>
  A strong link goes to a block of the round before. In a list of committed blocks in causal order no block links to
  itself or to a later block of the list.
\<close>

definition strong_links :: "verified_block \<Rightarrow> block_ref set" where
  "strong_links b = {a \<in> set (vb_ancestors b). br_round a = vb_round b - 1}"

fun causal_order :: "verified_block list \<Rightarrow> bool" where
  "causal_order [] \<longleftrightarrow> True"
| "causal_order (b # bs) \<longleftrightarrow> reference ` set (b # bs) \<inter> set (vb_ancestors b) = {} \<and> causal_order bs"

abbreviation subdag_blocks :: "committed_sub_dag list \<Rightarrow> verified_block list" where
  "subdag_blocks ds \<equiv> concat (map csd_blocks ds)"

definition cast_votes :: "block_ref set \<Rightarrow> verified_block set \<Rightarrow> block_ref set" where
  "cast_votes leaders bs = {reference b | b. b \<in> bs \<and> strong_links b \<inter> leaders \<noteq> {}}"

definition vote_linkers :: "verified_block set \<Rightarrow> block_ref \<Rightarrow> authority_index set" where
  "vote_linkers bs r = {vb_author b | b. b \<in> bs \<and> r \<in> strong_links b}"

text \<open>The authors counted for each recorded vote.\<close>

definition counted :: "(block_ref, stake_aggregator) fmap \<Rightarrow> block_ref \<Rightarrow> authority_index set option" where
  "counted votes r = map_option (fset \<circ> sa_votes) (fmlookup votes r)"

lemma counted_upd: "counted (fmupd r sa votes) = (counted votes)(r \<mapsto> fset (sa_votes sa))"
  by (auto simp: counted_def fun_eq_iff)

lemma sa_votes_insert: "fset (sa_votes (sa_insert c a sa)) = insert a (fset (sa_votes sa))"
  by (auto simp: sa_insert_def)

lemma ss_count_vote_counted:
  assumes "ss_count_vote c b a votes = Some votes'" and "vb_author b < committee_size c"
  shows "counted votes' r = (if r = a then map_option (insert (vb_author b)) (counted votes r) else counted votes r)"
  using assms by (cases "fmlookup votes a") (auto simp: ss_count_vote_def sa_add_eq counted_upd counted_def sa_votes_insert)

lemma ss_add_ancestor_counted:
  assumes "ss_add_ancestor c leaders b a votes = Some votes'" and "vb_author b < committee_size c" and "a \<noteq> reference b"
  shows "counted votes' r =
    (if br_round a \<noteq> vb_round b - 1 then counted votes r
     else if r = reference b \<and> a |\<in>| leaders then Some {}
     else if r = a then map_option (insert (vb_author b)) (counted votes r) else counted votes r)"
proof (cases "br_round a = vb_round b - 1 \<and> a |\<in>| leaders")
  case True
  then have "ss_count_vote c b a (fmupd (reference b) sa_new votes) = Some votes'"
    using assms(1) by (auto simp: ss_add_ancestor_eq split: if_splits)
  from ss_count_vote_counted[OF this assms(2), of r] show ?thesis
    using True assms(3) by (auto simp: counted_upd sa_new_def)
next
  case False
  then show ?thesis using assms(1) ss_count_vote_counted[of c b a votes votes' r] assms(2)
    by (auto simp: ss_add_ancestor_eq split: if_splits)
qed

lemma ss_add_block_counted:
  assumes "ss_add_block c leaders b votes = Some votes'" and "vb_author b < committee_size c" and "reference b \<notin> set (vb_ancestors b)"
  shows "counted votes' r =
    (if r = reference b \<and> strong_links b \<inter> fset leaders \<noteq> {} then Some {}
     else map_option (\<lambda>S. if r \<in> strong_links b then insert (vb_author b) S else S) (counted votes r))"
proof -
  let ?s = "\<lambda>as. {a \<in> set as. br_round a = vb_round b - 1}"
  have "counted votes' r = (if r = reference b \<and> ?s as \<inter> fset leaders \<noteq> {} then Some {}
     else map_option (\<lambda>S. if r \<in> ?s as then insert (vb_author b) S else S) (counted votes r))"
    if "foldM (ss_add_ancestor c leaders b) as votes = Some votes'" "reference b \<notin> set as" for as
    using that
  proof (induction as arbitrary: votes)
    case Nil
    then show ?case by (simp add: option.map_ident)
  next
    case (Cons a as)
    then obtain v1 where v1: "ss_add_ancestor c leaders b a votes = Some v1" "foldM (ss_add_ancestor c leaders b) as v1 = Some votes'"
      by (auto elim!: bind_SomeE)
    have n: "a \<noteq> reference b" "reference b \<notin> set as" using Cons.prems(2) by auto
    note step = ss_add_ancestor_counted[OF v1(1) assms(2) n(1), of r] and ih = Cons.IH[OF v1(2) n(2)]
    show ?case using n unfolding ih step by (cases "counted votes r") (auto simp: insert_absorb)
  qed
  from this[OF _ assms(3)] assms(1) show ?thesis by (simp add: ss_add_block_def strong_links_def)
qed

text \<open>What is recorded when the blocks of \<open>bs\<close> have been added, with leaders \<open>L\<close>.\<close>

definition recorded :: "block_ref set \<Rightarrow> verified_block set \<Rightarrow> (block_ref, stake_aggregator) fmap \<Rightarrow> bool" where
  "recorded L bs votes \<longleftrightarrow> (\<forall>r. counted votes r = (if r \<in> cast_votes L bs then Some (vote_linkers bs r) else None))"

lemma recorded_block:
  assumes "recorded L bs votes" and "ss_add_block c leaders b votes = Some votes'" and "vb_author b < committee_size c"
    and "strong_links b \<inter> fset leaders = strong_links b \<inter> L" and "\<forall>x\<in>insert b bs. reference b \<notin> set (vb_ancestors x)"
  shows "recorded L (insert b bs) votes'"
  unfolding recorded_def
proof
  fix r
  have "reference b \<notin> set (vb_ancestors b)" using assms(5) by simp
  note step = ss_add_block_counted[OF assms(2,3) this, of r, unfolded assms(4)]
  have old: "counted votes r = (if r \<in> cast_votes L bs then Some (vote_linkers bs r) else None)" using assms(1) by (simp add: recorded_def)
  have cast: "r \<in> cast_votes L (insert b bs) \<longleftrightarrow> r \<in> cast_votes L bs \<or> r = reference b \<and> strong_links b \<inter> L \<noteq> {}"
    by (auto simp: cast_votes_def)
  have link: "vote_linkers (insert b bs) r = (if r \<in> strong_links b then insert (vb_author b) (vote_linkers bs r) else vote_linkers bs r)"
    by (auto simp: vote_linkers_def)
  have self: "vote_linkers (insert b bs) (reference b) = {}" using assms(5) by (auto simp: vote_linkers_def strong_links_def)
  show "counted votes' r = (if r \<in> cast_votes L (insert b bs) then Some (vote_linkers (insert b bs) r) else None)"
    unfolding step old cast using self link by auto
qed

lemma recorded_blocks:
  assumes "recorded L bs votes" and "foldM (ss_add_block c leaders) xs votes = Some votes'"
    and "\<forall>b\<in>set xs. vb_author b < committee_size c \<and> strong_links b \<inter> fset leaders = strong_links b \<inter> L"
    and "causal_order xs" and "\<forall>b\<in>bs. \<forall>x\<in>set xs. reference x \<notin> set (vb_ancestors b)"
  shows "recorded L (bs \<union> set xs) votes'"
  using assms
proof (induction xs arbitrary: bs votes)
  case (Cons b xs)
  then obtain v1 where v1: "ss_add_block c leaders b votes = Some v1" "foldM (ss_add_block c leaders) xs v1 = Some votes'"
    by (auto elim!: bind_SomeE)
  have "recorded L (insert b bs) v1"
    by (rule recorded_block[OF Cons.prems(1) v1(1)]) (use Cons.prems(3,4,5) in auto)
  moreover have "\<forall>x\<in>insert b bs. \<forall>y\<in>set xs. reference y \<notin> set (vb_ancestors x)" using Cons.prems(4,5) by auto
  ultimately show ?case using Cons.IH[of "insert b bs" v1] v1(2) Cons.prems(3,4) by simp
qed simp

lemma causal_order_append:
  "causal_order (xs @ ys) \<longleftrightarrow> causal_order xs \<and> causal_order ys \<and> (\<forall>x\<in>set xs. \<forall>y\<in>set ys. reference y \<notin> set (vb_ancestors x))"
  by (induction xs) auto

text \<open>
  The leader of a later sub-dag is not known yet when an earlier sub-dag is added, but no block of the earlier one links to it.
\<close>

lemma recorded_subdags:
  assumes "ss_add_subdags c ds ss = Some ss'" and "recorded L bs (ss_votes ss)" and "L = fset (ss_leaders ss) \<union> csd_leader ` set ds"
    and "causal_order (subdag_blocks ds)" and "\<forall>b\<in>bs. \<forall>x\<in>set (subdag_blocks ds). reference x \<notin> set (vb_ancestors b)"
    and "\<forall>d\<in>set ds. csd_leader d \<in> reference ` set (csd_blocks d) \<and> (\<forall>b\<in>set (csd_blocks d). vb_author b < committee_size c)"
  shows "recorded L (bs \<union> set (subdag_blocks ds)) (ss_votes ss')"
  using assms
proof (induction ds arbitrary: ss bs)
  case Nil
  then show ?case by (simp add: ss_add_subdags_def)
next
  case (Cons d ds)
  then obtain s1 where s1: "ss_add_subdag c d ss = Some s1" "ss_add_subdags c ds s1 = Some ss'"
    by (auto simp: ss_add_subdags_def elim!: bind_SomeE)
  let ?l = "finsert (csd_leader d) (ss_leaders ss)"
  have a: "ss_leaders s1 = ?l" "foldM (ss_add_block c ?l) (csd_blocks d) (ss_votes ss) = Some (ss_votes s1)"
    using s1(1) by (auto simp: ss_add_subdag_def Let_def panic_simps split: option.splits)
  have co: "causal_order (csd_blocks d)" "causal_order (subdag_blocks ds)"
    "\<forall>x\<in>set (csd_blocks d). \<forall>y\<in>set (subdag_blocks ds). reference y \<notin> set (vb_ancestors x)"
    using Cons.prems(4) by (simp_all add: causal_order_append)
  have later: "strong_links b \<inter> csd_leader ` set ds = {}" if "b \<in> set (csd_blocks d)" for b
    using co(3) that Cons.prems(6) by (fastforce simp: strong_links_def)
  have L: "L = fset ?l \<union> csd_leader ` set ds" using Cons.prems(3) by auto
  have "recorded L (bs \<union> set (csd_blocks d)) (ss_votes s1)"
  proof (rule recorded_blocks[OF Cons.prems(2) a(2) _ co(1)])
    show "\<forall>b\<in>set (csd_blocks d). vb_author b < committee_size c \<and> strong_links b \<inter> fset ?l = strong_links b \<inter> L"
      using Cons.prems(6) later unfolding L Int_Un_distrib by simp
    show "\<forall>b\<in>bs. \<forall>x\<in>set (csd_blocks d). reference x \<notin> set (vb_ancestors b)" using Cons.prems(5) by simp
  qed
  from Cons.IH[OF s1(2) this] show ?case using L a(1) Cons.prems(5,6) co(2,3) by (simp add: Un_assoc ball_Un)
qed

lemma recorded_sum:
  assumes "recorded L bs votes"
  shows "(\<Sum>r \<in> {r \<in> fset (fmdom votes). br_author r = a}. set_stake c (fset (sa_votes (the (fmlookup votes r))))) =
    (\<Sum>r \<in> {r \<in> cast_votes L bs. br_author r = a}. set_stake c (vote_linkers bs r))"
proof -
  have k: "fmlookup votes r = Some sa \<Longrightarrow> r \<in> cast_votes L bs \<and> fset (sa_votes sa) = vote_linkers bs r"
    "r \<in> cast_votes L bs \<Longrightarrow> fmlookup votes r \<noteq> None" for r sa
    using assms[unfolded recorded_def, rule_format, of r] by (auto simp: counted_def split: if_splits)
  then have "fset (fmdom votes) = cast_votes L bs" by (auto simp: fmlookup_dom_iff)
  then show ?thesis using k by (intro sum.cong) fastforce+
qed

text \<open>
  C33. The reputation scores are exact. Take sub-dags whose blocks, in the order listed, are in causal order (no
  block links to itself or to one listed later) and by members of a well-formed committee, each sub-dag with its leader among its blocks. When
  adding them does not panic and the number of blocks times the total stake fits a \<^verbatim>\<open>u64\<close>, the score of an authority is the sum, over
  its blocks that link to a leader of the round before (its votes), of the stake of the distinct authors of the blocks
  that link to the vote from the next round; no addition wraps.
\<close>

theorem distributed_scores_exact:
  assumes "committee_wf c" and "ss_add_subdags c ds scoring_subdag_new = Some ss"
    and "\<forall>d\<in>set ds. csd_leader d \<in> reference ` set (csd_blocks d) \<and> (\<forall>b\<in>set (csd_blocks d). is_valid_index c (vb_author b))"
    and "causal_order (subdag_blocks ds)" and "length (subdag_blocks ds) * unat (c_total_stake c) < 2 ^ 64"
  shows "\<exists>scores. ss_distributed_votes_scores c ss = Some scores \<and> length scores = committee_size c \<and>
    (\<forall>a<committee_size c. unat (scores ! a) =
       (\<Sum>r \<in> {r \<in> cast_votes (csd_leader ` set ds) (set (subdag_blocks ds)). br_author r = a}.
          set_stake c (vote_linkers (set (subdag_blocks ds)) r)))"
proof -
  let ?L = "csd_leader ` set ds" and ?B = "set (subdag_blocks ds)" and ?vs = "sorted_list_of_fmap (ss_votes ss)"
  have v: "\<forall>d\<in>set ds. \<forall>b\<in>set (csd_blocks d). vb_author b < committee_size c" using assms(3) by (auto simp: is_valid_index_def)
  have inv: "votes_inv c (ss_votes ss)"
    using ss_add_subdags_inv[OF assms(1) _ _ assms(2)] v by (simp add: scoring_subdag_new_def)
  have "recorded ?L {} (ss_votes scoring_subdag_new)" by (simp add: recorded_def scoring_subdag_new_def counted_def cast_votes_def)
  from recorded_subdags[OF assms(2) this _ assms(4)] v assms(3) have rec: "recorded ?L ?B (ss_votes ss)"
    by (simp add: scoring_subdag_new_def)
  have au: "\<forall>(vote, agg)\<in>set ?vs. br_author vote < length (replicate (committee_size c) (0 :: u64))"
    using inv by (auto simp: set_sorted_list_of_fmap votes_inv_def)
  have st: "\<forall>(vote, agg)\<in>set ?vs. unat (sa_stake agg) \<le> unat (c_total_stake c)"
    using inv set_stake_le_total[of c] assms(1)
    by (auto simp: set_sorted_list_of_fmap votes_inv_def sa_inv_def committee_wf_def)
  have len: "length ?vs \<le> length (subdag_blocks ds)"
  proof -
    have "fset (fmdom (ss_votes ss)) \<subseteq> reference ` ?B"
      using rec by (fastforce simp: recorded_def counted_def cast_votes_def fmlookup_dom_iff split: if_splits)
    then have "card (fset (fmdom (ss_votes ss))) \<le> card (set (map reference (subdag_blocks ds)))" by (intro card_mono) simp_all
    also have "\<dots> \<le> length (subdag_blocks ds)" using card_length[of "map reference (subdag_blocks ds)"] by simp
    finally show ?thesis by (simp add: sorted_list_of_fmap_def sorted_list_of_fset.rep_eq)
  qed
  have "score_of a ?vs < 2 ^ 64" for a
    using score_of_le[OF st, of a] mult_le_mono1[OF len, of "unat (c_total_stake c)"] assms(5) by linarith
  with scores_fold[OF au] obtain scores where
    "ss_distributed_votes_scores c ss = Some scores" "length scores = committee_size c"
    "\<forall>a<committee_size c. unat (scores ! a) = score_of a ?vs"
    unfolding ss_distributed_votes_scores_def by auto
  then show ?thesis by (simp only: score_of_votes[OF inv] recorded_sum[OF rec]) simp
qed

definition sample_subdag :: committed_sub_dag where
  "sample_subdag = committed_sub_dag_new (BlockRef 1 0 0)
     [sample_vb 1 0 0 0 [], sample_vb 2 1 0 0 [BlockRef 1 0 0], sample_vb 3 2 0 0 [BlockRef 2 1 0]] 0
     \<lparr>cr_index = 1, cr_digest = 0\<rparr>"

lemma sample_subdag_scored:
  "ss_add_subdags committee4 [sample_subdag] scoring_subdag_new =
     Some \<lparr>ss_commit_range = Some (CommitRange 1 2), ss_leaders = {|BlockRef 1 0 0|},
           ss_votes = fmupd (BlockRef 2 1 0) (sa_insert committee4 2 sa_new) fmempty\<rparr>"
  by (simp add: ss_add_subdags_def ss_add_subdag_def sample_subdag_def committed_sub_dag_new_def scoring_subdag_new_def
      commit_range_new_def u32_saturating_add_def u32_max_def ss_add_block_def ss_add_ancestor_eq ss_count_vote_def
      sa_add_eq fmupd_idem)

theorem distributed_scores_exact_witness:
  "\<exists>ss scores. ss_add_subdags committee4 [sample_subdag] scoring_subdag_new = Some ss \<and>
     ss_distributed_votes_scores committee4 ss = Some scores \<and> unat (scores ! 1) = 1 \<and> unat (scores ! 2) = 0"
proof -
  let ?ss = "\<lparr>ss_commit_range = Some (CommitRange 1 2), ss_leaders = {|BlockRef 1 0 0|},
           ss_votes = fmupd (BlockRef 2 1 0) (sa_insert committee4 2 sa_new) fmempty\<rparr>"
  let ?L = "csd_leader ` set [sample_subdag]" and ?B = "set (subdag_blocks [sample_subdag])"
  have d: "csd_leader sample_subdag = BlockRef 1 0 0"
    "csd_blocks sample_subdag = [sample_vb 1 0 0 0 [], sample_vb 2 1 0 0 [BlockRef 1 0 0], sample_vb 3 2 0 0 [BlockRef 2 1 0]]"
    by (simp_all add: sample_subdag_def committed_sub_dag_new_def)
  have v: "\<forall>d\<in>set [sample_subdag]. csd_leader d \<in> reference ` set (csd_blocks d) \<and> (\<forall>b\<in>set (csd_blocks d). is_valid_index committee4 (vb_author b))"
    by (simp add: d is_valid_index_def)
  have o: "causal_order (subdag_blocks [sample_subdag])" by (simp add: d)
  have t: "length (subdag_blocks [sample_subdag]) * unat (c_total_stake committee4) < 2 ^ 64"
    by (simp add: committee4_def d)
  from distributed_scores_exact[OF committee4_wf sample_subdag_scored v o t] obtain scores where
    sc: "ss_distributed_votes_scores committee4 ?ss = Some scores"
    "\<forall>a<committee_size committee4. unat (scores ! a) =
       (\<Sum>r \<in> {r \<in> cast_votes ?L ?B. br_author r = a}. set_stake committee4 (vote_linkers ?B r))" by blast
  have "cast_votes ?L ?B = {BlockRef 2 1 0}"
    by (auto simp: cast_votes_def strong_links_def d intro!: exI[of _ "sample_vb 2 1 0 0 [BlockRef 1 0 0]"])
  moreover have "vote_linkers ?B (BlockRef 2 1 0) = {2}"
    by (auto simp: vote_linkers_def strong_links_def d intro!: exI[of _ "sample_vb 3 2 0 0 [BlockRef 2 1 0]"])
  moreover have "{r. r = BlockRef 2 (Suc 0) 0 \<and> br_author r = Suc 0} = {BlockRef 2 (Suc 0) 0}"
    "{r. r = BlockRef 2 (Suc 0) 0 \<and> br_author r = 2} = {}" by auto
  ultimately have "unat (scores ! 1) = 1" "unat (scores ! 2) = 0" using sc(2) by (simp_all add: committee4_set_stake)
  with sc(1) sample_subdag_scored show ?thesis by blast
qed

end
