(* ===== verification/Dag_State.thy ===== *)
theory Dag_State
  imports Storage Threshold_Clock Leader_Scoring
begin

text \<open>
  The local view of the DAG (\<^verbatim>\<open>consensus/core/src/dag_state.rs\<close>): accepted blocks in memory and in the store, the
  commit metadata, the write buffers and their flush.
  The instants the source reads from the clock are an argument \<open>now\<close> of the operations that feed
  the threshold clock. The metrics and \<^verbatim>\<open>last_commit_round_advancement_time\<close>, which only feeds
  a metric, are not modelled. The store is the in-memory one.
\<close>

subsection \<open>Data\<close>

record block_info =
  bi_block :: verified_block
  bi_children :: "block_ref fset"
  bi_children_stake :: stake_aggregator
  bi_committed :: bool
  bi_included :: bool

definition block_info_new :: "verified_block \<Rightarrow> block_info" where
  "block_info_new b = \<lparr>bi_block = b, bi_children = {||}, bi_children_stake = sa_new,
     bi_committed = False, bi_included = False\<rparr>"

record round_info =
  ri_round :: round
  ri_blocks :: "block_ref fset"
  ri_total_stake :: stake_aggregator

definition round_info_new :: "round \<Rightarrow> round_info" where
  "round_info_new r = \<lparr>ri_round = r, ri_blocks = {||}, ri_total_stake = sa_new\<rparr>"

record dag_state =
  ds_context :: consensus_context
  ds_genesis :: "(block_ref, verified_block) fmap"
  ds_recent_blocks :: "(block_ref, block_info) fmap"
  ds_recent_refs_by_authority :: "block_ref fset list"
  ds_round_info :: "round_info list"
  ds_threshold_clock :: threshold_clock
  ds_evicted_rounds :: "round list"
  ds_highest_accepted_round :: round
  ds_last_commit :: "trusted_commit option"
  ds_last_committed_rounds :: "round list"
  ds_scoring_subdag :: scoring_subdag
  ds_pending_commit_votes :: "commit_ref list"
  ds_blocks_to_write :: "verified_block list"
  ds_commits_to_write :: "trusted_commit list"
  ds_commit_info_to_write :: "(commit_ref \<times> commit_info) list"
  ds_finalized_commits_to_write :: "(commit_ref \<times> (block_ref, transaction_index list) fmap) list"
  ds_store :: mem_store
  ds_cached_rounds :: round

abbreviation ds_committee :: "dag_state \<Rightarrow> committee" where
  "ds_committee ds \<equiv> cx_committee (ds_context ds)"

definition ds_threshold_clock_round :: "dag_state \<Rightarrow> round" where
  "ds_threshold_clock_round ds = tc_round (ds_threshold_clock ds)"

subsection \<open>Commit metadata and garbage collection\<close>

definition ds_last_commit_index :: "dag_state \<Rightarrow> commit_index" where
  "ds_last_commit_index ds = (case ds_last_commit ds of Some c \<Rightarrow> tcm_index c | None \<Rightarrow> 0)"

definition ds_last_commit_digest :: "dag_state \<Rightarrow> digest" where
  "ds_last_commit_digest ds = (case ds_last_commit ds of Some c \<Rightarrow> tcm_digest c | None \<Rightarrow> 0)"

definition ds_last_commit_timestamp_ms :: "dag_state \<Rightarrow> timestamp_ms" where
  "ds_last_commit_timestamp_ms ds = (case ds_last_commit ds of Some c \<Rightarrow> tcm_timestamp_ms c | None \<Rightarrow> 0)"

definition ds_last_commit_leader :: "dag_state \<Rightarrow> slot option" where
  "ds_last_commit_leader ds =
     (case ds_last_commit ds of
        Some c \<Rightarrow> Some (slot_from (tcm_leader c))
      | None \<Rightarrow> (case sorted_list_of_fmap (ds_genesis ds) of
            [] \<Rightarrow> None | (r, _) # _ \<Rightarrow> Some (slot_from r)))"

definition ds_last_commit_round :: "dag_state \<Rightarrow> round" where
  "ds_last_commit_round ds = (case ds_last_commit ds of Some c \<Rightarrow> br_round (tcm_leader c) | None \<Rightarrow> 0)"

definition ds_calculate_gc_round :: "dag_state \<Rightarrow> round \<Rightarrow> round" where
  "ds_calculate_gc_round ds r = r - pc_gc_depth (cx_protocol_config (ds_context ds))"

definition ds_gc_round :: "dag_state \<Rightarrow> round" where
  "ds_gc_round ds = ds_calculate_gc_round ds (ds_last_commit_round ds)"

definition eviction_round :: "round \<Rightarrow> round \<Rightarrow> round \<Rightarrow> round" where
  "eviction_round last_round gc_round cached_rounds = min gc_round (last_round - cached_rounds)"

subsection \<open>Reading blocks\<close>

definition ds_get_blocks :: "dag_state \<Rightarrow> block_ref list \<Rightarrow> verified_block option list" where
  "ds_get_blocks ds refs =
     (if refs = [] then []
      else batch_lookup
        (\<lambda>r. if br_round r = GENESIS_ROUND then Some (fmlookup (ds_genesis ds) r)
             else map_option (\<lambda>bi. Some (bi_block bi)) (fmlookup (ds_recent_blocks ds) r))
        (ms_read_blocks (ds_store ds)) None refs)"

definition ds_get_block :: "dag_state \<Rightarrow> block_ref \<Rightarrow> verified_block option" where
  "ds_get_block ds r = last (ds_get_blocks ds [r])"

definition in_slot_range :: "slot \<Rightarrow> block_ref \<Rightarrow> bool" where
  "in_slot_range s k \<longleftrightarrow>
     BlockRef (slot_round s) (slot_authority s) 0 \<le> k \<and> k \<le> BlockRef (slot_round s) (slot_authority s) digest_max"

definition ds_get_block_info_at_slot :: "dag_state \<Rightarrow> slot \<Rightarrow> block_info list option" where
  "ds_get_block_info_at_slot ds s = do {
     assert_that (slot_round s > ds_gc_round ds);
     Some (map snd (filter (\<lambda>e. in_slot_range s (fst e)) (sorted_list_of_fmap (ds_recent_blocks ds))))
   }"

definition ds_get_uncommitted_blocks_at_slot :: "dag_state \<Rightarrow> slot \<Rightarrow> verified_block list" where
  "ds_get_uncommitted_blocks_at_slot ds s =
     map (bi_block \<circ> snd) (filter (\<lambda>e. in_slot_range s (fst e)) (sorted_list_of_fmap (ds_recent_blocks ds)))"

definition ds_get_uncommitted_blocks_at_round :: "dag_state \<Rightarrow> round \<Rightarrow> verified_block list option" where
  "ds_get_uncommitted_blocks_at_round ds r = do {
     assert_that (\<not> r \<le> ds_last_commit_round ds);
     es \<leftarrow> range_incl_excl fst (BlockRef r 0 0) (BlockRef (r + 1) 0 0) (sorted_list_of_fmap (ds_recent_blocks ds));
     Some (map (bi_block \<circ> snd) es)
   }"

text \<open>
  The traversal of \<^verbatim>\<open>ancestors_at_round\<close>: take the highest reference while it is above the
  earlier round and replace it by its ancestors. A missing block panics.
\<close>

partial_function (option) ancestors_loop :: "dag_state \<Rightarrow> round \<Rightarrow> block_ref fset \<Rightarrow> block_ref fset option" where
  "ancestors_loop ds earlier_round linked =
     (if linked = {||} then Some linked
      else if br_round (fMax linked) \<le> earlier_round then Some linked
      else (case ds_get_block ds (fMax linked) of
          None \<Rightarrow> None
        | Some b \<Rightarrow> ancestors_loop ds earlier_round ((linked |-| {|fMax linked|}) |\<union>| fset_of_list (vb_ancestors b))))"

declare ancestors_loop.simps [code]

definition ds_ancestors_at_round :: "dag_state \<Rightarrow> verified_block \<Rightarrow> round \<Rightarrow> verified_block list option" where
  "ds_ancestors_at_round ds later_block earlier_round = do {
     linked \<leftarrow> ancestors_loop ds earlier_round (fset_of_list (vb_ancestors later_block));
     mapM (ds_get_block ds) (filter (\<lambda>r. BlockRef earlier_round 0 0 \<le> r) (sorted_list_of_fset linked))
   }"

definition ds_get_last_block_for_authority :: "dag_state \<Rightarrow> authority_index \<Rightarrow> verified_block option" where
  "ds_get_last_block_for_authority ds a = do {
     refs \<leftarrow> vec_get (ds_recent_refs_by_authority ds) a;
     if refs \<noteq> {||} then map_option bi_block (fmlookup (ds_recent_blocks ds) (fMax refs))
     else map_option snd (find (\<lambda>e. br_author (fst e) = a) (sorted_list_of_fmap (ds_genesis ds)))
   }"

text \<open>The outer option is the panic, the inner one the value for an observer.\<close>

definition ds_get_last_proposed_block :: "dag_state \<Rightarrow> verified_block option option" where
  "ds_get_last_proposed_block ds =
     (if context_is_validator (ds_context ds)
      then do { b \<leftarrow> ds_get_last_block_for_authority ds (cx_own_index (ds_context ds)); Some (Some b) }
      else Some None)"

definition ds_get_cached_blocks_in_range ::
  "dag_state \<Rightarrow> authority_index \<Rightarrow> round \<Rightarrow> round \<Rightarrow> nat \<Rightarrow> verified_block list option" where
  "ds_get_cached_blocks_in_range ds a start_round end_round limit =
     (if start_round \<ge> end_round \<or> limit = 0 then Some []
      else do {
        refs \<leftarrow> vec_get (ds_recent_refs_by_authority ds) a;
        rs \<leftarrow> range_incl_excl id (BlockRef start_round a 0) (BlockRef end_round 0 0) (sorted_list_of_fset refs);
        mapM (\<lambda>r. map_option bi_block (fmlookup (ds_recent_blocks ds) r)) (take limit rs)
      })"

definition ds_get_cached_blocks :: "dag_state \<Rightarrow> authority_index \<Rightarrow> round \<Rightarrow> verified_block list option" where
  "ds_get_cached_blocks ds a start = ds_get_cached_blocks_in_range ds a start u32_max u64_max"

definition ds_get_last_cached_block_in_range ::
  "dag_state \<Rightarrow> authority_index \<Rightarrow> round \<Rightarrow> round \<Rightarrow> verified_block option option" where
  "ds_get_last_cached_block_in_range ds a start_round end_round =
     (if start_round \<ge> end_round then Some None
      else do {
        refs \<leftarrow> vec_get (ds_recent_refs_by_authority ds) a;
        rs \<leftarrow> range_incl_excl id (BlockRef start_round a 0) (BlockRef end_round 0 0) (sorted_list_of_fset refs);
        Some (case last_opt rs of None \<Rightarrow> None | Some r \<Rightarrow> map_option bi_block (fmlookup (ds_recent_blocks ds) r))
      })"

text \<open>The loop over one authority's references in descending order.\<close>

fun last_and_equivocations :: "dag_state \<Rightarrow> block_ref list \<Rightarrow> round \<Rightarrow> verified_block option \<Rightarrow> block_ref list \<Rightarrow>
  (verified_block option \<times> block_ref list) option" where
  "last_and_equivocations ds [] last_round latest eqs = Some (latest, eqs)"
| "last_and_equivocations ds (r # rs) last_round latest eqs =
     (if last_round = 0 then do {
        bi \<leftarrow> fmlookup (ds_recent_blocks ds) r;
        last_and_equivocations ds rs (br_round r) (Some (bi_block bi)) eqs
      }
      else if br_round r < last_round then Some (latest, eqs)
      else last_and_equivocations ds rs last_round latest (eqs @ [r]))"

definition ds_get_last_cached_block_per_authority ::
  "dag_state \<Rightarrow> round \<Rightarrow> (verified_block \<times> block_ref list) list option" where
  "ds_get_last_cached_block_per_authority ds end_round = do {
     let blocks = map snd (sorted_list_of_fmap (ds_genesis ds));
     let equivocating = replicate (committee_size (ds_committee ds)) [];
     assert_that (end_round \<noteq> GENESIS_ROUND);
     if end_round = GENESIS_ROUND + 1 then Some (map (\<lambda>b. (b, [])) blocks)
     else do {
       (blocks, equivocating) \<leftarrow> foldM (\<lambda>(a, refs) (blocks, equivocating). do {
           a \<leftarrow> to_authority_index (ds_committee ds) a;
           evicted \<leftarrow> vec_get (ds_evicted_rounds ds) a;
           assert_that (\<not> end_round - 1 \<le> evicted);
           rs \<leftarrow> range_incl_excl id (BlockRef (evicted + 1) a 0) (BlockRef end_round a 0) (sorted_list_of_fset refs);
           (latest, eqs) \<leftarrow> last_and_equivocations ds (rev rs) 0 None [];
           blocks \<leftarrow> (case latest of None \<Rightarrow> Some blocks | Some b \<Rightarrow> vec_set blocks a b);
           es \<leftarrow> vec_get equivocating a;
           equivocating \<leftarrow> vec_set equivocating a (es @ eqs);
           Some (blocks, equivocating)
         }) (enumerate 0 (ds_recent_refs_by_authority ds)) (blocks, equivocating);
       Some (zip blocks equivocating)
     }
   }"

definition ds_contains_cached_block_at_slot :: "dag_state \<Rightarrow> slot \<Rightarrow> bool option" where
  "ds_contains_cached_block_at_slot ds s =
     (if slot_round s = GENESIS_ROUND then Some True
      else do {
        evicted \<leftarrow> vec_get (ds_evicted_rounds ds) (slot_authority s);
        assert_that (\<not> slot_round s \<le> evicted);
        refs \<leftarrow> vec_get (ds_recent_refs_by_authority ds) (slot_authority s);
        Some (filter (in_slot_range s) (sorted_list_of_fset refs) \<noteq> [])
      })"

text \<open>What the cache answers for one reference: known, known to be absent, or to be read from the store.\<close>

definition ds_contains_cached :: "dag_state \<Rightarrow> block_ref \<Rightarrow> bool option option" where
  "ds_contains_cached ds r = do {
     recent_refs \<leftarrow> vec_get (ds_recent_refs_by_authority ds) (br_author r);
     Some (if r |\<in>| recent_refs \<or> r |\<in>| fmdom (ds_genesis ds) then Some True
           else if recent_refs = {||} \<or> br_round (fMax recent_refs) < br_round r then Some False
           else None)
   }"

definition ds_contains_blocks :: "dag_state \<Rightarrow> block_ref list \<Rightarrow> bool list option" where
  "ds_contains_blocks ds refs = do {
     cached \<leftarrow> mapM (ds_contains_cached ds) refs;
     Some (batch_lookup snd (\<lambda>ps. ms_contains_blocks (ds_store ds) (map fst ps)) False (zip refs cached))
   }"

definition ds_contains_block :: "dag_state \<Rightarrow> block_ref \<Rightarrow> bool option" where
  "ds_contains_block ds r = do {
     bs \<leftarrow> ds_contains_blocks ds [r];
     vec_get bs 0
   }"

subsection \<open>Accepting blocks\<close>

definition ds_get_round_info :: "dag_state \<Rightarrow> round \<Rightarrow> round_info option option" where
  "ds_get_round_info ds r =
     (case ds_round_info ds of
        [] \<Rightarrow> Some None
      | front # _ \<Rightarrow>
        if r < ri_round front \<or> r \<le> ds_gc_round ds then Some None
        else (case vec_get (ds_round_info ds) (r - ri_round front) of
            None \<Rightarrow> Some None
          | Some info \<Rightarrow> do { assert_that (ri_round info = r); Some (Some info) }))"

definition ds_update_round_info :: "verified_block \<Rightarrow> dag_state \<Rightarrow> dag_state option" where
  "ds_update_round_info b ds =
     (let gc_round = ds_gc_round ds in
      if vb_round b \<le> gc_round then Some ds
      else do {
        let next_round = (case last_opt (ds_round_info ds) of Some info \<Rightarrow> ri_round info + 1 | None \<Rightarrow> gc_round + 1);
        assert_that (vb_round b \<le> next_round);
        let infos = (if vb_round b = next_round then ds_round_info ds @ [round_info_new (vb_round b)] else ds_round_info ds);
        front \<leftarrow> vec_get infos 0;
        assert_that (ri_round front \<le> vb_round b);
        info \<leftarrow> vec_get infos (vb_round b - ri_round front);
        (agg, added) \<leftarrow> sa_add_unique (vb_author b) (ds_committee ds) (ri_total_stake info);
        infos \<leftarrow> vec_set infos (vb_round b - ri_round front)
          (info\<lparr>ri_blocks := finsert (reference b) (ri_blocks info), ri_total_stake := agg\<rparr>);
        Some (ds\<lparr>ds_round_info := infos\<rparr>)
      })"

text \<open>The vote accounting of one ancestor link.\<close>

definition ds_update_child :: "verified_block \<Rightarrow> block_ref \<Rightarrow> dag_state \<Rightarrow> dag_state option" where
  "ds_update_child b ancestor ds =
     (if br_round ancestor + 1 \<noteq> vb_round b \<or> br_round ancestor \<le> ds_gc_round ds then Some ds
      else do {
        bi \<leftarrow> fmlookup (ds_recent_blocks ds) ancestor;
        (agg, added) \<leftarrow> sa_add_unique (vb_author b) (ds_committee ds) (bi_children_stake bi);
        Some (ds\<lparr>ds_recent_blocks := fmupd ancestor
          (bi\<lparr>bi_children := finsert (reference b) (bi_children bi), bi_children_stake := agg\<rparr>) (ds_recent_blocks ds)\<rparr>)
      })"

definition ds_update_votes :: "verified_block \<Rightarrow> dag_state \<Rightarrow> dag_state option" where
  "ds_update_votes b ds =
     (if pc_enable_v3 (cx_protocol_config (ds_context ds))
      then do {
        ds \<leftarrow> foldM (ds_update_child b) (vb_ancestors b) ds;
        ds_update_round_info b ds
      }
      else Some ds)"

definition ds_update_block_metadata :: "nat \<Rightarrow> verified_block \<Rightarrow> dag_state \<Rightarrow> dag_state option" where
  "ds_update_block_metadata now b ds = do {
     let r = reference b;
     let ds = ds\<lparr>ds_recent_blocks := fmupd r (block_info_new b) (ds_recent_blocks ds)\<rparr>;
     refs \<leftarrow> vec_get (ds_recent_refs_by_authority ds) (br_author r);
     all_refs \<leftarrow> vec_set (ds_recent_refs_by_authority ds) (br_author r) (finsert r refs);
     let ds = ds\<lparr>ds_recent_refs_by_authority := all_refs\<rparr>;
     ds \<leftarrow> ds_update_votes b ds;
     (tc, advanced) \<leftarrow> tc_add_block (ds_committee ds) now r (ds_threshold_clock ds);
     let ds = ds\<lparr>ds_threshold_clock := tc\<rparr>;
     _ \<leftarrow> (if advanced then ds_get_last_proposed_block ds else Some None);
     let ds = ds\<lparr>ds_highest_accepted_round := max (ds_highest_accepted_round ds) (vb_round b)\<rparr>;
     _ \<leftarrow> committee_authority (ds_committee ds) (br_author r);
     Some ds
   }"

definition ds_accept_block :: "nat \<Rightarrow> verified_block \<Rightarrow> dag_state \<Rightarrow> dag_state option" where
  "ds_accept_block now b ds = do {
     assert_that (vb_round b \<noteq> 0);
     let r = reference b;
     known \<leftarrow> ds_contains_block ds r;
     if known then Some ds
     else do {
       _ \<leftarrow> committee_authority (ds_committee ds) (br_author r);
       assert_that (br_author r = cx_own_index (ds_context ds) \<longrightarrow>
         \<not> pa_skip_equivocation_validation (cx_parameters (ds_context ds)) \<longrightarrow>
         ds_get_uncommitted_blocks_at_slot ds (slot_from r) = []);
       ds \<leftarrow> ds_update_block_metadata now b ds;
       Some (ds\<lparr>ds_blocks_to_write := ds_blocks_to_write ds @ [b]\<rparr>)
     }
   }"

definition ds_accept_blocks :: "nat \<Rightarrow> verified_block list \<Rightarrow> dag_state \<Rightarrow> dag_state option" where
  "ds_accept_blocks now = foldM (ds_accept_block now)"

subsection \<open>Commit and inclusion marks\<close>

definition ds_set_committed :: "block_ref \<Rightarrow> dag_state \<Rightarrow> (dag_state \<times> bool) option" where
  "ds_set_committed r ds = do {
     bi \<leftarrow> fmlookup (ds_recent_blocks ds) r;
     Some (if \<not> bi_committed bi
           then (ds\<lparr>ds_recent_blocks := fmupd r (bi\<lparr>bi_committed := True\<rparr>) (ds_recent_blocks ds)\<rparr>, True)
           else (ds, False))
   }"

definition ds_is_committed :: "dag_state \<Rightarrow> block_ref \<Rightarrow> bool option" where
  "ds_is_committed ds r = map_option bi_committed (fmlookup (ds_recent_blocks ds) r)"

partial_function (option) link_loop ::
  "round \<Rightarrow> block_ref list \<Rightarrow> block_ref list \<Rightarrow> dag_state \<Rightarrow> (dag_state \<times> block_ref list) option" where
  "link_loop gc_round targets linked ds =
     (case targets of
        [] \<Rightarrow> Some (ds, linked)
      | r # rest \<Rightarrow>
        if br_round r \<le> gc_round then link_loop gc_round rest linked ds
        else (case fmlookup (ds_recent_blocks ds) r of
            None \<Rightarrow> None
          | Some bi \<Rightarrow>
            if bi_included bi then link_loop gc_round rest linked ds
            else link_loop gc_round (rest @ vb_ancestors (bi_block bi)) (linked @ [r])
              (ds\<lparr>ds_recent_blocks := fmupd r (bi\<lparr>bi_included := True\<rparr>) (ds_recent_blocks ds)\<rparr>)))"

declare link_loop.simps [code]

definition ds_link_causal_history :: "block_ref \<Rightarrow> dag_state \<Rightarrow> (dag_state \<times> block_ref list) option" where
  "ds_link_causal_history root ds = link_loop (ds_gc_round ds) [root] [] ds"

definition ds_has_been_included :: "dag_state \<Rightarrow> block_ref \<Rightarrow> bool option" where
  "ds_has_been_included ds r = map_option bi_included (fmlookup (ds_recent_blocks ds) r)"

subsection \<open>Commits\<close>

text \<open>The per-authority maximum over the blocks of a commit.\<close>

definition bump_committed_round :: "block_ref \<Rightarrow> round list \<Rightarrow> round list option" where
  "bump_committed_round r rounds = do {
     old \<leftarrow> vec_get rounds (br_author r);
     vec_set rounds (br_author r) (max old (br_round r))
   }"

definition ds_add_commit :: "trusted_commit \<Rightarrow> dag_state \<Rightarrow> dag_state option" where
  "ds_add_commit tc ds =
     (if (case ds_last_commit ds of Some c \<Rightarrow> tcm_index tc \<le> tcm_index c | None \<Rightarrow> False) then Some ds
      else do {
        (case ds_last_commit ds of
           Some c \<Rightarrow> do {
             assert_that (tcm_index tc = tcm_index c + 1);
             assert_that (\<not> tcm_timestamp_ms tc < tcm_timestamp_ms c)
           }
         | None \<Rightarrow> assert_that (tcm_index tc = 1));
        rounds \<leftarrow> foldM bump_committed_round (tcm_blocks tc) (ds_last_committed_rounds ds);
        _ \<leftarrow> mapM (to_authority_index (ds_committee ds)) [0..<length rounds];
        Some (ds\<lparr>ds_last_commit := Some tc, ds_last_committed_rounds := rounds,
          ds_pending_commit_votes := ds_pending_commit_votes ds @ [tcm_reference tc],
          ds_commits_to_write := ds_commits_to_write ds @ [tc]\<rparr>)
      })"

definition ds_recover_commits_to_write :: "trusted_commit list \<Rightarrow> dag_state \<Rightarrow> dag_state" where
  "ds_recover_commits_to_write tcs ds = ds\<lparr>ds_commits_to_write := ds_commits_to_write ds @ tcs\<rparr>"

definition ds_ensure_commits_to_write_is_empty :: "dag_state \<Rightarrow> unit option" where
  "ds_ensure_commits_to_write_is_empty ds = assert_that (ds_commits_to_write ds = [])"

definition ds_add_commit_info :: "reputation_scores \<Rightarrow> dag_state \<Rightarrow> dag_state option" where
  "ds_add_commit_info scores ds = do {
     assert_that (ss_is_empty (ds_scoring_subdag ds));
     tc \<leftarrow> ds_last_commit ds;
     Some (ds\<lparr>ds_commit_info_to_write := ds_commit_info_to_write ds @
       [(tcm_reference tc, \<lparr>ci_committed_rounds = ds_last_committed_rounds ds, ci_reputation_scores = scores\<rparr>)]\<rparr>)
   }"

definition ds_add_finalized_commit ::
  "commit_ref \<Rightarrow> (block_ref, transaction_index list) fmap \<Rightarrow> dag_state \<Rightarrow> dag_state" where
  "ds_add_finalized_commit r rejected ds =
     ds\<lparr>ds_finalized_commits_to_write := ds_finalized_commits_to_write ds @ [(r, rejected)]\<rparr>"

definition ds_take_commit_votes :: "nat \<Rightarrow> dag_state \<Rightarrow> dag_state \<times> commit_ref list" where
  "ds_take_commit_votes limit ds =
     (ds\<lparr>ds_pending_commit_votes := drop limit (ds_pending_commit_votes ds)\<rparr>,
      take limit (ds_pending_commit_votes ds))"

definition ds_add_scoring_subdags :: "committed_sub_dag list \<Rightarrow> dag_state \<Rightarrow> dag_state option" where
  "ds_add_scoring_subdags subdags ds = do {
     ss \<leftarrow> ss_add_subdags (ds_committee ds) subdags (ds_scoring_subdag ds);
     Some (ds\<lparr>ds_scoring_subdag := ss\<rparr>)
   }"

definition ds_clear_scoring_subdag :: "dag_state \<Rightarrow> dag_state" where
  "ds_clear_scoring_subdag ds = ds\<lparr>ds_scoring_subdag := ss_clear (ds_scoring_subdag ds)\<rparr>"

definition ds_scoring_subdags_count :: "dag_state \<Rightarrow> nat option" where
  "ds_scoring_subdags_count ds = ss_scored_subdags_count (ds_scoring_subdag ds)"

definition ds_calculate_scoring_subdag_scores :: "dag_state \<Rightarrow> reputation_scores option" where
  "ds_calculate_scoring_subdag_scores ds =
     ss_calculate_distributed_vote_scores (ds_committee ds) (ds_scoring_subdag ds)"

definition ds_scoring_subdag_commit_range :: "dag_state \<Rightarrow> commit_index option" where
  "ds_scoring_subdag_commit_range ds = map_option commit_range_end (ss_commit_range (ds_scoring_subdag ds))"

definition ds_recover_last_commit_info :: "dag_state \<Rightarrow> (commit_ref \<times> commit_info) option" where
  "ds_recover_last_commit_info ds = ms_read_last_commit_info (ds_store ds)"

subsection \<open>Flush and eviction\<close>

definition ds_calculate_authority_eviction_round :: "dag_state \<Rightarrow> authority_index \<Rightarrow> round option" where
  "ds_calculate_authority_eviction_round ds a = do {
     refs \<leftarrow> vec_get (ds_recent_refs_by_authority ds) a;
     let last_round = (if refs = {||} then GENESIS_ROUND else br_round (fMax refs));
     Some (eviction_round last_round (ds_gc_round ds) (ds_cached_rounds ds))
   }"

text \<open>The inner loop pops references from the front while they are at or below the eviction round.\<close>

fun evict_refs :: "round \<Rightarrow> block_ref list \<Rightarrow> (block_ref, block_info) fmap \<Rightarrow> (block_ref, block_info) fmap \<times> block_ref list" where
  "evict_refs evicted [] recent = (recent, [])"
| "evict_refs evicted (r # rs) recent =
     (if br_round r \<le> evicted then evict_refs evicted rs (fmdrop r recent) else (recent, r # rs))"

definition ds_evict_authority :: "authority_index \<Rightarrow> dag_state \<Rightarrow> dag_state option" where
  "ds_evict_authority a ds = do {
     evicted \<leftarrow> ds_calculate_authority_eviction_round ds a;
     refs \<leftarrow> vec_get (ds_recent_refs_by_authority ds) a;
     let (recent, kept) = evict_refs evicted (sorted_list_of_fset refs) (ds_recent_blocks ds);
     all_refs \<leftarrow> vec_set (ds_recent_refs_by_authority ds) a (fset_of_list kept);
     rounds \<leftarrow> vec_set (ds_evicted_rounds ds) a evicted;
     Some (ds\<lparr>ds_recent_blocks := recent, ds_recent_refs_by_authority := all_refs, ds_evicted_rounds := rounds\<rparr>)
   }"

definition ds_flush :: "dag_state \<Rightarrow> dag_state option" where
  "ds_flush ds =
     (let batch = \<lparr>wb_blocks = ds_blocks_to_write ds, wb_commits = ds_commits_to_write ds,
        wb_commit_info = ds_commit_info_to_write ds, wb_finalized_commits = ds_finalized_commits_to_write ds\<rparr>;
        ds = ds\<lparr>ds_blocks_to_write := [], ds_commits_to_write := [], ds_commit_info_to_write := [],
          ds_finalized_commits_to_write := []\<rparr>
      in
      if wb_blocks batch = [] \<and> wb_commits batch = [] \<and> wb_commit_info batch = [] \<and> wb_finalized_commits batch = []
      then Some ds
      else do {
        let ds = ds\<lparr>ds_store := ms_write batch (ds_store ds)\<rparr>;
        ds \<leftarrow> foldM ds_evict_authority (authority_indices (ds_committee ds)) ds;
        Some (ds\<lparr>ds_round_info := dropWhile (\<lambda>info. ri_round info \<le> ds_gc_round ds) (ds_round_info ds)\<rparr>)
      })"

subsection \<open>Recovery\<close>

definition ds_recover_authority :: "authority_index \<Rightarrow> dag_state \<times> verified_block list \<Rightarrow> (dag_state \<times> verified_block list) option" where
  "ds_recover_authority a acc = (case acc of (ds, recovered) \<Rightarrow> do {
     last_block \<leftarrow> ms_scan_last_blocks_by_author (ds_store ds) a 1 None;
     let last_round = (case last_opt last_block of Some b \<Rightarrow> vb_round b | None \<Rightarrow> GENESIS_ROUND);
     let evicted = eviction_round last_round (ds_gc_round ds) (ds_cached_rounds ds);
     blocks \<leftarrow> ms_scan_blocks_by_author (ds_store ds) a (evicted + 1);
     rounds \<leftarrow> vec_set (ds_evicted_rounds ds) a evicted;
     Some (ds\<lparr>ds_evicted_rounds := rounds\<rparr>, recovered @ blocks)
   })"

text \<open>The backward loop over stored commits that restores the committed marks.\<close>

fun ds_recover_committed :: "round \<Rightarrow> commit_index \<Rightarrow> dag_state \<Rightarrow> dag_state option" where
  "ds_recover_committed gc_round i ds = do {
     commits \<leftarrow> ms_scan_commits (ds_store ds) (commit_range_new i i);
     (case commits of
        [] \<Rightarrow> Some ds
      | tc # _ \<Rightarrow>
        if gc_round > 0 \<and> br_round (tcm_leader tc) \<le> gc_round then Some ds
        else do {
          ds \<leftarrow> foldM (\<lambda>r ds. do { (ds, new) \<leftarrow> ds_set_committed r ds; assert_that new; Some ds })
                 (filter (\<lambda>r. br_round r > gc_round) (tcm_blocks tc)) ds;
          if i - 1 = 0 then Some ds else ds_recover_committed gc_round (i - 1) ds
        })
   }"

declare ds_recover_committed.simps [simp del]

definition dag_state_new :: "crypto \<Rightarrow> nat \<Rightarrow> consensus_context \<Rightarrow> mem_store \<Rightarrow> dag_state option" where
  "dag_state_new cy now ctx store = do {
     let c = cx_committee ctx;
     let n = committee_size c;
     gs \<leftarrow> genesis_blocks cy ctx;
     let genesis = fold (\<lambda>b m. fmupd (reference b) b m) gs fmempty;
     let last_commit = ms_read_last_commit store;
     let (committed_rounds, start_index) =
       (case ms_read_last_commit_info store of
          Some (r, ci) \<Rightarrow> (ci_committed_rounds ci, cr_index r + 1)
        | None \<Rightarrow> (replicate n 0, GENESIS_COMMIT_INDEX + 1));
     (committed_rounds, unscored) \<leftarrow> (case last_commit of
          None \<Rightarrow> Some (committed_rounds, [])
        | Some tc \<Rightarrow> do {
            commits \<leftarrow> ms_scan_commits store (commit_range_new start_index (tcm_index tc));
            foldM (\<lambda>tc (rounds, subdags). do {
                rounds \<leftarrow> foldM bump_committed_round (tcm_blocks tc) rounds;
                subdag \<leftarrow> load_committed_subdag_from_store store tc;
                Some (rounds, subdags @ [subdag])
              }) commits (committed_rounds, [])
          });
     ss \<leftarrow> ss_add_subdags c unscored scoring_subdag_new;
     let ds = \<lparr>ds_context = ctx, ds_genesis = genesis, ds_recent_blocks = fmempty,
       ds_recent_refs_by_authority = replicate n {||}, ds_round_info = [], ds_threshold_clock = tc_new 1 now,
       ds_evicted_rounds = replicate n 0, ds_highest_accepted_round = 0, ds_last_commit = last_commit,
       ds_last_committed_rounds = committed_rounds, ds_scoring_subdag = ss, ds_pending_commit_votes = [],
       ds_blocks_to_write = [], ds_commits_to_write = [], ds_commit_info_to_write = [],
       ds_finalized_commits_to_write = [], ds_store = store,
       ds_cached_rounds = pa_dag_state_cached_rounds (cx_parameters ctx)\<rparr>;
     (ds, recovered) \<leftarrow> foldM ds_recover_authority (authority_indices c) (ds, []);
     ds \<leftarrow> foldM (ds_update_block_metadata now) (sort_key reference recovered) ds;
     ds \<leftarrow> (case last_commit of
          None \<Rightarrow> Some ds
        | Some tc \<Rightarrow> ds_recover_committed (ds_gc_round ds) (tcm_index tc) ds);
     proposed \<leftarrow> ms_scan_blocks_by_author store (cx_own_index ctx) (ds_gc_round ds + 1);
     foldM (\<lambda>b ds. map_option fst (ds_link_causal_history (reference b) ds)) proposed ds
   }"

end
