(* ===== verification/Dag_Invariant.thy ===== *)
theory Dag_Invariant
  imports Dag_State
begin

text \<open>
  The invariant of the DAG state and what its operations do to the blocks it serves: reading is
  cache-then-store, accepting a block adds exactly that block, marking does not change what is served, and
  a flush with its eviction is invisible to the readers.
  The view \<open>ds_get_block\<close> is the specification: a partial map from references to blocks.
\<close>

subsection \<open>The view\<close>

definition ds_cached :: "dag_state \<Rightarrow> block_ref \<Rightarrow> verified_block option" where
  "ds_cached ds r = map_option bi_block (fmlookup (ds_recent_blocks ds) r)"

abbreviation ds_stored :: "dag_state \<Rightarrow> block_ref \<Rightarrow> verified_block option" where
  "ds_stored ds \<equiv> ms_lookup (ds_store ds)"

abbreviation ds_size :: "dag_state \<Rightarrow> nat" where
  "ds_size ds \<equiv> committee_size (cx_committee (ds_context ds))"

lemma ds_get_blocks_eq:
  "ds_get_blocks ds refs =
     map (\<lambda>r. if br_round r = GENESIS_ROUND then fmlookup (ds_genesis ds) r
              else case ds_cached ds r of Some b \<Rightarrow> Some b | None \<Rightarrow> ds_stored ds r) refs"
proof -
  let ?c = "\<lambda>r. if br_round r = GENESIS_ROUND then Some (fmlookup (ds_genesis ds) r)
             else map_option (\<lambda>bi. Some (bi_block bi)) (fmlookup (ds_recent_blocks ds) r)"
  have "(case ?c r of Some v \<Rightarrow> v | None \<Rightarrow> ds_stored ds r) =
      (if br_round r = GENESIS_ROUND then fmlookup (ds_genesis ds) r
       else case ds_cached ds r of Some b \<Rightarrow> Some b | None \<Rightarrow> ds_stored ds r)" for r
    by (cases "fmlookup (ds_recent_blocks ds) r") (simp_all add: ds_cached_def)
  then show ?thesis
    using batch_lookup_eq[of "ms_read_blocks (ds_store ds)" "ds_stored ds" ?c None refs]
    by (simp add: ds_get_blocks_def mem_blocks.reads_lookup)
qed

lemma ds_get_block_eq:
  "ds_get_block ds r =
     (if br_round r = GENESIS_ROUND then fmlookup (ds_genesis ds) r
      else case ds_cached ds r of Some b \<Rightarrow> Some b | None \<Rightarrow> ds_stored ds r)"
  by (simp add: ds_get_block_def ds_get_blocks_eq)

lemma ds_get_blocks_map: "ds_get_blocks ds refs = map (ds_get_block ds) refs"
  by (simp add: ds_get_block_eq ds_get_blocks_eq)

subsection \<open>The invariant\<close>

definition ds_static :: "dag_state \<Rightarrow> bool" where
  "ds_static ds \<longleftrightarrow>
     committee_wf (ds_committee ds) \<and> 0 < ds_cached_rounds ds \<and> ms_wf (ds_store ds) \<and>
     length (ds_recent_refs_by_authority ds) = ds_size ds \<and> length (ds_evicted_rounds ds) = ds_size ds \<and>
     (\<forall>r b. fmlookup (ds_genesis ds) r = Some b \<longrightarrow> reference b = r \<and> br_round r = GENESIS_ROUND) \<and>
     (\<forall>a<ds_size ds. \<exists>r. r |\<in>| fmdom (ds_genesis ds) \<and> br_author r = a)"

definition ds_cache_ok :: "dag_state \<Rightarrow> bool" where
  "ds_cache_ok ds \<longleftrightarrow>
     (\<forall>r b. ds_cached ds r = Some b \<longrightarrow> reference b = r \<and> 0 < br_round r \<and> br_author r < ds_size ds) \<and>
     (\<forall>a<ds_size ds. fset (ds_recent_refs_by_authority ds ! a) = {r. ds_cached ds r \<noteq> None \<and> br_author r = a})"

text \<open>
  A stored block has a positive round and a member's index, is not above the author's latest cached
  block, agrees with the cache, and is cached when it is above the garbage collection round.
\<close>

definition ds_stored_ok :: "dag_state \<Rightarrow> block_ref \<Rightarrow> verified_block \<Rightarrow> bool" where
  "ds_stored_ok ds r b \<longleftrightarrow>
     0 < br_round r \<and> br_author r < ds_size ds \<and>
     (\<exists>r'. ds_cached ds r' \<noteq> None \<and> br_author r' = br_author r \<and> br_round r \<le> br_round r') \<and>
     (ds_cached ds r = None \<or> ds_cached ds r = Some b) \<and>
     (ds_gc_round ds < br_round r \<longrightarrow> ds_cached ds r \<noteq> None)"

definition ds_buffer_ok :: "dag_state \<Rightarrow> bool" where
  "ds_buffer_ok ds \<longleftrightarrow>
     (\<forall>b\<in>set (ds_blocks_to_write ds). ds_cached ds (reference b) = Some b) \<and>
     (\<forall>r b. ds_cached ds r = Some b \<longrightarrow> b \<in> set (ds_blocks_to_write ds) \<or> ds_stored ds r = Some b)"

definition ds_inv :: "dag_state \<Rightarrow> bool" where
  "ds_inv ds \<longleftrightarrow> ds_static ds \<and> ds_cache_ok ds \<and> (\<forall>r b. ds_stored ds r = Some b \<longrightarrow> ds_stored_ok ds r b) \<and> ds_buffer_ok ds"

lemma ds_inv_cached:
  "ds_inv ds \<Longrightarrow> ds_cached ds r = Some b \<Longrightarrow> reference b = r \<and> 0 < br_round r \<and> br_author r < ds_size ds"
  by (simp add: ds_inv_def ds_cache_ok_def)

lemma ds_inv_stored: "ds_inv ds \<Longrightarrow> ds_stored ds r = Some b \<Longrightarrow> reference b = r \<and> ds_stored_ok ds r b"
  using ms_wf_reference[of "ds_store ds" r b] by (simp add: ds_inv_def ds_static_def)

lemma ds_inv_refs:
  "ds_inv ds \<Longrightarrow> a < ds_size ds \<Longrightarrow> fset (ds_recent_refs_by_authority ds ! a) = {r. ds_cached ds r \<noteq> None \<and> br_author r = a}"
  by (simp add: ds_inv_def ds_cache_ok_def)

lemma ds_get_block_reference:
  assumes "ds_inv ds" and "ds_get_block ds r = Some b"
  shows "reference b = r"
  using assms ds_inv_cached[OF assms(1)] ds_inv_stored[OF assms(1)]
  by (auto simp: ds_get_block_eq ds_inv_def ds_static_def split: if_splits option.splits)

subsection \<open>Existence checks\<close>

lemma ds_contains_blocks_eq:
  assumes "\<And>r. r \<in> set refs \<Longrightarrow> ds_contains_cached ds r = Some (f r)"
  shows "ds_contains_blocks ds refs =
    Some (map (\<lambda>r. case f r of Some v \<Rightarrow> v | None \<Rightarrow> ds_stored ds r \<noteq> None) refs)"
proof -
  have "mapM (ds_contains_cached ds) refs = Some (map f refs)" using assms by (rule mapM_total)
  moreover have "batch_lookup snd (\<lambda>ps. ms_contains_blocks (ds_store ds) (map fst ps)) False (zip refs (map f refs)) =
      map (\<lambda>p. case snd p of Some v \<Rightarrow> v | None \<Rightarrow> ds_stored ds (fst p) \<noteq> None) (zip refs (map f refs))"
    by (rule batch_lookup_eq) (simp add: mem_blocks.contains_lookup comp_def)
  moreover have "zip refs (map f refs) = map (\<lambda>r. (r, f r)) refs" by (induction refs) auto
  ultimately show ?thesis by (simp add: ds_contains_blocks_def comp_def cong: option.case_cong)
qed

lemma ds_contains_cached_correct:
  assumes inv: "ds_inv ds" and a: "br_author r < ds_size ds"
  shows "\<exists>v. ds_contains_cached ds r = Some v \<and>
     (case v of Some x \<Rightarrow> x | None \<Rightarrow> ds_stored ds r \<noteq> None) = (ds_get_block ds r \<noteq> None)"
proof -
  let ?refs = "ds_recent_refs_by_authority ds ! br_author r"
  have len: "br_author r < length (ds_recent_refs_by_authority ds)"
    using inv a by (simp add: ds_inv_def ds_static_def)
  have refs: "x |\<in>| ?refs \<longleftrightarrow> ds_cached ds x \<noteq> None \<and> br_author x = br_author r" for x
    using ds_inv_refs[OF inv a] by blast
  have gen: "r |\<in>| fmdom (ds_genesis ds) \<Longrightarrow> br_round r = GENESIS_ROUND"
    using inv by (auto simp: ds_inv_def ds_static_def fmlookup_dom_iff)
  have pos: "ds_cached ds r \<noteq> None \<Longrightarrow> br_round r \<noteq> GENESIS_ROUND" "ds_stored ds r \<noteq> None \<Longrightarrow> br_round r \<noteq> GENESIS_ROUND"
    using ds_inv_cached[OF inv, of r] ds_inv_stored[OF inv, of r] by (auto simp: GENESIS_ROUND_def ds_stored_ok_def)
  have low: "ds_stored ds r = None" if "?refs = {||} \<or> br_round (fMax ?refs) < br_round r"
  proof (rule ccontr)
    assume "ds_stored ds r \<noteq> None"
    then obtain b where "ds_stored ds r = Some b" by blast
    then obtain r' where r': "ds_cached ds r' \<noteq> None" "br_author r' = br_author r" "br_round r \<le> br_round r'"
      using ds_inv_stored[OF inv, of r b] unfolding ds_stored_ok_def by blast
    then have "r' |\<in>| ?refs" using refs by blast
    moreover from this have "br_round r' \<le> br_round (fMax ?refs)" using fMax_ge block_ref_le_round by blast
    ultimately show False using that r'(3) by auto
  qed
  show ?thesis
    using gen pos low refs[of r]
    by (auto simp: ds_contains_cached_def vec_get_in[OF len] ds_get_block_eq fmlookup_dom_iff split: option.splits)
qed

lemma ds_contains_block_correct:
  assumes "ds_inv ds" and "br_author r < ds_size ds"
  shows "ds_contains_block ds r = Some (ds_get_block ds r \<noteq> None)"
proof -
  from ds_contains_cached_correct[OF assms] obtain v where
    v: "ds_contains_cached ds r = Some v" "(case v of Some x \<Rightarrow> x | None \<Rightarrow> ds_stored ds r \<noteq> None) = (ds_get_block ds r \<noteq> None)"
    by blast
  have "ds_contains_blocks ds [r] = Some [case v of Some x \<Rightarrow> x | None \<Rightarrow> ds_stored ds r \<noteq> None]"
    using ds_contains_blocks_eq[of "[r]" ds "\<lambda>_. v"] v(1) by simp
  then show ?thesis using v(2) by (simp add: ds_contains_block_def)
qed

subsection \<open>Accepting a block\<close>

text \<open>The fields that the block metadata update leaves alone.\<close>

definition ds_frame :: "dag_state \<Rightarrow> dag_state" where
  "ds_frame ds = ds\<lparr>ds_recent_blocks := fmempty, ds_recent_refs_by_authority := [], ds_round_info := [],
     ds_threshold_clock := tc_new 0 0, ds_highest_accepted_round := 0\<rparr>"

lemma ds_frame_sel:
  assumes "ds_frame ds' = ds_frame ds"
  shows "ds_context ds' = ds_context ds" "ds_genesis ds' = ds_genesis ds" "ds_evicted_rounds ds' = ds_evicted_rounds ds"
    "ds_last_commit ds' = ds_last_commit ds" "ds_store ds' = ds_store ds" "ds_cached_rounds ds' = ds_cached_rounds ds"
    "ds_blocks_to_write ds' = ds_blocks_to_write ds" "ds_gc_round ds' = ds_gc_round ds"
proof -
  have e: "f (ds_frame ds') = f (ds_frame ds)" for f :: "dag_state \<Rightarrow> 'a" using assms by simp
  show "ds_context ds' = ds_context ds" "ds_genesis ds' = ds_genesis ds" "ds_evicted_rounds ds' = ds_evicted_rounds ds"
    "ds_last_commit ds' = ds_last_commit ds" "ds_store ds' = ds_store ds" "ds_cached_rounds ds' = ds_cached_rounds ds"
    "ds_blocks_to_write ds' = ds_blocks_to_write ds"
    using e[of ds_context] e[of ds_genesis] e[of ds_evicted_rounds] e[of ds_last_commit] e[of ds_store]
      e[of ds_cached_rounds] e[of ds_blocks_to_write] by (simp_all add: ds_frame_def)
  then show "ds_gc_round ds' = ds_gc_round ds"
    by (simp add: ds_gc_round_def ds_calculate_gc_round_def ds_last_commit_round_def)
qed

text \<open>What the view and the index of the cache depend on.\<close>

definition ds_same_cache :: "dag_state \<Rightarrow> dag_state \<Rightarrow> bool" where
  "ds_same_cache ds ds' \<longleftrightarrow> ds_frame ds' = ds_frame ds \<and> ds_cached ds' = ds_cached ds \<and>
     ds_recent_refs_by_authority ds' = ds_recent_refs_by_authority ds"

lemma ds_same_cache_refl [simp]: "ds_same_cache ds ds"
  by (simp add: ds_same_cache_def)

lemma ds_same_cache_trans: "ds_same_cache a b \<Longrightarrow> ds_same_cache b c \<Longrightarrow> ds_same_cache a c"
  by (simp add: ds_same_cache_def)

lemma ds_cached_upd:
  "ds_cached (ds\<lparr>ds_recent_blocks := fmupd r bi (ds_recent_blocks ds)\<rparr>) = (ds_cached ds)(r \<mapsto> bi_block bi)"
  by (auto simp: ds_cached_def)

lemma ds_same_cache_upd:
  assumes "fmlookup (ds_recent_blocks ds) r = Some bi" and "bi_block bi' = bi_block bi"
  shows "ds_same_cache ds (ds\<lparr>ds_recent_blocks := fmupd r bi' (ds_recent_blocks ds)\<rparr>)"
  using assms by (auto simp: ds_same_cache_def ds_frame_def ds_cached_upd) (auto simp: ds_cached_def)

lemma ds_same_cache_inv: "ds_same_cache ds ds' \<Longrightarrow> ds_inv ds \<Longrightarrow> ds_inv ds'"
  using ds_frame_sel[of ds' ds]
  by (simp add: ds_same_cache_def ds_inv_def ds_static_def ds_cache_ok_def ds_stored_ok_def ds_buffer_ok_def)

lemma ds_same_cache_get: "ds_same_cache ds ds' \<Longrightarrow> ds_get_block ds' = ds_get_block ds"
  using ds_frame_sel[of ds' ds] by (simp add: ds_same_cache_def ds_get_block_eq fun_eq_iff cong: option.case_cong)

lemma ds_update_child_same: "ds_update_child b a ds = Some ds' \<Longrightarrow> ds_same_cache ds ds'"
  by (auto simp: ds_update_child_def bind_Some_iff intro: ds_same_cache_upd split: if_splits)

lemma ds_update_children_same:
  assumes "foldM (ds_update_child b) as ds = Some ds'"
  shows "ds_same_cache ds ds'"
  using foldM_inv[OF assms, of "ds_same_cache ds"] ds_update_child_same ds_same_cache_trans
  by (metis ds_same_cache_refl)

lemma ds_cached_round_info [simp]: "ds_cached (ds\<lparr>ds_round_info := x\<rparr>) = ds_cached ds"
  by (auto simp: ds_cached_def)

lemma ds_update_round_info_same: "ds_update_round_info b ds = Some ds' \<Longrightarrow> ds_same_cache ds ds'"
  unfolding ds_update_round_info_def Let_def
  by (simp only: bind_Some_iff split: if_splits) (auto simp: ds_same_cache_def ds_frame_def bind_Some_iff)

definition ds_insert_cache :: "verified_block \<Rightarrow> dag_state \<Rightarrow> dag_state" where
  "ds_insert_cache b ds = ds\<lparr>ds_recent_blocks := fmupd (reference b) (block_info_new b) (ds_recent_blocks ds),
     ds_recent_refs_by_authority := (ds_recent_refs_by_authority ds)[vb_author b :=
       finsert (reference b) (ds_recent_refs_by_authority ds ! vb_author b)]\<rparr>"

lemma ds_same_cache_tail: "ds_same_cache ds (ds\<lparr>ds_threshold_clock := tc, ds_highest_accepted_round := h\<rparr>)"
  by (auto simp: ds_same_cache_def ds_frame_def ds_cached_def)

lemma ds_update_votes_same:
  assumes "ds_update_votes b ds = Some ds'"
  shows "ds_same_cache ds ds'"
proof (cases "pc_enable_v3 (cx_protocol_config (ds_context ds))")
  case True
  with assms obtain ds1 where "foldM (ds_update_child b) (vb_ancestors b) ds = Some ds1" "ds_update_round_info b ds1 = Some ds'"
    by (auto simp: ds_update_votes_def bind_Some_iff)
  then show ?thesis using ds_update_children_same ds_update_round_info_same ds_same_cache_trans by blast
qed (use assms in \<open>simp add: ds_update_votes_def\<close>)

lemma ds_update_block_metadata_eq:
  "ds_update_block_metadata now b ds =
     (if vb_author b < length (ds_recent_refs_by_authority ds)
      then do {
        ds1 \<leftarrow> ds_update_votes b (ds_insert_cache b ds);
        (tc, advanced) \<leftarrow> tc_add_block (ds_committee ds1) now (reference b) (ds_threshold_clock ds1);
        _ \<leftarrow> (if advanced then ds_get_last_proposed_block (ds1\<lparr>ds_threshold_clock := tc\<rparr>) else Some None);
        _ \<leftarrow> committee_authority (ds_committee ds1) (vb_author b);
        Some (ds1\<lparr>ds_threshold_clock := tc, ds_highest_accepted_round := max (ds_highest_accepted_round ds1) (vb_round b)\<rparr>)
      }
      else None)"
  by (simp add: ds_update_block_metadata_def ds_insert_cache_def vec_get_def Let_def)

lemma ds_update_block_metadata_same:
  assumes "ds_update_block_metadata now b ds = Some ds'"
  shows "vb_author b < length (ds_recent_refs_by_authority ds) \<and> vb_author b < ds_size ds \<and>
    ds_same_cache (ds_insert_cache b ds) ds'"
proof -
  let ?ds = "ds_insert_cache b ds"
  have a: "vb_author b < length (ds_recent_refs_by_authority ds)"
    using assms by (simp add: ds_update_block_metadata_eq split: if_splits)
  with assms obtain ds1 tc h where
    v3: "ds_update_votes b ?ds = Some ds1" and
    ds': "ds' = ds1\<lparr>ds_threshold_clock := tc, ds_highest_accepted_round := h\<rparr>" and
    m: "vb_author b < ds_size ds1"
    by (auto simp: ds_update_block_metadata_eq bind_Some_iff committee_authority_def committee_size_def)
  note same = ds_update_votes_same[OF v3]
  then have "ds_context ds1 = ds_context ds"
    using ds_frame_sel(1)[of ds1 ?ds] by (simp add: ds_same_cache_def ds_insert_cache_def)
  then show ?thesis using a m ds_same_cache_trans[OF same ds_same_cache_tail] by (simp add: ds')
qed

lemma ds_insert_cache_sel [simp]:
  "ds_context (ds_insert_cache b ds) = ds_context ds" "ds_genesis (ds_insert_cache b ds) = ds_genesis ds"
  "ds_evicted_rounds (ds_insert_cache b ds) = ds_evicted_rounds ds" "ds_store (ds_insert_cache b ds) = ds_store ds"
  "ds_cached_rounds (ds_insert_cache b ds) = ds_cached_rounds ds" "ds_blocks_to_write (ds_insert_cache b ds) = ds_blocks_to_write ds"
  "ds_gc_round (ds_insert_cache b ds) = ds_gc_round ds"
  "ds_cached (ds_insert_cache b ds) = (ds_cached ds)(reference b \<mapsto> b)"
  by (auto simp: ds_insert_cache_def ds_gc_round_def ds_calculate_gc_round_def ds_last_commit_round_def ds_cached_def
      block_info_new_def fun_eq_iff)

text \<open>Inserting a block that the state does not serve yet, and queueing it for the store.\<close>

definition ds_admit :: "verified_block \<Rightarrow> dag_state \<Rightarrow> dag_state" where
  "ds_admit b ds = (ds_insert_cache b ds)\<lparr>ds_blocks_to_write := ds_blocks_to_write ds @ [b]\<rparr>"

lemma ds_cached_blocks_to_write [simp]: "ds_cached (ds\<lparr>ds_blocks_to_write := x\<rparr>) = ds_cached ds"
  by (auto simp: ds_cached_def)

lemma ds_gc_blocks_to_write [simp]: "ds_gc_round (ds\<lparr>ds_blocks_to_write := x\<rparr>) = ds_gc_round ds"
  by (simp add: ds_gc_round_def ds_calculate_gc_round_def ds_last_commit_round_def)

lemma ds_inv_admit:
  assumes inv: "ds_inv ds" and b: "vb_author b < ds_size ds" "0 < vb_round b" and new: "ds_get_block ds (reference b) = None"
  shows "ds_inv (ds_admit b ds)"
proof -
  let ?ds = "ds_admit b ds" and ?r = "reference b"
  have none: "ds_cached ds ?r = None" "ds_stored ds ?r = None"
    using new b by (auto simp: ds_get_block_eq GENESIS_ROUND_def split: option.splits)
  have c: "ds_cached ?ds = (ds_cached ds)(?r \<mapsto> b)" by (simp add: ds_admit_def)
  have st: "ds_static ?ds" using inv by (simp add: ds_inv_def ds_static_def ds_admit_def) (simp add: ds_insert_cache_def)
  have refs: "fset (ds_recent_refs_by_authority ?ds ! a) = {r. ds_cached ?ds r \<noteq> None \<and> br_author r = a}"
    if "a < ds_size ds" for a
    using ds_inv_refs[OF inv that] that b inv c
    by (auto simp: ds_admit_def ds_insert_cache_def nth_list_update ds_inv_def ds_static_def split: if_splits)
  have "ds_cache_ok ?ds"
    using refs ds_inv_cached[OF inv] b unfolding ds_cache_ok_def c by (auto simp: ds_admit_def)
  moreover have "ds_stored_ok ?ds r b'" if "ds_stored ?ds r = Some b'" for r b'
  proof -
    from that have s: "ds_stored ds r = Some b'" by (simp add: ds_admit_def)
    with none have n: "r \<noteq> ?r" by auto
    from ds_inv_stored[OF inv s] have ok: "ds_stored_ok ds r b'" by simp
    then obtain r' where r': "ds_cached ds r' \<noteq> None" "br_author r' = br_author r" "br_round r \<le> br_round r'"
      unfolding ds_stored_ok_def by blast
    then have "((ds_cached ds)(?r \<mapsto> b)) r' \<noteq> None" by simp
    with r' have "\<exists>r'. ((ds_cached ds)(?r \<mapsto> b)) r' \<noteq> None \<and> br_author r' = br_author r \<and> br_round r \<le> br_round r'"
      by blast
    with ok n show ?thesis unfolding ds_stored_ok_def c by (simp add: ds_admit_def)
  qed
  moreover have "ds_buffer_ok ?ds"
  proof -
    have "ds_buffer_ok ds" using inv by (simp add: ds_inv_def)
    moreover have "b' \<in> set (ds_blocks_to_write ds) \<Longrightarrow> reference b' \<noteq> ?r" for b'
      using inv none by (auto simp: ds_inv_def ds_buffer_ok_def)
    ultimately show ?thesis unfolding ds_buffer_ok_def c by (auto simp: ds_admit_def)
  qed
  ultimately show ?thesis using st by (simp add: ds_inv_def)
qed

lemma ds_frame_blocks_to_write:
  "ds_frame (ds\<lparr>ds_blocks_to_write := x\<rparr>) = (ds_frame ds)\<lparr>ds_blocks_to_write := x\<rparr>"
  by (simp add: ds_frame_def)

lemma ds_accept_block_cases:
  assumes inv: "ds_inv ds" and a: "vb_author b < ds_size ds" and acc: "ds_accept_block now b ds = Some ds'"
  shows "0 < vb_round b \<and> (ds_get_block ds (reference b) \<noteq> None \<and> ds' = ds \<or>
     ds_get_block ds (reference b) = None \<and> ds_same_cache (ds_admit b ds) ds')"
proof -
  have k: "ds_contains_block ds (reference b) = Some (ds_get_block ds (reference b) \<noteq> None)"
    using ds_contains_block_correct[OF inv] a by simp
  have pos: "0 < vb_round b" using acc by (simp add: ds_accept_block_def bind_Some_iff)
  show ?thesis
  proof (cases "ds_get_block ds (reference b)")
    case None
    with acc k obtain ds1 where ds1: "ds_update_block_metadata now b ds = Some ds1"
      and ds': "ds' = ds1\<lparr>ds_blocks_to_write := ds_blocks_to_write ds1 @ [b]\<rparr>"
      by (auto simp: ds_accept_block_def Let_def bind_Some_iff)
    from ds_update_block_metadata_same[OF ds1] have same: "ds_same_cache (ds_insert_cache b ds) ds1" by simp
    then have "ds_blocks_to_write ds1 = ds_blocks_to_write ds"
      using ds_frame_sel(7)[of ds1 "ds_insert_cache b ds"] by (simp add: ds_same_cache_def)
    then have "ds_same_cache (ds_admit b ds) ds'"
      using same by (simp add: ds_same_cache_def ds_admit_def ds' ds_frame_blocks_to_write)
    then show ?thesis using None pos by simp
  next
    case (Some b')
    with acc k pos show ?thesis by (simp add: ds_accept_block_def Let_def bind_Some_iff)
  qed
qed

lemma ds_get_block_admit:
  assumes "0 < vb_round b"
  shows "ds_get_block (ds_admit b ds) = (ds_get_block ds)(reference b \<mapsto> b)"
  using assms by (auto simp: ds_get_block_eq ds_admit_def fun_eq_iff GENESIS_ROUND_def split: option.splits)

lemma ds_accept_block_inv:
  assumes "ds_inv ds" and "vb_author b < ds_size ds" and "ds_accept_block now b ds = Some ds'"
  shows "ds_inv ds'" and "ds_get_block ds' = (\<lambda>r. if r = reference b \<and> ds_get_block ds r = None then Some b else ds_get_block ds r)"
proof -
  note c = ds_accept_block_cases[OF assms]
  show "ds_inv ds'"
    using c assms(1,2) ds_inv_admit ds_same_cache_inv by blast
  show "ds_get_block ds' = (\<lambda>r. if r = reference b \<and> ds_get_block ds r = None then Some b else ds_get_block ds r)"
    using c ds_same_cache_get[of "ds_admit b ds" ds'] ds_get_block_admit[of b ds] by (auto simp: fun_eq_iff)
qed

text \<open>Without vote accounting the metadata update cannot panic on a member's block.\<close>

lemma tc_add_block_total: "br_author r < committee_size c \<Longrightarrow> \<exists>tc' adv. tc_add_block c now r tc = Some (tc', adv)"
  by (auto simp: tc_add_block_def sa_add_eq committee_authority_def committee_size_def)

lemma ds_last_block_total:
  assumes "ds_inv ds" and "a < ds_size ds"
  shows "\<exists>b. ds_get_last_block_for_authority ds a = Some b"
proof -
  let ?refs = "ds_recent_refs_by_authority ds ! a"
  have g: "vec_get (ds_recent_refs_by_authority ds) a = Some ?refs"
    using assms by (simp add: ds_inv_def ds_static_def)
  show ?thesis
  proof (cases "?refs = {||}")
    case True
    from assms obtain r where r: "r |\<in>| fmdom (ds_genesis ds)" "br_author r = a"
      by (auto simp: ds_inv_def ds_static_def)
    then obtain b where "(r, b) \<in> set (sorted_list_of_fmap (ds_genesis ds))"
      by (auto simp: set_sorted_list_of_fmap fmlookup_dom_iff)
    then have "find (\<lambda>e. br_author (fst e) = a) (sorted_list_of_fmap (ds_genesis ds)) \<noteq> None"
      using r(2) by (auto simp: find_None_iff)
    then show ?thesis using True g by (auto simp: ds_get_last_block_for_authority_def)
  next
    case False
    then have "fMax ?refs \<in> {r. ds_cached ds r \<noteq> None \<and> br_author r = a}"
      using ds_inv_refs[OF assms] fMax_in by blast
    then show ?thesis using False g
      by (auto simp: ds_get_last_block_for_authority_def ds_cached_def)
  qed
qed

lemma ds_accept_block_total:
  assumes inv: "ds_inv ds" and b: "vb_author b < ds_size ds" "0 < vb_round b"
    and v3: "\<not> pc_enable_v3 (cx_protocol_config (ds_context ds))"
    and own: "vb_author b = cx_own_index (ds_context ds) \<Longrightarrow> ds_get_uncommitted_blocks_at_slot ds (slot_from (reference b)) = []"
  shows "\<exists>ds'. ds_accept_block now b ds = Some ds'"
proof (cases "ds_get_block ds (reference b)")
  case None
  let ?ds = "ds_insert_cache b ds"
  have k: "ds_contains_block ds (reference b) = Some False"
    using ds_contains_block_correct[OF inv] b None by simp
  from tc_add_block_total[of "reference b" "ds_committee ds" now "ds_threshold_clock ?ds"] b obtain tc adv where
    tc: "tc_add_block (ds_committee ds) now (reference b) (ds_threshold_clock ?ds) = Some (tc, adv)" by auto
  have "ds_inv (ds_admit b ds)" using ds_inv_admit[OF inv b None] .
  then have "ds_inv ((ds_admit b ds)\<lparr>ds_threshold_clock := tc, ds_highest_accepted_round := 0\<rparr>)"
    using ds_same_cache_inv ds_same_cache_tail by blast
  then have "\<exists>l. ds_get_last_proposed_block ((ds_admit b ds)\<lparr>ds_threshold_clock := tc, ds_highest_accepted_round := 0\<rparr>) = Some l"
    using ds_last_block_total[of "(ds_admit b ds)\<lparr>ds_threshold_clock := tc, ds_highest_accepted_round := 0\<rparr>" "cx_own_index (ds_context ds)"]
    by (auto simp: ds_get_last_proposed_block_def context_is_validator_def is_valid_index_def ds_admit_def)
  moreover have "ds_get_last_proposed_block ((ds_admit b ds)\<lparr>ds_threshold_clock := tc, ds_highest_accepted_round := 0\<rparr>)
      = ds_get_last_proposed_block (?ds\<lparr>ds_threshold_clock := tc\<rparr>)"
    by (simp add: ds_get_last_proposed_block_def ds_get_last_block_for_authority_def ds_admit_def cong: if_cong)
  ultimately obtain l where l: "ds_get_last_proposed_block (?ds\<lparr>ds_threshold_clock := tc\<rparr>) = Some l" by auto
  have len: "vb_author b < length (ds_recent_refs_by_authority ds)"
    using inv b by (simp add: ds_inv_def ds_static_def)
  have "\<exists>ds'. ds_update_block_metadata now b ds = Some ds'"
    using len l tc v3 b
    by (auto simp: ds_update_block_metadata_eq ds_update_votes_def committee_authority_def committee_size_def)
  then show ?thesis
    using k b own by (auto simp: ds_accept_block_def Let_def committee_authority_def committee_size_def)
next
  case (Some b')
  then show ?thesis using ds_contains_block_correct[OF inv] b by (auto simp: ds_accept_block_def Let_def)
qed

lemma update_children_uncached:
  assumes "a \<in> set as" and "br_round a + 1 = vb_round b" and "ds_gc_round ds < br_round a" and "fmlookup (ds_recent_blocks ds) a = None"
  shows "foldM (ds_update_child b) as ds = None"
  using assms
proof (induction as arbitrary: ds)
  case (Cons x as)
  show ?case
  proof (cases "ds_update_child b x ds")
    case (Some ds1)
    have g: "ds_gc_round ds1 = ds_gc_round ds" using ds_frame_sel(8)[of ds1 ds] ds_update_child_same[OF Some] by (simp add: ds_same_cache_def)
    have "x \<noteq> a" using Some Cons.prems(2-4) by (auto simp: ds_update_child_def)
    moreover have "fmlookup (ds_recent_blocks ds1) a = None"
      using Some Cons.prems(4) calculation by (auto simp: ds_update_child_def bind_Some_iff split: if_splits)
    ultimately show ?thesis using Cons.IH[of ds1] Cons.prems g Some by auto
  qed simp
qed simp

lemma accept_uncached_parent:
  assumes "ds_inv ds" and "vb_author b < ds_size ds" and "pc_enable_v3 (cx_protocol_config (ds_context ds))" and "ds_get_block ds (reference b) = None"
    and "a \<in> set (vb_ancestors b)" and "br_round a + 1 = vb_round b" and "ds_gc_round ds < br_round a" and "ds_cached ds a = None"
  shows "ds_accept_block now b ds = None"
proof -
  have "a \<noteq> reference b" using assms(6) by auto
  then have "fmlookup (ds_recent_blocks (ds_insert_cache b ds)) a = None" using assms(8) by (auto simp: ds_insert_cache_def ds_cached_def)
  from update_children_uncached[OF assms(5,6) _ this] assms(3,7) have "ds_update_votes b (ds_insert_cache b ds) = None"
    by (simp add: ds_update_votes_def)
  then have "ds_update_block_metadata now b ds = None" by (simp add: ds_update_block_metadata_eq)
  then show ?thesis using ds_contains_block_correct[OF assms(1)] assms(2,4)
    by (cases "0 < vb_round b") (simp_all add: ds_accept_block_def Let_def assert_that_bind committee_authority_def committee_size_def)
qed

subsection \<open>Flush\<close>

lemma evict_refs_eq:
  "sorted rs \<Longrightarrow> evict_refs e rs m =
     (fmfilter (\<lambda>r. \<not> (r \<in> set rs \<and> br_round r \<le> e)) m, filter (\<lambda>r. \<not> br_round r \<le> e) rs)"
proof (induction rs arbitrary: m)
  case (Cons r rs)
  show ?case
  proof (cases "br_round r \<le> e")
    case True
    have "fmfilter (\<lambda>x. \<not> (x \<in> set rs \<and> br_round x \<le> e)) (fmdrop r m)
        = fmfilter (\<lambda>x. \<not> (x \<in> set (r # rs) \<and> br_round x \<le> e)) m"
      by (rule fmap_ext) (use True in auto)
    then show ?thesis using Cons True by simp
  next
    case False
    then have above: "\<not> br_round x \<le> e" if "x \<in> set (r # rs)" for x
      using Cons.prems that block_ref_le_round[of r x] by auto
    have "fmfilter (\<lambda>x. \<not> (x \<in> set (r # rs) \<and> br_round x \<le> e)) m = m"
      by (rule fmap_ext) (use above in auto)
    moreover have "filter (\<lambda>r. \<not> br_round r \<le> e) (r # rs) = r # rs" using above by (intro filter_True) blast
    ultimately show ?thesis using False by simp
  qed
qed (auto intro: fmap_ext)

text \<open>The eviction round of an authority as a function of its cached references.\<close>

definition evict_at :: "dag_state \<Rightarrow> authority_index \<Rightarrow> round" where
  "evict_at ds a =
     eviction_round (if ds_recent_refs_by_authority ds ! a = {||} then GENESIS_ROUND
        else br_round (fMax (ds_recent_refs_by_authority ds ! a))) (ds_gc_round ds) (ds_cached_rounds ds)"

lemma evict_at_le_gc: "evict_at ds a \<le> ds_gc_round ds"
  by (simp add: evict_at_def eviction_round_def)

lemma evict_at_below_last:
  "0 < ds_cached_rounds ds \<Longrightarrow> r |\<in>| ds_recent_refs_by_authority ds ! a \<Longrightarrow> 0 < br_round (fMax (ds_recent_refs_by_authority ds ! a)) \<Longrightarrow>
   evict_at ds a < br_round (fMax (ds_recent_refs_by_authority ds ! a))"
  by (auto simp: evict_at_def eviction_round_def)

lemma ds_evict_authority_eq:
  assumes "a < length (ds_recent_refs_by_authority ds)" and "a < length (ds_evicted_rounds ds)"
  shows "ds_evict_authority a ds = Some (ds\<lparr>
      ds_recent_blocks := fmfilter (\<lambda>r. \<not> (r |\<in>| ds_recent_refs_by_authority ds ! a \<and> br_round r \<le> evict_at ds a)) (ds_recent_blocks ds),
      ds_recent_refs_by_authority := (ds_recent_refs_by_authority ds)[a :=
        ffilter (\<lambda>r. \<not> br_round r \<le> evict_at ds a) (ds_recent_refs_by_authority ds ! a)],
      ds_evicted_rounds := (ds_evicted_rounds ds)[a := evict_at ds a]\<rparr>)"
proof -
  let ?refs = "ds_recent_refs_by_authority ds ! a"
  have "ds_calculate_authority_eviction_round ds a = Some (evict_at ds a)"
    using assms by (simp add: ds_calculate_authority_eviction_round_def evict_at_def)
  moreover have "fset_of_list (filter (\<lambda>r. \<not> br_round r \<le> evict_at ds a) (sorted_list_of_fset ?refs))
      = ffilter (\<lambda>r. \<not> br_round r \<le> evict_at ds a) ?refs"
    by (rule fset_eqI) (simp add: fset_of_list_elem)
  ultimately show ?thesis
    using assms by (simp add: ds_evict_authority_def evict_refs_eq)
qed

text \<open>The state after the authorities in \<open>A\<close> have been cleaned up, relative to the state before.\<close>

definition evicted_upto :: "dag_state \<Rightarrow> authority_index set \<Rightarrow> dag_state \<Rightarrow> bool" where
  "evicted_upto ds A ds' \<longleftrightarrow>
     ds_frame (ds'\<lparr>ds_evicted_rounds := []\<rparr>) = ds_frame (ds\<lparr>ds_evicted_rounds := []\<rparr>) \<and>
     length (ds_recent_refs_by_authority ds') = length (ds_recent_refs_by_authority ds) \<and>
     length (ds_evicted_rounds ds') = length (ds_evicted_rounds ds) \<and>
     ds_cached ds' = (\<lambda>r. if br_author r \<in> A \<and> br_round r \<le> evict_at ds (br_author r) then None else ds_cached ds r) \<and>
     (\<forall>a<ds_size ds. ds_recent_refs_by_authority ds' ! a =
        (if a \<in> A then ffilter (\<lambda>r. \<not> br_round r \<le> evict_at ds a) (ds_recent_refs_by_authority ds ! a)
         else ds_recent_refs_by_authority ds ! a))"

lemma evicted_upto_refl: "evicted_upto ds {} ds"
  by (simp add: evicted_upto_def)

lemma ds_cached_filter:
  "ds_cached (ds\<lparr>ds_recent_blocks := fmfilter P (ds_recent_blocks ds), ds_recent_refs_by_authority := x, ds_evicted_rounds := y\<rparr>)
     = (\<lambda>r. if P r then ds_cached ds r else None)"
  by (auto simp: ds_cached_def fun_eq_iff)

lemma evicted_upto_step:
  assumes inv: "ds_inv ds" and ev: "evicted_upto ds A ds'" and a: "a < ds_size ds" "a \<notin> A"
  shows "\<exists>ds''. ds_evict_authority a ds' = Some ds'' \<and> evicted_upto ds (insert a A) ds''"
proof -
  have len: "length (ds_recent_refs_by_authority ds) = ds_size ds" "length (ds_evicted_rounds ds) = ds_size ds"
    using inv by (auto simp: ds_inv_def ds_static_def)
  have fr: "ds_frame (ds'\<lparr>ds_evicted_rounds := []\<rparr>) = ds_frame (ds\<lparr>ds_evicted_rounds := []\<rparr>)"
    using ev by (simp add: evicted_upto_def)
  have refs: "ds_recent_refs_by_authority ds' ! a = ds_recent_refs_by_authority ds ! a"
    using ev a by (simp add: evicted_upto_def)
  have "ds_gc_round ds' = ds_gc_round ds" "ds_cached_rounds ds' = ds_cached_rounds ds"
    using ds_frame_sel[OF fr] by (auto simp: ds_gc_round_def ds_calculate_gc_round_def ds_last_commit_round_def)
  then have e: "evict_at ds' a = evict_at ds a" by (simp add: evict_at_def refs)
  have in_refs: "r |\<in>| ds_recent_refs_by_authority ds ! a \<longleftrightarrow> ds_cached ds r \<noteq> None \<and> br_author r = a" for r
    using ds_inv_refs[OF inv a(1)] by blast
  have eq: "ds_evict_authority a ds' = Some (ds'\<lparr>
      ds_recent_blocks := fmfilter (\<lambda>r. \<not> (r |\<in>| ds_recent_refs_by_authority ds ! a \<and> br_round r \<le> evict_at ds a)) (ds_recent_blocks ds'),
      ds_recent_refs_by_authority := (ds_recent_refs_by_authority ds')[a :=
        ffilter (\<lambda>r. \<not> br_round r \<le> evict_at ds a) (ds_recent_refs_by_authority ds ! a)],
      ds_evicted_rounds := (ds_evicted_rounds ds')[a := evict_at ds a]\<rparr>)"
    using ds_evict_authority_eq[of a ds'] ev len a by (simp add: evicted_upto_def e refs)
  have "evicted_upto ds (insert a A) (ds'\<lparr>
      ds_recent_blocks := fmfilter (\<lambda>r. \<not> (r |\<in>| ds_recent_refs_by_authority ds ! a \<and> br_round r \<le> evict_at ds a)) (ds_recent_blocks ds'),
      ds_recent_refs_by_authority := (ds_recent_refs_by_authority ds')[a :=
        ffilter (\<lambda>r. \<not> br_round r \<le> evict_at ds a) (ds_recent_refs_by_authority ds ! a)],
      ds_evicted_rounds := (ds_evicted_rounds ds')[a := evict_at ds a]\<rparr>)"
    using ev a len fr unfolding evicted_upto_def ds_cached_filter
    by (auto simp: nth_list_update fun_eq_iff in_refs ds_frame_def)
  with eq show ?thesis by blast
qed

lemma evict_all:
  assumes inv: "ds_inv ds"
  shows "\<exists>ds'. foldM ds_evict_authority (authority_indices (ds_committee ds)) ds = Some ds' \<and>
    evicted_upto ds {..<ds_size ds} ds'"
proof -
  have "k \<le> ds_size ds \<Longrightarrow> \<exists>ds'. foldM ds_evict_authority [0..<k] ds = Some ds' \<and> evicted_upto ds {..<k} ds'" for k
  proof (induction k)
    case 0
    then show ?case by (simp add: evicted_upto_refl)
  next
    case (Suc k)
    then obtain ds1 where "foldM ds_evict_authority [0..<k] ds = Some ds1" "evicted_upto ds {..<k} ds1" by auto
    with evicted_upto_step[OF inv this(2), of k] Suc.prems show ?case
      by (auto simp: foldM_append lessThan_Suc)
  qed
  from this[of "ds_size ds"] show ?thesis by (simp add: authority_indices_def committee_size_def)
qed

lemma evicted_inv:
  assumes inv: "ds_inv ds" and ev: "evicted_upto ds {..<ds_size ds} ds'" and empty: "ds_blocks_to_write ds = []"
  shows "ds_inv ds'" and "ds_get_block ds' = ds_get_block ds"
proof -
  have fr: "ds_frame (ds'\<lparr>ds_evicted_rounds := []\<rparr>) = ds_frame (ds\<lparr>ds_evicted_rounds := []\<rparr>)"
    using ev by (simp add: evicted_upto_def)
  have same: "ds_context ds' = ds_context ds" "ds_genesis ds' = ds_genesis ds" "ds_store ds' = ds_store ds"
      "ds_cached_rounds ds' = ds_cached_rounds ds" "ds_blocks_to_write ds' = ds_blocks_to_write ds" "ds_last_commit ds' = ds_last_commit ds"
    using ds_frame_sel[OF fr] by auto
  then have gc: "ds_gc_round ds' = ds_gc_round ds"
    by (simp add: ds_gc_round_def ds_calculate_gc_round_def ds_last_commit_round_def)
  have c: "ds_cached ds' = (\<lambda>r. if br_author r < ds_size ds \<and> br_round r \<le> evict_at ds (br_author r) then None else ds_cached ds r)"
    using ev by (simp add: evicted_upto_def)
  have refs: "a < ds_size ds \<Longrightarrow> ds_recent_refs_by_authority ds' ! a = ffilter (\<lambda>r. \<not> br_round r \<le> evict_at ds a) (ds_recent_refs_by_authority ds ! a)" for a
    using ev by (simp add: evicted_upto_def)
  have sub: "ds_cached ds' r = Some b \<Longrightarrow> ds_cached ds r = Some b" for r b by (auto simp: c split: if_splits)
  have "ds_buffer_ok ds" using inv by (simp add: ds_inv_def)
  then have all_stored: "ds_cached ds r = Some b \<Longrightarrow> ds_stored ds r = Some b" for r b
    by (simp add: ds_buffer_ok_def empty)
  have "ds_static ds'" using inv ev same by (simp add: ds_inv_def ds_static_def evicted_upto_def)
  moreover have "ds_cache_ok ds'"
    unfolding ds_cache_ok_def same(1)
  proof (intro conjI allI impI)
    fix a assume a: "a < ds_size ds"
    show "fset (ds_recent_refs_by_authority ds' ! a) = {r. ds_cached ds' r \<noteq> None \<and> br_author r = a}"
      unfolding refs[OF a] ffilter.rep_eq ds_inv_refs[OF inv a] using a by (auto simp: c)
  qed (use ds_inv_cached[OF inv sub] in blast)+
  moreover have "ds_buffer_ok ds'" using sub all_stored empty by (simp add: ds_buffer_ok_def same)
  moreover have "ds_stored_ok ds' r b" if "ds_stored ds' r = Some b" for r b
  proof -
    have ok: "ds_stored_ok ds r b" using ds_inv_stored[OF inv, of r b] that same by simp
    let ?refs = "ds_recent_refs_by_authority ds ! br_author r"
    from ok obtain r' where r': "ds_cached ds r' \<noteq> None" "br_author r' = br_author r" "br_round r \<le> br_round r'"
      and a: "br_author r < ds_size ds" "0 < br_round r" unfolding ds_stored_ok_def by blast
    have in_refs: "x |\<in>| ?refs \<longleftrightarrow> ds_cached ds x \<noteq> None \<and> br_author x = br_author r" for x
      using ds_inv_refs[OF inv a(1)] by blast
    let ?m = "fMax ?refs"
    have r'in: "r' |\<in>| ?refs" using r' in_refs by blast
    then have m: "ds_cached ds ?m \<noteq> None" "br_author ?m = br_author r"
      using in_refs[of ?m] fMax_in[of ?refs] by auto
    have le: "br_round r \<le> br_round ?m" using r' r'in block_ref_le_round[OF fMax_ge[OF r'in]] by simp
    have "evict_at ds (br_author r) < br_round ?m"
      using evict_at_below_last[OF _ r'in] inv le a by (simp add: ds_inv_def ds_static_def)
    then have "ds_cached ds' ?m \<noteq> None" using m by (simp add: c)
    then have ex: "\<exists>r'. ds_cached ds' r' \<noteq> None \<and> br_author r' = br_author r \<and> br_round r \<le> br_round r'"
      using m le by blast
    have "ds_gc_round ds < br_round r \<longrightarrow> \<not> br_round r \<le> evict_at ds (br_author r)"
      using evict_at_le_gc[of ds "br_author r"] by linarith
    then have "ds_gc_round ds < br_round r \<longrightarrow> ds_cached ds' r \<noteq> None"
      using ok unfolding ds_stored_ok_def c by presburger
    moreover have "ds_cached ds' r = None \<or> ds_cached ds' r = Some b"
      using ok unfolding ds_stored_ok_def c by presburger
    ultimately show ?thesis using ex a unfolding ds_stored_ok_def same gc by blast
  qed
  ultimately show "ds_inv ds'" by (simp add: ds_inv_def)
  show "ds_get_block ds' = ds_get_block ds"
  proof
    fix r
    show "ds_get_block ds' r = ds_get_block ds r"
      using all_stored[of r] by (cases "ds_cached ds r") (simp_all add: ds_get_block_eq same c)
  qed
qed

definition ds_persist :: "dag_state \<Rightarrow> dag_state" where
  "ds_persist ds = ds\<lparr>ds_blocks_to_write := [], ds_commits_to_write := [], ds_commit_info_to_write := [],
     ds_finalized_commits_to_write := [],
     ds_store := ms_write \<lparr>wb_blocks = ds_blocks_to_write ds, wb_commits = ds_commits_to_write ds,
        wb_commit_info = ds_commit_info_to_write ds, wb_finalized_commits = ds_finalized_commits_to_write ds\<rparr> (ds_store ds)\<rparr>"

lemma ds_persist_inv:
  assumes inv: "ds_inv ds"
  shows "ds_inv (ds_persist ds)" and "ds_get_block (ds_persist ds) = ds_get_block ds"
proof -
  let ?ds = "ds_persist ds"
  have c: "ds_cached ?ds = ds_cached ds" by (auto simp: ds_cached_def ds_persist_def)
  have gc: "ds_gc_round ?ds = ds_gc_round ds"
    by (simp add: ds_gc_round_def ds_calculate_gc_round_def ds_last_commit_round_def ds_persist_def)
  have buf: "b \<in> set (ds_blocks_to_write ds) \<Longrightarrow> ds_cached ds (reference b) = Some b" for b
    using inv by (simp add: ds_inv_def ds_buffer_ok_def)
  have s: "ds_stored ?ds r = (case written (ds_blocks_to_write ds) r of Some b \<Rightarrow> Some b | None \<Rightarrow> ds_stored ds r)" for r
    by (simp add: ds_persist_def ms_lookup_write)
  have s_cached: "ds_stored ?ds r = Some b" if h: "ds_cached ds r = Some b" for r b
  proof (cases "written (ds_blocks_to_write ds) r")
    case None
    then have "b \<notin> set (ds_blocks_to_write ds)" using ds_inv_cached[OF inv h] by (auto simp: written_None_iff)
    then have "ds_stored ds r = Some b" using inv h by (auto simp: ds_inv_def ds_buffer_ok_def)
    then show ?thesis using None by (simp add: s)
  next
    case (Some b')
    then show ?thesis using buf[of b'] h written_SomeD[OF Some] by (simp add: s)
  qed
  have s_none: "ds_stored ?ds r = ds_stored ds r" if h: "ds_cached ds r = None" for r
    using buf h by (cases "written (ds_blocks_to_write ds) r") (auto simp: s dest: written_SomeD)
  have "ds_static ?ds" using inv by (simp add: ds_inv_def ds_static_def ds_persist_def ms_wf_write)
  moreover have "ds_cache_ok ?ds" using inv unfolding ds_inv_def ds_cache_ok_def c by (simp add: ds_persist_def)
  moreover have "ds_buffer_ok ?ds" using s_cached unfolding ds_buffer_ok_def c by (simp add: ds_persist_def)
  moreover have "ds_stored_ok ?ds r b" if "ds_stored ?ds r = Some b" for r b
  proof (cases "ds_cached ds r")
    case None
    then show ?thesis using ds_inv_stored[OF inv, of r b] that s_none
      unfolding ds_stored_ok_def c gc by (auto simp: ds_persist_def)
  next
    case (Some b')
    then have "b' = b" using s_cached that by simp
    with Some ds_inv_cached[OF inv Some] show ?thesis
      unfolding ds_stored_ok_def c gc by (auto simp: ds_persist_def)
  qed
  ultimately show "ds_inv ?ds" by (simp add: ds_inv_def)
  show "ds_get_block ?ds = ds_get_block ds"
  proof
    fix r
    have "ds_genesis ?ds = ds_genesis ds" by (simp add: ds_persist_def)
    then show "ds_get_block ?ds r = ds_get_block ds r"
      using s_none[of r] by (cases "ds_cached ds r") (simp_all add: ds_get_block_eq c)
  qed
qed

lemma ds_same_cache_round_info: "ds_same_cache ds (ds\<lparr>ds_round_info := x\<rparr>)"
  by (simp add: ds_same_cache_def ds_frame_def)

lemma ds_flush_eq:
  "ds_flush ds =
     (if ds_blocks_to_write ds = [] \<and> ds_commits_to_write ds = [] \<and> ds_commit_info_to_write ds = [] \<and> ds_finalized_commits_to_write ds = []
      then Some ds
      else do {
        ds \<leftarrow> foldM ds_evict_authority (authority_indices (ds_committee (ds_persist ds))) (ds_persist ds);
        Some (ds\<lparr>ds_round_info := dropWhile (\<lambda>info. ri_round info \<le> ds_gc_round ds) (ds_round_info ds)\<rparr>)
      })"
  by (simp add: ds_flush_def Let_def ds_persist_def)

lemma ds_flush_correct:
  assumes inv: "ds_inv ds"
  shows "\<exists>ds'. ds_flush ds = Some ds' \<and> ds_inv ds' \<and> ds_get_block ds' = ds_get_block ds"
proof (cases "ds_blocks_to_write ds = [] \<and> ds_commits_to_write ds = [] \<and> ds_commit_info_to_write ds = [] \<and> ds_finalized_commits_to_write ds = []")
  case True
  then show ?thesis using inv by (auto simp: ds_flush_eq)
next
  case False
  note p = ds_persist_inv[OF inv]
  from evict_all[OF p(1)] obtain ds1 where
    run: "foldM ds_evict_authority (authority_indices (ds_committee (ds_persist ds))) (ds_persist ds) = Some ds1"
    and ev: "evicted_upto (ds_persist ds) {..<ds_size (ds_persist ds)} ds1" by blast
  have "ds_blocks_to_write (ds_persist ds) = []" by (simp add: ds_persist_def)
  from evicted_inv[OF p(1) ev this] have "ds_inv ds1" "ds_get_block ds1 = ds_get_block ds" using p(2) by simp_all
  moreover have "ds_flush ds = Some (ds1\<lparr>ds_round_info := dropWhile (\<lambda>info. ri_round info \<le> ds_gc_round ds1) (ds_round_info ds1)\<rparr>)"
    unfolding ds_flush_eq run if_not_P[OF False] by simp
  ultimately show ?thesis
    using ds_same_cache_inv[OF ds_same_cache_round_info] ds_same_cache_get[OF ds_same_cache_round_info] by metis
qed

subsection \<open>Start from an empty store\<close>

definition genesis_map :: "verified_block list \<Rightarrow> (block_ref, verified_block) fmap" where
  "genesis_map gs = fold (\<lambda>b m. fmupd (reference b) b m) gs fmempty"

definition ds_fresh :: "nat \<Rightarrow> consensus_context \<Rightarrow> verified_block list \<Rightarrow> dag_state" where
  "ds_fresh now ctx gs = \<lparr>ds_context = ctx, ds_genesis = genesis_map gs, ds_recent_blocks = fmempty,
     ds_recent_refs_by_authority = replicate (committee_size (cx_committee ctx)) {||}, ds_round_info = [],
     ds_threshold_clock = tc_new 1 now, ds_evicted_rounds = replicate (committee_size (cx_committee ctx)) 0,
     ds_highest_accepted_round = 0, ds_last_commit = None,
     ds_last_committed_rounds = replicate (committee_size (cx_committee ctx)) 0, ds_scoring_subdag = scoring_subdag_new,
     ds_pending_commit_votes = [], ds_blocks_to_write = [], ds_commits_to_write = [], ds_commit_info_to_write = [],
     ds_finalized_commits_to_write = [], ds_store = mem_store_new,
     ds_cached_rounds = pa_dag_state_cached_rounds (cx_parameters ctx)\<rparr>"

lemma sorted_list_of_fset_empty [simp]: "sorted_list_of_fset {||} = []"
  by (simp add: sorted_list_of_fset.rep_eq)

lemma sorted_list_of_fmap_empty [simp]: "sorted_list_of_fmap fmempty = []"
  by (simp add: sorted_list_of_fmap_def)

lemma ds_gc_fresh [simp]: "ds_gc_round (ds_fresh now ctx gs) = 0"
  by (simp add: ds_gc_round_def ds_calculate_gc_round_def ds_last_commit_round_def ds_fresh_def)

lemma scan_empty_store:
  "r \<le> u32_max \<Longrightarrow> ms_scan_blocks_by_author mem_store_new a r = Some []"
  "ms_scan_last_blocks_by_author mem_store_new a n None = Some []"
  by (simp_all add: ms_scan_blocks_by_author_def ms_scan_blocks_by_author_in_range_def
      ms_scan_last_blocks_by_author_def mem_store_new_def range_incl_excl_def range_incl_incl_def ms_read_blocks_def last_opt_def)

lemma ds_recover_fresh:
  "\<forall>a\<in>set as. a < committee_size (cx_committee ctx) \<Longrightarrow>
   foldM ds_recover_authority as (ds_fresh now ctx gs, []) = Some (ds_fresh now ctx gs, [])"
proof (induction as)
  case (Cons a as)
  have st: "ds_store (ds_fresh now ctx gs) = mem_store_new" "ds_evicted_rounds (ds_fresh now ctx gs) = replicate (committee_size (cx_committee ctx)) 0"
    by (simp_all add: ds_fresh_def)
  have upd: "(ds_fresh now ctx gs)\<lparr>ds_evicted_rounds := (replicate (committee_size (cx_committee ctx)) 0)[a := 0]\<rparr> = ds_fresh now ctx gs"
    using Cons.prems by (simp add: ds_fresh_def list_update_same_conv)
  have "ds_recover_authority a (ds_fresh now ctx gs, []) = Some (ds_fresh now ctx gs, [])"
    using Cons.prems upd
    by (simp add: ds_recover_authority_def st scan_empty_store last_opt_def eviction_round_def GENESIS_ROUND_def u32_max_def)
  then show ?case using Cons by simp
qed simp

lemma dag_state_new_empty:
  assumes "genesis_blocks cy ctx = Some gs"
  shows "dag_state_new cy now ctx mem_store_new = Some (ds_fresh now ctx gs)"
proof -
  have r: "ms_read_last_commit mem_store_new = None" "ms_read_last_commit_info mem_store_new = None"
    by (simp_all add: ms_read_last_commit_def ms_read_last_commit_info_def mem_store_new_def last_opt_def)
  have "\<forall>a\<in>set (authority_indices (cx_committee ctx)). a < committee_size (cx_committee ctx)"
    by (simp add: authority_indices_def committee_size_def)
  from ds_recover_fresh[OF this, of now gs] show ?thesis
    by (simp add: dag_state_new_def assms r Let_def ss_add_subdags_def ds_fresh_def[symmetric] genesis_map_def[symmetric]
        scan_empty_store u32_max_def del: One_nat_def)
qed

lemma genesis_map_lookup:
  "(\<And>b. b \<in> set gs \<Longrightarrow> P b) \<Longrightarrow> fmlookup (genesis_map gs) r = Some b \<Longrightarrow> reference b = r \<and> P b"
proof -
  have "fmlookup (fold (\<lambda>b m. fmupd (reference b) b m) gs m) r = Some b \<Longrightarrow>
      fmlookup m r = Some b \<or> (b \<in> set gs \<and> reference b = r)" for m
  proof (induction gs arbitrary: m)
    case (Cons a gs)
    from Cons.IH[of "fmupd (reference a) a m"] Cons.prems show ?case by (auto split: if_splits)
  qed simp
  then show "(\<And>b. b \<in> set gs \<Longrightarrow> P b) \<Longrightarrow> fmlookup (genesis_map gs) r = Some b \<Longrightarrow> reference b = r \<and> P b"
    by (fastforce simp: genesis_map_def)
qed

lemma genesis_map_dom: "fset (fmdom (genesis_map gs)) = reference ` set gs"
proof -
  have "fset (fmdom (fold (\<lambda>b m. fmupd (reference b) b m) gs m)) = fset (fmdom m) \<union> reference ` set gs" for m
    by (induction gs arbitrary: m) auto
  then show ?thesis by (simp add: genesis_map_def)
qed

lemma ds_fresh_inv:
  assumes "genesis_blocks cy ctx = Some gs" and "committee_wf (cx_committee ctx)"
    and "0 < pa_dag_state_cached_rounds (cx_parameters ctx)"
  shows "ds_inv (ds_fresh now ctx gs)"
proof -
  note g = genesis_blocks_nth[OF assms(1)]
  have r0: "b \<in> set gs \<Longrightarrow> vb_round b = GENESIS_ROUND" for b
    using g(2) by (auto simp: in_set_conv_nth)
  have "\<exists>r. r |\<in>| fmdom (genesis_map gs) \<and> br_author r = a" if "a < committee_size (cx_committee ctx)" for a
  proof -
    have "reference (gs ! a) \<in> fset (fmdom (genesis_map gs))" using that g(1) by (simp add: genesis_map_dom)
    then show ?thesis using g(2)[of a] that g(1) by (intro exI[of _ "reference (gs ! a)"]) simp
  qed
  moreover have "reference b = r \<and> br_round r = GENESIS_ROUND" if "fmlookup (genesis_map gs) r = Some b" for r b
    using genesis_map_lookup[of gs "\<lambda>b. vb_round b = GENESIS_ROUND", OF r0 that] by auto
  moreover have "ds_cached (ds_fresh now ctx gs) = (\<lambda>r. None)" by (auto simp: ds_cached_def ds_fresh_def)
  ultimately show ?thesis using assms(2,3)
    by (auto simp: ds_inv_def ds_static_def ds_cache_ok_def ds_buffer_ok_def) (auto simp: ds_fresh_def ms_lookup_def mem_store_new_def ms_wf_def)
qed

subsection \<open>Properties\<close>

text \<open>A state over the four-member committee with the genesis blocks only.\<close>

definition sample_genesis :: "authority_index \<Rightarrow> verified_block" where
  "sample_genesis a = new_verified sample_crypto (new_genesis (V2 (genesis_block_v2 sample_context a))) []"

definition sample_dag :: dag_state where
  "sample_dag = ds_fresh 0 sample_context (map sample_genesis [0, 1, 2, 3])"

lemma sample_genesis_blocks: "genesis_blocks sample_crypto sample_context = Some (map sample_genesis [0, 1, 2, 3])"
proof -
  have "pc_transaction_voting_enabled (cx_protocol_config sample_context)" by (simp add: sample_context_def)
  moreover have "cy_bcs_signed_block sample_crypto b = Inr []" for b by (simp add: sample_crypto_def)
  ultimately have "genesis_block sample_crypto sample_context a = Some (sample_genesis a)" for a
    by (simp add: genesis_block_def sample_genesis_def Let_def)
  moreover have "authority_indices committee4 = [0, 1, 2, 3]" by (simp add: authority_indices_def committee4_def upt_rec)
  ultimately show ?thesis by (simp add: genesis_blocks_def)
qed

lemma sample_dag_inv: "ds_inv sample_dag"
  unfolding sample_dag_def
  by (rule ds_fresh_inv[OF sample_genesis_blocks]) (simp_all add: committee4_wf sample_context_def)

lemma sample_dag_sel [simp]: "ds_context sample_dag = sample_context" "ds_recent_blocks sample_dag = fmempty"
  "ds_last_commit sample_dag = None"
  by (simp_all add: sample_dag_def ds_fresh_def)

lemma sample_dag_get: "0 < br_round r \<Longrightarrow> ds_get_block sample_dag r = None"
  by (simp add: ds_get_block_eq GENESIS_ROUND_def ds_cached_def)
    (simp add: sample_dag_def ds_fresh_def ms_lookup_def mem_store_new_def)

text \<open>
  Existence checks agree with reads: in every state satisfying the invariant, for a
  reference with a member's index, \<^verbatim>\<open>contains_block\<close> returns without panicking whether
  \<^verbatim>\<open>get_block\<close> finds a block, although it looks at the recent references of the author first and may
  answer from them without consulting the store.
\<close>

theorem contains_block_agrees_with_get:
  assumes "ds_inv ds" and "is_valid_index (ds_committee ds) (br_author r)"
  shows "ds_contains_block ds r = Some (ds_get_block ds r \<noteq> None)"
  using ds_contains_block_correct[OF assms(1)] assms(2) by (simp add: is_valid_index_def)

theorem contains_block_agrees_with_get_witness:
  "ds_contains_block sample_dag (BlockRef 4 2 9) = Some False"
  using contains_block_agrees_with_get[OF sample_dag_inv, of "BlockRef 4 2 9"] sample_dag_get[of "BlockRef 4 2 9"]
  by (simp add: is_valid_index_def)

text \<open>
  C28. Accepting, in a state satisfying the invariant, a block of a member above the genesis round, that is not a second block in the
  own slot: whenever it returns, the invariant holds again and exactly that block is added to what the state
  serves, or nothing when the reference was known. Without v3 it always returns. With v3 it panics on a new block that has a
  parent (an ancestor of the round before) above the garbage collection round that is not in the cache.
\<close>

theorem accept_block_adds_block:
  assumes "ds_inv ds" and "is_valid_index (ds_committee ds) (vb_author b)" and "0 < vb_round b"
    and "vb_author b = cx_own_index (ds_context ds) \<Longrightarrow> ds_get_uncommitted_blocks_at_slot ds (slot_from (reference b)) = []"
  shows "(\<forall>ds'. ds_accept_block now b ds = Some ds' \<longrightarrow> ds_inv ds' \<and>
      (\<forall>r. ds_get_block ds' r = (if r = reference b \<and> ds_get_block ds r = None then Some b else ds_get_block ds r))) \<and>
    (if pc_enable_v3 (cx_protocol_config (ds_context ds))
     then ds_get_block ds (reference b) = None \<and>
       (\<exists>a\<in>set (vb_ancestors b). br_round a + 1 = vb_round b \<and> ds_gc_round ds < br_round a \<and> ds_cached ds a = None) \<longrightarrow>
       ds_accept_block now b ds = None
     else \<exists>ds'. ds_accept_block now b ds = Some ds')"
proof -
  have a: "vb_author b < ds_size ds" using assms(2) by (simp add: is_valid_index_def)
  show ?thesis
    using ds_accept_block_inv[OF assms(1) a] ds_accept_block_total[OF assms(1) a assms(3) _ assms(4), of now]
      accept_uncached_parent[OF assms(1) a] by auto
qed

theorem accept_block_adds_block_witness:
  "\<exists>ds'. ds_accept_block 0 (sample_vb 1 2 9 0 []) sample_dag = Some ds' \<and>
     ds_get_block ds' (BlockRef 1 2 9) = Some (sample_vb 1 2 9 0 [])"
proof -
  have "\<not> pc_enable_v3 (cx_protocol_config sample_context)" "cx_own_index sample_context = 0"
    by (simp_all add: sample_context_def)
  then show ?thesis
    using accept_block_adds_block[OF sample_dag_inv, of "sample_vb 1 2 9 0 []" 0] sample_dag_get[of "BlockRef 1 2 9"]
    by (auto simp: is_valid_index_def)
qed

text \<open>
  C27. A flush is invisible to readers: in every state satisfying the invariant it returns, keeps
  the invariant, and every reference reads the same block before and after, although cached blocks were
  written to the store and evicted from memory.
\<close>

theorem flush_invisible_to_readers:
  assumes "ds_inv ds"
  shows "\<exists>ds'. ds_flush ds = Some ds' \<and> ds_inv ds' \<and> (\<forall>rs. ds_get_blocks ds' rs = ds_get_blocks ds rs)"
proof -
  from ds_flush_correct[OF assms] obtain ds' where "ds_flush ds = Some ds'" "ds_inv ds'" "ds_get_block ds' = ds_get_block ds"
    by blast
  then show ?thesis by (simp add: ds_get_blocks_map)
qed

theorem flush_invisible_to_readers_witness:
  "\<exists>ds1 ds'. ds_accept_block 0 (sample_vb 1 2 9 0 []) sample_dag = Some ds1 \<and> ds_flush ds1 = Some ds' \<and>
     ds_get_blocks ds' [BlockRef 1 2 9] = [Some (sample_vb 1 2 9 0 [])]"
proof -
  let ?b = "sample_vb 1 2 9 0 []"
  have a: "vb_author ?b < ds_size sample_dag" by simp
  obtain ds1 where ds1: "ds_accept_block 0 ?b sample_dag = Some ds1"
    using ds_accept_block_total[OF sample_dag_inv a] by (auto simp: sample_context_def)
  have get: "ds_get_block ds1 (BlockRef 1 2 9) = Some ?b"
    using ds_accept_block_inv(2)[OF sample_dag_inv a ds1] sample_dag_get[of "BlockRef 1 2 9"] by simp
  obtain ds' where "ds_flush ds1 = Some ds'" "\<forall>rs. ds_get_blocks ds' rs = ds_get_blocks ds1 rs"
    using flush_invisible_to_readers[OF ds_accept_block_inv(1)[OF sample_dag_inv a ds1]] by blast
  then show ?thesis using ds1 get by (auto simp: ds_get_blocks_map[of ds1])
qed

end
