(* ===== verification/Dag_Traversal.thy ===== *)
theory Dag_Traversal
  imports Dag_Invariant
begin

text \<open>
  Walking the DAG: the parent relation of the served blocks, causal completeness above the garbage
  collection round, and the correctness of \<^verbatim>\<open>DagState::ancestors_at_round\<close>
  (\<^verbatim>\<open>consensus/core/src/dag_state.rs\<close>).
\<close>

subsection \<open>Causal completeness\<close>

definition ds_parent :: "dag_state \<Rightarrow> block_ref \<Rightarrow> block_ref \<Rightarrow> bool" where
  "ds_parent ds r a \<longleftrightarrow> (\<exists>b. ds_get_block ds r = Some b \<and> a \<in> set (vb_ancestors b))"

text \<open>
  Ancestors have lower rounds, and above the garbage collection round they are served. The
  verifier establishes the first and the block manager the second.
\<close>

definition ds_complete :: "dag_state \<Rightarrow> bool" where
  "ds_complete ds \<longleftrightarrow> (\<forall>r a. ds_parent ds r a \<longrightarrow>
     br_round a < br_round r \<and> (ds_gc_round ds < br_round a \<longrightarrow> ds_get_block ds a \<noteq> None))"

lemma ds_completeD:
  assumes "ds_complete ds" and "ds_get_block ds r = Some b" and "a \<in> set (vb_ancestors b)"
  shows "br_round a < br_round r" and "ds_gc_round ds < br_round a \<Longrightarrow> \<exists>b'. ds_get_block ds a = Some b'"
  using assms unfolding ds_complete_def ds_parent_def by blast+

lemma ds_parent_trancl_round:
  assumes "ds_complete ds"
  shows "(ds_parent ds)\<^sup>+\<^sup>+ r a \<Longrightarrow> br_round a < br_round r"
  by (induction rule: tranclp_induct) (use assms in \<open>auto simp: ds_complete_def dest: less_trans\<close>)

lemma ds_parent_served:
  assumes "ds_complete ds" and "(ds_parent ds)\<^sup>+\<^sup>+ r a" and "ds_gc_round ds < br_round a"
  shows "\<exists>b. ds_get_block ds a = Some b"
  using assms(2,3) by (induction rule: tranclp_induct) (use assms(1) in \<open>auto simp: ds_complete_def\<close>)

subsection \<open>Ancestors at a round\<close>

text \<open>The links the traversal follows: from references above the earlier round.\<close>

definition walk :: "dag_state \<Rightarrow> round \<Rightarrow> block_ref \<Rightarrow> block_ref \<Rightarrow> bool" where
  "walk ds e x y \<longleftrightarrow> e < br_round x \<and> ds_parent ds x y"

lemma walk_iff:
  assumes "ds_complete ds" and "br_round y = e"
  shows "(walk ds e)\<^sup>*\<^sup>* x y \<longleftrightarrow> (ds_parent ds)\<^sup>*\<^sup>* x y"
proof
  show "(walk ds e)\<^sup>*\<^sup>* x y \<Longrightarrow> (ds_parent ds)\<^sup>*\<^sup>* x y"
    by (rule rtranclp_mono[THEN predicate2D]) (auto simp: walk_def)
  show "(ds_parent ds)\<^sup>*\<^sup>* x y \<Longrightarrow> (walk ds e)\<^sup>*\<^sup>* x y"
  proof (induction rule: converse_rtranclp_induct)
    case (step x z)
    then have "(ds_parent ds)\<^sup>+\<^sup>+ x y" by (meson rtranclp_into_tranclp2)
    then have "e < br_round x" using ds_parent_trancl_round[OF assms(1)] assms(2) by blast
    with step show ?case by (meson converse_rtranclp_into_rtranclp walk_def)
  qed simp
qed

definition reached_low :: "dag_state \<Rightarrow> round \<Rightarrow> block_ref set \<Rightarrow> block_ref set" where
  "reached_low ds e X = {y. br_round y \<le> e \<and> (\<exists>x\<in>X. (walk ds e)\<^sup>*\<^sup>* x y)}"

lemma reached_low_low: "(\<And>x. x \<in> X \<Longrightarrow> br_round x \<le> e) \<Longrightarrow> reached_low ds e X = X"
proof -
  assume low: "\<And>x. x \<in> X \<Longrightarrow> br_round x \<le> e"
  have "y = x" if "(walk ds e)\<^sup>*\<^sup>* x y" "x \<in> X" for x y
    using that(1) by (cases rule: converse_rtranclpE) (use low[OF that(2)] in \<open>simp_all add: walk_def\<close>)
  then have "(\<exists>x\<in>X. (walk ds e)\<^sup>*\<^sup>* x y) \<longleftrightarrow> y \<in> X" for y by blast
  then show ?thesis using low by (auto simp: reached_low_def)
qed

lemma reached_low_expand:
  assumes "m \<in> X" and "e < br_round m" and "ds_get_block ds m = Some b"
  shows "reached_low ds e X = reached_low ds e (X - {m} \<union> set (vb_ancestors b))"
proof -
  have "(\<exists>x\<in>X. (walk ds e)\<^sup>*\<^sup>* x y) \<longleftrightarrow> (\<exists>x\<in>X - {m} \<union> set (vb_ancestors b). (walk ds e)\<^sup>*\<^sup>* x y)"
    if y: "br_round y \<le> e" for y
  proof -
    have "(walk ds e)\<^sup>*\<^sup>* m y \<longleftrightarrow> (\<exists>z\<in>set (vb_ancestors b). (walk ds e)\<^sup>*\<^sup>* z y)"
    proof
      assume "(walk ds e)\<^sup>*\<^sup>* m y"
      then show "\<exists>z\<in>set (vb_ancestors b). (walk ds e)\<^sup>*\<^sup>* z y"
      proof (cases rule: converse_rtranclpE)
        case base
        then show ?thesis using assms(2) y by simp
      next
        case (step z)
        then have "z \<in> set (vb_ancestors b)" using assms(3) by (simp add: walk_def ds_parent_def)
        with step show ?thesis by blast
      qed
    next
      assume "\<exists>z\<in>set (vb_ancestors b). (walk ds e)\<^sup>*\<^sup>* z y"
      then show "(walk ds e)\<^sup>*\<^sup>* m y"
        using assms(2,3) by (meson converse_rtranclp_into_rtranclp walk_def ds_parent_def)
    qed
    then show ?thesis using assms(1) by blast
  qed
  then show ?thesis by (auto simp: reached_low_def)
qed

lemma fMax_less: "S \<noteq> {||} \<Longrightarrow> (\<And>x. x |\<in>| S \<Longrightarrow> x < m) \<Longrightarrow> fMax S < (m :: 'a :: linorder)"
  using fMax_in by blast

lemma ancestors_loop_spec:
  assumes comp: "ds_complete ds" and gc: "ds_gc_round ds \<le> e"
    and served: "\<And>x. x |\<in>| linked \<Longrightarrow> e < br_round x \<Longrightarrow> ds_get_block ds x \<noteq> None"
  shows "\<exists>L. ancestors_loop ds e linked = Some L \<and> fset L = reached_low ds e (fset linked)"
  using served
proof (induction "fMax linked" arbitrary: linked rule: less_induct)
  case less
  show ?case
  proof (cases "linked = {||} \<or> br_round (fMax linked) \<le> e")
    case True
    then have "ancestors_loop ds e linked = Some linked" by (subst ancestors_loop.simps) auto
    moreover have "br_round x \<le> e" if "x |\<in>| linked" for x
      using True that fMax_ge[OF that] block_ref_le_round by fastforce
    ultimately show ?thesis by (simp add: reached_low_low)
  next
    case False
    define m where "m = fMax linked"
    have m: "m |\<in>| linked" "e < br_round m" using False fMax_in by (auto simp: m_def)
    then obtain b where b: "ds_get_block ds m = Some b" using less.prems by blast
    define next_refs where "next_refs = (linked |-| {|m|}) |\<union>| fset_of_list (vb_ancestors b)"
    have low: "x < m" if "x |\<in>| next_refs" for x
    proof -
      from that have "x |\<in>| linked \<and> x \<noteq> m \<or> x \<in> set (vb_ancestors b)"
        by (auto simp: next_refs_def fset_of_list.rep_eq)
      then show ?thesis
        using fMax_ge[of x linked] ds_completeD(1)[OF comp b, of x] block_ref_less_round[of x m]
        unfolding m_def[symmetric] by (auto simp: order.strict_iff_order)
    qed
    have srv: "ds_get_block ds x \<noteq> None" if "x |\<in>| next_refs" "e < br_round x" for x
      using that less.prems ds_completeD(2)[OF comp b, of x] gc by (auto simp: next_refs_def fset_of_list.rep_eq)
    have "\<exists>L. ancestors_loop ds e next_refs = Some L \<and> fset L = reached_low ds e (fset next_refs)"
    proof (cases "next_refs = {||}")
      case True
      then have "ancestors_loop ds e next_refs = Some {||}" by (subst ancestors_loop.simps) simp
      then show ?thesis using True by (simp add: reached_low_def)
    next
      case False
      from fMax_less[OF False low] show ?thesis using less.hyps[of next_refs] srv by (simp add: m_def)
    qed
    moreover have "ancestors_loop ds e linked = ancestors_loop ds e next_refs"
      using False b by (subst ancestors_loop.simps) (simp add: m_def next_refs_def)
    moreover have "fset next_refs = fset linked - {m} \<union> set (vb_ancestors b)"
      by (simp add: next_refs_def fset_of_list.rep_eq)
    ultimately show ?thesis using reached_low_expand[of m "fset linked" e ds b] m b by simp
  qed
qed

lemma round_start_le: "BlockRef e 0 0 \<le> r \<longleftrightarrow> e \<le> br_round r"
  by (auto simp: less_eq_block_ref_def)

lemma ds_ancestors_at_round_spec:
  assumes inv: "ds_inv ds" and comp: "ds_complete ds" and gc: "ds_gc_round ds < e"
    and b: "ds_get_block ds (reference b) = Some b"
  shows "\<exists>bs. ds_ancestors_at_round ds b e = Some bs \<and>
    sorted (map reference bs) \<and> distinct (map reference bs) \<and>
    (\<forall>x\<in>set bs. ds_get_block ds (reference x) = Some x) \<and>
    reference ` set bs = {y. br_round y = e \<and> (ds_parent ds)\<^sup>+\<^sup>+ (reference b) y}"
proof -
  let ?linked = "fset_of_list (vb_ancestors b)"
  have served: "ds_get_block ds x \<noteq> None" if "x |\<in>| ?linked" "e < br_round x" for x
    using that ds_completeD(2)[OF comp b, of x] gc by (auto simp: fset_of_list.rep_eq)
  from ancestors_loop_spec[OF comp less_imp_le[OF gc], of ?linked, OF served] obtain L where
    L: "ancestors_loop ds e ?linked = Some L" "fset L = reached_low ds e (set (vb_ancestors b))"
    by (auto simp: fset_of_list.rep_eq)
  define refs where "refs = filter (\<lambda>r. BlockRef e 0 0 \<le> r) (sorted_list_of_fset L)"
  have refs: "set refs = {y. br_round y = e \<and> (ds_parent ds)\<^sup>+\<^sup>+ (reference b) y}"
  proof -
    have "(\<exists>x\<in>set (vb_ancestors b). (ds_parent ds)\<^sup>*\<^sup>* x y) \<longleftrightarrow> (ds_parent ds)\<^sup>+\<^sup>+ (reference b) y" for y
      using b unfolding tranclp_unfold_left OO_def by (auto simp: ds_parent_def)
    moreover have "y \<in> set refs \<longleftrightarrow> br_round y = e \<and> (\<exists>x\<in>set (vb_ancestors b). (walk ds e)\<^sup>*\<^sup>* x y)" for y
      using L(2) by (auto simp: refs_def round_start_le reached_low_def)
    ultimately show ?thesis using walk_iff[OF comp] by blast
  qed
  define blk where "blk r = the (ds_get_block ds r)" for r
  have blk: "ds_get_block ds r = Some (blk r)" "reference (blk r) = r" if "r \<in> set refs" for r
  proof -
    from that have "br_round r = e" "(ds_parent ds)\<^sup>+\<^sup>+ (reference b) r" unfolding refs by simp_all
    then have "\<exists>x. ds_get_block ds r = Some x" using ds_parent_served[OF comp] gc by simp
    then show "ds_get_block ds r = Some (blk r)" by (auto simp: blk_def)
    then show "reference (blk r) = r" by (rule ds_get_block_reference[OF inv])
  qed
  have "ds_ancestors_at_round ds b e = Some (map blk refs)"
    using L(1) mapM_total[of refs "ds_get_block ds" blk] blk(1) by (simp add: ds_ancestors_at_round_def refs_def)
  moreover have "map reference (map blk refs) = refs" using blk(2) by (simp add: map_idI)
  moreover have "sorted refs" "distinct refs" by (simp_all add: refs_def sorted_wrt_filter)
  ultimately show ?thesis using refs blk by (auto simp: image_image)
qed

subsection \<open>Accepting a batch\<close>

lemma no_uncommitted_at_slot:
  assumes "ds_inv ds" and "\<And>r. slot_from r = s \<Longrightarrow> ds_get_block ds r = None"
  shows "ds_get_uncommitted_blocks_at_slot ds s = []"
proof -
  have "\<not> in_slot_range s (fst e)" if "e \<in> set (sorted_list_of_fmap (ds_recent_blocks ds))" for e
  proof
    assume r: "in_slot_range s (fst e)"
    then have sl: "slot_from (fst e) = s"
      by (cases s; cases "fst e") (auto simp: in_slot_range_def less_eq_block_ref_def slot_from_def)
    from that have "ds_cached ds (fst e) = Some (bi_block (snd e))"
      using set_sorted_list_of_fmap[of "fst e" "snd e" "ds_recent_blocks ds"] by (simp add: ds_cached_def)
    moreover from this have "br_round (fst e) \<noteq> GENESIS_ROUND"
      using ds_inv_cached[OF assms(1)] by (auto simp: GENESIS_ROUND_def)
    ultimately have "ds_get_block ds (fst e) \<noteq> None" by (simp add: ds_get_block_eq)
    then show False using assms(2)[OF sl] by simp
  qed
  then show ?thesis by (simp add: ds_get_uncommitted_blocks_at_slot_def filter_empty_conv)
qed

text \<open>A batch of members' blocks in slots that are free, one per slot, is accepted as a whole.\<close>

lemma ds_accept_blocks_fresh:
  assumes "ds_inv ds" and "\<not> pc_enable_v3 (cx_protocol_config (ds_context ds))"
    and "\<forall>b\<in>set bs. vb_author b < ds_size ds \<and> 0 < vb_round b \<and> (\<forall>r. slot_from r = slot_from (reference b) \<longrightarrow> ds_get_block ds r = None)"
    and "distinct (map (slot_from \<circ> reference) bs)"
  shows "\<exists>ds'. ds_accept_blocks now bs ds = Some ds' \<and> ds_inv ds' \<and> ds_context ds' = ds_context ds \<and>
    ds_last_commit ds' = ds_last_commit ds \<and>
    ds_get_block ds' = (\<lambda>r. case find (\<lambda>b. reference b = r) bs of Some b \<Rightarrow> Some b | None \<Rightarrow> ds_get_block ds r)"
  using assms
proof (induction bs arbitrary: ds)
  case (Cons b bs)
  let ?s = "slot_from (reference b)"
  have b: "vb_author b < ds_size ds" "0 < vb_round b" "\<And>r. slot_from r = ?s \<Longrightarrow> ds_get_block ds r = None"
    using Cons.prems(3) by auto
  then have none: "ds_get_block ds (reference b) = None" by blast
  have free: "slot_from (reference b') \<noteq> ?s" if "b' \<in> set bs" for b'
    using Cons.prems(4) that by (auto simp: image_iff)
  from ds_accept_block_total[OF Cons.prems(1) b(1,2) Cons.prems(2) no_uncommitted_at_slot[OF Cons.prems(1) b(3)]]
  obtain ds1 where acc: "ds_accept_block now b ds = Some ds1" by blast
  note inv = ds_accept_block_inv[OF Cons.prems(1) b(1) acc]
  from ds_accept_block_cases[OF Cons.prems(1) b(1) acc] none have "ds_same_cache (ds_admit b ds) ds1" by simp
  then have "ds_frame ds1 = ds_frame (ds_admit b ds)" by (simp add: ds_same_cache_def)
  from ds_frame_sel(1,4)[OF this] have same: "ds_context ds1 = ds_context ds" "ds_last_commit ds1 = ds_last_commit ds"
    by (simp_all add: ds_admit_def ds_insert_cache_def)
  have get: "ds_get_block ds1 r = (if r = reference b then Some b else ds_get_block ds r)" for r
    using none by (simp add: inv(2))
  have "\<forall>b'\<in>set bs. vb_author b' < ds_size ds1 \<and> 0 < vb_round b' \<and> (\<forall>r. slot_from r = slot_from (reference b') \<longrightarrow> ds_get_block ds1 r = None)"
  proof
    fix b' assume b': "b' \<in> set bs"
    from free[OF this] show "vb_author b' < ds_size ds1 \<and> 0 < vb_round b' \<and> (\<forall>r. slot_from r = slot_from (reference b') \<longrightarrow> ds_get_block ds1 r = None)"
      using Cons.prems(3) b' by (auto simp: get same)
  qed
  from Cons.IH[OF inv(1) _ this] Cons.prems(2,4) obtain ds' where
    ds': "ds_accept_blocks now bs ds1 = Some ds'" "ds_inv ds'" "ds_context ds' = ds_context ds" "ds_last_commit ds' = ds_last_commit ds"
      "ds_get_block ds' = (\<lambda>r. case find (\<lambda>b. reference b = r) bs of Some b \<Rightarrow> Some b | None \<Rightarrow> ds_get_block ds1 r)"
    by (auto simp: same)
  have "reference b' \<noteq> reference b" if "b' \<in> set bs" for b' using free[OF that] by auto
  then have "find (\<lambda>b'. reference b' = reference b) bs = None" by (auto simp: find_None_iff)
  then have "ds_get_block ds' = (\<lambda>r. case find (\<lambda>b. reference b = r) (b # bs) of Some b \<Rightarrow> Some b | None \<Rightarrow> ds_get_block ds r)"
    unfolding ds'(5) by (auto simp: fun_eq_iff get split: option.splits)
  then show ?case using acc ds'(1-4) by (simp add: ds_accept_blocks_def)
qed (simp add: ds_accept_blocks_def)

end
