(* ===== verification/Leader_Schedule.thy ===== *)
theory Leader_Schedule
  imports Dag_State
begin

text \<open>
  The leader schedule and its swap table (\<^verbatim>\<open>consensus/core/src/leader_schedule.rs\<close>).
  The seeded random generator of the \<^verbatim>\<open>rand\<close> crate is the record \<open>rng\<close>: a weighted choice
  without repetition seeded by the round, a shuffle seeded by the commit index, and the choice of
  one element seeded by round and offset. The conversion of stakes to \<^verbatim>\<open>f32\<close> weights
  belongs to the weighted choice. The leader election is the one of non-test builds.
\<close>

subsection \<open>Data\<close>

type_synonym node = "authority_index \<times> string \<times> stake"

record rng =
  rng_choose_multiple_weighted :: "round \<Rightarrow> (authority_index \<times> stake) list \<Rightarrow> nat \<Rightarrow> (authority_index \<times> stake) list option"
  rng_shuffle :: "commit_index \<Rightarrow> (authority_index \<times> u64) list \<Rightarrow> (authority_index \<times> u64) list"
  rng_choose :: "round \<Rightarrow> nat \<Rightarrow> node list \<Rightarrow> node option"

record leader_swap_table =
  lst_good_nodes :: "node list"
  lst_bad_nodes :: "(authority_index, string \<times> stake) fmap"
  lst_reputation_scores :: reputation_scores

definition leader_swap_table_default :: leader_swap_table where
  "leader_swap_table_default = \<lparr>lst_good_nodes = [], lst_bad_nodes = fmempty,
     lst_reputation_scores = reputation_scores_default\<rparr>"

record leader_schedule =
  lsch_swap_table :: leader_swap_table
  lsch_context :: consensus_context
  lsch_num_commits_per_schedule :: nat

definition CONSENSUS_COMMITS_PER_SCHEDULE :: nat where
  "CONSENSUS_COMMITS_PER_SCHEDULE = 300"

subsection \<open>The swap table\<close>

fun retrieve_first_nodes ::
  "committee \<Rightarrow> u64 \<Rightarrow> (authority_index \<times> u64) list \<Rightarrow> stake \<Rightarrow> node list option" where
  "retrieve_first_nodes c stake_threshold [] stake = Some []"
| "retrieve_first_nodes c stake_threshold ((a, score) # as) stake = do {
     s \<leftarrow> committee_stake c a;
     let stake = stake + s;
     if stake > (stake_threshold * c_total_stake c) div 100 then Some []
     else do {
       au \<leftarrow> committee_authority c a;
       rest \<leftarrow> retrieve_first_nodes c stake_threshold as stake;
       Some ((a, a_hostname au, a_stake au) # rest)
     }
   }"

text \<open>The stable sort by descending score.\<close>

definition sort_by_score_desc :: "(authority_index \<times> u64) list \<Rightarrow> (authority_index \<times> u64) list" where
  "sort_by_score_desc = sort_key (\<lambda>e. u64_max - unat (snd e))"

definition swap_table_new_inner ::
  "rng \<Rightarrow> consensus_context \<Rightarrow> u64 \<Rightarrow> commit_index \<Rightarrow> reputation_scores \<Rightarrow> leader_swap_table option" where
  "swap_table_new_inner rg ctx swap_stake_threshold i scores = do {
     let c = cx_committee ctx;
     assert_that (swap_stake_threshold \<le> 33);
     if rs_scores_per_authority scores = [] then Some leader_swap_table_default
     else do {
       by_score \<leftarrow> authorities_by_score c scores;
       assert_that (length by_score = committee_size c);
       let by_score = sort_by_score_desc (rng_shuffle rg i by_score);
       good \<leftarrow> retrieve_first_nodes c swap_stake_threshold by_score 0;
       bad \<leftarrow> retrieve_first_nodes c swap_stake_threshold (rev by_score) 0;
       Some \<lparr>lst_good_nodes = good, lst_bad_nodes = fmap_of_list bad, lst_reputation_scores = scores\<rparr>
     }
   }"

definition swap_table_new ::
  "rng \<Rightarrow> consensus_context \<Rightarrow> commit_index \<Rightarrow> reputation_scores \<Rightarrow> leader_swap_table option" where
  "swap_table_new rg ctx = swap_table_new_inner rg ctx (pc_bad_nodes_stake_threshold (cx_protocol_config ctx))"

text \<open>The outer option is the panic, the inner one the value: no swap needed.\<close>

definition swap_table_swap ::
  "rng \<Rightarrow> leader_swap_table \<Rightarrow> authority_index \<Rightarrow> round \<Rightarrow> nat \<Rightarrow> authority_index option option" where
  "swap_table_swap rg t leader leader_round leader_offset =
     (if leader |\<in>| fmdom (lst_bad_nodes t)
      then do {
        assert_that (leader_offset = 0);
        (a, hostname, stake) \<leftarrow> rng_choose rg leader_round leader_offset (lst_good_nodes t);
        Some (Some a)
      }
      else Some None)"

subsection \<open>The schedule\<close>

definition leader_schedule_new :: "consensus_context \<Rightarrow> leader_swap_table \<Rightarrow> leader_schedule" where
  "leader_schedule_new ctx t =
     \<lparr>lsch_swap_table = t, lsch_context = ctx, lsch_num_commits_per_schedule = CONSENSUS_COMMITS_PER_SCHEDULE\<rparr>"

definition leader_schedule_from_store :: "rng \<Rightarrow> consensus_context \<Rightarrow> dag_state \<Rightarrow> leader_schedule option" where
  "leader_schedule_from_store rg ctx ds = do {
     t \<leftarrow> (case ds_recover_last_commit_info ds of
            None \<Rightarrow> Some leader_swap_table_default
          | Some (r, ci) \<Rightarrow> swap_table_new rg ctx (cr_index r) (ci_reputation_scores ci));
     _ \<leftarrow> ds_scoring_subdags_count ds;
     Some (leader_schedule_new ctx t)
   }"

definition commits_until_leader_schedule_update :: "leader_schedule \<Rightarrow> dag_state \<Rightarrow> nat option" where
  "commits_until_leader_schedule_update ls ds = do {
     n \<leftarrow> ds_scoring_subdags_count ds;
     assert_that (n \<le> lsch_num_commits_per_schedule ls);
     Some (lsch_num_commits_per_schedule ls - n)
   }"

definition update_leader_swap_table :: "leader_swap_table \<Rightarrow> leader_schedule \<Rightarrow> leader_schedule option" where
  "update_leader_swap_table t ls = do {
     let old_range = rs_commit_range (lst_reputation_scores (lsch_swap_table ls));
     let new_range = rs_commit_range (lst_reputation_scores t);
     _ \<leftarrow> (if old_range \<noteq> commit_range_default
          then (if commit_range_is_next old_range new_range
                then do { eq \<leftarrow> commit_range_is_equal_size old_range new_range; assert_that eq }
                else None)
          else Some ());
     Some (ls\<lparr>lsch_swap_table := t\<rparr>)
   }"

definition update_leader_schedule_v2 ::
  "rng \<Rightarrow> leader_schedule \<Rightarrow> dag_state \<Rightarrow> (leader_schedule \<times> dag_state) option" where
  "update_leader_schedule_v2 rg ls ds = do {
     scores \<leftarrow> ds_calculate_scoring_subdag_scores ds;
     i \<leftarrow> ds_scoring_subdag_commit_range ds;
     ds \<leftarrow> ds_add_commit_info scores (ds_clear_scoring_subdag ds);
     t \<leftarrow> swap_table_new rg (lsch_context ls) i scores;
     ls \<leftarrow> update_leader_swap_table t ls;
     Some (ls, ds)
   }"

definition elect_leader_stake_based :: "rng \<Rightarrow> leader_schedule \<Rightarrow> round \<Rightarrow> nat \<Rightarrow> authority_index option" where
  "elect_leader_stake_based rg ls r off = do {
     let c = cx_committee (lsch_context ls);
     assert_that (off < committee_size c);
     let choices = map (\<lambda>i. (i, a_stake (c_authorities c ! i))) (authority_indices c);
     chosen \<leftarrow> rng_choose_multiple_weighted rg r choices (committee_size c);
     (i, stake) \<leftarrow> vec_get chosen off;
     Some i
   }"

definition elect_leader :: "rng \<Rightarrow> leader_schedule \<Rightarrow> round \<Rightarrow> nat \<Rightarrow> authority_index option" where
  "elect_leader rg ls r leader_offset = do {
     leader \<leftarrow> elect_leader_stake_based rg ls r leader_offset;
     swapped \<leftarrow> swap_table_swap rg (lsch_swap_table ls) leader r leader_offset;
     Some (case swapped of Some a \<Rightarrow> a | None \<Rightarrow> leader)
   }"

subsection \<open>What the random generator promises\<close>

text \<open>
  The documented behaviour of the three operations: a shuffle permutes, a choice from a
  non-empty slice returns one of its elements and none from an empty one, and the weighted choice
  of all elements, when all weights are positive, returns each once.
\<close>

definition rng_ok :: "rng \<Rightarrow> bool" where
  "rng_ok rg \<longleftrightarrow>
     (\<forall>s xs. mset (rng_shuffle rg s xs) = mset xs) \<and>
     (\<forall>r k xs. case rng_choose rg r k xs of None \<Rightarrow> xs = [] | Some x \<Rightarrow> x \<in> set xs) \<and>
     (\<forall>r xs. (\<forall>x\<in>set xs. 0 < snd x) \<longrightarrow>
        (\<exists>ys. rng_choose_multiple_weighted rg r xs (length xs) = Some ys \<and> mset ys = mset xs))"

subsection \<open>Correctness of the swap table\<close>

definition stake_bound :: "committee \<Rightarrow> u64 \<Rightarrow> nat" where
  "stake_bound c t = unat t * unat (c_total_stake c) div 100"

definition node_of :: "committee \<Rightarrow> authority_index \<times> u64 \<Rightarrow> node" where
  "node_of c e = (fst e, a_hostname (c_authorities c ! fst e), a_stake (c_authorities c ! fst e))"

lemma retrieve_prefix:
  assumes wf: "committee_wf c" and head: "unat t * unat (c_total_stake c) < 2 ^ 64"
    and as: "\<forall>e\<in>set as. fst e < committee_size c" "distinct (map fst as)"
    and st: "unat stake = set_stake c D" "unat stake \<le> stake_bound c t" "D \<inter> fst ` set as = {}"
  shows "\<exists>k\<le>length as. retrieve_first_nodes c t as stake = Some (map (node_of c) (take k as)) \<and>
     set_stake c (D \<union> fst ` set (take k as)) \<le> stake_bound c t"
  using as st
proof (induction as arbitrary: stake D)
  case Nil
  then show ?case by simp
next
  case (Cons e as)
  obtain a score where e: "e = (a, score)" by (cases e)
  let ?s = "a_stake (c_authorities c ! a)"
  have a: "a < committee_size c" "a \<notin> D" using Cons.prems e by auto
  have cs: "committee_stake c a = Some ?s" "committee_authority c a = Some (c_authorities c ! a)"
    using a by (simp_all add: committee_authority_def committee_size_def)
  have sum: "set_stake c (insert a D) = stake_of c a + set_stake c D" using set_stake_insert[OF a] .
  have "stake_of c a + set_stake c D < 2 ^ 64"
    using set_stake_le_total[of c "insert a D"] wf sum by (simp add: committee_wf_def)
  then have us: "unat (stake + ?s) = set_stake c (insert a D)"
    using unat_add_u64[of stake ?s] Cons.prems(3) a sum by (simp add: stake_of_def)
  have bnd: "unat ((t * c_total_stake c) div 100) = stake_bound c t"
    using unat_mult_u64[OF head] by (simp add: stake_bound_def unat_div)
  show ?case
  proof (cases "stake + ?s > (t * c_total_stake c) div 100")
    case True
    then have "retrieve_first_nodes c t (e # as) stake = Some (map (node_of c) (take 0 (e # as)))"
      by (simp add: e cs)
    then show ?thesis using Cons.prems(3,4) by (intro exI[of _ 0]) simp
  next
    case False
    then have le: "unat (stake + ?s) \<le> stake_bound c t" by (simp add: bnd[symmetric] word_le_nat_alt not_less)
    have "insert a D \<inter> fst ` set as = {}" using Cons.prems(2,5) e by auto
    then obtain k where k: "k \<le> length as" "retrieve_first_nodes c t as (stake + ?s) = Some (map (node_of c) (take k as))"
      "set_stake c (insert a D \<union> fst ` set (take k as)) \<le> stake_bound c t"
      using Cons.IH[OF _ _ us le] Cons.prems(1,2) by auto
    have "retrieve_first_nodes c t (e # as) stake = Some (map (node_of c) (take (Suc k) (e # as)))"
      using False k(2) by (simp add: e cs node_of_def)
    moreover have "D \<union> fst ` set (take (Suc k) (e # as)) = insert a D \<union> fst ` set (take k as)" by (auto simp: e)
    ultimately show ?thesis using k(1,3) by (intro exI[of _ "Suc k"]) simp
  qed
qed

text \<open>The ranking: a permutation of the members in descending order of score.\<close>

definition ranking :: "rng \<Rightarrow> commit_index \<Rightarrow> u64 list \<Rightarrow> (authority_index \<times> u64) list" where
  "ranking rg i ss = sort_by_score_desc (rng_shuffle rg i (enumerate 0 ss))"

lemma ranking_props:
  assumes "rng_ok rg"
  shows "set (ranking rg i ss) = set (enumerate 0 ss)" and "distinct (map fst (ranking rg i ss))"
    and "sorted_wrt (\<lambda>x y. snd y \<le> snd x) (ranking rg i ss)" and "length (ranking rg i ss) = length ss"
proof -
  have m: "mset (ranking rg i ss) = mset (enumerate 0 ss)"
    using assms by (simp add: ranking_def sort_by_score_desc_def rng_ok_def)
  show "set (ranking rg i ss) = set (enumerate 0 ss)" using mset_eq_setD[OF m] .
  show "length (ranking rg i ss) = length ss" using mset_eq_length[OF m] by simp
  have "mset (map fst (ranking rg i ss)) = mset (map fst (enumerate 0 ss))" using m by (simp only: mset_map)
  then show "distinct (map fst (ranking rg i ss))"
    using mset_eq_imp_distinct_iff[of "map fst (ranking rg i ss)" "map fst (enumerate 0 ss)"] by simp
  have "sorted (map (\<lambda>e. u64_max - unat (snd e)) (ranking rg i ss))"
    by (simp add: ranking_def sort_by_score_desc_def)
  then have "sorted_wrt (\<lambda>x y. u64_max - unat (snd x) \<le> u64_max - unat (snd y)) (ranking rg i ss)"
    by (simp only: sorted_map)
  then show "sorted_wrt (\<lambda>x y. snd y \<le> snd x) (ranking rg i ss)"
  proof (rule sorted_wrt_mono_rel[rotated])
    fix x y :: "authority_index \<times> u64"
    assume h: "u64_max - unat (snd x) \<le> u64_max - unat (snd y)"
    have "unat (snd x) < 2 ^ 64" "unat (snd y) < 2 ^ 64" using unsigned_less[of "snd x"] unsigned_less[of "snd y"] by auto
    with h show "snd y \<le> snd x" by (simp add: word_le_nat_alt)
  qed
qed

text \<open>A prefix and a suffix of a list that share an element cover the list.\<close>

lemma prefix_suffix_cover:
  assumes "distinct (map fst xs)" and "x \<in> fst ` set (take k xs)" and "x \<in> fst ` set (take l (rev xs))"
  shows "set (take k xs) \<union> set (take l (rev xs)) = set xs"
proof -
  have r: "set (take l (rev xs)) = set (drop (length xs - l) xs)" by (simp add: take_rev)
  let ?m = "length xs - l"
  have "distinct (map fst (take ?m xs @ drop ?m xs))" using assms(1) by simp
  then have disj: "fst ` set (take ?m xs) \<inter> fst ` set (drop ?m xs) = {}"
    unfolding map_append distinct_append by simp
  have "?m \<le> k"
  proof (rule ccontr)
    assume "\<not> ?m \<le> k"
    then have "set (take k xs) \<subseteq> set (take ?m xs)" by (intro set_take_subset_set_take) simp
    with assms(2,3) disj show False unfolding r by blast
  qed
  then have "set (drop k xs) \<subseteq> set (drop (length xs - l) xs)" by (rule set_drop_subset_set_drop)
  moreover have "set (take k xs) \<union> set (drop k xs) = set xs" by (metis append_take_drop_id set_append)
  moreover have "set (drop (length xs - l) xs) \<subseteq> set xs" by (rule set_drop_subset)
  ultimately show ?thesis unfolding r by blast
qed

lemma prefix_above_suffix:
  assumes "sorted_wrt (\<lambda>x y. snd y \<le> snd x) xs" and "g \<in> set (take k xs)" and "b \<in> set (take l (rev xs))"
    and "fst b \<notin> fst ` set (take k xs)"
  shows "snd b \<le> (snd g :: u64)"
proof -
  from assms(2) obtain i where i: "i < k" "i < length xs" "xs ! i = g" by (auto simp: in_set_conv_nth)
  from assms(3) have "b \<in> set xs" using set_take_subset[of l "rev xs"] by auto
  then obtain j where j: "j < length xs" "xs ! j = b" by (auto simp: in_set_conv_nth)
  have "k \<le> j"
  proof (rule ccontr)
    assume "\<not> k \<le> j"
    then have "b \<in> set (take k xs)" using j by (auto simp: in_set_conv_nth intro!: exI[of _ j])
    with assms(4) show False by blast
  qed
  then show ?thesis using i j sorted_wrt_nth_less[OF assms(1), of i j] by simp
qed

lemma swap_table_eq:
  assumes wf: "committee_wf (cx_committee ctx)" and rg: "rng_ok rg" and t: "t \<le> 33"
    and head: "33 * unat (c_total_stake (cx_committee ctx)) < 2 ^ 64"
    and len: "length (rs_scores_per_authority scores) = committee_size (cx_committee ctx)"
    and R: "R = ranking rg i (rs_scores_per_authority scores)"
  shows "\<exists>k l. swap_table_new_inner rg ctx t i scores =
       Some \<lparr>lst_good_nodes = map (node_of (cx_committee ctx)) (take k R),
         lst_bad_nodes = fmap_of_list (map (node_of (cx_committee ctx)) (take l (rev R))), lst_reputation_scores = scores\<rparr> \<and>
     set_stake (cx_committee ctx) (fst ` set (take k R)) \<le> stake_bound (cx_committee ctx) t \<and>
     set_stake (cx_committee ctx) (fst ` set (take l (rev R))) \<le> stake_bound (cx_committee ctx) t"
proof -
  let ?c = "cx_committee ctx" and ?ss = "rs_scores_per_authority scores"
  note rp = ranking_props[OF rg, of i ?ss, folded R]
  have "0 < committee_size ?c"
  proof (rule ccontr)
    assume "\<not> 0 < committee_size ?c"
    then have "auths_total (c_authorities ?c) = 0" by (simp add: committee_size_def auths_total_def)
    then show False using wf by (auto simp: committee_wf_def)
  qed
  then have ne: "?ss \<noteq> []" using len by auto
  have "unat t \<le> 33" using t by (simp add: word_le_nat_alt)
  then have h: "unat t * unat (c_total_stake ?c) < 2 ^ 64"
    using head mult_le_mono1[of "unat t" 33 "unat (c_total_stake ?c)"] by linarith
  have v: "\<forall>e\<in>set R. fst e < committee_size ?c" using len by (auto simp: rp(1) in_set_enumerate_eq)
  obtain k where k: "retrieve_first_nodes ?c t R 0 = Some (map (node_of ?c) (take k R))"
    "set_stake ?c (fst ` set (take k R)) \<le> stake_bound ?c t"
    using retrieve_prefix[OF wf h v rp(2), of 0 "{}"] by auto
  have rv: "\<forall>e\<in>set (rev R). fst e < committee_size ?c" "distinct (map fst (rev R))"
    using v rp(2) by (simp_all add: rev_map[symmetric])
  obtain l where l: "retrieve_first_nodes ?c t (rev R) 0 = Some (map (node_of ?c) (take l (rev R)))"
    "set_stake ?c (fst ` set (take l (rev R))) \<le> stake_bound ?c t"
    using retrieve_prefix[OF wf h rv, of 0 "{}"] by auto
  have "authorities_by_score ?c scores = Some (enumerate 0 ?ss)" using authorities_by_score_Some len by simp
  then have "swap_table_new_inner rg ctx t i scores = Some \<lparr>lst_good_nodes = map (node_of ?c) (take k R),
         lst_bad_nodes = fmap_of_list (map (node_of ?c) (take l (rev R))), lst_reputation_scores = scores\<rparr>"
    using t ne len k(1) l(1) by (simp add: swap_table_new_inner_def Let_def R ranking_def)
  with k(2) l(2) show ?thesis by blast
qed

lemma node_of_fst [simp]: "fst ` set (map (node_of c) xs) = fst ` set xs"
  by (simp add: node_of_def image_image)

lemma fmdom_nodes: "fset (fmdom (fmap_of_list (map (node_of c) xs))) = fst ` set xs"
  by (simp add: fset_of_list.rep_eq node_of_def image_image)

text \<open>
  C32. The leader swap table is sound: with a threshold of at most 33 percent the constructor
  does not panic, the good and the bad nodes are disjoint sets of members, each holds at most
  the threshold's share of the stake, and no bad node has a higher score than a good one.
\<close>

theorem swap_table_sound:
  assumes wf: "committee_wf (cx_committee ctx)" and rg: "rng_ok rg" and t: "t \<le> 33"
    and head: "33 * unat (c_total_stake (cx_committee ctx)) < 2 ^ 64"
    and len: "length (rs_scores_per_authority scores) = committee_size (cx_committee ctx)"
  shows "\<exists>tbl. swap_table_new_inner rg ctx t i scores = Some tbl \<and>
    (let c = cx_committee ctx; good = fst ` set (lst_good_nodes tbl); bad = fset (fmdom (lst_bad_nodes tbl)) in
       good \<union> bad \<subseteq> members c \<and> good \<inter> bad = {} \<and>
       100 * set_stake c good \<le> unat t * unat (c_total_stake c) \<and>
       100 * set_stake c bad \<le> unat t * unat (c_total_stake c) \<and>
       (\<forall>g\<in>good. \<forall>b\<in>bad. rs_scores_per_authority scores ! b \<le> rs_scores_per_authority scores ! g))"
proof -
  let ?c = "cx_committee ctx" and ?ss = "rs_scores_per_authority scores"
  let ?T = "unat (c_total_stake ?c)"
  define R where "R = ranking rg i ?ss"
  note rp = ranking_props[OF rg, of i ?ss, folded R_def]
  obtain k l where tbl: "swap_table_new_inner rg ctx t i scores =
       Some \<lparr>lst_good_nodes = map (node_of ?c) (take k R),
         lst_bad_nodes = fmap_of_list (map (node_of ?c) (take l (rev R))), lst_reputation_scores = scores\<rparr>"
    and g: "set_stake ?c (fst ` set (take k R)) \<le> stake_bound ?c t"
    and b: "set_stake ?c (fst ` set (take l (rev R))) \<le> stake_bound ?c t"
    using swap_table_eq[OF wf rg t head len R_def] by blast
  let ?G = "fst ` set (take k R)" and ?B = "fst ` set (take l (rev R))"
  have fstR: "fst ` set R = members ?c"
    unfolding rp(1) list.set_map[symmetric] by (simp add: len members_def atLeast0LessThan)
  have sub: "set (take k R) \<subseteq> set R" "set (take l (rev R)) \<subseteq> set R"
    using set_take_subset[of k R] set_take_subset[of l "rev R"] by auto
  have el: "snd e = ?ss ! fst e" if "e \<in> set R" for e using that by (auto simp: rp(1) in_set_enumerate_eq)
  have "unat t \<le> 33" using t by (simp add: word_le_nat_alt)
  then have sm: "unat t * ?T \<le> 33 * ?T" by (rule mult_le_mono1)
  have tot: "set_stake ?c (members ?c) = ?T" "0 < ?T" using wf by (auto simp: committee_wf_def auths_total_members)
  have disj: "?G \<inter> ?B = {}"
  proof (rule ccontr)
    assume "?G \<inter> ?B \<noteq> {}"
    then obtain x where "x \<in> ?G" "x \<in> ?B" by blast
    from prefix_suffix_cover[OF rp(2) this] have "?G \<union> ?B = members ?c"
      unfolding image_Un[symmetric] fstR[symmetric] by simp
    then have "?T \<le> set_stake ?c ?G + set_stake ?c ?B" using set_stake_modular[of ?c ?G ?B] tot(1) by simp
    then show False using g b sm tot(2) unfolding stake_bound_def by linarith
  qed
  have bnd: "100 * stake_bound ?c t \<le> unat t * ?T" by (simp add: stake_bound_def)
  have "?ss ! fst y \<le> ?ss ! fst x" if x: "x \<in> set (take k R)" and y: "y \<in> set (take l (rev R))" for x y
  proof -
    have "fst y \<notin> ?G" using disj y by blast
    from prefix_above_suffix[OF rp(3) x y this] show ?thesis
      using el[OF subsetD[OF sub(1) x]] el[OF subsetD[OF sub(2) y]] by simp
  qed
  then have sc: "\<forall>x\<in>?G. \<forall>y\<in>?B. ?ss ! y \<le> ?ss ! x" by blast
  have mem: "?G \<union> ?B \<subseteq> members ?c" using sub fstR by blast
  have "100 * set_stake ?c ?G \<le> unat t * ?T" "100 * set_stake ?c ?B \<le> unat t * ?T" using g b bnd by linarith+
  moreover define tbl where "tbl = \<lparr>lst_good_nodes = map (node_of ?c) (take k R),
         lst_bad_nodes = fmap_of_list (map (node_of ?c) (take l (rev R))), lst_reputation_scores = scores\<rparr>"
  then have G: "fst ` set (lst_good_nodes tbl) = ?G" and B: "fset (fmdom (lst_bad_nodes tbl)) = ?B"
    by (simp_all only: leader_swap_table.simps node_of_fst fmdom_nodes)
  ultimately show ?thesis
    using tbl sc mem disj by (intro exI[of _ tbl]) (unfold Let_def G B, simp only: tbl_def simp_thms)
qed

definition sample_rng :: rng where
  "sample_rng = \<lparr>rng_choose_multiple_weighted = (\<lambda>r xs n. Some (rotate r (take n xs))),
     rng_shuffle = (\<lambda>s xs. xs), rng_choose = (\<lambda>r k xs. case xs of [] \<Rightarrow> None | x # _ \<Rightarrow> Some x)\<rparr>"

lemma mset_rotate1: "mset (rotate1 xs) = mset xs"
  by (cases xs) simp_all

lemma mset_rotate: "mset (rotate n xs) = mset xs"
  by (induction n) (simp_all add: mset_rotate1)

lemma sample_rng_ok: "rng_ok sample_rng"
  by (auto simp: rng_ok_def sample_rng_def mset_rotate split: list.splits)

theorem swap_table_sound_witness:
  "\<exists>tbl. swap_table_new_inner sample_rng sample_context 33 7
     \<lparr>rs_scores_per_authority = [5, 9, 2, 7], rs_commit_range = commit_range_new 1 300\<rparr> = Some tbl \<and>
     fst ` set (lst_good_nodes tbl) \<inter> fset (fmdom (lst_bad_nodes tbl)) = {}"
proof -
  have "c_total_stake committee4 = 4" by (simp add: committee4_def)
  then show ?thesis
    using swap_table_sound[of sample_context sample_rng 33
      "\<lparr>rs_scores_per_authority = [5, 9, 2, 7], rs_commit_range = commit_range_new 1 300\<rparr>" 7]
    unfolding Let_def sample_context_simps by (simp add: sample_rng_ok committee4_wf) blast
qed

subsection \<open>Election\<close>

lemma rng_weighted:
  "rng_ok rg \<Longrightarrow> \<forall>x\<in>set xs. 0 < snd x \<Longrightarrow>
   \<exists>ys. rng_choose_multiple_weighted rg r xs (length xs) = Some ys \<and> mset ys = mset xs"
  unfolding rng_ok_def by (elim conjE) (erule allE[of _ r], erule allE[of _ xs], erule mp)

lemma rng_choose_some:
  assumes "rng_ok rg" and "xs \<noteq> []"
  shows "\<exists>x\<in>set xs. rng_choose rg r k xs = Some x"
proof -
  have "case rng_choose rg r k xs of None \<Rightarrow> xs = [] | Some x \<Rightarrow> x \<in> set xs"
    using assms(1) by (simp add: rng_ok_def)
  then show ?thesis using assms(2) by (cases "rng_choose rg r k xs") simp_all
qed

lemma elect_stake_based_valid:
  assumes "rng_ok rg" and "off < committee_size (cx_committee (lsch_context ls))"
    and "\<forall>a\<in>set (c_authorities (cx_committee (lsch_context ls))). 0 < a_stake a"
  shows "\<exists>a. elect_leader_stake_based rg ls r off = Some a \<and> a < committee_size (cx_committee (lsch_context ls))"
proof -
  let ?c = "cx_committee (lsch_context ls)"
  let ?xs = "map (\<lambda>i. (i, a_stake (c_authorities ?c ! i))) (authority_indices ?c)"
  have len: "length ?xs = committee_size ?c" by (simp add: authority_indices_def committee_size_def)
  have "\<forall>x\<in>set ?xs. 0 < snd x" using assms(3) by (auto simp: authority_indices_def)
  then obtain ys where ys: "rng_choose_multiple_weighted rg r ?xs (committee_size ?c) = Some ys" "mset ys = mset ?xs"
    using rng_weighted[OF assms(1), of ?xs r] unfolding len by blast
  have l: "off < length ys" using mset_eq_length[OF ys(2)] len assms(2) by simp
  have "ys ! off \<in> set ?xs" using nth_mem[OF l] unfolding mset_eq_setD[OF ys(2)] .
  then have "fst (ys ! off) < committee_size ?c" by (auto simp: authority_indices_def committee_size_def)
  moreover have "elect_leader_stake_based rg ls r off = Some (fst (ys ! off))"
    using l assms(2) unfolding elect_leader_stake_based_def Let_def ys(1) by (simp add: split_beta)
  ultimately show ?thesis by blast
qed

text \<open>
  The first leader of a round is always elected, is a member of the committee, and is not
  one of the swap table's bad nodes, when every stake is positive, the good nodes are
  members outside the bad ones, and there is a good node whenever there is a bad one.
\<close>

theorem elected_leader_not_bad:
  assumes "rng_ok rg" and "0 < committee_size (cx_committee (lsch_context ls))"
    and "\<forall>a\<in>set (c_authorities (cx_committee (lsch_context ls))). 0 < a_stake a"
    and "fst ` set (lst_good_nodes (lsch_swap_table ls)) \<subseteq> members (cx_committee (lsch_context ls)) - fset (fmdom (lst_bad_nodes (lsch_swap_table ls)))"
    and "fmdom (lst_bad_nodes (lsch_swap_table ls)) \<noteq> {||} \<longrightarrow> lst_good_nodes (lsch_swap_table ls) \<noteq> []"
  shows "\<exists>a. elect_leader rg ls r 0 = Some a \<and> is_valid_index (cx_committee (lsch_context ls)) a \<and>
    a |\<notin>| fmdom (lst_bad_nodes (lsch_swap_table ls))"
proof -
  let ?t = "lsch_swap_table ls"
  obtain l where l: "elect_leader_stake_based rg ls r 0 = Some l" "l < committee_size (cx_committee (lsch_context ls))"
    using elect_stake_based_valid[OF assms(1,2,3)] by blast
  show ?thesis
  proof (cases "l |\<in>| fmdom (lst_bad_nodes ?t)")
    case True
    then have "lst_good_nodes ?t \<noteq> []" using assms(5) by auto
    then obtain n where n: "rng_choose rg r 0 (lst_good_nodes ?t) = Some n" "n \<in> set (lst_good_nodes ?t)"
      using rng_choose_some[OF assms(1)] by blast
    have "fst n \<in> members (cx_committee (lsch_context ls)) - fset (fmdom (lst_bad_nodes ?t))"
      using n(2) assms(4) by blast
    then show ?thesis
      using l(1) True n(1) by (cases n) (simp add: elect_leader_def swap_table_swap_def is_valid_index_def members_def)
  next
    case False
    then show ?thesis using l by (simp add: elect_leader_def swap_table_swap_def is_valid_index_def)
  qed
qed

definition sample_schedule :: leader_schedule where
  "sample_schedule = leader_schedule_new sample_context
     \<lparr>lst_good_nodes = [(1, ''h'', 1)], lst_bad_nodes = fmupd 2 (''h'', 1) fmempty, lst_reputation_scores = reputation_scores_default\<rparr>"

theorem elected_leader_not_bad_witness:
  "\<exists>a. elect_leader sample_rng sample_schedule 2 0 = Some a \<and> a \<noteq> 2"
proof -
  have "lsch_context sample_schedule = sample_context" "lst_good_nodes (lsch_swap_table sample_schedule) = [(1, ''h'', 1)]"
    "fmdom (lst_bad_nodes (lsch_swap_table sample_schedule)) = {|2|}"
    by (simp_all add: sample_schedule_def leader_schedule_new_def)
  moreover have "\<forall>a\<in>set (c_authorities committee4). 0 < a_stake a" by (simp add: committee4_def sample_authority_def)
  ultimately show ?thesis
    using elected_leader_not_bad[OF sample_rng_ok, of sample_schedule 2] by (auto simp: members_def)
qed

lemma ranking_ends:
  assumes "rng_ok rg" and "g < length ss" and "\<forall>a<length ss. a \<noteq> g \<longrightarrow> ss ! a < ss ! g"
    and "b < length ss" and "\<forall>a<length ss. a \<noteq> b \<longrightarrow> ss ! b < ss ! a"
  shows "\<exists>xs. ranking rg i ss = (g, ss ! g) # xs" and "\<exists>ys. rev (ranking rg i ss) = (b, ss ! b) # ys"
proof -
  note rp = ranking_props[OF assms(1), of i ss]
  have el: "x \<in> set (ranking rg i ss) \<longleftrightarrow> fst x < length ss \<and> snd x = ss ! fst x" for x
    by (cases x) (auto simp: rp(1) in_set_enumerate_eq)
  have top: "x = (g, ss ! g)" if "x \<in> set (ranking rg i ss)" "ss ! g \<le> snd x" for x
    using that(2) el[THEN iffD1, OF that(1)] assms(3) by (metis leD prod.collapse)
  have bot: "x = (b, ss ! b)" if "x \<in> set (ranking rg i ss)" "snd x \<le> ss ! b" for x
    using that(2) el[THEN iffD1, OF that(1)] assms(5) by (metis leD prod.collapse)
  obtain x xs where x: "ranking rg i ss = x # xs" using rp(4) assms(2) by (cases "ranking rg i ss") auto
  have "(g, ss ! g) \<in> set (x # xs)" using assms(2) by (simp add: el x[symmetric] del: list.set)
  then have "ss ! g \<le> snd x" using rp(3) by (auto simp: x)
  then show "\<exists>xs. ranking rg i ss = (g, ss ! g) # xs" using top[of x] x by auto
  obtain y ys where y: "rev (ranking rg i ss) = y # ys" using rp(4) assms(2) by (cases "rev (ranking rg i ss)") auto
  then have y': "ranking rg i ss = rev ys @ [y]" by (metis rev.simps(2) rev_rev_ident)
  have "(b, ss ! b) \<in> set (rev ys @ [y])" using assms(4) by (simp add: el y'[symmetric] del: set_append set_rev)
  then have "snd y \<le> ss ! b" using rp(3) by (auto simp: y' sorted_wrt_append)
  then show "\<exists>ys. rev (ranking rg i ss) = (b, ss ! b) # ys" using bot[of y] y y' by auto
qed

lemma retrieve_first:
  assumes "a < committee_size c" and "unat t * unat (c_total_stake c) < 2 ^ 64" and "retrieve_first_nodes c t ((a, score) # as) 0 = Some ns"
  shows "ns = [] \<longleftrightarrow> stake_bound c t < stake_of c a" and "ns \<noteq> [] \<Longrightarrow> a \<in> fst ` set ns"
proof -
  let ?s = "a_stake (c_authorities c ! a)"
  have cs: "committee_stake c a = Some ?s" "committee_authority c a = Some (c_authorities c ! a)"
    using assms(1) by (simp_all add: committee_authority_def committee_size_def)
  have "unat ((t * c_total_stake c) div 100) = stake_bound c t"
    using unat_mult_u64[OF assms(2)] by (simp add: stake_bound_def unat_div)
  then have "?s > (t * c_total_stake c) div 100 \<longleftrightarrow> stake_bound c t < stake_of c a"
    using assms(1) by (simp add: word_less_nat_alt stake_of_def)
  then show "ns = [] \<longleftrightarrow> stake_bound c t < stake_of c a" and "ns \<noteq> [] \<Longrightarrow> a \<in> fst ` set ns"
    using assms(3) by (auto simp: cs split: if_splits elim!: bind_SomeE)
qed

text \<open>
  C37. A swap table can have bad nodes and no good node, and then electing a bad leader panics. For every random generator within its
  contract, every well-formed committee whose total stake times 33 fits a \<^verbatim>\<open>u64\<close>, a threshold of at most 33 percent and one score per
  authority: when the authority of the single highest score holds more stake than the threshold
  allows and the one of the single lowest score does not, the constructor returns a table without a good node in which the
  latter is bad; in every round whose first stake-based leader is a bad node, the schedule with
  this table panics, and otherwise elects that leader.
\<close>

theorem swap_without_good_node_panics:
  assumes wf: "committee_wf (cx_committee ctx)" and rg: "rng_ok rg" and t: "t \<le> 33"
    and head: "33 * unat (c_total_stake (cx_committee ctx)) < 2 ^ 64"
    and len: "length (rs_scores_per_authority scores) = committee_size (cx_committee ctx)"
    and g: "g < committee_size (cx_committee ctx)"
      "\<forall>a<committee_size (cx_committee ctx). a \<noteq> g \<longrightarrow> rs_scores_per_authority scores ! a < rs_scores_per_authority scores ! g"
      "unat t * unat (c_total_stake (cx_committee ctx)) < 100 * stake_of (cx_committee ctx) g"
    and b: "b < committee_size (cx_committee ctx)"
      "\<forall>a<committee_size (cx_committee ctx). a \<noteq> b \<longrightarrow> rs_scores_per_authority scores ! b < rs_scores_per_authority scores ! a"
      "100 * stake_of (cx_committee ctx) b \<le> unat t * unat (c_total_stake (cx_committee ctx))"
  shows "\<exists>tbl. swap_table_new_inner rg ctx t i scores = Some tbl \<and> lst_good_nodes tbl = [] \<and> b |\<in>| fmdom (lst_bad_nodes tbl) \<and>
    (\<forall>r l. elect_leader_stake_based rg (leader_schedule_new ctx tbl) r 0 = Some l \<longrightarrow>
       elect_leader rg (leader_schedule_new ctx tbl) r 0 = (if l |\<in>| fmdom (lst_bad_nodes tbl) then None else Some l))"
proof -
  let ?c = "cx_committee ctx" and ?ss = "rs_scores_per_authority scores"
  have "unat t \<le> 33" using t by (simp add: word_le_nat_alt)
  then have h: "unat t * unat (c_total_stake ?c) < 2 ^ 64"
    using head mult_le_mono1[of "unat t" 33 "unat (c_total_stake ?c)"] by linarith
  from swap_table_eq[OF wf rg t head len refl, of i] obtain tbl where tbl: "swap_table_new_inner rg ctx t i scores = Some tbl" by blast
  from len g(1) have "?ss \<noteq> []" by auto
  with tbl len obtain good bad where
    n: "retrieve_first_nodes ?c t (ranking rg i ?ss) 0 = Some good" "retrieve_first_nodes ?c t (rev (ranking rg i ?ss)) 0 = Some bad"
      "lst_good_nodes tbl = good" "lst_bad_nodes tbl = fmap_of_list bad"
    by (auto simp: swap_table_new_inner_def Let_def authorities_by_score_Some ranking_def panic_simps)
  note e = ranking_ends[OF rg, of g ?ss b i, unfolded len, OF g(1,2) b(1,2)]
  have "stake_bound ?c t < stake_of ?c g" "\<not> stake_bound ?c t < stake_of ?c b" using g(3) b(3) unfolding stake_bound_def by linarith+
  moreover obtain xs ys where "retrieve_first_nodes ?c t ((g, ?ss ! g) # xs) 0 = Some good" "retrieve_first_nodes ?c t ((b, ?ss ! b) # ys) 0 = Some bad"
    using e n(1,2) by metis
  ultimately have "good = []" "b \<in> fst ` set bad" using retrieve_first(1)[OF g(1) h] retrieve_first[OF b(1) h] by blast+
  then have k: "lst_good_nodes tbl = []" "b |\<in>| fmdom (lst_bad_nodes tbl)" using n(3,4) by (auto simp: fset_of_list_elem)
  have ch: "rng_choose rg r 0 ([] :: node list) = None" for r
  proof -
    have "case rng_choose rg r 0 ([] :: node list) of None \<Rightarrow> [] = ([] :: node list) | Some x \<Rightarrow> x \<in> set []"
      using rg unfolding rng_ok_def by blast
    then show ?thesis by (cases "rng_choose rg r 0 ([] :: node list)") simp_all
  qed
  have "elect_leader rg (leader_schedule_new ctx tbl) r 0 = (if l |\<in>| fmdom (lst_bad_nodes tbl) then None else Some l)"
    if "elect_leader_stake_based rg (leader_schedule_new ctx tbl) r 0 = Some l" for r l
    using that ch k(1) by (simp add: elect_leader_def swap_table_swap_def leader_schedule_new_def)
  with tbl k show ?thesis by blast
qed

text \<open>Stakes 40, 20, 20, 20 and a threshold of 20 percent: no good node fits, and the generator elects the bad one in round 3.\<close>

theorem swap_without_good_node_panics_witness:
  "\<exists>c ctx tbl. committee_new 0 (map sample_authority [40, 20, 20, 20]) = Some c \<and> cx_committee ctx = c \<and>
     swap_table_new_inner sample_rng ctx 20 7
       \<lparr>rs_scores_per_authority = [9, 7, 5, 2], rs_commit_range = commit_range_new 1 300\<rparr> = Some tbl \<and>
     lst_good_nodes tbl = [] \<and> elect_leader sample_rng (leader_schedule_new ctx tbl) 3 0 = None"
proof -
  let ?as = "map sample_authority [40, 20, 20, 20]"
  define c where "c = \<lparr>c_epoch = 0, c_authorities = ?as, c_total_stake = 100, c_quorum_threshold = 67,
     c_certification_threshold = 67, c_validity_threshold = 34\<rparr>"
  define ctx where "ctx = sample_context\<lparr>cx_committee := c\<rparr>"
  define rs where "rs = \<lparr>rs_scores_per_authority = [9, 7, 5, 2 :: u64], rs_commit_range = commit_range_new 1 300\<rparr>"
  have c: "committee_new 0 ?as = Some c"
    by (simp add: c_def committee_new_def Let_def sample_authority_def u32_max_def)
  have x: "cx_committee ctx = c" "committee_size c = 4" "c_total_stake c = 100" by (simp_all add: ctx_def c_def committee_size_def)
  have "auths_total ?as < 2 ^ 63" by (simp add: auths_total_def sample_authority_def)
  then have wf: "committee_wf c" using committee_new_wf c by blast
  have st: "stake_of c 0 = 40" "stake_of c 3 = 20" unfolding stake_of_def x(2) by (simp_all add: c_def sample_authority_def)
  have four: "a = 0 \<or> a = 1 \<or> a = 2 \<or> a = 3" if "a < 4" for a :: nat using that by linarith
  have s: "\<forall>a<4. a \<noteq> 0 \<longrightarrow> rs_scores_per_authority rs ! a < rs_scores_per_authority rs ! 0"
    "\<forall>a<4. a \<noteq> 3 \<longrightarrow> rs_scores_per_authority rs ! 3 < rs_scores_per_authority rs ! a"
    by (auto simp: rs_def dest!: four)
  have l: "length (rs_scores_per_authority rs) = 4" by (simp add: rs_def)
  from swap_without_good_node_panics[of ctx sample_rng 20 rs 0 3 7, unfolded x] wf sample_rng_ok l s st obtain tbl where
    t: "swap_table_new_inner sample_rng ctx 20 7 rs = Some tbl" "lst_good_nodes tbl = []" "3 |\<in>| fmdom (lst_bad_nodes tbl)"
      "\<forall>r l. elect_leader_stake_based sample_rng (leader_schedule_new ctx tbl) r 0 = Some l \<longrightarrow>
         elect_leader sample_rng (leader_schedule_new ctx tbl) r 0 = (if l |\<in>| fmdom (lst_bad_nodes tbl) then None else Some l)" by auto
  have "elect_leader_stake_based sample_rng (leader_schedule_new ctx tbl) 3 0 = Some 3"
    by (simp add: elect_leader_stake_based_def leader_schedule_new_def sample_rng_def authority_indices_def x
        c_def committee_size_def vec_get_def eval_nat_numeral)
  then have "elect_leader sample_rng (leader_schedule_new ctx tbl) 3 0 = None" using t(3,4) by simp
  with c x(1) t(1,2) show ?thesis unfolding rs_def by blast
qed

end
