(* ===== verification/Block_Verifier.thy ===== *)
theory Block_Verifier
  imports Block_Types Stake_Aggregator
begin

text \<open>
  Verification of received blocks (\<^verbatim>\<open>consensus/core/src/block_verifier.rs\<close> and the signature check
  of \<^verbatim>\<open>consensus/core/src/block.rs\<close>). Each early return of \<^verbatim>\<open>verify_block\<close> is an \<open>Inl\<close> of the
  model, in the source's order. The transaction verifier, a trait implemented outside the
  consensus crates, is the pair of functions \<open>verify_batch\<close> and \<open>verify_and_vote_batch\<close>.
\<close>

subsection \<open>Signature\<close>

definition compute_inner_block_digest :: "crypto \<Rightarrow> block \<Rightarrow> digest consensus_result" where
  "compute_inner_block_digest cy b =
     (case cy_bcs_block cy b of Inl e \<Rightarrow> Inl (SerializationFailure e) | Inr s \<Rightarrow> Inr (cy_hash cy s))"

definition verify_block_signature :: "crypto \<Rightarrow> block \<Rightarrow> bytes \<Rightarrow> bytes \<Rightarrow> unit consensus_result" where
  "verify_block_signature cy b signature protocol_pubkey =
     (case compute_inner_block_digest cy b of
        Inl e \<Rightarrow> Inl e
      | Inr d \<Rightarrow> (case cy_bcs_intent cy d of
          Inl e \<Rightarrow> Inl (SerializationFailure e)
        | Inr message \<Rightarrow> (case cy_signature_from_bytes cy signature of
            Inl e \<Rightarrow> Inl (MalformedSignature e)
          | Inr sig \<Rightarrow> (case cy_verify cy protocol_pubkey message sig of
              Inl e \<Rightarrow> Inl (SignatureVerificationFailure e)
            | Inr u \<Rightarrow> Inr ()))))"

definition verify_signature :: "crypto \<Rightarrow> consensus_context \<Rightarrow> signed_block \<Rightarrow> unit consensus_result" where
  "verify_signature cy ctx sb =
     (let b = sb_inner sb; c = cx_committee ctx in
      if \<not> is_valid_index c (block_author b)
      then Inl (InvalidAuthorityIndex (block_author b) (committee_size c - 1))
      else verify_block_signature cy b (sb_signature sb)
             (a_protocol_key (c_authorities c ! block_author b)))"

subsection \<open>Blocks\<close>

record signed_block_verifier =
  sv_context :: consensus_context
  sv_genesis :: "block_ref fset"

definition signed_block_verifier_new :: "crypto \<Rightarrow> consensus_context \<Rightarrow> signed_block_verifier option" where
  "signed_block_verifier_new cy ctx = do {
     gs \<leftarrow> genesis_blocks cy ctx;
     Some \<lparr>sv_context = ctx, sv_genesis = fset_of_list (map reference gs)\<rparr>
   }"

text \<open>The loop over the ancestors: position, \<^verbatim>\<open>seen_ancestors\<close>, and the parent stake so far.\<close>

fun verify_ancestors ::
  "committee \<Rightarrow> block_ref fset \<Rightarrow> block \<Rightarrow> nat \<Rightarrow> block_ref list \<Rightarrow> bool list \<Rightarrow> stake \<Rightarrow> stake consensus_result" where
  "verify_ancestors c genesis b i [] seen parent_stakes = Inr parent_stakes"
| "verify_ancestors c genesis b i (a # as) seen parent_stakes =
     (if \<not> is_valid_index c (br_author a)
      then Inl (InvalidAuthorityIndex (br_author a) (committee_size c - 1))
      else if (i = 0 \<and> br_author a \<noteq> block_author b) \<or> (i > 0 \<and> br_author a = block_author b)
      then Inl (InvalidAncestorPosition (block_author b) (br_author a) i)
      else if br_round a \<ge> block_round b
      then Inl (InvalidAncestorRound (br_round a) (block_round b))
      else if br_round a = GENESIS_ROUND \<and> a |\<notin>| genesis
      then Inl (InvalidGenesisAncestor a)
      else if seen ! br_author a
      then Inl (DuplicatedAncestorsAuthority (br_author a))
      else verify_ancestors c genesis b (i + 1) as (seen[br_author a := True])
             (if br_round a = block_round b - 1
              then parent_stakes + a_stake (c_authorities c ! br_author a) else parent_stakes))"

definition check_transactions :: "consensus_context \<Rightarrow> bytes list \<Rightarrow> unit consensus_result" where
  "check_transactions ctx batch =
     (let pc = cx_protocol_config ctx;
          max_size = pc_max_transaction_size_bytes pc;
          max_num = pc_max_num_transactions_in_block pc;
          max_bytes = pc_max_transactions_in_block_bytes pc
      in case find (\<lambda>t. length t > max_size \<and> max_size > 0) batch of
           Some t \<Rightarrow> Inl (TransactionTooLarge (length t) max_size)
         | None \<Rightarrow>
           if length batch > max_num \<and> max_num > 0 then Inl (TooManyTransactions (length batch) max_num)
           else if sum_list (map length batch) > max_bytes \<and> max_bytes > 0
           then Inl (TooManyTransactionBytes (length batch) max_bytes)
           else Inr ())"

definition verify_block :: "crypto \<Rightarrow> signed_block_verifier \<Rightarrow> signed_block \<Rightarrow> unit consensus_result" where
  "verify_block cy sv sb =
     (let ctx = sv_context sv; c = cx_committee ctx; b = sb_inner sb in
      if block_epoch b \<noteq> c_epoch c then Inl (WrongEpoch (c_epoch c) (block_epoch b))
      else if block_round b = 0 then Inl UnexpectedGenesisBlock
      else if \<not> is_valid_index c (block_author b)
      then Inl (InvalidAuthorityIndex (block_author b) (committee_size c - 1))
      else (case verify_signature cy ctx sb of
        Inl e \<Rightarrow> Inl e
      | Inr u \<Rightarrow>
        if length (block_ancestors b) > committee_size c
        then Inl (TooManyAncestors (length (block_ancestors b)) (committee_size c))
        else if block_ancestors b = [] then Inl (InsufficientParentStakes 0 (c_quorum_threshold c))
        else (case verify_ancestors c (sv_genesis sv) b 0 (block_ancestors b)
                     (replicate (committee_size c) False) 0 of
          Inl e \<Rightarrow> Inl e
        | Inr parent_stakes \<Rightarrow>
          if \<not> reached_quorum c parent_stakes
          then Inl (InsufficientParentStakes parent_stakes (c_quorum_threshold c))
          else check_transactions ctx (block_transactions_data b))))"

definition verifier_vote ::
  "(block_ref \<Rightarrow> bytes list \<Rightarrow> string + transaction_index list) \<Rightarrow> verified_block \<Rightarrow>
   transaction_index list consensus_result" where
  "verifier_vote verify_and_vote_batch b =
     (case verify_and_vote_batch (reference b) (vb_transactions_data b) of
        Inl e \<Rightarrow> Inl (InvalidTransaction e)
      | Inr rejected \<Rightarrow> Inr rejected)"

definition verify_and_vote ::
  "crypto \<Rightarrow> (bytes list \<Rightarrow> string + unit) \<Rightarrow> (block_ref \<Rightarrow> bytes list \<Rightarrow> string + transaction_index list) \<Rightarrow>
   signed_block_verifier \<Rightarrow> signed_block \<Rightarrow> bytes \<Rightarrow>
   (verified_block \<times> transaction_index list) consensus_result" where
  "verify_and_vote cy verify_batch verify_and_vote_batch sv sb serialized =
     (case verify_block cy sv sb of
        Inl e \<Rightarrow> Inl e
      | Inr u \<Rightarrow>
        let vb = new_verified cy sb serialized in
        if pc_transaction_voting_enabled (cx_protocol_config (sv_context sv))
        then (case verifier_vote verify_and_vote_batch vb of
                Inl e \<Rightarrow> Inl e | Inr rejected \<Rightarrow> Inr (vb, rejected))
        else (case verify_batch (vb_transactions_data vb) of
                Inl e \<Rightarrow> Inl (InvalidTransaction e) | Inr v \<Rightarrow> Inr (vb, [])))"

subsection \<open>What a verified block satisfies\<close>

text \<open>The structural part of validity: the shape of the ancestor list.\<close>

definition ancestors_wf :: "committee \<Rightarrow> authority_index \<Rightarrow> round \<Rightarrow> block_ref list \<Rightarrow> bool" where
  "ancestors_wf c author r as \<longleftrightarrow>
     distinct (map br_author as) \<and>
     (\<forall>a\<in>set as. is_valid_index c (br_author a) \<and> br_round a < r) \<and>
     unat (c_quorum_threshold c) \<le> set_stake c (br_author ` {a \<in> set as. br_round a = r - 1})"

definition own_ancestor_first :: "authority_index \<Rightarrow> block_ref list \<Rightarrow> bool" where
  "own_ancestor_first author as \<longleftrightarrow> as \<noteq> [] \<and> br_author (hd as) = author \<and>
     (\<forall>a\<in>set (tl as). br_author a \<noteq> author)"

definition transactions_within_limits :: "consensus_context \<Rightarrow> bytes list \<Rightarrow> bool" where
  "transactions_within_limits ctx batch \<longleftrightarrow>
     (let pc = cx_protocol_config ctx in
      (pc_max_transaction_size_bytes pc > 0 \<longrightarrow> (\<forall>t\<in>set batch. length t \<le> pc_max_transaction_size_bytes pc)) \<and>
      (pc_max_num_transactions_in_block pc > 0 \<longrightarrow> length batch \<le> pc_max_num_transactions_in_block pc) \<and>
      (pc_max_transactions_in_block_bytes pc > 0 \<longrightarrow>
         sum_list (map length batch) \<le> pc_max_transactions_in_block_bytes pc))"

lemma check_transactions_ok: "check_transactions ctx batch = Inr () \<longleftrightarrow> transactions_within_limits ctx batch"
proof -
  let ?m = "pc_max_transaction_size_bytes (cx_protocol_config ctx)"
  let ?f = "find (\<lambda>t. length t > ?m \<and> ?m > 0) batch"
  show ?thesis
  proof (cases ?f)
    case None
    then have "\<forall>t\<in>set batch. length t \<le> ?m \<or> ?m = 0" by (auto simp: find_None_iff not_less)
    then show ?thesis
      unfolding check_transactions_def transactions_within_limits_def Let_def None by auto
  next
    case (Some t)
    then have "t \<in> set batch" "length t > ?m" "?m > 0" by (auto simp: find_Some_iff)
    then have "\<not> transactions_within_limits ctx batch"
      by (auto simp: transactions_within_limits_def Let_def not_le)
    then show ?thesis unfolding check_transactions_def Let_def Some by simp
  qed
qed

text \<open>
  The ancestor loop accepts exactly the lists whose remaining ancestors are valid, at their
  position, new and below the block, and it returns the stake of the parents.
\<close>

definition position_ok :: "authority_index \<Rightarrow> nat \<Rightarrow> block_ref list \<Rightarrow> bool" where
  "position_ok author i as \<longleftrightarrow> (\<forall>k<length as. (br_author (as ! k) = author) = (i + k = 0))"

lemma position_ok_Cons:
  "position_ok author i (a # as) \<longleftrightarrow> (br_author a = author) = (i = 0) \<and> position_ok author (i + 1) as"
proof -
  have "(\<forall>k<length (a # as). P k) \<longleftrightarrow> P 0 \<and> (\<forall>k<length as. P (Suc k))" for P
    using less_Suc_eq_0_disj by (auto simp: All_less_Suc2)
  then show ?thesis by (simp add: position_ok_def)
qed

lemma verify_ancestors_spec:
  assumes "committee_wf c" and "length seen = committee_size c"
    and "unat ps = set_stake c P" and "P \<subseteq> {x. x < committee_size c \<and> seen ! x}"
  shows "verify_ancestors c genesis b i as seen ps = Inr s \<longleftrightarrow>
     (\<forall>a\<in>set as. is_valid_index c (br_author a) \<and> br_round a < block_round b \<and>
        (br_round a = GENESIS_ROUND \<longrightarrow> a |\<in>| genesis) \<and> \<not> seen ! br_author a) \<and>
     position_ok (block_author b) i as \<and> distinct (map br_author as) \<and>
     unat s = set_stake c (P \<union> br_author ` {a \<in> set as. br_round a = block_round b - 1})"
  using assms(2-)
proof (induction as arbitrary: i seen ps P)
  case Nil
  then show ?case by (auto simp: position_ok_def word_unat_eq_iff)
next
  case (Cons a as)
  let ?x = "br_author a"
  let ?par = "br_round a = block_round b - 1"
  let ?seen = "seen[?x := True]"
  let ?ps = "if ?par then ps + a_stake (c_authorities c ! ?x) else ps"
  let ?P = "if ?par then insert ?x P else P"
  show ?case
  proof (cases "is_valid_index c ?x \<and> (?x = block_author b) = (i = 0) \<and> br_round a < block_round b \<and>
      (br_round a = GENESIS_ROUND \<longrightarrow> a |\<in>| genesis) \<and> \<not> seen ! ?x")
    case True
    then have x: "?x < committee_size c" "\<not> seen ! ?x" by (auto simp: is_valid_index_def)
    then have "?x \<notin> P" using Cons.prems(3) by auto
    then have sum: "set_stake c (insert ?x P) = stake_of c ?x + set_stake c P"
      using set_stake_insert[OF x(1)] by simp
    then have "unat ps + stake_of c ?x < 2 ^ 64"
      using set_stake_le_total[of c "insert ?x P"] assms(1) Cons.prems(2) by (simp add: committee_wf_def)
    then have ps: "unat ?ps = set_stake c ?P"
      using unat_add_u64[of ps "a_stake (c_authorities c ! ?x)"] x(1) sum Cons.prems(2)
      by (simp add: stake_of_def)
    have P: "?P \<subseteq> {y. y < committee_size c \<and> ?seen ! y}"
      using Cons.prems(1,3) x(1) by (auto simp: nth_list_update)
    have rec: "verify_ancestors c genesis b i (a # as) seen ps
        = verify_ancestors c genesis b (i + 1) as ?seen ?ps"
      using True by (simp add: GENESIS_ROUND_def) auto
    have seen: "\<not> ?seen ! y \<longleftrightarrow> \<not> seen ! y \<and> y \<noteq> ?x" for y
      using Cons.prems(1) x(1) by (auto simp: nth_list_update)
    have un: "?P \<union> br_author ` {a' \<in> set as. br_round a' = block_round b - 1}
        = P \<union> br_author ` {a' \<in> set (a # as). br_round a' = block_round b - 1}" by auto
    show ?thesis
      unfolding rec position_ok_Cons
      using Cons.IH[of ?seen ?ps ?P "i + 1"] Cons.prems(1) ps P True
      unfolding seen un by (auto simp: image_iff)
  next
    case False
    then show ?thesis by (auto simp: position_ok_Cons)
  qed
qed

lemma position_ok_Suc: "position_ok author (Suc i) as \<longleftrightarrow> (\<forall>a\<in>set as. br_author a \<noteq> author)"
  by (simp add: position_ok_def all_set_conv_all_nth)

lemma position_ok_0: "as \<noteq> [] \<Longrightarrow> position_ok author 0 as \<longleftrightarrow> own_ancestor_first author as"
  by (cases as) (auto simp: position_ok_Cons position_ok_Suc own_ancestor_first_def)

lemma verify_ancestors_reached:
  assumes "committee_wf c"
  shows "(\<exists>s. verify_ancestors c genesis b 0 as (replicate (committee_size c) False) 0 = Inr s \<and>
       reached_quorum c s) \<and> as \<noteq> [] \<longleftrightarrow>
     ancestors_wf c (block_author b) (block_round b) as \<and> own_ancestor_first (block_author b) as \<and>
     (\<forall>a\<in>set as. br_round a = GENESIS_ROUND \<longrightarrow> a |\<in>| genesis)"
  (is "?L \<longleftrightarrow> ?R")
proof -
  note sp = verify_ancestors_spec[OF assms, of "replicate (committee_size c) False" 0 "{}" genesis b 0 as, simplified]
  have v: "is_valid_index c x \<Longrightarrow> \<not> replicate (committee_size c) False ! x" for x
    by (simp add: is_valid_index_def)
  let ?S = "set_stake c (br_author ` {a \<in> set as. br_round a = block_round b - 1})"
  have small: "?S < 2 ^ 64" using set_stake_le_total[of c] assms by (metis committee_wf_def le_less_trans)
  have "?L" if "?R"
  proof -
    let ?s = "of_nat ?S :: u64"
    have "unat ?s = ?S" using small by (simp add: unat_of_nat take_bit_nat_eq_self)
    then have "verify_ancestors c genesis b 0 as (replicate (committee_size c) False) 0 = Inr ?s"
      using that v sp[of ?s] position_ok_0[of as "block_author b"]
      by (auto simp: ancestors_wf_def own_ancestor_first_def)
    then show ?thesis using that \<open>unat ?s = ?S\<close>
      by (auto simp: ancestors_wf_def own_ancestor_first_def reached_quorum_def word_le_nat_alt)
  qed
  moreover have "?R" if "?L"
    using that v sp position_ok_0[of as "block_author b"]
    by (auto simp: ancestors_wf_def reached_quorum_def word_le_nat_alt)
  ultimately show ?thesis by blast
qed

text \<open>
  The bound on the number of ancestors never rejects a block the other checks accept: distinct
  authors of the committee are at most its size.
\<close>

lemma ancestors_wf_length: "ancestors_wf c author r as \<Longrightarrow> length as \<le> committee_size c"
proof -
  assume a: "ancestors_wf c author r as"
  then have "br_author ` set as \<subseteq> {..<committee_size c}" "distinct (map br_author as)"
    by (auto simp: ancestors_wf_def is_valid_index_def)
  then show ?thesis using card_mono[of "{..<committee_size c}" "br_author ` set as"]
    by (metis card_lessThan distinct_card finite_lessThan length_map list.set_map)
qed

text \<open>
  C29. A block passes verification exactly when it belongs to the committee's epoch, is not a genesis block,
  has a valid author and signature, its ancestors have distinct valid authors, are of lower
  rounds, begin with the author's own previous block (and only there), are known genesis blocks when of
  round 0, the authors of its parents (ancestors of the previous round) hold a quorum of stake,
  and its transactions are within the configured limits. The check on the number of ancestors
  adds nothing to these.
\<close>

theorem verify_block_ok_iff:
  assumes "committee_wf (cx_committee (sv_context sv))"
  shows "verify_block cy sv sb = Inr () \<longleftrightarrow>
    (let ctx = sv_context sv; c = cx_committee ctx; b = sb_inner sb in
      block_epoch b = c_epoch c \<and> block_round b > 0 \<and> is_valid_index c (block_author b) \<and>
      verify_signature cy ctx sb = Inr () \<and>
      ancestors_wf c (block_author b) (block_round b) (block_ancestors b) \<and>
      own_ancestor_first (block_author b) (block_ancestors b) \<and>
      (\<forall>a\<in>set (block_ancestors b). br_round a = GENESIS_ROUND \<longrightarrow> a |\<in>| sv_genesis sv) \<and>
      transactions_within_limits ctx (block_transactions_data b))"
proof -
  let ?ctx = "sv_context sv"
  let ?c = "cx_committee ?ctx" and ?b = "sb_inner sb"
  note an = verify_ancestors_reached[OF assms, of "sv_genesis sv" ?b "block_ancestors ?b"]
  have "verify_block cy sv sb = Inr () \<longleftrightarrow>
      block_epoch ?b = c_epoch ?c \<and> block_round ?b > 0 \<and> is_valid_index ?c (block_author ?b) \<and>
      verify_signature cy ?ctx sb = Inr () \<and> length (block_ancestors ?b) \<le> committee_size ?c \<and>
      ((\<exists>s. verify_ancestors ?c (sv_genesis sv) ?b 0 (block_ancestors ?b)
           (replicate (committee_size ?c) False) 0 = Inr s \<and> reached_quorum ?c s) \<and>
       block_ancestors ?b \<noteq> []) \<and>
      check_transactions ?ctx (block_transactions_data ?b) = Inr ()"
    by (auto simp: verify_block_def Let_def split: sum.splits if_splits)
  then show ?thesis
    unfolding an check_transactions_ok Let_def
    using ancestors_wf_length[of ?c "block_author ?b" "block_round ?b" "block_ancestors ?b"] by blast
qed

theorem verify_block_ok_iff_witness:
  "verify_block sample_crypto \<lparr>sv_context = sample_context, sv_genesis = fset_of_list (map (\<lambda>i. BlockRef 0 i 0) [0, 1, 2, 3])\<rparr>
     (sample_block 1 2 5 [BlockRef 0 2 0, BlockRef 0 0 0, BlockRef 0 3 0]) = Inr ()"
proof -
  let ?as = "[BlockRef 0 2 0, BlockRef 0 0 0, BlockRef 0 3 0]"
  have q: "unat (c_quorum_threshold committee4) = 3" by (simp add: committee4_def)
  have p: "{a. (a = BlockRef 0 2 0 \<or> a = BlockRef 0 0 0 \<or> a = BlockRef 0 3 0) \<and> br_round a = 0} = set ?as" by auto
  have "ancestors_wf committee4 2 1 ?as"
    by (simp add: ancestors_wf_def is_valid_index_def q p committee4_set_stake)
  moreover have "verify_signature sample_crypto sample_context (sample_block 1 2 5 ?as) = Inr ()"
    by (simp add: verify_signature_def verify_block_signature_def compute_inner_block_digest_def
        sample_crypto_def is_valid_index_def)
  moreover have "c_epoch committee4 = 0" by (simp add: committee4_def)
  ultimately show ?thesis
    by (subst verify_block_ok_iff)
      (auto simp: committee4_wf is_valid_index_def own_ancestor_first_def transactions_within_limits_def fset_of_list_elem)
qed

end
