(* ===== verification/Commit_Rule.thy ===== *)
theory Commit_Rule
  imports Base_Committer
begin

text \<open>
  What the base committer computes, as patterns of the DAG. A view is a DAG state that satisfies
  its invariant, is causally complete and serves verified blocks only. In a view a block votes for the
  leader blocks among its ancestors, a block certifies a leader when the authors of the votes among its
  ancestors reach the quorum, and the operations of \<open>Base_Committer\<close> neither panic nor
  return anything else.
\<close>

subsection \<open>Views\<close>

definition ds_verified :: "dag_state \<Rightarrow> bool" where
  "ds_verified ds \<longleftrightarrow> (\<forall>r b. ds_get_block ds r = Some b \<longrightarrow> 0 < br_round r \<longrightarrow>
     ancestors_wf (ds_committee ds) (br_author r) (br_round r) (vb_ancestors b))"

definition view_ok :: "committee \<Rightarrow> dag_state \<Rightarrow> bool" where
  "view_ok c ds \<longleftrightarrow> ds_inv ds \<and> ds_complete ds \<and> ds_verified ds \<and> ds_committee ds = c"

lemma view_okD:
  assumes "view_ok c ds"
  shows "ds_inv ds" "ds_complete ds" "ds_committee ds = c" "committee_wf c"
  using assms by (auto simp: view_ok_def ds_inv_def ds_static_def)

lemma view_ok_ancestors:
  assumes "view_ok c ds" and "ds_get_block ds r = Some b" and "0 < br_round r"
  shows "ancestors_wf c (br_author r) (br_round r) (vb_ancestors b)" and "reference b = r"
  using assms ds_get_block_reference[of ds r b] by (auto simp: view_ok_def ds_verified_def)

lemma view_ok_round:
  assumes "view_ok c ds" and "ds_get_block ds r = Some b" and "a \<in> set (vb_ancestors b)"
  shows "br_round a < br_round r" and "ds_gc_round ds < br_round a \<Longrightarrow> \<exists>b'. ds_get_block ds a = Some b'"
  using ds_completeD[OF view_okD(2)[OF assms(1)] assms(2,3)] by blast+

lemma view_ok_author:
  assumes "view_ok c ds" and "ds_get_block ds r = Some b" and "0 < br_round r"
  shows "br_author r < committee_size c"
proof -
  from assms(2,3) have "ds_cached ds r = Some b \<or> ds_stored ds r = Some b"
    by (auto simp: ds_get_block_eq GENESIS_ROUND_def split: option.splits)
  then show ?thesis
    using ds_inv_cached[OF view_okD(1)[OF assms(1)], of r b] ds_inv_stored[OF view_okD(1)[OF assms(1)], of r b]
      view_okD(3)[OF assms(1)]
    by (auto simp: ds_stored_ok_def)
qed

lemma ds_get_above_gc:
  assumes "ds_inv ds" and "ds_gc_round ds < br_round r"
  shows "ds_get_block ds r = ds_cached ds r"
  using assms(2) ds_inv_stored[OF assms(1), of r]
  by (cases "ds_stored ds r") (auto simp: ds_get_block_eq GENESIS_ROUND_def ds_stored_ok_def split: option.splits)

lemma ds_gc_le_commit: "ds_gc_round ds \<le> ds_last_commit_round ds"
  by (simp add: ds_gc_round_def ds_calculate_gc_round_def)

subsection \<open>Cached blocks by slot and by round\<close>

lemma in_slot_range_iff: "in_slot_range s k \<longleftrightarrow> slot_from k = s"
proof -
  have "br_digest k \<le> digest_max" by (simp add: digest_max_def)
  then show ?thesis
    by (cases s; cases k) (auto simp: in_slot_range_def less_eq_block_ref_def slot_from_def)
qed

lemma cached_entries:
  assumes "ds_inv ds"
  shows "bi_block ` snd ` {e \<in> set (sorted_list_of_fmap (ds_recent_blocks ds)). P (fst e)} =
    {b. ds_cached ds (reference b) = Some b \<and> P (reference b)}"
proof -
  have "fmlookup (ds_recent_blocks ds) r = Some bi \<Longrightarrow> reference (bi_block bi) = r" for r bi
    using ds_inv_cached[OF assms, of r] by (auto simp: ds_cached_def)
  then have "e \<in> set (sorted_list_of_fmap (ds_recent_blocks ds)) \<longleftrightarrow>
      fmlookup (ds_recent_blocks ds) (fst e) = Some (snd e) \<and> reference (bi_block (snd e)) = fst e" for e
    using set_sorted_list_of_fmap[of "fst e" "snd e" "ds_recent_blocks ds"] by auto
  then show ?thesis by (force simp: ds_cached_def image_iff)
qed

lemma distinct_cached_entries:
  assumes "ds_inv ds"
  shows "distinct (map (bi_block \<circ> snd) (filter P (sorted_list_of_fmap (ds_recent_blocks ds))))"
proof -
  let ?es = "sorted_list_of_fmap (ds_recent_blocks ds)"
  have "fmlookup (ds_recent_blocks ds) r = Some bi \<Longrightarrow> reference (bi_block bi) = r" for r bi
    using ds_inv_cached[OF assms, of r] by (auto simp: ds_cached_def)
  then have "e \<in> set ?es \<Longrightarrow> reference (bi_block (snd e)) = fst e" for e
    using set_sorted_list_of_fmap[of "fst e" "snd e" "ds_recent_blocks ds"] by auto
  then have "map (reference \<circ> (bi_block \<circ> snd)) ?es = map fst ?es" by auto
  moreover have "distinct (map fst ?es)" by (simp add: sorted_list_of_fmap_def comp_def)
  ultimately have "distinct (map (bi_block \<circ> snd) ?es)" by (metis distinct_map list.map_comp)
  then show ?thesis by (rule distinct_map_filter)
qed

lemma blocks_at_slot:
  assumes "ds_inv ds" and "ds_gc_round ds < slot_round s"
  shows "set (ds_get_uncommitted_blocks_at_slot ds s) =
      {b. ds_get_block ds (reference b) = Some b \<and> slot_from (reference b) = s}"
    and "distinct (ds_get_uncommitted_blocks_at_slot ds s)"
proof -
  have "slot_from r = s \<Longrightarrow> ds_get_block ds r = ds_cached ds r" for r
    using assms(2) ds_get_above_gc[OF assms(1), of r] by auto
  then show "set (ds_get_uncommitted_blocks_at_slot ds s) =
      {b. ds_get_block ds (reference b) = Some b \<and> slot_from (reference b) = s}"
    using cached_entries[OF assms(1), of "\<lambda>r. slot_from r = s"]
    by (auto simp: ds_get_uncommitted_blocks_at_slot_def in_slot_range_iff image_comp)
  show "distinct (ds_get_uncommitted_blocks_at_slot ds s)"
    unfolding ds_get_uncommitted_blocks_at_slot_def by (rule distinct_cached_entries[OF assms(1)])
qed

lemma round_range_iff: "BlockRef r 0 0 \<le> k \<and> k < BlockRef (r + 1) 0 0 \<longleftrightarrow> br_round k = r"
  by (auto simp: less_eq_block_ref_def less_block_ref_def)

lemma blocks_at_round:
  assumes "ds_inv ds" and "ds_last_commit_round ds < r"
  shows "\<exists>bs. ds_get_uncommitted_blocks_at_round ds r = Some bs \<and> distinct bs \<and>
    set bs = {b. ds_get_block ds (reference b) = Some b \<and> vb_round b = r}"
proof -
  let ?es = "filter (\<lambda>e. br_round (fst e) = r) (sorted_list_of_fmap (ds_recent_blocks ds))"
  have "BlockRef r 0 0 \<le> BlockRef (r + 1) 0 0" by (simp add: less_eq_block_ref_def)
  then have "ds_get_uncommitted_blocks_at_round ds r = Some (map (bi_block \<circ> snd) ?es)"
    using assms(2) by (simp add: ds_get_uncommitted_blocks_at_round_def range_incl_excl_def round_range_iff leD
        del: One_nat_def) 
  moreover have "b \<in> set (map (bi_block \<circ> snd) ?es) \<longleftrightarrow> ds_get_block ds (reference b) = Some b \<and> vb_round b = r" for b
    using cached_entries[OF assms(1), of "\<lambda>x. br_round x = r"] ds_get_above_gc[OF assms(1), of "reference b"]
      ds_gc_le_commit[of ds] assms(2)
    by (auto simp: set_eq_iff image_comp)
  ultimately show ?thesis using distinct_cached_entries[OF assms(1)] by blast
qed

subsection \<open>Votes\<close>

text \<open>Scanning ancestors none of which is above the round of the slot.\<close>

lemma scan_support_low:
  "\<forall>a\<in>set as. br_round a \<le> slot_round s \<Longrightarrow> scan_support ds s as = Some (find (\<lambda>a. slot_from a = s) as)"
proof (induction as)
  case Nil
  show ?case by (subst scan_support.simps) simp
next
  case (Cons a as)
  then show ?case by (subst scan_support.simps) simp
qed

lemma find_distinct:
  assumes "distinct (map f xs)" and "x \<in> set xs" and "P x" and "\<And>y. P y \<Longrightarrow> f y = f x"
  shows "find P xs = Some x"
  using assms
proof (induction xs)
  case (Cons y ys)
  show ?case
  proof (cases "P y")
    case True
    with Cons.prems(4) have "f y = f x" by simp
    with Cons.prems(1,2) have "y = x" by (auto dest: rev_image_eqI)
    with True show ?thesis by simp
  next
    case False
    with Cons.prems(1-3) have "distinct (map f ys)" "x \<in> set ys" by auto
    with False show ?thesis using Cons.IH[OF _ _ Cons.prems(3,4)] by simp
  qed
qed simp

lemma is_vote_iff:
  assumes v: "view_ok c ds" and b: "ds_get_block ds (reference b) = Some b"
    and low: "vb_round b \<le> vb_round l + 1"
  shows "is_vote ds b l = Some (reference l \<in> set (vb_ancestors b))"
proof -
  let ?s = "slot_from (reference l)"
  have anc: "a \<in> set (vb_ancestors b) \<Longrightarrow> br_round a < vb_round b" for a
    using view_ok_round(1)[OF v b] by simp
  have "find_supported_block ds ?s b = Some (find (\<lambda>a. slot_from a = ?s) (vb_ancestors b))"
  proof (cases "vb_round b < vb_round l")
    case True
    then have "slot_from a \<noteq> ?s" if "a \<in> set (vb_ancestors b)" for a using anc[OF that] by (auto simp: slot_from_def)
    then have "find (\<lambda>a. slot_from a = ?s) (vb_ancestors b) = None" by (auto simp: find_None_iff)
    with True show ?thesis by (simp add: find_supported_block_def)
  next
    case False
    then show ?thesis using anc low scan_support_low[of "vb_ancestors b" ?s ds]
      by (fastforce simp: find_supported_block_def)
  qed
  moreover have "find (\<lambda>a. slot_from a = ?s) (vb_ancestors b) = Some (reference l) \<longleftrightarrow> reference l \<in> set (vb_ancestors b)"
  proof
    assume r: "reference l \<in> set (vb_ancestors b)"
    then have "0 < vb_round b" using anc by fastforce
    then have "distinct (map br_author (vb_ancestors b))"
      using view_ok_ancestors(1)[OF v b] by (simp add: ancestors_wf_def)
    then show "find (\<lambda>a. slot_from a = ?s) (vb_ancestors b) = Some (reference l)"
      by (rule find_distinct) (use r in \<open>auto simp: slot_from_def\<close>)
  qed (auto simp: find_Some_iff)
  ultimately show ?thesis by (simp add: is_vote_def)
qed

definition votes_for :: "(block_ref \<Rightarrow> verified_block option) \<Rightarrow> block_ref \<Rightarrow> block_ref \<Rightarrow> bool" where
  "votes_for V l r \<longleftrightarrow> (\<exists>b. V r = Some b \<and> l \<in> set (vb_ancestors b))"

definition vote_authors :: "(block_ref \<Rightarrow> verified_block option) \<Rightarrow> block_ref \<Rightarrow> verified_block \<Rightarrow> authority_index set" where
  "vote_authors V l cert = br_author ` {r \<in> set (vb_ancestors cert). votes_for V l r}"

definition certifies :: "committee \<Rightarrow> (block_ref \<Rightarrow> verified_block option) \<Rightarrow> block_ref \<Rightarrow> verified_block \<Rightarrow> bool" where
  "certifies c V l cert \<longleftrightarrow> unat (c_quorum_threshold c) \<le> set_stake c (vote_authors V l cert)"

subsection \<open>Certificates\<close>

definition vote_cache_ok :: "dag_state \<Rightarrow> verified_block \<Rightarrow> (block_ref, bool) fmap \<Rightarrow> bool" where
  "vote_cache_ok ds l cache \<longleftrightarrow> (\<forall>r v. fmlookup cache r = Some v \<longrightarrow> v = votes_for (ds_get_block ds) (reference l) r)"

lemma vote_cache_empty [simp]: "vote_cache_ok ds l fmempty"
  by (simp add: vote_cache_ok_def)

lemma lookup_vote_iff:
  assumes v: "view_ok c ds" and cache: "vote_cache_ok ds l cache" and r: "br_round r \<le> vb_round l + 1"
    and served: "ds_gc_round ds < br_round r \<longrightarrow> ds_get_block ds r \<noteq> None"
  shows "\<exists>cache'. lookup_vote ds l r cache = Some (votes_for (ds_get_block ds) (reference l) r, cache') \<and> vote_cache_ok ds l cache'"
proof (cases "fmlookup cache r")
  case None
  have "(case ds_get_block ds r of Some b \<Rightarrow> is_vote ds b l
      | None \<Rightarrow> do { assert_that (br_round r \<le> ds_gc_round ds); Some False }) = Some (votes_for (ds_get_block ds) (reference l) r)"
  proof (cases "ds_get_block ds r")
    case None
    then show ?thesis using served by (simp add: votes_for_def assert_that_bind not_less)
  next
    case (Some b)
    then have "reference b = r" using ds_get_block_reference view_okD(1)[OF v] by blast
    then show ?thesis using Some is_vote_iff[OF v, of b l] r by (auto simp: votes_for_def)
  qed
  then show ?thesis using None cache by (simp add: lookup_vote_def vote_cache_ok_def)
qed (use cache in \<open>auto simp: lookup_vote_def vote_cache_ok_def\<close>)

lemma certificate_loop_iff:
  assumes v: "view_ok c ds" and rs: "\<forall>r\<in>set rs. br_author r < committee_size c \<and> br_round r \<le> vb_round l + 1 \<and>
      (ds_gc_round ds < br_round r \<longrightarrow> ds_get_block ds r \<noteq> None)"
    and "sa_inv c agg" and "\<not> sa_reached_threshold QuorumThreshold c agg" and "vote_cache_ok ds l cache"
  shows "\<exists>cache'. certificate_loop c ds l rs agg cache = Some (sa_reached_threshold QuorumThreshold c
      (sa_feed c (map br_author (filter (votes_for (ds_get_block ds) (reference l)) rs)) agg), cache') \<and> vote_cache_ok ds l cache'"
  using assms(2-)
proof (induction rs arbitrary: agg cache)
  case (Cons r rs)
  let ?v = "votes_for (ds_get_block ds) (reference l)"
  from Cons.prems(1) lookup_vote_iff[OF v Cons.prems(4), of r] obtain cache1 where
    l: "lookup_vote ds l r cache = Some (?v r, cache1)" "vote_cache_ok ds l cache1" by auto
  have a: "br_author r < committee_size c" using Cons.prems(1) by simp
  note wf = view_okD(4)[OF v]
  have inv: "sa_inv c (sa_insert c (br_author r) agg)" using sa_inv_insert[OF wf Cons.prems(2) a] .
  have sub: "set (map br_author (filter ?v rs)) \<subseteq> members c" using Cons.prems(1) by (auto simp: members_def)
  show ?case
  proof (cases "?v r \<and> sa_reached_threshold QuorumThreshold c (sa_insert c (br_author r) agg)")
    case True
    then show ?thesis using l a sa_feed_mono[OF wf inv sub] by (simp add: sa_add_eq)
  next
    case False
    then show ?thesis using l a inv Cons.IH[OF _ inv] Cons.IH[OF _ Cons.prems(2,3) l(2)] Cons.prems
      by (auto simp: sa_add_eq)
  qed
qed simp

lemma quorum_not_reached_new: "committee_wf c \<Longrightarrow> \<not> sa_reached_threshold QuorumThreshold c sa_new"
  using sa_feed_reached[of c "[]" QuorumThreshold] by (simp add: committee_wf_def)

text \<open>A block at most two rounds above the leader is a certificate exactly when it certifies the leader.\<close>

lemma is_certificate_iff:
  assumes v: "view_ok c ds" and bc: "bc_committee bc = c" and p: "ds_get_block ds (reference p) = Some p"
    and pos: "0 < vb_round p" and low: "vb_round p \<le> vb_round l + 2" and cache: "vote_cache_ok ds l cache"
  shows "\<exists>cache'. is_certificate bc ds p l cache = Some (certifies c (ds_get_block ds) (reference l) p, cache') \<and>
    vote_cache_ok ds l cache'"
proof -
  let ?v = "votes_for (ds_get_block ds) (reference l)"
  note wf = view_okD(4)[OF v]
  have anc: "ancestors_wf c (vb_author p) (vb_round p) (vb_ancestors p)" using view_ok_ancestors(1)[OF v p] pos by simp
  have rs: "\<forall>r\<in>set (vb_ancestors p). br_author r < committee_size c \<and> br_round r \<le> vb_round l + 1 \<and>
      (ds_gc_round ds < br_round r \<longrightarrow> ds_get_block ds r \<noteq> None)"
  proof
    fix r assume r: "r \<in> set (vb_ancestors p)"
    show "br_author r < committee_size c \<and> br_round r \<le> vb_round l + 1 \<and> (ds_gc_round ds < br_round r \<longrightarrow> ds_get_block ds r \<noteq> None)"
      using anc r low view_ok_round[OF v p r] by (auto simp: ancestors_wf_def is_valid_index_def)
  qed
  have "set (map br_author (filter ?v (vb_ancestors p))) \<subseteq> members c" using rs by (auto simp: members_def)
  from sa_feed_reached[OF wf this] have
    "sa_reached_threshold QuorumThreshold c (sa_feed c (map br_author (filter ?v (vb_ancestors p))) sa_new) \<longleftrightarrow>
      certifies c (ds_get_block ds) (reference l) p"
    by (simp add: certifies_def vote_authors_def)
  then show ?thesis
    using certificate_loop_iff[OF v rs sa_inv_new quorum_not_reached_new[OF wf] cache]
    by (simp add: is_certificate_def bc)
qed

lemma any_certificate_iff:
  assumes v: "view_ok c ds" and bc: "bc_committee bc = c"
    and ps: "\<forall>p\<in>set ps. ds_get_block ds (reference p) = Some p \<and> 0 < vb_round p \<and> vb_round p \<le> vb_round l + 2"
    and "vote_cache_ok ds l cache"
  shows "any_certificate bc ds l ps cache = Some (\<exists>p\<in>set ps. certifies c (ds_get_block ds) (reference l) p)"
  using ps assms(4)
proof (induction ps arbitrary: cache)
  case (Cons p ps)
  from is_certificate_iff[OF v bc, of p l cache] Cons.prems obtain cache1 where
    "is_certificate bc ds p l cache = Some (certifies c (ds_get_block ds) (reference l) p, cache1)" "vote_cache_ok ds l cache1"
    by auto
  then show ?case using Cons.IH[of cache1] Cons.prems(1) by auto
qed simp

subsection \<open>Blames and support\<close>

definition blames :: "authority_index \<Rightarrow> verified_block \<Rightarrow> bool" where
  "blames leader b \<longleftrightarrow> (\<forall>a\<in>set (vb_ancestors b). br_author a \<noteq> leader)"

lemma blame_loop_eq: "blame_loop c leader bs agg = sa_add_until QuorumThreshold c (map vb_author (filter (blames leader) bs)) agg"
  by (induction bs arbitrary: agg) (auto simp: blames_def cong: if_cong)

lemma blame_loop_iff:
  assumes "committee_wf c" and "\<forall>b\<in>set bs. vb_author b < committee_size c"
  shows "blame_loop c leader bs sa_new =
    Some (unat (c_quorum_threshold c) \<le> set_stake c (vb_author ` {b \<in> set bs. blames leader b}))"
proof -
  let ?vs = "map vb_author (filter (blames leader) bs)"
  have sub: "set ?vs \<subseteq> members c" using assms(2) by (auto simp: members_def)
  then show ?thesis
    using sa_add_until_eq[OF assms(1) sub sa_inv_new quorum_not_reached_new[OF assms(1)]] sa_feed_reached[OF assms(1) sub, of QuorumThreshold]
    by (simp add: blame_loop_eq)
qed

lemma support_loop_eq:
  assumes v: "view_ok c ds" and bc: "bc_committee bc = c"
    and bs: "\<forall>p\<in>set bs. ds_get_block ds (reference p) = Some p \<and> 0 < vb_round p \<and> vb_round p \<le> vb_round l + 2"
    and "vote_cache_ok ds l cache"
  shows "support_loop bc ds l bs agg cache =
    sa_add_until QuorumThreshold c (map vb_author (filter (certifies c (ds_get_block ds) (reference l)) bs)) agg"
  using bs assms(4)
proof (induction bs arbitrary: agg cache)
  case (Cons p ps)
  from is_certificate_iff[OF v bc, of p l cache] Cons.prems obtain cache1 where
    c1: "is_certificate bc ds p l cache = Some (certifies c (ds_get_block ds) (reference l) p, cache1)" "vote_cache_ok ds l cache1"
    by auto
  have "support_loop bc ds l ps agg' cache1 =
      sa_add_until QuorumThreshold c (map vb_author (filter (certifies c (ds_get_block ds) (reference l)) ps)) agg'" for agg'
    using Cons.IH[of cache1] Cons.prems(1) c1(2) by simp
  then show ?case using c1(1) by (simp add: bc cong: if_cong)
qed simp

text \<open>The authors of the blocks of a round that certify a leader block, or that blame a leader.\<close>

definition certifiers :: "committee \<Rightarrow> (block_ref \<Rightarrow> verified_block option) \<Rightarrow> block_ref \<Rightarrow> round \<Rightarrow> authority_index set" where
  "certifiers c V l r = vb_author ` {b. V (reference b) = Some b \<and> vb_round b = r \<and> certifies c V l b}"

definition blamers :: "(block_ref \<Rightarrow> verified_block option) \<Rightarrow> authority_index \<Rightarrow> round \<Rightarrow> authority_index set" where
  "blamers V leader r = vb_author ` {b. V (reference b) = Some b \<and> vb_round b = r \<and> blames leader b}"

lemma enough_leader_blame_iff:
  assumes v: "view_ok c ds" and bc: "bc_committee bc = c" and r: "ds_last_commit_round ds < r"
  shows "enough_leader_blame bc ds r leader =
    Some (unat (c_quorum_threshold c) \<le> set_stake c (blamers (ds_get_block ds) leader r))"
proof -
  from blocks_at_round[OF view_okD(1)[OF v] r] obtain bs where
    bs: "ds_get_uncommitted_blocks_at_round ds r = Some bs" "set bs = {b. ds_get_block ds (reference b) = Some b \<and> vb_round b = r}"
    by blast
  have "vb_author b < committee_size c" if "b \<in> set bs" for b
    using that bs(2) r view_ok_author[OF v, of "reference b" b] by auto
  moreover have "{b \<in> set bs. blames leader b} = {b. ds_get_block ds (reference b) = Some b \<and> vb_round b = r \<and> blames leader b}"
    using bs(2) by auto
  ultimately show ?thesis
    using blame_loop_iff[OF view_okD(4)[OF v], of bs leader] bs(1) by (simp add: enough_leader_blame_def bc blamers_def)
qed

lemma enough_leader_support_sound:
  assumes v: "view_ok c ds" and bc: "bc_committee bc = c" and r: "ds_last_commit_round ds < r" "r \<le> vb_round l + 2"
  shows "\<exists>x. enough_leader_support bc ds r l = Some x \<and>
    (x \<longrightarrow> unat (c_quorum_threshold c) \<le> set_stake c (certifiers c (ds_get_block ds) (reference l) r))"
proof -
  note wf = view_okD(4)[OF v]
  from blocks_at_round[OF view_okD(1)[OF v] r(1)] obtain bs where
    bs: "ds_get_uncommitted_blocks_at_round ds r = Some bs" "set bs = {b. ds_get_block ds (reference b) = Some b \<and> vb_round b = r}"
    by blast
  have au: "vb_author b < committee_size c" if "b \<in> set bs" for b
    using that bs(2) r view_ok_author[OF v, of "reference b" b] by auto
  let ?vs = "map vb_author (filter (certifies c (ds_get_block ds) (reference l)) bs)"
  have sub: "set ?vs \<subseteq> members c" using au by (auto simp: members_def)
  have "support_loop bc ds l bs sa_new fmempty = sa_add_until QuorumThreshold c ?vs sa_new"
    by (rule support_loop_eq[OF v bc]) (use bs(2) r in auto)
  also have "\<dots> = Some (unat (c_quorum_threshold c) \<le> set_stake c (set ?vs))"
    using sa_add_until_eq[OF wf sub sa_inv_new quorum_not_reached_new[OF wf]] sa_feed_reached[OF wf sub, of QuorumThreshold] by simp
  also have "set ?vs = certifiers c (ds_get_block ds) (reference l) r" using bs(2) by (auto simp: certifiers_def)
  finally have loop: "support_loop bc ds l bs sa_new fmempty =
      Some (unat (c_quorum_threshold c) \<le> set_stake c (certifiers c (ds_get_block ds) (reference l) r))" .
  have "mapM (\<lambda>b. committee_stake c (vb_author b)) bs = Some (map (\<lambda>b. a_stake (c_authorities c ! vb_author b)) bs)"
    by (rule mapM_total) (simp add: au)
  then show ?thesis using bs(1) loop by (auto simp: enough_leader_support_def bc Let_def)
qed

subsection \<open>Decisions\<close>

text \<open>A committer of wave length three that has a leader in round \<open>r\<close>.\<close>

definition bc_leads :: "committee \<Rightarrow> base_committer \<Rightarrow> round \<Rightarrow> bool" where
  "bc_leads c bc r \<longleftrightarrow> bc_committee bc = c \<and> bo_wave_length (bc_options bc) = 3 \<and> bc_leader_round bc (bc_wave_number bc r) = r"

lemma bc_leads_decision: "bc_leads c bc r \<Longrightarrow> bc_decision_round bc (bc_wave_number bc r) = r + 2"
  by (auto simp: bc_leads_def bc_decision_round_def bc_leader_round_def Let_def)

definition candidate :: "dag_state \<Rightarrow> slot \<Rightarrow> verified_block \<Rightarrow> bool" where
  "candidate ds s l \<longleftrightarrow> ds_get_block ds (reference l) = Some l \<and> slot_from (reference l) = s"

lemma last_opt_short:
  assumes "\<not> length xs > 1"
  shows "last_opt xs = Some x \<longleftrightarrow> x \<in> set xs" and "last_opt xs = None \<longleftrightarrow> set xs = {}"
  using assms by (cases xs; cases "tl xs"; auto simp: last_opt_def)+

lemma filter_eq_single: "distinct xs \<Longrightarrow> x \<in> set xs \<Longrightarrow> filter (\<lambda>y. y = x) xs = [x]"
  by (induction xs) (auto simp: filter_empty_conv)

lemma at_most_one_length: "distinct xs \<Longrightarrow> (\<And>x y. x \<in> set xs \<Longrightarrow> y \<in> set xs \<Longrightarrow> x = y) \<Longrightarrow> \<not> length xs > 1"
proof
  assume d: "distinct xs" and eq: "\<And>x y. x \<in> set xs \<Longrightarrow> y \<in> set xs \<Longrightarrow> x = y" and l: "length xs > 1"
  from l have l0: "0 < length xs" by linarith
  then have "xs ! 0 = xs ! 1" using l by (intro eq nth_mem)
  then show False using nth_eq_iff_index_eq[OF d l0 l] by simp
qed

text \<open>The slots a committer may be asked about: above garbage collection, not below the last commit.\<close>

definition slot_open :: "dag_state \<Rightarrow> slot \<Rightarrow> bool" where
  "slot_open ds s \<longleftrightarrow> ds_gc_round ds < slot_round s \<and> ds_last_commit_round ds \<le> slot_round s"

fun direct_evidence :: "committee \<Rightarrow> dag_state \<Rightarrow> slot \<Rightarrow> leader_status \<Rightarrow> bool" where
  "direct_evidence c ds s (LSCommit l) \<longleftrightarrow> candidate ds s l \<and>
     unat (c_quorum_threshold c) \<le> set_stake c (certifiers c (ds_get_block ds) (reference l) (slot_round s + 2))"
| "direct_evidence c ds s (LSSkip s') \<longleftrightarrow> s' = s \<and>
     unat (c_quorum_threshold c) \<le> set_stake c (blamers (ds_get_block ds) (slot_authority s) (slot_round s + 1))"
| "direct_evidence c ds s (LSUndecided s') \<longleftrightarrow> s' = s"

lemma try_direct_decide_sound:
  assumes v: "view_ok c ds" and bc: "bc_leads c bc (slot_round s)" and s: "slot_open ds s"
    and uniq: "\<And>l l'. direct_evidence c ds s (LSCommit l) \<Longrightarrow> direct_evidence c ds s (LSCommit l') \<Longrightarrow> l = l'"
  shows "\<exists>st. try_direct_decide bc ds s = Some st \<and> direct_evidence c ds s st"
proof -
  let ?V = "ds_get_block ds" and ?ls = "ds_get_uncommitted_blocks_at_slot ds s"
  have bcc: "bc_committee bc = c" using bc by (simp add: bc_leads_def)
  have rs: "ds_last_commit_round ds < slot_round s + 1" "ds_last_commit_round ds < slot_round s + 2" "ds_gc_round ds < slot_round s"
    using s by (auto simp: slot_open_def)
  note blame = enough_leader_blame_iff[OF v bcc rs(1), of "slot_authority s"]
  note ls = blocks_at_slot[OF view_okD(1)[OF v] rs(3)]
  have sup: "\<exists>x. enough_leader_support bc ds (slot_round s + 2) l = Some x \<and> (x \<longrightarrow> direct_evidence c ds s (LSCommit l))"
    if "l \<in> set ?ls" for l
    using that ls(1) enough_leader_support_sound[OF v bcc rs(2), of l] by (auto simp: candidate_def)
  define q where "q l = the (enough_leader_support bc ds (slot_round s + 2) l)" for l
  have q: "enough_leader_support bc ds (slot_round s + 2) l = Some (q l)" "q l \<Longrightarrow> direct_evidence c ds s (LSCommit l)"
    if "l \<in> set ?ls" for l using sup[OF that] by (auto simp: q_def)
  have short: "\<not> length (filter q ?ls) > 1"
    by (rule at_most_one_length) (use ls(2) q(2) uniq in auto)
  have dec: "filterM (enough_leader_support bc ds (slot_round s + 2)) ?ls = Some (filter q ?ls)"
    by (rule filterM_total) (rule q(1))
  show ?thesis
  proof (cases "unat (c_quorum_threshold c) \<le> set_stake c (blamers ?V (slot_authority s) (slot_round s + 1))")
    case True
    then show ?thesis using blame by (simp add: try_direct_decide_def)
  next
    case False
    then have "try_direct_decide bc ds s =
        Some (case last_opt (filter q ?ls) of Some l \<Rightarrow> LSCommit l | None \<Rightarrow> LSUndecided s)"
      using blame dec short by (simp add: try_direct_decide_def bc_leads_decision[OF bc] assert_that_bind del: One_nat_def)
    moreover have "direct_evidence c ds s (case last_opt (filter q ?ls) of Some l \<Rightarrow> LSCommit l | None \<Rightarrow> LSUndecided s)"
      using last_opt_short(1)[OF short] q(2) by (cases "last_opt (filter q ?ls)") auto
    ultimately show ?thesis by blast
  qed
qed

text \<open>The leader blocks with a certificate in the causal history of an anchor.\<close>

definition certified_from :: "committee \<Rightarrow> dag_state \<Rightarrow> verified_block \<Rightarrow> slot \<Rightarrow> verified_block \<Rightarrow> bool" where
  "certified_from c ds anchor s l \<longleftrightarrow> candidate ds s l \<and>
     (\<exists>p. ds_get_block ds (reference p) = Some p \<and> vb_round p = slot_round s + 2 \<and>
        (ds_parent ds)\<^sup>+\<^sup>+ (reference anchor) (reference p) \<and> certifies c (ds_get_block ds) (reference l) p)"

fun anchor_evidence :: "committee \<Rightarrow> dag_state \<Rightarrow> verified_block \<Rightarrow> slot \<Rightarrow> leader_status \<Rightarrow> bool" where
  "anchor_evidence c ds anchor s (LSCommit l) \<longleftrightarrow> certified_from c ds anchor s l"
| "anchor_evidence c ds anchor s (LSSkip s') \<longleftrightarrow> s' = s \<and> (\<forall>l. \<not> certified_from c ds anchor s l)"
| "anchor_evidence c ds anchor s (LSUndecided s') \<longleftrightarrow> False"

lemma decide_leader_from_anchor_sound:
  assumes v: "view_ok c ds" and bc: "bc_leads c bc (slot_round s)" and s: "ds_gc_round ds < slot_round s"
    and a: "ds_get_block ds (reference anchor) = Some anchor"
    and uniq: "\<And>l l'. certified_from c ds anchor s l \<Longrightarrow> certified_from c ds anchor s l' \<Longrightarrow> l = l'"
  shows "\<exists>st. decide_leader_from_anchor bc ds anchor s = Some st \<and> anchor_evidence c ds anchor s st"
proof -
  let ?ls = "ds_get_uncommitted_blocks_at_slot ds s" and ?P = "\<lambda>l. certified_from c ds anchor s l"
  have bcc: "bc_committee bc = c" using bc by (simp add: bc_leads_def)
  note ls = blocks_at_slot[OF view_okD(1)[OF v] s]
  from s have "ds_gc_round ds < slot_round s + 2" by simp
  from ds_ancestors_at_round_spec[OF view_okD(1,2)[OF v] this a] obtain ps where
    ps: "ds_ancestors_at_round ds anchor (slot_round s + 2) = Some ps" "\<forall>x\<in>set ps. ds_get_block ds (reference x) = Some x"
      "reference ` set ps = {y. br_round y = slot_round s + 2 \<and> (ds_parent ds)\<^sup>+\<^sup>+ (reference anchor) y}" by blast
  have mem: "p \<in> set ps \<longleftrightarrow> ds_get_block ds (reference p) = Some p \<and> vb_round p = slot_round s + 2 \<and>
      (ds_parent ds)\<^sup>+\<^sup>+ (reference anchor) (reference p)" for p
  proof
    assume p: "p \<in> set ps"
    then have "reference p \<in> {y. br_round y = slot_round s + 2 \<and> (ds_parent ds)\<^sup>+\<^sup>+ (reference anchor) y}"
      unfolding ps(3)[symmetric] by blast
    then show "ds_get_block ds (reference p) = Some p \<and> vb_round p = slot_round s + 2 \<and>
      (ds_parent ds)\<^sup>+\<^sup>+ (reference anchor) (reference p)" using ps(2) p by simp
  next
    assume p: "ds_get_block ds (reference p) = Some p \<and> vb_round p = slot_round s + 2 \<and>
      (ds_parent ds)\<^sup>+\<^sup>+ (reference anchor) (reference p)"
    then have "reference p \<in> reference ` set ps" unfolding ps(3) by simp
    then obtain x where "x \<in> set ps" "reference x = reference p" by auto
    with ps(2) p show "p \<in> set ps" by auto
  qed
  have "any_certificate bc ds l ps fmempty = Some (?P l)" if l: "l \<in> set ?ls" for l
  proof -
    have "candidate ds s l" using l ls(1) by (simp add: candidate_def)
    moreover from this have "vb_round l = slot_round s" by (auto simp: candidate_def)
    ultimately show ?thesis
      using any_certificate_iff[OF v bcc, of ps l fmempty] mem by (auto simp: certified_from_def)
  qed
  then have dec: "filterM (\<lambda>l. any_certificate bc ds l ps fmempty) ?ls = Some (filter ?P ?ls)" by (rule filterM_total)
  have set: "set (filter ?P ?ls) = {l. ?P l}" using ls(1) by (auto simp: certified_from_def candidate_def)
  have short: "\<not> length (filter ?P ?ls) > 1"
    by (rule at_most_one_length) (use ls(2) uniq in auto)
  have "decide_leader_from_anchor bc ds anchor s =
      Some (case last_opt (filter ?P ?ls) of Some l \<Rightarrow> LSCommit l | None \<Rightarrow> LSSkip s)"
    using ps(1) dec short by (simp add: decide_leader_from_anchor_def bc_leads_decision[OF bc] assert_that_bind del: One_nat_def)
  moreover have "anchor_evidence c ds anchor s (case last_opt (filter ?P ?ls) of Some l \<Rightarrow> LSCommit l | None \<Rightarrow> LSSkip s)"
    using last_opt_short[OF short] set by (cases "last_opt (filter ?P ?ls)") auto
  ultimately show ?thesis by blast
qed

text \<open>
  The direct rule is complete as long as the sum of the stakes of the decision blocks, which an
  equivocating author contributes to more than once, fits into 64 bits.
\<close>

definition round_stake :: "committee \<Rightarrow> dag_state \<Rightarrow> round \<Rightarrow> nat" where
  "round_stake c ds r = sum (\<lambda>b. stake_of c (vb_author b)) {b. ds_get_block ds (reference b) = Some b \<and> vb_round b = r}"

lemma enough_leader_support_complete:
  assumes v: "view_ok c ds" and bc: "bc_committee bc = c" and r: "ds_last_commit_round ds < r" "r \<le> vb_round l + 2"
    and fits: "round_stake c ds r < 2 ^ 64"
    and q: "unat (c_quorum_threshold c) \<le> set_stake c (certifiers c (ds_get_block ds) (reference l) r)"
  shows "enough_leader_support bc ds r l = Some True"
proof -
  note wf = view_okD(4)[OF v]
  let ?B = "{b. ds_get_block ds (reference b) = Some b \<and> vb_round b = r}"
  from blocks_at_round[OF view_okD(1)[OF v] r(1)] obtain bs where
    bs: "ds_get_uncommitted_blocks_at_round ds r = Some bs" "distinct bs" "set bs = ?B" by blast
  have au: "vb_author b < committee_size c" if "b \<in> set bs" for b
    using that bs(3) r view_ok_author[OF v, of "reference b" b] by auto
  let ?vs = "map vb_author (filter (certifies c (ds_get_block ds) (reference l)) bs)"
  have sub: "set ?vs \<subseteq> members c" using au by (auto simp: members_def)
  have vs: "set ?vs = certifiers c (ds_get_block ds) (reference l) r" using bs(3) by (auto simp: certifiers_def)
  have "support_loop bc ds l bs sa_new fmempty = sa_add_until QuorumThreshold c ?vs sa_new"
    by (rule support_loop_eq[OF v bc]) (use bs(3) r in auto)
  also have "\<dots> = Some True"
    using sa_add_until_eq[OF wf sub sa_inv_new quorum_not_reached_new[OF wf]] sa_feed_reached[OF wf sub, of QuorumThreshold] q vs by simp
  finally have loop: "support_loop bc ds l bs sa_new fmempty = Some True" .
  let ?st = "map (\<lambda>b. a_stake (c_authorities c ! vb_author b)) bs"
  have "sum_list (map unat ?st) = sum_list (map (\<lambda>b. stake_of c (vb_author b)) bs)"
    by (rule arg_cong[where f = sum_list]) (simp add: au stake_of_def)
  also have "\<dots> = round_stake c ds r" using bs(2,3) by (simp add: sum_list_distinct_conv_sum_set round_stake_def)
  finally have sum: "unat (sum_list ?st) = round_stake c ds r" using unat_sum_list[of ?st] fits by simp
  have fin: "finite ?B" unfolding bs(3)[symmetric] by simp
  have "set_stake c (set ?vs) \<le> sum (stake_of c) (vb_author ` ?B)"
    unfolding set_stake_def by (rule sum_mono2) (use bs(3) fin in auto)
  also have "\<dots> \<le> round_stake c ds r" using sum_image_le[OF fin, of "stake_of c" vb_author] by (simp add: round_stake_def comp_def)
  finally have "reached_quorum c (sum_list ?st)" using q vs sum by (simp add: reached_quorum_def word_le_nat_alt)
  moreover have "mapM (\<lambda>b. committee_stake c (vb_author b)) bs = Some ?st" by (rule mapM_total) (simp add: au)
  ultimately show ?thesis using bs(1) loop by (simp add: enough_leader_support_def bc Let_def)
qed

end
