(* ===== verification/Universal_Committer.thy ===== *)
theory Universal_Committer
  imports Commit_Rule
begin

text \<open>
  Deciding a sequence of leaders (\<^verbatim>\<open>consensus/core/src/universal_committer.rs\<close>): the committers of
  the waves of a pipeline, the loop over rounds from the highest one down, and the decided prefix.
  The loop is shown to be a run over the list of slots to decide, highest first.
\<close>

subsection \<open>Operations\<close>

record universal_committer =
  uc_context :: consensus_context
  uc_committers :: "base_committer list"

text \<open>
  The inner loop over the committers of a round, given in the order of the iteration. The result
  carries whether the loop reached the last decided slot and leaves the outer one.
\<close>

fun decide_committers ::
  "rng \<Rightarrow> dag_state \<Rightarrow> slot \<Rightarrow> round \<Rightarrow> base_committer list \<Rightarrow> (leader_status \<times> decision) list \<Rightarrow>
   ((leader_status \<times> decision) list \<times> bool) option" where
  "decide_committers rg ds last_decided r [] leaders = Some (leaders, False)"
| "decide_committers rg ds last_decided r (bc # bcs) leaders = do {
     elected \<leftarrow> bc_elect_leader rg bc r;
     (case elected of
        None \<Rightarrow> decide_committers rg ds last_decided r bcs leaders
      | Some s \<Rightarrow>
        if s = last_decided then Some (leaders, True)
        else do {
          status \<leftarrow> try_direct_decide bc ds s;
          if is_decided status then decide_committers rg ds last_decided r bcs ((status, Direct) # leaders)
          else do {
            status \<leftarrow> try_indirect_decide bc ds s (map fst leaders);
            decide_committers rg ds last_decided r bcs ((status, Indirect) # leaders)
          }
        })
   }"

fun decide_rounds ::
  "rng \<Rightarrow> dag_state \<Rightarrow> slot \<Rightarrow> base_committer list \<Rightarrow> round list \<Rightarrow> (leader_status \<times> decision) list \<Rightarrow>
   (leader_status \<times> decision) list option" where
  "decide_rounds rg ds last_decided bcs [] leaders = Some leaders"
| "decide_rounds rg ds last_decided bcs (r # rs) leaders = do {
     (leaders, stop) \<leftarrow> decide_committers rg ds last_decided r (rev bcs) leaders;
     if stop then Some leaders else decide_rounds rg ds last_decided bcs rs leaders
   }"

text \<open>The longest decided prefix; the metrics of a decided leader look up its host.\<close>

fun decided_prefix :: "committee \<Rightarrow> (leader_status \<times> decision) list \<Rightarrow> decided_leader list option" where
  "decided_prefix c [] = Some []"
| "decided_prefix c ((leader, decision) # rest) =
     (if status_round leader = GENESIS_ROUND then decided_prefix c rest
      else (case into_decided_leader leader (decision = Direct) of
          None \<Rightarrow> Some []
        | Some d \<Rightarrow> do {
            _ \<leftarrow> committee_authority c (slot_authority (decided_slot d));
            ds \<leftarrow> decided_prefix c rest;
            Some (d # ds)
          }))"

definition first_round :: "consensus_context \<Rightarrow> slot \<Rightarrow> round" where
  "first_round ctx last_decided =
     (if pc_num_leaders_per_round (cx_protocol_config ctx) = Some 1 then slot_round last_decided + 1
      else slot_round last_decided)"

definition try_decide :: "rng \<Rightarrow> universal_committer \<Rightarrow> dag_state \<Rightarrow> slot \<Rightarrow> decided_leader list option" where
  "try_decide rg uc ds last_decided = do {
     let highest_accepted_round = ds_highest_accepted_round ds;
     let last_round = first_round (uc_context uc) last_decided;
     leaders \<leftarrow> decide_rounds rg ds last_decided (uc_committers uc)
       (rev [last_round..<Suc (highest_accepted_round - 2)]) [];
     decided_prefix (cx_committee (uc_context uc)) leaders
   }"

definition get_leaders :: "rng \<Rightarrow> universal_committer \<Rightarrow> round \<Rightarrow> authority_index list option" where
  "get_leaders rg uc r = do {
     elected \<leftarrow> mapM (\<lambda>bc. bc_elect_leader rg bc r) (uc_committers uc);
     Some (map slot_authority (List.map_filter id elected))
   }"

definition uc_build :: "consensus_context \<Rightarrow> leader_schedule \<Rightarrow> round \<Rightarrow> nat \<Rightarrow> bool \<Rightarrow> universal_committer" where
  "uc_build ctx ls wave_length number_of_leaders pipeline =
     (let pipeline_stages = (if pipeline then wave_length else 1)
      in \<lparr>uc_context = ctx,
          uc_committers = concat (map (\<lambda>round_offset. map (\<lambda>leader_offset.
            base_committer_new ctx ls \<lparr>bo_wave_length = wave_length, bo_leader_offset = leader_offset,
              bo_round_offset = round_offset\<rparr>) [0..<number_of_leaders]) [0..<pipeline_stages])\<rparr>)"

subsection \<open>The loop as a run over slots\<close>

fun decide_slots ::
  "dag_state \<Rightarrow> (base_committer \<times> slot) list \<Rightarrow> (leader_status \<times> decision) list \<Rightarrow> (leader_status \<times> decision) list option" where
  "decide_slots ds [] leaders = Some leaders"
| "decide_slots ds ((bc, s) # rest) leaders = do {
     status \<leftarrow> try_direct_decide bc ds s;
     if is_decided status then decide_slots ds rest ((status, Direct) # leaders)
     else do {
       status \<leftarrow> try_indirect_decide bc ds s (map fst leaders);
       decide_slots ds rest ((status, Indirect) # leaders)
     }
   }"

lemma decide_slots_append:
  "decide_slots ds (xs @ ys) leaders = Option.bind (decide_slots ds xs leaders) (decide_slots ds ys)"
proof (induction xs arbitrary: leaders)
  case (Cons x xs)
  obtain bc s where x: "x = (bc, s)" by (cases x)
  show ?case unfolding x by (simp add: Cons.IH Option.bind_assoc if_distrib[of "\<lambda>m. Option.bind m _"] cong: if_cong)
qed simp

text \<open>The committers that have a leader in a round, with their slots, when the election returns.\<close>

definition has_leader :: "base_committer \<Rightarrow> round \<Rightarrow> bool" where
  "has_leader bc r \<longleftrightarrow> bc_leader_round bc (bc_wave_number bc r) = r"

definition elected_slot :: "rng \<Rightarrow> base_committer \<Rightarrow> round \<Rightarrow> slot" where
  "elected_slot rg bc r = Slot r (the (elect_leader rg (bc_leader_schedule bc) r (bo_leader_offset (bc_options bc))))"

definition election_ok :: "rng \<Rightarrow> base_committer \<Rightarrow> bool" where
  "election_ok rg bc \<longleftrightarrow> (\<forall>r. \<exists>a. elect_leader rg (bc_leader_schedule bc) r (bo_leader_offset (bc_options bc)) = Some a \<and>
     is_valid_index (bc_committee bc) a)"

lemma elected_slot_valid:
  assumes "election_ok rg bc"
  shows "slot_round (elected_slot rg bc r) = r" and "slot_authority (elected_slot rg bc r) < committee_size (bc_committee bc)"
proof -
  from assms obtain a where "elect_leader rg (bc_leader_schedule bc) r (bo_leader_offset (bc_options bc)) = Some a"
    "is_valid_index (bc_committee bc) a" unfolding election_ok_def by blast
  then show "slot_round (elected_slot rg bc r) = r" "slot_authority (elected_slot rg bc r) < committee_size (bc_committee bc)"
    by (simp_all add: elected_slot_def is_valid_index_def)
qed

lemma bc_elect_leader_eq:
  assumes "election_ok rg bc"
  shows "bc_elect_leader rg bc r = Some (if has_leader bc r then Some (elected_slot rg bc r) else None)"
proof -
  from assms obtain a where "elect_leader rg (bc_leader_schedule bc) r (bo_leader_offset (bc_options bc)) = Some a"
    unfolding election_ok_def by blast
  then show ?thesis by (simp add: bc_elect_leader_def has_leader_def elected_slot_def)
qed

definition round_slots :: "rng \<Rightarrow> base_committer list \<Rightarrow> round \<Rightarrow> (base_committer \<times> slot) list" where
  "round_slots rg bcs r = map (\<lambda>bc. (bc, elected_slot rg bc r)) (filter (\<lambda>bc. has_leader bc r) bcs)"

lemma decide_committers_eq:
  assumes "\<forall>bc\<in>set bcs. election_ok rg bc"
  shows "decide_committers rg ds last_decided r bcs leaders =
    (let xs = round_slots rg bcs r in
     Option.bind (decide_slots ds (takeWhile (\<lambda>e. snd e \<noteq> last_decided) xs) leaders)
       (\<lambda>leaders. Some (leaders, \<exists>e\<in>set xs. snd e = last_decided)))"
  using assms
proof (induction bcs arbitrary: leaders)
  case (Cons bc bcs)
  have e: "bc_elect_leader rg bc r = Some (if has_leader bc r then Some (elected_slot rg bc r) else None)"
    using Cons.prems by (simp add: bc_elect_leader_eq)
  have IH: "decide_committers rg ds last_decided r bcs ls =
    Option.bind (decide_slots ds (takeWhile (\<lambda>e. snd e \<noteq> last_decided) (round_slots rg bcs r)) ls)
       (\<lambda>leaders. Some (leaders, \<exists>e\<in>set (round_slots rg bcs r). snd e = last_decided))" for ls
    using Cons.IH[of ls] Cons.prems by (simp add: Let_def)
  consider "\<not> has_leader bc r" | "has_leader bc r" "elected_slot rg bc r = last_decided"
    | "has_leader bc r" "elected_slot rg bc r \<noteq> last_decided" by blast
  then show ?case
  proof cases
    case 3
    then show ?thesis
      unfolding decide_committers.simps e
      by (simp add: IH round_slots_def Option.bind_assoc if_distrib[of "\<lambda>m. Option.bind m _"] cong: if_cong)
  qed (simp_all add: e IH round_slots_def)
qed (simp add: round_slots_def)

definition pending_slots :: "rng \<Rightarrow> base_committer list \<Rightarrow> slot \<Rightarrow> round list \<Rightarrow> (base_committer \<times> slot) list" where
  "pending_slots rg bcs last_decided rs =
     takeWhile (\<lambda>e. snd e \<noteq> last_decided) (concat (map (round_slots rg (rev bcs)) rs))"

lemma takeWhile_append_if:
  "takeWhile P (xs @ ys) = (if \<forall>x\<in>set xs. P x then xs @ takeWhile P ys else takeWhile P xs)"
  by (induction xs) auto

lemma decide_rounds_eq:
  assumes "\<forall>bc\<in>set bcs. election_ok rg bc"
  shows "decide_rounds rg ds last_decided bcs rs leaders = decide_slots ds (pending_slots rg bcs last_decided rs) leaders"
proof (induction rs arbitrary: leaders)
  case Nil
  then show ?case by (simp add: pending_slots_def)
next
  case (Cons r rs)
  let ?xs = "round_slots rg (rev bcs) r"
  have c: "decide_committers rg ds last_decided r (rev bcs) leaders =
     Option.bind (decide_slots ds (takeWhile (\<lambda>e. snd e \<noteq> last_decided) ?xs) leaders)
       (\<lambda>leaders. Some (leaders, \<exists>e\<in>set ?xs. snd e = last_decided))"
    using decide_committers_eq[of "rev bcs" rg ds last_decided r leaders] assms by (simp add: Let_def)
  show ?case
  proof (cases "\<forall>e\<in>set ?xs. snd e \<noteq> last_decided")
    case True
    then have t: "takeWhile (\<lambda>e. snd e \<noteq> last_decided) ?xs = ?xs" by (simp add: takeWhile_eq_all_conv)
    have "pending_slots rg bcs last_decided (r # rs) = ?xs @ pending_slots rg bcs last_decided rs"
      using True by (simp add: pending_slots_def takeWhile_append_if)
    moreover have "\<not> (\<exists>e\<in>set ?xs. snd e = last_decided)" using True by blast
    ultimately show ?thesis using c unfolding t by (simp add: decide_slots_append Option.bind_assoc Cons.IH)
  next
    case False
    then have "pending_slots rg bcs last_decided (r # rs) = takeWhile (\<lambda>e. snd e \<noteq> last_decided) ?xs"
      by (auto simp: pending_slots_def takeWhile_append_if)
    moreover have "\<exists>e\<in>set ?xs. snd e = last_decided" using False by blast
    ultimately show ?thesis using c by (simp add: Option.bind_assoc)
  qed
qed

end
