(* ===== verification/Sample_Dag.thy ===== *)
theory Sample_Dag
  imports Commit_Rule
begin

text \<open>
  A family of concrete views: the four-member committee, every authority proposing one block per
  round that links to all blocks of the round before, accepted up to a given round.
\<close>

definition sample_ref :: "round \<Rightarrow> authority_index \<Rightarrow> block_ref" where
  "sample_ref r a = BlockRef r a (if r = 0 then 0 else 1)"

text \<open>An author links to its own previous block first.\<close>

definition sample_links :: "round \<Rightarrow> authority_index \<Rightarrow> block_ref list" where
  "sample_links r a = map (sample_ref (r - 1)) (a # filter (\<lambda>x. x \<noteq> a) [0, 1, 2, 3])"

definition sample_layer_block :: "round \<Rightarrow> authority_index \<Rightarrow> verified_block" where
  "sample_layer_block r a = sample_vb r a 1 (10 * r) (sample_links r a)"

definition sample_layers :: "nat \<Rightarrow> verified_block list" where
  "sample_layers n = concat (map (\<lambda>r. map (sample_layer_block r) [0, 1, 2, 3]) [1..<Suc n])"

definition sample_view :: "nat \<Rightarrow> dag_state" where
  "sample_view n = the (ds_accept_blocks 0 (sample_layers n) sample_dag)"

text \<open>The whole infinite DAG the views are taken from.\<close>

definition sample_universe :: "block_ref \<Rightarrow> verified_block option" where
  "sample_universe r =
     (if br_author r < 4 \<and> r = sample_ref (br_round r) (br_author r)
      then Some (if br_round r = 0 then sample_genesis (br_author r) else sample_layer_block (br_round r) (br_author r))
      else None)"

lemma sample_layer_block_sel [simp]:
  "vb_round (sample_layer_block r a) = r" "vb_author (sample_layer_block r a) = a"
  "vb_ancestors (sample_layer_block r a) = sample_links r a" "vb_timestamp_ms (sample_layer_block r a) = 10 * r"
  by (simp_all add: sample_layer_block_def)

lemma sample_layer_block_ref: "0 < r \<Longrightarrow> reference (sample_layer_block r a) = sample_ref r a"
  by (simp add: sample_layer_block_def sample_ref_def)

lemma sample_layer_block_slot [simp]: "slot_from (reference (sample_layer_block r a)) = Slot r a"
  by (simp add: slot_from_def)

lemma sample_ref_sel [simp]: "br_round (sample_ref r a) = r" "br_author (sample_ref r a) = a"
  by (simp_all add: sample_ref_def)

lemma four: "x < 4 \<longleftrightarrow> x = 0 \<or> x = 1 \<or> x = 2 \<or> x = (3 :: nat)"
  by auto

lemma set_sample_links: "a < 4 \<Longrightarrow> set (sample_links r a) = sample_ref (r - 1) ` {..<4}"
  unfolding sample_links_def by (auto simp: four lessThan_def)

lemma set_sample_layers: "b \<in> set (sample_layers n) \<longleftrightarrow> (\<exists>r a. 0 < r \<and> r \<le> n \<and> a < 4 \<and> b = sample_layer_block r a)"
  by (auto simp: sample_layers_def four less_Suc_eq_le Suc_le_eq simp del: upt_Suc)

lemma distinct_sample_layers: "distinct (map (slot_from \<circ> reference) (sample_layers n))"
  by (induction n) (auto simp: sample_layers_def)

lemma find_sample_layers:
  "find (\<lambda>b. reference b = r) (sample_layers n) =
     (if 0 < br_round r \<and> br_round r \<le> n then sample_universe r else None)"
proof (cases "0 < br_round r \<and> br_round r \<le> n \<and> br_author r < 4 \<and> r = sample_ref (br_round r) (br_author r)")
  case True
  let ?b = "sample_layer_block (br_round r) (br_author r)"
  have "?b \<in> set (sample_layers n)" using True by (auto simp: set_sample_layers)
  moreover have "reference ?b = r" using True sample_layer_block_ref by simp
  ultimately have "find (\<lambda>b. reference b = r) (sample_layers n) = Some ?b"
    by (intro find_distinct[OF distinct_sample_layers]) auto
  then show ?thesis using True by (simp add: sample_universe_def)
next
  case False
  have "reference b \<noteq> r" if "b \<in> set (sample_layers n)" for b
  proof -
    from that obtain r' a where "0 < r'" "r' \<le> n" "a < 4" "b = sample_layer_block r' a" by (auto simp: set_sample_layers)
    then show ?thesis using False sample_layer_block_ref[of r' a] by auto
  qed
  then have "find (\<lambda>b. reference b = r) (sample_layers n) = None" by (auto simp: find_None_iff)
  then show ?thesis using False by (auto simp: sample_universe_def)
qed

lemma sample_dag_genesis: "br_round r = 0 \<Longrightarrow> ds_get_block sample_dag r = sample_universe r"
proof -
  assume r: "br_round r = 0"
  have ref: "reference (sample_genesis a) = sample_ref 0 a" for a
    by (simp add: sample_genesis_def reference_def vb_round_def vb_author_def new_verified_def new_genesis_def
        genesis_block_v2_def GENESIS_ROUND_def sample_ref_def sample_crypto_def)
  have "fmlookup (genesis_map (map sample_genesis [0, 1, 2, 3])) r =
      (if r = sample_ref 0 3 then Some (sample_genesis 3) else if r = sample_ref 0 2 then Some (sample_genesis 2)
       else if r = sample_ref 0 1 then Some (sample_genesis 1) else if r = sample_ref 0 0 then Some (sample_genesis 0) else None)"
    by (simp add: genesis_map_def ref)
  then show ?thesis using r
    by (cases r) (auto simp: ds_get_block_eq GENESIS_ROUND_def sample_dag_def ds_fresh_def sample_universe_def four sample_ref_def)
qed

lemma sample_view_ok:
  shows "ds_accept_blocks 0 (sample_layers n) sample_dag = Some (sample_view n)"
    and "ds_inv (sample_view n)" and "ds_context (sample_view n) = sample_context" and "ds_last_commit (sample_view n) = None"
    and "ds_get_block (sample_view n) r = (if br_round r \<le> n then sample_universe r else None)"
proof -
  have "\<not> pc_enable_v3 (cx_protocol_config (ds_context sample_dag))" by (simp add: sample_context_def)
  moreover have "\<forall>b\<in>set (sample_layers n). vb_author b < ds_size sample_dag \<and> 0 < vb_round b \<and>
      (\<forall>r. slot_from r = slot_from (reference b) \<longrightarrow> ds_get_block sample_dag r = None)"
    by (auto simp: set_sample_layers sample_dag_get slot_from_def)
  ultimately have "\<exists>ds'. ds_accept_blocks 0 (sample_layers n) sample_dag = Some ds' \<and> ds_inv ds' \<and> ds_context ds' = sample_context \<and>
      ds_last_commit ds' = None \<and>
      ds_get_block ds' = (\<lambda>r. case find (\<lambda>b. reference b = r) (sample_layers n) of Some b \<Rightarrow> Some b | None \<Rightarrow> ds_get_block sample_dag r)"
    using ds_accept_blocks_fresh[OF sample_dag_inv _ _ distinct_sample_layers[of n], of 0] by simp
  then obtain ds' where ds': "ds_accept_blocks 0 (sample_layers n) sample_dag = Some ds'" "ds_inv ds'" "ds_context ds' = sample_context"
      "ds_last_commit ds' = None"
      "ds_get_block ds' = (\<lambda>r. case find (\<lambda>b. reference b = r) (sample_layers n) of Some b \<Rightarrow> Some b | None \<Rightarrow> ds_get_block sample_dag r)"
    by blast
  then have v: "sample_view n = ds'" by (simp add: sample_view_def)
  show "ds_accept_blocks 0 (sample_layers n) sample_dag = Some (sample_view n)" "ds_inv (sample_view n)"
    "ds_context (sample_view n) = sample_context" "ds_last_commit (sample_view n) = None"
    using ds' v by simp_all
  show "ds_get_block (sample_view n) r = (if br_round r \<le> n then sample_universe r else None)"
    unfolding v ds'(5) find_sample_layers using sample_dag_genesis[of r] sample_dag_get[of r]
    by (cases "br_round r = 0") (auto split: option.splits)
qed

lemma sample_view_gc [simp]: "ds_gc_round (sample_view n) = 0" "ds_last_commit_round (sample_view n) = 0"
  by (simp_all add: ds_gc_round_def ds_calculate_gc_round_def ds_last_commit_round_def sample_view_ok(4))

lemma sample_quorum: "unat (c_quorum_threshold committee4) = 3" "set_stake committee4 {..<4} = 4"
  by (simp add: committee4_def) (simp add: committee4_set_stake)

lemma sample_universe_ancestors:
  assumes "sample_universe r = Some b" and "0 < br_round r"
  shows "b = sample_layer_block (br_round r) (br_author r)" and "vb_ancestors b = sample_links (br_round r) (br_author r)" and "br_author r < 4"
  using assms by (auto simp: sample_universe_def split: if_splits)

lemma sample_links_wf: "a < 4 \<Longrightarrow> 0 < r \<Longrightarrow> ancestors_wf committee4 a r (sample_links r a)"
proof -
  assume a: "a < 4" and r: "0 < r"
  have "distinct (map br_author (sample_links r a))" by (simp add: sample_links_def comp_def)
  moreover have "br_author ` {x \<in> set (sample_links r a). br_round x = r - 1} = {..<4}"
    using a by (force simp: set_sample_links)
  ultimately show ?thesis
    using a r sample_quorum by (auto simp: ancestors_wf_def set_sample_links is_valid_index_def)
qed

lemma sample_view_view_ok: "view_ok committee4 (sample_view n)"
proof -
  have "ds_complete (sample_view n)"
    unfolding ds_complete_def
  proof (intro allI impI)
    fix r a assume p: "ds_parent (sample_view n) r a"
    then obtain b where b: "sample_universe r = Some b" "br_round r \<le> n" "a \<in> set (vb_ancestors b)"
      by (auto simp: ds_parent_def sample_view_ok(5) split: if_splits)
    have "0 < br_round r"
    proof (rule ccontr)
      assume "\<not> 0 < br_round r"
      then have "b = sample_genesis (br_author r)" using b(1) by (auto simp: sample_universe_def split: if_splits)
      then show False using b(3)
        by (simp add: sample_genesis_def vb_ancestors_def new_verified_def new_genesis_def genesis_block_v2_def)
    qed
    from sample_universe_ancestors[OF b(1) this] b(3) obtain x where "a = sample_ref (br_round r - 1) x" "x < 4"
      by (auto simp: set_sample_links)
    then show "br_round a < br_round r \<and> (ds_gc_round (sample_view n) < br_round a \<longrightarrow> ds_get_block (sample_view n) a \<noteq> None)"
      using \<open>0 < br_round r\<close> b(2) by (auto simp: sample_view_ok(5) sample_universe_def)
  qed
  moreover have "ds_verified (sample_view n)"
    unfolding ds_verified_def sample_view_ok(3,5) sample_context_simps
    using sample_universe_ancestors sample_links_wf by (auto split: if_splits)
  ultimately show ?thesis by (simp add: view_ok_def sample_view_ok(2,3))
qed

end
