(* ===== verification/Commit_Safety.thy ===== *)
theory Commit_Safety
  imports Universal_Committer Sample_Dag "HOL-Library.Sublist"
begin

text \<open>
  Agreement of the commit rule. Two authorities hold views of one DAG in which authorities
  outside a set of faulty ones, whose stake is within the fault budget, produce one block per round. Their
  committers never panic and the leaders they decide are consistent: one sequence is a prefix of the other.
\<close>

subsection \<open>The common DAG\<close>

text \<open>
  All blocks of an epoch by reference: a reference carries the digest of its block, so it names one
  block; authorities outside \<open>F\<close> do not equivocate.
\<close>

definition honest_dag :: "committee \<Rightarrow> authority_index set \<Rightarrow> (block_ref \<Rightarrow> verified_block option) \<Rightarrow> bool" where
  "honest_dag c F U \<longleftrightarrow> set_stake c F \<le> fault_budget c \<and>
     (\<forall>r b. U r = Some b \<longrightarrow> reference b = r) \<and>
     (\<forall>r r'. U r \<noteq> None \<longrightarrow> U r' \<noteq> None \<longrightarrow> slot_from r = slot_from r' \<longrightarrow> br_author r \<notin> F \<longrightarrow> r = r')"

definition view_of :: "committee \<Rightarrow> (block_ref \<Rightarrow> verified_block option) \<Rightarrow> dag_state \<Rightarrow> bool" where
  "view_of c U ds \<longleftrightarrow> view_ok c ds \<and> ds_get_block ds \<subseteq>\<^sub>m U"

lemma view_ofD: "view_of c U ds \<Longrightarrow> view_ok c ds" "view_of c U ds \<Longrightarrow> ds_get_block ds r = Some b \<Longrightarrow> U r = Some b"
  by (auto simp: view_of_def map_le_def dom_def)

lemma honest_unique:
  assumes "honest_dag c F U" and "U r = Some b" and "U r' = Some b'"
    and "br_author r = br_author r'" and "br_round r = br_round r'" and "br_author r \<notin> F"
  shows "r = r'" and "b = b'"
proof -
  show "r = r'" using assms by (auto simp: honest_dag_def slot_from_def)
  with assms(2,3) show "b = b'" by simp
qed

lemma quorums_share_honest:
  assumes "committee_wf c" and "honest_dag c F U"
    and "unat (c_quorum_threshold c) \<le> set_stake c A" and "unat (c_quorum_threshold c) \<le> set_stake c B"
  shows "\<exists>a. a \<in> A \<and> a \<in> B \<and> a \<notin> F"
  using committee_quorums.common_correct[OF assms(1,3,4)] assms(2) by (simp add: honest_dag_def)

lemma quorum_nonempty: "committee_wf c \<Longrightarrow> unat (c_quorum_threshold c) \<le> set_stake c A \<Longrightarrow> A \<noteq> {}"
  by (auto simp: committee_wf_def)

lemma same_content:
  assumes "view_of c U ds" and "view_of c U ds'" and "ds_get_block ds r = Some b" and "ds_get_block ds' r \<noteq> None"
  shows "ds_get_block ds' r = Some b"
proof -
  from assms(4) obtain b' where b': "ds_get_block ds' r = Some b'" by auto
  with view_ofD(2)[OF assms(1,3)] view_ofD(2)[OF assms(2) b'] show ?thesis by simp
qed

subsection \<open>Votes and certificates across views\<close>

lemma vote_of_certificate:
  assumes v: "view_ok c ds" and p: "ds_get_block ds (reference p) = Some p" "vb_round p = br_round l + 2"
    and a: "a \<in> vote_authors (ds_get_block ds) l p"
  shows "\<exists>r b. r \<in> set (vb_ancestors p) \<and> ds_get_block ds r = Some b \<and> l \<in> set (vb_ancestors b) \<and>
    br_author r = a \<and> br_round r = br_round l + 1"
proof -
  from a obtain r b where r: "r \<in> set (vb_ancestors p)" "ds_get_block ds r = Some b" "l \<in> set (vb_ancestors b)" "br_author r = a"
    by (auto simp: vote_authors_def votes_for_def)
  have "br_round r < vb_round p" using view_ok_round(1)[OF v p(1) r(1)] by simp
  moreover have "br_round l < br_round r" using view_ok_round(1)[OF v r(2,3)] .
  ultimately have "br_round r = br_round l + 1" using p(2) by linarith
  with r show ?thesis by blast
qed

lemma certified_unique:
  assumes hd: "honest_dag c F U" and v: "view_of c U ds" and v': "view_of c U ds'"
    and p: "ds_get_block ds (reference p) = Some p" "vb_round p = br_round l + 2" "certifies c (ds_get_block ds) l p"
    and p': "ds_get_block ds' (reference p') = Some p'" "vb_round p' = br_round l' + 2" "certifies c (ds_get_block ds') l' p'"
    and s: "slot_from l = slot_from l'"
  shows "l = l'"
proof -
  note vo = view_ofD(1)[OF v] view_ofD(1)[OF v']
  from s have sl: "br_round l' = br_round l" "br_author l' = br_author l" by (auto simp: slot_from_def)
  from quorums_share_honest[OF view_okD(4)[OF vo(1)] hd] p(3) p'(3) obtain a where
    a: "a \<in> vote_authors (ds_get_block ds) l p" "a \<in> vote_authors (ds_get_block ds') l' p'" "a \<notin> F"
    by (auto simp: certifies_def)
  from vote_of_certificate[OF vo(1) p(1,2) a(1)] obtain r b where
    r: "ds_get_block ds r = Some b" "l \<in> set (vb_ancestors b)" "br_author r = a" "br_round r = br_round l + 1" by blast
  from vote_of_certificate[OF vo(2) p'(1,2) a(2)] obtain r' b' where
    r': "ds_get_block ds' r' = Some b'" "l' \<in> set (vb_ancestors b')" "br_author r' = a" "br_round r' = br_round l' + 1" by blast
  have "b = b'"
    by (rule honest_unique(2)[OF hd view_ofD(2)[OF v r(1)] view_ofD(2)[OF v' r'(1)]]) (use r r' a(3) sl in simp_all)
  moreover have "distinct (map br_author (vb_ancestors b))"
    using view_ok_ancestors(1)[OF vo(1) r(1)] r(4) by (simp add: ancestors_wf_def)
  ultimately show ?thesis using r(2) r'(2) sl by (metis distinct_map inj_onD)
qed

lemma certified_not_blamed:
  assumes hd: "honest_dag c F U" and v: "view_of c U ds" and v': "view_of c U ds'"
    and p: "ds_get_block ds (reference p) = Some p" "vb_round p = br_round l + 2" "certifies c (ds_get_block ds) l p"
  shows "\<not> unat (c_quorum_threshold c) \<le> set_stake c (blamers (ds_get_block ds') (br_author l) (br_round l + 1))"
proof
  assume bl: "unat (c_quorum_threshold c) \<le> set_stake c (blamers (ds_get_block ds') (br_author l) (br_round l + 1))"
  note vo = view_ofD(1)[OF v] view_ofD(1)[OF v']
  from quorums_share_honest[OF view_okD(4)[OF vo(1)] hd _ bl] p(3) obtain a where
    a: "a \<in> vote_authors (ds_get_block ds) l p" "a \<in> blamers (ds_get_block ds') (br_author l) (br_round l + 1)" "a \<notin> F"
    by (auto simp: certifies_def)
  from vote_of_certificate[OF vo(1) p(1,2) a(1)] obtain r b where
    r: "ds_get_block ds r = Some b" "l \<in> set (vb_ancestors b)" "br_author r = a" "br_round r = br_round l + 1" by blast
  from a(2) obtain b' where b': "ds_get_block ds' (reference b') = Some b'" "vb_round b' = br_round l + 1"
      "blames (br_author l) b'" "vb_author b' = a" by (auto simp: blamers_def)
  have "b = b'"
    by (rule honest_unique(2)[OF hd view_ofD(2)[OF v r(1)] view_ofD(2)[OF v' b'(1)]]) (use r b' a(3) in simp_all)
  with r(2) b'(3) show False by (auto simp: blames_def)
qed

text \<open>A certificate read in one view is one in every view that serves it.\<close>

lemma certifies_transfer:
  assumes v: "view_of c U ds" and v': "view_of c U ds'" and gc: "ds_gc_round ds' < br_round l"
    and p': "ds_get_block ds' (reference p) = Some p" and cert: "certifies c (ds_get_block ds) l p"
  shows "certifies c (ds_get_block ds') l p"
proof -
  have "votes_for (ds_get_block ds') l r" if r: "r \<in> set (vb_ancestors p)" "votes_for (ds_get_block ds) l r" for r
  proof -
    from r(2) obtain b where b: "ds_get_block ds r = Some b" "l \<in> set (vb_ancestors b)" by (auto simp: votes_for_def)
    have "br_round l < br_round r" using view_ok_round(1)[OF view_ofD(1)[OF v] b] .
    then have "ds_get_block ds' r \<noteq> None" using view_ok_round(2)[OF view_ofD(1)[OF v'] p' r(1)] gc by auto
    with same_content[OF v v' b(1)] b(2) show ?thesis by (auto simp: votes_for_def)
  qed
  then have "vote_authors (ds_get_block ds) l p \<subseteq> vote_authors (ds_get_block ds') l p" by (auto simp: vote_authors_def)
  from set_stake_mono[OF this, of c] show ?thesis using cert by (simp add: certifies_def)
qed

lemma certified_leader_served:
  assumes v: "view_ok c ds" and gc: "ds_gc_round ds < br_round l"
    and p: "ds_get_block ds (reference p) = Some p" "certifies c (ds_get_block ds) l p"
  shows "\<exists>b. ds_get_block ds l = Some b"
proof -
  have "vote_authors (ds_get_block ds) l p \<noteq> {}"
    using p(2) quorum_nonempty[OF view_okD(4)[OF v]] by (simp add: certifies_def)
  then obtain r b where "ds_get_block ds r = Some b" "l \<in> set (vb_ancestors b)" by (auto simp: vote_authors_def votes_for_def)
  then show ?thesis using view_ok_round(2)[OF v] gc by blast
qed

text \<open>
  A quorum of certificates is unavoidable: every block three or more rounds above the leader has
  one of them in its causal history.
\<close>

lemma reaches_certificate:
  assumes hd: "honest_dag c F U" and v: "view_of c U ds" and v': "view_of c U ds'" and gc: "ds_gc_round ds' < br_round l"
    and q: "unat (c_quorum_threshold c) \<le> set_stake c (certifiers c (ds_get_block ds) l (br_round l + 2))"
    and a: "ds_get_block ds' (reference anchor) = Some anchor" "br_round l + 3 \<le> vb_round anchor"
  shows "\<exists>p. ds_get_block ds' (reference p) = Some p \<and> vb_round p = br_round l + 2 \<and>
    (ds_parent ds')\<^sup>+\<^sup>+ (reference anchor) (reference p) \<and> certifies c (ds_get_block ds') l p"
  using a
proof (induction "vb_round anchor" arbitrary: anchor rule: less_induct)
  case less
  note vo = view_ofD(1)[OF v']
  let ?par = "{x \<in> set (vb_ancestors anchor). br_round x = vb_round anchor - 1}"
  have par: "unat (c_quorum_threshold c) \<le> set_stake c (br_author ` ?par)"
    using view_ok_ancestors(1)[OF vo less.prems(1)] less.prems(2) by (simp add: ancestors_wf_def)
  have served: "\<exists>b. ds_get_block ds' x = Some b" if "x \<in> ?par" for x
    using that view_ok_round(2)[OF vo less.prems(1), of x] gc less.prems(2) by auto
  have link: "ds_parent ds' (reference anchor) x" if "x \<in> ?par" for x
    using that less.prems(1) by (auto simp: ds_parent_def)
  show ?case
  proof (cases "vb_round anchor = br_round l + 3")
    case True
    from quorums_share_honest[OF view_okD(4)[OF vo] hd par q] obtain x p where
      x: "x \<in> ?par" "br_author x \<notin> F" and
      p: "ds_get_block ds (reference p) = Some p" "vb_round p = br_round l + 2" "certifies c (ds_get_block ds) l p" "vb_author p = br_author x"
      by (auto simp: certifiers_def)
    from served[OF x(1)] obtain b where b: "ds_get_block ds' x = Some b" by blast
    have "x = reference p" "b = p"
      by (rule honest_unique[OF hd view_ofD(2)[OF v' b] view_ofD(2)[OF v p(1)]]; use x p True in simp)+
    then have "ds_get_block ds' (reference p) = Some p" using b by simp
    then show ?thesis using certifies_transfer[OF v v' gc _ p(3)] p(2) link[OF x(1)] \<open>x = reference p\<close> by blast
  next
    case False
    have "?par \<noteq> {}" using quorum_nonempty[OF view_okD(4)[OF vo] par] by blast
    then obtain x where x: "x \<in> ?par" by blast
    from served[OF x] obtain b where b: "ds_get_block ds' x = Some b" by blast
    have r: "reference b = x" using ds_get_block_reference[OF view_okD(1)[OF vo] b] .
    then have "br_round x = vb_round b" by auto
    with x less.prems(2) False have "vb_round b < vb_round anchor" "br_round l + 3 \<le> vb_round b" by auto
    from less.hyps[OF this(1) _ this(2)] b r obtain p where
      "ds_get_block ds' (reference p) = Some p" "vb_round p = br_round l + 2"
      "(ds_parent ds')\<^sup>+\<^sup>+ x (reference p)" "certifies c (ds_get_block ds') l p" by auto
    then show ?thesis using link[OF x] by (meson tranclp_into_tranclp2)
  qed
qed

text \<open>The causal history of a common block is the same in both views, down to the garbage collection rounds.\<close>

lemma reach_transfer:
  assumes v: "view_of c U ds" and v': "view_of c U ds'" and a: "ds_get_block ds x \<noteq> None" "ds_get_block ds' x \<noteq> None"
    and reach: "(ds_parent ds)\<^sup>+\<^sup>+ x y" and gc: "ds_gc_round ds' < br_round y"
  shows "(ds_parent ds')\<^sup>+\<^sup>+ x y \<and> ds_get_block ds' y \<noteq> None"
  using reach gc
proof (induction rule: tranclp_induct)
  case (base y)
  then have "ds_parent ds' x y" using same_content[OF v v' _ a(2)] by (auto simp: ds_parent_def)
  then show ?case using base(2) ds_parent_served[OF view_okD(2)[OF view_ofD(1)[OF v']]] by blast
next
  case (step y z)
  from step.hyps(2) obtain b where b: "ds_get_block ds y = Some b" "z \<in> set (vb_ancestors b)" by (auto simp: ds_parent_def)
  have "br_round z < br_round y" using view_ok_round(1)[OF view_ofD(1)[OF v] b] .
  then have y: "(ds_parent ds')\<^sup>+\<^sup>+ x y" "ds_get_block ds' y \<noteq> None" using step.IH step.prems by auto
  then have "ds_parent ds' y z" using same_content[OF v v' b(1)] b(2) by (auto simp: ds_parent_def)
  with y(1) have "(ds_parent ds')\<^sup>+\<^sup>+ x z" by (rule tranclp.trancl_into_trancl)
  then show ?case using ds_parent_served[OF view_okD(2)[OF view_ofD(1)[OF v']]] step.prems by blast
qed

lemma certified_from_transfer:
  assumes v: "view_of c U ds" and v': "view_of c U ds'" and gc: "ds_gc_round ds' < slot_round s"
    and a: "ds_get_block ds (reference anchor) = Some anchor" "ds_get_block ds' (reference anchor) = Some anchor"
    and cf: "certified_from c ds anchor s l"
  shows "certified_from c ds' anchor s l"
proof -
  from cf obtain p where l: "ds_get_block ds (reference l) = Some l" "slot_from (reference l) = s" and
    p: "ds_get_block ds (reference p) = Some p" "vb_round p = slot_round s + 2"
      "(ds_parent ds)\<^sup>+\<^sup>+ (reference anchor) (reference p)" "certifies c (ds_get_block ds) (reference l) p"
    by (auto simp: certified_from_def candidate_def)
  have gl: "ds_gc_round ds' < br_round (reference l)" using gc l(2) by auto
  have "ds_gc_round ds' < br_round (reference p)" using gc p(2) by simp
  with reach_transfer[OF v v' _ _ p(3)] a have r: "(ds_parent ds')\<^sup>+\<^sup>+ (reference anchor) (reference p)"
      "ds_get_block ds' (reference p) \<noteq> None" by auto
  have sp: "ds_get_block ds' (reference p) = Some p" using same_content[OF v v' p(1) r(2)] .
  have cert: "certifies c (ds_get_block ds') (reference l) p" using certifies_transfer[OF v v' gl sp p(4)] .
  from certified_leader_served[OF view_ofD(1)[OF v'] gl sp cert] have "ds_get_block ds' (reference l) \<noteq> None" by auto
  then have "ds_get_block ds' (reference l) = Some l" using same_content[OF v v' l(1)] by blast
  then show ?thesis using l(2) sp p(2) r(1) cert by (auto simp: certified_from_def candidate_def)
qed

subsection \<open>Agreement on one slot\<close>

lemma candidate_slot: "candidate ds s l \<Longrightarrow> br_round (reference l) = slot_round s \<and> br_author (reference l) = slot_authority s"
  by (auto simp: candidate_def)

lemma direct_commit_certificate:
  assumes "view_ok c ds" and "direct_evidence c ds s (LSCommit l)"
  shows "\<exists>p. ds_get_block ds (reference p) = Some p \<and> vb_round p = br_round (reference l) + 2 \<and>
    certifies c (ds_get_block ds) (reference l) p"
proof -
  have "certifiers c (ds_get_block ds) (reference l) (slot_round s + 2) \<noteq> {}"
    using assms(2) quorum_nonempty[OF view_okD(4)[OF assms(1)]] by simp
  then show ?thesis using assms(2) candidate_slot[of ds s l] by (auto simp: certifiers_def)
qed

lemma certified_from_certificate:
  assumes "certified_from c ds anchor s l"
  shows "\<exists>p. ds_get_block ds (reference p) = Some p \<and> vb_round p = br_round (reference l) + 2 \<and>
    certifies c (ds_get_block ds) (reference l) p"
  using assms candidate_slot[of ds s l] by (auto simp: certified_from_def)

text \<open>Two candidates of a slot that are certified, each in its view, are the same block.\<close>

lemma certified_candidates_equal:
  assumes hd: "honest_dag c F U" and v: "view_of c U ds" and v': "view_of c U ds'"
    and l: "candidate ds s l" and l': "candidate ds' s l'"
    and p: "\<exists>p. ds_get_block ds (reference p) = Some p \<and> vb_round p = br_round (reference l) + 2 \<and> certifies c (ds_get_block ds) (reference l) p"
    and p': "\<exists>p. ds_get_block ds' (reference p) = Some p \<and> vb_round p = br_round (reference l') + 2 \<and> certifies c (ds_get_block ds') (reference l') p"
  shows "l = l'"
proof -
  from p p' obtain p1 p2 where
    "ds_get_block ds (reference p1) = Some p1" "vb_round p1 = br_round (reference l) + 2" "certifies c (ds_get_block ds) (reference l) p1"
    "ds_get_block ds' (reference p2) = Some p2" "vb_round p2 = br_round (reference l') + 2" "certifies c (ds_get_block ds') (reference l') p2"
    by blast
  note certified_unique[OF hd v v' this]
  then have r: "reference l = reference l'" using l l' by (simp add: candidate_def)
  have u: "U (reference l) = Some l" "U (reference l') = Some l'"
    using l l' view_ofD(2)[OF v, of "reference l" l] view_ofD(2)[OF v', of "reference l'" l'] by (simp_all add: candidate_def)
  from u(1) have "U (reference l') = Some l" unfolding r .
  with u(2) show ?thesis by simp
qed

lemma certified_from_unique:
  assumes "honest_dag c F U" and "view_of c U ds" and "certified_from c ds a s l" and "certified_from c ds a' s l'"
  shows "l = l'"
proof -
  have l: "candidate ds s l" "candidate ds s l'" using assms(3,4) by (simp_all add: certified_from_def)
  show ?thesis
    using certified_candidates_equal[OF assms(1,2,2) l certified_from_certificate[OF assms(3)] certified_from_certificate[OF assms(4)]] .
qed

lemma certified_not_skipped:
  assumes hd: "honest_dag c F U" and v: "view_of c U ds" and v': "view_of c U ds'" and l: "candidate ds s l"
    and p: "\<exists>p. ds_get_block ds (reference p) = Some p \<and> vb_round p = br_round (reference l) + 2 \<and> certifies c (ds_get_block ds) (reference l) p"
  shows "\<not> direct_evidence c ds' s (LSSkip s')"
proof -
  from p obtain p where
    "ds_get_block ds (reference p) = Some p" "vb_round p = br_round (reference l) + 2" "certifies c (ds_get_block ds) (reference l) p"
    by blast
  from certified_not_blamed[OF hd v v' this] show ?thesis using candidate_slot[OF l] by simp
qed

lemma direct_direct_agree:
  assumes hd: "honest_dag c F U" and v: "view_of c U ds" and v': "view_of c U ds'"
    and e: "direct_evidence c ds s st" "is_decided st" and e': "direct_evidence c ds' s st'" "is_decided st'"
  shows "st = st'"
proof -
  have excl: False if v: "view_of c U ds" and v': "view_of c U ds'" and e: "direct_evidence c ds s (LSCommit l)"
      and e': "direct_evidence c ds' s (LSSkip s')" for ds ds' l s'
    using certified_not_skipped[OF hd v v' _ direct_commit_certificate[OF view_ofD(1)[OF v] e]] e e' by simp
  show ?thesis
  proof (cases st; cases st')
    fix l l' assume st: "st = LSCommit l" "st' = LSCommit l'"
    then have "candidate ds s l" "candidate ds' s l'" using e(1) e'(1) by auto
    from certified_candidates_equal[OF hd v v' this] st show ?thesis
      using direct_commit_certificate[OF view_ofD(1)[OF v]] direct_commit_certificate[OF view_ofD(1)[OF v']] e(1) e'(1) by blast
  qed (use e e' excl[OF v v'] excl[OF v' v] in auto)
qed

lemma direct_indirect_agree:
  assumes hd: "honest_dag c F U" and v: "view_of c U ds" and v': "view_of c U ds'" and gc: "ds_gc_round ds' < slot_round s"
    and e: "direct_evidence c ds s st" "is_decided st"
    and a: "ds_get_block ds' (reference anchor) = Some anchor" "slot_round s + 3 \<le> vb_round anchor"
    and e': "anchor_evidence c ds' anchor s st'"
  shows "st = st'"
proof (cases st)
  case (LSCommit l)
  note ev = e(1)[unfolded LSCommit]
  have sl: "candidate ds s l" "br_round (reference l) = slot_round s" using ev candidate_slot[of ds s l] by auto
  have gl: "ds_gc_round ds' < br_round (reference l)" using gc sl(2) by simp
  have "unat (c_quorum_threshold c) \<le> set_stake c (certifiers c (ds_get_block ds) (reference l) (br_round (reference l) + 2))"
    using ev sl(2) by simp
  from reaches_certificate[OF hd v v' gl this a(1)] a(2) sl(2) obtain p where
    p: "ds_get_block ds' (reference p) = Some p" "vb_round p = slot_round s + 2"
      "(ds_parent ds')\<^sup>+\<^sup>+ (reference anchor) (reference p)" "certifies c (ds_get_block ds') (reference l) p" by auto
  from certified_leader_served[OF view_ofD(1)[OF v'] gl p(1,4)] have "ds_get_block ds' (reference l) = Some l"
    using same_content[OF v v'] sl(1) by (auto simp: candidate_def)
  then have cf: "certified_from c ds' anchor s l" using sl(1) p by (auto simp: certified_from_def candidate_def)
  then obtain l' where st': "st' = LSCommit l'" "certified_from c ds' anchor s l'" using e' by (cases st') auto
  have "l = l'" using certified_from_unique[OF hd v' cf st'(2)] .
  then show ?thesis using LSCommit st'(1) by simp
next
  case (LSSkip s')
  note ev = e(1)[unfolded LSSkip]
  have "\<not> certified_from c ds' anchor s l" for l
  proof
    assume cf: "certified_from c ds' anchor s l"
    then have "candidate ds' s l" by (simp add: certified_from_def)
    from certified_not_skipped[OF hd v' v this certified_from_certificate[OF cf]] show False using ev by blast
  qed
  then show ?thesis using e' LSSkip ev by (cases st') auto
qed (use e(2) in simp)

lemma indirect_indirect_agree:
  assumes hd: "honest_dag c F U" and v: "view_of c U ds" and v': "view_of c U ds'"
    and gc: "ds_gc_round ds < slot_round s" "ds_gc_round ds' < slot_round s"
    and a: "ds_get_block ds (reference anchor) = Some anchor" "ds_get_block ds' (reference anchor) = Some anchor"
    and e: "anchor_evidence c ds anchor s st" and e': "anchor_evidence c ds' anchor s st'"
  shows "st = st'"
proof -
  have cf: "certified_from c ds anchor s l \<longleftrightarrow> certified_from c ds' anchor s l" for l
    using certified_from_transfer[OF v v' gc(2) a] certified_from_transfer[OF v' v gc(1) a(2,1)] by blast
  show ?thesis using e e' cf certified_from_unique[OF hd v'] by (cases st; cases st') auto
qed

subsection \<open>Runs over slots\<close>

fun status_for :: "dag_state \<Rightarrow> slot \<Rightarrow> leader_status \<Rightarrow> bool" where
  "status_for ds s (LSCommit l) \<longleftrightarrow> candidate ds s l"
| "status_for ds s (LSSkip s') \<longleftrightarrow> s' = s"
| "status_for ds s (LSUndecided s') \<longleftrightarrow> s' = s"

lemma status_for_round: "status_for ds s st \<Longrightarrow> status_round st = slot_round s"
  using candidate_slot[of ds s] by (cases st) auto

lemma direct_evidence_for: "direct_evidence c ds s st \<Longrightarrow> status_for ds s st"
  by (cases st) auto

lemma anchor_evidence_for: "anchor_evidence c ds a s st \<Longrightarrow> status_for ds s st \<and> is_decided st"
  by (cases st) (auto simp: certified_from_def)

lemma status_for_commit:
  "list_all2 (status_for ds) ss xs \<Longrightarrow> LSCommit a \<in> set xs \<Longrightarrow> ds_get_block ds (reference a) = Some a"
  by (induction rule: list_all2_induct) (auto simp: candidate_def)

definition agree :: "leader_status \<Rightarrow> leader_status \<Rightarrow> bool" where
  "agree a b \<longleftrightarrow> (is_decided a \<longrightarrow> is_decided b \<longrightarrow> a = b)"

text \<open>The anchor the indirect rule uses: the first status that is not a skip, when it is a commit.\<close>

fun anchor_of :: "leader_status list \<Rightarrow> verified_block option" where
  "anchor_of [] = None"
| "anchor_of (LSCommit l # sts) = Some l"
| "anchor_of (LSSkip s # sts) = anchor_of sts"
| "anchor_of (LSUndecided s # sts) = None"

lemma anchor_loop_eq:
  "anchor_loop bc ds s sts = (case anchor_of sts of None \<Rightarrow> Some (LSUndecided s) | Some a \<Rightarrow> decide_leader_from_anchor bc ds a s)"
  by (induction sts rule: anchor_of.induct) auto

lemma anchor_of_in: "anchor_of sts = Some a \<Longrightarrow> LSCommit a \<in> set sts"
  by (induction sts rule: anchor_of.induct) auto

lemma anchor_of_agree:
  assumes "list_all2 agree xs ys" and "anchor_of xs = Some a" and "anchor_of (ys @ zs) = Some a'"
  shows "a = a'"
  using assms
proof (induction xs ys rule: list_all2_induct)
  case (Cons x xs y ys)
  then show ?case by (cases x; cases y) (auto simp: agree_def)
qed simp

text \<open>The later slots of round \<open>r + 3\<close> and above, as the indirect rule filters them.\<close>

lemma filter_round_for:
  "list_all2 (status_for ds) ss xs \<Longrightarrow> list_all2 (status_for ds') ss ys \<Longrightarrow> list_all2 agree xs ys \<Longrightarrow>
   list_all2 agree (filter (\<lambda>x. k \<le> status_round x) xs) (filter (\<lambda>x. k \<le> status_round x) ys)"
proof (induction ss arbitrary: xs ys)
  case (Cons s ss)
  then obtain x xs' y ys' where xy: "xs = x # xs'" "ys = y # ys'" "status_for ds s x" "status_for ds' s y"
    "list_all2 (status_for ds) ss xs'" "list_all2 (status_for ds') ss ys'" "agree x y" "list_all2 agree xs' ys'"
    by (auto simp: list_all2_Cons1)
  then show ?case using Cons.IH[OF xy(5,6,8)] status_for_round[OF xy(3)] status_for_round[OF xy(4)] by simp
qed simp

text \<open>What one step of the run returns and why.\<close>

definition step_evidence :: "committee \<Rightarrow> dag_state \<Rightarrow> slot \<Rightarrow> leader_status list \<Rightarrow> leader_status \<Rightarrow> bool" where
  "step_evidence c ds s later st \<longleftrightarrow> direct_evidence c ds s st \<and> is_decided st \<or>
     (case anchor_of (filter (\<lambda>x. slot_round s + 3 \<le> status_round x) later) of
        None \<Rightarrow> st = LSUndecided s
      | Some a \<Rightarrow> ds_get_block ds (reference a) = Some a \<and> slot_round s + 3 \<le> vb_round a \<and> anchor_evidence c ds a s st)"

lemma step_evidence_for: "step_evidence c ds s later st \<Longrightarrow> status_for ds s st"
  using direct_evidence_for[of c ds s st] anchor_evidence_for[of c ds _ s st]
  by (auto simp: step_evidence_def split: option.splits)

lemma step_agree:
  assumes hd: "honest_dag c F U" and v: "view_of c U ds" and v': "view_of c U ds'"
    and gc: "ds_gc_round ds < slot_round s" "ds_gc_round ds' < slot_round s"
    and later: "list_all2 (status_for ds) ss xs" "list_all2 (status_for ds') ss ys" "list_all2 agree xs ys"
    and e: "step_evidence c ds s xs st" and e': "step_evidence c ds' s (ys @ zs) st'"
  shows "agree st st'"
  unfolding agree_def
proof (intro impI)
  assume d: "is_decided st" "is_decided st'"
  let ?f = "\<lambda>x. slot_round s + 3 \<le> status_round x"
  have "list_all2 agree (filter ?f xs) (filter ?f ys)" using filter_round_for[OF later] .
  note an = anchor_of_agree[OF this]
  consider "direct_evidence c ds s st" "direct_evidence c ds' s st'"
    | a where "direct_evidence c ds s st" "ds_get_block ds' (reference a) = Some a" "slot_round s + 3 \<le> vb_round a" "anchor_evidence c ds' a s st'"
    | a where "direct_evidence c ds' s st'" "ds_get_block ds (reference a) = Some a" "slot_round s + 3 \<le> vb_round a" "anchor_evidence c ds a s st"
    | a a' where "anchor_of (filter ?f xs) = Some a" "anchor_of (filter ?f (ys @ zs)) = Some a'"
        "ds_get_block ds (reference a) = Some a" "ds_get_block ds' (reference a') = Some a'"
        "anchor_evidence c ds a s st" "anchor_evidence c ds' a' s st'"
    using e e' d unfolding step_evidence_def by (auto split: option.splits)
  then show "st = st'"
  proof cases
    case 1
    show ?thesis using direct_direct_agree[OF hd v v' 1(1) d(1) 1(2) d(2)] .
  next
    case 2
    show ?thesis using direct_indirect_agree[OF hd v v' gc(2) 2(1) d(1) 2(2-4)] .
  next
    case 3
    show ?thesis using direct_indirect_agree[OF hd v' v gc(1) 3(1) d(2) 3(2-4)] by simp
  next
    case 4
    then have "a = a'" using an by auto
    then show ?thesis using indirect_indirect_agree[OF hd v v' gc] 4 by blast
  qed
qed

text \<open>The run over a list of slots, each with a committer that leads its round.\<close>

definition slots_ok :: "committee \<Rightarrow> dag_state \<Rightarrow> (base_committer \<times> slot) list \<Rightarrow> bool" where
  "slots_ok c ds todo \<longleftrightarrow> (\<forall>(bc, s)\<in>set todo. bc_leads c bc (slot_round s) \<and> slot_open ds s)"

lemma decide_slot_step:
  assumes hd: "honest_dag c F U" and v: "view_of c U ds" and bc: "bc_leads c bc (slot_round s)" and s: "slot_open ds s"
    and later: "list_all2 (status_for ds) ss (map fst leaders)"
  shows "\<exists>st d. decide_slots ds ((bc, s) # rest) leaders = decide_slots ds rest ((st, d) # leaders) \<and>
    step_evidence c ds s (map fst leaders) st"
proof -
  note vo = view_ofD(1)[OF v]
  have gc: "ds_gc_round ds < slot_round s" using s by (simp add: slot_open_def)
  have "l = l'" if "direct_evidence c ds s (LSCommit l)" "direct_evidence c ds s (LSCommit l')" for l l'
    using direct_direct_agree[OF hd v v that(1) _ that(2)] by simp
  from try_direct_decide_sound[OF vo bc s this] obtain st where
    st: "try_direct_decide bc ds s = Some st" "direct_evidence c ds s st" by blast
  show ?thesis
  proof (cases "is_decided st")
    case True
    then show ?thesis using st by (auto simp: step_evidence_def)
  next
    case False
    let ?f = "\<lambda>x. slot_round s + 3 \<le> status_round x"
    have "try_indirect_decide bc ds s (map fst leaders) = anchor_loop bc ds s (filter ?f (map fst leaders))"
      using bc by (simp add: try_indirect_decide_def bc_leads_def)
    moreover have "\<exists>st. anchor_loop bc ds s (filter ?f (map fst leaders)) = Some st \<and> step_evidence c ds s (map fst leaders) st"
    proof (cases "anchor_of (filter ?f (map fst leaders))")
      case None
      then show ?thesis by (simp add: anchor_loop_eq step_evidence_def)
    next
      case (Some a)
      then have a: "LSCommit a \<in> set (map fst leaders)" "slot_round s + 3 \<le> vb_round a" using anchor_of_in[OF Some] by auto
      from status_for_commit[OF later a(1)] have "ds_get_block ds (reference a) = Some a" .
      moreover from this have "\<exists>st. decide_leader_from_anchor bc ds a s = Some st \<and> anchor_evidence c ds a s st"
        using decide_leader_from_anchor_sound[OF vo bc gc] certified_from_unique[OF hd v] by blast
      ultimately show ?thesis using Some a(2) by (auto simp: anchor_loop_eq step_evidence_def)
    qed
    ultimately obtain st2 where "try_indirect_decide bc ds s (map fst leaders) = Some st2" "step_evidence c ds s (map fst leaders) st2"
      by auto
    then show ?thesis using st(1) False by (intro exI[of _ st2] exI[of _ Indirect]) simp
  qed
qed

lemma decide_slots_status:
  assumes hd: "honest_dag c F U" and v: "view_of c U ds" and "slots_ok c ds todo"
    and "list_all2 (status_for ds) ss (map fst leaders)"
  shows "\<exists>res. decide_slots ds todo leaders = Some (res @ leaders) \<and>
    list_all2 (status_for ds) (rev (map snd todo)) (map fst res)"
  using assms(3,4)
proof (induction todo arbitrary: ss leaders)
  case (Cons e todo)
  obtain bc s where e: "e = (bc, s)" by (cases e)
  from Cons.prems(1) have bs: "bc_leads c bc (slot_round s)" "slot_open ds s" "slots_ok c ds todo" by (auto simp: slots_ok_def e)
  from decide_slot_step[OF hd v bs(1,2) Cons.prems(2)] obtain st d where
    st: "decide_slots ds ((bc, s) # todo) leaders = decide_slots ds todo ((st, d) # leaders)" "step_evidence c ds s (map fst leaders) st"
    by blast
  have sf: "status_for ds s st" using step_evidence_for[OF st(2)] .
  then have "list_all2 (status_for ds) (s # ss) (map fst ((st, d) # leaders))" using Cons.prems(2) by simp
  from Cons.IH[OF bs(3) this] obtain res where
    "decide_slots ds todo ((st, d) # leaders) = Some (res @ (st, d) # leaders)" "list_all2 (status_for ds) (rev (map snd todo)) (map fst res)"
    by blast
  then show ?case using st(1) sf unfolding e
    by (intro exI[of _ "res @ [(st, d)]"]) (simp add: list_all2_appendI)
qed simp

text \<open>Two runs over the same slots agree, also when one has already decided further slots.\<close>

lemma decide_slots_agree:
  assumes hd: "honest_dag c F U" and v: "view_of c U ds" and v': "view_of c U ds'"
    and "slots_ok c ds todo" and "slots_ok c ds' todo"
    and "list_all2 (status_for ds) ss (map fst xs)" and "list_all2 (status_for ds') ss (map fst ys)"
    and "list_all2 (status_for ds') ss' (map fst zs)" and "list_all2 agree (map fst xs) (map fst ys)"
  shows "\<exists>res res'. decide_slots ds todo xs = Some (res @ xs) \<and> decide_slots ds' todo (ys @ zs) = Some (res' @ ys @ zs) \<and>
    list_all2 agree (map fst (res @ xs)) (map fst (res' @ ys)) \<and>
    list_all2 (status_for ds) (rev (map snd todo) @ ss) (map fst (res @ xs)) \<and>
    list_all2 (status_for ds') (rev (map snd todo) @ ss) (map fst (res' @ ys))"
  using assms(4-)
proof (induction todo arbitrary: ss xs ys)
  case (Cons e todo)
  obtain bc s where e: "e = (bc, s)" by (cases e)
  from Cons.prems(1,2) have bs: "bc_leads c bc (slot_round s)" "slot_open ds s" "slots_ok c ds todo" "slot_open ds' s" "slots_ok c ds' todo"
    by (auto simp: slots_ok_def e)
  have gc: "ds_gc_round ds < slot_round s" "ds_gc_round ds' < slot_round s" using bs(2,4) by (auto simp: slot_open_def)
  from decide_slot_step[OF hd v bs(1,2) Cons.prems(3)] obtain st d where
    st: "decide_slots ds ((bc, s) # todo) xs = decide_slots ds todo ((st, d) # xs)" "step_evidence c ds s (map fst xs) st" by blast
  have "list_all2 (status_for ds') (ss @ ss') (map fst (ys @ zs))" using Cons.prems(4,5) by (simp add: list_all2_appendI)
  from decide_slot_step[OF hd v' bs(1,4) this, of todo] obtain st' d' where
    st': "decide_slots ds' ((bc, s) # todo) (ys @ zs) = decide_slots ds' todo ((st', d') # ys @ zs)"
      "step_evidence c ds' s (map fst ys @ map fst zs) st'" unfolding map_append by blast
  note sf = step_evidence_for[OF st(2)] step_evidence_for[OF st'(2)]
  have ag: "agree st st'" using step_agree[OF hd v v' gc Cons.prems(3,4,6) st(2) st'(2)] .
  have "\<exists>res res'. decide_slots ds todo ((st, d) # xs) = Some (res @ (st, d) # xs) \<and>
      decide_slots ds' todo (((st', d') # ys) @ zs) = Some (res' @ ((st', d') # ys) @ zs) \<and>
      list_all2 agree (map fst (res @ (st, d) # xs)) (map fst (res' @ (st', d') # ys)) \<and>
      list_all2 (status_for ds) (rev (map snd todo) @ s # ss) (map fst (res @ (st, d) # xs)) \<and>
      list_all2 (status_for ds') (rev (map snd todo) @ s # ss) (map fst (res' @ (st', d') # ys))"
    by (rule Cons.IH[OF bs(3,5)]) (use Cons.prems(3-6) sf ag in simp_all)
  then obtain res res' where r: "decide_slots ds todo ((st, d) # xs) = Some (res @ (st, d) # xs)"
      "decide_slots ds' todo ((st', d') # ys @ zs) = Some (res' @ (st', d') # ys @ zs)"
      "list_all2 agree (map fst (res @ (st, d) # xs)) (map fst (res' @ (st', d') # ys))"
      "list_all2 (status_for ds) (rev (map snd todo) @ s # ss) (map fst (res @ (st, d) # xs))"
      "list_all2 (status_for ds') (rev (map snd todo) @ s # ss) (map fst (res' @ (st', d') # ys))" by auto
  show ?case
    using r st(1) st'(1) unfolding e
    by (intro exI[of _ "res @ [(st, d)]"] exI[of _ "res' @ [(st', d')]"]) simp
qed simp

subsection \<open>The decided sequence\<close>

fun outcome :: "decided_leader \<Rightarrow> slot \<times> verified_block option" where
  "outcome (DLCommit b direct) = (slot_from (reference b), Some b)"
| "outcome (DLSkip s) = (s, None)"

fun outcomes :: "leader_status list \<Rightarrow> (slot \<times> verified_block option) list" where
  "outcomes [] = []"
| "outcomes (LSCommit b # sts) = (slot_from (reference b), Some b) # outcomes sts"
| "outcomes (LSSkip s # sts) = (s, None) # outcomes sts"
| "outcomes (LSUndecided s # sts) = []"

lemma outcomes_agree:
  "list_all2 agree xs ys \<Longrightarrow> prefix (outcomes xs) (outcomes (ys @ zs)) \<or> prefix (outcomes (ys @ zs)) (outcomes xs)"
proof (induction xs ys rule: list_all2_induct)
  case (Cons x xs y ys)
  then show ?case by (cases x; cases y) (auto simp: agree_def)
qed simp

lemma decided_prefix_outcomes:
  assumes "list_all2 (status_for ds) ss (map fst leaders)" and "\<forall>s\<in>set ss. 0 < slot_round s \<and> slot_authority s < committee_size c"
  shows "\<exists>d. decided_prefix c leaders = Some d \<and> map outcome d = outcomes (map fst leaders)"
  using assms
proof (induction leaders arbitrary: ss)
  case (Cons e leaders)
  obtain st dec where e: "e = (st, dec)" by (cases e)
  from Cons.prems(1) obtain s ss' where ss: "ss = s # ss'" "status_for ds s st" "list_all2 (status_for ds) ss' (map fst leaders)"
    by (auto simp: e list_all2_Cons2)
  from Cons.IH[OF ss(3)] Cons.prems(2) ss(1) obtain d where
    d: "decided_prefix c leaders = Some d" "map outcome d = outcomes (map fst leaders)" by auto
  have r: "status_round st \<noteq> GENESIS_ROUND" using status_for_round[OF ss(2)] Cons.prems(2) ss(1) by (simp add: GENESIS_ROUND_def)
  have au: "\<exists>x. committee_authority c (slot_authority s) = Some x"
    using Cons.prems(2) ss(1) by (simp add: committee_authority_def committee_size_def)
  show ?case
  proof (cases st)
    case (LSCommit l)
    then have "slot_from (reference l) = s" using ss(2) by (simp add: candidate_def)
    with LSCommit show ?thesis using d r au by (auto simp: e)
  next
    case (LSSkip s')
    then show ?thesis using d r au ss(2) by (auto simp: e)
  next
    case (LSUndecided s')
    then show ?thesis using r by (simp add: e)
  qed
qed simp

definition committers_ok :: "committee \<Rightarrow> rng \<Rightarrow> base_committer list \<Rightarrow> bool" where
  "committers_ok c rg bcs \<longleftrightarrow> (\<forall>bc\<in>set bcs. election_ok rg bc \<and> bc_committee bc = c \<and> bo_wave_length (bc_options bc) = 3)"

lemma round_slots_ok:
  assumes "committers_ok c rg bcs" and "e \<in> set (concat (map (round_slots rg (rev bcs)) rs))"
  shows "slot_round (snd e) \<in> set rs" and "slot_authority (snd e) < committee_size c" and "bc_leads c (fst e) (slot_round (snd e))"
proof -
  from assms(2) obtain r bc where r: "r \<in> set rs" "bc \<in> set bcs" "has_leader bc r" "e = (bc, elected_slot rg bc r)"
    by (auto simp: round_slots_def)
  then have bc: "election_ok rg bc" "bc_committee bc = c" "bo_wave_length (bc_options bc) = 3"
    using assms(1) by (auto simp: committers_ok_def)
  note es = elected_slot_valid[OF bc(1), of r]
  show "slot_round (snd e) \<in> set rs" "slot_authority (snd e) < committee_size c" "bc_leads c (fst e) (slot_round (snd e))"
    using r es bc by (auto simp: bc_leads_def has_leader_def)
qed

lemma pending_slots_sub: "set (pending_slots rg bcs ld rs) \<subseteq> set (concat (map (round_slots rg (rev bcs)) rs))"
  unfolding pending_slots_def using set_takeWhileD by fastforce

lemma pending_slots_ok:
  assumes ok: "committers_ok c rg bcs" and rs: "\<forall>r\<in>set rs. ds_gc_round ds < r \<and> ds_last_commit_round ds \<le> r"
  shows "slots_ok c ds (pending_slots rg bcs ld rs)"
    and "\<forall>s\<in>set (rev (map snd (pending_slots rg bcs ld rs))). 0 < slot_round s \<and> slot_authority s < committee_size c"
proof -
  have e: "bc_leads c (fst e) (slot_round (snd e)) \<and> slot_open ds (snd e) \<and> slot_authority (snd e) < committee_size c"
    if "e \<in> set (pending_slots rg bcs ld rs)" for e
  proof -
    from that have "e \<in> set (concat (map (round_slots rg (rev bcs)) rs))" using pending_slots_sub[of rg bcs ld rs] by blast
    from round_slots_ok[OF ok this] show ?thesis using rs by (auto simp: slot_open_def)
  qed
  show "slots_ok c ds (pending_slots rg bcs ld rs)" using e by (fastforce simp: slots_ok_def)
  show "\<forall>s\<in>set (rev (map snd (pending_slots rg bcs ld rs))). 0 < slot_round s \<and> slot_authority s < committee_size c"
    using e by (fastforce simp: slot_open_def)
qed

lemma pending_slots_extend:
  assumes ok: "committers_ok c rg bcs" and low: "\<forall>r\<in>set E. slot_round ld < r"
  shows "pending_slots rg bcs ld (E @ R) = concat (map (round_slots rg (rev bcs)) E) @ pending_slots rg bcs ld R"
proof -
  have "snd e \<noteq> ld" if "e \<in> set (concat (map (round_slots rg (rev bcs)) E))" for e
    using round_slots_ok(1)[OF ok that] low by auto
  then show ?thesis by (simp only: pending_slots_def map_append concat_append takeWhile_append_if) simp
qed

text \<open>The rounds a call considers, highest first; a higher view extends them at the front.\<close>

definition rounds_to_decide :: "round \<Rightarrow> dag_state \<Rightarrow> round list" where
  "rounds_to_decide f ds = rev [f..<Suc (ds_highest_accepted_round ds - 2)]"

lemma rounds_extend:
  assumes "ds_highest_accepted_round ds \<le> ds_highest_accepted_round ds'" and "rounds_to_decide f ds \<noteq> []"
  shows "\<exists>E. rounds_to_decide f ds' = E @ rounds_to_decide f ds \<and> (\<forall>r\<in>set E. f < r)"
proof -
  let ?h = "Suc (ds_highest_accepted_round ds - 2)" and ?h' = "Suc (ds_highest_accepted_round ds' - 2)"
  have h: "f < ?h" "?h \<le> ?h'" using assms by (auto simp: rounds_to_decide_def simp del: upt_Suc)
  from le_Suc_ex[OF h(2)] obtain k where "?h' = ?h + k" by blast
  then have "[f..<?h'] = [f..<?h] @ [?h..<?h']" using upt_add_eq_append[of f ?h k] h(1) by simp
  then have "rounds_to_decide f ds' = rev [?h..<?h'] @ rounds_to_decide f ds" by (simp add: rounds_to_decide_def del: upt_Suc)
  then show ?thesis using h(1) by (intro exI[of _ "rev [?h..<?h']"]) auto
qed

lemma try_decide_eq:
  assumes "committers_ok c rg (uc_committers uc)" and "cx_committee (uc_context uc) = c"
  shows "try_decide rg uc ds ld =
    Option.bind (decide_slots ds (pending_slots rg (uc_committers uc) ld (rounds_to_decide (first_round (uc_context uc) ld) ds)) [])
      (decided_prefix c)"
  using decide_rounds_eq[of "uc_committers uc" rg] assms
  by (simp add: try_decide_def Let_def rounds_to_decide_def committers_ok_def)

lemma try_decide_total:
  assumes hd: "honest_dag c F U" and v: "view_of c U ds"
    and uc: "committers_ok c rg (uc_committers uc)" "cx_committee (uc_context uc) = c"
    and f: "\<And>r. first_round (uc_context uc) ld \<le> r \<Longrightarrow> ds_gc_round ds < r \<and> ds_last_commit_round ds \<le> r"
  shows "\<exists>d. try_decide rg uc ds ld = Some d"
proof -
  let ?todo = "pending_slots rg (uc_committers uc) ld (rounds_to_decide (first_round (uc_context uc) ld) ds)"
  have "\<forall>r\<in>set (rounds_to_decide (first_round (uc_context uc) ld) ds). ds_gc_round ds < r \<and> ds_last_commit_round ds \<le> r"
    using f by (auto simp: rounds_to_decide_def)
  note ok = pending_slots_ok[OF uc(1) this, of ld]
  from decide_slots_status[OF hd v ok(1), of "[]" "[]"] obtain res where
    res: "decide_slots ds ?todo [] = Some res" "list_all2 (status_for ds) (rev (map snd ?todo)) (map fst res)" by auto
  from decided_prefix_outcomes[OF res(2) ok(2)] show ?thesis using res(1) by (auto simp: try_decide_eq[OF uc])
qed

lemma try_decide_prefix:
  assumes hd: "honest_dag c F U" and v: "view_of c U ds" and v': "view_of c U ds'"
    and uc: "committers_ok c rg (uc_committers uc)" "cx_committee (uc_context uc) = c"
    and f: "\<And>r. first_round (uc_context uc) ld \<le> r \<Longrightarrow> ds_gc_round ds < r \<and> ds_last_commit_round ds \<le> r"
    and f': "\<And>r. first_round (uc_context uc) ld \<le> r \<Longrightarrow> ds_gc_round ds' < r \<and> ds_last_commit_round ds' \<le> r"
    and h: "ds_highest_accepted_round ds \<le> ds_highest_accepted_round ds'"
    and d: "try_decide rg uc ds ld = Some d" and d': "try_decide rg uc ds' ld = Some d'"
  shows "prefix (map outcome d) (map outcome d') \<or> prefix (map outcome d') (map outcome d)"
proof (cases "rounds_to_decide (first_round (uc_context uc) ld) ds = []")
  case True
  then have "d = []" using d by (simp add: try_decide_eq[OF uc] pending_slots_def)
  then show ?thesis by simp
next
  case False
  let ?f = "first_round (uc_context uc) ld" and ?bcs = "uc_committers uc"
  let ?R = "rounds_to_decide ?f ds"
  from rounds_extend[OF h False] obtain E where E: "rounds_to_decide ?f ds' = E @ ?R" "\<forall>r\<in>set E. ?f < r" by blast
  have ld: "slot_round ld \<le> ?f" by (simp add: first_round_def)
  let ?todo = "pending_slots rg ?bcs ld ?R" and ?ext = "concat (map (round_slots rg (rev ?bcs)) E)"
  have ext: "pending_slots rg ?bcs ld (E @ ?R) = ?ext @ ?todo"
    by (rule pending_slots_extend[OF uc(1)]) (use E(2) ld in auto)
  have pr: "\<forall>r\<in>set ?R. ds_gc_round ds < r \<and> ds_last_commit_round ds \<le> r" using f by (auto simp: rounds_to_decide_def)
  have "?f \<le> r" if "r \<in> set (E @ ?R)" for r using that E(2) by (auto simp: rounds_to_decide_def)
  with f' have pr': "\<forall>r\<in>set (E @ ?R). ds_gc_round ds' < r \<and> ds_last_commit_round ds' \<le> r" by blast
  note sl = pending_slots_ok(1)[OF uc(1) pr, of ld] pending_slots_ok[OF uc(1) pr', of ld, unfolded ext]
  have sl': "slots_ok c ds' ?ext" "slots_ok c ds' ?todo" using sl(2) by (auto simp: slots_ok_def)
  from decide_slots_status[OF hd v' sl'(1), of "[]" "[]"] obtain zs where
    zs: "decide_slots ds' ?ext [] = Some zs" "list_all2 (status_for ds') (rev (map snd ?ext)) (map fst zs)" by auto
  from decide_slots_agree[OF hd v v' sl(1) sl'(2), of "[]" "[]" "[]", OF _ _ zs(2)] obtain res res' where
    r: "decide_slots ds ?todo [] = Some res" "decide_slots ds' ?todo zs = Some (res' @ zs)"
      "list_all2 agree (map fst res) (map fst res')" "list_all2 (status_for ds) (rev (map snd ?todo)) (map fst res)"
      "list_all2 (status_for ds') (rev (map snd ?todo)) (map fst res')" by auto
  have "list_all2 (status_for ds') (rev (map snd (?ext @ ?todo))) (map fst (res' @ zs))"
    using r(5) zs(2) by (simp add: list_all2_appendI)
  from decided_prefix_outcomes[OF this sl(3)] have o': "map outcome d' = outcomes (map fst res' @ map fst zs)"
    using d' r(2) zs(1) unfolding try_decide_eq[OF uc] E(1) ext by (auto simp: decide_slots_append)
  from decided_prefix_outcomes[OF r(4), of c] sl(3) have o: "map outcome d = outcomes (map fst res)"
    using d r(1) unfolding try_decide_eq[OF uc] by auto
  show ?thesis unfolding o o' by (rule outcomes_agree[OF r(3)])
qed

lemma uc_build_ok:
  assumes "cx_committee ctx = c" and "\<forall>off<n. \<forall>r. \<exists>a. elect_leader rg ls r off = Some a \<and> is_valid_index c a"
  shows "committers_ok c rg (uc_committers (uc_build ctx ls DEFAULT_WAVE_LENGTH n pipeline))"
    and "uc_context (uc_build ctx ls DEFAULT_WAVE_LENGTH n pipeline) = ctx"
  using assms
  by (auto simp: uc_build_def committers_ok_def base_committer_new_def election_ok_def DEFAULT_WAVE_LENGTH_def MINIMUM_WAVE_LENGTH_def Let_def)

text \<open>
  C1. Agreement: two validators that hold causally complete views of one DAG in which the
  faulty authorities are within the fault budget, that decided the same slots up to \<open>ld\<close> and use the same
  leader schedule, never panic in \<^verbatim>\<open>UniversalCommitter::try_decide\<close>, and the sequences of committed and
  skipped leaders they decide are consistent: one is a prefix of the other. It holds for every pipeline
  and number of leaders the builder is given with the default wave length, whatever blocks above the
  garbage collection round each view has.
\<close>

theorem try_decide_agreement:
  assumes "honest_dag c F U" and "view_of c U ds1" and "view_of c U ds2" and "cx_committee ctx = c"
    and "\<forall>off<n. \<forall>r. \<exists>a. elect_leader rg ls r off = Some a \<and> is_valid_index c a"
    and "ds_gc_round ds1 < first_round ctx ld" and "ds_last_commit_round ds1 \<le> slot_round ld"
    and "ds_gc_round ds2 < first_round ctx ld" and "ds_last_commit_round ds2 \<le> slot_round ld"
  shows "\<exists>d1 d2. try_decide rg (uc_build ctx ls DEFAULT_WAVE_LENGTH n pipeline) ds1 ld = Some d1 \<and>
    try_decide rg (uc_build ctx ls DEFAULT_WAVE_LENGTH n pipeline) ds2 ld = Some d2 \<and>
    (prefix (map outcome d1) (map outcome d2) \<or> prefix (map outcome d2) (map outcome d1))"
proof -
  let ?uc = "uc_build ctx ls DEFAULT_WAVE_LENGTH n pipeline"
  note uc = uc_build_ok[OF assms(4,5), of pipeline]
  have cm: "cx_committee (uc_context ?uc) = c" using uc(2) assms(4) by simp
  have "slot_round ld \<le> first_round ctx ld" by (simp add: first_round_def)
  then have f: "ds_gc_round ds1 < r \<and> ds_last_commit_round ds1 \<le> r" "ds_gc_round ds2 < r \<and> ds_last_commit_round ds2 \<le> r"
    if "first_round (uc_context ?uc) ld \<le> r" for r
    using that assms(6-9) uc(2) by auto
  from try_decide_total[OF assms(1,2) uc(1) cm f(1)] try_decide_total[OF assms(1,3) uc(1) cm f(2)] obtain d1 d2 where
    d: "try_decide rg ?uc ds1 ld = Some d1" "try_decide rg ?uc ds2 ld = Some d2" by blast
  show ?thesis
  proof (cases "ds_highest_accepted_round ds1 \<le> ds_highest_accepted_round ds2")
    case True
    from try_decide_prefix[OF assms(1,2,3) uc(1) cm f(1) f(2) True d] show ?thesis using d by blast
  next
    case False
    then have "ds_highest_accepted_round ds2 \<le> ds_highest_accepted_round ds1" by simp
    from try_decide_prefix[OF assms(1,3,2) uc(1) cm f(2) f(1) this d(2,1)] show ?thesis using d by blast
  qed
qed

lemma sample_honest_dag: "honest_dag committee4 {} sample_universe"
proof -
  have "reference (sample_genesis a) = sample_ref 0 a" for a
    by (simp add: sample_genesis_def reference_def vb_round_def vb_author_def new_verified_def new_genesis_def
        genesis_block_v2_def GENESIS_ROUND_def sample_ref_def sample_crypto_def)
  then show ?thesis
    by (auto simp: honest_dag_def sample_universe_def sample_layer_block_ref slot_from_def split: if_splits)
qed

lemma sample_view_of: "view_of committee4 sample_universe (sample_view n)"
  by (auto simp: view_of_def sample_view_view_ok map_le_def sample_view_ok(5) dom_def split: if_splits)

lemma sample_election:
  "\<exists>a. elect_leader sample_rng (leader_schedule_new sample_context leader_swap_table_default) r 0 = Some a \<and> is_valid_index committee4 a"
proof -
  let ?ls = "leader_schedule_new sample_context leader_swap_table_default"
  have ls: "lsch_context ?ls = sample_context" "lst_bad_nodes (lsch_swap_table ?ls) = fmempty"
    by (simp_all add: leader_schedule_new_def leader_swap_table_default_def)
  have "\<forall>a\<in>set (c_authorities committee4). 0 < a_stake a" by (simp add: committee4_def sample_authority_def)
  then obtain a where "elect_leader_stake_based sample_rng ?ls r 0 = Some a" "a < 4"
    using elect_stake_based_valid[OF sample_rng_ok, of 0 ?ls r] by (auto simp: ls)
  then show ?thesis by (simp add: elect_leader_def swap_table_swap_def ls is_valid_index_def)
qed

theorem try_decide_agreement_witness:
  "\<exists>d1 d2. try_decide sample_rng (uc_build sample_context (leader_schedule_new sample_context leader_swap_table_default)
       DEFAULT_WAVE_LENGTH 1 True) (sample_view 5) (Slot 0 0) = Some d1 \<and>
     try_decide sample_rng (uc_build sample_context (leader_schedule_new sample_context leader_swap_table_default)
       DEFAULT_WAVE_LENGTH 1 True) (sample_view 9) (Slot 0 0) = Some d2 \<and>
     (prefix (map outcome d1) (map outcome d2) \<or> prefix (map outcome d2) (map outcome d1))"
proof (rule try_decide_agreement[OF sample_honest_dag sample_view_of sample_view_of sample_context_simps])
  show "\<forall>off<1. \<forall>r. \<exists>a. elect_leader sample_rng (leader_schedule_new sample_context leader_swap_table_default) r off = Some a \<and>
      is_valid_index committee4 a" using sample_election by simp
qed (simp_all add: first_round_def sample_context_def)

text \<open>
  C10. A leader block with a quorum of certificates in its decision round is committed directly,
  whatever else the view holds: the direct rule returns it, without panicking, in every view of a DAG within the
  fault budget in which the stakes of the decision blocks do not overflow.
\<close>

theorem supported_leader_committed:
  assumes "honest_dag c F U" and "view_of c U ds" and "bc_leads c bc (slot_round s)" and "slot_open ds s"
    and "candidate ds s l" and "round_stake c ds (slot_round s + 2) < 2 ^ 64"
    and "unat (c_quorum_threshold c) \<le> set_stake c (certifiers c (ds_get_block ds) (reference l) (slot_round s + 2))"
  shows "try_direct_decide bc ds s = Some (LSCommit l)"
proof -
  note vo = view_ofD(1)[OF assms(2)]
  have bcc: "bc_committee bc = c" using assms(3) by (simp add: bc_leads_def)
  have r: "ds_last_commit_round ds < slot_round s + 1" "ds_last_commit_round ds < slot_round s + 2" "ds_gc_round ds < slot_round s"
    using assms(4) by (auto simp: slot_open_def)
  have ev: "direct_evidence c ds s (LSCommit l)" using assms(5,7) by simp
  have "\<not> direct_evidence c ds s (LSSkip s)"
    using certified_not_skipped[OF assms(1,2,2,5) direct_commit_certificate[OF vo ev]] .
  then have blame: "enough_leader_blame bc ds (slot_round s + 1) (slot_authority s) = Some False"
    using enough_leader_blame_iff[OF vo bcc r(1)] by simp
  have uniq: "l' = l" if "direct_evidence c ds s (LSCommit l')" for l'
    using direct_direct_agree[OF assms(1,2,2) that _ ev] by simp
  have l: "vb_round l = slot_round s" using candidate_slot[OF assms(5)] by simp
  have sup: "enough_leader_support bc ds (slot_round s + 2) l = Some True"
    by (rule enough_leader_support_complete[OF vo bcc r(2) _ assms(6,7)]) (simp add: l)
  let ?ls = "ds_get_uncommitted_blocks_at_slot ds s"
  note ls = blocks_at_slot[OF view_okD(1)[OF vo] r(3)]
  have "enough_leader_support bc ds (slot_round s + 2) x = Some (x = l)" if "x \<in> set ?ls" for x
  proof -
    have x: "candidate ds s x" using that ls(1) by (simp add: candidate_def)
    from enough_leader_support_sound[OF vo bcc r(2), of x] candidate_slot[OF x] obtain y where
      y: "enough_leader_support bc ds (slot_round s + 2) x = Some y" "y \<longrightarrow> direct_evidence c ds s (LSCommit x)"
      using x by auto
    then show ?thesis using uniq[of x] sup by (cases y) auto
  qed
  then have dec: "filterM (enough_leader_support bc ds (slot_round s + 2)) ?ls = Some (filter (\<lambda>x. x = l) ?ls)" by (rule filterM_total)
  have "l \<in> set ?ls" using assms(5) ls(1) by (simp add: candidate_def)
  then have "filter (\<lambda>x. x = l) ?ls = [l]" using ls(2) by (intro filter_eq_single)
  then show ?thesis
    using blame dec by (simp add: try_direct_decide_def bc_leads_decision[OF assms(3)] last_opt_def del: One_nat_def)
qed

definition sample_committer :: base_committer where
  "sample_committer = base_committer_new sample_context (leader_schedule_new sample_context leader_swap_table_default)
     \<lparr>bo_wave_length = 3, bo_leader_offset = 0, bo_round_offset = 1\<rparr>"

lemma sample_leads: "bc_leads committee4 sample_committer 1"
  by (simp add: bc_leads_def sample_committer_def base_committer_new_def bc_leader_round_def bc_wave_number_def)

lemma sample_blocks_at:
  assumes "0 < r" and "r \<le> n"
  shows "{b. ds_get_block (sample_view n) (reference b) = Some b \<and> vb_round b = r} = sample_layer_block r ` {..<4}"
proof -
  have "ds_get_block (sample_view n) (reference b) = Some b \<and> vb_round b = r \<longleftrightarrow> (\<exists>a<4. b = sample_layer_block r a)" for b
    using assms sample_layer_block_ref[OF assms(1)]
    by (auto simp: sample_view_ok(5) sample_universe_def split: if_splits)
  then show ?thesis by auto
qed

lemma sample_certifies:
  assumes "a < 4" and "x < 4" and "0 < r" and "r + 2 \<le> n"
  shows "certifies committee4 (ds_get_block (sample_view n)) (sample_ref r a) (sample_layer_block (r + 2) x)"
proof -
  have "votes_for (ds_get_block (sample_view n)) (sample_ref r a) (sample_ref (r + 1) y)" if "y < 4" for y
    using that assms by (simp add: votes_for_def sample_view_ok(5) sample_universe_def set_sample_links)
  then have "vote_authors (ds_get_block (sample_view n)) (sample_ref r a) (sample_layer_block (r + 2) x) = {..<4}"
    using assms(2) by (force simp: vote_authors_def set_sample_links image_iff)
  then show ?thesis by (simp add: certifies_def sample_quorum)
qed

theorem supported_leader_committed_witness:
  "try_direct_decide sample_committer (sample_view 3) (Slot 1 2) = Some (LSCommit (sample_layer_block 1 2))"
proof (rule supported_leader_committed[OF sample_honest_dag sample_view_of])
  have s3: "slot_round (Slot 1 2) + 2 = 3" by simp
  show "candidate (sample_view 3) (Slot 1 2) (sample_layer_block 1 2)"
    by (simp add: candidate_def sample_view_ok(5) sample_layer_block_ref sample_universe_def)
      (simp add: slot_from_def)
  have "(\<Sum>b\<in>sample_layer_block 3 ` {..<4}. stake_of committee4 (vb_author b)) \<le> (\<Sum>a<4. stake_of committee4 a)"
    using sum_image_le[of "{..<4}" "\<lambda>b. stake_of committee4 (vb_author b)" "sample_layer_block 3"] by (simp add: comp_def)
  also have "\<dots> = 4" using committee4_stake_of by simp
  finally show "round_stake committee4 (sample_view 3) (slot_round (Slot 1 2) + 2) < 2 ^ 64"
    using sample_blocks_at[of 3 3] unfolding round_stake_def s3 by simp
  let ?C = "certifies committee4 (ds_get_block (sample_view 3)) (sample_ref 1 2)"
  have "?C (sample_layer_block 3 x)" if "x < 4" for x using sample_certifies[of 2 x 1 3] that by (simp add: eval_nat_numeral)
  then have "{b \<in> sample_layer_block 3 ` {..<4}. ?C b} = sample_layer_block 3 ` {..<4}" by blast
  moreover have "certifiers committee4 (ds_get_block (sample_view 3)) (sample_ref 1 2) 3 = vb_author ` {b \<in> sample_layer_block 3 ` {..<4}. ?C b}"
    unfolding sample_blocks_at[of 3 3, simplified, symmetric] certifiers_def by simp
  ultimately have "certifiers committee4 (ds_get_block (sample_view 3)) (sample_ref 1 2) 3 = {..<4}"
    by (simp add: image_image)
  then show "unat (c_quorum_threshold committee4) \<le> set_stake committee4
      (certifiers committee4 (ds_get_block (sample_view 3)) (reference (sample_layer_block 1 2)) (slot_round (Slot 1 2) + 2))"
    unfolding s3 by (simp add: sample_layer_block_ref sample_quorum)
qed (simp_all add: sample_leads[simplified] slot_open_def)

end
