(* ===== verification/Weighted_Rank.thy ===== *)
theory Weighted_Rank
  imports Committee
begin

text \<open>
  Values weighted by stake: the stake behind the values that satisfy a predicate, and the loop
  shared by the round tracker, the ancestor manager and the commit vote monitor, which walks sorted
  values and stops at the first one where the running stake reaches a threshold
  (\<^verbatim>\<open>compute_quorum_round\<close>, \<^verbatim>\<open>calculate_network_high_quorum_round\<close>, \<^verbatim>\<open>quorum_commit_index\<close>).
\<close>

definition weight_where :: "('a \<Rightarrow> bool) \<Rightarrow> ('a \<times> stake) list \<Rightarrow> nat" where
  "weight_where P xs = sum_list (map (unat \<circ> snd) (filter (P \<circ> fst) xs))"

fun first_reaching :: "stake \<Rightarrow> ('a \<times> stake) list \<Rightarrow> stake \<Rightarrow> 'a option" where
  "first_reaching q [] acc = None"
| "first_reaching q ((v, s) # xs) acc =
     (let acc' = acc + s in if acc' \<ge> q then Some v else first_reaching q xs acc')"

lemma weight_where_simps [simp]:
  "weight_where P [] = 0" "weight_where P (x # xs) = (if P (fst x) then unat (snd x) else 0) + weight_where P xs"
  by (simp_all add: weight_where_def)

lemma weight_where_none: "(\<And>x. x \<in> set xs \<Longrightarrow> \<not> P (fst x)) \<Longrightarrow> weight_where P xs = 0"
  by (induction xs) auto

lemma weight_where_mset: "mset xs = mset ys \<Longrightarrow> weight_where P xs = weight_where P ys"
proof -
  assume "mset xs = mset ys"
  then have "mset (map (unat \<circ> snd) (filter (P \<circ> fst) xs)) = mset (map (unat \<circ> snd) (filter (P \<circ> fst) ys))"
    by (simp add: mset_filter)
  then show ?thesis unfolding weight_where_def by (metis sum_mset_sum_list)
qed

lemma weight_where_sort: "weight_where P (sort_key f xs) = weight_where P xs"
  by (rule weight_where_mset) simp

lemma weight_where_rev: "weight_where P (rev xs) = weight_where P xs"
  by (rule weight_where_mset) simp

lemma weight_where_split: "weight_where (\<lambda>t. t < m) xs + weight_where (\<lambda>t. m \<le> t) xs = weight_where (\<lambda>_. True) xs"
  for m :: "'a :: linorder"
  by (induction xs) auto

lemma weight_where_append: "weight_where P (xs @ ys) = weight_where P xs + weight_where P ys"
  by (simp add: weight_where_def)

text \<open>A value per authority, paired with the stakes of the committee.\<close>

lemma weight_where_take:
  assumes "length vs = committee_size c"
  shows "n \<le> committee_size c \<Longrightarrow>
    weight_where P (take n (zip vs (map a_stake (c_authorities c)))) = set_stake c {i. i < n \<and> P (vs ! i)}"
proof (induction n)
  case (Suc n)
  have "take (Suc n) (zip vs (map a_stake (c_authorities c)))
      = take n (zip vs (map a_stake (c_authorities c))) @ [(vs ! n, a_stake (c_authorities c ! n))]"
    using Suc.prems assms by (simp add: take_Suc_conv_app_nth committee_size_def)
  moreover have "{i. i < Suc n \<and> P (vs ! i)} =
      (if P (vs ! n) then insert n {i. i < n \<and> P (vs ! i)} else {i. i < n \<and> P (vs ! i)})"
    by (auto simp: less_Suc_eq)
  ultimately show ?case
    using Suc set_stake_insert[of n c "{i. i < n \<and> P (vs ! i)}"] by (simp add: weight_where_append stake_of_def)
qed simp

lemma weight_where_committee:
  assumes "length vs = committee_size c"
  shows "weight_where P (zip vs (map a_stake (c_authorities c))) = set_stake c {i. i < committee_size c \<and> P (vs ! i)}"
  using weight_where_take[OF assms, of "committee_size c" P] assms by (simp add: committee_size_def)

lemma weight_where_all_committee:
  assumes "length vs = committee_size c"
  shows "weight_where (\<lambda>_. True) (zip vs (map a_stake (c_authorities c))) = auths_total (c_authorities c)"
proof -
  have "{i. i < committee_size c \<and> True} = members c" by (auto simp: members_def)
  then show ?thesis using weight_where_committee[OF assms, of "\<lambda>_. True"] by (simp add: auths_total_members)
qed

subsection \<open>The threshold loop\<close>

text \<open>
  On values sorted by a relation, the loop stops at a value \<open>v\<close> such that the values up to \<open>v\<close>
  carry the threshold and those strictly before \<open>v\<close> do not.
\<close>

lemma first_reaching_spec:
  assumes "sorted_wrt (\<lambda>x y. le (fst x) (fst y)) xs" and "\<And>v. le v v"
    and "unat acc + weight_where (\<lambda>_. True) xs < 2 ^ 64" and "unat acc < unat q"
    and "unat q \<le> unat acc + weight_where (\<lambda>_. True) xs"
  shows "\<exists>v. first_reaching q xs acc = Some v \<and> v \<in> fst ` set xs \<and>
    unat q \<le> unat acc + weight_where (\<lambda>t. le t v) xs \<and> unat acc + weight_where (\<lambda>t. \<not> le v t) xs < unat q"
  using assms
proof (induction xs arbitrary: acc)
  case (Cons x xs)
  obtain t s where x: "x = (t, s)" by (cases x)
  have a: "unat (acc + s) = unat acc + unat s" using Cons.prems(3) unat_add_u64[of acc s] by (simp add: x)
  have ge: "le t (fst y)" if "y \<in> set xs" for y using Cons.prems(1) that by (simp add: x)
  show ?case
  proof (cases "unat q \<le> unat (acc + s)")
    case True
    have "weight_where (\<lambda>u. \<not> le t u) xs = 0" by (rule weight_where_none) (simp add: ge)
    then show ?thesis using True Cons.prems(2,4) a
      by (intro exI[of _ t]) (simp add: x word_le_nat_alt)
  next
    case False
    from Cons.IH[of "acc + s"] Cons.prems False a obtain v where
      v: "first_reaching q xs (acc + s) = Some v" "v \<in> fst ` set xs"
        "unat q \<le> unat (acc + s) + weight_where (\<lambda>t. le t v) xs" "unat (acc + s) + weight_where (\<lambda>t. \<not> le v t) xs < unat q"
      by (auto simp: x)
    have "le t v" using v(2) ge by auto
    then show ?thesis using v False a by (intro exI[of _ v]) (auto simp: x word_le_nat_alt)
  qed
qed simp

lemma first_reaching_None:
  assumes "unat acc + weight_where (\<lambda>_. True) xs < unat q"
  shows "first_reaching q xs acc = None"
  using assms
proof (induction xs arbitrary: acc)
  case (Cons x xs)
  obtain t s where x: "x = (t, s)" by (cases x)
  have "unat q < 2 ^ 64" using unsigned_less[of q] by simp
  then have "unat acc + unat s < 2 ^ 64" using Cons.prems by (simp add: x)
  then have "unat (acc + s) = unat acc + unat s" by (rule unat_add_u64)
  then show ?case using Cons.IH[of "acc + s"] Cons.prems by (simp add: x word_le_nat_alt)
qed simp

text \<open>The two directions, on one natural number per authority of a committee.\<close>

lemma sorted_pairs: "sorted (xs :: ('a :: linorder \<times> 'b :: linorder) list) \<Longrightarrow> sorted_wrt (\<lambda>x y. fst x \<le> fst y) xs"
  by (erule sorted_wrt_mono_rel[rotated]) (auto simp: less_eq_prod_def)

lemma sorted_pairs_rev: "sorted (xs :: ('a :: linorder \<times> 'b :: linorder) list) \<Longrightarrow> sorted_wrt (\<lambda>x y. fst y \<le> fst x) (rev xs)"
  unfolding sorted_wrt_rev by (rule sorted_pairs)

lemma first_reaching_ascending:
  fixes vs :: "'a :: linorder list"
  assumes "committee_wf c" and "length vs = committee_size c"
  shows "\<exists>v. first_reaching (c_quorum_threshold c) (sort (zip vs (map a_stake (c_authorities c)))) 0 = Some v \<and>
    unat (c_quorum_threshold c) \<le> set_stake c {i. i < committee_size c \<and> vs ! i \<le> v} \<and>
    set_stake c {i. i < committee_size c \<and> vs ! i < v} < unat (c_quorum_threshold c)"
proof -
  let ?xs = "zip vs (map a_stake (c_authorities c))"
  note w = weight_where_committee[OF assms(2)] weight_where_sort
  have tot: "weight_where (\<lambda>_. True) (sort ?xs) = auths_total (c_authorities c)"
    by (simp only: weight_where_sort weight_where_all_committee[OF assms(2)])
  have "sorted_wrt (\<lambda>x y. fst x \<le> fst y) (sort ?xs)" by (rule sorted_pairs) simp
  from first_reaching_spec[OF this, of 0 "c_quorum_threshold c"] assms(1) tot show ?thesis
    by (auto simp: committee_wf_def w not_le)
qed

lemma first_reaching_descending:
  fixes vs :: "'a :: linorder list"
  assumes "committee_wf c" and "length vs = committee_size c"
  shows "\<exists>v. first_reaching (c_quorum_threshold c) (rev (sort (zip vs (map a_stake (c_authorities c))))) 0 = Some v \<and>
    unat (c_quorum_threshold c) \<le> set_stake c {i. i < committee_size c \<and> v \<le> vs ! i} \<and>
    set_stake c {i. i < committee_size c \<and> v < vs ! i} < unat (c_quorum_threshold c)"
proof -
  let ?xs = "zip vs (map a_stake (c_authorities c))"
  note w = weight_where_committee[OF assms(2)] weight_where_sort weight_where_rev
  have tot: "weight_where (\<lambda>_. True) (rev (sort ?xs)) = auths_total (c_authorities c)"
    by (simp only: weight_where_sort weight_where_rev weight_where_all_committee[OF assms(2)])
  have "sorted_wrt (\<lambda>x y. fst y \<le> fst x) (rev (sort ?xs))" by (rule sorted_pairs_rev) simp
  from first_reaching_spec[OF this, of 0 "c_quorum_threshold c"] assms(1) tot show ?thesis
    by (auto simp: committee_wf_def w not_le)
qed

text \<open>
  The descending quorum value is at most the ascending one, and both lie between values
  of authorities outside any faulty set within the budget.
\<close>

lemma set_stake_compl:
  "set_stake c {i. i < committee_size c \<and> P i} + set_stake c {i. i < committee_size c \<and> \<not> P i} = auths_total (c_authorities c)"
proof -
  have "{i. i < committee_size c \<and> P i} \<union> {i. i < committee_size c \<and> \<not> P i} = members c" by (auto simp: members_def)
  moreover have "{i. i < committee_size c \<and> P i} \<inter> {i. i < committee_size c \<and> \<not> P i} = {}" by auto
  ultimately show ?thesis
    using set_stake_modular[of c "{i. i < committee_size c \<and> P i}" "{i. i < committee_size c \<and> \<not> P i}"]
    by (simp add: auths_total_members)
qed

lemma correct_member:
  assumes "set_stake c F < set_stake c S"
  shows "\<exists>i\<in>S. i \<notin> F"
proof (rule ccontr)
  assume "\<not> ?thesis"
  then have "S \<subseteq> F" by auto
  from set_stake_mono[OF this, of c] show False using assms by simp
qed

lemma quorum_values_between:
  fixes vs :: "'a :: linorder list"
  assumes wf: "committee_wf c" and F: "set_stake c F \<le> fault_budget c"
    and low: "unat (c_quorum_threshold c) \<le> set_stake c {i. i < committee_size c \<and> low \<le> vs ! i}"
      "set_stake c {i. i < committee_size c \<and> low < vs ! i} < unat (c_quorum_threshold c)"
    and high: "unat (c_quorum_threshold c) \<le> set_stake c {i. i < committee_size c \<and> vs ! i \<le> high}"
      "set_stake c {i. i < committee_size c \<and> vs ! i < high} < unat (c_quorum_threshold c)"
  shows "low \<le> high \<and> (\<exists>i < committee_size c. i \<notin> F \<and> vs ! i \<le> low) \<and> (\<exists>j < committee_size c. j \<notin> F \<and> high \<le> vs ! j)"
proof (intro conjI)
  from committee_quorums.common_correct[OF wf low(1) high(1), of "{}"] show "low \<le> high" by auto
  have b: "unat (c_quorum_threshold c) + fault_budget c \<le> auths_total (c_authorities c)" using wf by (simp add: committee_wf_def)
  have "set_stake c F < set_stake c {i. i < committee_size c \<and> \<not> low < vs ! i}"
    using set_stake_compl[of c "\<lambda>i. low < vs ! i"] low(2) b F by simp
  from correct_member[OF this] show "\<exists>i < committee_size c. i \<notin> F \<and> vs ! i \<le> low" by auto
  have "set_stake c F < set_stake c {i. i < committee_size c \<and> \<not> vs ! i < high}"
    using set_stake_compl[of c "\<lambda>i. vs ! i < high"] high(2) b F by simp
  from correct_member[OF this] show "\<exists>j < committee_size c. j \<notin> F \<and> high \<le> vs ! j" by auto
qed

text \<open>The descending quorum value is the greatest that a quorum reaches.\<close>

lemma quorum_rank:
  assumes "unat q \<le> set_stake c {i. i < committee_size c \<and> low \<le> f i}" and "set_stake c {i. i < committee_size c \<and> low < f i} < unat q"
  shows "unat q \<le> set_stake c {i. i < committee_size c \<and> r \<le> f i} \<longleftrightarrow> r \<le> (low :: nat)"
proof
  assume q: "unat q \<le> set_stake c {i. i < committee_size c \<and> r \<le> f i}"
  show "r \<le> low"
  proof (rule ccontr)
    assume "\<not> r \<le> low"
    then have "{i. i < committee_size c \<and> r \<le> f i} \<subseteq> {i. i < committee_size c \<and> low < f i}" by auto
    from set_stake_mono[OF this, of c] q assms(2) show False by simp
  qed
next
  assume "r \<le> low"
  then have "{i. i < committee_size c \<and> low \<le> f i} \<subseteq> {i. i < committee_size c \<and> r \<le> f i}" by auto
  from set_stake_mono[OF this, of c] assms(1) show "unat q \<le> set_stake c {i. i < committee_size c \<and> r \<le> f i}" by simp
qed

end
