(* ===== verification/Linearizer.thy ===== *)
theory Linearizer
  imports Commit_Safety Weighted_Rank
begin

text \<open>
  Expanding committed leaders into sub-dags (\<^verbatim>\<open>consensus/core/src/linearizer.rs\<close>): the traversal
  that collects the uncommitted causal history of a leader, the commit timestamp as the stake-weighted
  median of the leader's parents, and the commit itself. The serialization of a commit by the
  \<^verbatim>\<open>bcs\<close> crate is the argument \<open>bcs\<close>.
  The lemmas show that the traversal returns, collects exactly the uncommitted causal history above the garbage
  collection round, each block once, and depends only on the blocks and the committed marks.
\<close>

subsection \<open>Operations\<close>

definition mark_committed :: "verified_block \<Rightarrow> dag_state \<Rightarrow> dag_state option" where
  "mark_committed b ds = do {
     (ds, new) \<leftarrow> ds_set_committed (reference b) ds;
     assert_that new;
     Some ds
   }"

text \<open>The loop; the buffer is a stack whose top is the end of the source's vector.\<close>

partial_function (option) linearize_loop ::
  "round \<Rightarrow> verified_block list \<Rightarrow> verified_block list \<Rightarrow> dag_state \<Rightarrow> (dag_state \<times> verified_block list) option" where
  "linearize_loop gc_round buffer to_commit ds =
     (case buffer of
        [] \<Rightarrow> Some (ds, to_commit)
      | x # rest \<Rightarrow> do {
          refs \<leftarrow> filterM (\<lambda>a. if br_round a > gc_round then map_option Not (ds_is_committed ds a) else Some False) (vb_ancestors x);
          ancestors \<leftarrow> mapM id (ds_get_blocks ds refs);
          ds \<leftarrow> foldM mark_committed ancestors ds;
          linearize_loop gc_round (rev ancestors @ rest) (to_commit @ [x]) ds
        })"

declare linearize_loop.simps [code]

definition linearize_sub_dag :: "verified_block \<Rightarrow> dag_state \<Rightarrow> (dag_state \<times> verified_block list) option" where
  "linearize_sub_dag leader_block ds = do {
     let gc_round = ds_gc_round ds;
     ds \<leftarrow> mark_committed leader_block ds;
     (ds, to_commit) \<leftarrow> linearize_loop gc_round [leader_block] [] ds;
     assert_that (\<forall>b\<in>set to_commit. vb_round b > gc_round);
     Some (ds, sort_sub_dag_blocks to_commit)
   }"

fun median_loop :: "(timestamp_ms \<times> stake) list \<Rightarrow> stake \<Rightarrow> stake \<Rightarrow> timestamp_ms option" where
  "median_loop [] total_stake cumulative = None"
| "median_loop ((ts, stake) # rest) total_stake cumulative =
     (let cumulative = cumulative + stake
      in if cumulative > total_stake div 2 then Some ts else median_loop rest total_stake cumulative)"

text \<open>The outer option is the panic of \<^verbatim>\<open>last().unwrap()\<close> on an empty vector.\<close>

definition median_timestamps_by_stake_inner :: "(timestamp_ms \<times> stake) list \<Rightarrow> stake \<Rightarrow> timestamp_ms option" where
  "median_timestamps_by_stake_inner timestamps total_stake =
     (let sorted = sort_key fst timestamps
      in case median_loop sorted total_stake 0 of
           Some ts \<Rightarrow> Some ts
         | None \<Rightarrow> map_option fst (last_opt sorted))"

text \<open>The result type is the panic around the source's \<^verbatim>\<open>Result\<close>, its error a message.\<close>

definition median_timestamp_by_stake :: "consensus_context \<Rightarrow> verified_block list \<Rightarrow> (string + timestamp_ms) option" where
  "median_timestamp_by_stake ctx blocks = do {
     stakes \<leftarrow> mapM (\<lambda>b. committee_stake (cx_committee ctx) (vb_author b)) blocks;
     let timestamps = zip (map vb_timestamp_ms blocks) stakes;
     let total_stake = sum_list stakes;
     if timestamps = [] then Some (Inl ''No blocks provided'')
     else if total_stake < c_quorum_threshold (cx_committee ctx) then Some (Inl ''Total stake < quorum threshold'')
     else do {
       ts \<leftarrow> median_timestamps_by_stake_inner timestamps total_stake;
       Some (Inr ts)
     }
   }"

definition calculate_commit_timestamp ::
  "consensus_context \<Rightarrow> dag_state \<Rightarrow> verified_block \<Rightarrow> timestamp_ms \<Rightarrow> timestamp_ms option" where
  "calculate_commit_timestamp ctx ds leader_block last_commit_timestamp_ms = do {
     let block_refs = filter (\<lambda>r. br_round r = vb_round leader_block - 1) (vb_ancestors leader_block);
     blocks \<leftarrow> mapM id (ds_get_blocks ds block_refs);
     median \<leftarrow> median_timestamp_by_stake ctx blocks;
     (case median of
        Inl e \<Rightarrow> None
      | Inr ts \<Rightarrow> Some (max ts last_commit_timestamp_ms))
   }"

definition collect_sub_dag_and_commit ::
  "crypto \<Rightarrow> (commit \<Rightarrow> string + bytes) \<Rightarrow> consensus_context \<Rightarrow> verified_block \<Rightarrow> dag_state \<Rightarrow>
   (dag_state \<times> committed_sub_dag \<times> trusted_commit) option" where
  "collect_sub_dag_and_commit cy bcs ctx leader_block ds = do {
     let last_commit_index = ds_last_commit_index ds;
     let last_commit_digest = ds_last_commit_digest ds;
     let last_commit_timestamp_ms = ds_last_commit_timestamp_ms ds;
     (ds, to_commit) \<leftarrow> linearize_sub_dag leader_block ds;
     timestamp_ms \<leftarrow> calculate_commit_timestamp ctx ds leader_block last_commit_timestamp_ms;
     let cm = commit_new (last_commit_index + 1) last_commit_digest timestamp_ms (reference leader_block) (map reference to_commit);
     serialized \<leftarrow> (case bcs cm of Inl e \<Rightarrow> None | Inr s \<Rightarrow> Some s);
     let tc = new_trusted cy cm serialized;
     Some (ds, committed_sub_dag_new (reference leader_block) to_commit timestamp_ms (tcm_reference tc), tc)
   }"

text \<open>The metric of pruned blocks only reads; what matters of it is that its lookups may panic.\<close>

definition update_blocks_pruned_metric :: "consensus_context \<Rightarrow> dag_state \<Rightarrow> committed_sub_dag \<Rightarrow> unit option" where
  "update_blocks_pruned_metric ctx ds sub_dag = do {
     _ \<leftarrow> mapM (\<lambda>r. if br_round r \<le> ds_gc_round ds
                     then do {
                       last \<leftarrow> vec_get (ds_last_committed_rounds ds) (br_author r);
                       if last \<noteq> br_round r then map_option (\<lambda>_. ()) (committee_authority (cx_committee ctx) (br_author r))
                       else Some ()
                     }
                     else Some ())
            (concat (map vb_ancestors (csd_blocks sub_dag)));
     Some ()
   }"

definition handle_leader ::
  "crypto \<Rightarrow> (commit \<Rightarrow> string + bytes) \<Rightarrow> consensus_context \<Rightarrow> verified_block \<Rightarrow> dag_state \<times> committed_sub_dag list \<Rightarrow>
   (dag_state \<times> committed_sub_dag list) option" where
  "handle_leader cy bcs ctx leader_block acc = (case acc of (ds, sub_dags) \<Rightarrow> do {
     (ds, sub_dag, commit) \<leftarrow> collect_sub_dag_and_commit cy bcs ctx leader_block ds;
     _ \<leftarrow> update_blocks_pruned_metric ctx ds sub_dag;
     ds \<leftarrow> ds_add_commit commit ds;
     Some (ds, sub_dags @ [sub_dag])
   })"

definition handle_commit ::
  "crypto \<Rightarrow> (commit \<Rightarrow> string + bytes) \<Rightarrow> consensus_context \<Rightarrow> verified_block list \<Rightarrow> dag_state \<Rightarrow>
   (dag_state \<times> committed_sub_dag list) option" where
  "handle_commit cy bcs ctx committed_leaders ds =
     (if committed_leaders = [] then Some (ds, []) else foldM (handle_leader cy bcs ctx) committed_leaders (ds, []))"

subsection \<open>Committed marks\<close>

definition marks :: "dag_state \<Rightarrow> block_ref set" where
  "marks ds = {r. \<exists>bi. fmlookup (ds_recent_blocks ds) r = Some bi \<and> bi_committed bi}"

lemma is_committed_iff: "ds_cached ds r \<noteq> None \<Longrightarrow> ds_is_committed ds r = Some (r \<in> marks ds)"
  by (auto simp: ds_cached_def ds_is_committed_def marks_def)

lemma view_ok_same:
  assumes "ds_same_cache ds ds'" and "view_ok c ds"
  shows "view_ok c ds'"
proof -
  note get = ds_same_cache_get[OF assms(1)]
  have fr: "ds_context ds' = ds_context ds" "ds_gc_round ds' = ds_gc_round ds"
    using ds_frame_sel[of ds' ds] assms(1) by (simp_all add: ds_same_cache_def)
  have "ds_parent ds' = ds_parent ds" by (simp add: fun_eq_iff ds_parent_def get)
  then show ?thesis
    using assms(2) ds_same_cache_inv[OF assms(1)] by (auto simp: view_ok_def ds_complete_def ds_verified_def get fr)
qed

lemma mark_committed_step:
  assumes "ds_cached ds (reference b) \<noteq> None" and "reference b \<notin> marks ds"
  shows "\<exists>ds'. mark_committed b ds = Some ds' \<and> ds_same_cache ds ds' \<and> marks ds' = insert (reference b) (marks ds)"
proof -
  from assms(1) obtain bi where bi: "fmlookup (ds_recent_blocks ds) (reference b) = Some bi" by (auto simp: ds_cached_def)
  with assms(2) have "\<not> bi_committed bi" by (auto simp: marks_def)
  let ?ds = "ds\<lparr>ds_recent_blocks := fmupd (reference b) (bi\<lparr>bi_committed := True\<rparr>) (ds_recent_blocks ds)\<rparr>"
  have "mark_committed b ds = Some ?ds" using bi \<open>\<not> bi_committed bi\<close> by (simp add: mark_committed_def ds_set_committed_def)
  moreover have "ds_same_cache ds ?ds" by (rule ds_same_cache_upd[OF bi]) simp
  moreover have "marks ?ds = insert (reference b) (marks ds)" by (auto simp: marks_def)
  ultimately show ?thesis by blast
qed

lemma mark_committed_all:
  assumes "\<forall>b\<in>set bs. ds_cached ds (reference b) \<noteq> None \<and> reference b \<notin> marks ds" and "distinct (map reference bs)"
  shows "\<exists>ds'. foldM mark_committed bs ds = Some ds' \<and> ds_same_cache ds ds' \<and> marks ds' = marks ds \<union> reference ` set bs"
  using assms
proof (induction bs arbitrary: ds)
  case (Cons b bs)
  from mark_committed_step[of ds b] Cons.prems(1) obtain ds1 where
    ds1: "mark_committed b ds = Some ds1" "ds_same_cache ds ds1" "marks ds1 = insert (reference b) (marks ds)" by auto
  have "reference x \<noteq> reference b" if "x \<in> set bs" for x using Cons.prems(2) that by (auto simp: image_iff)
  then have "\<forall>x\<in>set bs. ds_cached ds1 (reference x) \<noteq> None \<and> reference x \<notin> marks ds1"
    using Cons.prems(1) ds1(2,3) by (auto simp: ds_same_cache_def)
  from Cons.IH[OF this] Cons.prems(2) obtain ds' where
    "foldM mark_committed bs ds1 = Some ds'" "ds_same_cache ds1 ds'" "marks ds' = marks ds1 \<union> reference ` set bs" by auto
  then show ?case using ds1 ds_same_cache_trans[OF ds1(2)] by auto
qed auto

subsection \<open>The traversal\<close>

text \<open>The links the traversal follows: to blocks above the garbage collection round that are not committed.\<close>

definition fresh_link :: "dag_state \<Rightarrow> block_ref \<Rightarrow> block_ref \<Rightarrow> bool" where
  "fresh_link ds x y \<longleftrightarrow> ds_parent ds x y \<and> ds_gc_round ds < br_round y \<and> y \<notin> marks ds"

definition fresh_parents :: "dag_state \<Rightarrow> verified_block \<Rightarrow> block_ref list" where
  "fresh_parents ds x = filter (\<lambda>a. ds_gc_round ds < br_round a \<and> a \<notin> marks ds) (vb_ancestors x)"

definition blocks_of :: "dag_state \<Rightarrow> block_ref list \<Rightarrow> verified_block list" where
  "blocks_of ds refs = map (\<lambda>r. the (ds_get_block ds r)) refs"

lemma distinct_ancestors:
  assumes "view_ok c ds" and "ds_get_block ds (reference x) = Some x" and "0 < vb_round x"
  shows "distinct (vb_ancestors x)"
  using view_ok_ancestors(1)[OF assms(1,2)] assms(3) by (simp add: ancestors_wf_def distinct_map)

lemma blocks_of_served:
  assumes v: "view_ok c ds" and x: "ds_get_block ds (reference x) = Some x"
  shows "map (ds_get_block ds) (fresh_parents ds x) = map Some (blocks_of ds (fresh_parents ds x))"
    and "map reference (blocks_of ds (fresh_parents ds x)) = fresh_parents ds x"
proof -
  have s: "ds_get_block ds r = Some (the (ds_get_block ds r)) \<and> reference (the (ds_get_block ds r)) = r"
    if "r \<in> set (fresh_parents ds x)" for r
  proof -
    from that have "r \<in> set (vb_ancestors x)" "ds_gc_round ds < br_round r" by (simp_all add: fresh_parents_def)
    from view_ok_round(2)[OF v x this] obtain b where b: "ds_get_block ds r = Some b" by blast
    then show ?thesis using ds_get_block_reference[OF view_okD(1)[OF v] b] by simp
  qed
  then show "map (ds_get_block ds) (fresh_parents ds x) = map Some (blocks_of ds (fresh_parents ds x))"
    "map reference (blocks_of ds (fresh_parents ds x)) = fresh_parents ds x"
    by (auto simp: blocks_of_def intro: map_idI)
qed

lemma linearize_step:
  assumes v: "view_ok c ds" and x: "ds_get_block ds (reference x) = Some x" and gc: "ds_gc_round ds < vb_round x"
  shows "\<exists>ds2. linearize_loop (ds_gc_round ds) (x # rest) out ds =
      linearize_loop (ds_gc_round ds) (rev (blocks_of ds (fresh_parents ds x)) @ rest) (out @ [x]) ds2 \<and>
    ds_same_cache ds ds2 \<and> marks ds2 = marks ds \<union> set (fresh_parents ds x)"
proof -
  let ?A = "fresh_parents ds x" and ?gc = "ds_gc_round ds"
  have cached: "ds_cached ds r \<noteq> None" if "r \<in> set (vb_ancestors x)" "?gc < br_round r" for r
    using view_ok_round(2)[OF v x that] ds_get_above_gc[OF view_okD(1)[OF v] that(2)] by auto
  have "(if ?gc < br_round a then map_option Not (ds_is_committed ds a) else Some False) = Some (?gc < br_round a \<and> a \<notin> marks ds)"
    if "a \<in> set (vb_ancestors x)" for a
    using cached[OF that] is_committed_iff[of ds a] by auto
  then have f: "filterM (\<lambda>a. if ?gc < br_round a then map_option Not (ds_is_committed ds a) else Some False) (vb_ancestors x) = Some ?A"
    unfolding fresh_parents_def by (rule filterM_total)
  note b = blocks_of_served[OF v x]
  have m: "mapM id (ds_get_blocks ds ?A) = Some (blocks_of ds ?A)"
    unfolding ds_get_blocks_map b(1) mapM_Some_iff by (simp add: list_all2_map1 list_all2_refl)
  have "distinct (map reference (blocks_of ds ?A))"
    unfolding b(2) using distinct_ancestors[OF v x] gc by (simp add: fresh_parents_def)
  moreover have "\<forall>b\<in>set (blocks_of ds ?A). ds_cached ds (reference b) \<noteq> None \<and> reference b \<notin> marks ds"
  proof
    fix y assume "y \<in> set (blocks_of ds ?A)"
    then have "reference y \<in> set (map reference (blocks_of ds ?A))" by simp
    then have "reference y \<in> set ?A" unfolding b(2) .
    then show "ds_cached ds (reference y) \<noteq> None \<and> reference y \<notin> marks ds" using cached by (auto simp: fresh_parents_def)
  qed
  ultimately obtain ds2 where ds2: "foldM mark_committed (blocks_of ds ?A) ds = Some ds2" "ds_same_cache ds ds2"
      "marks ds2 = marks ds \<union> reference ` set (blocks_of ds ?A)"
    using mark_committed_all by blast
  have "reference ` set (blocks_of ds ?A) = set ?A" using arg_cong[OF b(2), of set] by simp
  moreover have "linearize_loop ?gc (x # rest) out ds = linearize_loop ?gc (rev (blocks_of ds ?A) @ rest) (out @ [x]) ds2"
    by (subst linearize_loop.simps) (simp add: f m ds2(1))
  ultimately show ?thesis using ds2(2,3) by auto
qed

text \<open>How many cached blocks above the garbage collection round are not committed: each step marks some or shortens the buffer.\<close>

definition unmarked :: "dag_state \<Rightarrow> block_ref set" where
  "unmarked ds = {r. ds_cached ds r \<noteq> None \<and> ds_gc_round ds < br_round r \<and> r \<notin> marks ds}"

lemma finite_unmarked: "finite (unmarked ds)"
proof -
  have "unmarked ds \<subseteq> fset (fmdom (ds_recent_blocks ds))" by (auto simp: unmarked_def ds_cached_def fmlookup_dom_iff)
  then show ?thesis by (rule finite_subset) simp
qed

lemma ds_same_cache_sel:
  assumes "ds_same_cache ds ds'"
  shows "ds_gc_round ds' = ds_gc_round ds" "ds_cached ds' = ds_cached ds" "ds_get_block ds' = ds_get_block ds"
    "ds_parent ds' = ds_parent ds" "ds_context ds' = ds_context ds"
  using assms ds_frame_sel[of ds' ds] ds_same_cache_get[OF assms]
  by (simp_all add: ds_same_cache_def ds_parent_def fun_eq_iff)

lemma unmarked_step:
  assumes v: "view_ok c ds" and x: "ds_get_block ds (reference x) = Some x"
    and ds2: "ds_same_cache ds ds2" "marks ds2 = marks ds \<union> set (fresh_parents ds x)"
  shows "card (unmarked ds2) < card (unmarked ds) \<or> fresh_parents ds x = [] \<and> unmarked ds2 = unmarked ds"
proof (cases "fresh_parents ds x")
  case Nil
  then show ?thesis using ds2 ds_same_cache_sel[OF ds2(1)] by (simp add: unmarked_def)
next
  case (Cons a as)
  then have "a \<in> set (fresh_parents ds x)" by simp
  then have a: "a \<in> set (vb_ancestors x)" "ds_gc_round ds < br_round a" "a \<notin> marks ds" by (simp_all add: fresh_parents_def)
  have "ds_cached ds a \<noteq> None" using view_ok_round(2)[OF v x a(1,2)] ds_get_above_gc[OF view_okD(1)[OF v] a(2)] by auto
  then have "a \<in> unmarked ds" "a \<notin> unmarked ds2" using a ds2(2) Cons by (auto simp: unmarked_def)
  moreover have "unmarked ds2 \<subseteq> unmarked ds" using ds2 ds_same_cache_sel[OF ds2(1)] by (auto simp: unmarked_def)
  ultimately have "unmarked ds2 \<subset> unmarked ds" by blast
  then show ?thesis using psubset_card_mono[OF finite_unmarked] by blast
qed

definition same_marks :: "dag_state \<Rightarrow> dag_state \<Rightarrow> bool" where
  "same_marks ds ds' \<longleftrightarrow> ds_gc_round ds' = ds_gc_round ds \<and> (\<forall>r. ds_gc_round ds < br_round r \<longrightarrow> (r \<in> marks ds' \<longleftrightarrow> r \<in> marks ds))"

definition buffer_ok :: "dag_state \<Rightarrow> verified_block list \<Rightarrow> bool" where
  "buffer_ok ds buffer \<longleftrightarrow> distinct (map reference buffer) \<and> reference ` set buffer \<subseteq> marks ds \<and>
     (\<forall>b\<in>set buffer. ds_get_block ds (reference b) = Some b \<and> ds_gc_round ds < vb_round b)"

text \<open>What the loop adds to its output, started on a buffer of blocks already marked.\<close>

definition linearized :: "dag_state \<Rightarrow> verified_block list \<Rightarrow> verified_block list \<Rightarrow> dag_state \<Rightarrow> bool" where
  "linearized ds buffer out e \<longleftrightarrow> ds_same_cache ds e \<and> distinct (map reference out) \<and> marks ds \<subseteq> marks e \<and>
     reference ` set out = reference ` set buffer \<union> (marks e - marks ds) \<and>
     (\<forall>b\<in>set out. ds_get_block ds (reference b) = Some b \<and> ds_gc_round ds < vb_round b \<and>
        (\<forall>a\<in>set (vb_ancestors b). ds_gc_round ds < br_round a \<longrightarrow> a \<in> marks e)) \<and>
     (\<forall>y\<in>marks e - marks ds. \<exists>b\<in>set buffer. (fresh_link ds)\<^sup>+\<^sup>+ (reference b) y)"

lemma buffer_ok_step:
  assumes v: "view_ok c ds" and b: "buffer_ok ds (x # rest)"
    and ds2: "ds_same_cache ds ds2" "marks ds2 = marks ds \<union> set (fresh_parents ds x)"
  shows "buffer_ok ds2 (rev (blocks_of ds (fresh_parents ds x)) @ rest)"
proof -
  let ?A = "fresh_parents ds x"
  have x: "ds_get_block ds (reference x) = Some x" "ds_gc_round ds < vb_round x" using b by (auto simp: buffer_ok_def)
  note bl = blocks_of_served[OF v x(1)]
  have refs: "reference ` set (blocks_of ds ?A) = set ?A" using arg_cong[OF bl(2), of set] by simp
  have "distinct ?A" using distinct_ancestors[OF v x(1)] x(2) by (simp add: fresh_parents_def)
  moreover have "set ?A \<inter> marks ds = {}" by (auto simp: fresh_parents_def)
  ultimately have "distinct (map reference (rev (blocks_of ds ?A) @ rest))"
    using b refs bl(2) by (auto simp: buffer_ok_def rev_map[symmetric])
  moreover have "ds_get_block ds (reference y) = Some y \<and> ds_gc_round ds < vb_round y" if "y \<in> set (blocks_of ds ?A)" for y
  proof -
    have r: "reference y \<in> set ?A" using that refs by auto
    then have "ds_get_block ds (reference y) \<in> set (map Some (blocks_of ds ?A))" unfolding bl(1)[symmetric] by simp
    then obtain z where z: "ds_get_block ds (reference y) = Some z" by auto
    from that obtain r' where "r' \<in> set ?A" "y = the (ds_get_block ds r')" by (auto simp: blocks_of_def)
    moreover from this have "ds_get_block ds r' \<in> set (map Some (blocks_of ds ?A))" unfolding bl(1)[symmetric] by simp
    ultimately have "ds_get_block ds r' = Some y" by auto
    then have "ds_get_block ds (reference y) = Some y" using ds_get_block_reference[OF view_okD(1)[OF v]] by metis
    then show ?thesis using r by (auto simp: fresh_parents_def)
  qed
  ultimately show ?thesis
    using b refs ds2(2) ds_same_cache_sel[OF ds2(1)] by (auto simp: buffer_ok_def)
qed

lemma tranclp_weaken: "R\<^sup>+\<^sup>+ x y \<Longrightarrow> (\<And>a b. R a b \<Longrightarrow> S a b) \<Longrightarrow> S\<^sup>+\<^sup>+ x y"
  by (induction rule: tranclp_induct) (auto intro: tranclp.intros)

lemma linearized_step:
  assumes v: "view_ok c ds" and b: "buffer_ok ds (x # rest)"
    and ds2: "ds_same_cache ds ds2" "marks ds2 = marks ds \<union> set (fresh_parents ds x)"
    and l: "linearized ds2 (rev (blocks_of ds (fresh_parents ds x)) @ rest) res e"
  shows "linearized ds (x # rest) (x # res) e"
proof -
  let ?A = "fresh_parents ds x"
  note sel = ds_same_cache_sel[OF ds2(1)]
  have x: "ds_get_block ds (reference x) = Some x" "ds_gc_round ds < vb_round x" "reference x \<in> marks ds" "reference x \<notin> reference ` set rest"
    using b by (auto simp: buffer_ok_def)
  have refs: "reference ` set (blocks_of ds ?A) = set ?A" using arg_cong[OF blocks_of_served(2)[OF v x(1)], of set] by simp
  have A: "set ?A \<inter> marks ds = {}" "set ?A \<subseteq> marks e" "marks ds \<subseteq> marks e" using l ds2(2) by (auto simp: fresh_parents_def linearized_def)
  have out: "reference ` set res = set ?A \<union> reference ` set rest \<union> (marks e - marks ds2)" "distinct (map reference res)" "ds_same_cache ds2 e"
    using l refs by (auto simp: linearized_def image_Un)
  have "reference x \<notin> reference ` set res" using out(1) x(3,4) A(1) ds2(2) by auto
  then have "distinct (map reference (x # res))" using out(2) by simp
  moreover have "reference ` set (x # res) = reference ` set (x # rest) \<union> (marks e - marks ds)"
    using out(1) A ds2(2) by auto
  moreover have "\<forall>a\<in>set (vb_ancestors x). ds_gc_round ds < br_round a \<longrightarrow> a \<in> marks e"
    using A by (auto simp: fresh_parents_def)
  moreover have "\<exists>b\<in>set (x # rest). (fresh_link ds)\<^sup>+\<^sup>+ (reference b) y" if y: "y \<in> marks e - marks ds" for y
  proof -
    have link: "fresh_link ds (reference x) a" if "a \<in> set ?A" for a
      using that x(1) by (auto simp: fresh_link_def fresh_parents_def ds_parent_def)
    have mono: "(fresh_link ds2)\<^sup>+\<^sup>+ u w \<Longrightarrow> (fresh_link ds)\<^sup>+\<^sup>+ u w" for u w
      by (erule tranclp_weaken) (auto simp: fresh_link_def sel ds2(2))
    consider "y \<in> set ?A" | "y \<in> marks e - marks ds2" using y ds2(2) by blast
    then show ?thesis
    proof cases
      case 1
      then show ?thesis using link by auto
    next
      case 2
      then obtain z where z: "z \<in> set (rev (blocks_of ds ?A) @ rest)" "(fresh_link ds2)\<^sup>+\<^sup>+ (reference z) y"
        using l unfolding linearized_def by blast
      show ?thesis
      proof (cases "z \<in> set rest")
        case False
        then have "reference z \<in> set ?A" using z(1) refs by auto
        then show ?thesis using link mono[OF z(2)] by (auto intro: tranclp_into_tranclp2)
      qed (use mono[OF z(2)] in auto)
    qed
  qed
  ultimately show ?thesis
    using l x(1,2) A(3) ds_same_cache_trans[OF ds2(1) out(3)] by (simp add: linearized_def sel)
qed

lemma linearized_done: "linearized ds [] [] ds"
  by (simp add: linearized_def)

text \<open>The traversal returns, and in two views with the same committed blocks it returns the same list.\<close>

lemma linearize_loop_joint:
  assumes "view_of c U ds" and "view_of c U ds'" and "same_marks ds ds'" and "buffer_ok ds buffer" and "buffer_ok ds' buffer"
  shows "\<exists>e e' res. linearize_loop (ds_gc_round ds) buffer out ds = Some (e, out @ res) \<and>
    linearize_loop (ds_gc_round ds) buffer out ds' = Some (e', out @ res) \<and>
    linearized ds buffer res e \<and> ds_same_cache ds' e' \<and> same_marks e e'"
  using assms
proof (induction "(ds, buffer)" arbitrary: ds ds' buffer out
    rule: wf_induct_rule[OF wf_measures[of "[\<lambda>p. card (unmarked (fst p)), \<lambda>p. length (snd p)]"], case_names less])
  case less
  note v = view_ofD(1)[OF less.prems(1)] view_ofD(1)[OF less.prems(2)]
  show ?case
  proof (cases buffer)
    case Nil
    then have "linearize_loop (ds_gc_round ds) buffer out d = Some (d, out @ [])" for d by (simp add: linearize_loop.simps)
    then show ?thesis using less.prems(3) linearized_done[of ds] Nil by (metis ds_same_cache_refl)
  next
    case (Cons x rest)
    let ?A = "fresh_parents ds x" and ?gc = "ds_gc_round ds"
    let ?buf = "rev (blocks_of ds ?A) @ rest"
    have x: "ds_get_block ds (reference x) = Some x" "?gc < vb_round x" "ds_get_block ds' (reference x) = Some x"
      using less.prems(4,5) Cons by (auto simp: buffer_ok_def)
    have gc: "ds_gc_round ds' = ?gc" using less.prems(3) by (simp add: same_marks_def)
    have A': "fresh_parents ds' x = ?A"
      unfolding fresh_parents_def using less.prems(3) by (intro filter_cong) (auto simp: same_marks_def)
    have B': "blocks_of ds' ?A = blocks_of ds ?A"
    proof -
      have "map Some (blocks_of ds' ?A) = map (ds_get_block ds') ?A" using blocks_of_served(1)[OF v(2) x(3)] by (simp add: A')
      also have "\<dots> = map (ds_get_block ds) ?A"
      proof (rule map_cong[OF refl])
        fix r assume r: "r \<in> set ?A"
        then have "ds_get_block ds r \<in> set (map Some (blocks_of ds ?A))" unfolding blocks_of_served(1)[OF v(1) x(1), symmetric] by simp
        then obtain b where b: "ds_get_block ds r = Some b" by auto
        have "ds_get_block ds' r \<in> set (map Some (blocks_of ds' ?A))"
          using r blocks_of_served(1)[OF v(2) x(3)] unfolding A' by (metis image_eqI list.set_map)
        then show "ds_get_block ds' r = ds_get_block ds r" using same_content[OF less.prems(1,2) b] b by auto
      qed
      also have "\<dots> = map Some (blocks_of ds ?A)" by (rule blocks_of_served(1)[OF v(1) x(1)])
      finally show ?thesis by (simp add: inj_map_eq_map)
    qed
    from linearize_step[OF v(1) x(1,2), of rest out] obtain ds2 where
      ds2: "linearize_loop ?gc (x # rest) out ds = linearize_loop ?gc ?buf (out @ [x]) ds2"
        "ds_same_cache ds ds2" "marks ds2 = marks ds \<union> set ?A" by blast
    from linearize_step[OF v(2) x(3), of rest out] x(2) obtain ds2' where
      ds2': "linearize_loop ?gc (x # rest) out ds' = linearize_loop ?gc ?buf (out @ [x]) ds2'"
        "ds_same_cache ds' ds2'" "marks ds2' = marks ds' \<union> set ?A" by (auto simp: gc A' B')
    note sel = ds_same_cache_sel[OF ds2(2)] and sel' = ds_same_cache_sel[OF ds2'(2)]
    have dec: "((ds2, ?buf), (ds, buffer)) \<in> measures [\<lambda>p. card (unmarked (fst p)), \<lambda>p. length (snd p)]"
      using unmarked_step[OF v(1) x(1) ds2(2,3)] Cons by (auto simp: blocks_of_def)
    have v2: "view_of c U ds2" "view_of c U ds2'"
      using view_ok_same[OF ds2(2) v(1)] view_ok_same[OF ds2'(2) v(2)] less.prems(1,2) by (simp_all add: view_of_def sel sel')
    have m2: "same_marks ds2 ds2'" using less.prems(3) ds2(3) ds2'(3) by (auto simp: same_marks_def sel sel')
    have b2: "buffer_ok ds2 ?buf" using buffer_ok_step[OF v(1) _ ds2(2,3)] less.prems(4) Cons by simp
    have b2': "buffer_ok ds2' ?buf"
      using buffer_ok_step[OF v(2) _ ds2'(2), of x rest] less.prems(5) ds2'(3) Cons by (simp add: A' B')
    from less.hyps[OF dec v2 m2 b2 b2', of "out @ [x]"] obtain e e' res where
      r: "linearize_loop (ds_gc_round ds2) ?buf (out @ [x]) ds2 = Some (e, (out @ [x]) @ res)"
        "linearize_loop (ds_gc_round ds2) ?buf (out @ [x]) ds2' = Some (e', (out @ [x]) @ res)"
        "linearized ds2 ?buf res e" "ds_same_cache ds2' e'" "same_marks e e'" by blast
    have "linearized ds buffer (x # res) e"
      unfolding Cons by (rule linearized_step[OF v(1) _ ds2(2,3) r(3)]) (use less.prems(4) Cons in simp)
    then show ?thesis
      using r(1,2,5) ds2(1) ds2'(1) ds_same_cache_trans[OF ds2'(2) r(4)] unfolding Cons
      by (intro exI[of _ e] exI[of _ e'] exI[of _ "x # res"]) (simp add: sel)
  qed
qed

subsection \<open>Sub-dags\<close>

definition committed_closed :: "dag_state \<Rightarrow> bool" where
  "committed_closed ds \<longleftrightarrow> (\<forall>r\<in>marks ds. \<forall>a. ds_parent ds r a \<longrightarrow> ds_gc_round ds < br_round a \<longrightarrow> a \<in> marks ds)"

definition uncommitted_history :: "dag_state \<Rightarrow> block_ref \<Rightarrow> block_ref set" where
  "uncommitted_history ds l = {r. ds_gc_round ds < br_round r \<and> r \<notin> marks ds \<and> (ds_parent ds)\<^sup>*\<^sup>* l r}"

lemma linearized_closed:
  assumes "linearized ds buffer res e" and "\<forall>r\<in>marks ds - reference ` set buffer. \<forall>a. ds_parent ds r a \<longrightarrow> ds_gc_round ds < br_round a \<longrightarrow> a \<in> marks ds"
    and "reference ` set buffer \<subseteq> marks ds"
  shows "r \<in> marks e \<Longrightarrow> ds_parent ds r a \<Longrightarrow> ds_gc_round ds < br_round a \<Longrightarrow> a \<in> marks e"
proof -
  assume r: "r \<in> marks e" and p: "ds_parent ds r a" and gc: "ds_gc_round ds < br_round a"
  show "a \<in> marks e"
  proof (cases "r \<in> marks ds - reference ` set buffer")
    case True
    then have "a \<in> marks ds" using assms(2) p gc by blast
    moreover have "marks ds \<subseteq> marks e" using assms(1) by (simp add: linearized_def)
    ultimately show ?thesis by blast
  next
    case False
    then have "r \<in> reference ` set res" using r assms(1) unfolding linearized_def by blast
    then obtain b where b: "b \<in> set res" "r = reference b" by blast
    then have "ds_get_block ds r = Some b" "\<forall>a\<in>set (vb_ancestors b). ds_gc_round ds < br_round a \<longrightarrow> a \<in> marks e"
      using assms(1) unfolding linearized_def by auto
    then show ?thesis using p gc by (auto simp: ds_parent_def)
  qed
qed

lemma linearized_history:
  assumes v: "view_ok c ds" and closed: "committed_closed ds" and l: "ds_gc_round ds < vb_round l" "reference l \<notin> marks ds"
    and ds1: "ds_same_cache ds ds1" "marks ds1 = insert (reference l) (marks ds)"
    and res: "linearized ds1 [l] res e"
  shows "reference ` set res = uncommitted_history ds (reference l)" and "marks e = marks ds \<union> reference ` set res"
    and "committed_closed e"
proof -
  note sel = ds_same_cache_sel[OF ds1(1)]
  have se: "ds_same_cache ds1 e" and refs: "reference ` set res = insert (reference l) (marks e - marks ds1)"
    and sub: "marks ds1 \<subseteq> marks e" using res by (auto simp: linearized_def)
  have cl: "a \<in> marks e" if "r \<in> marks e" "ds_parent ds r a" "ds_gc_round ds < br_round a" for r a
  proof (rule linearized_closed[OF res])
    have "marks ds1 - reference ` set [l] \<subseteq> marks ds" using ds1(2) by auto
    then show "\<forall>r\<in>marks ds1 - reference ` set [l]. \<forall>a. ds_parent ds1 r a \<longrightarrow> ds_gc_round ds1 < br_round a \<longrightarrow> a \<in> marks ds1"
      using closed unfolding committed_closed_def sel ds1(2) by blast
  qed (use that ds1(2) sel in simp_all)
  show m: "marks e = marks ds \<union> reference ` set res" using refs sub ds1(2) by auto
  show "committed_closed e"
    using cl ds_same_cache_sel[OF ds_same_cache_trans[OF ds1(1) se]] by (simp add: committed_closed_def)
  have lm: "reference l \<in> marks e" using sub ds1(2) by auto
  show "reference ` set res = uncommitted_history ds (reference l)"
  proof (rule set_eqI, rule iffI)
    fix y assume "y \<in> reference ` set res"
    then consider "y = reference l" | "y \<in> marks e - marks ds1" using refs by blast
    then show "y \<in> uncommitted_history ds (reference l)"
    proof cases
      case 1
      then show ?thesis using l by (simp add: uncommitted_history_def)
    next
      case 2
      then have "(fresh_link ds1)\<^sup>+\<^sup>+ (reference l) y" using res unfolding linearized_def by auto
      moreover from this obtain z where "fresh_link ds1 z y" by (cases rule: tranclp.cases) auto
      moreover have "(ds_parent ds)\<^sup>+\<^sup>+ (reference l) y"
        using calculation(1) by (rule tranclp_weaken) (simp add: fresh_link_def sel)
      ultimately show ?thesis
        using ds1(2) sel by (auto simp: uncommitted_history_def fresh_link_def tranclp_into_rtranclp)
    qed
  next
    fix y assume "y \<in> uncommitted_history ds (reference l)"
    then have y: "ds_gc_round ds < br_round y" "y \<notin> marks ds" "(ds_parent ds)\<^sup>*\<^sup>* (reference l) y"
      by (auto simp: uncommitted_history_def)
    from y(3,1) have "y \<in> marks e"
    proof (induction rule: rtranclp_induct)
      case (step y z)
      then have "br_round z < br_round y" using view_okD(2)[OF v] by (auto simp: ds_complete_def)
      then show ?case using step cl by auto
    qed (rule lm)
    then show "y \<in> reference ` set res" using refs y(2) ds1(2) by auto
  qed
qed

lemma served_cached:
  "view_ok c ds \<Longrightarrow> ds_get_block ds r = Some b \<Longrightarrow> ds_gc_round ds < br_round r \<Longrightarrow> ds_cached ds r \<noteq> None"
  using ds_get_above_gc[OF view_okD(1), of c ds r] by simp

lemma linearize_joint:
  assumes v: "view_of c U ds" and v': "view_of c U ds'" and m: "same_marks ds ds'" and cl: "committed_closed ds"
    and l: "ds_get_block ds (reference l) = Some l" "ds_get_block ds' (reference l) = Some l"
      "ds_gc_round ds < vb_round l" "reference l \<notin> marks ds"
  shows "\<exists>e e' bs. linearize_sub_dag l ds = Some (e, bs) \<and> linearize_sub_dag l ds' = Some (e', bs) \<and>
    ds_same_cache ds e \<and> ds_same_cache ds' e' \<and> same_marks e e' \<and> distinct (map reference bs) \<and>
    sorted (map (\<lambda>b. (vb_round b, vb_author b)) bs) \<and>
    (\<forall>b\<in>set bs. ds_get_block ds (reference b) = Some b) \<and>
    reference ` set bs = uncommitted_history ds (reference l) \<and> marks e = marks ds \<union> reference ` set bs \<and> committed_closed e"
proof -
  note vo = view_ofD(1)[OF v] view_ofD(1)[OF v']
  have gc: "ds_gc_round ds' = ds_gc_round ds" "reference l \<notin> marks ds'" using m l(3,4) by (auto simp: same_marks_def)
  have c: "ds_cached ds (reference l) \<noteq> None" "ds_cached ds' (reference l) \<noteq> None"
    using served_cached[OF vo(1) l(1)] served_cached[OF vo(2) l(2)] l(3) gc(1) by simp_all
  from mark_committed_step[OF c(1) l(4)] obtain ds1 where
    ds1: "mark_committed l ds = Some ds1" "ds_same_cache ds ds1" "marks ds1 = insert (reference l) (marks ds)" by blast
  from mark_committed_step[OF c(2) gc(2)] obtain ds1' where
    ds1': "mark_committed l ds' = Some ds1'" "ds_same_cache ds' ds1'" "marks ds1' = insert (reference l) (marks ds')" by blast
  note sel = ds_same_cache_sel[OF ds1(2)] and sel' = ds_same_cache_sel[OF ds1'(2)]
  have v1: "view_of c U ds1" "view_of c U ds1'"
    using view_ok_same[OF ds1(2) vo(1)] view_ok_same[OF ds1'(2) vo(2)] v v' by (simp_all add: view_of_def sel sel')
  have m1: "same_marks ds1 ds1'" using m ds1(3) ds1'(3) by (auto simp: same_marks_def sel sel')
  have b1: "buffer_ok ds1 [l]" "buffer_ok ds1' [l]" using l gc ds1(3) ds1'(3) by (simp_all add: buffer_ok_def sel sel')
  from linearize_loop_joint[OF v1 m1 b1, of "[]"] obtain e e' res where
    r: "linearize_loop (ds_gc_round ds) [l] [] ds1 = Some (e, res)" "linearize_loop (ds_gc_round ds) [l] [] ds1' = Some (e', res)"
      "linearized ds1 [l] res e" "ds_same_cache ds1' e'" "same_marks e e'" by (auto simp: sel)
  note h = linearized_history[OF vo(1) cl l(3,4) ds1(2,3) r(3)]
  have ok: "\<forall>b\<in>set res. ds_gc_round ds < vb_round b \<and> ds_get_block ds (reference b) = Some b" "ds_same_cache ds1 e" "distinct (map reference res)"
    using r(3) by (auto simp: linearized_def sel)
  have "linearize_sub_dag l ds = Some (e, sort_sub_dag_blocks res)" "linearize_sub_dag l ds' = Some (e', sort_sub_dag_blocks res)"
    using ds1(1) ds1'(1) r(1,2) ok(1) by (simp_all add: linearize_sub_dag_def Let_def gc(1) assert_that_bind)
  then show ?thesis
    using h ok r(5) ds_same_cache_trans[OF ds1(2) ok(2)] ds_same_cache_trans[OF ds1'(2) r(4)] sorted_sort_sub_dag_blocks
    by (intro exI[of _ e] exI[of _ e'] exI[of _ "sort_sub_dag_blocks res"]) simp
qed

subsection \<open>Commit timestamps\<close>

lemma unat_half: "unat (t div 2 :: u64) = unat t div 2"
  by (simp add: unat_div)

lemma median_loop_spec:
  assumes "sorted (map fst xs)" and "unat cum + weight_where (\<lambda>_. True) xs = unat tot" and "unat cum \<le> unat tot div 2" and "0 < unat tot"
  shows "\<exists>m. median_loop xs tot cum = Some m \<and> m \<in> fst ` set xs \<and>
    unat cum + weight_where (\<lambda>t. t < m) xs \<le> unat tot div 2 \<and> unat tot div 2 < unat cum + weight_where (\<lambda>t. t \<le> m) xs"
  using assms
proof (induction xs arbitrary: cum)
  case (Cons x xs)
  obtain t s where x: "x = (t, s)" by (cases x)
  have "unat cum + unat s \<le> unat tot" using Cons.prems(2) by (simp add: x)
  moreover have "unat tot < 2 ^ 64" using unsigned_less[of tot] by simp
  ultimately have c: "unat (cum + s) = unat cum + unat s" using unat_add_u64[of cum s] by simp
  have ge: "t \<le> fst y" if "y \<in> set xs" for y using Cons.prems(1) that by (simp add: x)
  show ?case
  proof (cases "unat tot div 2 < unat (cum + s)")
    case True
    have "weight_where (\<lambda>t'. t' < t) xs = 0" by (rule weight_where_none) (use ge in fastforce)
    then show ?thesis using True Cons.prems(3) c
      by (intro exI[of _ t]) (simp add: x word_less_nat_alt unat_half)
  next
    case False
    have "unat (cum + s) + weight_where (\<lambda>_. True) xs = unat tot" using Cons.prems(2) c by (simp add: x)
    from Cons.IH[OF _ this _ Cons.prems(4)] Cons.prems(1) False obtain m where
      m: "median_loop xs tot (cum + s) = Some m" "m \<in> fst ` set xs"
        "unat (cum + s) + weight_where (\<lambda>t. t < m) xs \<le> unat tot div 2" "unat tot div 2 < unat (cum + s) + weight_where (\<lambda>t. t \<le> m) xs"
      by (auto simp: x)
    have "t \<le> m" using m(2) ge by auto
    then show ?thesis using m False c by (intro exI[of _ m]) (auto simp: x word_less_nat_alt unat_half)
  qed
qed simp

text \<open>The blocks of distinct members as weighted timestamps.\<close>

definition weighted :: "committee \<Rightarrow> verified_block list \<Rightarrow> (timestamp_ms \<times> stake) list" where
  "weighted c bs = map (\<lambda>b. (vb_timestamp_ms b, a_stake (c_authorities c ! vb_author b))) bs"

lemma weight_where_set_stake:
  assumes "\<forall>b\<in>set bs. vb_author b < committee_size c" and "distinct (map vb_author bs)"
  shows "weight_where P (weighted c bs) = set_stake c (vb_author ` {b \<in> set bs. P (vb_timestamp_ms b)})"
  using assms
proof (induction bs)
  case (Cons b bs)
  let ?S = "vb_author ` {b \<in> set bs. P (vb_timestamp_ms b)}"
  have n: "vb_author b \<notin> ?S" using Cons.prems(2) by auto
  have "vb_author ` {x \<in> set (b # bs). P (vb_timestamp_ms x)} = (if P (vb_timestamp_ms b) then insert (vb_author b) ?S else ?S)" by auto
  then show ?case using Cons set_stake_insert[of "vb_author b" c ?S] n by (simp add: weighted_def stake_of_def)
qed (simp add: weighted_def)

lemma median_timestamp_spec:
  assumes wf: "committee_wf (cx_committee ctx)" and bs: "\<forall>b\<in>set bs. vb_author b < committee_size (cx_committee ctx)"
    and d: "distinct (map vb_author bs)" and q: "unat (c_quorum_threshold (cx_committee ctx)) \<le> set_stake (cx_committee ctx) (vb_author ` set bs)"
  shows "\<exists>m. median_timestamp_by_stake ctx bs = Some (Inr m) \<and>
    set_stake (cx_committee ctx) (vb_author ` set bs) div 2 < set_stake (cx_committee ctx) (vb_author ` {b \<in> set bs. vb_timestamp_ms b \<le> m}) \<and>
    set_stake (cx_committee ctx) (vb_author ` set bs) \<le> 2 * set_stake (cx_committee ctx) (vb_author ` {b \<in> set bs. m \<le> vb_timestamp_ms b})"
proof -
  let ?c = "cx_committee ctx"
  let ?st = "map (\<lambda>b. a_stake (c_authorities ?c ! vb_author b)) bs" and ?T = "set_stake ?c (vb_author ` set bs)"
  note ws = weight_where_set_stake[OF bs d]
  have all: "weight_where (\<lambda>_. True) (weighted ?c bs) = ?T" using ws[of "\<lambda>_. True"] by simp
  have st: "mapM (\<lambda>b. committee_stake ?c (vb_author b)) bs = Some ?st" by (rule mapM_total) (use bs in simp)
  have z: "zip (map vb_timestamp_ms bs) ?st = weighted ?c bs" by (simp add: weighted_def zip_map_map zip_same_conv_map)
  have "sum_list (map unat ?st) = ?T" using all by (simp add: weight_where_def weighted_def comp_def)
  moreover have "?T < 2 ^ 64" using set_stake_le_total[of ?c "vb_author ` set bs"] wf by (simp add: committee_wf_def)
  ultimately have tot: "unat (sum_list ?st) = ?T" using unat_sum_list[of ?st] by simp
  have pos: "0 < ?T" using q wf by (simp add: committee_wf_def)
  let ?xs = "sort_key fst (weighted ?c bs)"
  have e: "unat (0 :: u64) + weight_where (\<lambda>_. True) ?xs = unat (sum_list ?st)" by (simp add: weight_where_sort all tot)
  from median_loop_spec[OF _ e] pos obtain m where
    m: "median_loop ?xs (sum_list ?st) 0 = Some m" "weight_where (\<lambda>t. t < m) ?xs \<le> ?T div 2" "?T div 2 < weight_where (\<lambda>t. t \<le> m) ?xs"
    unfolding tot by auto
  have ne: "weighted ?c bs \<noteq> []" "bs \<noteq> []" "\<not> sum_list ?st < c_quorum_threshold ?c"
    using pos q tot by (auto simp: weighted_def word_less_nat_alt)
  have md: "median_timestamp_by_stake ctx bs = Some (Inr m)"
    using ne m(1) by (simp add: median_timestamp_by_stake_def st z Let_def median_timestamps_by_stake_inner_def)
  have "weight_where (\<lambda>t. t < m) (weighted ?c bs) + weight_where (\<lambda>t. m \<le> t) (weighted ?c bs) = ?T"
    using weight_where_split[of m "weighted ?c bs"] all by simp
  with m(2,3) have "?T div 2 < set_stake ?c (vb_author ` {b \<in> set bs. vb_timestamp_ms b \<le> m})"
    "?T \<le> 2 * set_stake ?c (vb_author ` {b \<in> set bs. m \<le> vb_timestamp_ms b})"
    unfolding weight_where_sort ws by linarith+
  with md show ?thesis by blast
qed

lemma honest_in:
  assumes "committee_wf c" and "set_stake c F \<le> fault_budget c" and "fault_budget c < set_stake c (vb_author ` B)"
  shows "\<exists>b\<in>B. vb_author b \<notin> F"
proof (rule ccontr)
  assume "\<not> ?thesis"
  then have "vb_author ` B \<subseteq> F" by auto
  from set_stake_mono[OF this, of c] show False using assms(2,3) by simp
qed

lemma commit_timestamp_between:
  assumes "view_ok c ds" and "cx_committee ctx = c" and "set_stake c F \<le> fault_budget c"
    and "ds_get_block ds (reference l) = Some l" and "0 < vb_round l"
    and "\<forall>r\<in>set (vb_ancestors l). br_round r = vb_round l - 1 \<longrightarrow> ds_get_block ds r \<noteq> None"
  shows "\<exists>m p q. calculate_commit_timestamp ctx ds l last_ts = Some (max m last_ts) \<and>
    vb_timestamp_ms p \<le> m \<and> m \<le> vb_timestamp_ms q \<and> vb_author p \<notin> F \<and> vb_author q \<notin> F \<and>
    (\<forall>b\<in>{p, q}. ds_get_block ds (reference b) = Some b \<and> reference b \<in> set (vb_ancestors l) \<and> vb_round b = vb_round l - 1)"
proof -
  note wf = view_okD(4)[OF assms(1)]
  have anc: "ancestors_wf c (vb_author l) (vb_round l) (vb_ancestors l)" using view_ok_ancestors(1)[OF assms(1,4)] assms(5) by simp
  define refs where "refs = filter (\<lambda>r. br_round r = vb_round l - 1) (vb_ancestors l)"
  define bs where "bs = blocks_of ds refs"
  have s: "ds_get_block ds r = Some (the (ds_get_block ds r)) \<and> reference (the (ds_get_block ds r)) = r" if "r \<in> set refs" for r
    using that assms(6) ds_get_block_reference[OF view_okD(1)[OF assms(1)], of r] by (auto simp: refs_def)
  then have r: "map reference bs = refs" by (auto simp: bs_def blocks_of_def intro: map_idI)
  then have au: "map vb_author bs = map br_author refs" by (metis (no_types, lifting) list.map_comp map_eq_conv comp_apply reference_sel(2))
  have m: "mapM id (ds_get_blocks ds refs) = Some bs"
    using s by (auto simp: ds_get_blocks_map mapM_Some_iff bs_def blocks_of_def list_all2_map1 list_all2_map2 list_all2_same)
  have mem: "ds_get_block ds (reference b) = Some b \<and> reference b \<in> set (vb_ancestors l) \<and> vb_round b = vb_round l - 1" if "b \<in> set bs" for b
  proof -
    from that obtain x where x: "x \<in> set refs" "b = the (ds_get_block ds x)" by (auto simp: bs_def blocks_of_def)
    with s[OF x(1)] have "ds_get_block ds x = Some b" "reference b = x" by auto
    then show ?thesis using x(1) by (auto simp: refs_def)
  qed
  have "distinct (map br_author refs)" using anc by (simp add: refs_def ancestors_wf_def distinct_map_filter)
  then have d: "distinct (map vb_author bs)" unfolding au .
  have auset: "vb_author ` set bs = br_author ` {a \<in> set (vb_ancestors l). br_round a = vb_round l - 1}"
    using arg_cong[OF au, of set] by (simp add: refs_def)
  then have q: "unat (c_quorum_threshold c) \<le> set_stake c (vb_author ` set bs)" using anc by (simp add: ancestors_wf_def)
  have v: "\<forall>b\<in>set bs. vb_author b < committee_size c"
  proof
    fix b assume "b \<in> set bs"
    then have "reference b \<in> set (vb_ancestors l)" using mem by blast
    then show "vb_author b < committee_size c" using anc by (auto simp: ancestors_wf_def is_valid_index_def)
  qed
  from median_timestamp_spec[of ctx bs] wf v d q assms(2) obtain m where
    md: "median_timestamp_by_stake ctx bs = Some (Inr m)"
      "set_stake c (vb_author ` set bs) div 2 < set_stake c (vb_author ` {b \<in> set bs. vb_timestamp_ms b \<le> m})"
      "set_stake c (vb_author ` set bs) \<le> 2 * set_stake c (vb_author ` {b \<in> set bs. m \<le> vb_timestamp_ms b})" by auto
  have "2 * fault_budget c < unat (c_quorum_threshold c)" using wf by (simp add: committee_wf_def)
  then have "fault_budget c < set_stake c (vb_author ` {b \<in> set bs. vb_timestamp_ms b \<le> m})"
    "fault_budget c < set_stake c (vb_author ` {b \<in> set bs. m \<le> vb_timestamp_ms b})" using q md(2,3) by linarith+
  from honest_in[OF wf assms(3) this(1)] honest_in[OF wf assms(3) this(2)] obtain p p' where
    "p \<in> set bs" "vb_timestamp_ms p \<le> m" "vb_author p \<notin> F" "p' \<in> set bs" "m \<le> vb_timestamp_ms p'" "vb_author p' \<notin> F" by auto
  moreover have "calculate_commit_timestamp ctx ds l last_ts = Some (max m last_ts)"
    using m md(1) by (simp add: calculate_commit_timestamp_def refs_def)
  ultimately show ?thesis using mem by (intro exI[of _ m] exI[of _ p] exI[of _ p']) auto
qed

lemma commit_timestamp_total:
  assumes "view_ok c ds" and "cx_committee ctx = c" and "ds_get_block ds (reference l) = Some l" and "0 < vb_round l"
    and "\<forall>r\<in>set (vb_ancestors l). br_round r = vb_round l - 1 \<longrightarrow> ds_get_block ds r \<noteq> None"
  shows "\<exists>ts. calculate_commit_timestamp ctx ds l last_ts = Some ts \<and> last_ts \<le> ts"
  using commit_timestamp_between[OF assms(1,2) _ assms(3-5), of "{}" last_ts] by auto

text \<open>
  C24. The timestamp of a commit never goes back and cannot be set by faulty authorities: it is
  the larger of the previous commit's timestamp and a median that lies between the timestamps of two parents
  of the leader by authorities outside the faulty set. The computation does not panic for a verified
  leader whose parents are served.
\<close>

theorem commit_timestamp_bounds:
  assumes "view_ok c ds" and "cx_committee ctx = c" and "set_stake c F \<le> fault_budget c"
    and "ds_get_block ds (reference l) = Some l" and "0 < vb_round l"
    and "\<forall>r\<in>set (vb_ancestors l). br_round r = vb_round l - 1 \<longrightarrow> ds_get_block ds r \<noteq> None"
  shows "\<exists>m p q. calculate_commit_timestamp ctx ds l last_ts = Some (max m last_ts) \<and>
    vb_timestamp_ms p \<le> m \<and> m \<le> vb_timestamp_ms q \<and> vb_author p \<notin> F \<and> vb_author q \<notin> F \<and>
    (\<forall>b\<in>{p, q}. ds_get_block ds (reference b) = Some b \<and> reference b \<in> set (vb_ancestors l) \<and> vb_round b = vb_round l - 1)"
  by (rule commit_timestamp_between[OF assms])

theorem commit_timestamp_bounds_witness:
  "\<exists>m p q. calculate_commit_timestamp sample_context (sample_view 3) (sample_layer_block 3 1) 7 = Some (max m 7) \<and>
    vb_timestamp_ms p \<le> m \<and> m \<le> vb_timestamp_ms q \<and> vb_author p \<notin> {2} \<and> vb_author q \<notin> {2} \<and>
    (\<forall>b\<in>{p, q}. ds_get_block (sample_view 3) (reference b) = Some b \<and>
       reference b \<in> set (vb_ancestors (sample_layer_block 3 1)) \<and> vb_round b = vb_round (sample_layer_block 3 1) - 1)"
proof (rule commit_timestamp_bounds[OF sample_view_view_ok sample_context_simps])
  show "set_stake committee4 {2} \<le> fault_budget committee4"
    by (simp add: committee4_set_stake) (simp add: fault_budget_def committee4_def)
  show "ds_get_block (sample_view 3) (reference (sample_layer_block 3 1)) = Some (sample_layer_block 3 1)"
    by (simp add: sample_layer_block_ref sample_view_ok(5) sample_universe_def)
  show "\<forall>r\<in>set (vb_ancestors (sample_layer_block 3 1)). br_round r = vb_round (sample_layer_block 3 1) - 1 \<longrightarrow>
      ds_get_block (sample_view 3) r \<noteq> None"
    by (auto simp: set_sample_links sample_view_ok(5) sample_universe_def)
qed simp

subsection \<open>The sub-dag of a leader\<close>

text \<open>
  C12. The sub-dag of a leader is exactly its uncommitted causal history: the traversal
  returns without panicking, the result has every block above the garbage collection round that the leader reaches and
  that no earlier sub-dag contains, each once and in the order of round and author; these
  blocks, and no others, become committed, the blocks served are unchanged, and the committed set stays
  closed under ancestors.
\<close>

theorem linearize_sub_dag_exact:
  assumes "view_ok c ds" and "committed_closed ds" and "ds_get_block ds (reference l) = Some l"
    and "ds_gc_round ds < vb_round l" and "reference l \<notin> marks ds"
  shows "\<exists>ds' bs. linearize_sub_dag l ds = Some (ds', bs) \<and>
    reference ` set bs = uncommitted_history ds (reference l) \<and> distinct (map reference bs) \<and>
    sorted (map (\<lambda>b. (vb_round b, vb_author b)) bs) \<and>
    marks ds' = marks ds \<union> reference ` set bs \<and> committed_closed ds' \<and> view_ok c ds' \<and> ds_get_block ds' = ds_get_block ds"
proof -
  have "view_of c (ds_get_block ds) ds" using assms(1) by (simp add: view_of_def)
  from linearize_joint[OF this this _ assms(2,3,3,4,5)] obtain e bs where
    "linearize_sub_dag l ds = Some (e, bs)" "ds_same_cache ds e" "distinct (map reference bs)"
      "sorted (map (\<lambda>b. (vb_round b, vb_author b)) bs)" "reference ` set bs = uncommitted_history ds (reference l)"
      "marks e = marks ds \<union> reference ` set bs" "committed_closed e" by (auto simp: same_marks_def)
  then show ?thesis using view_ok_same[OF _ assms(1), of e] ds_same_cache_sel(3)[of ds e] by auto
qed

text \<open>
  C19. Validators order the same blocks: two views of one DAG that have the same garbage
  collection round and the same committed blocks above it linearize a leader into the same list of blocks.
\<close>

theorem linearize_same_in_views:
  assumes "view_of c U ds1" and "view_of c U ds2" and "committed_closed ds1"
    and "ds_gc_round ds2 = ds_gc_round ds1" and "\<forall>r. ds_gc_round ds1 < br_round r \<longrightarrow> (r \<in> marks ds2 \<longleftrightarrow> r \<in> marks ds1)"
    and "ds_get_block ds1 (reference l) = Some l" and "ds_get_block ds2 (reference l) = Some l"
    and "ds_gc_round ds1 < vb_round l" and "reference l \<notin> marks ds1"
  shows "\<exists>e1 e2 bs. linearize_sub_dag l ds1 = Some (e1, bs) \<and> linearize_sub_dag l ds2 = Some (e2, bs)"
  using linearize_joint[OF assms(1,2) _ assms(3,6-9)] assms(4,5) by (auto simp: same_marks_def)

lemma accept_block_marks:
  assumes "\<not> pc_enable_v3 (cx_protocol_config (ds_context ds))" and "ds_accept_block now b ds = Some ds'"
  shows "marks ds' \<subseteq> marks ds" and "ds_context ds' = ds_context ds" and "ds_last_committed_rounds ds' = ds_last_committed_rounds ds"
proof -
  have "ds' = ds \<or> (\<exists>tc h w. ds' = (ds_insert_cache b ds)\<lparr>ds_threshold_clock := tc, ds_highest_accepted_round := h, ds_blocks_to_write := w\<rparr>)"
    using assms
    by (auto simp: ds_accept_block_def Let_def bind_Some_iff ds_update_block_metadata_eq ds_update_votes_def split: if_splits)
  then show "marks ds' \<subseteq> marks ds" "ds_context ds' = ds_context ds" "ds_last_committed_rounds ds' = ds_last_committed_rounds ds"
    by (auto simp: marks_def ds_insert_cache_def block_info_new_def split: if_splits)
qed

lemma sample_view_marks [simp]: "marks (sample_view n) = {}" "ds_last_committed_rounds (sample_view n) = replicate 4 0"
proof -
  let ?P = "\<lambda>ds. marks ds = {} \<and> ds_context ds = sample_context \<and> ds_last_committed_rounds ds = replicate 4 0"
  have "?P (sample_view n)"
    using sample_view_ok(1)[of n] unfolding ds_accept_blocks_def
  proof (rule foldM_inv)
    show "?P sample_dag" by (simp add: marks_def) (simp add: sample_dag_def ds_fresh_def)
    fix x s s' assume "?P s" "ds_accept_block 0 x s = Some s'"
    moreover have "\<not> pc_enable_v3 (cx_protocol_config sample_context)" by (simp add: sample_context_def)
    ultimately show "?P s'" using accept_block_marks[of s 0 x s'] by simp
  qed
  then show "marks (sample_view n) = {}" "ds_last_committed_rounds (sample_view n) = replicate 4 0" by simp_all
qed

lemma sample_view_closed: "committed_closed (sample_view n)"
  by (simp add: committed_closed_def)

lemma sample_served: "0 < r \<Longrightarrow> r \<le> n \<Longrightarrow> a < 4 \<Longrightarrow>
  ds_get_block (sample_view n) (reference (sample_layer_block r a)) = Some (sample_layer_block r a)"
  by (simp add: sample_layer_block_ref sample_view_ok(5) sample_universe_def)

theorem linearize_sub_dag_exact_witness:
  "\<exists>ds' bs. linearize_sub_dag (sample_layer_block 2 1) (sample_view 3) = Some (ds', bs) \<and>
    sample_ref 1 3 \<in> reference ` set bs \<and> committed_closed ds'"
proof -
  have p: "ds_parent (sample_view 3) (sample_ref 2 1) (sample_ref 1 3)"
    using sample_served[of 2 3 1] by (simp add: ds_parent_def sample_layer_block_ref set_sample_links)
  have "sample_ref 1 3 \<in> uncommitted_history (sample_view 3) (reference (sample_layer_block 2 1))"
    using r_into_rtranclp[of "ds_parent (sample_view 3)", OF p] by (simp add: uncommitted_history_def sample_layer_block_ref)
  then show ?thesis
    using linearize_sub_dag_exact[OF sample_view_view_ok sample_view_closed, of 3 "sample_layer_block 2 1"] sample_served[of 2 3 1] by auto
qed

theorem linearize_same_in_views_witness:
  "\<exists>e1 e2 bs. linearize_sub_dag (sample_layer_block 2 1) (sample_view 3) = Some (e1, bs) \<and>
     linearize_sub_dag (sample_layer_block 2 1) (sample_view 6) = Some (e2, bs)"
  by (rule linearize_same_in_views[OF sample_view_of sample_view_of sample_view_closed])
    (simp_all add: sample_served)

end
