(* ===== verification/Commit_Sequence.thy ===== *)
theory Commit_Sequence
  imports Linearizer
begin

text \<open>
  The sequence of commits (\<^verbatim>\<open>Linearizer::handle_commit\<close> with \<^verbatim>\<open>DagState::add_commit\<close>): the
  commits a call produces continue the chain of the last commit, and no block is in two sub-dags.
\<close>

subsection \<open>Adding a commit\<close>

definition lin_state :: "committee \<Rightarrow> dag_state \<Rightarrow> bool" where
  "lin_state c ds \<longleftrightarrow> view_ok c ds \<and> committed_closed ds \<and> length (ds_last_committed_rounds ds) = committee_size c"

lemma bump_rounds_total:
  assumes "\<forall>r\<in>set rs. br_author r < length rounds"
  shows "\<exists>rounds'. foldM bump_committed_round rs rounds = Some rounds' \<and> length rounds' = length rounds"
  using foldM_total[of "\<lambda>x. length x = length rounds" rounds rs bump_committed_round] assms
  by (auto simp: bump_committed_round_def)

text \<open>The fields of the DAG state that \<^verbatim>\<open>add_commit\<close> changes.\<close>

definition with_commit :: "trusted_commit \<Rightarrow> round list \<Rightarrow> dag_state \<Rightarrow> dag_state" where
  "with_commit tc rounds ds = ds\<lparr>ds_last_commit := Some tc, ds_last_committed_rounds := rounds,
     ds_pending_commit_votes := ds_pending_commit_votes ds @ [tcm_reference tc], ds_commits_to_write := ds_commits_to_write ds @ [tc]\<rparr>"

lemma with_commit_sel [simp]:
  "ds_cached (with_commit tc rounds ds) = ds_cached ds" "ds_get_block (with_commit tc rounds ds) = ds_get_block ds"
  "ds_parent (with_commit tc rounds ds) = ds_parent ds" "marks (with_commit tc rounds ds) = marks ds"
  "ds_context (with_commit tc rounds ds) = ds_context ds"
  "ds_last_commit_round (with_commit tc rounds ds) = br_round (tcm_leader tc)"
  "ds_last_commit (with_commit tc rounds ds) = Some tc" "ds_last_committed_rounds (with_commit tc rounds ds) = rounds"
proof -
  show c: "ds_cached (with_commit tc rounds ds) = ds_cached ds" by (simp add: ds_cached_def with_commit_def fun_eq_iff)
  show g: "ds_get_block (with_commit tc rounds ds) = ds_get_block ds"
    using c by (simp add: ds_get_block_eq fun_eq_iff cong: option.case_cong) (simp add: with_commit_def cong: option.case_cong)
  show "ds_parent (with_commit tc rounds ds) = ds_parent ds" using g by (simp add: ds_parent_def fun_eq_iff)
qed (simp_all add: with_commit_def marks_def ds_last_commit_round_def)

lemma with_commit_inv:
  assumes "ds_inv ds" and "ds_gc_round ds \<le> ds_gc_round (with_commit tc rounds ds)"
  shows "ds_inv (with_commit tc rounds ds)"
proof -
  let ?ds = "with_commit tc rounds ds"
  have st: "ds_static ?ds" using assms(1) by (simp add: ds_inv_def ds_static_def) (simp add: with_commit_def)
  have co: "ds_cache_ok ?ds" using assms(1) by (simp add: ds_inv_def ds_cache_ok_def) (simp add: with_commit_def)
  have bo: "ds_buffer_ok ?ds" using assms(1) by (simp add: ds_inv_def ds_buffer_ok_def) (simp add: with_commit_def)
  have "ds_stored_ok ?ds r b" if "ds_stored ?ds r = Some b" for r b
  proof -
    from that have "ds_stored ds r = Some b" by (simp add: with_commit_def)
    then show ?thesis using ds_inv_stored[OF assms(1), of r b] assms(2) by (auto simp: ds_stored_ok_def)
  qed
  then show ?thesis using st co bo by (simp add: ds_inv_def)
qed

lemma with_commit_lin_state:
  assumes "lin_state c ds" and "ds_gc_round ds \<le> ds_gc_round (with_commit tc rounds ds)" and "length rounds = committee_size c"
  shows "lin_state c (with_commit tc rounds ds)"
proof -
  have "ds_complete (with_commit tc rounds ds)" using assms(1,2) unfolding lin_state_def view_ok_def ds_complete_def with_commit_sel by (meson le_less_trans)
  moreover have "committed_closed (with_commit tc rounds ds)"
    using assms(1,2) unfolding lin_state_def committed_closed_def with_commit_sel by (meson le_less_trans)
  ultimately show ?thesis
    using assms with_commit_inv[of ds tc rounds] by (auto simp: lin_state_def view_ok_def ds_verified_def)
qed

subsection \<open>One leader\<close>

definition leader_ready :: "dag_state \<Rightarrow> verified_block \<Rightarrow> bool" where
  "leader_ready ds l \<longleftrightarrow> ds_get_block ds (reference l) = Some l \<and> ds_last_commit_round ds < vb_round l \<and> reference l \<notin> marks ds \<and>
     (\<forall>r\<in>set (vb_ancestors l). br_round r = vb_round l - 1 \<longrightarrow> ds_get_block ds r \<noteq> None)"

text \<open>What handling a leader does to the DAG state and the sub-dag it returns.\<close>

definition committed_step :: "committee \<Rightarrow> dag_state \<Rightarrow> verified_block \<Rightarrow> dag_state \<Rightarrow> committed_sub_dag \<Rightarrow> bool" where
  "committed_step c ds l ds' sd \<longleftrightarrow> lin_state c ds' \<and> ds_get_block ds' = ds_get_block ds \<and>
     csd_leader sd = reference l \<and> reference ` set (csd_blocks sd) = uncommitted_history ds (reference l) \<and>
     distinct (map reference (csd_blocks sd)) \<and> marks ds' = marks ds \<union> uncommitted_history ds (reference l) \<and>
     ds_last_commit_round ds' = vb_round l \<and> ds_last_commit_index ds' = ds_last_commit_index ds + 1 \<and>
     cr_index (csd_commit_ref sd) = ds_last_commit_index ds' \<and> cr_digest (csd_commit_ref sd) = ds_last_commit_digest ds' \<and>
     ds_last_commit_timestamp_ms ds \<le> ds_last_commit_timestamp_ms ds' \<and> csd_timestamp_ms sd = ds_last_commit_timestamp_ms ds' \<and>
     (\<exists>tc. ds_last_commit ds' = Some tc \<and> commit_previous_digest (tcm_inner tc) = ds_last_commit_digest ds \<and>
        tcm_blocks tc = map reference (csd_blocks sd))"

lemma pruned_metric_total:
  assumes "\<forall>b\<in>set (csd_blocks sd). \<forall>r\<in>set (vb_ancestors b). br_author r < committee_size (cx_committee ctx)"
    and "length (ds_last_committed_rounds ds) = committee_size (cx_committee ctx)"
  shows "update_blocks_pruned_metric ctx ds sd = Some ()"
proof -
  have "(if br_round r \<le> ds_gc_round ds
            then do {
              last \<leftarrow> vec_get (ds_last_committed_rounds ds) (br_author r);
              if last \<noteq> br_round r then map_option (\<lambda>_. ()) (committee_authority (cx_committee ctx) (br_author r)) else Some ()
            }
            else Some ()) = Some ()" if "r \<in> set (concat (map vb_ancestors (csd_blocks sd)))" for r
    using that assms by (auto simp: committee_authority_def committee_size_def)
  from mapM_total[of "concat (map vb_ancestors (csd_blocks sd))", OF this] show ?thesis
    by (simp add: update_blocks_pruned_metric_def)
qed

lemma ds_frame_more:
  assumes "ds_same_cache ds ds'"
  shows "ds_last_commit ds' = ds_last_commit ds" "ds_last_committed_rounds ds' = ds_last_committed_rounds ds"
    "ds_last_commit_round ds' = ds_last_commit_round ds" "ds_last_commit_index ds' = ds_last_commit_index ds"
    "ds_last_commit_digest ds' = ds_last_commit_digest ds" "ds_last_commit_timestamp_ms ds' = ds_last_commit_timestamp_ms ds"
proof -
  have "ds_frame ds' = ds_frame ds" using assms by (simp add: ds_same_cache_def)
  then have e: "f (ds_frame ds') = f (ds_frame ds)" for f :: "dag_state \<Rightarrow> 'a" by simp
  show l: "ds_last_commit ds' = ds_last_commit ds" "ds_last_committed_rounds ds' = ds_last_committed_rounds ds"
    using e[of ds_last_commit] e[of ds_last_committed_rounds] by (simp_all add: ds_frame_def)
  then show "ds_last_commit_round ds' = ds_last_commit_round ds" "ds_last_commit_index ds' = ds_last_commit_index ds"
    "ds_last_commit_digest ds' = ds_last_commit_digest ds" "ds_last_commit_timestamp_ms ds' = ds_last_commit_timestamp_ms ds"
    by (simp_all add: ds_last_commit_round_def ds_last_commit_index_def ds_last_commit_digest_def ds_last_commit_timestamp_ms_def)
qed

lemma ds_add_commit_eq:
  assumes "tcm_index tc = ds_last_commit_index ds + 1" and "ds_last_commit_timestamp_ms ds \<le> tcm_timestamp_ms tc"
    and "\<forall>r\<in>set (tcm_blocks tc). br_author r < length (ds_last_committed_rounds ds)"
    and "length (ds_last_committed_rounds ds) = committee_size (ds_committee ds)"
  shows "\<exists>rounds. ds_add_commit tc ds = Some (with_commit tc rounds ds) \<and> length rounds = committee_size (ds_committee ds)"
proof -
  from bump_rounds_total[OF assms(3)] obtain rounds where
    r: "foldM bump_committed_round (tcm_blocks tc) (ds_last_committed_rounds ds) = Some rounds" "length rounds = length (ds_last_committed_rounds ds)"
    by blast
  have m: "mapM (to_authority_index (ds_committee ds)) [0..<length rounds] = Some (map id [0..<length rounds])"
    by (rule mapM_total) (use r(2) assms(4) in \<open>simp add: to_authority_index_def committee_size_def\<close>)
  have "ds_add_commit tc ds = Some (with_commit tc rounds ds)"
  proof (cases "ds_last_commit ds")
    case None
    then have "tcm_index tc = 1" using assms(1) by (simp add: ds_last_commit_index_def)
    then show ?thesis unfolding ds_add_commit_def None by (simp add: with_commit_def r(1) m)
  next
    case (Some tc0)
    then have "tcm_index tc = tcm_index tc0 + 1" "\<not> tcm_timestamp_ms tc < tcm_timestamp_ms tc0"
      using assms(1,2) by (simp_all add: ds_last_commit_index_def ds_last_commit_timestamp_ms_def)
    then show ?thesis unfolding ds_add_commit_def Some by (simp add: with_commit_def r(1) m)
  qed
  then show ?thesis using r(2) assms(4) by (intro exI[of _ rounds]) simp
qed

lemma handle_leader_step:
  assumes st: "lin_state c ds" and l: "leader_ready ds l" and ctx: "cx_committee ctx = c" and bcs: "\<forall>cm. \<exists>s. bcs cm = Inr s"
  shows "\<exists>ds' sd. handle_leader cy bcs ctx l (ds, acc) = Some (ds', acc @ [sd]) \<and> committed_step c ds l ds' sd"
proof -
  have v: "view_ok c ds" and cl: "committed_closed ds" and len: "length (ds_last_committed_rounds ds) = committee_size c"
    using st by (auto simp: lin_state_def)
  have served: "ds_get_block ds (reference l) = Some l" and un: "reference l \<notin> marks ds" and hi: "ds_last_commit_round ds < vb_round l"
    and par: "\<forall>r\<in>set (vb_ancestors l). br_round r = vb_round l - 1 \<longrightarrow> ds_get_block ds r \<noteq> None"
    using l by (auto simp: leader_ready_def)
  have gc: "ds_gc_round ds < vb_round l" using ds_gc_le_commit[of ds] hi by simp
  have "view_of c (ds_get_block ds) ds" using v by (simp add: view_of_def)
  from linearize_joint[OF this this _ cl served served gc un] obtain e bs where
    e: "linearize_sub_dag l ds = Some (e, bs)" "ds_same_cache ds e" "distinct (map reference bs)"
      "\<forall>b\<in>set bs. ds_get_block ds (reference b) = Some b" "reference ` set bs = uncommitted_history ds (reference l)"
      "marks e = marks ds \<union> reference ` set bs" "committed_closed e" by (auto simp: same_marks_def)
  note sel = ds_same_cache_sel[OF e(2)] and fr = ds_frame_more[OF e(2)]
  have ve: "view_ok c e" using view_ok_same[OF e(2) v] .
  have "\<exists>ts. calculate_commit_timestamp ctx e l (ds_last_commit_timestamp_ms ds) = Some ts \<and> ds_last_commit_timestamp_ms ds \<le> ts"
    using commit_timestamp_total[OF ve ctx, of l] served par hi by (simp add: sel)
  then obtain ts where ts: "calculate_commit_timestamp ctx e l (ds_last_commit_timestamp_ms ds) = Some ts" "ds_last_commit_timestamp_ms ds \<le> ts"
    by blast
  let ?cm = "commit_new (ds_last_commit_index ds + 1) (ds_last_commit_digest ds) ts (reference l) (map reference bs)"
  from bcs obtain s where s: "bcs ?cm = Inr s" by blast
  let ?tc = "new_trusted cy ?cm s"
  let ?sd = "committed_sub_dag_new (reference l) bs ts (tcm_reference ?tc)"
  have coll: "collect_sub_dag_and_commit cy bcs ctx l ds = Some (e, ?sd, ?tc)"
    using e(1) ts(1) s by (simp add: collect_sub_dag_and_commit_def Let_def)
  have pos: "0 < vb_round b" if "b \<in> set bs" for b
    using that e(5) unfolding uncommitted_history_def by (metis (no_types, lifting) gr_zeroI image_eqI mem_Collect_eq not_less_zero reference_sel(1))
  have au: "vb_author b < committee_size c" if "b \<in> set bs" for b
    using that e(4) pos view_ok_author[OF v, of "reference b" b] by simp
  have "ancestors_wf c (vb_author b) (vb_round b) (vb_ancestors b)" if "b \<in> set bs" for b
    using that e(4) pos view_ok_ancestors(1)[OF v, of "reference b" b] by simp
  then have metric: "update_blocks_pruned_metric ctx e ?sd = Some ()"
    by (intro pruned_metric_total) (auto simp: ancestors_wf_def is_valid_index_def ctx fr len committed_sub_dag_new_def)
  have "\<exists>rounds. ds_add_commit ?tc e = Some (with_commit ?tc rounds e) \<and> length rounds = committee_size (ds_committee e)"
    by (rule ds_add_commit_eq) (use ts(2) au len view_okD(3)[OF ve] in \<open>auto simp: fr\<close>)
  then obtain rounds where rounds: "ds_add_commit ?tc e = Some (with_commit ?tc rounds e)" "length rounds = committee_size c"
    using view_okD(3)[OF ve] by auto
  let ?ds = "with_commit ?tc rounds e"
  have "ds_gc_round e \<le> ds_gc_round ?ds" using hi by (simp add: ds_gc_round_def ds_calculate_gc_round_def fr)
  then have "lin_state c ?ds" using with_commit_lin_state[of c e ?tc rounds] ve e(7) len rounds(2) by (simp add: lin_state_def fr)
  then have "committed_step c ds l ?ds ?sd"
    using e ts(2) by (simp add: committed_step_def sel committed_sub_dag_new_def tcm_reference_def
        ds_last_commit_index_def ds_last_commit_timestamp_ms_def ds_last_commit_digest_def)
  moreover have "handle_leader cy bcs ctx l (ds, acc) = Some (?ds, acc @ [?sd])"
    using coll metric rounds(1) by (simp add: handle_leader_def)
  ultimately show ?thesis by blast
qed

subsection \<open>Sequences of leaders\<close>

lemma leader_ready_step:
  assumes "lin_state c ds" and "leader_ready ds l" and "leader_ready ds l2" and "vb_round l < vb_round l2" and "committed_step c ds l ds' sd"
  shows "leader_ready ds' l2"
proof -
  have "br_round r \<le> vb_round l" if "r \<in> uncommitted_history ds (reference l)" for r
  proof -
    from that have "(ds_parent ds)\<^sup>*\<^sup>* (reference l) r" by (simp add: uncommitted_history_def)
    then have "r = reference l \<or> (ds_parent ds)\<^sup>+\<^sup>+ (reference l) r" by (auto dest: rtranclpD)
    moreover have "ds_complete ds" using assms(1) by (simp add: lin_state_def view_ok_def)
    ultimately show ?thesis using ds_parent_trancl_round[of ds "reference l" r] by auto
  qed
  then have "reference l2 \<notin> uncommitted_history ds (reference l)" using assms(4) by fastforce
  then show ?thesis using assms(3-5) by (simp add: leader_ready_def committed_step_def)
qed

lemma handle_leaders:
  assumes "lin_state c ds" and "\<forall>l\<in>set ls. leader_ready ds l" and "sorted_wrt (\<lambda>a b. vb_round a < vb_round b) ls"
    and ctx: "cx_committee ctx = c" and bcs: "\<forall>cm. \<exists>s. bcs cm = Inr s"
  shows "\<exists>ds' sds. foldM (handle_leader cy bcs ctx) ls (ds, acc) = Some (ds', acc @ sds) \<and> lin_state c ds' \<and>
    map csd_leader sds = map reference ls \<and>
    map (cr_index \<circ> csd_commit_ref) sds = map (\<lambda>k. ds_last_commit_index ds + k) [1..<Suc (length ls)] \<and>
    sorted (ds_last_commit_timestamp_ms ds # map csd_timestamp_ms sds) \<and>
    distinct (concat (map (map reference \<circ> csd_blocks) sds)) \<and>
    marks ds' = marks ds \<union> set (concat (map (map reference \<circ> csd_blocks) sds)) \<and>
    marks ds \<inter> set (concat (map (map reference \<circ> csd_blocks) sds)) = {}"
  using assms(1-3)
proof (induction ls arbitrary: ds acc)
  case Nil
  show ?case by (rule exI[of _ ds], rule exI[of _ "[]"]) (use Nil in simp)
next
  case (Cons l ls)
  have l: "leader_ready ds l" using Cons.prems(2) by simp
  from handle_leader_step[OF Cons.prems(1) l ctx bcs, of cy acc] obtain ds1 sd where
    h: "handle_leader cy bcs ctx l (ds, acc) = Some (ds1, acc @ [sd])" and st: "committed_step c ds l ds1 sd" by blast
  have lin: "lin_state c ds1" using st by (simp add: committed_step_def)
  have "\<forall>l2\<in>set ls. leader_ready ds1 l2"
    using leader_ready_step[OF Cons.prems(1) l _ _ st] Cons.prems(2,3) by auto
  moreover have "sorted_wrt (\<lambda>a b. vb_round a < vb_round b) ls" using Cons.prems(3) by simp
  ultimately obtain ds' sds where
    r: "foldM (handle_leader cy bcs ctx) ls (ds1, acc @ [sd]) = Some (ds', (acc @ [sd]) @ sds)" "lin_state c ds'"
      "map csd_leader sds = map reference ls"
      "map (cr_index \<circ> csd_commit_ref) sds = map (\<lambda>k. ds_last_commit_index ds1 + k) [1..<Suc (length ls)]"
      "sorted (ds_last_commit_timestamp_ms ds1 # map csd_timestamp_ms sds)"
      "distinct (concat (map (map reference \<circ> csd_blocks) sds))"
      "marks ds' = marks ds1 \<union> set (concat (map (map reference \<circ> csd_blocks) sds))"
      "marks ds1 \<inter> set (concat (map (map reference \<circ> csd_blocks) sds)) = {}"
    using Cons.IH[OF lin, of "acc @ [sd]"] by blast
  have s: "ds_last_commit_index ds1 = ds_last_commit_index ds + 1" "cr_index (csd_commit_ref sd) = ds_last_commit_index ds1"
    "ds_last_commit_timestamp_ms ds \<le> ds_last_commit_timestamp_ms ds1" "csd_timestamp_ms sd = ds_last_commit_timestamp_ms ds1"
    "csd_leader sd = reference l" "distinct (map reference (csd_blocks sd))"
    "marks ds1 = marks ds \<union> reference ` set (csd_blocks sd)" "marks ds \<inter> reference ` set (csd_blocks sd) = {}"
    using st by (auto simp: committed_step_def uncommitted_history_def)
  have "[1..<Suc (length (l # ls))] = 1 # map Suc [1..<Suc (length ls)]"
    by (simp add: map_Suc_upt upt_conv_Cons del: upt_Suc)
  then have ix: "map (cr_index \<circ> csd_commit_ref) (sd # sds) = map (\<lambda>k. ds_last_commit_index ds + k) [1..<Suc (length (l # ls))]"
    using r(4) s(1,2) by (simp add: comp_def del: upt_Suc)
  have "foldM (handle_leader cy bcs ctx) (l # ls) (ds, acc) = Some (ds', acc @ sd # sds)" using h r(1) by simp
  moreover have "map csd_leader (sd # sds) = map reference (l # ls)" using r(3) s(5) by simp
  moreover have "sorted (ds_last_commit_timestamp_ms ds # map csd_timestamp_ms (sd # sds))" using r(5) s(3,4) by auto
  moreover have "distinct (concat (map (map reference \<circ> csd_blocks) (sd # sds)))" using r(6,8) s(6,7) by auto
  moreover have "marks ds' = marks ds \<union> set (concat (map (map reference \<circ> csd_blocks) (sd # sds)))" using r(7) s(7) by auto
  moreover have "marks ds \<inter> set (concat (map (map reference \<circ> csd_blocks) (sd # sds))) = {}" using r(8) s(7,8) by auto
  ultimately show ?case using r(2) ix by blast
qed

text \<open>
  C2. Handling a sequence of committed leaders continues the chain of commits: with the leaders
  served, uncommitted and in increasing rounds above the last commit, no step panics, the sub-dags are those of the leaders in order,
  their commit indices count up from the last one, their timestamps never decrease, and no block is in two of them
  or in an earlier commit.
\<close>

theorem handle_commit_chain:
  assumes "lin_state c ds" and "\<forall>l\<in>set ls. leader_ready ds l" and "sorted_wrt (\<lambda>a b. vb_round a < vb_round b) ls"
    and "cx_committee ctx = c" and "\<forall>cm. \<exists>s. bcs cm = Inr s"
  shows "\<exists>ds' sds. handle_commit cy bcs ctx ls ds = Some (ds', sds) \<and> lin_state c ds' \<and>
    map csd_leader sds = map reference ls \<and>
    map (cr_index \<circ> csd_commit_ref) sds = map (\<lambda>k. ds_last_commit_index ds + k) [1..<Suc (length ls)] \<and>
    sorted (ds_last_commit_timestamp_ms ds # map csd_timestamp_ms sds) \<and>
    distinct (concat (map (map reference \<circ> csd_blocks) sds)) \<and>
    marks ds \<inter> set (concat (map (map reference \<circ> csd_blocks) sds)) = {}"
proof (cases "ls = []")
  case True
  then show ?thesis using assms(1) by (simp add: handle_commit_def)
next
  case False
  then have "handle_commit cy bcs ctx ls ds = foldM (handle_leader cy bcs ctx) ls (ds, [])" by (simp add: handle_commit_def)
  then show ?thesis using handle_leaders[OF assms, of cy "[]"] unfolding append_Nil by metis
qed

lemma sample_ready: "0 < r \<Longrightarrow> r \<le> n \<Longrightarrow> a < 4 \<Longrightarrow> leader_ready (sample_view n) (sample_layer_block r a)"
  by (auto simp: leader_ready_def sample_served sample_layer_block_ref set_sample_links sample_view_ok(5) sample_universe_def)

theorem handle_commit_chain_witness:
  "\<exists>ds' sds. handle_commit sample_crypto (\<lambda>cm. Inr []) sample_context [sample_layer_block 1 2, sample_layer_block 3 0] (sample_view 3) = Some (ds', sds) \<and>
    map (cr_index \<circ> csd_commit_ref) sds = [1, 2]"
proof -
  have "lin_state committee4 (sample_view 3)" by (simp add: lin_state_def sample_view_view_ok sample_view_closed)
  moreover have "\<forall>l\<in>set [sample_layer_block 1 2, sample_layer_block 3 0]. leader_ready (sample_view 3) l" by (simp add: sample_ready)
  moreover have "ds_last_commit_index (sample_view 3) = 0" by (simp add: ds_last_commit_index_def sample_view_ok(4))
  ultimately show ?thesis
    using handle_commit_chain[OF _ _ _ sample_context_simps, of "sample_view 3" "[sample_layer_block 1 2, sample_layer_block 3 0]" "\<lambda>cm. Inr []" sample_crypto]
    by (auto simp: upt_rec)
qed

subsection \<open>Restart after a schedule update\<close>

text \<open>The commit is written or about to be, and neither a commit nor the information on a commit is beyond it.\<close>

definition newest_commit :: "trusted_commit \<Rightarrow> dag_state \<Rightarrow> bool" where
  "newest_commit tc ds \<longleftrightarrow>
     (tc \<in> set (ds_commits_to_write ds) \<or> fmlookup (ms_commits (ds_store ds)) (tcm_index tc, tcm_digest tc) = Some tc) \<and>
     (\<forall>x\<in>set (ds_commits_to_write ds). tcm_index x \<le> tcm_index tc) \<and>
     (\<forall>k\<in>fset (fmdom (ms_commits (ds_store ds))). fst k \<le> tcm_index tc) \<and>
     (\<forall>e\<in>set (ds_commit_info_to_write ds). cr_index (fst e) \<le> tcm_index tc) \<and>
     (\<forall>k\<in>fset (fmdom (ms_commit_info (ds_store ds))). fst k \<le> tcm_index tc)"

lemma fold_fmupd_dom: "fset (fmdom (fold (\<lambda>x. fmupd (f x) (g x)) xs m)) = fset (fmdom m) \<union> f ` set xs"
  by (induction xs arbitrary: m) auto

lemma ms_write_commits:
  "ms_commits (ms_write wb ms) = fold (\<lambda>tc. fmupd (tcm_index tc, tcm_digest tc) tc) (wb_commits wb) (ms_commits ms)"
  "ms_commit_info (ms_write wb ms) =
     fold (\<lambda>e. fmupd (cr_index (fst e), cr_digest (fst e)) (snd e)) (wb_commit_info wb) (ms_commit_info ms)"
proof -
  have c: "ms_commits (fold ms_write_commit tcs m) = fold (\<lambda>tc. fmupd (tcm_index tc, tcm_digest tc) tc) tcs (ms_commits m)" for tcs m
    by (induction tcs arbitrary: m) (simp_all add: ms_write_commit_def)
  have i: "ms_commit_info (fold ms_write_commit_info es m) =
      fold (\<lambda>e. fmupd (cr_index (fst e), cr_digest (fst e)) (snd e)) es (ms_commit_info m)" for es m
    by (induction es arbitrary: m) (simp_all add: ms_write_commit_info_def split: prod.splits)
  show "ms_commits (ms_write wb ms) = fold (\<lambda>tc. fmupd (tcm_index tc, tcm_digest tc) tc) (wb_commits wb) (ms_commits ms)"
    by (simp add: ms_write_def c fold_same[where g = ms_commits] ms_write_finalized_def ms_write_commit_info_def ms_write_block_def
        Let_def split: prod.splits)
  show "ms_commit_info (ms_write wb ms) =
     fold (\<lambda>e. fmupd (cr_index (fst e), cr_digest (fst e)) (snd e)) (wb_commit_info wb) (ms_commit_info ms)"
    by (simp add: ms_write_def i fold_same[where g = ms_commit_info] ms_write_finalized_def ms_write_commit_def ms_write_block_def
        Let_def split: prod.splits)
qed

lemma flush_store:
  assumes "ds_flush ds = Some ds'" and "ds_commit_info_to_write ds \<noteq> []"
  shows "ds_store ds' = ms_write \<lparr>wb_blocks = ds_blocks_to_write ds, wb_commits = ds_commits_to_write ds,
    wb_commit_info = ds_commit_info_to_write ds, wb_finalized_commits = ds_finalized_commits_to_write ds\<rparr> (ds_store ds)"
proof -
  have ev: "ds_store e' = ds_store (ds_persist ds)" if "foldM ds_evict_authority as (ds_persist ds) = Some e'" for as e'
    using that by (rule foldM_inv[where P = "\<lambda>e. ds_store e = ds_store (ds_persist ds)"])
      (auto simp: ds_evict_authority_def Let_def elim!: bind_SomeE split: prod.splits)
  have "ds_store ds' = ds_store (ds_persist ds)" using assms by (auto simp: ds_flush_eq dest!: ev elim!: bind_SomeE)
  then show ?thesis by (simp add: ds_persist_def)
qed

text \<open>The last entry of a map with keys up to an index that occurs has this index.\<close>

lemma last_index:
  fixes m :: "(nat \<times> digest, 'a) fmap"
  assumes "(i, d) |\<in>| fmdom m" and "\<forall>k\<in>fset (fmdom m). fst k \<le> i"
  shows "\<exists>k v. last_opt (sorted_list_of_fmap m) = Some (k, v) \<and> fst k = i \<and> fmlookup m k = Some v"
proof -
  let ?ks = "sorted_list_of_fset (fmdom m)"
  have ne: "?ks \<noteq> []" using assms(1) by (metis set_sorted_list_of_fset empty_iff list.set(1))
  have l: "last ?ks \<in> fset (fmdom m)" using last_in_set[OF ne] by simp
  have "(i, d) \<in> set (butlast ?ks @ [last ?ks])" using assms(1) ne by simp
  moreover have "sorted (butlast ?ks @ [last ?ks])" using ne by simp
  ultimately have "(i, d) \<le> last ?ks" unfolding sorted_append by auto
  then have "fst (last ?ks) = i" using assms(2) l by (cases "last ?ks") fastforce
  moreover obtain v where "fmlookup m (last ?ks) = Some v" using l by (auto simp: fmlookup_dom_iff)
  ultimately show ?thesis using ne by (auto simp: last_opt_def sorted_list_of_fmap_def last_map)
qed

lemma newest_read:
  assumes "ds_inv ds" and "newest_commit tc ds" and "ds_flush ds = Some ds'" and "(tcm_reference tc, ci) \<in> set (ds_commit_info_to_write ds)"
  shows "\<exists>tc' r ci'. ms_read_last_commit (ds_store ds') = Some tc' \<and> tcm_index tc' = tcm_index tc \<and>
    ms_read_last_commit_info (ds_store ds') = Some (r, ci') \<and> cr_index r = tcm_index tc"
proof -
  have st: "ds_store ds' = ms_write \<lparr>wb_blocks = ds_blocks_to_write ds, wb_commits = ds_commits_to_write ds,
    wb_commit_info = ds_commit_info_to_write ds, wb_finalized_commits = ds_finalized_commits_to_write ds\<rparr> (ds_store ds)" (is "_ = ?ms")
    using flush_store[OF assms(3)] assms(4) by fastforce
  have wf: "ms_wf ?ms" using assms(1) by (intro ms_wf_write) (simp add: ds_inv_def ds_static_def)
  have dc: "fset (fmdom (ms_commits ?ms)) = fset (fmdom (ms_commits (ds_store ds))) \<union> (\<lambda>tc. (tcm_index tc, tcm_digest tc)) ` set (ds_commits_to_write ds)"
    by (simp add: ms_write_commits fold_fmupd_dom)
  have di: "fset (fmdom (ms_commit_info ?ms)) =
      fset (fmdom (ms_commit_info (ds_store ds))) \<union> (\<lambda>e. (cr_index (fst e), cr_digest (fst e))) ` set (ds_commit_info_to_write ds)"
    by (simp add: ms_write_commits fold_fmupd_dom)
  have "(tcm_index tc, tcm_digest tc) |\<in>| fmdom (ms_commits ?ms)" "\<forall>k\<in>fset (fmdom (ms_commits ?ms)). fst k \<le> tcm_index tc"
    using assms(2) unfolding dc newest_commit_def by (auto simp: fmlookup_dom_iff)
  from last_index[OF this] obtain k tc' where
    c: "last_opt (sorted_list_of_fmap (ms_commits ?ms)) = Some (k, tc')" "fst k = tcm_index tc" "fmlookup (ms_commits ?ms) k = Some tc'" by blast
  have "k = (tcm_index tc', tcm_digest tc')" using wf c(3) unfolding ms_wf_def by blast
  then have "tcm_index tc' = tcm_index tc" using c(2) by simp
  moreover have "(tcm_index tc, tcm_digest tc) |\<in>| fmdom (ms_commit_info ?ms)"
    unfolding di by (rule UnI2, rule image_eqI[OF _ assms(4)]) (simp add: tcm_reference_def)
  moreover have "\<forall>k\<in>fset (fmdom (ms_commit_info ?ms)). fst k \<le> tcm_index tc"
    using assms(2) unfolding di newest_commit_def by auto
  note last_index[OF calculation(2) this]
  then obtain k' ci' where
    i: "last_opt (sorted_list_of_fmap (ms_commit_info ?ms)) = Some (k', ci')" "fst k' = tcm_index tc" by blast
  ultimately show ?thesis using c(1) i by (simp add: st ms_read_last_commit_def ms_read_last_commit_info_def)
qed

text \<open>
  Scanning an empty commit range panics: the range after the last commit, whose start is one
  past its end, violates the precondition of \<^verbatim>\<open>BTreeMap::range\<close>.
\<close>

lemma scan_commits_empty_range:
  "i + 1 < u32_max \<Longrightarrow> ms_scan_commits ms (commit_range_new (i + 1) i) = None"
  by (simp add: ms_scan_commits_def commit_range_new_def commit_range_end_def range_incl_incl_def u32_saturating_add_def)

lemma dag_state_new_empty_range:
  assumes "ms_read_last_commit ms = Some tc" and "ms_read_last_commit_info ms = Some (r, ci)" and "cr_index r = tcm_index tc"
    and "tcm_index tc + 1 < u32_max"
  shows "dag_state_new cy now ctx ms = None"
  using scan_commits_empty_range[OF assms(4), of ms] assms(1-3) by (simp add: dag_state_new_def Let_def)

lemma ds_inv_scored: "ds_inv (ds\<lparr>ds_scoring_subdag := s, ds_commit_info_to_write := e\<rparr>) = ds_inv ds"
  by (simp add: ds_inv_def ds_static_def ds_cache_ok_def ds_stored_ok_def ds_buffer_ok_def ds_cached_def ds_gc_round_def
      ds_calculate_gc_round_def ds_last_commit_round_def)

text \<open>
  C38. \<^verbatim>\<open>DagState::new\<close> panics on the in-memory store as a leader schedule update leaves it. Take a state satisfying the
  invariant whose last commit, of an index below the 32-bit maximum minus one, is the newest commit written or waiting to be, with no
  commit information beyond it. When updating the leader schedule returns, the flush after it returns, and \<^verbatim>\<open>DagState::new\<close> on the
  resulting store panics, in every context: it asks for the commits after the one the reputation scores belong to, up to the
  last one, which is the same commit, and \<^verbatim>\<open>BTreeMap::range\<close> rejects the empty range.
\<close>

theorem restart_after_schedule_update_panics:
  assumes "ds_inv ds" and "ds_last_commit ds = Some tc" and "newest_commit tc ds" and "tcm_index tc + 1 < u32_max"
    and "update_leader_schedule_v2 rg ls ds = Some (ls', ds1)"
  shows "\<exists>ds2. ds_flush ds1 = Some ds2 \<and> (\<forall>cy now ctx. dag_state_new cy now ctx (ds_store ds2) = None)"
proof -
  from assms(2,5) obtain s ci where ds1: "ds1 = ds\<lparr>ds_scoring_subdag := s,
      ds_commit_info_to_write := ds_commit_info_to_write ds @ [(tcm_reference tc, ci)]\<rparr>"
    by (auto simp: update_leader_schedule_v2_def ds_add_commit_info_def ds_clear_scoring_subdag_def elim!: bind_SomeE)
  have inv: "ds_inv ds1" using assms(1) by (simp add: ds1 ds_inv_scored)
  then obtain ds2 where f: "ds_flush ds1 = Some ds2" using ds_flush_correct by blast
  have "newest_commit tc ds1" "(tcm_reference tc, ci) \<in> set (ds_commit_info_to_write ds1)"
    using assms(3) by (auto simp: ds1 newest_commit_def tcm_reference_def)
  from newest_read[OF inv this(1) f this(2)] show ?thesis using f dag_state_new_empty_range assms(4) by fastforce
qed

text \<open>One commit, scored without votes.\<close>

definition scored_commit :: trusted_commit where
  "scored_commit = new_trusted sample_crypto (commit_new 1 0 5 (sample_ref 1 0) []) []"

definition scored_dag :: dag_state where
  "scored_dag = (with_commit scored_commit [0, 0, 0, 0] sample_dag)\<lparr>ds_scoring_subdag :=
     \<lparr>ss_commit_range = Some (CommitRange 1 2), ss_leaders = {|sample_ref 1 0|}, ss_votes = fmempty\<rparr>\<rparr>"

theorem restart_after_schedule_update_panics_witness:
  "\<exists>ls' ds1 ds2. update_leader_schedule_v2 sample_rng (leader_schedule_new sample_context leader_swap_table_default) scored_dag = Some (ls', ds1) \<and>
     ds_flush ds1 = Some ds2 \<and> dag_state_new sample_crypto 7 sample_context (ds_store ds2) = None"
proof -
  let ?ls = "leader_schedule_new sample_context leader_swap_table_default"
  have tc: "tcm_index scored_commit = 1" "tcm_leader scored_commit = sample_ref 1 0"
    by (simp_all add: scored_commit_def commit_new_def)
  have l: "ds_last_commit sample_dag = None" "ds_context sample_dag = sample_context" by (simp_all add: sample_dag_def ds_fresh_def)
  have w: "ds_inv (with_commit scored_commit [0, 0, 0, 0] sample_dag)"
    by (rule with_commit_inv[OF sample_dag_inv]) (simp add: ds_gc_round_def ds_calculate_gc_round_def ds_last_commit_round_def l)
  have inv: "ds_inv scored_dag" using w ds_inv_scored[where ds = "with_commit scored_commit [0, 0, 0, 0] sample_dag" and e = "[]"]
    by (simp add: scored_dag_def with_commit_def sample_dag_def ds_fresh_def)
  have lc: "ds_last_commit scored_dag = Some scored_commit" by (simp add: scored_dag_def)
  have nw: "newest_commit scored_commit scored_dag"
    by (simp add: newest_commit_def scored_dag_def with_commit_def sample_dag_def ds_fresh_def mem_store_new_def)
  let ?rs = "reputation_scores_new (CommitRange 1 2) (replicate 4 0)"
  have sc: "ds_calculate_scoring_subdag_scores scored_dag = Some ?rs"
    by (simp add: ds_calculate_scoring_subdag_scores_def ss_calculate_distributed_vote_scores_def ss_distributed_votes_scores_def
        scored_dag_def with_commit_def l sorted_list_of_fmap_def)
  have st: "pc_bad_nodes_stake_threshold (cx_protocol_config sample_context) \<le> 33" "c_total_stake committee4 = 4"
    by (simp_all add: sample_context_def committee4_def)
  have "rs_scores_per_authority ?rs = replicate 4 0" by (simp add: reputation_scores_new_def)
  then have "\<exists>t. swap_table_new sample_rng sample_context i ?rs = Some t" for i
    using swap_table_eq[OF _ sample_rng_ok _ _ _ refl, of sample_context "pc_bad_nodes_stake_threshold (cx_protocol_config sample_context)" ?rs i] st
    by (auto simp: swap_table_new_def committee4_wf)
  moreover obtain i where i: "ds_scoring_subdag_commit_range scored_dag = Some i"
    by (simp add: ds_scoring_subdag_commit_range_def scored_dag_def)
  ultimately obtain t where t: "swap_table_new sample_rng sample_context i ?rs = Some t" by blast
  obtain e where e: "ds_add_commit_info ?rs (ds_clear_scoring_subdag scored_dag) = Some e"
    by (simp add: ds_add_commit_info_def ds_clear_scoring_subdag_def scored_dag_def with_commit_def)
  obtain ls' where ls: "update_leader_swap_table t ?ls = Some ls'"
    by (simp add: update_leader_swap_table_def leader_schedule_new_def leader_swap_table_default_def reputation_scores_default_def Let_def)
  have "lsch_context ?ls = sample_context" by (simp add: leader_schedule_new_def)
  then have u: "update_leader_schedule_v2 sample_rng ?ls scored_dag = Some (ls', e)"
    unfolding update_leader_schedule_v2_def sc i e ls t Option.bind.simps by (simp only: t ls Option.bind.simps)
  from restart_after_schedule_update_panics[OF inv lc nw _ u] u tc show ?thesis by (auto simp: u32_max_def)
qed

end
