(* ===== verification/Suspension.thy ===== *)
theory Suspension
  imports Block_Manager
begin

text \<open>
  Correctness of the block manager: the invariant that ties its three maps to each other and to
  the blocks the DAG state serves, the effect of the unsuspension loop, and what becomes of delivered blocks.
\<close>

subsection \<open>Universes of blocks\<close>

text \<open>
  A universe gives the block of each reference. Its blocks passed verification, and the own
  authority has one block per slot.
\<close>

definition universe_ok :: "committee \<Rightarrow> authority_index \<Rightarrow> (block_ref \<Rightarrow> verified_block option) \<Rightarrow> bool" where
  "universe_ok c own U \<longleftrightarrow>
     (\<forall>r b. U r = Some b \<longrightarrow> reference b = r \<and>
        (0 < br_round r \<longrightarrow> br_author r < committee_size c \<and> ancestors_wf c (br_author r) (br_round r) (vb_ancestors b))) \<and>
     (\<forall>r r'. U r \<noteq> None \<longrightarrow> U r' \<noteq> None \<longrightarrow> slot_from r = slot_from r' \<longrightarrow> br_author r = own \<longrightarrow> r = r')"

lemma universe_block:
  assumes "universe_ok c own U" and "U r = Some b" and "0 < br_round r"
  shows "reference b = r" and "br_author r < committee_size c"
    and "a \<in> set (vb_ancestors b) \<Longrightarrow> br_round a < br_round r \<and> br_author a < committee_size c"
  using assms by (auto simp: universe_ok_def ancestors_wf_def is_valid_index_def)

lemma universe_own:
  "universe_ok c own U \<Longrightarrow> U r \<noteq> None \<Longrightarrow> U r' \<noteq> None \<Longrightarrow> slot_from r = slot_from r' \<Longrightarrow> br_author r = own \<Longrightarrow> r = r'"
  unfolding universe_ok_def by blast

subsection \<open>The DAG state as a store of accepted blocks\<close>

text \<open>What the block manager relies on: a good block is accepted, is served from then on, and nothing else changes.\<close>

locale accepting_store =
  fixes inv :: "'s \<Rightarrow> bool" and served :: "'s \<Rightarrow> block_ref \<Rightarrow> verified_block option"
    and good :: "verified_block \<Rightarrow> bool" and accept :: "verified_block \<Rightarrow> 's \<Rightarrow> 's option" and frame :: "'s \<Rightarrow> 'f"
  assumes accept_good: "inv s \<Longrightarrow> good b \<Longrightarrow> \<exists>s'. accept b s = Some s' \<and> inv s' \<and> frame s' = frame s \<and>
    served s' = (\<lambda>r. if r = reference b \<and> served s r = None then Some b else served s r)"
begin

lemma accept_all:
  assumes "inv s" and "\<forall>b\<in>set bs. good b"
  shows "\<exists>s'. foldM accept bs s = Some s' \<and> inv s' \<and> frame s' = frame s \<and> dom (served s') = dom (served s) \<union> reference ` set bs"
  using assms
proof (induction bs arbitrary: s)
  case (Cons b bs)
  from accept_good[of s b] Cons.prems obtain s1 where s1: "accept b s = Some s1" "inv s1" "frame s1 = frame s"
      "served s1 = (\<lambda>r. if r = reference b \<and> served s r = None then Some b else served s r)" by auto
  have "dom (served s1) = insert (reference b) (dom (served s))" unfolding s1(4) by (auto simp: dom_def split: if_splits)
  with Cons.IH[OF s1(2)] Cons.prems(2) s1(1,3) show ?case by auto
qed simp

end

definition store_inv :: "(block_ref \<Rightarrow> verified_block option) \<Rightarrow> dag_state \<Rightarrow> bool" where
  "store_inv U ds \<longleftrightarrow> ds_inv ds \<and> \<not> pc_enable_v3 (cx_protocol_config (ds_context ds)) \<and> ds_get_block ds \<subseteq>\<^sub>m U \<and>
     universe_ok (ds_committee ds) (cx_own_index (ds_context ds)) U"

lemma own_slot_free:
  assumes "store_inv U ds" and "U (reference b) = Some b" and "ds_get_block ds (reference b) = None" and "vb_author b = cx_own_index (ds_context ds)"
  shows "ds_get_uncommitted_blocks_at_slot ds (slot_from (reference b)) = []"
proof (rule no_uncommitted_at_slot)
  fix r assume r: "slot_from r = slot_from (reference b)"
  show "ds_get_block ds r = None"
  proof (rule ccontr)
    assume "ds_get_block ds r \<noteq> None"
    moreover from this have "U r \<noteq> None" using assms(1) by (auto simp: store_inv_def map_le_def dom_def)
    moreover have "universe_ok (ds_committee ds) (cx_own_index (ds_context ds)) U" using assms(1) by (simp add: store_inv_def)
    ultimately have "reference b = r" using universe_own[of _ _ U "reference b" r] r assms(2,4) by simp
    with \<open>ds_get_block ds r \<noteq> None\<close> show False using assms(3) by simp
  qed
qed (use assms(1) in \<open>simp add: store_inv_def\<close>)

interpretation dag_store: accepting_store "store_inv U" ds_get_block "\<lambda>b. U (reference b) = Some b \<and> 0 < vb_round b"
  "ds_accept_block now" "\<lambda>ds. (ds_context ds, ds_last_commit ds)" for U now
proof unfold_locales
  fix ds b assume inv: "store_inv U ds" and b: "U (reference b) = Some b \<and> 0 < vb_round b"
  have i: "ds_inv ds" and a: "vb_author b < ds_size ds"
    using inv b universe_block(2)[of "ds_committee ds" "cx_own_index (ds_context ds)" U "reference b" b] by (auto simp: store_inv_def)
  have "\<exists>ds'. ds_accept_block now b ds = Some ds'"
  proof (cases "ds_get_block ds (reference b)")
    case None
    then show ?thesis using ds_accept_block_total[OF i a] own_slot_free[OF inv] inv b by (simp add: store_inv_def)
  next
    case Some
    then have "ds_contains_block ds (reference b) = Some True" using ds_contains_block_correct[OF i] a by simp
    then show ?thesis using b by (simp add: ds_accept_block_def)
  qed
  then obtain ds' where acc: "ds_accept_block now b ds = Some ds'" by blast
  note d = ds_accept_block_inv[OF i a acc]
  have "ds_context ds' = ds_context ds \<and> ds_last_commit ds' = ds_last_commit ds"
    using ds_accept_block_cases[OF i a acc] ds_frame_sel(1,4)[of ds' "ds_admit b ds"]
    by (auto simp: ds_same_cache_def) (simp_all add: ds_admit_def ds_insert_cache_def)
  moreover from this have "store_inv U ds'"
    using inv b d by (auto simp: store_inv_def map_le_def dom_def)
  ultimately show "\<exists>s'. ds_accept_block now b ds = Some s' \<and> store_inv U s' \<and>
      (ds_context s', ds_last_commit s') = (ds_context ds, ds_last_commit ds) \<and>
      ds_get_block s' = (\<lambda>r. if r = reference b \<and> ds_get_block ds r = None then Some b else ds_get_block ds r)"
    using acc d(2) by blast
qed

abbreviation held :: "dag_state \<Rightarrow> block_ref set" where
  "held ds \<equiv> dom (ds_get_block ds)"

text \<open>Accepting a batch whose ancestors are all held afterwards keeps the view causally complete.\<close>

lemma view_of_accept:
  assumes v: "view_of c U ds" and s: "store_inv U ds" and good: "\<forall>b\<in>set bs. U (reference b) = Some b \<and> 0 < vb_round b"
    and anc: "\<forall>b\<in>set bs. \<forall>a\<in>set (vb_ancestors b). ds_gc_round ds < br_round a \<longrightarrow> a \<in> held ds \<union> reference ` set bs"
  shows "\<exists>ds'. ds_accept_blocks now bs ds = Some ds' \<and> view_of c U ds' \<and> store_inv U ds' \<and>
    ds_context ds' = ds_context ds \<and> ds_last_commit ds' = ds_last_commit ds \<and> held ds' = held ds \<union> reference ` set bs"
proof -
  from dag_store.accept_all[OF s good, of now] obtain ds' where ds': "ds_accept_blocks now bs ds = Some ds'" "store_inv U ds'"
      "ds_context ds' = ds_context ds" "ds_last_commit ds' = ds_last_commit ds" "held ds' = held ds \<union> reference ` set bs"
    by (auto simp: ds_accept_blocks_def)
  have gc: "ds_gc_round ds' = ds_gc_round ds"
    using ds'(3,4) by (simp add: ds_gc_round_def ds_calculate_gc_round_def ds_last_commit_round_def)
  have U: "U r = Some b" if "ds_get_block ds' r = Some b" for r b
    using ds'(2) that by (auto simp: store_inv_def map_le_def dom_def)
  have uk: "universe_ok c (cx_own_index (ds_context ds)) U" and cm: "ds_committee ds' = c"
    using s view_okD(3)[OF view_ofD(1)[OF v]] ds'(3) by (auto simp: store_inv_def)
  have old: "ds_get_block ds r = Some b" if "ds_get_block ds' r = Some b" "r \<in> held ds" for r b
    using U[OF that(1)] that(2) view_ofD(2)[OF v, of r] by auto
  have new: "\<exists>b'\<in>set bs. b = b' \<and> r = reference b'" if "ds_get_block ds' r = Some b" "r \<notin> held ds" for r b
  proof -
    have "r \<in> held ds'" using that(1) by (rule domI)
    then have "r \<in> reference ` set bs" using that(2) ds'(5) by blast
    then obtain b' where "b' \<in> set bs" "r = reference b'" by blast
    then show ?thesis using U[OF that(1)] good by auto
  qed
  have "ds_complete ds'"
    unfolding ds_complete_def
  proof (intro allI impI)
    fix r a assume "ds_parent ds' r a"
    then obtain b where b: "ds_get_block ds' r = Some b" "a \<in> set (vb_ancestors b)" by (auto simp: ds_parent_def)
    show "br_round a < br_round r \<and> (ds_gc_round ds' < br_round a \<longrightarrow> ds_get_block ds' a \<noteq> None)"
    proof (cases "r \<in> held ds")
      case True
      with view_ok_round[OF view_ofD(1)[OF v] old[OF b(1)] b(2)] show ?thesis using ds'(5) gc by auto
    next
      case False
      with new[OF b(1)] obtain b' where b': "b' \<in> set bs" "b = b'" "r = reference b'" by blast
      have "a \<in> held ds'" if "ds_gc_round ds' < br_round a"
        unfolding ds'(5) using anc[THEN bspec, OF b'(1), THEN bspec, of a] b(2) that unfolding gc b'(2) by simp
      then show ?thesis using universe_block(3)[OF uk U[OF b(1)], of a] b' b(2) good by auto
    qed
  qed
  moreover have "ds_verified ds'"
    using uk U cm unfolding ds_verified_def universe_ok_def by blast
  ultimately show ?thesis using ds' cm by (auto simp: view_of_def view_ok_def store_inv_def)
qed

subsection \<open>The invariant\<close>

text \<open>
  \<open>have\<close> is the set of references held by the DAG state or about to be accepted, and \<open>P\<close> the
  set of references that the unsuspension loop has still to process.
\<close>

definition suspended_ok ::
  "(block_ref \<Rightarrow> verified_block option) \<Rightarrow> block_ref set \<Rightarrow> round \<Rightarrow> block_ref set \<Rightarrow> block_ref \<Rightarrow> suspended_block \<Rightarrow> bool" where
  "suspended_ok U have gc P r sb \<longleftrightarrow> U r = Some (sb_block sb) \<and> 0 < br_round r \<and> r \<notin> have \<and> sb_missing_ancestors sb \<noteq> {||} \<and>
     (\<forall>a. a |\<in>| sb_missing_ancestors sb \<longrightarrow> a \<in> set (vb_ancestors (sb_block sb)) \<and> (a \<in> P \<or> a \<notin> have)) \<and>
     (\<forall>a\<in>set (vb_ancestors (sb_block sb)). gc < br_round a \<longrightarrow> a \<in> have \<or> a |\<in>| sb_missing_ancestors sb)"

definition susp_inv ::
  "committee \<Rightarrow> (block_ref \<Rightarrow> verified_block option) \<Rightarrow> block_ref set \<Rightarrow> round \<Rightarrow> block_ref set \<Rightarrow> block_manager \<Rightarrow> bool" where
  "susp_inv c U have gc P bm \<longleftrightarrow> bm_committee bm = c \<and> length (bm_received_block_rounds bm) = committee_size c \<and>
     (\<forall>r sb. fmlookup (bm_suspended_blocks bm) r = Some sb \<longrightarrow> suspended_ok U have gc P r sb) \<and>
     (\<forall>r sb a. fmlookup (bm_suspended_blocks bm) r = Some sb \<longrightarrow> a |\<in>| sb_missing_ancestors sb \<longrightarrow>
        (\<exists>S. fmlookup (bm_missing_ancestors bm) a = Some S \<and> r |\<in>| S)) \<and>
     (\<forall>a S r. fmlookup (bm_missing_ancestors bm) a = Some S \<longrightarrow> r |\<in>| S \<longrightarrow>
        (\<exists>sb. fmlookup (bm_suspended_blocks bm) r = Some sb \<and> a |\<in>| sb_missing_ancestors sb)) \<and>
     (\<forall>a. a |\<in>| bm_missing_blocks bm \<longleftrightarrow> fmlookup (bm_missing_ancestors bm) a \<noteq> None \<and> \<not> bm_is_suspended bm a \<and> a \<notin> P) \<and>
     (\<forall>a. fmlookup (bm_missing_ancestors bm) a \<noteq> None \<longrightarrow> (a \<notin> have \<or> a \<in> P) \<and> br_author a < committee_size c)"

lemma susp_invD:
  assumes "susp_inv c U have gc P bm"
  shows "bm_committee bm = c" and "length (bm_received_block_rounds bm) = committee_size c"
    and "fmlookup (bm_suspended_blocks bm) r = Some sb \<Longrightarrow> suspended_ok U have gc P r sb"
    and "fmlookup (bm_suspended_blocks bm) r = Some sb \<Longrightarrow> a |\<in>| sb_missing_ancestors sb \<Longrightarrow>
      \<exists>S. fmlookup (bm_missing_ancestors bm) a = Some S \<and> r |\<in>| S"
    and "fmlookup (bm_missing_ancestors bm) a = Some S \<Longrightarrow> r |\<in>| S \<Longrightarrow>
      \<exists>sb. fmlookup (bm_suspended_blocks bm) r = Some sb \<and> a |\<in>| sb_missing_ancestors sb"
    and "a |\<in>| bm_missing_blocks bm \<longleftrightarrow> fmlookup (bm_missing_ancestors bm) a \<noteq> None \<and> \<not> bm_is_suspended bm a \<and> a \<notin> P"
    and "fmlookup (bm_missing_ancestors bm) a \<noteq> None \<Longrightarrow> (a \<notin> have \<or> a \<in> P) \<and> br_author a < committee_size c"
  using assms unfolding susp_inv_def by blast+

lemma susp_invI:
  assumes "bm_committee bm = c" and "length (bm_received_block_rounds bm) = committee_size c"
    and "\<And>r sb. fmlookup (bm_suspended_blocks bm) r = Some sb \<Longrightarrow> suspended_ok U have gc P r sb"
    and "\<And>r sb a. fmlookup (bm_suspended_blocks bm) r = Some sb \<Longrightarrow> a |\<in>| sb_missing_ancestors sb \<Longrightarrow>
      \<exists>S. fmlookup (bm_missing_ancestors bm) a = Some S \<and> r |\<in>| S"
    and "\<And>a S r. fmlookup (bm_missing_ancestors bm) a = Some S \<Longrightarrow> r |\<in>| S \<Longrightarrow>
      \<exists>sb. fmlookup (bm_suspended_blocks bm) r = Some sb \<and> a |\<in>| sb_missing_ancestors sb"
    and "\<And>a. a |\<in>| bm_missing_blocks bm \<longleftrightarrow> fmlookup (bm_missing_ancestors bm) a \<noteq> None \<and> \<not> bm_is_suspended bm a \<and> a \<notin> P"
    and "\<And>a. fmlookup (bm_missing_ancestors bm) a \<noteq> None \<Longrightarrow> (a \<notin> have \<or> a \<in> P) \<and> br_author a < committee_size c"
  shows "susp_inv c U have gc P bm"
  using assms unfolding susp_inv_def by blast

lemma block_manager_new_inv: "cx_committee ctx = c \<Longrightarrow> susp_inv c U have gc {} (block_manager_new ctx)"
  by (simp add: susp_inv_def block_manager_new_def)

lemma susp_inv_gc: "susp_inv c U have gc P bm \<Longrightarrow> gc \<le> gc' \<Longrightarrow> susp_inv c U have gc' P bm"
  unfolding susp_inv_def suspended_ok_def by (meson le_less_trans)

subsection \<open>The inner loop of unsuspension\<close>

text \<open>The suspended blocks after a dependency \<open>p\<close> of the references \<open>S\<close> is resolved.\<close>

definition freed :: "block_manager \<Rightarrow> block_ref \<Rightarrow> block_ref \<Rightarrow> bool" where
  "freed bm p r \<longleftrightarrow> (\<exists>sb. fmlookup (bm_suspended_blocks bm) r = Some sb \<and> sb_missing_ancestors sb = {|p|})"

definition resolve :: "block_ref \<Rightarrow> suspended_block \<Rightarrow> suspended_block" where
  "resolve p sb = sb\<lparr>sb_missing_ancestors := sb_missing_ancestors sb |-| {|p|}\<rparr>"

lemma resolve_sel [simp]: "sb_block (resolve p sb) = sb_block sb" "sb_missing_ancestors (resolve p sb) = sb_missing_ancestors sb |-| {|p|}"
  by (simp_all add: resolve_def)

definition resolved :: "block_ref \<Rightarrow> block_ref set \<Rightarrow> block_manager \<Rightarrow> block_ref \<Rightarrow> suspended_block option" where
  "resolved p S bm r =
     (if r \<in> S then (if freed bm p r then None else map_option (resolve p) (fmlookup (bm_suspended_blocks bm) r))
      else fmlookup (bm_suspended_blocks bm) r)"

lemma unsuspend_dependents:
  assumes "distinct xs"
    and "\<forall>r\<in>set xs. \<exists>sb. fmlookup (bm_suspended_blocks bm) r = Some sb \<and> p |\<in>| sb_missing_ancestors sb \<and> reference (sb_block sb) = r"
  shows "\<exists>m us. foldM (unsuspend_dependent p) xs (bm, st, us0) =
      Some (bm\<lparr>bm_suspended_blocks := m\<rparr>, rev (filter (freed bm p) xs) @ st, us0 @ us) \<and>
    fmlookup m = resolved p (set xs) bm \<and>
    map (\<lambda>sb. reference (sb_block sb)) us = filter (freed bm p) xs \<and>
    (\<forall>sb\<in>set us. \<exists>sb0. fmlookup (bm_suspended_blocks bm) (reference (sb_block sb)) = Some sb0 \<and> sb_block sb = sb_block sb0)"
  using assms
proof (induction xs arbitrary: bm st us0)
  case Nil
  show ?case by (rule exI[of _ "bm_suspended_blocks bm"], rule exI[of _ "[]"]) (simp add: resolved_def fun_eq_iff)
next
  case (Cons x xs)
  from Cons.prems(2) obtain sb where sb: "fmlookup (bm_suspended_blocks bm) x = Some sb" "p |\<in>| sb_missing_ancestors sb" "reference (sb_block sb) = x"
    by auto
  define bm1 where "bm1 = bm\<lparr>bm_suspended_blocks := if freed bm p x then fmdrop x (bm_suspended_blocks bm)
      else fmupd x (resolve p sb) (bm_suspended_blocks bm)\<rparr>"
  define u where "u = (if freed bm p x then [resolve p sb] else [])"
  have fx: "freed bm p x \<longleftrightarrow> sb_missing_ancestors sb |-| {|p|} = {||}" using sb by (auto simp: freed_def)
  have step: "unsuspend_dependent p x (bm, st, us0) = Some (bm1, map (\<lambda>sb. reference (sb_block sb)) u @ st, us0 @ u)"
    using sb fx by (simp add: unsuspend_dependent_def try_unsuspend_block_def bm1_def u_def Let_def resolve_def[symmetric])
  have look: "fmlookup (bm_suspended_blocks bm1) r = (if r = x then (if freed bm p x then None else Some (resolve p sb)) else fmlookup (bm_suspended_blocks bm) r)" for r
    by (simp add: bm1_def)
  have xs: "x \<notin> set xs" "distinct xs" using Cons.prems(1) by auto
  have fr: "freed bm1 p r = freed bm p r" if "r \<noteq> x" for r using that by (simp add: freed_def look)
  have "\<forall>r\<in>set xs. \<exists>sb. fmlookup (bm_suspended_blocks bm1) r = Some sb \<and> p |\<in>| sb_missing_ancestors sb \<and> reference (sb_block sb) = r"
    using Cons.prems(2) xs(1) by (auto simp: look)
  from Cons.IH[OF xs(2) this, of "map (\<lambda>sb. reference (sb_block sb)) u @ st" "us0 @ u"] obtain m us where
    ih: "foldM (unsuspend_dependent p) xs (bm1, map (\<lambda>sb. reference (sb_block sb)) u @ st, us0 @ u) =
        Some (bm1\<lparr>bm_suspended_blocks := m\<rparr>, rev (filter (freed bm1 p) xs) @ map (\<lambda>sb. reference (sb_block sb)) u @ st, (us0 @ u) @ us)"
      "fmlookup m = resolved p (set xs) bm1" "map (\<lambda>sb. reference (sb_block sb)) us = filter (freed bm1 p) xs"
      "\<forall>sb\<in>set us. \<exists>sb0. fmlookup (bm_suspended_blocks bm1) (reference (sb_block sb)) = Some sb0 \<and> sb_block sb = sb_block sb0"
    by blast
  have fl: "filter (freed bm1 p) xs = filter (freed bm p) xs" using fr xs(1) by (metis (mono_tags, lifting) filter_cong)
  have "fmlookup m = resolved p (set (x # xs)) bm" unfolding ih(2) using xs(1) sb(1) by (auto simp: fun_eq_iff resolved_def look fr)
  moreover have "\<forall>s\<in>set (u @ us). \<exists>sb0. fmlookup (bm_suspended_blocks bm) (reference (sb_block s)) = Some sb0 \<and> sb_block s = sb_block sb0"
    using ih(4) sb by (auto simp: u_def look split: if_splits)
  moreover have "map (\<lambda>sb. reference (sb_block sb)) (u @ us) = filter (freed bm p) (x # xs)" using ih(3) sb(3) by (simp add: u_def fl)
  moreover have "foldM (unsuspend_dependent p) (x # xs) (bm, st, us0) =
      Some (bm\<lparr>bm_suspended_blocks := m\<rparr>, rev (filter (freed bm p) (x # xs)) @ st, us0 @ u @ us)"
    using step ih(1) sb(3) by (simp add: fl u_def) (simp add: bm1_def)
  ultimately show ?case by blast
qed

subsection \<open>The unsuspension loop\<close>

text \<open>One iteration: \<open>F\<close> are the blocks that the resolved reference \<open>p\<close> sets free.\<close>

lemma susp_inv_resolve:
  assumes inv: "susp_inv c U have gc (insert p P) bm" and p: "p \<in> have \<or> br_round p \<le> gc"
    and S: "fmlookup (bm_missing_ancestors bm) p = Some S"
    and m: "fmlookup m = resolved p (fset S) bm" and F: "F = {r. r |\<in>| S \<and> freed bm p r}"
  shows "susp_inv c U (have \<union> F) gc (P \<union> F)
    (bm\<lparr>bm_missing_ancestors := fmdrop p (bm_missing_ancestors bm), bm_suspended_blocks := m\<rparr>)"
proof -
  note D = susp_invD[OF inv]
  have notin: "p |\<notin>| sb_missing_ancestors sb" if "fmlookup (bm_suspended_blocks bm) r = Some sb" "r |\<notin>| S" for r sb
    using D(4)[OF that(1), of p] S that(2) by auto
  have old: "\<exists>sb. fmlookup (bm_suspended_blocks bm) r = Some sb \<and> r \<notin> F \<and> sb_block sb' = sb_block sb \<and>
      sb_missing_ancestors sb' = sb_missing_ancestors sb |-| {|p|} \<and> sb_missing_ancestors sb' \<noteq> {||}" if "fmlookup m r = Some sb'" for r sb'
  proof (cases "r |\<in>| S")
    case True
    with that m obtain sb where "fmlookup (bm_suspended_blocks bm) r = Some sb" "sb' = resolve p sb" "\<not> freed bm p r"
      by (auto simp: resolved_def split: if_splits)
    moreover from this have "sb_missing_ancestors sb |-| {|p|} \<noteq> {||}"
      using D(5)[OF S True] by (auto simp: freed_def)
    ultimately show ?thesis by (simp add: F)
  next
    case False
    with that m have e: "fmlookup (bm_suspended_blocks bm) r = Some sb'" by (simp add: resolved_def)
    moreover have "sb_missing_ancestors sb' |-| {|p|} = sb_missing_ancestors sb'" using notin[OF e False] by auto
    ultimately show ?thesis using False D(3)[OF e] by (auto simp: F suspended_ok_def)
  qed
  have susp: "fmlookup m r \<noteq> None \<longleftrightarrow> bm_is_suspended bm r \<and> r \<notin> F" for r
    using old[of r] by (cases "fmlookup m r") (auto simp: m resolved_def F split: if_splits)
  show ?thesis
  proof (rule susp_invI, goal_cases)
    case (3 r sb')
    then have "fmlookup m r = Some sb'" by simp
    from old[OF this] obtain sb where sb: "fmlookup (bm_suspended_blocks bm) r = Some sb" "r \<notin> F" "sb_block sb' = sb_block sb"
        "sb_missing_ancestors sb' = sb_missing_ancestors sb |-| {|p|}" "sb_missing_ancestors sb' \<noteq> {||}" by blast
    have x: "a |\<in>| sb_missing_ancestors sb' \<longleftrightarrow> a |\<in>| sb_missing_ancestors sb \<and> a \<noteq> p" for a using sb(4) by auto
    have ok: "suspended_ok U have gc (insert p P) r sb" using D(3)[OF sb(1)] .
    have "a \<in> have \<union> F \<or> a |\<in>| sb_missing_ancestors sb'" if "a \<in> set (vb_ancestors (sb_block sb))" "gc < br_round a" for a
      using ok that p unfolding suspended_ok_def x by (cases "a = p") auto
    moreover have "a \<in> P \<union> F \<or> a \<notin> have \<union> F" if "a |\<in>| sb_missing_ancestors sb'" for a
      using ok that unfolding suspended_ok_def x by blast
    ultimately show ?case using ok sb(2,5) unfolding suspended_ok_def sb(3) x by simp
  next
    case (4 r sb' a)
    then have "fmlookup m r = Some sb'" by simp
    from old[OF this] 4(2) obtain sb where "fmlookup (bm_suspended_blocks bm) r = Some sb" "a |\<in>| sb_missing_ancestors sb" "a \<noteq> p" by auto
    with D(4)[of r sb a] show ?case by auto
  next
    case (5 a T r)
    then have a: "a \<noteq> p" "fmlookup (bm_missing_ancestors bm) a = Some T" by (auto split: if_splits)
    from D(5)[OF a(2) 5(2)] obtain sb where sb: "fmlookup (bm_suspended_blocks bm) r = Some sb" "a |\<in>| sb_missing_ancestors sb" by blast
    then have "\<not> freed bm p r" using a(1) by (auto simp: freed_def)
    then show ?case using sb a(1) by (cases "r |\<in>| S") (auto simp: m resolved_def)
  next
    case (6 a)
    have "a \<in> F \<Longrightarrow> bm_is_suspended bm a" by (auto simp: F freed_def)
    then show ?case using D(6)[of a] susp[of a] by auto
  next
    case (7 a)
    then show ?case using D(7)[of a] by (auto split: if_splits)
  qed (use D(1,2) in simp_all)
qed

text \<open>What a run of the loop releases.\<close>

definition released ::
  "block_ref set \<Rightarrow> round \<Rightarrow> block_manager \<Rightarrow> suspended_block list \<Rightarrow> block_manager \<Rightarrow> bool" where
  "released have gc bm us bm' \<longleftrightarrow>
     distinct (map (\<lambda>sb. reference (sb_block sb)) us) \<and>
     (\<forall>sb\<in>set us. \<exists>sb0. fmlookup (bm_suspended_blocks bm) (reference (sb_block sb)) = Some sb0 \<and> sb_block sb = sb_block sb0) \<and>
     fmdom' (bm_suspended_blocks bm') = fmdom' (bm_suspended_blocks bm) - (\<lambda>sb. reference (sb_block sb)) ` set us \<and>
     fmdom' (bm_missing_ancestors bm') \<subseteq> fmdom' (bm_missing_ancestors bm) \<and>
     bm_missing_blocks bm' = bm_missing_blocks bm \<and>
     (\<forall>sb\<in>set us. \<forall>a\<in>set (vb_ancestors (sb_block sb)). gc < br_round a \<longrightarrow> a \<in> have \<union> (\<lambda>sb. reference (sb_block sb)) ` set us)"

lemma susp_inv_skip:
  assumes "susp_inv c U have gc (insert p P) bm" and "fmlookup (bm_missing_ancestors bm) p = None"
  shows "susp_inv c U have gc P bm"
proof -
  note D = susp_invD[OF assms(1)]
  have no: "a \<noteq> p" if "fmlookup (bm_suspended_blocks bm) r = Some sb" "a |\<in>| sb_missing_ancestors sb" for r sb a
    using D(4)[OF that] assms(2) by auto
  show ?thesis
  proof (rule susp_invI, goal_cases)
    case (3 r sb)
    from D(3)[OF this] no[OF this] show ?case unfolding suspended_ok_def by blast
  next
    case (4 r sb a)
    then show ?case by (rule D(4))
  next
    case (5 a S r)
    then show ?case by (rule D(5))
  next
    case (6 a)
    show ?case using D(6)[of a] assms(2) by auto
  next
    case (7 a)
    then show ?case using D(7)[of a] assms(2) by auto
  qed (use D(1,2) in simp_all)
qed

lemma released_trans:
  assumes step: "released have gc bm us bm1" and rest: "released (have \<union> (\<lambda>sb. reference (sb_block sb)) ` set us) gc bm1 vs bm2"
    and sub: "\<And>r sb. fmlookup (bm_suspended_blocks bm1) r = Some sb \<Longrightarrow>
      \<exists>sb0. fmlookup (bm_suspended_blocks bm) r = Some sb0 \<and> sb_block sb = sb_block sb0"
  shows "released have gc bm (us @ vs) bm2"
proof -
  let ?r = "\<lambda>sb. reference (sb_block sb)"
  have "?r ` set vs \<subseteq> fmdom' (bm_suspended_blocks bm1)" using rest by (force simp: released_def fmlookup_dom'_iff)
  then have dis: "?r ` set us \<inter> ?r ` set vs = {}" using step by (auto simp: released_def)
  have "\<exists>sb0. fmlookup (bm_suspended_blocks bm) (reference (sb_block sb)) = Some sb0 \<and> sb_block sb = sb_block sb0" if "sb \<in> set (us @ vs)" for sb
  proof (cases "sb \<in> set us")
    case True
    then show ?thesis using step by (simp add: released_def)
  next
    case False
    with that rest obtain sb1 where "fmlookup (bm_suspended_blocks bm1) (reference (sb_block sb)) = Some sb1" "sb_block sb = sb_block sb1"
      by (auto simp: released_def)
    with sub[of "reference (sb_block sb)" sb1] show ?thesis by auto
  qed
  moreover have "fmdom' (bm_suspended_blocks bm2) = fmdom' (bm_suspended_blocks bm) - ?r ` set (us @ vs)"
    using step rest by (auto simp: released_def)
  moreover have "a \<in> have \<union> ?r ` set (us @ vs)" if "sb \<in> set (us @ vs)" "a \<in> set (vb_ancestors (sb_block sb))" "gc < br_round a" for sb a
    using step rest that unfolding released_def by (metis (no_types, lifting) UnCI UnE image_Un set_append)
  moreover have "distinct (map ?r (us @ vs))" using step rest dis by (simp add: released_def)
  moreover have "fmdom' (bm_missing_ancestors bm2) \<subseteq> fmdom' (bm_missing_ancestors bm)" "bm_missing_blocks bm2 = bm_missing_blocks bm"
    using step rest by (auto simp: released_def)
  ultimately show ?thesis unfolding released_def by blast
qed

text \<open>One iteration of the loop on a reference that others wait for.\<close>

lemma unsuspend_iteration:
  assumes inv: "susp_inv c U have gc (insert p P) bm" and uk: "universe_ok c own U" and p: "p \<in> have \<or> br_round p \<le> gc"
    and S: "fmlookup (bm_missing_ancestors bm) p = Some S"
  shows "\<exists>us bm1. foldM (unsuspend_dependent p) (sorted_list_of_fset S)
      (bm\<lparr>bm_missing_ancestors := fmdrop p (bm_missing_ancestors bm)\<rparr>, st, us0) =
        Some (bm1, rev (map (\<lambda>sb. reference (sb_block sb)) us) @ st, us0 @ us) \<and>
    released have gc bm us bm1 \<and> susp_inv c U (have \<union> (\<lambda>sb. reference (sb_block sb)) ` set us) gc (P \<union> (\<lambda>sb. reference (sb_block sb)) ` set us) bm1 \<and>
    fmlookup (bm_missing_ancestors bm1) p = None \<and>
    (\<forall>r sb. fmlookup (bm_suspended_blocks bm1) r = Some sb \<longrightarrow>
      (\<exists>sb0. fmlookup (bm_suspended_blocks bm) r = Some sb0 \<and> sb_block sb = sb_block sb0))"
proof -
  note D = susp_invD[OF inv]
  let ?bm = "bm\<lparr>bm_missing_ancestors := fmdrop p (bm_missing_ancestors bm)\<rparr>" and ?r = "\<lambda>sb. reference (sb_block sb)"
  define F where "F = {r. r |\<in>| S \<and> freed bm p r}"
  have fr: "freed ?bm p = freed bm p" by (simp add: freed_def fun_eq_iff)
  have rs: "resolved p T ?bm = resolved p T bm" for T by (simp add: resolved_def fun_eq_iff fr)
  have "\<exists>sb. fmlookup (bm_suspended_blocks bm) r = Some sb \<and> p |\<in>| sb_missing_ancestors sb \<and> reference (sb_block sb) = r" if r: "r |\<in>| S" for r
  proof -
    from D(5)[OF S r] obtain sb where sb: "fmlookup (bm_suspended_blocks bm) r = Some sb" "p |\<in>| sb_missing_ancestors sb" by blast
    with D(3)[OF sb(1)] universe_block(1)[OF uk, of r "sb_block sb"] show ?thesis by (auto simp: suspended_ok_def)
  qed
  then obtain m us where run: "foldM (unsuspend_dependent p) (sorted_list_of_fset S) (?bm, st, us0) =
        Some (?bm\<lparr>bm_suspended_blocks := m\<rparr>, rev (filter (freed bm p) (sorted_list_of_fset S)) @ st, us0 @ us)"
      and m: "fmlookup m = resolved p (fset S) bm" and us: "map ?r us = filter (freed bm p) (sorted_list_of_fset S)"
      and from_bm: "\<forall>sb\<in>set us. \<exists>sb0. fmlookup (bm_suspended_blocks bm) (reference (sb_block sb)) = Some sb0 \<and> sb_block sb = sb_block sb0"
    using unsuspend_dependents[of "sorted_list_of_fset S" ?bm p st us0] unfolding fr rs by auto
  let ?bm1 = "?bm\<lparr>bm_suspended_blocks := m\<rparr>"
  have "?r ` set us = set (map ?r us)" by simp
  then have usF: "?r ` set us = F" unfolding us by (auto simp: F_def)
  have inv1: "susp_inv c U (have \<union> F) gc (P \<union> F) ?bm1" using susp_inv_resolve[OF inv p S m F_def] by simp
  have dom: "fmdom' m = fmdom' (bm_suspended_blocks bm) - F"
    using D(5)[OF S] by (auto simp: fmlookup_dom'_iff m resolved_def F_def split: if_splits)
  have anc: "a \<in> have \<union> F" if sb: "sb \<in> set us" and a: "a \<in> set (vb_ancestors (sb_block sb))" "gc < br_round a" for sb a
  proof -
    from from_bm sb obtain sb0 where sb0: "fmlookup (bm_suspended_blocks bm) (reference (sb_block sb)) = Some sb0" "sb_block sb = sb_block sb0" by blast
    have "reference (sb_block sb) \<in> F" using sb usF by auto
    then have "sb_missing_ancestors sb0 = {|p|}" using sb0(1) by (auto simp: F_def freed_def)
    then show ?thesis using D(3)[OF sb0(1)] a p unfolding suspended_ok_def sb0(2)[symmetric] by auto
  qed
  have "released have gc bm us ?bm1"
    unfolding released_def usF using from_bm anc dom us by simp
  moreover have "\<exists>sb0. fmlookup (bm_suspended_blocks bm) r = Some sb0 \<and> sb_block sb = sb_block sb0" if "fmlookup m r = Some sb" for r sb
    using that by (auto simp: m resolved_def split: if_splits)
  ultimately show ?thesis using run inv1 unfolding us[symmetric] by (intro exI[of _ us] exI[of _ ?bm1]) (simp add: usF)
qed

lemma unsuspend_loop_spec:
  assumes "susp_inv c U have gc (set st) bm" and uk: "universe_ok c own U" and "\<forall>p\<in>set st. p \<in> have \<or> br_round p \<le> gc"
  shows "\<exists>us bm'. unsuspend_loop st us0 bm = Some (bm', us0 @ us) \<and> released have gc bm us bm' \<and>
    susp_inv c U (have \<union> (\<lambda>sb. reference (sb_block sb)) ` set us) gc {} bm' \<and> (\<forall>p\<in>set st. fmlookup (bm_missing_ancestors bm') p = None)"
  using assms(1,3)
proof (induction "card (fmdom' (bm_suspended_blocks bm)) + length st" arbitrary: st us0 bm "have" rule: less_induct)
  case less
  let ?r = "\<lambda>sb. reference (sb_block sb)"
  show ?case
  proof (cases st)
    case Nil
    then have "unsuspend_loop st us0 bm = Some (bm, us0 @ [])" by (subst unsuspend_loop.simps) simp
    moreover have "released have gc bm [] bm" by (simp add: released_def)
    ultimately show ?thesis using less.prems Nil by (intro exI[of _ "[]"] exI[of _ bm]) simp
  next
    case (Cons p rest)
    have inv: "susp_inv c U have gc (insert p (set rest)) bm" using less.prems(1) Cons by simp
    show ?thesis
    proof (cases "fmlookup (bm_missing_ancestors bm) p")
      case None
      have "unsuspend_loop st us0 bm = unsuspend_loop rest us0 bm" using Cons None by (subst unsuspend_loop.simps) simp
      moreover from less.hyps[of bm rest "have" us0] susp_inv_skip[OF inv None] less.prems(2) Cons obtain us bm' where
        ih: "unsuspend_loop rest us0 bm = Some (bm', us0 @ us)" "released have gc bm us bm'" "susp_inv c U (have \<union> ?r ` set us) gc {} bm'"
        "\<forall>p\<in>set rest. fmlookup (bm_missing_ancestors bm') p = None" by auto
      moreover have "fmdom' (bm_missing_ancestors bm') \<subseteq> fmdom' (bm_missing_ancestors bm)" using ih(2) by (simp add: released_def)
      then have "fmlookup (bm_missing_ancestors bm') p = None" using None by (fastforce simp: fmlookup_dom'_iff)
      ultimately show ?thesis using Cons by (intro exI[of _ us] exI[of _ bm']) simp
    next
      case (Some S)
      from less.prems(2) Cons have p: "p \<in> have \<or> br_round p \<le> gc" by simp
      from unsuspend_iteration[OF inv uk p Some, of rest us0] obtain us bm1 where
        run: "foldM (unsuspend_dependent p) (sorted_list_of_fset S) (bm\<lparr>bm_missing_ancestors := fmdrop p (bm_missing_ancestors bm)\<rparr>, rest, us0) =
          Some (bm1, rev (map ?r us) @ rest, us0 @ us)"
        and rel: "released have gc bm us bm1" and inv1: "susp_inv c U (have \<union> ?r ` set us) gc (set rest \<union> ?r ` set us) bm1"
        and p1: "fmlookup (bm_missing_ancestors bm1) p = None"
        and sub: "\<forall>r sb. fmlookup (bm_suspended_blocks bm1) r = Some sb \<longrightarrow>
          (\<exists>sb0. fmlookup (bm_suspended_blocks bm) r = Some sb0 \<and> sb_block sb = sb_block sb0)" by blast
      let ?st = "rev (map ?r us) @ rest"
      have "?r ` set us \<subseteq> fmdom' (bm_suspended_blocks bm)" using rel by (force simp: released_def fmlookup_dom'_iff)
      moreover have "card (?r ` set us) = length us" using rel distinct_card[of "map ?r us"] by (simp add: released_def)
      moreover have "fmdom' (bm_suspended_blocks bm1) = fmdom' (bm_suspended_blocks bm) - ?r ` set us" using rel by (simp add: released_def)
      moreover have "card (?r ` set us) \<le> card (fmdom' (bm_suspended_blocks bm))" using calculation(1) by (simp add: card_mono)
      ultimately have "card (fmdom' (bm_suspended_blocks bm1)) + length us = card (fmdom' (bm_suspended_blocks bm))"
        by (simp add: card_Diff_subset)
      then have lt: "card (fmdom' (bm_suspended_blocks bm1)) + length ?st < card (fmdom' (bm_suspended_blocks bm)) + length st" using Cons by simp
      have "susp_inv c U (have \<union> ?r ` set us) gc (set ?st) bm1" using inv1 by (simp add: Un_commute)
      moreover have "\<forall>q\<in>set ?st. q \<in> have \<union> ?r ` set us \<or> br_round q \<le> gc" using less.prems(2) Cons by auto
      ultimately obtain vs bm2 where ih: "unsuspend_loop ?st (us0 @ us) bm1 = Some (bm2, (us0 @ us) @ vs)"
          "released (have \<union> ?r ` set us) gc bm1 vs bm2" "susp_inv c U (have \<union> ?r ` set us \<union> ?r ` set vs) gc {} bm2"
          "\<forall>q\<in>set ?st. fmlookup (bm_missing_ancestors bm2) q = None"
        using less.hyps[OF lt, of "have \<union> ?r ` set us" "us0 @ us"] by blast
      have "unsuspend_loop st us0 bm = Some (bm2, us0 @ us @ vs)"
        using Cons Some run ih(1) by (subst unsuspend_loop.simps) simp
      moreover have "released have gc bm (us @ vs) bm2" by (rule released_trans[OF rel ih(2)]) (use sub in simp)
      moreover have "fmdom' (bm_missing_ancestors bm2) \<subseteq> fmdom' (bm_missing_ancestors bm1)" using ih(2) by (simp add: released_def)
      then have "fmlookup (bm_missing_ancestors bm2) p = None" using p1 by (fastforce simp: fmlookup_dom'_iff)
      ultimately show ?thesis using ih(3,4) Cons by (intro exI[of _ "us @ vs"] exI[of _ bm2]) (simp add: Un_assoc image_Un)
    qed
  qed
qed

text \<open>The blocks a call releases, with what the DAG state needs to accept them.\<close>

lemma try_unsuspend_children_spec:
  assumes inv: "susp_inv c U have gc {p} bm" and uk: "universe_ok c own U" and p: "p \<in> have \<or> br_round p \<le> gc"
  shows "\<exists>bs bm'. try_unsuspend_children_blocks p bm = Some (bm', bs) \<and> distinct (map reference bs) \<and>
    (\<forall>b\<in>set bs. U (reference b) = Some b \<and> 0 < vb_round b \<and> bm_is_suspended bm (reference b) \<and>
       (\<forall>a\<in>set (vb_ancestors b). gc < br_round a \<longrightarrow> a \<in> have \<union> reference ` set bs)) \<and>
    susp_inv c U (have \<union> reference ` set bs) gc {} bm' \<and>
    fmdom' (bm_suspended_blocks bm') = fmdom' (bm_suspended_blocks bm) - reference ` set bs \<and>
    fmdom' (bm_missing_ancestors bm') \<subseteq> fmdom' (bm_missing_ancestors bm) - {p} \<and> bm_missing_blocks bm' = bm_missing_blocks bm"
proof -
  let ?r = "\<lambda>sb. reference (sb_block sb)"
  have "susp_inv c U have gc (set [p]) bm" and "\<forall>q\<in>set [p]. q \<in> have \<or> br_round q \<le> gc" using inv p by simp_all
  from unsuspend_loop_spec[OF this(1) uk this(2), of "[]"] obtain us bm' where
    run: "unsuspend_loop [p] [] bm = Some (bm', us)" and rel: "released have gc bm us bm'"
    and inv': "susp_inv c U (have \<union> ?r ` set us) gc {} bm'" and np: "fmlookup (bm_missing_ancestors bm') p = None" by auto
  have refs: "?r ` set us = reference ` set (map sb_block us)" by auto
  have b: "U (?r sb) = Some (sb_block sb) \<and> 0 < br_round (?r sb) \<and> bm_is_suspended bm (?r sb)" if "sb \<in> set us" for sb
  proof -
    from rel that obtain sb0 where "fmlookup (bm_suspended_blocks bm) (?r sb) = Some sb0" "sb_block sb = sb_block sb0"
      unfolding released_def by blast
    then show ?thesis using susp_invD(3)[OF inv, of "?r sb" sb0] by (simp add: suspended_ok_def)
  qed
  have "vb_author (sb_block sb) < committee_size c" if "sb \<in> set us" for sb
    using universe_block(2)[OF uk, of "?r sb" "sb_block sb"] b[OF that] by simp
  then have "mapM (\<lambda>sb. committee_authority (bm_committee bm') (vb_author (sb_block sb))) us =
      Some (map (\<lambda>sb. c_authorities c ! vb_author (sb_block sb)) us)"
    using susp_invD(1)[OF inv'] by (intro mapM_total) (simp add: committee_authority_def committee_size_def)
  then have "try_unsuspend_children_blocks p bm = Some (bm', map sb_block us)"
    using run by (simp add: try_unsuspend_children_blocks_def)
  moreover have "distinct (map reference (map sb_block us))" using rel by (simp add: released_def comp_def)
  moreover have "\<forall>b\<in>set (map sb_block us). U (reference b) = Some b \<and> 0 < vb_round b \<and> bm_is_suspended bm (reference b) \<and>
      (\<forall>a\<in>set (vb_ancestors b). gc < br_round a \<longrightarrow> a \<in> have \<union> reference ` set (map sb_block us))"
    using b rel unfolding released_def refs by simp
  moreover have "fmdom' (bm_missing_ancestors bm') \<subseteq> fmdom' (bm_missing_ancestors bm) - {p}"
    using rel np by (auto simp: released_def fmlookup_dom'_iff)
  ultimately show ?thesis using inv' rel unfolding refs released_def by blast
qed

subsection \<open>Accepting one block\<close>

lemma note_ancestors:
  assumes "\<forall>fa\<in>set zs. \<not> fst fa \<longrightarrow> br_author (snd fa) < committee_size (bm_committee bm)"
    and "N = snd ` {fa \<in> set zs. \<not> fst fa}"
  shows "\<exists>m B M' T'. foldM (note_ancestor r) zs (bm, M, T) =
      Some (bm\<lparr>bm_missing_ancestors := m, bm_missing_blocks := B\<rparr>, M', T') \<and>
    fmlookup m = (\<lambda>a. if a \<in> N then Some (finsert r (missing_entry a bm)) else fmlookup (bm_missing_ancestors bm) a) \<and>
    fset B = fset (bm_missing_blocks bm) \<union> {a \<in> N. \<not> bm_is_suspended bm a} \<and> fset M' = fset M \<union> N \<and>
    fset T' = fset T \<union> {a \<in> N. \<not> bm_is_suspended bm a}"
  using assms
proof (induction zs arbitrary: bm M T N)
  case Nil
  show ?case using Nil
    by (intro exI[of _ "bm_missing_ancestors bm"] exI[of _ "bm_missing_blocks bm"] exI[of _ M] exI[of _ T]) simp
next
  case (Cons z zs)
  obtain f a where z: "z = (f, a)" by (cases z)
  define N1 where "N1 = snd ` {fa \<in> set zs. \<not> fst fa}"
  have N: "N = (if f then N1 else insert a N1)" unfolding Cons.prems(2) N1_def z by (auto simp: image_iff)
  show ?case
  proof (cases f)
    case True
    then show ?thesis using Cons.IH[of bm N1 M T] Cons.prems(1) N N1_def by (simp add: z note_ancestor_def)
  next
    case False
    let ?bm = "bm\<lparr>bm_missing_ancestors := fmupd a (finsert r (missing_entry a bm)) (bm_missing_ancestors bm),
      bm_missing_blocks := if bm_is_suspended bm a then bm_missing_blocks bm else finsert a (bm_missing_blocks bm)\<rparr>"
    let ?T = "if bm_is_suspended bm a then T else finsert a T"
    have "note_ancestor r z (bm, M, T) = Some (?bm, finsert a M, ?T)"
      using Cons.prems(1) False by (auto simp: z note_ancestor_def committee_authority_def committee_size_def Let_def)
    moreover obtain m B M' T' where
      ih: "foldM (note_ancestor r) zs (?bm, finsert a M, ?T) = Some (?bm\<lparr>bm_missing_ancestors := m, bm_missing_blocks := B\<rparr>, M', T')"
      "fmlookup m = (\<lambda>x. if x \<in> N1 then Some (finsert r (missing_entry x ?bm)) else fmlookup (bm_missing_ancestors ?bm) x)"
      "fset B = fset (bm_missing_blocks ?bm) \<union> {x \<in> N1. \<not> bm_is_suspended bm x}" "fset M' = fset (finsert a M) \<union> N1"
      "fset T' = fset ?T \<union> {x \<in> N1. \<not> bm_is_suspended bm x}"
      using Cons.IH[of ?bm N1 "finsert a M" ?T] Cons.prems(1) N1_def by auto
    ultimately have run: "foldM (note_ancestor r) (z # zs) (bm, M, T) = Some (bm\<lparr>bm_missing_ancestors := m, bm_missing_blocks := B\<rparr>, M', T')" by simp
    have e: "missing_entry x ?bm = (if x = a then finsert r (missing_entry a bm) else missing_entry x bm)" for x
      by (simp add: missing_entry_def)
    have "fmlookup m = (\<lambda>x. if x \<in> N then Some (finsert r (missing_entry x bm)) else fmlookup (bm_missing_ancestors bm) x)"
      unfolding ih(2) e using False N by (simp add: fun_eq_iff)
    moreover have "fset B = fset (bm_missing_blocks bm) \<union> {x \<in> N. \<not> bm_is_suspended bm x}"
      "fset T' = fset T \<union> {x \<in> N. \<not> bm_is_suspended bm x}" unfolding ih(3,5) using False N by auto
    moreover have "fset M' = fset M \<union> N" unfolding ih(4) using False N by auto
    ultimately show ?thesis using run by blast
  qed
qed

lemma ds_contains_blocks_correct:
  assumes "ds_inv ds" and "\<forall>r\<in>set refs. br_author r < ds_size ds"
  shows "ds_contains_blocks ds refs = Some (map (\<lambda>r. r \<in> held ds) refs)"
proof -
  have "\<forall>r. \<exists>v. r \<in> set refs \<longrightarrow> ds_contains_cached ds r = Some v \<and>
      (case v of Some x \<Rightarrow> x | None \<Rightarrow> ds_stored ds r \<noteq> None) = (ds_get_block ds r \<noteq> None)"
    using ds_contains_cached_correct[OF assms(1)] assms(2) by blast
  then obtain f where f: "r \<in> set refs \<Longrightarrow> ds_contains_cached ds r = Some (f r) \<and>
      (case f r of Some x \<Rightarrow> x | None \<Rightarrow> ds_stored ds r \<noteq> None) = (ds_get_block ds r \<noteq> None)" for r
    by metis
  then have "ds_contains_blocks ds refs = Some (map (\<lambda>r. case f r of Some v \<Rightarrow> v | None \<Rightarrow> ds_stored ds r \<noteq> None) refs)"
    by (intro ds_contains_blocks_eq) simp
  moreover have "map (\<lambda>r. case f r of Some v \<Rightarrow> v | None \<Rightarrow> ds_stored ds r \<noteq> None) refs = map (\<lambda>r. r \<in> held ds) refs"
    using f by (intro map_cong) (auto simp: domIff)
  ultimately show ?thesis by simp
qed

text \<open>The invariant of the manager together with the DAG state.\<close>

definition manager_ok :: "committee \<Rightarrow> (block_ref \<Rightarrow> verified_block option) \<Rightarrow> dag_state \<Rightarrow> block_manager \<Rightarrow> bool" where
  "manager_ok c U ds bm \<longleftrightarrow> view_of c U ds \<and> store_inv U ds \<and> susp_inv c U (held ds) (ds_gc_round ds) {} bm"

lemma manager_okD:
  assumes "manager_ok c U ds bm"
  shows "view_of c U ds" and "store_inv U ds" and "susp_inv c U (held ds) (ds_gc_round ds) {} bm"
    and "ds_inv ds" and "ds_committee ds = c" and "universe_ok c (cx_own_index (ds_context ds)) U"
  using assms view_okD(3)[OF view_ofD(1)[of c U ds]] by (auto simp: manager_ok_def store_inv_def)

lemma susp_inv_suspend:
  assumes inv: "susp_inv c U have gc {} bm" and uk: "universe_ok c own U" and b: "U r = Some b" "0 < br_round r" "r \<notin> have" "\<not> bm_is_suspended bm r"
    and N: "N \<noteq> {}" "\<And>a. a \<in> N \<Longrightarrow> a \<in> set (vb_ancestors b) \<and> a \<notin> have" "\<And>a. a \<in> set (vb_ancestors b) \<Longrightarrow> gc < br_round a \<Longrightarrow> a \<in> have \<or> a \<in> N"
    and m: "fmlookup m = (\<lambda>a. if a \<in> N then Some (finsert r (missing_entry a bm)) else fmlookup (bm_missing_ancestors bm) a)"
    and B: "fset B = (fset (bm_missing_blocks bm) \<union> {a \<in> N. \<not> bm_is_suspended bm a}) - {r}"
    and sb: "sb_block sb = b" "fset (sb_missing_ancestors sb) = N"
  shows "susp_inv c U have gc {} (bm\<lparr>bm_missing_ancestors := m, bm_missing_blocks := B,
    bm_suspended_blocks := fmupd r sb (bm_suspended_blocks bm)\<rparr>)"
proof -
  note D = susp_invD[OF inv]
  have rN: "r \<notin> N" using N(2) universe_block(3)[OF uk b(1,2)] by blast
  have memN: "a |\<in>| sb_missing_ancestors sb \<longleftrightarrow> a \<in> N" for a using sb(2) by simp
  have new: "suspended_ok U have gc {} r sb"
    using b N sb memN by (auto simp: suspended_ok_def)
  have ent: "x |\<in>| missing_entry a bm \<longleftrightarrow> (\<exists>S. fmlookup (bm_missing_ancestors bm) a = Some S \<and> x |\<in>| S)" for x a
    by (auto simp: missing_entry_def split: option.splits)
  show ?thesis
  proof (rule susp_invI, goal_cases)
    case (3 r' sb')
    then show ?case using new D(3)[of r' sb'] by (auto split: if_splits)
  next
    case (4 r' sb' a)
    show ?case
    proof (cases "r' = r")
      case True
      then show ?thesis using 4 memN by (simp add: m)
    next
      case False
      then obtain S where "fmlookup (bm_missing_ancestors bm) a = Some S" "r' |\<in>| S" using 4 D(4)[of r' sb' a] by auto
      then show ?thesis by (auto simp: m missing_entry_def)
    qed
  next
    case (5 a S r')
    show ?case
    proof (cases "a \<in> N \<and> r' = r")
      case True
      then show ?thesis using memN by simp
    next
      case False
      then obtain S0 where "fmlookup (bm_missing_ancestors bm) a = Some S0" "r' |\<in>| S0"
        using 5 ent[of r' a] by (auto simp: m split: if_splits)
      from D(5)[OF this] b(4) show ?thesis by auto
    qed
  next
    case (6 a)
    have "a |\<in>| B \<longleftrightarrow> (a |\<in>| bm_missing_blocks bm \<or> a \<in> N \<and> \<not> bm_is_suspended bm a) \<and> a \<noteq> r" using B by auto
    then show ?case using D(6)[of a] by (auto simp: m)
  next
    case (7 a)
    then show ?case using D(7)[of a] N(2)[of a] universe_block(3)[OF uk b(1,2), of a] by (auto simp: m split: if_splits)
  qed (use D(1,2) in simp_all)
qed

end
