(* ===== verification/Block_Acceptance.thy ===== *)
theory Block_Acceptance
  imports Suspension Commit_Sequence
begin

text \<open>
  What the block manager does with delivered blocks: one block, a batch, garbage collection, and
  the set of blocks that are accepted after any deliveries.
\<close>

subsection \<open>One block\<close>

text \<open>The outcomes of \<^verbatim>\<open>try_accept_one_block\<close>.\<close>

fun one_block_outcome ::
  "committee \<Rightarrow> (block_ref \<Rightarrow> verified_block option) \<Rightarrow> dag_state \<Rightarrow> block_manager \<Rightarrow> verified_block \<Rightarrow> block_manager \<Rightarrow> try_accept_result \<Rightarrow> bool" where
  "one_block_outcome c U ds bm b bm' Processed \<longleftrightarrow> bm' = bm \<and> (bm_is_suspended bm (reference b) \<or> reference b \<in> held ds)"
| "one_block_outcome c U ds bm b bm' Skipped \<longleftrightarrow> bm' = bm \<and> vb_round b \<le> ds_gc_round ds"
| "one_block_outcome c U ds bm b bm' (Suspended T) \<longleftrightarrow> reference b \<notin> held ds \<and> \<not> bm_is_suspended bm (reference b) \<and> ds_gc_round ds < vb_round b \<and>
     susp_inv c U (held ds) (ds_gc_round ds) {} bm' \<and>
     fmdom' (bm_suspended_blocks bm') = insert (reference b) (fmdom' (bm_suspended_blocks bm)) \<and>
     fset (bm_missing_blocks bm') = (fset (bm_missing_blocks bm) \<union> fset T) - {reference b} \<and>
     (\<forall>a. a |\<in>| T \<longrightarrow> br_round a < vb_round b) \<and>
     fmdom' (bm_missing_ancestors bm') \<subseteq> fmdom' (bm_missing_ancestors bm) \<union>
       {a \<in> set (vb_ancestors b). a \<notin> held ds \<and> (br_round a = GENESIS_ROUND \<or> ds_gc_round ds < br_round a)}"
| "one_block_outcome c U ds bm b bm' (Accepted b') \<longleftrightarrow> b' = b \<and> reference b \<notin> held ds \<and> \<not> bm_is_suspended bm (reference b) \<and>
     ds_gc_round ds < vb_round b \<and> (\<forall>a\<in>set (vb_ancestors b). ds_gc_round ds < br_round a \<longrightarrow> a \<in> held ds) \<and>
     susp_inv c U (insert (reference b) (held ds)) (ds_gc_round ds) {reference b} bm' \<and>
     bm_suspended_blocks bm' = bm_suspended_blocks bm \<and> bm_missing_ancestors bm' = bm_missing_ancestors bm \<and>
     fset (bm_missing_blocks bm') = fset (bm_missing_blocks bm) - {reference b}"

lemma susp_inv_receive:
  assumes inv: "susp_inv c U have gc {} bm" and "\<not> bm_is_suspended bm r"
  shows "susp_inv c U (insert r have) gc {r} (bm\<lparr>bm_missing_blocks := bm_missing_blocks bm |-| {|r|}\<rparr>)"
proof -
  note D = susp_invD[OF inv]
  show ?thesis
  proof (rule susp_invI, goal_cases)
    case (3 r' sb)
    then have "fmlookup (bm_suspended_blocks bm) r' = Some sb" by simp
    with D(3)[OF this] assms(2) show ?case by (auto simp: suspended_ok_def)
  next
    case (4 r' sb a)
    then show ?case using D(4)[of r' sb a] by simp
  next
    case (5 a S r')
    then show ?case using D(5)[of a S r'] by simp
  next
    case (6 a)
    show ?case using D(6)[of a] by auto
  next
    case (7 a)
    then show ?case using D(7)[of a] by auto
  qed (use D(1,2) in simp_all)
qed

lemma missing_of_block:
  assumes "manager_ok c U ds bm" and "U (reference b) = Some b" and "0 < vb_round b"
    and "ancestors = filter (\<lambda>a. br_round a = GENESIS_ROUND \<or> br_round a > ds_gc_round ds) (vb_ancestors b)"
    and "N = {a \<in> set ancestors. a \<notin> held ds}"
  shows "\<exists>found m B M T. ds_contains_blocks ds ancestors = Some found \<and>
    foldM (note_ancestor (reference b)) (zip found ancestors) (bm, {||}, {||}) =
      Some (bm\<lparr>bm_missing_ancestors := m, bm_missing_blocks := B\<rparr>, M, T) \<and>
    fmlookup m = (\<lambda>a. if a \<in> N then Some (finsert (reference b) (missing_entry a bm)) else fmlookup (bm_missing_ancestors bm) a) \<and>
    fset B = fset (bm_missing_blocks bm) \<union> {a \<in> N. \<not> bm_is_suspended bm a} \<and> fset M = N \<and> fset T = {a \<in> N. \<not> bm_is_suspended bm a}"
proof -
  note K = manager_okD[OF assms(1)]
  have au: "br_author a < committee_size c" if "a \<in> set ancestors" for a
    using universe_block(3)[OF K(6) assms(2), of a] assms(3,4) that by simp
  let ?found = "map (\<lambda>r. r \<in> held ds) ancestors"
  have "ds_contains_blocks ds ancestors = Some ?found"
    using ds_contains_blocks_correct[OF K(4), of ancestors] au K(5) by simp
  moreover have "zip ?found ancestors = map (\<lambda>a. (a \<in> held ds, a)) ancestors" by (induction ancestors) auto
  moreover have "N = snd ` {fa \<in> set (map (\<lambda>a. (a \<in> held ds, a)) ancestors). \<not> fst fa}" by (auto simp: assms(5) image_iff)
  moreover have "\<forall>fa\<in>set (map (\<lambda>a. (a \<in> held ds, a)) ancestors). \<not> fst fa \<longrightarrow> br_author (snd fa) < committee_size (bm_committee bm)"
    using au susp_invD(1)[OF K(3)] by auto
  ultimately show ?thesis
    using note_ancestors[of "map (\<lambda>a. (a \<in> held ds, a)) ancestors" bm N "reference b" "{||}" "{||}"] by (intro exI[of _ ?found]) simp
qed

lemma try_accept_one_block_spec:
  assumes ok: "manager_ok c U ds bm" and b: "U (reference b) = Some b" "0 < vb_round b"
  shows "\<exists>bm' res. try_accept_one_block now b ds bm = Some (bm', res) \<and> one_block_outcome c U ds bm b bm' res"
proof -
  note K = manager_okD[OF ok]
  let ?r = "reference b" and ?gc = "ds_gc_round ds"
  have r: "br_author ?r < committee_size c" "0 < br_round ?r" using universe_block(2)[OF K(6) b(1)] b(2) by simp_all
  then have au: "committee_authority (bm_committee bm) (vb_author b) = Some (c_authorities c ! vb_author b)"
    using susp_invD(1)[OF K(3)] by (simp add: committee_authority_def committee_size_def)
  have cont: "ds_contains_block ds ?r = Some (?r \<in> held ds)" using ds_contains_block_correct[OF K(4), of ?r] r K(5) by (auto simp: domIff)
  consider (known) "bm_is_suspended bm ?r \<or> ?r \<in> held ds" | (old) "\<not> bm_is_suspended bm ?r" "?r \<notin> held ds" "vb_round b \<le> ?gc"
    | (new) "\<not> bm_is_suspended bm ?r" "?r \<notin> held ds" "?gc < vb_round b" by linarith
  then show ?thesis
  proof cases
    case known
    then have "try_accept_one_block now b ds bm = Some (bm, Processed)"
      using cont by (cases "bm_is_suspended bm ?r") (auto simp: try_accept_one_block_def Let_def)
    with known show ?thesis by (intro exI[of _ bm] exI[of _ Processed]) simp
  next
    case old
    then have "try_accept_one_block now b ds bm = Some (bm, Skipped)"
      using cont au by (simp add: try_accept_one_block_def Let_def)
    with old show ?thesis by (intro exI[of _ bm] exI[of _ Skipped]) simp
  next
    case new
    let ?anc = "filter (\<lambda>a. br_round a = GENESIS_ROUND \<or> br_round a > ?gc) (vb_ancestors b)"
    define N where "N = {a \<in> set ?anc. a \<notin> held ds}"
    from missing_of_block[OF ok b refl N_def] obtain found m B M T where
      f: "ds_contains_blocks ds ?anc = Some found"
      and run: "foldM (note_ancestor ?r) (zip found ?anc) (bm, {||}, {||}) = Some (bm\<lparr>bm_missing_ancestors := m, bm_missing_blocks := B\<rparr>, M, T)"
      and m: "fmlookup m = (\<lambda>a. if a \<in> N then Some (finsert ?r (missing_entry a bm)) else fmlookup (bm_missing_ancestors bm) a)"
      and B: "fset B = fset (bm_missing_blocks bm) \<union> {a \<in> N. \<not> bm_is_suspended bm a}" and M: "fset M = N"
      and T: "fset T = {a \<in> N. \<not> bm_is_suspended bm a}" by blast
    show ?thesis
    proof (cases "N = {}")
      case True
      then have e: "m = bm_missing_ancestors bm" "B = bm_missing_blocks bm" "M = {||}"
        using m[unfolded True] B[unfolded True] M[unfolded True] fset_inject[of M "{||}"] by (simp_all add: fmlookup_inject fset_inject)
      let ?bm = "bm\<lparr>bm_missing_blocks := bm_missing_blocks bm |-| {|?r|}\<rparr>"
      have "try_accept_one_block now b ds bm = Some (?bm, Accepted b)"
        using new cont f run e by (simp add: try_accept_one_block_def Let_def)
      moreover have "a \<in> held ds" if "a \<in> set (vb_ancestors b)" "?gc < br_round a" for a using True that by (auto simp: N_def)
      ultimately show ?thesis using new susp_inv_receive[OF K(3) new(1)] by (intro exI[of _ ?bm] exI[of _ "Accepted b"]) simp
    next
      case False
      let ?sb = "suspended_block_new now b M"
      let ?bm = "bm\<lparr>bm_missing_ancestors := m, bm_missing_blocks := B |-| {|?r|}, bm_suspended_blocks := fmupd ?r ?sb (bm_suspended_blocks bm)\<rparr>"
      have sb: "sb_block ?sb = b" "fset (sb_missing_ancestors ?sb) = N" using M by (simp_all add: suspended_block_new_def)
      have BT: "fset (B |-| {|?r|}) = (fset (bm_missing_blocks bm) \<union> fset T) - {?r}" using B T by simp
      have "M \<noteq> {||}" using M False by auto
      then have "try_accept_one_block now b ds bm = Some (?bm, Suspended T)"
        using new cont f run au by (simp add: try_accept_one_block_def Let_def)
      moreover have "susp_inv c U (held ds) ?gc {} ?bm"
      proof (rule susp_inv_suspend[OF K(3,6) b(1) r(2) new(2,1) False _ _ m _ sb])
        show "fset (B |-| {|?r|}) = (fset (bm_missing_blocks bm) \<union> {a \<in> N. \<not> bm_is_suspended bm a}) - {?r}" using B by simp
      qed (auto simp: N_def)
      moreover have "br_round a < vb_round b" if "a |\<in>| T" for a
        using that T universe_block(3)[OF K(6) b(1), of a] r(2) by (auto simp: N_def)
      moreover have "fmdom' m = fmdom' (bm_missing_ancestors bm) \<union> N" by (auto simp: fmlookup_dom'_iff m)
      ultimately show ?thesis using new BT by (intro exI[of _ ?bm] exI[of _ "Suspended T"]) (auto simp: N_def)
    qed
  qed
qed

subsection \<open>Batches\<close>

text \<open>The references the manager or the DAG state knows the block of.\<close>

definition known_refs :: "dag_state \<Rightarrow> block_manager \<Rightarrow> block_ref set" where
  "known_refs ds bm = fmdom' (bm_suspended_blocks bm) \<union> held ds"

lemma update_block_received_metrics_total:
  assumes "susp_inv c U have gc {} bm" and "vb_author b < committee_size c"
  shows "\<exists>rounds. update_block_received_metrics b bm = Some (bm\<lparr>bm_received_block_rounds := rounds\<rparr>) \<and>
    susp_inv c U have gc {} (bm\<lparr>bm_received_block_rounds := rounds\<rparr>)"
proof -
  note D = susp_invD[OF assms(1)]
  obtain rounds where "update_block_received_metrics b bm = Some (bm\<lparr>bm_received_block_rounds := rounds\<rparr>)" "length rounds = committee_size c"
    using D(1,2) assms(2) by (auto simp: update_block_received_metrics_def committee_authority_def committee_size_def Let_def)
  moreover from this(2) have "susp_inv c U have gc {} (bm\<lparr>bm_received_block_rounds := rounds\<rparr>)"
    using assms(1) by (simp add: susp_inv_def)
  ultimately show ?thesis by blast
qed

text \<open>What a step of the loop over a batch changes.\<close>

definition batch_step ::
  "committee \<Rightarrow> (block_ref \<Rightarrow> verified_block option) \<Rightarrow> verified_block set \<Rightarrow> dag_state \<Rightarrow> block_manager \<Rightarrow>
   verified_block list \<Rightarrow> dag_state \<Rightarrow> block_manager \<Rightarrow> bool" where
  "batch_step c U bs ds bm new ds' bm' \<longleftrightarrow> manager_ok c U ds' bm' \<and>
     ds_context ds' = ds_context ds \<and> ds_last_commit ds' = ds_last_commit ds \<and>
     held ds' = held ds \<union> reference ` set new \<and> distinct (map reference new) \<and> reference ` set new \<inter> held ds = {} \<and>
     known_refs ds' bm' = known_refs ds bm \<union> reference ` {b \<in> bs. ds_gc_round ds < vb_round b} \<and>
     fset (bm_missing_blocks bm) \<subseteq> fset (bm_missing_blocks bm') \<union> reference ` bs \<and>
     fmdom' (bm_missing_ancestors bm') \<subseteq> fmdom' (bm_missing_ancestors bm) \<union>
       {a. a \<notin> held ds \<and> (br_round a = GENESIS_ROUND \<or> ds_gc_round ds < br_round a) \<and> (\<exists>b\<in>bs. a \<in> set (vb_ancestors b))}"

lemma batch_step_gc: "batch_step c U bs ds bm new ds' bm' \<Longrightarrow> ds_gc_round ds' = ds_gc_round ds"
  by (simp add: batch_step_def ds_gc_round_def ds_calculate_gc_round_def ds_last_commit_round_def)

lemma batch_step_trans:
  assumes "batch_step c U bs ds bm new ds1 bm1" and "batch_step c U cs ds1 bm1 new' ds2 bm2"
  shows "batch_step c U (bs \<union> cs) ds bm (new @ new') ds2 bm2"
proof -
  have gc: "ds_gc_round ds1 = ds_gc_round ds" by (rule batch_step_gc[OF assms(1)])
  have "fset (bm_missing_blocks bm) \<subseteq> fset (bm_missing_blocks bm1) \<union> reference ` bs"
    "fset (bm_missing_blocks bm1) \<subseteq> fset (bm_missing_blocks bm2) \<union> reference ` cs" using assms by (simp_all add: batch_step_def)
  then have "fset (bm_missing_blocks bm) \<subseteq> fset (bm_missing_blocks bm2) \<union> reference ` (bs \<union> cs)" by blast
  moreover have "known_refs ds2 bm2 = known_refs ds bm \<union> reference ` {b \<in> bs \<union> cs. ds_gc_round ds < vb_round b}"
    using assms unfolding batch_step_def gc by auto
  moreover have "fmdom' (bm_missing_ancestors bm2) \<subseteq> fmdom' (bm_missing_ancestors bm) \<union>
       {a. a \<notin> held ds \<and> (br_round a = GENESIS_ROUND \<or> ds_gc_round ds < br_round a) \<and> (\<exists>b\<in>bs \<union> cs. a \<in> set (vb_ancestors b))}"
  proof
    fix a assume "a \<in> fmdom' (bm_missing_ancestors bm2)"
    then have "a \<in> fmdom' (bm_missing_ancestors bm1) \<or>
        a \<notin> held ds1 \<and> (br_round a = GENESIS_ROUND \<or> ds_gc_round ds < br_round a) \<and> (\<exists>b\<in>cs. a \<in> set (vb_ancestors b))"
      using assms(2) unfolding batch_step_def gc by blast
    moreover have "held ds \<subseteq> held ds1" "fmdom' (bm_missing_ancestors bm1) \<subseteq> fmdom' (bm_missing_ancestors bm) \<union>
        {a. a \<notin> held ds \<and> (br_round a = GENESIS_ROUND \<or> ds_gc_round ds < br_round a) \<and> (\<exists>b\<in>bs. a \<in> set (vb_ancestors b))}"
      using assms(1) unfolding batch_step_def by simp_all
    ultimately show "a \<in> fmdom' (bm_missing_ancestors bm) \<union>
       {a. a \<notin> held ds \<and> (br_round a = GENESIS_ROUND \<or> ds_gc_round ds < br_round a) \<and> (\<exists>b\<in>bs \<union> cs. a \<in> set (vb_ancestors b))}" by blast
  qed
  moreover have "distinct (map reference (new @ new'))" "reference ` set (new @ new') \<inter> held ds = {}" "held ds2 = held ds \<union> reference ` set (new @ new')"
    using assms unfolding batch_step_def by auto
  ultimately show ?thesis using assms unfolding batch_step_def by simp
qed

lemma accept_with_children_spec:
  assumes ok: "manager_ok c U ds bm" and b: "U (reference b) = Some b" "0 < vb_round b"
    and out: "one_block_outcome c U ds bm b bm1 (Accepted b)"
  shows "\<exists>ds' bm' new. accept_with_children now (reference b) [b] acc miss ds bm1 = Some (ds', bm', acc @ new, miss) \<and>
    batch_step c U {b} ds bm new ds' bm'"
proof -
  note K = manager_okD[OF ok]
  let ?r = "reference b" and ?gc = "ds_gc_round ds"
  have inv1: "susp_inv c U (insert ?r (held ds)) ?gc {?r} bm1" and same: "bm_suspended_blocks bm1 = bm_suspended_blocks bm"
      "bm_missing_ancestors bm1 = bm_missing_ancestors bm" "fset (bm_missing_blocks bm1) = fset (bm_missing_blocks bm) - {?r}"
    and fresh: "?r \<notin> held ds" "\<not> bm_is_suspended bm ?r" "?gc < vb_round b"
    and anc: "\<forall>a\<in>set (vb_ancestors b). ?gc < br_round a \<longrightarrow> a \<in> held ds" using out by auto
  from try_unsuspend_children_spec[OF inv1 K(6)] obtain bs bm' where
    run: "try_unsuspend_children_blocks ?r bm1 = Some (bm', bs)" and dist: "distinct (map reference bs)"
    and bs: "\<forall>x\<in>set bs. U (reference x) = Some x \<and> 0 < vb_round x \<and> bm_is_suspended bm1 (reference x) \<and>
       (\<forall>a\<in>set (vb_ancestors x). ?gc < br_round a \<longrightarrow> a \<in> insert ?r (held ds) \<union> reference ` set bs)"
    and inv': "susp_inv c U (insert ?r (held ds) \<union> reference ` set bs) ?gc {} bm'"
    and dom: "fmdom' (bm_suspended_blocks bm') = fmdom' (bm_suspended_blocks bm1) - reference ` set bs"
    and ma: "fmdom' (bm_missing_ancestors bm') \<subseteq> fmdom' (bm_missing_ancestors bm1) - {?r}"
    and mb: "bm_missing_blocks bm' = bm_missing_blocks bm1" by auto
  let ?new = "b # bs"
  have good: "\<forall>x\<in>set ?new. U (reference x) = Some x \<and> 0 < vb_round x" using b bs by simp
  have "\<forall>x\<in>set ?new. \<forall>a\<in>set (vb_ancestors x). ?gc < br_round a \<longrightarrow> a \<in> held ds \<union> reference ` set ?new"
    using anc bs by simp
  from view_of_accept[OF K(1,2) good this, of now] obtain ds' where
    ds': "ds_accept_blocks now ?new ds = Some ds'" "view_of c U ds'" "store_inv U ds'" "ds_context ds' = ds_context ds"
      "ds_last_commit ds' = ds_last_commit ds" "held ds' = held ds \<union> reference ` set ?new" by blast
  have gc: "ds_gc_round ds' = ?gc" using ds'(4,5) by (simp add: ds_gc_round_def ds_calculate_gc_round_def ds_last_commit_round_def)
  have susp: "x \<notin> held ds \<and> x \<noteq> ?r \<and> bm_is_suspended bm x" if x: "x \<in> reference ` set bs" for x
  proof -
    from x bs same(1) obtain sb where sb: "fmlookup (bm_suspended_blocks bm) x = Some sb" by auto
    from susp_invD(3)[OF K(3) this] fresh(2) sb show ?thesis by (auto simp: suspended_ok_def)
  qed
  have "known_refs ds' bm' = known_refs ds bm \<union> reference ` {x \<in> {b}. ?gc < vb_round x}"
    using dom susp fresh(3) unfolding known_refs_def ds'(6) same(1) by (auto simp: fmlookup_dom'_iff)
  moreover have "distinct (map reference ?new)" "reference ` set ?new \<inter> held ds = {}" using dist susp fresh(1) by auto
  moreover have "manager_ok c U ds' bm'" using ds' inv' gc by (simp add: manager_ok_def)
  moreover have "accept_with_children now ?r [b] acc miss ds bm1 = Some (ds', bm', acc @ ?new, miss)"
    using run ds'(1) by (simp add: accept_with_children_def)
  moreover have "fset (bm_missing_blocks bm) \<subseteq> fset (bm_missing_blocks bm') \<union> reference ` {b}" unfolding mb same(3) by auto
  ultimately show ?thesis using ds'(4-6) ma same(2)
    by (intro exI[of _ ds'] exI[of _ bm'] exI[of _ ?new]) (auto simp: batch_step_def)
qed

lemma batch_step_received [simp]:
  "batch_step c U bs ds (bm\<lparr>bm_received_block_rounds := x\<rparr>) new ds' bm' = batch_step c U bs ds bm new ds' bm'"
  by (simp add: batch_step_def known_refs_def)

lemma accept_block_step_spec:
  assumes ok: "manager_ok c U ds bm" and b: "U (reference b) = Some b" "0 < vb_round b"
  shows "\<exists>ds' bm' new T. accept_block_step now False b (ds, bm, acc, miss) = Some (ds', bm', acc @ new, miss |\<union>| T) \<and>
    batch_step c U {b} ds bm new ds' bm' \<and> fset T \<subseteq> fset (bm_missing_blocks bm') \<and> (\<forall>a. a |\<in>| T \<longrightarrow> br_round a < vb_round b)"
proof -
  note K = manager_okD[OF ok]
  have "vb_author b < committee_size c" using universe_block(2)[OF K(6) b(1)] b(2) by simp
  from update_block_received_metrics_total[OF K(3) this] obtain x where
    u: "update_block_received_metrics b bm = Some (bm\<lparr>bm_received_block_rounds := x\<rparr>)"
      "susp_inv c U (held ds) (ds_gc_round ds) {} (bm\<lparr>bm_received_block_rounds := x\<rparr>)" by blast
  let ?bm = "bm\<lparr>bm_received_block_rounds := x\<rparr>"
  have ok1: "manager_ok c U ds ?bm" using K(1,2) u(2) by (simp add: manager_ok_def)
  from try_accept_one_block_spec[OF ok1 b, of now] obtain bm1 res where
    one: "try_accept_one_block now b ds ?bm = Some (bm1, res)" "one_block_outcome c U ds ?bm b bm1 res" by blast
  show ?thesis
  proof (cases res)
    case (Accepted b')
    then have "b' = b" using one(2) by simp
    then obtain ds' bm' new where "accept_with_children now (reference b) [b] acc miss ds bm1 = Some (ds', bm', acc @ new, miss)"
        "batch_step c U {b} ds ?bm new ds' bm'"
      using accept_with_children_spec[OF ok1 b, of bm1 now acc miss] one(2) Accepted by auto
    then show ?thesis using u(1) one(1) Accepted \<open>b' = b\<close>
      by (intro exI[of _ ds'] exI[of _ bm'] exI[of _ new] exI[of _ "{||}"]) (simp add: accept_block_step_def)
  next
    case (Suspended T)
    have o: "reference b \<notin> held ds" "\<not> bm_is_suspended bm (reference b)" "ds_gc_round ds < vb_round b" "susp_inv c U (held ds) (ds_gc_round ds) {} bm1"
      "fmdom' (bm_suspended_blocks bm1) = insert (reference b) (fmdom' (bm_suspended_blocks bm))"
      "fset (bm_missing_blocks bm1) = (fset (bm_missing_blocks bm) \<union> fset T) - {reference b}" "\<forall>a. a |\<in>| T \<longrightarrow> br_round a < vb_round b"
      "fmdom' (bm_missing_ancestors bm1) \<subseteq> fmdom' (bm_missing_ancestors bm) \<union>
         {a \<in> set (vb_ancestors b). a \<notin> held ds \<and> (br_round a = GENESIS_ROUND \<or> ds_gc_round ds < br_round a)}"
      using one(2) Suspended by simp_all
    have "manager_ok c U ds bm1" using K(1,2) o(4) by (simp add: manager_ok_def)
    moreover have "known_refs ds bm1 = known_refs ds bm \<union> reference ` {x \<in> {b}. ds_gc_round ds < vb_round x}"
      using o(3,5) by (auto simp: known_refs_def)
    moreover have "fset (bm_missing_blocks bm) \<subseteq> fset (bm_missing_blocks bm1) \<union> reference ` {b}" using o(6) by auto
    ultimately have "batch_step c U {b} ds bm [] ds bm1" using o(8) by (auto simp: batch_step_def)
    moreover have "reference b |\<notin>| T" using o(7) by fastforce
    then have "fset T \<subseteq> fset (bm_missing_blocks bm1)" using o(6) by auto
    ultimately show ?thesis using u(1) one(1) Suspended o(7)
      by (intro exI[of _ ds] exI[of _ bm1] exI[of _ "[]"] exI[of _ T]) (simp add: accept_block_step_def)
  next
    case Processed
    then have "bm1 = ?bm" "reference b \<in> known_refs ds bm" using one(2) by (auto simp: known_refs_def fmlookup_dom'_iff)
    moreover from this ok1 have "batch_step c U {b} ds bm [] ds bm1" by (auto simp: batch_step_def) (auto simp: known_refs_def)
    ultimately show ?thesis using u(1) one(1) Processed
      by (intro exI[of _ ds] exI[of _ bm1] exI[of _ "[]"] exI[of _ "{||}"]) (simp add: accept_block_step_def)
  next
    case Skipped
    then have "bm1 = ?bm" "vb_round b \<le> ds_gc_round ds" using one(2) by auto
    moreover from this ok1 have "batch_step c U {b} ds bm [] ds bm1" by (auto simp: batch_step_def) (auto simp: known_refs_def)
    ultimately show ?thesis using u(1) one(1) Skipped
      by (intro exI[of _ ds] exI[of _ bm1] exI[of _ "[]"] exI[of _ "{||}"]) (simp add: accept_block_step_def)
  qed
qed

lemma accept_blocks_fold:
  assumes "manager_ok c U ds bm" and "\<forall>b\<in>set xs. U (reference b) = Some b \<and> 0 < vb_round b" and "sorted (map vb_round xs)"
    and "fset miss \<subseteq> fset (bm_missing_blocks bm)" and "\<forall>a b. a |\<in>| miss \<longrightarrow> b \<in> set xs \<longrightarrow> br_round a < vb_round b"
  shows "\<exists>ds' bm' new miss'. foldM (accept_block_step now False) xs (ds, bm, acc, miss) = Some (ds', bm', acc @ new, miss') \<and>
    batch_step c U (set xs) ds bm new ds' bm' \<and> fset miss' \<subseteq> fset (bm_missing_blocks bm')"
  using assms
proof (induction xs arbitrary: ds bm acc miss)
  case Nil
  then show ?case by (intro exI[of _ ds] exI[of _ bm] exI[of _ "[]"] exI[of _ miss]) (simp add: batch_step_def)
next
  case (Cons b xs)
  from Cons.prems(2) have b: "U (reference b) = Some b" "0 < vb_round b" by simp_all
  from accept_block_step_spec[OF Cons.prems(1) b, of now acc miss] obtain ds1 bm1 new T where
    st: "accept_block_step now False b (ds, bm, acc, miss) = Some (ds1, bm1, acc @ new, miss |\<union>| T)"
      "batch_step c U {b} ds bm new ds1 bm1" "fset T \<subseteq> fset (bm_missing_blocks bm1)" "\<forall>a. a |\<in>| T \<longrightarrow> br_round a < vb_round b" by blast
  have ok1: "manager_ok c U ds1 bm1" and mb: "fset (bm_missing_blocks bm) \<subseteq> fset (bm_missing_blocks bm1) \<union> reference ` {b}"
    using st(2) by (simp_all add: batch_step_def)
  have "reference b \<notin> fset miss" using Cons.prems(5) by fastforce
  then have "fset (miss |\<union>| T) \<subseteq> fset (bm_missing_blocks bm1)" using mb Cons.prems(4) st(3) by auto
  moreover have "\<forall>a x. a |\<in>| miss |\<union>| T \<longrightarrow> x \<in> set xs \<longrightarrow> br_round a < vb_round x"
    using Cons.prems(3,5) st(4) by fastforce
  ultimately obtain ds2 bm2 new2 miss2 where
    "foldM (accept_block_step now False) xs (ds1, bm1, acc @ new, miss |\<union>| T) = Some (ds2, bm2, (acc @ new) @ new2, miss2)"
    "batch_step c U (set xs) ds1 bm1 new2 ds2 bm2" "fset miss2 \<subseteq> fset (bm_missing_blocks bm2)"
    using Cons.IH[OF ok1, of "miss |\<union>| T" "acc @ new"] Cons.prems(2,3) by auto
  then show ?case using st(1) batch_step_trans[OF st(2), of "set xs" new2 ds2 bm2]
    by (intro exI[of _ ds2] exI[of _ bm2] exI[of _ "new @ new2"] exI[of _ miss2]) simp
qed

lemma try_accept_blocks_spec:
  assumes "manager_ok c U ds bm" and "\<forall>b\<in>set bs. U (reference b) = Some b \<and> 0 < vb_round b"
  shows "\<exists>ds' bm' new miss. try_accept_blocks now bs ds bm = Some (ds', bm', new, miss) \<and>
    batch_step c U (set bs) ds bm new ds' bm' \<and> fset miss \<subseteq> fset (bm_missing_blocks bm')"
  using accept_blocks_fold[OF assms(1), of "sort_key vb_round bs" "{||}" now "[]"] assms(2)
  by (simp add: try_accept_blocks_def try_accept_blocks_internal_def)

subsection \<open>Deliveries\<close>

text \<open>A sequence of calls of \<^verbatim>\<open>try_accept_blocks\<close>.\<close>

definition deliver :: "nat \<Rightarrow> verified_block list list \<Rightarrow> dag_state \<Rightarrow> block_manager \<Rightarrow> (dag_state \<times> block_manager) option" where
  "deliver now bss ds bm = foldM (\<lambda>bs (ds, bm). map_option (\<lambda>(ds, bm, _). (ds, bm)) (try_accept_blocks now bs ds bm)) bss (ds, bm)"

text \<open>
  The references that delivered blocks connect to those held at first: their ancestors above the
  garbage collection round are held or connected.
\<close>

inductive connected :: "(block_ref \<Rightarrow> verified_block option) \<Rightarrow> round \<Rightarrow> block_ref set \<Rightarrow> block_ref set \<Rightarrow> block_ref \<Rightarrow> bool"
  for U gc H D where
  held_first: "r \<in> H \<Longrightarrow> connected U gc H D r"
| linked: "r \<in> D \<Longrightarrow> U r = Some b \<Longrightarrow> gc < br_round r \<Longrightarrow>
    (\<And>a. a \<in> set (vb_ancestors b) \<Longrightarrow> gc < br_round a \<Longrightarrow> connected U gc H D a) \<Longrightarrow> connected U gc H D r"

lemma deliver_batch_step:
  assumes "manager_ok c U ds bm" and "\<forall>bs\<in>set bss. \<forall>b\<in>set bs. U (reference b) = Some b \<and> 0 < vb_round b"
  shows "\<exists>ds' bm' new. deliver now bss ds bm = Some (ds', bm') \<and> batch_step c U (set (concat bss)) ds bm new ds' bm'"
  using assms
proof (induction bss arbitrary: ds bm)
  case Nil
  then show ?case by (intro exI[of _ ds] exI[of _ bm] exI[of _ "[]"]) (simp add: deliver_def batch_step_def)
next
  case (Cons bs bss)
  from try_accept_blocks_spec[OF Cons.prems(1), of bs now] Cons.prems(2) obtain ds1 bm1 new miss where
    st: "try_accept_blocks now bs ds bm = Some (ds1, bm1, new, miss)" "batch_step c U (set bs) ds bm new ds1 bm1" by auto
  then have "manager_ok c U ds1 bm1" by (simp add: batch_step_def)
  from Cons.IH[OF this] Cons.prems(2) obtain ds2 bm2 new2 where
    "deliver now bss ds1 bm1 = Some (ds2, bm2)" "batch_step c U (set (concat bss)) ds1 bm1 new2 ds2 bm2" by auto
  then show ?case using st(1) batch_step_trans[OF st(2), of "set (concat bss)" new2 ds2 bm2]
    by (intro exI[of _ ds2] exI[of _ bm2] exI[of _ "new @ new2"]) (simp add: deliver_def)
qed

lemma held_connected:
  assumes st: "batch_step c U B ds bm new ds' bm'" and empty: "bm_suspended_blocks bm = fmempty" and r: "r \<in> held ds'"
  shows "connected U (ds_gc_round ds) (held ds) (reference ` B) r"
  using r
proof (induction "br_round r" arbitrary: r rule: less_induct)
  case less
  show ?case
  proof (cases "r \<in> held ds")
    case True
    then show ?thesis by (rule held_first)
  next
    case False
    have ok: "manager_ok c U ds' bm'" and kn: "known_refs ds' bm' = known_refs ds bm \<union> reference ` {b \<in> B. ds_gc_round ds < vb_round b}"
      using st by (simp_all add: batch_step_def)
    have "r \<in> reference ` {b \<in> B. ds_gc_round ds < vb_round b}"
      using kn less.prems False empty by (auto simp: known_refs_def fmdom'_empty)
    then obtain b0 where b0: "b0 \<in> B" "r = reference b0" "ds_gc_round ds < vb_round b0" by auto
    from less.prems obtain b where b: "ds_get_block ds' r = Some b" by blast
    have v: "view_of c U ds'" using manager_okD(1)[OF ok] .
    have "connected U (ds_gc_round ds) (held ds) (reference ` B) a" if "a \<in> set (vb_ancestors b)" "ds_gc_round ds < br_round a" for a
    proof (rule less.hyps)
      show "br_round a < br_round r" using view_ok_round(1)[OF view_ofD(1)[OF v] b that(1)] .
      show "a \<in> held ds'" using view_ok_round(2)[OF view_ofD(1)[OF v] b that(1)] that(2) batch_step_gc[OF st] by auto
    qed
    then show ?thesis using linked[of r "reference ` B" U b] b0 view_ofD(2)[OF v b] by simp
  qed
qed

lemma connected_held:
  assumes st: "batch_step c U B ds bm new ds' bm'" and empty: "bm_missing_ancestors bm = fmempty"
    and gen: "\<And>r b a. U r = Some b \<Longrightarrow> a \<in> set (vb_ancestors b) \<Longrightarrow> br_round a = GENESIS_ROUND \<Longrightarrow> a \<in> held ds"
    and U: "\<forall>b\<in>B. U (reference b) = Some b"
    and con: "connected U (ds_gc_round ds) (held ds) (reference ` B) r"
  shows "r \<in> held ds'"
  using con
proof induction
  case (held_first r)
  then show ?case using st by (simp add: batch_step_def)
next
  case (linked r b)
  have ok: "manager_ok c U ds' bm'" and kn: "known_refs ds' bm' = known_refs ds bm \<union> reference ` {b \<in> B. ds_gc_round ds < vb_round b}"
    and ma: "fmdom' (bm_missing_ancestors bm') \<subseteq> fmdom' (bm_missing_ancestors bm) \<union>
       {a. a \<notin> held ds \<and> (br_round a = GENESIS_ROUND \<or> ds_gc_round ds < br_round a) \<and> (\<exists>b\<in>B. a \<in> set (vb_ancestors b))}"
    using st by (simp_all add: batch_step_def)
  note inv = manager_okD(3)[OF ok]
  from linked(1,3) have "r \<in> known_refs ds' bm'" using kn by auto
  moreover have False if "bm_is_suspended bm' r"
  proof -
    from that obtain sb where sb: "fmlookup (bm_suspended_blocks bm') r = Some sb" by auto
    from susp_invD(3)[OF inv sb] linked(2) obtain a where a: "a |\<in>| sb_missing_ancestors sb" "a \<in> set (vb_ancestors b)" "a \<notin> held ds'"
      by (auto simp: suspended_ok_def)
    from susp_invD(4)[OF inv sb a(1)] have "a \<in> fmdom' (bm_missing_ancestors bm')" by (auto simp: fmlookup_dom'_iff)
    then have "a \<notin> held ds" "br_round a = GENESIS_ROUND \<or> ds_gc_round ds < br_round a" using ma empty by (auto simp: fmdom'_empty)
    then have "ds_gc_round ds < br_round a" using gen[OF linked(2) a(2)] by blast
    then show False using linked(5)[OF a(2)] a(3) by blast
  qed
  ultimately show ?case by (auto simp: known_refs_def fmlookup_dom'_iff)
qed

subsection \<open>Garbage collection\<close>

lemma susp_inv_dismiss:
  assumes "susp_inv c U have gc {} bm"
  shows "susp_inv c U have gc {r} (bm\<lparr>bm_missing_blocks := bm_missing_blocks bm |-| {|r|}\<rparr>)"
proof -
  note D = susp_invD[OF assms]
  show ?thesis
  proof (rule susp_invI, goal_cases)
    case (3 r' sb)
    then have "fmlookup (bm_suspended_blocks bm) r' = Some sb" by simp
    from D(3)[OF this] show ?case by (auto simp: suspended_ok_def)
  next
    case (4 r' sb a)
    then show ?case using D(4)[of r' sb a] by simp
  next
    case (5 a S r')
    then show ?case using D(5)[of a S r'] by simp
  next
    case (6 a)
    show ?case using D(6)[of a] by auto
  next
    case (7 a)
    then show ?case using D(7)[of a] by auto
  qed (use D(1,2) in simp_all)
qed

text \<open>A suspended block waits for an ancestor of a lower round, so the lowest missing reference is not suspended.\<close>

lemma suspended_waits:
  assumes "susp_inv c U have gc {} bm" and "universe_ok c own U" and "bm_is_suspended bm r"
  shows "\<exists>a sb. fmlookup (bm_suspended_blocks bm) r = Some sb \<and> a |\<in>| sb_missing_ancestors sb \<and> br_round a < br_round r \<and>
    fmlookup (bm_missing_ancestors bm) a \<noteq> None \<and> a \<notin> have"
proof -
  from assms(3) obtain sb where sb: "fmlookup (bm_suspended_blocks bm) r = Some sb" by auto
  from susp_invD(3)[OF assms(1) sb] obtain a where a: "a |\<in>| sb_missing_ancestors sb" "a \<in> set (vb_ancestors (sb_block sb))" "a \<notin> have"
      "U r = Some (sb_block sb)" "0 < br_round r" by (auto simp: suspended_ok_def)
  then show ?thesis using universe_block(3)[OF assms(2) a(4,5,2)] susp_invD(4)[OF assms(1) sb a(1)] sb by auto
qed

lemma gc_unsuspend_loop_spec:
  assumes "manager_ok c U ds bm" and "gc = ds_gc_round ds"
  shows "\<exists>ds' bm'. gc_unsuspend_loop now gc ds bm = Some (ds', bm') \<and> manager_ok c U ds' bm' \<and>
    ds_context ds' = ds_context ds \<and> ds_last_commit ds' = ds_last_commit ds \<and> held ds \<subseteq> held ds' \<and>
    known_refs ds' bm' = known_refs ds bm \<and> (\<forall>a. fmlookup (bm_missing_ancestors bm') a \<noteq> None \<longrightarrow> gc < br_round a)"
  using assms
proof (induction "card (fmdom' (bm_missing_ancestors bm))" arbitrary: ds bm rule: less_induct)
  case less
  note K = manager_okD[OF less.prems(1)] and gc = less.prems(2)
  let ?dom = "fmdom (bm_missing_ancestors bm)"
  let ?r = "fMin ?dom"
  show ?case
  proof (cases "?dom = {||} \<or> gc < br_round ?r")
    case True
    have "bm_missing_ancestors bm = fmempty \<longleftrightarrow> ?dom = {||}" by (auto simp: fmdom_empty intro: fmap_ext)
      (metis fmap_ext fmdom_notD fmdom_empty fempty_iff fmempty_lookup)
    then have "gc_unsuspend_loop now gc ds bm = Some (ds, bm)" using True by (subst gc_unsuspend_loop.simps) (auto simp: Let_def)
    moreover have "gc < br_round a" if "fmlookup (bm_missing_ancestors bm) a \<noteq> None" for a
    proof -
      have "a |\<in>| ?dom" using that by (simp add: fmlookup_dom_iff)
      then show ?thesis using True fMin_le[of a ?dom] block_ref_le_round[of ?r a] by fastforce
    qed
    ultimately show ?thesis using less.prems by auto
  next
    case False
    then have r: "?r |\<in>| ?dom" "br_round ?r \<le> gc" using fMin_in by auto
    then have ma: "fmlookup (bm_missing_ancestors bm) ?r \<noteq> None" by (simp add: fmlookup_dom_iff)
    have ns: "\<not> bm_is_suspended bm ?r"
    proof
      assume "bm_is_suspended bm ?r"
      from suspended_waits[OF K(3,6) this] obtain a where a: "br_round a < br_round ?r" "a |\<in>| ?dom" by (auto simp: fmlookup_dom_iff)
      then show False using fMin_le[of a ?dom] block_ref_le_round[of ?r a] by fastforce
    qed
    let ?bm = "bm\<lparr>bm_missing_blocks := bm_missing_blocks bm |-| {|?r|}\<rparr>"
    from try_unsuspend_children_spec[OF susp_inv_dismiss[OF K(3), of ?r] K(6)] r(2) gc obtain bs bm1 where
      ch: "try_unsuspend_children_blocks ?r ?bm = Some (bm1, bs)"
      and bs: "\<forall>b\<in>set bs. U (reference b) = Some b \<and> 0 < vb_round b \<and> bm_is_suspended bm (reference b) \<and>
         (\<forall>a\<in>set (vb_ancestors b). ds_gc_round ds < br_round a \<longrightarrow> a \<in> held ds \<union> reference ` set bs)"
      and inv1: "susp_inv c U (held ds \<union> reference ` set bs) (ds_gc_round ds) {} bm1"
      and dom1: "fmdom' (bm_suspended_blocks bm1) = fmdom' (bm_suspended_blocks bm) - reference ` set bs"
      and ma1: "fmdom' (bm_missing_ancestors bm1) \<subseteq> fmdom' (bm_missing_ancestors bm) - {?r}" by auto
    from view_of_accept[OF K(1,2), of bs now] bs obtain ds1 where
      ds1: "ds_accept_blocks now bs ds = Some ds1" "view_of c U ds1" "store_inv U ds1" "ds_context ds1 = ds_context ds"
        "ds_last_commit ds1 = ds_last_commit ds" "held ds1 = held ds \<union> reference ` set bs" by blast
    have gc1: "ds_gc_round ds1 = ds_gc_round ds" using ds1(4,5) by (simp add: ds_gc_round_def ds_calculate_gc_round_def ds_last_commit_round_def)
    have ok1: "manager_ok c U ds1 bm1" using ds1 inv1 gc1 by (simp add: manager_ok_def)
    have known: "known_refs ds1 bm1 = known_refs ds bm" using dom1 bs ds1(6) by (auto simp: known_refs_def fmlookup_dom'_iff)
    have "?r \<in> fmdom' (bm_missing_ancestors bm)" using ma by (simp add: fmlookup_dom'_iff)
    then have lt: "card (fmdom' (bm_missing_ancestors bm1)) < card (fmdom' (bm_missing_ancestors bm))"
      using ma1 by (intro psubset_card_mono) auto
    have au: "br_author ?r < committee_size c" using susp_invD(7)[OF K(3) ma] by simp
    have aus: "vb_author b < committee_size c" if "b \<in> set bs" for b using universe_block(2)[OF K(6), of "reference b" b] bs that by simp
    have "mapM (\<lambda>b. committee_authority (bm_committee bm1) (vb_author b)) bs = Some (map (\<lambda>b. c_authorities c ! vb_author b) bs)"
      using aus susp_invD(1)[OF inv1] by (intro mapM_total) (simp add: committee_authority_def committee_size_def)
    then have "gc_unsuspend_loop now gc ds bm = gc_unsuspend_loop now gc ds1 bm1"
      using False ns au susp_invD(1)[OF K(3)] ch ds1(1)
      by (subst gc_unsuspend_loop.simps) (auto simp: Let_def committee_authority_def committee_size_def fmdom_empty)
    with less.hyps[OF lt ok1] gc gc1 ds1(4-6) known show ?thesis by auto
  qed
qed

text \<open>A link from a block of the universe to one of its ancestors.\<close>

definition ancestor_link :: "(block_ref \<Rightarrow> verified_block option) \<Rightarrow> block_ref \<Rightarrow> block_ref \<Rightarrow> bool" where
  "ancestor_link U = (\<lambda>x y. \<exists>b. U x = Some b \<and> y \<in> set (vb_ancestors b))"

lemma suspended_chain:
  assumes "manager_ok c U ds bm" and "bm_is_suspended bm r"
  shows "\<exists>m. m |\<in>| bm_missing_blocks bm \<and> (ancestor_link U)\<^sup>+\<^sup>+ r m"
  using assms(2)
proof (induction "br_round r" arbitrary: r rule: less_induct)
  case less
  note K = manager_okD[OF assms(1)]
  from suspended_waits[OF K(3,6) less.prems] obtain a sb where
    a: "fmlookup (bm_suspended_blocks bm) r = Some sb" "a |\<in>| sb_missing_ancestors sb" "br_round a < br_round r" "fmlookup (bm_missing_ancestors bm) a \<noteq> None" by blast
  have l: "ancestor_link U r a" using susp_invD(3)[OF K(3) a(1)] a(2) by (auto simp: suspended_ok_def ancestor_link_def)
  show ?case
  proof (cases "bm_is_suspended bm a")
    case True
    from less.hyps[OF a(3) True] obtain m where m: "m |\<in>| bm_missing_blocks bm" "(ancestor_link U)\<^sup>+\<^sup>+ a m" by blast
    then show ?thesis using tranclp_into_tranclp2[of "ancestor_link U" r a m] l by blast
  next
    case False
    then have "a |\<in>| bm_missing_blocks bm" using susp_invD(6)[OF K(3), of a] a(4) by simp
    then show ?thesis using l by blast
  qed
qed

lemma missing_after_deliveries:
  assumes st: "batch_step c U B ds bm new ds' bm'" and kn: "known_refs ds' bm' = held ds \<union> reference ` {b \<in> B. ds_gc_round ds < vb_round b}"
    and U: "\<forall>b\<in>B. U (reference b) = Some b \<and> 0 < vb_round b" and empty: "bm_missing_ancestors bm = fmempty"
    and gen: "\<And>r b a. U r = Some b \<Longrightarrow> a \<in> set (vb_ancestors b) \<Longrightarrow> br_round a = GENESIS_ROUND \<Longrightarrow> a \<in> held ds"
  shows "a |\<in>| bm_missing_blocks bm' \<longleftrightarrow>
    ds_gc_round ds < br_round a \<and> a \<notin> held ds \<and> a \<notin> reference ` B \<and> (\<exists>b\<in>B. a \<in> set (vb_ancestors b))" (is "_ \<longleftrightarrow> ?R")
proof -
  have ok: "manager_ok c U ds' bm'" and h: "held ds \<subseteq> held ds'" using st by (auto simp: batch_step_def)
  note K = manager_okD[OF ok] and gc = batch_step_gc[OF st]
  have m: "a |\<in>| bm_missing_blocks bm' \<longleftrightarrow> fmlookup (bm_missing_ancestors bm') a \<noteq> None \<and> \<not> bm_is_suspended bm' a"
    using susp_invD(6)[OF K(3), of a] by simp
  have dom: "fmdom' (bm_missing_ancestors bm') \<subseteq>
      {a. a \<notin> held ds \<and> (br_round a = GENESIS_ROUND \<or> ds_gc_round ds < br_round a) \<and> (\<exists>b\<in>B. a \<in> set (vb_ancestors b))}"
    using st empty by (simp add: batch_step_def fmdom'_empty)
  show ?thesis
  proof
    assume l: "a |\<in>| bm_missing_blocks bm'"
    then have "a \<in> fmdom' (bm_missing_ancestors bm')" "a \<notin> held ds'" using m susp_invD(7)[OF K(3), of a] by (auto simp: fmlookup_dom'_iff)
    then obtain b where b: "b \<in> B" "a \<in> set (vb_ancestors b)" "br_round a = GENESIS_ROUND \<or> ds_gc_round ds < br_round a" "a \<notin> held ds"
      using dom by blast
    moreover have "ds_gc_round ds < br_round a" using b gen[of "reference b" b a] U by auto
    moreover have "a \<notin> known_refs ds' bm'" using l m \<open>a \<notin> held ds'\<close> by (auto simp: known_refs_def fmlookup_dom'_iff)
    ultimately show ?R using kn by auto
  next
    assume R: ?R
    then obtain b where b: "b \<in> B" "a \<in> set (vb_ancestors b)" by blast
    have lt: "br_round a < vb_round b" using universe_block(3)[OF K(6), of "reference b" b a] U b by simp
    have na: "a \<notin> known_refs ds' bm'" using R kn by auto
    then have nh: "a \<notin> held ds'" "\<not> bm_is_suspended bm' a" by (auto simp: known_refs_def fmlookup_dom'_iff)
    have "reference b \<in> known_refs ds' bm'" using kn b(1) R lt by auto
    moreover have "reference b \<notin> held ds'"
    proof
      assume "reference b \<in> held ds'"
      then obtain x where x: "ds_get_block ds' (reference b) = Some x" by blast
      then have "x = b" using view_ofD(2)[OF K(1) x] U b(1) by simp
      then show False using view_ok_round(2)[OF view_ofD(1)[OF K(1)] x, of a] b(2) R gc nh(1) by auto
    qed
    ultimately obtain sb where sb: "fmlookup (bm_suspended_blocks bm') (reference b) = Some sb"
      by (auto simp: known_refs_def fmlookup_dom'_iff)
    have "a |\<in>| sb_missing_ancestors sb" using susp_invD(3)[OF K(3) sb] U b R gc nh(1) by (auto simp: suspended_ok_def)
    then show "a |\<in>| bm_missing_blocks bm'" using susp_invD(4)[OF K(3) sb] m nh(2) by auto
  qed
qed

subsection \<open>Properties\<close>

text \<open>
  C9. With v3 off, delivering a batch of verified blocks does not panic, keeps the bookkeeping of the block manager
  consistent and the DAG state causally complete: the accepted blocks it returns are exactly the ones the DAG state
  serves in addition, each once; every block of the batch above the garbage collection round is afterwards
  accepted or suspended, and the ancestors reported as missing are among the blocks the manager keeps asking for.
\<close>

theorem try_accept_blocks_sound:
  assumes "manager_ok c U ds bm" and "\<forall>b\<in>set bs. U (reference b) = Some b \<and> 0 < vb_round b"
  shows "\<exists>ds' bm' accepted missing. try_accept_blocks now bs ds bm = Some (ds', bm', accepted, missing) \<and>
    manager_ok c U ds' bm' \<and> held ds' = held ds \<union> reference ` set accepted \<and>
    distinct (map reference accepted) \<and> reference ` set accepted \<inter> held ds = {} \<and>
    known_refs ds' bm' = known_refs ds bm \<union> reference ` {b \<in> set bs. ds_gc_round ds < vb_round b} \<and>
    fset missing \<subseteq> fset (bm_missing_blocks bm')"
proof -
  from try_accept_blocks_spec[OF assms, of now] obtain ds' bm' new miss where
    "try_accept_blocks now bs ds bm = Some (ds', bm', new, miss)" "batch_step c U (set bs) ds bm new ds' bm'"
    "fset miss \<subseteq> fset (bm_missing_blocks bm')" by blast
  then show ?thesis
    by (intro exI[of _ ds'] exI[of _ bm'] exI[of _ new] exI[of _ miss]) (simp add: batch_step_def)
qed

lemma sample_universe_dom: "sample_universe r \<noteq> None \<Longrightarrow> r = sample_ref (br_round r) (br_author r) \<and> br_author r < 4"
  unfolding sample_universe_def by presburger

lemma sample_universe_ok: "universe_ok committee4 own sample_universe"
proof -
  have "reference b = r" if "sample_universe r = Some b" for r b
    using that sample_view_ok(5)[of "br_round r" r] ds_get_block_reference[OF sample_view_ok(2), of "br_round r" r b] by simp
  moreover have "ancestors_wf committee4 (br_author r) (br_round r) (vb_ancestors b) \<and> br_author r < 4"
    if "sample_universe r = Some b" "0 < br_round r" for r b
    using sample_universe_ancestors[OF that] sample_links_wf that(2) by simp
  moreover have "r = r'" if "sample_universe r \<noteq> None" "sample_universe r' \<noteq> None" "slot_from r = slot_from r'" for r r'
    using sample_universe_dom[OF that(1)] sample_universe_dom[OF that(2)] that(3) by (metis slot.inject slot_from_def)
  ultimately show ?thesis by (auto simp: universe_ok_def)
qed

lemma sample_manager_ok: "manager_ok committee4 sample_universe (sample_view n) (block_manager_new sample_context)"
proof -
  have "ds_get_block (sample_view n) \<subseteq>\<^sub>m sample_universe" using sample_view_of[of n] by (simp add: view_of_def)
  then have "store_inv sample_universe (sample_view n)"
    using sample_universe_ok sample_view_ok(2,3)[of n] by (simp add: store_inv_def) (simp add: sample_context_def)
  then show ?thesis using sample_view_of block_manager_new_inv by (simp add: manager_ok_def)
qed

lemma sample_in_universe: "0 < r \<Longrightarrow> a < 4 \<Longrightarrow> sample_universe (reference (sample_layer_block r a)) = Some (sample_layer_block r a)"
  by (simp add: sample_layer_block_ref sample_universe_def)

theorem try_accept_blocks_sound_witness:
  "\<exists>ds' bm' accepted missing. try_accept_blocks 7 [sample_layer_block 4 1, sample_layer_block 2 0] (sample_view 1)
       (block_manager_new sample_context) = Some (ds', bm', accepted, missing) \<and>
     manager_ok committee4 sample_universe ds' bm' \<and> sample_ref 4 1 \<in> known_refs ds' bm'"
proof -
  have "\<forall>b\<in>set [sample_layer_block 4 1, sample_layer_block 2 0]. sample_universe (reference b) = Some b \<and> 0 < vb_round b"
    by (simp add: sample_in_universe)
  from try_accept_blocks_sound[OF sample_manager_ok this, of 7 1] obtain ds' bm' accepted missing where
    "try_accept_blocks 7 [sample_layer_block 4 1, sample_layer_block 2 0] (sample_view 1) (block_manager_new sample_context) = Some (ds', bm', accepted, missing)"
    "manager_ok committee4 sample_universe ds' bm'"
    "known_refs ds' bm' = known_refs (sample_view 1) (block_manager_new sample_context) \<union>
       reference ` {b \<in> set [sample_layer_block 4 1, sample_layer_block 2 0]. ds_gc_round (sample_view 1) < vb_round b}"
    by (elim exE conjE, intro that)
  moreover have "sample_ref 4 1 \<in> reference ` {b \<in> set [sample_layer_block 4 1, sample_layer_block 2 0]. ds_gc_round (sample_view 1) < vb_round b}"
    by (auto simp: image_iff sample_layer_block_ref)
  ultimately show ?thesis by blast
qed

lemma sample_held0: "held (sample_view 0) = sample_ref 0 ` {..<4}"
proof -
  have "r \<in> sample_ref 0 ` {..<4}" if "sample_universe r \<noteq> None" "br_round r = 0" for r
    using sample_universe_dom[OF that(1)] unfolding that(2) by blast
  moreover have "sample_universe (sample_ref 0 a) \<noteq> None" if "a < 4" for a using that by (simp add: sample_universe_def)
  ultimately have "sample_universe r \<noteq> None \<and> br_round r \<le> 0 \<longleftrightarrow> r \<in> sample_ref 0 ` {..<4}" for r by fastforce
  then show ?thesis by (auto simp: dom_def sample_view_ok(5) split: if_splits)
qed

lemma sample_genesis_held:
  "\<forall>r b. sample_universe r = Some b \<longrightarrow> (\<forall>a\<in>set (vb_ancestors b). br_round a = GENESIS_ROUND \<longrightarrow> a \<in> held (sample_view 0))"
proof (intro allI ballI impI)
  fix r b a assume a: "sample_universe r = Some b" "a \<in> set (vb_ancestors b)" "br_round a = GENESIS_ROUND"
  then have "ds_parent (sample_view (br_round r)) r a" by (auto simp: ds_parent_def sample_view_ok(5))
  then have "br_round a < br_round r" using view_okD(2)[OF sample_view_view_ok] by (auto simp: ds_complete_def)
  then show "a \<in> held (sample_view 0)"
    using a(2,3) sample_universe_ancestors(2,3)[OF a(1)] by (auto simp: set_sample_links sample_held0 GENESIS_ROUND_def)
qed

text \<open>
  C4. With v3 off, the order of delivery does not matter: after any sequence of batches, the DAG state holds
  exactly the blocks that were held before or that the delivered blocks connect to them through ancestors above the
  garbage collection round. No call panics.
\<close>

theorem deliver_accepts_connected:
  assumes "view_of c U ds" and "store_inv U ds" and "cx_committee ctx = c"
    and "\<forall>r b. U r = Some b \<longrightarrow> (\<forall>a\<in>set (vb_ancestors b). br_round a = GENESIS_ROUND \<longrightarrow> a \<in> held ds)"
    and "\<forall>bs\<in>set bss. \<forall>b\<in>set bs. U (reference b) = Some b \<and> 0 < vb_round b"
  shows "\<exists>ds' bm'. deliver now bss ds (block_manager_new ctx) = Some (ds', bm') \<and>
    held ds' = {r. connected U (ds_gc_round ds) (held ds) (reference ` set (concat bss)) r}"
proof -
  let ?bm = "block_manager_new ctx"
  have "manager_ok c U ds ?bm" using assms(1-3) block_manager_new_inv by (simp add: manager_ok_def)
  from deliver_batch_step[OF this assms(5), of now] obtain ds' bm' new where
    d: "deliver now bss ds ?bm = Some (ds', bm')" and st: "batch_step c U (set (concat bss)) ds ?bm new ds' bm'" by blast
  have e: "bm_suspended_blocks ?bm = fmempty" "bm_missing_ancestors ?bm = fmempty" by (simp_all add: block_manager_new_def)
  have "\<forall>b\<in>set (concat bss). U (reference b) = Some b" using assms(5) by auto
  with held_connected[OF st e(1)] connected_held[OF st e(2)] assms(4)
  have "held ds' = {r. connected U (ds_gc_round ds) (held ds) (reference ` set (concat bss)) r}" by blast
  with d show ?thesis by blast
qed

theorem deliver_accepts_connected_witness:
  "\<exists>ds' bm'. deliver 0 [[sample_layer_block 2 1], map (sample_layer_block 1) [3, 0, 2, 1]] (sample_view 0) (block_manager_new sample_context) = Some (ds', bm') \<and>
     sample_ref 2 1 \<in> held ds'"
proof -
  let ?bss = "[[sample_layer_block 2 1], map (sample_layer_block 1) [3, 0, 2, 1]]"
  have st: "store_inv sample_universe (sample_view 0)" using manager_okD(2)[OF sample_manager_ok] .
  have "\<forall>bs\<in>set ?bss. \<forall>b\<in>set bs. sample_universe (reference b) = Some b \<and> 0 < vb_round b" by (simp add: sample_in_universe)
  from deliver_accepts_connected[OF sample_view_of st sample_context_simps sample_genesis_held this, of 0] obtain ds' bm' where
    d: "deliver 0 ?bss (sample_view 0) (block_manager_new sample_context) = Some (ds', bm')"
      "held ds' = {r. connected sample_universe 0 (held (sample_view 0)) (reference ` set (concat ?bss)) r}" by auto
  let ?con = "connected sample_universe 0 (held (sample_view 0)) (reference ` set (concat ?bss))"
  have one: "?con (sample_ref 1 x)" if "x < 4" for x
    by (rule linked[of _ _ _ "sample_layer_block 1 x"])
      (use that in \<open>auto simp: four sample_layer_block_ref sample_universe_def set_sample_links\<close>)
  have "?con (sample_ref 2 1)"
    by (rule linked[of _ _ _ "sample_layer_block 2 1"])
      (use one in \<open>auto simp: sample_layer_block_ref sample_universe_def set_sample_links\<close>)
  then show ?thesis using d by auto
qed

lemma manager_ok_add_commit:
  assumes "manager_ok c U ds bm" and "ds_add_commit tc ds = Some ds'" and "ds_last_commit_round ds \<le> br_round (tcm_leader tc)"
  shows "manager_ok c U ds' bm" and "held ds' = held ds"
proof -
  note K = manager_okD[OF assms(1)]
  from assms(2) consider "ds' = ds" | rounds where "ds' = with_commit tc rounds ds"
    by (auto simp: ds_add_commit_def with_commit_def elim!: bind_SomeE split: if_splits)
  then have "manager_ok c U ds' bm \<and> held ds' = held ds"
  proof cases
    case (2 rounds)
    have gc: "ds_gc_round ds \<le> ds_gc_round ds'" using assms(3) by (simp add: 2 ds_gc_round_def ds_calculate_gc_round_def diff_le_mono)
    then have inv: "ds_inv ds'" using with_commit_inv[OF K(4)] by (simp add: 2)
    have "ds_complete ds'" using K(1) gc unfolding view_of_def view_ok_def ds_complete_def 2 with_commit_sel by (meson le_less_trans)
    then have v: "view_of c U ds'" using K(1) inv by (auto simp: view_of_def view_ok_def ds_verified_def 2)
    have st: "store_inv U ds'" using K(2) inv by (simp add: store_inv_def 2)
    have "susp_inv c U (held ds) (ds_gc_round ds') {} bm"
      using K(3) gc unfolding susp_inv_def suspended_ok_def by (meson le_less_trans)
    then show ?thesis using v st by (simp add: manager_ok_def 2)
  qed (use assms(1) in simp)
  then show "manager_ok c U ds' bm" and "held ds' = held ds" by blast+
qed

text \<open>
  C20. When a commit has advanced the garbage collection round, the manager lets go of every missing ancestor
  at or below it. From a state in which the invariant of the manager and the DAG state holds (it includes that v3 is off), add a commit whose leader
  is not below the last one's. Then the loop ends without panicking and the invariant holds again, so the DAG state is causally
  complete; no reference at or below the new round is waited for any more; every suspended block that waited for
  nothing above it is accepted; what was held is held, and no received block is lost.
\<close>

theorem gc_unsuspend_complete:
  assumes "manager_ok c U ds bm" and "ds_add_commit tc ds = Some ds1" and "ds_last_commit_round ds \<le> br_round (tcm_leader tc)"
  shows "\<exists>ds' bm'. try_unsuspend_blocks_for_latest_gc_round now ds1 bm = Some (ds', bm') \<and> manager_ok c U ds' bm' \<and>
    ds_gc_round ds' = ds_gc_round ds1 \<and> held ds \<subseteq> held ds' \<and> known_refs ds' bm' = known_refs ds bm \<and>
    (\<forall>a. fmlookup (bm_missing_ancestors bm') a \<noteq> None \<longrightarrow> ds_gc_round ds1 < br_round a) \<and>
    (\<forall>r sb. fmlookup (bm_suspended_blocks bm) r = Some sb \<and> (\<forall>a\<in>fset (sb_missing_ancestors sb). br_round a \<le> ds_gc_round ds1) \<longrightarrow> r \<in> held ds')"
proof -
  note ok1 = manager_ok_add_commit[OF assms]
  from gc_unsuspend_loop_spec[OF ok1(1) refl, of now] obtain ds' bm' where
    d: "gc_unsuspend_loop now (ds_gc_round ds1) ds1 bm = Some (ds', bm')" "manager_ok c U ds' bm'" "ds_context ds' = ds_context ds1"
      "ds_last_commit ds' = ds_last_commit ds1" "held ds1 \<subseteq> held ds'" "known_refs ds' bm' = known_refs ds1 bm"
      "\<forall>a. fmlookup (bm_missing_ancestors bm') a \<noteq> None \<longrightarrow> ds_gc_round ds1 < br_round a" by blast
  have gc: "ds_gc_round ds' = ds_gc_round ds1" using d(3,4) by (simp add: ds_gc_round_def ds_calculate_gc_round_def ds_last_commit_round_def)
  have kn: "known_refs ds1 bm = known_refs ds bm" by (simp add: known_refs_def ok1(2))
  have "r \<in> held ds'" if sb: "fmlookup (bm_suspended_blocks bm) r = Some sb" and low: "\<forall>a\<in>fset (sb_missing_ancestors sb). br_round a \<le> ds_gc_round ds1" for r sb
  proof (rule ccontr)
    assume "r \<notin> held ds'"
    moreover have "r \<in> known_refs ds' bm'" using sb unfolding d(6) by (simp add: known_refs_def fmlookup_dom'_iff)
    ultimately have "bm_is_suspended bm' r" by (simp add: known_refs_def fmlookup_dom'_iff)
    from suspended_waits[OF manager_okD(3,6)[OF d(2)] this] obtain a sb' where
      a: "fmlookup (bm_suspended_blocks bm') r = Some sb'" "a |\<in>| sb_missing_ancestors sb'" "fmlookup (bm_missing_ancestors bm') a \<noteq> None" "a \<notin> held ds'" by blast
    have hi: "ds_gc_round ds1 < br_round a" using d(7) a(3) by blast
    have U: "U r = Some (sb_block sb')" "a \<in> set (vb_ancestors (sb_block sb'))"
      using susp_invD(3)[OF manager_okD(3)[OF d(2)] a(1)] a(2) by (auto simp: suspended_ok_def)
    have "U r = Some (sb_block sb)" "a \<in> set (vb_ancestors (sb_block sb)) \<Longrightarrow> a \<in> held ds1 \<or> a |\<in>| sb_missing_ancestors sb"
      using susp_invD(3)[OF manager_okD(3)[OF ok1(1)] sb] hi by (auto simp: suspended_ok_def)
    then have "a |\<in>| sb_missing_ancestors sb" using U a(4) d(5) by auto
    then show False using low hi by fastforce
  qed
  then show ?thesis using d gc kn ok1(2) by (auto simp: try_unsuspend_blocks_for_latest_gc_round_def)
qed

text \<open>A block of round 3 that waits for round 2, in a view of the first round.\<close>

lemma sample_suspended:
  "\<exists>bm. manager_ok committee4 sample_universe (sample_view 1) bm \<and>
     (\<exists>sb. fmlookup (bm_suspended_blocks bm) (sample_ref 3 1) = Some sb \<and> (\<forall>a\<in>fset (sb_missing_ancestors sb). br_round a = 2))"
proof -
  let ?b = "sample_layer_block 3 1" and ?bm = "block_manager_new sample_context"
  have "\<forall>b\<in>set [?b]. sample_universe (reference b) = Some b \<and> 0 < vb_round b" by (simp add: sample_in_universe)
  from try_accept_blocks_spec[OF sample_manager_ok this, of 0 1] obtain ds bm acc miss where
    st: "batch_step committee4 sample_universe (set [?b]) (sample_view 1) ?bm acc ds bm" by blast
  have ok: "manager_ok committee4 sample_universe ds bm" using st by (simp add: batch_step_def)
  have gc: "ds_gc_round ds = 0" using batch_step_gc[OF st] by simp
  have "{b \<in> set [?b]. ds_gc_round (sample_view 1) < vb_round b} = {?b}" by auto
  then have kn: "known_refs ds bm = held (sample_view 1) \<union> {sample_ref 3 1}"
    using st by (simp add: batch_step_def sample_layer_block_ref) (simp add: known_refs_def block_manager_new_def)
  have old: "sample_ref r a \<notin> held (sample_view 1)" if "1 < r" for r a using that by (simp add: sample_view_ok(5) domIff)
  note v = manager_okD(1)[OF ok]
  have new: "sample_ref 3 1 \<notin> held ds"
  proof
    assume "sample_ref 3 1 \<in> held ds"
    then obtain x where x: "ds_get_block ds (sample_ref 3 1) = Some x" by blast
    then have "x = ?b" using view_ofD(2)[OF v, of "sample_ref 3 1" x] by (simp add: sample_universe_def)
    then have "sample_ref 2 0 \<in> held ds"
      using view_ok_round(2)[OF view_ofD(1)[OF v] x, of "sample_ref 2 0"] gc by (auto simp: set_sample_links)
    then show False using kn old[of 2 0] by (auto simp: known_refs_def sample_ref_def)
  qed
  have "held (sample_view 1) \<subseteq> held ds" using st unfolding batch_step_def by blast
  moreover have "held ds \<subseteq> held (sample_view 1) \<union> {sample_ref 3 1}" using kn unfolding known_refs_def by blast
  ultimately have h: "held ds = held (sample_view 1)" using new by blast
  have ok1: "manager_ok committee4 sample_universe (sample_view 1) bm"
    using ok gc sample_manager_ok[of 1] unfolding manager_ok_def h by simp
  have "sample_ref 3 1 \<in> known_refs ds bm" using kn by blast
  then have "bm_is_suspended bm (sample_ref 3 1)" using new by (simp add: known_refs_def fmlookup_dom'_iff)
  then obtain sb where sb: "fmlookup (bm_suspended_blocks bm) (sample_ref 3 1) = Some sb" by auto
  have s: "suspended_ok sample_universe (held (sample_view 1)) 0 {} (sample_ref 3 1) sb" using susp_invD(3)[OF manager_okD(3)[OF ok1] sb] by simp
  then have "sb_block sb = ?b" by (simp add: suspended_ok_def sample_universe_def)
  then have "br_round a = 2" if "a |\<in>| sb_missing_ancestors sb" for a
    using s that by (auto simp: suspended_ok_def set_sample_links)
  then show ?thesis using ok1 sb by blast
qed

theorem gc_unsuspend_complete_witness:
  "\<exists>bm tc ds1 ds' bm'. bm_is_suspended bm (sample_ref 3 1) \<and> sample_ref 3 1 \<notin> held (sample_view 1) \<and>
     ds_add_commit tc (sample_view 1) = Some ds1 \<and> ds_gc_round ds1 = 2 \<and>
     try_unsuspend_blocks_for_latest_gc_round 3 ds1 bm = Some (ds', bm') \<and> sample_ref 3 1 \<in> held ds'"
proof -
  obtain bm sb where bm: "manager_ok committee4 sample_universe (sample_view 1) bm"
    and sb: "fmlookup (bm_suspended_blocks bm) (sample_ref 3 1) = Some sb" "\<forall>a\<in>fset (sb_missing_ancestors sb). br_round a = 2"
    using sample_suspended by blast
  let ?tc = "new_trusted sample_crypto (commit_new 1 0 5 (sample_ref 5 0) []) []"
  have "\<exists>rounds. ds_add_commit ?tc (sample_view 1) = Some (with_commit ?tc rounds (sample_view 1)) \<and> length rounds = committee_size (ds_committee (sample_view 1))"
    by (rule ds_add_commit_eq) (simp_all add: commit_new_def ds_last_commit_index_def ds_last_commit_timestamp_ms_def sample_view_ok(3,4))
  then obtain rounds where ad: "ds_add_commit ?tc (sample_view 1) = Some (with_commit ?tc rounds (sample_view 1))" by blast
  have gc: "ds_gc_round (with_commit ?tc rounds (sample_view 1)) = 2"
    by (simp add: ds_gc_round_def ds_calculate_gc_round_def commit_new_def sample_view_ok(3)) (simp add: sample_context_def)
  have "ds_last_commit_round (sample_view 1) \<le> br_round (tcm_leader ?tc)" by (simp add: ds_last_commit_round_def sample_view_ok(4))
  from gc_unsuspend_complete[OF bm ad this, of 3] sb have
    "\<exists>ds' bm'. try_unsuspend_blocks_for_latest_gc_round 3 (with_commit ?tc rounds (sample_view 1)) bm = Some (ds', bm') \<and> sample_ref 3 1 \<in> held ds'"
    unfolding gc by (elim exE conjE) (intro exI conjI, assumption, simp)
  moreover have "sample_ref 3 1 \<notin> held (sample_view 1)" by (simp add: sample_view_ok(5) domIff)
  moreover have "bm_is_suspended bm (sample_ref 3 1)" using sb(1) by simp
  ultimately show ?thesis using ad gc by blast
qed

text \<open>
  C21. The manager asks the synchronizer for exactly the right blocks. Without v3, deliver any sequence of batches of well-formed blocks, whose
  genesis ancestors are held, to a fresh manager over a causally complete DAG state. The missing
  blocks are then the ancestors of delivered blocks, above the garbage collection round, that were neither held at first nor
  delivered. No block is stuck: from each delivered block above that round that is not accepted, a chain of ancestor links leads to
  a missing block, so all of them are accepted once nothing is missing. No call panics.
\<close>

theorem missing_blocks_exact:
  assumes "view_of c U ds" and "store_inv U ds" and "cx_committee ctx = c"
    and "\<forall>r b. U r = Some b \<longrightarrow> (\<forall>a\<in>set (vb_ancestors b). br_round a = GENESIS_ROUND \<longrightarrow> a \<in> held ds)"
    and "\<forall>bs\<in>set bss. \<forall>b\<in>set bs. U (reference b) = Some b \<and> 0 < vb_round b"
  shows "\<exists>ds' bm'. deliver now bss ds (block_manager_new ctx) = Some (ds', bm') \<and>
    fset (bm_missing_blocks bm') = {a. ds_gc_round ds < br_round a \<and> a \<notin> held ds \<and> a \<notin> reference ` set (concat bss) \<and>
      (\<exists>b\<in>set (concat bss). a \<in> set (vb_ancestors b))} \<and>
    (\<forall>b\<in>set (concat bss). ds_gc_round ds < vb_round b \<and> reference b \<notin> held ds' \<longrightarrow>
      (\<exists>m\<in>fset (bm_missing_blocks bm'). (\<lambda>x y. \<exists>b. U x = Some b \<and> y \<in> set (vb_ancestors b))\<^sup>+\<^sup>+ (reference b) m))"
proof -
  let ?bm = "block_manager_new ctx" and ?D = "set (concat bss)"
  have "manager_ok c U ds ?bm" using assms(1-3) block_manager_new_inv by (simp add: manager_ok_def)
  from deliver_batch_step[OF this assms(5), of now] obtain ds' bm' new where
    d: "deliver now bss ds ?bm = Some (ds', bm')" and st: "batch_step c U ?D ds ?bm new ds' bm'" by blast
  have kn: "known_refs ds' bm' = held ds \<union> reference ` {b \<in> ?D. ds_gc_round ds < vb_round b}"
    using st by (simp add: batch_step_def) (simp add: known_refs_def block_manager_new_def)
  have U: "\<forall>b\<in>?D. U (reference b) = Some b \<and> 0 < vb_round b" using assms(5) by auto
  have "fset (bm_missing_blocks bm') = {a. ds_gc_round ds < br_round a \<and> a \<notin> held ds \<and> a \<notin> reference ` ?D \<and> (\<exists>b\<in>?D. a \<in> set (vb_ancestors b))}"
    using missing_after_deliveries[OF st kn U] assms(4) by (auto simp: block_manager_new_def)
  moreover have "\<exists>m\<in>fset (bm_missing_blocks bm'). (ancestor_link U)\<^sup>+\<^sup>+ (reference b) m"
    if "b \<in> ?D" "ds_gc_round ds < vb_round b" "reference b \<notin> held ds'" for b
  proof -
    have "reference b \<in> known_refs ds' bm'" using kn that(1,2) by blast
    then have "bm_is_suspended bm' (reference b)" using that(3) by (simp add: known_refs_def fmlookup_dom'_iff)
    then show ?thesis using suspended_chain[of c U ds' bm' "reference b"] st by (auto simp: batch_step_def)
  qed
  ultimately show ?thesis using d unfolding ancestor_link_def by (intro exI[of _ ds'] exI[of _ bm']) blast
qed

theorem missing_blocks_exact_witness:
  "\<exists>ds' bm'. deliver 0 [[sample_layer_block 2 1], [sample_layer_block 1 0, sample_layer_block 1 3]] (sample_view 0) (block_manager_new sample_context) = Some (ds', bm') \<and>
     fset (bm_missing_blocks bm') = {sample_ref 1 1, sample_ref 1 2}"
proof -
  let ?bss = "[[sample_layer_block 2 1], [sample_layer_block 1 0, sample_layer_block 1 3]]"
  have "\<forall>bs\<in>set ?bss. \<forall>b\<in>set bs. sample_universe (reference b) = Some b \<and> 0 < vb_round b" by (simp add: sample_in_universe)
  from missing_blocks_exact[OF sample_view_of manager_okD(2)[OF sample_manager_ok] sample_context_simps sample_genesis_held this, of 0]
  obtain ds' bm' where d: "deliver 0 ?bss (sample_view 0) (block_manager_new sample_context) = Some (ds', bm')"
    "fset (bm_missing_blocks bm') = {a. ds_gc_round (sample_view 0) < br_round a \<and> a \<notin> held (sample_view 0) \<and> a \<notin> reference ` set (concat ?bss) \<and>
      (\<exists>b\<in>set (concat ?bss). a \<in> set (vb_ancestors b))}" by blast
  have D: "reference ` set (concat ?bss) = {sample_ref 2 1, sample_ref 1 0, sample_ref 1 3}" by (simp add: sample_layer_block_ref)
  have A: "(\<exists>b\<in>set (concat ?bss). a \<in> set (vb_ancestors b)) \<longleftrightarrow> a \<in> sample_ref 1 ` {..<4} \<union> sample_ref 0 ` {..<4}" for a
    by (auto simp: set_sample_links)
  have four: "{..<4 :: nat} = {0, 1, 2, 3}" by auto
  have "fset (bm_missing_blocks bm') = {sample_ref 1 1, sample_ref 1 2}"
    unfolding d(2) D A sample_held0 four by (auto simp: sample_ref_def)
  with d(1) show ?thesis by blast
qed

end
