(* ===== verification/Commit_Vote_Monitor.thy ===== *)
theory Commit_Vote_Monitor
  imports Commit_Types Weighted_Rank
begin

text \<open>
  The commit vote monitor (\<^verbatim>\<open>consensus/core/src/commit_vote_monitor.rs\<close>): the highest commit index each
  authority has voted for in the blocks seen so far, and the commit index a quorum has reached. The state is
  behind a lock in the source; here an operation takes it and returns it.
\<close>

definition COMMIT_LAG_MULTIPLIER :: nat where
  "COMMIT_LAG_MULTIPLIER = 5"

definition is_commit_lagging :: "consensus_context \<Rightarrow> commit_index \<Rightarrow> commit_index \<Rightarrow> bool" where
  "is_commit_lagging ctx local_commit_index quorum_index \<longleftrightarrow>
     local_commit_index + pa_commit_sync_batch_size (cx_parameters ctx) * COMMIT_LAG_MULTIPLIER < quorum_index"

record commit_vote_monitor =
  cvm_context :: consensus_context
  cvm_highest_voted_commits :: "commit_index list"

definition cvm_new :: "consensus_context \<Rightarrow> commit_vote_monitor" where
  "cvm_new ctx = \<lparr>cvm_context = ctx, cvm_highest_voted_commits = replicate (committee_size (cx_committee ctx)) 0\<rparr>"

definition observe_block :: "verified_block \<Rightarrow> commit_vote_monitor \<Rightarrow> commit_vote_monitor option" where
  "observe_block b m = do {
     highest \<leftarrow> foldM (\<lambda>vote highest. do {
         h \<leftarrow> vec_get highest (vb_author b);
         if cr_index vote > h then vec_set highest (vb_author b) (cr_index vote) else Some highest
       }) (vb_commit_votes b) (cvm_highest_voted_commits m);
     Some (m\<lparr>cvm_highest_voted_commits := highest\<rparr>)
   }"

definition quorum_commit_index :: "commit_vote_monitor \<Rightarrow> commit_index" where
  "quorum_commit_index m =
     (let c = cx_committee (cvm_context m);
          by_index = rev (sort (zip (cvm_highest_voted_commits m) (map a_stake (c_authorities c))))
      in case first_reaching (c_quorum_threshold c) by_index 0 of Some i \<Rightarrow> i | None \<Rightarrow> GENESIS_COMMIT_INDEX)"

subsection \<open>What is recorded\<close>

text \<open>The highest index an authority votes for in a list of blocks.\<close>

definition voted_index :: "verified_block list \<Rightarrow> authority_index \<Rightarrow> commit_index" where
  "voted_index bs a = Max (insert 0 {cr_index v | v b. b \<in> set bs \<and> vb_author b = a \<and> v \<in> set (vb_commit_votes b)})"

lemma voted_index_finite: "finite {cr_index v | v b. b \<in> set bs \<and> vb_author b = a \<and> v \<in> set (vb_commit_votes b)}"
proof -
  have "{cr_index v | v b. b \<in> set bs \<and> vb_author b = a \<and> v \<in> set (vb_commit_votes b)}
      \<subseteq> cr_index ` (\<Union>b\<in>set bs. set (vb_commit_votes b))" by auto
  then show ?thesis by (rule finite_subset) simp
qed

lemma voted_index_le: "i \<le> voted_index bs a \<longleftrightarrow>
    i = 0 \<or> (\<exists>b\<in>set bs. vb_author b = a \<and> (\<exists>v\<in>set (vb_commit_votes b). i \<le> cr_index v))"
proof -
  let ?S = "{cr_index v | v b. b \<in> set bs \<and> vb_author b = a \<and> v \<in> set (vb_commit_votes b)}"
  have "i \<le> voted_index bs a \<longleftrightarrow> (\<exists>x\<in>insert 0 ?S. i \<le> x)"
    unfolding voted_index_def by (rule Max_ge_iff) (simp_all add: voted_index_finite)
  also have "\<dots> \<longleftrightarrow> i = 0 \<or> (\<exists>b\<in>set bs. vb_author b = a \<and> (\<exists>v\<in>set (vb_commit_votes b). i \<le> cr_index v))" by auto
  finally show ?thesis .
qed

lemma nat_eq_by_le: "(\<And>i :: nat. i \<le> x \<longleftrightarrow> i \<le> y) \<Longrightarrow> x = y"
  by (meson dual_order.antisym order_refl)

lemma voted_index_snoc: "voted_index (bs @ [b]) a =
    (if vb_author b = a then max (voted_index bs a) (voted_index [b] a) else voted_index bs a)"
  by (rule nat_eq_by_le) (auto simp: voted_index_le le_max_iff_disj)

lemma observe_votes:
  assumes "a < length hs"
  shows "foldM (\<lambda>vote highest. do {
         h \<leftarrow> vec_get highest a;
         if cr_index vote > h then vec_set highest a (cr_index vote) else Some highest
       }) votes hs = Some (hs[a := Max (insert (hs ! a) (cr_index ` set votes))])"
  using assms
proof (induction votes arbitrary: hs)
  case (Cons v votes)
  let ?h = "max (hs ! a) (cr_index v)"
  have "Max (insert (hs ! a) (insert (cr_index v) (cr_index ` set votes))) = Max (insert ?h (cr_index ` set votes))"
    by (cases "votes = []") (simp_all add: max.assoc max.left_commute)
  moreover have "(if cr_index v > hs ! a then vec_set hs a (cr_index v) else Some hs) = Some (hs[a := ?h])"
    using Cons.prems by (simp add: max_def)
  ultimately show ?case using Cons.IH[of "hs[a := ?h]"] Cons.prems by simp
qed simp

definition monitor_inv :: "verified_block list \<Rightarrow> commit_vote_monitor \<Rightarrow> bool" where
  "monitor_inv bs m \<longleftrightarrow> cvm_highest_voted_commits m = map (voted_index bs) [0..<committee_size (cx_committee (cvm_context m))]"

lemma monitor_inv_new: "monitor_inv [] (cvm_new ctx)"
  by (auto simp: monitor_inv_def cvm_new_def voted_index_def intro!: nth_equalityI)

lemma monitor_inv_observe:
  assumes "monitor_inv bs m" and "vb_author b < committee_size (cx_committee (cvm_context m))"
  shows "\<exists>m'. observe_block b m = Some m' \<and> monitor_inv (bs @ [b]) m' \<and> cvm_context m' = cvm_context m"
proof -
  let ?n = "committee_size (cx_committee (cvm_context m))" and ?hs = "cvm_highest_voted_commits m" and ?a = "vb_author b"
  let ?v = "Max (insert (?hs ! ?a) (cr_index ` set (vb_commit_votes b)))"
  have hs: "length ?hs = ?n" "?hs ! ?a = voted_index bs ?a" using assms by (simp_all add: monitor_inv_def)
  have "?v = voted_index (bs @ [b]) ?a"
    by (rule nat_eq_by_le) (auto simp: Max_ge_iff hs(2) voted_index_le)
  then have "?hs[?a := ?v] = map (voted_index (bs @ [b])) [0..<?n]"
    using assms by (auto simp: monitor_inv_def nth_list_update voted_index_snoc intro!: nth_equalityI)
  moreover have "observe_block b m = Some (m\<lparr>cvm_highest_voted_commits := ?hs[?a := ?v]\<rparr>)"
    using observe_votes[of ?a ?hs "vb_commit_votes b"] hs(1) assms(2) by (simp add: observe_block_def)
  ultimately show ?thesis by (simp add: monitor_inv_def)
qed

lemma monitor_inv_observe_all:
  assumes "monitor_inv bs m" and "\<forall>b\<in>set new. vb_author b < committee_size (cx_committee (cvm_context m))"
  shows "\<exists>m'. foldM observe_block new m = Some m' \<and> monitor_inv (bs @ new) m' \<and> cvm_context m' = cvm_context m"
  using assms
proof (induction new arbitrary: bs m)
  case (Cons b new)
  from monitor_inv_observe[OF Cons.prems(1)] Cons.prems(2) obtain m1 where
    m1: "observe_block b m = Some m1" "monitor_inv (bs @ [b]) m1" "cvm_context m1 = cvm_context m" by auto
  from Cons.IH[OF m1(2)] Cons.prems(2) m1(1,3) show ?case by auto
qed simp

subsection \<open>Properties\<close>

text \<open>
  C25. After any blocks of committee members have been observed, the quorum commit index is the greatest
  index that a quorum of authorities has voted for, where a vote for an index counts for all the smaller ones.
  Observing never panics.
\<close>

theorem quorum_commit_index_greatest:
  assumes "committee_wf c" and "cx_committee ctx = c" and "\<forall>b\<in>set bs. vb_author b < committee_size c"
  shows "\<exists>m. foldM observe_block bs (cvm_new ctx) = Some m \<and>
    (\<forall>i. i \<le> quorum_commit_index m \<longleftrightarrow> i = 0 \<or> unat (c_quorum_threshold c) \<le>
      set_stake c {a. \<exists>b\<in>set bs. vb_author b = a \<and> (\<exists>v\<in>set (vb_commit_votes b). i \<le> cr_index v)})"
proof -
  have "\<forall>b\<in>set bs. vb_author b < committee_size (cx_committee (cvm_context (cvm_new ctx)))"
    using assms(2,3) by (simp add: cvm_new_def)
  from monitor_inv_observe_all[OF monitor_inv_new this] obtain m where
    m: "foldM observe_block bs (cvm_new ctx) = Some m" "monitor_inv bs m" "cx_committee (cvm_context m) = c"
    using assms(2) by (auto simp: cvm_new_def)
  let ?hs = "cvm_highest_voted_commits m" and ?q = "unat (c_quorum_threshold c)"
  have l: "length ?hs = committee_size c" and nth: "a < committee_size c \<Longrightarrow> ?hs ! a = voted_index bs a" for a
    using m(2,3) by (simp_all add: monitor_inv_def)
  let ?V = "\<lambda>i. {a. \<exists>b\<in>set bs. vb_author b = a \<and> (\<exists>v\<in>set (vb_commit_votes b). i \<le> cr_index v)}"
  have n: "{a. a < committee_size c \<and> i \<le> ?hs ! a} = ?V i" if "i \<noteq> 0" for i
    using nth assms(3) that by (fastforce simp: voted_index_le)
  from first_reaching_descending[OF assms(1) l] obtain v where
    v: "quorum_commit_index m = v" "?q \<le> set_stake c {a. a < committee_size c \<and> v \<le> ?hs ! a}"
      "set_stake c {a. a < committee_size c \<and> v < ?hs ! a} < ?q"
    by (auto simp: quorum_commit_index_def m(3) Let_def)
  have "i \<le> v \<longleftrightarrow> i = 0 \<or> ?q \<le> set_stake c (?V i)" for i
    using quorum_rank[OF v(2,3), of i] n[of i] by (cases "i = 0") simp_all
  then show ?thesis unfolding v(1)[symmetric] using m(1) by blast
qed

definition sample_voter :: "authority_index \<Rightarrow> commit_index \<Rightarrow> verified_block" where
  "sample_voter a i = \<lparr>vb_block = \<lparr>sb_inner = V2 \<lparr>b2_epoch = 0, b2_round = 9, b2_author = a, b2_timestamp_ms = 0,
     b2_ancestors = [], b2_transactions = [], b2_transaction_votes = [],
     b2_commit_votes = [\<lparr>cr_index = i, cr_digest = 0\<rparr>], b2_misbehavior_reports = []\<rparr>, sb_signature = []\<rparr>,
     vb_digest = 0, vb_serialized = []\<rparr>"

definition sample_voters :: "verified_block list" where
  "sample_voters = [sample_voter 0 7, sample_voter 1 5, sample_voter 3 90, sample_voter 2 4, sample_voter 1 6]"

theorem quorum_commit_index_greatest_witness:
  "map_option quorum_commit_index (foldM observe_block sample_voters (cvm_new sample_context)) = Some 6 \<and>
   (\<exists>m. foldM observe_block sample_voters (cvm_new sample_context) = Some m \<and>
    (\<forall>i. i \<le> quorum_commit_index m \<longleftrightarrow> i = 0 \<or> unat (c_quorum_threshold committee4) \<le>
      set_stake committee4 {a. \<exists>b\<in>set sample_voters. vb_author b = a \<and> (\<exists>v\<in>set (vb_commit_votes b). i \<le> cr_index v)}))"
proof
  show "map_option quorum_commit_index (foldM observe_block sample_voters (cvm_new sample_context)) = Some 6" by code_simp
  show "\<exists>m. foldM observe_block sample_voters (cvm_new sample_context) = Some m \<and>
    (\<forall>i. i \<le> quorum_commit_index m \<longleftrightarrow> i = 0 \<or> unat (c_quorum_threshold committee4) \<le>
      set_stake committee4 {a. \<exists>b\<in>set sample_voters. vb_author b = a \<and> (\<exists>v\<in>set (vb_commit_votes b). i \<le> cr_index v)})"
    by (rule quorum_commit_index_greatest[OF committee4_wf])
      (simp_all add: sample_voters_def sample_voter_def vb_author_def)
qed

end
