(* ===== verification/Transaction_Vote_Tracker.thy ===== *)
theory Transaction_Vote_Tracker
  imports Dag_State
begin

text \<open>
  The transaction vote tracker (\<^verbatim>\<open>consensus/core/src/transaction_vote_tracker.rs\<close>): this node's own reject
  votes on the blocks it received and the reject votes that blocks carry against transactions of other blocks,
  aggregated by stake, with garbage collection by round. The lock around the state is
  state passing; the block verifier, a trait object in the source, is the argument \<open>vote\<close>.
\<close>

subsection \<open>Data\<close>

definition vb_transaction_votes :: "verified_block \<Rightarrow> block_transaction_votes list" where
  "vb_transaction_votes b = block_transaction_votes_list (sb_inner (vb_block b))"

record vote_info =
  vi_block :: "verified_block option"
  vi_own_reject_txn_votes :: "transaction_index list"
  vi_reject_txn_votes :: "(transaction_index, stake_aggregator) fmap"

definition vote_info_default :: vote_info where
  "vote_info_default = \<lparr>vi_block = None, vi_own_reject_txn_votes = [], vi_reject_txn_votes = fmempty\<rparr>"

record vote_tracker_state =
  vts_context :: consensus_context
  vts_votes :: "(block_ref, vote_info) fmap"
  vts_gc_round :: round

definition vts_new :: "consensus_context \<Rightarrow> vote_tracker_state" where
  "vts_new ctx = \<lparr>vts_context = ctx, vts_votes = fmempty, vts_gc_round = GENESIS_ROUND\<rparr>"

abbreviation vts_committee :: "vote_tracker_state \<Rightarrow> committee" where
  "vts_committee st \<equiv> cx_committee (vts_context st)"

subsection \<open>Operations\<close>

text \<open>\<^verbatim>\<open>entry(k).or_default()\<close> on the two maps.\<close>

definition vote_entry :: "block_ref \<Rightarrow> (block_ref, vote_info) fmap \<Rightarrow> vote_info" where
  "vote_entry r votes = (case fmlookup votes r of Some info \<Rightarrow> info | None \<Rightarrow> vote_info_default)"

definition add_reject_vote :: "committee \<Rightarrow> authority_index \<Rightarrow> transaction_index \<Rightarrow> vote_info \<Rightarrow> vote_info option" where
  "add_reject_vote c author i info = do {
     (sa, _) \<leftarrow> sa_add_unique author c (case fmlookup (vi_reject_txn_votes info) i of Some sa \<Rightarrow> sa | None \<Rightarrow> sa_new);
     Some (info\<lparr>vi_reject_txn_votes := fmupd i sa (vi_reject_txn_votes info)\<rparr>)
   }"

definition add_block_votes ::
  "committee \<Rightarrow> round \<Rightarrow> authority_index \<Rightarrow> block_transaction_votes \<Rightarrow> (block_ref, vote_info) fmap \<Rightarrow> (block_ref, vote_info) fmap option" where
  "add_block_votes c gc_round author block_votes votes =
     (let r = btv_block_ref block_votes in
      if br_round r \<le> gc_round then Some votes
      else do {
        info \<leftarrow> foldM (add_reject_vote c author) (btv_rejects block_votes) (vote_entry r votes);
        Some (fmupd r info votes)
      })"

definition add_voted_block :: "verified_block \<times> transaction_index list \<Rightarrow> vote_tracker_state \<Rightarrow> vote_tracker_state option" where
  "add_voted_block = (\<lambda>(voted_block, reject_txn_votes) st.
     if vb_round voted_block \<le> vts_gc_round st then Some st
     else do {
       _ \<leftarrow> committee_authority (vts_committee st) (vb_author voted_block);
       let info = vote_entry (reference voted_block) (vts_votes st);
       if vi_block info \<noteq> None then Some st
       else do {
         let votes = fmupd (reference voted_block)
           (info\<lparr>vi_block := Some voted_block, vi_own_reject_txn_votes := reject_txn_votes\<rparr>) (vts_votes st);
         votes \<leftarrow> foldM (add_block_votes (vts_committee st) (vts_gc_round st) (vb_author voted_block))
           (vb_transaction_votes voted_block) votes;
         Some (st\<lparr>vts_votes := votes\<rparr>)
       }
     })"

definition add_voted_blocks :: "(verified_block \<times> transaction_index list) list \<Rightarrow> vote_tracker_state \<Rightarrow> vote_tracker_state option" where
  "add_voted_blocks = foldM add_voted_block"

text \<open>The loop that pops entries in key order while their round is collected.\<close>

definition update_gc_round :: "round \<Rightarrow> vote_tracker_state \<Rightarrow> vote_tracker_state" where
  "update_gc_round gc_round st =
     st\<lparr>vts_gc_round := gc_round,
        vts_votes := fmap_of_list (dropWhile (\<lambda>(r, info). br_round r \<le> gc_round) (sorted_list_of_fmap (vts_votes st)))\<rparr>"

definition get_own_votes :: "block_ref list \<Rightarrow> vote_tracker_state \<Rightarrow> block_transaction_votes list option" where
  "get_own_votes block_refs st =
     foldM (\<lambda>r votes.
         if br_round r \<le> vts_gc_round st then Some votes
         else do {
           info \<leftarrow> fmlookup (vts_votes st) r;
           Some (if vi_own_reject_txn_votes info \<noteq> []
                 then votes @ [\<lparr>btv_block_ref = r, btv_rejects = vi_own_reject_txn_votes info\<rparr>] else votes)
         }) block_refs []"

text \<open>Here \<open>None\<close> is the value \<^verbatim>\<open>None\<close> of the source: no information about the block.\<close>

definition get_reject_votes :: "block_ref \<Rightarrow> vote_tracker_state \<Rightarrow> (transaction_index \<times> stake) list option" where
  "get_reject_votes r st =
     map_option (\<lambda>info. map (\<lambda>(i, sa). (i, sa_stake sa)) (sorted_list_of_fmap (vi_reject_txn_votes info)))
       (fmlookup (vts_votes st) r)"

definition run_gc :: "dag_state \<Rightarrow> round \<Rightarrow> vote_tracker_state \<Rightarrow> vote_tracker_state option" where
  "run_gc ds gc_round st = do {
     assert_that (gc_round \<le> ds_gc_round ds);
     Some (update_gc_round gc_round st)
   }"

definition recover_and_vote_on_blocks ::
  "(verified_block \<Rightarrow> transaction_index list consensus_result) \<Rightarrow> dag_state \<Rightarrow> verified_block list \<Rightarrow> vote_tracker_state \<Rightarrow> vote_tracker_state option" where
  "recover_and_vote_on_blocks vote ds blocks st = do {
     let gc_round = ds_gc_round ds;
     should_vote \<leftarrow> mapM (\<lambda>b.
         if vb_round b > gc_round then map_option Not (ds_has_been_included ds (reference b)) else Some False) blocks;
     voted \<leftarrow> mapM (\<lambda>(b, should).
         if \<not> should then Some (b, [])
         else case vote b of Inl e \<Rightarrow> None | Inr rejects \<Rightarrow> Some (b, rejects)) (zip blocks should_vote);
     add_voted_blocks voted st
   }"

definition recover_blocks_after_round ::
  "(verified_block \<Rightarrow> transaction_index list consensus_result) \<Rightarrow> dag_state \<Rightarrow> round \<Rightarrow> vote_tracker_state \<Rightarrow> vote_tracker_state option" where
  "recover_blocks_after_round vote ds after_round st =
     (if \<not> pc_transaction_voting_enabled (cx_protocol_config (vts_context st)) then Some st
      else foldM (\<lambda>a st. do {
          blocks \<leftarrow> ms_scan_blocks_by_author (ds_store ds) a (after_round + 1);
          _ \<leftarrow> committee_authority (vts_committee st) a;
          recover_and_vote_on_blocks vote ds blocks st
        }) (authority_indices (vts_committee st)) st)"

subsection \<open>The votes that are counted\<close>

definition rejecters :: "verified_block list \<Rightarrow> block_ref \<Rightarrow> transaction_index \<Rightarrow> authority_index set" where
  "rejecters bs r i = {vb_author b | b v. b \<in> set bs \<and> v \<in> set (vb_transaction_votes b) \<and> btv_block_ref v = r \<and> i \<in> set (btv_rejects v)}"

lemma rejecters_Nil [simp]: "rejecters [] r i = {}"
  by (simp add: rejecters_def)

lemma rejecters_snoc: "rejecters (bs @ [b]) r i =
    rejecters bs r i \<union> (if \<exists>v\<in>set (vb_transaction_votes b). btv_block_ref v = r \<and> i \<in> set (btv_rejects v) then {vb_author b} else {})"
  by (auto simp: rejecters_def)

lemma rejecters_finite: "finite (rejecters bs r i)"
proof -
  have "rejecters bs r i \<subseteq> vb_author ` set bs" by (auto simp: rejecters_def)
  then show ?thesis by (rule finite_subset) simp
qed

text \<open>One entry of the map, against a function from transactions to the authorities that reject them.\<close>

definition entry_counts :: "committee \<Rightarrow> (transaction_index \<Rightarrow> authority_index set) \<Rightarrow> vote_info \<Rightarrow> bool" where
  "entry_counts c R info \<longleftrightarrow> (\<forall>i. case fmlookup (vi_reject_txn_votes info) i of
      None \<Rightarrow> R i = {} | Some sa \<Rightarrow> sa_inv c sa \<and> fset (sa_votes sa) = R i \<and> R i \<noteq> {})"

lemma entry_counts_default [simp]: "entry_counts c (\<lambda>_. {}) vote_info_default"
  by (simp add: entry_counts_def vote_info_default_def)

lemma add_reject_vote_counts:
  assumes "committee_wf c" and "a < committee_size c" and "entry_counts c R info"
  shows "\<exists>info'. add_reject_vote c a i info = Some info' \<and> entry_counts c (R(i := insert a (R i))) info' \<and>
    vi_block info' = vi_block info \<and> vi_own_reject_txn_votes info' = vi_own_reject_txn_votes info"
proof -
  define sa where "sa = (case fmlookup (vi_reject_txn_votes info) i of Some sa \<Rightarrow> sa | None \<Rightarrow> sa_new)"
  have sa: "sa_inv c sa" "fset (sa_votes sa) = R i"
    using assms(3)[unfolded entry_counts_def, rule_format, of i] by (auto simp: sa_def split: option.splits)
  let ?info = "info\<lparr>vi_reject_txn_votes := fmupd i (sa_insert c a sa) (vi_reject_txn_votes info)\<rparr>"
  have "add_reject_vote c a i info = Some ?info" using assms(2) by (simp add: add_reject_vote_def sa_add_unique_eq sa_def)
  moreover have "entry_counts c (R(i := insert a (R i))) ?info"
    unfolding entry_counts_def
  proof (rule allI)
    fix j
    show "case fmlookup (vi_reject_txn_votes ?info) j of None \<Rightarrow> (R(i := insert a (R i))) j = {}
      | Some sa \<Rightarrow> sa_inv c sa \<and> fset (sa_votes sa) = (R(i := insert a (R i))) j \<and> (R(i := insert a (R i))) j \<noteq> {}"
      using assms(3)[unfolded entry_counts_def, rule_format, of j] sa sa_inv_insert[OF assms(1) sa(1) assms(2)]
      by (cases "j = i"; cases "fmlookup (vi_reject_txn_votes info) j") simp_all
  qed
  ultimately show ?thesis by auto
qed

lemma add_reject_votes_counts:
  assumes "committee_wf c" and "a < committee_size c" and "entry_counts c R info"
  shows "\<exists>info'. foldM (add_reject_vote c a) is info = Some info' \<and>
    entry_counts c (\<lambda>i. R i \<union> (if i \<in> set is then {a} else {})) info' \<and>
    vi_block info' = vi_block info \<and> vi_own_reject_txn_votes info' = vi_own_reject_txn_votes info"
  using assms(3)
proof (induction "is" arbitrary: R info)
  case (Cons i "is")
  from add_reject_vote_counts[OF assms(1,2) Cons.prems, of i] obtain info1 where
    1: "add_reject_vote c a i info = Some info1" "entry_counts c (R(i := insert a (R i))) info1"
      "vi_block info1 = vi_block info" "vi_own_reject_txn_votes info1 = vi_own_reject_txn_votes info" by auto
  have "(\<lambda>j. (R(i := insert a (R i))) j \<union> (if j \<in> set is then {a} else {})) = (\<lambda>j. R j \<union> (if j \<in> set (i # is) then {a} else {}))"
    by (rule ext) auto
  with Cons.IH[OF 1(2)] 1 show ?case by auto
qed simp

text \<open>The whole map, against a function from blocks and transactions to the authorities that reject them.\<close>

definition votes_count :: "committee \<Rightarrow> (block_ref \<Rightarrow> transaction_index \<Rightarrow> authority_index set) \<Rightarrow> round \<Rightarrow> (block_ref, vote_info) fmap \<Rightarrow> bool" where
  "votes_count c R g votes \<longleftrightarrow> (\<forall>r. case fmlookup votes r of
      None \<Rightarrow> br_round r \<le> g \<or> R r = (\<lambda>_. {}) | Some info \<Rightarrow> g < br_round r \<and> entry_counts c (R r) info)"

lemma votes_count_entry: "votes_count c R g votes \<Longrightarrow> g < br_round r \<Longrightarrow> entry_counts c (R r) (vote_entry r votes)"
  unfolding votes_count_def vote_entry_def by (drule spec[of _ r]) (auto split: option.splits)

lemma votes_count_upd:
  assumes "votes_count c R g votes" and "g < br_round r" and "entry_counts c X info"
  shows "votes_count c (R(r := X)) g (fmupd r info votes)"
  unfolding votes_count_def
proof (rule allI)
  fix x
  show "case fmlookup (fmupd r info votes) x of None \<Rightarrow> br_round x \<le> g \<or> (R(r := X)) x = (\<lambda>_. {})
    | Some info \<Rightarrow> g < br_round x \<and> entry_counts c ((R(r := X)) x) info"
    using assms(2,3) assms(1)[unfolded votes_count_def, rule_format, of x] by (cases "x = r"; cases "fmlookup votes x") simp_all
qed

lemma add_block_votes_counts:
  assumes "committee_wf c" and "a < committee_size c" and "votes_count c R g votes"
  shows "\<exists>votes'. add_block_votes c g a v votes = Some votes' \<and>
    votes_count c (\<lambda>r i. R r i \<union> (if btv_block_ref v = r \<and> i \<in> set (btv_rejects v) then {a} else {})) g votes' \<and>
    (\<forall>r. vi_block (vote_entry r votes') = vi_block (vote_entry r votes))"
proof (cases "br_round (btv_block_ref v) \<le> g")
  case True
  have "votes_count c (\<lambda>r i. R r i \<union> (if btv_block_ref v = r \<and> i \<in> set (btv_rejects v) then {a} else {})) g votes"
    unfolding votes_count_def
  proof (rule allI)
    fix r
    show "case fmlookup votes r of None \<Rightarrow> br_round r \<le> g \<or> (\<lambda>i. R r i \<union> (if btv_block_ref v = r \<and> i \<in> set (btv_rejects v) then {a} else {})) = (\<lambda>_. {})
      | Some info \<Rightarrow> g < br_round r \<and> entry_counts c (\<lambda>i. R r i \<union> (if btv_block_ref v = r \<and> i \<in> set (btv_rejects v) then {a} else {})) info"
      using assms(3)[unfolded votes_count_def, rule_format, of r] True by (cases "btv_block_ref v = r") (auto split: option.splits)
  qed
  then show ?thesis using True by (simp add: add_block_votes_def)
next
  case False
  let ?r = "btv_block_ref v"
  from add_reject_votes_counts[OF assms(1,2) votes_count_entry[OF assms(3), of ?r], of "btv_rejects v"] False obtain info where
    1: "foldM (add_reject_vote c a) (btv_rejects v) (vote_entry ?r votes) = Some info"
      "entry_counts c (\<lambda>i. R ?r i \<union> (if i \<in> set (btv_rejects v) then {a} else {})) info" "vi_block info = vi_block (vote_entry ?r votes)" by auto
  have "(\<lambda>r i. R r i \<union> (if ?r = r \<and> i \<in> set (btv_rejects v) then {a} else {})) =
      R(?r := (\<lambda>i. R ?r i \<union> (if i \<in> set (btv_rejects v) then {a} else {})))" by (intro ext) auto
  then show ?thesis using 1 votes_count_upd[OF assms(3) _ 1(2)] False
    by (simp add: add_block_votes_def vote_entry_def)
qed

lemma add_all_block_votes_counts:
  assumes "committee_wf c" and "a < committee_size c" and "votes_count c R g votes"
  shows "\<exists>votes'. foldM (add_block_votes c g a) vs votes = Some votes' \<and>
    votes_count c (\<lambda>r i. R r i \<union> (if \<exists>v\<in>set vs. btv_block_ref v = r \<and> i \<in> set (btv_rejects v) then {a} else {})) g votes' \<and>
    (\<forall>r. vi_block (vote_entry r votes') = vi_block (vote_entry r votes))"
  using assms(3)
proof (induction vs arbitrary: R votes)
  case (Cons v vs)
  let ?R = "\<lambda>r i. R r i \<union> (if btv_block_ref v = r \<and> i \<in> set (btv_rejects v) then {a} else {})"
  from add_block_votes_counts[OF assms(1,2) Cons.prems, of v] obtain votes1 where
    1: "add_block_votes c g a v votes = Some votes1" "votes_count c ?R g votes1" "\<forall>r. vi_block (vote_entry r votes1) = vi_block (vote_entry r votes)" by auto
  have "(\<lambda>r i. ?R r i \<union> (if \<exists>v\<in>set vs. btv_block_ref v = r \<and> i \<in> set (btv_rejects v) then {a} else {})) =
      (\<lambda>r i. R r i \<union> (if \<exists>v\<in>set (v # vs). btv_block_ref v = r \<and> i \<in> set (btv_rejects v) then {a} else {}))" by (intro ext) auto
  with Cons.IH[OF 1(2)] 1 show ?case by auto
qed simp

subsection \<open>The state invariant\<close>

definition vts_inv :: "committee \<Rightarrow> verified_block list \<Rightarrow> vote_tracker_state \<Rightarrow> bool" where
  "vts_inv c bs st \<longleftrightarrow> vts_committee st = c \<and> votes_count c (rejecters bs) (vts_gc_round st) (vts_votes st) \<and>
     (\<forall>r b. vi_block (vote_entry r (vts_votes st)) = Some b \<longrightarrow> reference b = r \<and> b \<in> set bs) \<and>
     (\<forall>b\<in>set bs. vts_gc_round st < vb_round b \<longrightarrow> vi_block (vote_entry (reference b) (vts_votes st)) = Some b)"

lemma vts_inv_new: "vts_inv (cx_committee ctx) [] (vts_new ctx)"
  by (simp add: vts_inv_def vts_new_def votes_count_def vote_entry_def vote_info_default_def rejecters_def fun_eq_iff)

lemma add_voted_block_inv:
  assumes wf: "committee_wf c" and inv: "vts_inv c bs st" and inj: "inj_on reference (set (bs @ [b]))" and a: "vb_author b < committee_size c"
  shows "\<exists>st'. add_voted_block (b, own) st = Some st' \<and> vts_gc_round st' = vts_gc_round st \<and>
    vts_inv c (if vb_round b \<le> vts_gc_round st then bs else bs @ [b]) st'"
proof -
  let ?g = "vts_gc_round st" and ?info = "vote_entry (reference b) (vts_votes st)"
  have c: "vts_committee st = c" "vec_get (c_authorities c) (vb_author b) = Some (c_authorities c ! vb_author b)"
    using inv a by (simp_all add: vts_inv_def committee_size_def)
  have cnt: "votes_count c (rejecters bs) ?g (vts_votes st)" using inv by (simp add: vts_inv_def)
  consider "vb_round b \<le> ?g" | "?g < vb_round b" "vi_block ?info \<noteq> None" | "?g < vb_round b" "vi_block ?info = None" by fastforce
  then show ?thesis
  proof cases
    case 1
    then show ?thesis using inv by (simp add: add_voted_block_def)
  next
    case 2
    then obtain b' where "vi_block ?info = Some b'" by auto
    then have "reference b' = reference b" "b' \<in> set bs" using inv by (auto simp: vts_inv_def)
    then have b: "b \<in> set bs" using inj_onD[OF inj, of b' b] by simp
    then have "rejecters (bs @ [b]) = rejecters bs" "set (bs @ [b]) = set bs" by (auto simp: rejecters_def fun_eq_iff)
    then have "vts_inv c (bs @ [b]) st" using inv unfolding vts_inv_def by simp
    then show ?thesis using 2 c by (simp add: add_voted_block_def committee_authority_def)
  next
    case 3
    let ?v0 = "fmupd (reference b) (?info\<lparr>vi_block := Some b, vi_own_reject_txn_votes := own\<rparr>) (vts_votes st)"
    have "entry_counts c (rejecters bs (reference b)) (?info\<lparr>vi_block := Some b, vi_own_reject_txn_votes := own\<rparr>)"
      using votes_count_entry[OF cnt, of "reference b"] 3(1) by (simp add: entry_counts_def)
    from votes_count_upd[OF cnt _ this, of "reference b"] 3(1) have "votes_count c (rejecters bs) ?g ?v0" by simp
    from add_all_block_votes_counts[OF wf a this, of "vb_transaction_votes b"] obtain votes where
      v: "foldM (add_block_votes c ?g (vb_author b)) (vb_transaction_votes b) ?v0 = Some votes"
        "votes_count c (rejecters (bs @ [b])) ?g votes" "\<forall>r. vi_block (vote_entry r votes) = vi_block (vote_entry r ?v0)"
      unfolding rejecters_snoc[abs_def] by auto
    have old: "vi_block (vote_entry r (vts_votes st)) = Some x \<Longrightarrow> reference x = r \<and> x \<in> set bs" for r x using inv by (simp add: vts_inv_def)
    have e: "vi_block (vote_entry r votes) = (if r = reference b then Some b else vi_block (vote_entry r (vts_votes st)))" for r
      using v(3) by (simp add: vote_entry_def)
    have "reference x = r \<and> x \<in> set (bs @ [b])" if "vi_block (vote_entry r votes) = Some x" for r x
      using that old[of r x] unfolding e by (cases "r = reference b") simp_all
    moreover have "vi_block (vote_entry (reference x) votes) = Some x" if x: "x \<in> set (bs @ [b])" "?g < vb_round x" for x
    proof (cases "reference x = reference b")
      case True
      then have "x = b" using inj_onD[OF inj True x(1)] by simp
      then show ?thesis by (simp add: e)
    next
      case False
      then have "x \<in> set bs" using x(1) by auto
      then show ?thesis using inv x(2) False by (simp add: vts_inv_def e)
    qed
    ultimately have "vts_inv c (bs @ [b]) (st\<lparr>vts_votes := votes\<rparr>)" using c(1) v(2) by (simp add: vts_inv_def)
    then show ?thesis using 3 c v(1) by (simp add: add_voted_block_def committee_authority_def Let_def)
  qed
qed

subsection \<open>Garbage collection\<close>

lemma dropWhile_filter_round: "sorted ks \<Longrightarrow> dropWhile (\<lambda>k. br_round k \<le> g) ks = filter (\<lambda>k. g < br_round k) ks"
proof (induction ks)
  case (Cons k ks)
  show ?case
  proof (cases "br_round k \<le> g")
    case False
    have "g < br_round x" if "x \<in> set ks" for x using Cons.prems that False block_ref_le_round[of k x] by auto
    then show ?thesis using False by (simp add: filter_True)
  qed (use Cons in simp)
qed simp

lemma update_gc_round_lookup:
  "fmlookup (vts_votes (update_gc_round g st)) r = (if br_round r \<le> g then None else fmlookup (vts_votes st) r)"
proof -
  let ?m = "vts_votes st" and ?ks = "sorted_list_of_fset (fmdom (vts_votes st))"
  let ?ks' = "filter (\<lambda>k. g < br_round k) ?ks"
  have "dropWhile (\<lambda>(r, info). br_round r \<le> g) (sorted_list_of_fmap ?m) = map (\<lambda>k. (k, the (fmlookup ?m k))) (dropWhile (\<lambda>k. br_round k \<le> g) ?ks)"
    by (simp add: sorted_list_of_fmap_def dropWhile_map comp_def)
  also have "\<dots> = map (\<lambda>k. (k, the (fmlookup ?m k))) ?ks'" by (simp add: dropWhile_filter_round)
  finally have "fmlookup (vts_votes (update_gc_round g st)) r = map_of (map (\<lambda>k. (k, the (fmlookup ?m k))) ?ks') r"
    by (simp add: update_gc_round_def fmlookup_of_list)
  also have "\<dots> = (if r \<in> set ?ks' then Some (the (fmlookup ?m r)) else None)"
    by (simp add: map_of_map_restrict restrict_map_def)
  also have "\<dots> = (if br_round r \<le> g then None else fmlookup ?m r)"
    by (cases "fmlookup ?m r") (auto simp: fmlookup_dom_iff)
  finally show ?thesis .
qed

lemma update_gc_round_inv:
  assumes "vts_inv c bs st" and "vts_gc_round st \<le> g"
  shows "vts_inv c bs (update_gc_round g st)"
proof -
  let ?st = "update_gc_round g st"
  have sel: "vts_gc_round ?st = g" "vts_context ?st = vts_context st" by (simp_all add: update_gc_round_def)
  have cnt: "votes_count c (rejecters bs) g (vts_votes ?st)"
    unfolding votes_count_def update_gc_round_lookup
  proof (rule allI)
    fix r
    show "case if br_round r \<le> g then None else fmlookup (vts_votes st) r of None \<Rightarrow> br_round r \<le> g \<or> rejecters bs r = (\<lambda>_. {})
      | Some info \<Rightarrow> g < br_round r \<and> entry_counts c (rejecters bs r) info"
      using assms unfolding vts_inv_def votes_count_def by (auto split: option.splits dest!: spec[of _ r])
  qed
  have e: "vote_entry r (vts_votes ?st) = (if br_round r \<le> g then vote_info_default else vote_entry r (vts_votes st))" for r
    by (simp add: vote_entry_def update_gc_round_lookup)
  show ?thesis using assms cnt sel unfolding vts_inv_def e by (auto simp: vote_info_default_def)
qed

subsection \<open>Properties\<close>

text \<open>A history of the tracker: blocks added with this node's own votes, interleaved with garbage collection.\<close>

datatype vote_event = AddVoted verified_block "transaction_index list" | UpdateGc round

fun vote_step :: "vote_event \<Rightarrow> vote_tracker_state \<Rightarrow> vote_tracker_state option" where
  "vote_step (AddVoted b own) st = add_voted_block (b, own) st"
| "vote_step (UpdateGc g) st = Some (update_gc_round g st)"

text \<open>The blocks that were above the collected round when they were added.\<close>

fun counted_blocks :: "round \<Rightarrow> vote_event list \<Rightarrow> verified_block list" where
  "counted_blocks g [] = []"
| "counted_blocks g (AddVoted b own # es) = (if vb_round b \<le> g then [] else [b]) @ counted_blocks g es"
| "counted_blocks g (UpdateGc g' # es) = counted_blocks g' es"

fun gc_advances :: "round \<Rightarrow> vote_event list \<Rightarrow> bool" where
  "gc_advances g [] = True"
| "gc_advances g (AddVoted b own # es) = gc_advances g es"
| "gc_advances g (UpdateGc g' # es) \<longleftrightarrow> g \<le> g' \<and> gc_advances g' es"

fun event_blocks :: "vote_event list \<Rightarrow> verified_block set" where
  "event_blocks [] = {}"
| "event_blocks (AddVoted b own # es) = insert b (event_blocks es)"
| "event_blocks (UpdateGc g # es) = event_blocks es"

lemma vote_steps_inv:
  assumes "committee_wf c" and "vts_inv c bs st" and "gc_advances (vts_gc_round st) es"
    and "\<forall>b\<in>event_blocks es. vb_author b < committee_size c" and "inj_on reference (set bs \<union> event_blocks es)"
  shows "\<exists>st'. foldM vote_step es st = Some st' \<and> vts_inv c (bs @ counted_blocks (vts_gc_round st) es) st'"
  using assms(2-5)
proof (induction es arbitrary: bs st)
  case (Cons e es)
  show ?case
  proof (cases e)
    case (AddVoted b own)
    let ?bs = "if vb_round b \<le> vts_gc_round st then bs else bs @ [b]"
    have "inj_on reference (set (bs @ [b]))" by (rule inj_on_subset[OF Cons.prems(4)]) (auto simp: AddVoted)
    from add_voted_block_inv[OF assms(1) Cons.prems(1) this, of own] Cons.prems(3) obtain st1 where
      1: "add_voted_block (b, own) st = Some st1" "vts_gc_round st1 = vts_gc_round st" "vts_inv c ?bs st1" by (auto simp: AddVoted)
    have "inj_on reference (set ?bs \<union> event_blocks es)" by (rule inj_on_subset[OF Cons.prems(4)]) (auto simp: AddVoted)
    from Cons.IH[OF 1(3) _ _ this] Cons.prems(2,3) 1(1,2) show ?thesis by (auto simp: AddVoted split: if_splits)
  next
    case (UpdateGc g)
    from update_gc_round_inv[OF Cons.prems(1), of g] Cons.prems(2) have "vts_inv c bs (update_gc_round g st)" by (simp add: UpdateGc)
    from Cons.IH[OF this] Cons.prems(2-4) show ?thesis by (simp add: UpdateGc update_gc_round_def)
  qed
qed simp

text \<open>
  C15. Whatever the interleaving of received blocks and garbage collection, the reject votes read back for
  a block above the collected round are exact: a transaction is listed if and only if some counted
  block rejects it, each with the stake of the distinct authorities that reject it, and every counted block has an entry.
  No step panics.
\<close>

theorem reject_votes_exact:
  assumes "committee_wf c" and "cx_committee ctx = c" and "gc_advances 0 es"
    and "\<forall>b\<in>event_blocks es. vb_author b < committee_size c" and "inj_on reference (event_blocks es)"
  shows "\<exists>st. foldM vote_step es (vts_new ctx) = Some st \<and>
    (\<forall>r xs. get_reject_votes r st = Some xs \<longrightarrow> distinct (map fst xs) \<and>
       (\<forall>i s. (i, s) \<in> set xs \<longleftrightarrow> rejecters (counted_blocks 0 es) r i \<noteq> {} \<and> unat s = set_stake c (rejecters (counted_blocks 0 es) r i))) \<and>
    (\<forall>b\<in>set (counted_blocks 0 es). vts_gc_round st < vb_round b \<longrightarrow> get_reject_votes (reference b) st \<noteq> None)"
proof -
  have g: "vts_gc_round (vts_new ctx) = 0" by (simp add: vts_new_def GENESIS_ROUND_def)
  from vote_steps_inv[OF assms(1) vts_inv_new[of ctx, unfolded assms(2)], of es] assms(3-5) obtain st where
    st: "foldM vote_step es (vts_new ctx) = Some st" "vts_inv c (counted_blocks 0 es) st" by (auto simp: g)
  let ?R = "rejecters (counted_blocks 0 es)"
  have "distinct (map fst xs) \<and> (\<forall>i s. (i, s) \<in> set xs \<longleftrightarrow> ?R r i \<noteq> {} \<and> unat s = set_stake c (?R r i))"
    if "get_reject_votes r st = Some xs" for r xs
  proof -
    from that obtain info where info: "fmlookup (vts_votes st) r = Some info"
      "xs = map (\<lambda>(i, sa). (i, sa_stake sa)) (sorted_list_of_fmap (vi_reject_txn_votes info))" by (auto simp: get_reject_votes_def)
    have e: "entry_counts c (?R r) info" using st(2) info(1) unfolding vts_inv_def votes_count_def by (auto dest!: spec[of _ r])
    have "(i, s) \<in> set xs \<longleftrightarrow> (\<exists>sa. fmlookup (vi_reject_txn_votes info) i = Some sa \<and> s = sa_stake sa)" for i s
      unfolding set_sorted_list_of_fmap[symmetric] info(2) set_map by (auto intro: rev_image_eqI)
    then have "(i, s) \<in> set xs \<longleftrightarrow> ?R r i \<noteq> {} \<and> unat s = set_stake c (?R r i)" for i s
      using e[unfolded entry_counts_def, rule_format, of i] by (cases "fmlookup (vi_reject_txn_votes info) i") (auto simp: sa_inv_def word_unat_eq_iff)
    moreover have "map fst xs = sorted_list_of_fset (fmdom (vi_reject_txn_votes info))"
      by (simp add: info(2) sorted_list_of_fmap_def case_prod_unfold comp_def)
    ultimately show ?thesis by simp
  qed
  moreover have "get_reject_votes (reference b) st \<noteq> None" if "b \<in> set (counted_blocks 0 es)" "vts_gc_round st < vb_round b" for b
  proof -
    have "vi_block (vote_entry (reference b) (vts_votes st)) = Some b" using st(2) that by (simp add: vts_inv_def)
    then show ?thesis by (auto simp: get_reject_votes_def vote_entry_def vote_info_default_def split: option.splits)
  qed
  ultimately show ?thesis using st(1) by blast
qed

text \<open>Authority 1 and twice authority 2 reject transaction 7 of a block; another vote is below the collected round.\<close>

definition sample_rejecting :: "round \<Rightarrow> authority_index \<Rightarrow> block_transaction_votes list \<Rightarrow> verified_block" where
  "sample_rejecting r a votes = \<lparr>vb_block = \<lparr>sb_inner = V2 \<lparr>b2_epoch = 0, b2_round = r, b2_author = a, b2_timestamp_ms = 0,
     b2_ancestors = [], b2_transactions = [], b2_transaction_votes = votes,
     b2_commit_votes = [], b2_misbehavior_reports = []\<rparr>, sb_signature = []\<rparr>, vb_digest = 0, vb_serialized = []\<rparr>"

definition sample_target :: block_ref where
  "sample_target = BlockRef 4 0 0"

definition sample_events :: "vote_event list" where
  "sample_events = [AddVoted (sample_rejecting 4 0 []) [7],
     AddVoted (sample_rejecting 5 1 [\<lparr>btv_block_ref = sample_target, btv_rejects = [7, 9]\<rparr>]) [], UpdateGc 3,
     AddVoted (sample_rejecting 5 2 [\<lparr>btv_block_ref = sample_target, btv_rejects = [7]\<rparr>, \<lparr>btv_block_ref = BlockRef 2 0 0, btv_rejects = [1]\<rparr>]) [],
     AddVoted (sample_rejecting 6 2 [\<lparr>btv_block_ref = sample_target, btv_rejects = [7]\<rparr>]) []]"

theorem reject_votes_exact_witness:
  "\<exists>st. foldM vote_step sample_events (vts_new sample_context) = Some st \<and>
    get_reject_votes sample_target st = Some [(7, 2), (9, 1)] \<and> get_reject_votes (BlockRef 2 0 0) st = None \<and>
    (\<forall>i s. (i, s) \<in> set [(7, 2 :: stake), (9, 1)] \<longleftrightarrow> rejecters (counted_blocks 0 sample_events) sample_target i \<noteq> {} \<and>
       unat s = set_stake committee4 (rejecters (counted_blocks 0 sample_events) sample_target i))"
proof -
  have "map_option (\<lambda>st. (get_reject_votes sample_target st, get_reject_votes (BlockRef 2 0 0) st)) (foldM vote_step sample_events (vts_new sample_context))
      = Some (Some [(7, 2), (9, 1)], None)" by code_simp
  moreover have "inj_on reference (event_blocks sample_events)" "\<forall>b\<in>event_blocks sample_events. vb_author b < committee_size committee4"
    "gc_advances 0 sample_events"
    by (simp_all add: sample_events_def sample_rejecting_def reference_def vb_round_def vb_author_def)
  ultimately obtain st where st: "foldM vote_step sample_events (vts_new sample_context) = Some st"
      "get_reject_votes sample_target st = Some [(7, 2), (9, 1)]" "get_reject_votes (BlockRef 2 0 0) st = None"
      "\<forall>r xs. get_reject_votes r st = Some xs \<longrightarrow> distinct (map fst xs) \<and>
       (\<forall>i s. (i, s) \<in> set xs \<longleftrightarrow> rejecters (counted_blocks 0 sample_events) r i \<noteq> {} \<and>
          unat s = set_stake committee4 (rejecters (counted_blocks 0 sample_events) r i))"
    using reject_votes_exact[OF committee4_wf, of sample_context sample_events] by auto
  then show ?thesis using st(4)[rule_format, OF st(2)] by blast
qed

end
