(* ===== verification/Leader_Schedule_V3.thy ===== *)
theory Leader_Schedule_V3
  imports Leader_Schedule Dag_Invariant "HOL-Library.Sublist"
begin

text \<open>
  The incremental leader schedule (\<^verbatim>\<open>consensus/core/src/leader_schedule_v3.rs\<close>): a sliding window of scored
  commits with running totals per authority, the leaders it allows, and its recovery
  from the store by replaying recent commits. The seeded shuffle of the \<^verbatim>\<open>rand\<close> crate is
  an argument \<open>shuffle\<close>, a function of the 32-byte seed and the list; \<open>shuffle_ok\<close> says that it permutes.
  Of \<^verbatim>\<open>report_metrics\<close> only the checked multiplication, which may panic, is kept.
\<close>

subsection \<open>Data\<close>

definition MAX_PENDING_COMMITS :: nat where
  "MAX_PENDING_COMMITS = 3"

record scores_entry =
  se_commit_ref :: commit_ref
  se_score_contributions :: "u64 list"
  se_num_leaders :: nat
  se_leader_stakes :: u64

record next_commit_leader_schedule =
  ns_next_commit_index :: commit_index
  ns_min_next_leader_round :: round
  ns_allowed_leaders :: "authority_index list"

record leader_schedule_v3 =
  l3_context :: consensus_context
  l3_total_scores_per_authority :: "u64 list"
  l3_total_num_leaders :: nat
  l3_total_leader_stakes :: u64
  l3_pending_commits :: "committed_sub_dag list"
  l3_scores_entries :: "scores_entry list"
  l3_current_schedule :: next_commit_leader_schedule

type_synonym shuffle = "digest \<Rightarrow> (authority_index \<times> u64) list \<Rightarrow> (authority_index \<times> u64) list"

definition shuffle_ok :: "shuffle \<Rightarrow> bool" where
  "shuffle_ok sh \<longleftrightarrow> (\<forall>seed xs. mset (sh seed xs) = mset xs)"

definition next_commit_leader_schedule_default :: next_commit_leader_schedule where
  "next_commit_leader_schedule_default = \<lparr>ns_next_commit_index = 0, ns_min_next_leader_round = 0, ns_allowed_leaders = []\<rparr>"

definition num_leaders :: "next_commit_leader_schedule \<Rightarrow> nat" where
  "num_leaders ns = length (ns_allowed_leaders ns)"

abbreviation l3_window_size :: "leader_schedule_v3 \<Rightarrow> nat" where
  "l3_window_size l \<equiv> pc_leader_schedule_window_size (cx_protocol_config (l3_context l))"

abbreviation l3_committee :: "leader_schedule_v3 \<Rightarrow> committee" where
  "l3_committee l \<equiv> cx_committee (l3_context l)"

subsection \<open>The allowed leaders\<close>

definition next_commit_index :: "leader_schedule_v3 \<Rightarrow> commit_index" where
  "next_commit_index l = (case last_opt (l3_pending_commits l) of Some c \<Rightarrow> cr_index (csd_commit_ref c) | None \<Rightarrow> 0) + 1"

definition min_next_leader_round :: "leader_schedule_v3 \<Rightarrow> round" where
  "min_next_leader_round l = (case last_opt (l3_pending_commits l) of Some c \<Rightarrow> br_round (csd_leader c) | None \<Rightarrow> 0) + 1"

text \<open>The seed bytes as one word, most significant byte first, as for digests.\<close>

definition to_le_bytes :: "u64 \<Rightarrow> bytes" where
  "to_le_bytes x = map (\<lambda>i. ucast (drop_bit (8 * i) x)) [0..<8]"

definition word_of_bytes :: "bytes \<Rightarrow> digest" where
  "word_of_bytes = foldl (\<lambda>w b. push_bit 8 w + ucast b) 0"

definition epoch_seed :: "consensus_context \<Rightarrow> digest" where
  "epoch_seed ctx = word_of_bytes (to_le_bytes (of_nat (cx_epoch_start_timestamp_ms ctx)) @
     to_le_bytes (of_nat (c_epoch (cx_committee ctx))) @ replicate 16 0)"

text \<open>
  The loop that pops the entries with the lowest scores, on the list in reverse: it starts from the end of the vector.
\<close>

fun pop_bad_nodes :: "committee \<Rightarrow> u64 \<Rightarrow> (authority_index \<times> u64) list \<Rightarrow> u64 \<Rightarrow> (authority_index \<times> u64) list option" where
  "pop_bad_nodes c cutoff [] accumulated_bad_stake = Some []"
| "pop_bad_nodes c cutoff ((idx, score) # rest) accumulated_bad_stake = do {
     stake \<leftarrow> committee_stake c idx;
     if accumulated_bad_stake + stake > cutoff then Some ((idx, score) # rest)
     else pop_bad_nodes c cutoff rest (accumulated_bad_stake + stake)
   }"

definition select_allowed_leaders :: "shuffle \<Rightarrow> leader_schedule_v3 \<Rightarrow> authority_index list option" where
  "select_allowed_leaders sh l = do {
     let c = l3_committee l;
     by_score \<leftarrow> mapM (\<lambda>(i, score). do { a \<leftarrow> to_authority_index c i; Some (a, score) })
       (enumerate 0 (l3_total_scores_per_authority l));
     let seed = (case last_opt (l3_pending_commits l) of
         Some sd \<Rightarrow> cr_digest (csd_commit_ref sd)
       | None \<Rightarrow> epoch_seed (l3_context l));
     let by_score = sort_by_score_desc (sh seed by_score);
     let cutoff = (pc_bad_nodes_stake_threshold (cx_protocol_config (l3_context l)) * c_total_stake c) div 100;
     kept \<leftarrow> pop_bad_nodes c cutoff (rev by_score) 0;
     Some (map fst (rev kept))
   }"

definition compute_next_commit_leader_schedule :: "shuffle \<Rightarrow> leader_schedule_v3 \<Rightarrow> next_commit_leader_schedule option" where
  "compute_next_commit_leader_schedule sh l = do {
     allowed_leaders \<leftarrow> select_allowed_leaders sh l;
     Some \<lparr>ns_next_commit_index = next_commit_index l, ns_min_next_leader_round = min_next_leader_round l,
           ns_allowed_leaders = allowed_leaders\<rparr>
   }"

definition refresh_current_schedule :: "shuffle \<Rightarrow> leader_schedule_v3 \<Rightarrow> leader_schedule_v3 option" where
  "refresh_current_schedule sh l =
     (if pc_leader_schedule_update_interval (cx_protocol_config (l3_context l)) dvd (next_commit_index l - 1)
      then do {
        ns \<leftarrow> compute_next_commit_leader_schedule sh l;
        Some (l\<lparr>l3_current_schedule := ns\<rparr>)
      }
      else Some (l\<lparr>l3_current_schedule := (l3_current_schedule l)\<lparr>ns_next_commit_index := next_commit_index l,
                     ns_min_next_leader_round := min_next_leader_round l\<rparr>\<rparr>))"

definition l3_new :: "shuffle \<Rightarrow> consensus_context \<Rightarrow> u64 list \<Rightarrow> leader_schedule_v3 option" where
  "l3_new sh ctx total_scores_per_authority = do {
     assert_that (length total_scores_per_authority = committee_size (cx_committee ctx));
     let l = \<lparr>l3_context = ctx, l3_total_scores_per_authority = total_scores_per_authority, l3_total_num_leaders = 0,
              l3_total_leader_stakes = 0, l3_pending_commits = [], l3_scores_entries = [],
              l3_current_schedule = next_commit_leader_schedule_default\<rparr>;
     ns \<leftarrow> compute_next_commit_leader_schedule sh l;
     Some (l\<lparr>l3_current_schedule := ns\<rparr>)
   }"

subsection \<open>Scoring a commit\<close>

text \<open>Every commit up to and including the first one whose leader round is above \<open>upper\<close>; a panic when there is none.\<close>

fun scan_commits_until_leader_round_above :: "committed_sub_dag list \<Rightarrow> round \<Rightarrow> committed_sub_dag list option" where
  "scan_commits_until_leader_round_above [] upper = None"
| "scan_commits_until_leader_round_above (cmt # cmts) upper =
     (if br_round (csd_leader cmt) > upper then Some [cmt]
      else map_option (Cons cmt) (scan_commits_until_leader_round_above cmts upper))"

definition stake_sum :: "committee \<Rightarrow> authority_index list \<Rightarrow> u64 option" where
  "stake_sum c as = map_option sum_list (mapM (committee_stake c) as)"

definition blocks_at :: "round \<Rightarrow> committed_sub_dag list \<Rightarrow> verified_block list" where
  "blocks_at r cmts = filter (\<lambda>b. vb_round b = r) (concat (map csd_blocks cmts))"

definition group_by_author :: "verified_block list \<Rightarrow> (authority_index, verified_block list) fmap" where
  "group_by_author bs = fold (\<lambda>b m. fmupd (vb_author b)
     ((case fmlookup m (vb_author b) of Some xs \<Rightarrow> xs | None \<Rightarrow> []) @ [b]) m) bs fmempty"

text \<open>The body of the loop over the authorities with a block in the voting round.\<close>

definition score_authority ::
  "committee \<Rightarrow> block_ref fset \<Rightarrow> verified_block list \<Rightarrow> authority_index \<times> verified_block list \<Rightarrow> u64 list \<Rightarrow> u64 list option" where
  "score_authority c leader_refs certifying_blocks = (\<lambda>(a, voting_blocks) contributions.
     if length voting_blocks \<noteq> 1 then Some contributions
     else do {
       let voting_block = hd voting_blocks;
       let leader_authorities = fset_of_list (map br_author (filter (\<lambda>r. r |\<in>| leader_refs) (vb_ancestors voting_block)));
       voted_for_stake \<leftarrow> stake_sum c (sorted_list_of_fset leader_authorities);
       if voted_for_stake = 0 then Some contributions
       else do {
         let certifying_authorities = fset_of_list (map vb_author
           (filter (\<lambda>b. reference voting_block \<in> set (vb_ancestors b)) certifying_blocks));
         certified_by_stake \<leftarrow> stake_sum c (sorted_list_of_fset certifying_authorities);
         p \<leftarrow> checked_mul voted_for_stake certified_by_stake;
         vec_set contributions a p
       }
     })"

definition score_commit :: "committee \<Rightarrow> committed_sub_dag list \<Rightarrow> committed_sub_dag \<Rightarrow> scores_entry option" where
  "score_commit c pending cn = do {
     let c_minus_3 = pending ! 0;
     let c_minus_2 = pending ! 1;
     let c_minus_1 = pending ! 2;
     let leader_round = br_round (csd_leader c_minus_3);
     let vote_round = leader_round + 1;
     let certify_round = leader_round + 2;
     assert_that (br_round (csd_leader c_minus_3) < br_round (csd_leader c_minus_2) \<and>
       br_round (csd_leader c_minus_2) < br_round (csd_leader c_minus_1) \<and>
       br_round (csd_leader c_minus_1) < br_round (csd_leader cn));
     let leader_refs = fset_of_list (map reference (filter (\<lambda>b. vb_round b = leader_round) (csd_blocks c_minus_3)));
     assert_that (leader_refs \<noteq> {||});
     assert_that (csd_leader c_minus_3 |\<in>| leader_refs);
     voting_commits \<leftarrow> scan_commits_until_leader_round_above (drop 1 pending @ [cn]) vote_round;
     certifying_commits \<leftarrow> scan_commits_until_leader_round_above (drop 1 pending @ [cn]) certify_round;
     let voting_blocks_by_author = group_by_author (blocks_at vote_round voting_commits);
     let certifying_blocks = blocks_at certify_round certifying_commits;
     score_contributions \<leftarrow> foldM (score_authority c leader_refs certifying_blocks)
       (sorted_list_of_fmap voting_blocks_by_author) (replicate (committee_size c) 0);
     leader_stakes \<leftarrow> stake_sum c (map br_author (sorted_list_of_fset leader_refs));
     Some \<lparr>se_commit_ref = csd_commit_ref c_minus_3, se_score_contributions = score_contributions,
           se_num_leaders = length (sorted_list_of_fset leader_refs), se_leader_stakes = leader_stakes\<rparr>
   }"

subsection \<open>The window\<close>

definition subtract_entry :: "scores_entry \<Rightarrow> leader_schedule_v3 \<Rightarrow> leader_schedule_v3 option" where
  "subtract_entry e l = do {
     totals \<leftarrow> update_each checked_sub (se_score_contributions e) (l3_total_scores_per_authority l);
     assert_that (se_num_leaders e \<le> l3_total_num_leaders l);
     stakes \<leftarrow> checked_sub (l3_total_leader_stakes l) (se_leader_stakes e);
     Some (l\<lparr>l3_total_scores_per_authority := totals, l3_total_num_leaders := l3_total_num_leaders l - se_num_leaders e,
             l3_total_leader_stakes := stakes\<rparr>)
   }"

text \<open>The \<^verbatim>\<open>while\<close> loop that evicts the oldest entries; popping from an empty window panics.\<close>

fun evict_entries :: "nat \<Rightarrow> scores_entry list \<Rightarrow> leader_schedule_v3 \<Rightarrow> leader_schedule_v3 option" where
  "evict_entries window [] l = (if window = 0 then None else Some (l\<lparr>l3_scores_entries := []\<rparr>))"
| "evict_entries window (e # es) l =
     (if length (e # es) \<ge> window
      then do { l \<leftarrow> subtract_entry e l; evict_entries window es l }
      else Some (l\<lparr>l3_scores_entries := e # es\<rparr>))"

definition add_entry :: "scores_entry \<Rightarrow> leader_schedule_v3 \<Rightarrow> leader_schedule_v3 option" where
  "add_entry e l = do {
     totals \<leftarrow> update_each checked_add (se_score_contributions e) (l3_total_scores_per_authority l);
     stakes \<leftarrow> checked_add (l3_total_leader_stakes l) (se_leader_stakes e);
     Some (l\<lparr>l3_total_scores_per_authority := totals, l3_total_num_leaders := l3_total_num_leaders l + se_num_leaders e,
             l3_total_leader_stakes := stakes, l3_scores_entries := l3_scores_entries l @ [e]\<rparr>)
   }"

definition report_metrics :: "leader_schedule_v3 \<Rightarrow> unit option" where
  "report_metrics l =
     foldM (\<lambda>i _. do {
         a \<leftarrow> to_authority_index (l3_committee l) i;
         authority \<leftarrow> committee_authority (l3_committee l) a;
         if a_hostname authority = [] then Some ()
         else do { _ \<leftarrow> checked_mul (l3_total_leader_stakes l) (c_total_stake (l3_committee l)); Some () }
       }) [0..<length (l3_total_scores_per_authority l)] ()"

definition l3_add_commit :: "shuffle \<Rightarrow> committed_sub_dag \<Rightarrow> leader_schedule_v3 \<Rightarrow> leader_schedule_v3 option" where
  "l3_add_commit sh c l = do {
     _ \<leftarrow> (case last_opt (l3_pending_commits l) of
         Some lst \<Rightarrow> assert_that (cr_index (csd_commit_ref c) = cr_index (csd_commit_ref lst) + 1)
       | None \<Rightarrow> Some ());
     if length (l3_pending_commits l) < MAX_PENDING_COMMITS
     then do {
       l \<leftarrow> refresh_current_schedule sh (l\<lparr>l3_pending_commits := l3_pending_commits l @ [c]\<rparr>);
       _ \<leftarrow> report_metrics l;
       Some l
     }
     else do {
       e \<leftarrow> score_commit (l3_committee l) (l3_pending_commits l) c;
       l \<leftarrow> evict_entries (l3_window_size l) (l3_scores_entries l) l;
       l \<leftarrow> add_entry e l;
       l \<leftarrow> refresh_current_schedule sh (l\<lparr>l3_pending_commits := drop 1 (l3_pending_commits l) @ [c]\<rparr>);
       _ \<leftarrow> report_metrics l;
       Some l
     }
   }"

subsection \<open>Recovery\<close>

definition replay_start :: "consensus_context \<Rightarrow> commit_index \<Rightarrow> commit_index option" where
  "replay_start ctx last_commit_index = do {
     let window_size = pc_leader_schedule_window_size (cx_protocol_config ctx);
     let update_interval = pc_leader_schedule_update_interval (cx_protocol_config ctx);
     assert_that (update_interval \<noteq> 0);
     let last_schedule_update_index = (last_commit_index div update_interval) * update_interval + 1;
     Some (max (last_schedule_update_index - (window_size + MAX_PENDING_COMMITS)) 1)
   }"

definition l3_from_store :: "shuffle \<Rightarrow> consensus_context \<Rightarrow> dag_state \<Rightarrow> leader_schedule_v3 option" where
  "l3_from_store sh ctx ds = do {
     l \<leftarrow> l3_new sh ctx (replicate (committee_size (cx_committee ctx)) 0);
     let last_commit_index = ds_last_commit_index ds;
     if last_commit_index = 0 then Some l
     else do {
       start \<leftarrow> replay_start ctx last_commit_index;
       commits \<leftarrow> ms_scan_commits (ds_store ds) (commit_range_new start last_commit_index);
       foldM (\<lambda>tc l. do {
           subdag \<leftarrow> load_committed_subdag_from_store (ds_store ds) tc;
           l3_add_commit sh subdag l
         }) commits l
     }
   }"

definition current_reputation_scores :: "leader_schedule_v3 \<Rightarrow> reputation_scores option" where
  "current_reputation_scores l = do {
     let interval_size = pc_leader_schedule_update_interval (cx_protocol_config (l3_context l));
     assert_that (interval_size \<noteq> 0);
     let interval_num = (ns_next_commit_index (l3_current_schedule l) - 1) div interval_size;
     Some (reputation_scores_new (commit_range_new (interval_num * interval_size + 1) ((interval_num + 1) * interval_size))
       (l3_total_scores_per_authority l))
   }"

subsection \<open>The running totals\<close>

text \<open>The totals are the sums over the entries of the window.\<close>

definition window_sums :: "leader_schedule_v3 \<Rightarrow> bool" where
  "window_sums l \<longleftrightarrow>
     length (l3_total_scores_per_authority l) = committee_size (l3_committee l) \<and>
     (\<forall>e\<in>set (l3_scores_entries l). length (se_score_contributions e) = committee_size (l3_committee l)) \<and>
     (\<forall>i<committee_size (l3_committee l). unat (l3_total_scores_per_authority l ! i) =
        sum_list (map (\<lambda>e. unat (se_score_contributions e ! i)) (l3_scores_entries l))) \<and>
     unat (l3_total_leader_stakes l) = sum_list (map (\<lambda>e. unat (se_leader_stakes e)) (l3_scores_entries l)) \<and>
     l3_total_num_leaders l = sum_list (map se_num_leaders (l3_scores_entries l))"

lemma window_sums_unique:
  assumes "window_sums l" and "window_sums m" and "l3_context m = l3_context l" and "l3_scores_entries m = l3_scores_entries l"
  shows "l3_total_scores_per_authority m = l3_total_scores_per_authority l" and "l3_total_leader_stakes m = l3_total_leader_stakes l"
    and "l3_total_num_leaders m = l3_total_num_leaders l"
proof -
  show "l3_total_scores_per_authority m = l3_total_scores_per_authority l"
    using assms by (intro nth_equalityI) (simp_all add: window_sums_def word_unat_eq_iff)
  show "l3_total_leader_stakes m = l3_total_leader_stakes l" "l3_total_num_leaders m = l3_total_num_leaders l"
    using assms by (simp_all add: window_sums_def word_unat_eq_iff)
qed

lemma checked_add_Some: "checked_add a b = Some r \<longleftrightarrow> unat a + unat b < 2 ^ 64 \<and> r = a + b"
  by (auto simp: checked_add_def)

lemma unat_checked_add: "checked_add a b = Some r \<Longrightarrow> unat r = unat a + unat b"
  by (auto simp: checked_add_Some unat_add_u64)

lemma unat_checked_sub: "checked_sub a b = Some r \<Longrightarrow> unat r = unat a - unat b"
  by (auto simp: checked_sub_def unat_sub_u64 word_le_nat_alt split: if_splits)

lemma checked_mul_mono: "checked_mul a s = Some r \<Longrightarrow> unat a' \<le> unat a \<Longrightarrow> \<exists>r'. checked_mul a' s = Some r'"
proof -
  assume "checked_mul a s = Some r" "unat a' \<le> unat a"
  moreover from this(1) have "unat a * unat s < 2 ^ 64" by (simp add: checked_mul_def split: if_splits)
  ultimately have "unat a' * unat s < 2 ^ 64" by (rule_tac le_less_trans[OF mult_le_mono1])
  then show ?thesis by (simp add: checked_mul_def)
qed

lemma mapM_zip_total:
  assumes "length ys = length xs" and "\<And>i. i < length xs \<Longrightarrow> \<exists>z. g (ys ! i) (xs ! i) = Some z"
  shows "\<exists>zs. mapM (\<lambda>(y, x). g y x) (zip ys xs) = Some zs"
  by (rule mapM_ex) (use assms in \<open>auto simp: set_zip\<close>)

lemma mapM_zip_nth:
  assumes "mapM (\<lambda>(y, x). g y x) (zip ys xs) = Some zs" and "length ys = length xs"
  shows "length zs = length xs" and "i < length xs \<Longrightarrow> g (ys ! i) (xs ! i) = Some (zs ! i)"
proof -
  from assms(1) have l: "list_all2 (\<lambda>x y. (case x of (y, x) \<Rightarrow> g y x) = Some y) (zip ys xs) zs" by (simp add: mapM_Some_iff)
  show len: "length zs = length xs" using list_all2_lengthD[OF l] assms(2) by simp
  assume "i < length xs"
  then show "g (ys ! i) (xs ! i) = Some (zs ! i)" using list_all2_nthD2[OF l, of i] len assms(2) by simp
qed

text \<open>Only the entries, totals and pending commits of two states matter when they agree on the rest.\<close>

lemma subtract_entry_spec:
  assumes "window_sums (l\<lparr>l3_scores_entries := e # es\<rparr>)"
  shows "\<exists>l'. subtract_entry e l = Some l' \<and> window_sums (l'\<lparr>l3_scores_entries := es\<rparr>) \<and>
    l3_context l' = l3_context l \<and> l3_pending_commits l' = l3_pending_commits l \<and> l3_current_schedule l' = l3_current_schedule l"
proof -
  let ?n = "committee_size (l3_committee l)" and ?t = "l3_total_scores_per_authority l" and ?x = "se_score_contributions e"
  have w: "length ?t = ?n" "length ?x = ?n" "\<forall>x\<in>set es. length (se_score_contributions x) = ?n"
    "\<And>i. i < ?n \<Longrightarrow> unat (?t ! i) = unat (?x ! i) + sum_list (map (\<lambda>e. unat (se_score_contributions e ! i)) es)"
    "unat (l3_total_leader_stakes l) = unat (se_leader_stakes e) + sum_list (map (\<lambda>e. unat (se_leader_stakes e)) es)"
    "l3_total_num_leaders l = se_num_leaders e + sum_list (map se_num_leaders es)"
    using assms by (simp_all add: window_sums_def)
  have "\<exists>z. checked_sub (?t ! i) (?x ! i) = Some z" if "i < length ?x" for i
    using w(2) w(4)[of i] that by (simp add: checked_sub_def word_le_nat_alt)
  from mapM_zip_total[of ?t ?x checked_sub, OF _ this] w(1,2) obtain ts where
    ts: "mapM (\<lambda>(y, x). checked_sub y x) (zip ?t ?x) = Some ts" by auto
  note n = mapM_zip_nth[OF ts] 
  have "unat (ts ! i) = sum_list (map (\<lambda>e. unat (se_score_contributions e ! i)) es)" if "i < ?n" for i
    using unat_checked_sub[OF n(2)[of i]] w(1,2) w(4)[OF that] that by simp
  moreover obtain st where st: "checked_sub (l3_total_leader_stakes l) (se_leader_stakes e) = Some st"
    using w(5) by (simp add: checked_sub_def word_le_nat_alt)
  moreover have "unat st = sum_list (map (\<lambda>e. unat (se_leader_stakes e)) es)" using unat_checked_sub[OF st] w(5) by simp
  ultimately show ?thesis using w n(1)
    by (simp add: subtract_entry_def update_each_eq ts window_sums_def)
qed

lemma evict_entries_spec:
  assumes "window_sums (l\<lparr>l3_scores_entries := es\<rparr>)" and "0 < window"
  shows "\<exists>l'. evict_entries window es l = Some l' \<and> window_sums l' \<and> l3_scores_entries l' = drop (length es - (window - 1)) es \<and>
    l3_context l' = l3_context l \<and> l3_pending_commits l' = l3_pending_commits l \<and> l3_current_schedule l' = l3_current_schedule l"
  using assms(1)
proof (induction es arbitrary: l)
  case (Cons e es)
  show ?case
  proof (cases "window \<le> length (e # es)")
    case True
    from subtract_entry_spec[OF Cons.prems] obtain l1 where
      l1: "subtract_entry e l = Some l1" "window_sums (l1\<lparr>l3_scores_entries := es\<rparr>)"
        "l3_context l1 = l3_context l" "l3_pending_commits l1 = l3_pending_commits l" "l3_current_schedule l1 = l3_current_schedule l" by auto
    have "length (e # es) - (window - 1) = Suc (length es - (window - 1))" using True assms(2) by simp
    then show ?thesis using Cons.IH[OF l1(2)] l1 True by simp
  qed (use Cons.prems in simp)
qed (use assms(2) in simp)

lemma add_entry_spec:
  assumes "window_sums l" and "length (se_score_contributions e) = committee_size (l3_committee l)" and "add_entry e l = Some l'"
  shows "window_sums l'" and "l3_scores_entries l' = l3_scores_entries l @ [e]"
    and "l3_context l' = l3_context l" and "l3_pending_commits l' = l3_pending_commits l" and "l3_current_schedule l' = l3_current_schedule l"
proof -
  from assms(3) obtain ts st where r: "update_each checked_add (se_score_contributions e) (l3_total_scores_per_authority l) = Some ts"
      "checked_add (l3_total_leader_stakes l) (se_leader_stakes e) = Some st"
      "l' = l\<lparr>l3_total_scores_per_authority := ts, l3_total_num_leaders := l3_total_num_leaders l + se_num_leaders e,
             l3_total_leader_stakes := st, l3_scores_entries := l3_scores_entries l @ [e]\<rparr>"
    by (auto simp: add_entry_def panic_simps)
  have len: "length (l3_total_scores_per_authority l) = length (se_score_contributions e)" using assms(1,2) by (simp add: window_sums_def)
  have m: "mapM (\<lambda>(y, x). checked_add y x) (zip (l3_total_scores_per_authority l) (se_score_contributions e)) = Some ts"
    using r(1) len by (simp add: update_each_eq)
  note n = mapM_zip_nth[OF m len]
  have "unat (ts ! i) = unat (l3_total_scores_per_authority l ! i) + unat (se_score_contributions e ! i)"
    if "i < committee_size (l3_committee l)" for i
    using unat_checked_add[OF n(2)[of i]] that assms(2) by simp
  then show "window_sums l'" using assms(1,2) unat_checked_add[OF r(2)] n(1) by (simp add: window_sums_def r(3))
qed (use assms(3) in \<open>auto simp: add_entry_def panic_simps\<close>)

lemma add_entry_smaller:
  assumes "window_sums l" and "window_sums m" and "l3_context m = l3_context l" and "suffix (l3_scores_entries m) (l3_scores_entries l)"
    and "length (se_score_contributions e) = committee_size (l3_committee l)" and "add_entry e l = Some l'"
  shows "\<exists>m'. add_entry e m = Some m'"
proof -
  from assms(4) obtain pre where pre: "l3_scores_entries l = pre @ l3_scores_entries m" by (auto simp: suffix_def)
  from assms(6) obtain ts st where r: "update_each checked_add (se_score_contributions e) (l3_total_scores_per_authority l) = Some ts"
      "checked_add (l3_total_leader_stakes l) (se_leader_stakes e) = Some st" by (auto simp: add_entry_def panic_simps)
  have len: "length (l3_total_scores_per_authority l) = length (se_score_contributions e)"
    "length (l3_total_scores_per_authority m) = length (se_score_contributions e)" using assms(1-3,5) by (simp_all add: window_sums_def)
  have t: "mapM (\<lambda>(y, x). checked_add y x) (zip (l3_total_scores_per_authority l) (se_score_contributions e)) = Some ts"
    using r(1) len by (simp add: update_each_eq)
  have "\<exists>z. checked_add (l3_total_scores_per_authority m ! i) (se_score_contributions e ! i) = Some z"
    if i: "i < length (se_score_contributions e)" for i
  proof -
    have "unat (l3_total_scores_per_authority m ! i) \<le> unat (l3_total_scores_per_authority l ! i)"
      using assms(1-3,5) i pre by (simp add: window_sums_def)
    then show ?thesis using mapM_zip_nth(2)[OF t len(1) i] by (auto simp: checked_add_Some)
  qed
  from mapM_zip_total[of _ _ checked_add, OF len(2) this] obtain us where "update_each checked_add (se_score_contributions e) (l3_total_scores_per_authority m) = Some us"
    using len(2) by (auto simp: update_each_eq)
  moreover have "unat (l3_total_leader_stakes m) \<le> unat (l3_total_leader_stakes l)" using assms(1,2) pre by (simp add: window_sums_def)
  then have "checked_add (l3_total_leader_stakes m) (se_leader_stakes e) = Some (l3_total_leader_stakes m + se_leader_stakes e)"
    using conjunct1[OF r(2)[unfolded checked_add_Some]] by (simp add: checked_add_Some)
  ultimately show ?thesis by (simp add: add_entry_def)
qed

subsection \<open>Replay\<close>

definition advance_window :: "committed_sub_dag \<Rightarrow> leader_schedule_v3 \<Rightarrow> leader_schedule_v3 option" where
  "advance_window c l =
     (if length (l3_pending_commits l) < MAX_PENDING_COMMITS
      then Some (l\<lparr>l3_pending_commits := l3_pending_commits l @ [c]\<rparr>)
      else do {
        e \<leftarrow> score_commit (l3_committee l) (l3_pending_commits l) c;
        l \<leftarrow> evict_entries (l3_window_size l) (l3_scores_entries l) l;
        l \<leftarrow> add_entry e l;
        Some (l\<lparr>l3_pending_commits := drop 1 (l3_pending_commits l) @ [c]\<rparr>)
      })"

lemma l3_add_commit_steps: "l3_add_commit sh c l = do {
     _ \<leftarrow> (case last_opt (l3_pending_commits l) of
         Some lst \<Rightarrow> assert_that (cr_index (csd_commit_ref c) = cr_index (csd_commit_ref lst) + 1)
       | None \<Rightarrow> Some ());
     l \<leftarrow> advance_window c l;
     l \<leftarrow> refresh_current_schedule sh l;
     _ \<leftarrow> report_metrics l;
     Some l
   }"
  by (simp add: l3_add_commit_def advance_window_def)

lemma score_authorities_length:
  "foldM (score_authority c refs bs) m xs = Some ys \<Longrightarrow> length ys = length xs"
  by (rule foldM_inv[where P = "\<lambda>ys. length ys = length xs"])
    (auto simp: score_authority_def Let_def panic_simps split: if_splits)

lemma score_commit_length: "score_commit c pending cn = Some e \<Longrightarrow> length (se_score_contributions e) = committee_size c"
  unfolding score_commit_def Let_def by (elim bind_SomeE) (drule score_authorities_length, clarify, simp only: scores_entry.simps length_replicate)

text \<open>A state \<open>l\<close> after \<open>K\<close> commits and a state \<open>m\<close> that has only seen the last \<open>k\<close> of them.\<close>

definition follows :: "nat \<Rightarrow> nat \<Rightarrow> leader_schedule_v3 \<Rightarrow> leader_schedule_v3 \<Rightarrow> bool" where
  "follows K k l m \<longleftrightarrow> k \<le> K \<and> l3_context m = l3_context l \<and> window_sums l \<and> window_sums m \<and>
     suffix (l3_pending_commits m) (l3_pending_commits l) \<and> length (l3_pending_commits l) = min 3 K \<and> length (l3_pending_commits m) = min 3 k \<and>
     suffix (l3_scores_entries m) (l3_scores_entries l) \<and>
     length (l3_scores_entries l) = min (l3_window_size l) (K - 3) \<and> length (l3_scores_entries m) = min (l3_window_size l) (k - 3)"

lemma suffix_eq: "suffix xs ys \<Longrightarrow> length xs = length ys \<Longrightarrow> xs = ys"
  by (auto simp: suffix_def)

lemma window_length: "x = min w (k - 3) \<Longrightarrow> x - (x - (w - 1)) = min (w - 1) (k - (3 :: nat))"
  by (simp add: min_def) linarith

lemma window_length_Suc: "0 < w \<Longrightarrow> 3 \<le> k \<Longrightarrow> Suc (min (w - Suc 0) (k - 3)) = min w (k - (2 :: nat))"
  by (simp add: min_def) linarith

lemma suffix_drop_drop:
  assumes "suffix xs ys" and "length xs - a \<le> length ys - b"
  shows "suffix (drop a xs) (drop b ys)"
proof (rule suffix_length_suffix)
  show "suffix (drop a xs) ys" using suffix_drop[of a xs] assms(1) suffix_order.trans by blast
qed (use assms(2) suffix_drop in auto)

lemma advance_window_warm:
  "length (l3_pending_commits l) = min 3 K \<Longrightarrow> K < 3 \<Longrightarrow> advance_window c l = Some (l\<lparr>l3_pending_commits := l3_pending_commits l @ [c]\<rparr>)"
  by (simp add: advance_window_def MAX_PENDING_COMMITS_def)

lemma advance_window_full:
  assumes "window_sums l" and "length (l3_pending_commits l) = min 3 K" and "3 \<le> K" and "0 < l3_window_size l" and "advance_window c l = Some l'"
  shows "\<exists>e l1 l2. score_commit (l3_committee l) (l3_pending_commits l) c = Some e \<and> length (se_score_contributions e) = committee_size (l3_committee l) \<and>
    evict_entries (l3_window_size l) (l3_scores_entries l) l = Some l1 \<and> window_sums l1 \<and> l3_context l1 = l3_context l \<and>
    l3_scores_entries l1 = drop (length (l3_scores_entries l) - (l3_window_size l - 1)) (l3_scores_entries l) \<and>
    add_entry e l1 = Some l2 \<and> window_sums l' \<and> l3_context l' = l3_context l \<and> l3_current_schedule l' = l3_current_schedule l \<and>
    l3_scores_entries l' = l3_scores_entries l1 @ [e] \<and> l3_pending_commits l' = drop 1 (l3_pending_commits l) @ [c]"
proof -
  have ls: "l\<lparr>l3_scores_entries := l3_scores_entries l\<rparr> = l" by simp
  from evict_entries_spec[of "l3_scores_entries l" l, unfolded ls, OF assms(1,4)] obtain l1 where
    l1: "evict_entries (l3_window_size l) (l3_scores_entries l) l = Some l1" "window_sums l1"
      "l3_scores_entries l1 = drop (length (l3_scores_entries l) - (l3_window_size l - 1)) (l3_scores_entries l)"
      "l3_context l1 = l3_context l" "l3_pending_commits l1 = l3_pending_commits l" "l3_current_schedule l1 = l3_current_schedule l" by auto
  from assms(2,3,5) l1(1) obtain e l2 where e: "score_commit (l3_committee l) (l3_pending_commits l) c = Some e" "add_entry e l1 = Some l2"
      "l' = l2\<lparr>l3_pending_commits := drop 1 (l3_pending_commits l2) @ [c]\<rparr>"
    by (auto simp: advance_window_def MAX_PENDING_COMMITS_def panic_simps)
  have len: "length (se_score_contributions e) = committee_size (l3_committee l1)" using score_commit_length[OF e(1)] l1(4) by simp
  note a = add_entry_spec[OF l1(2) len e(2)]
  have "window_sums l'" using a(1) by (simp add: e(3) window_sums_def)
  then show ?thesis using l1 e a len by (intro exI[of _ e] exI[of _ l1] exI[of _ l2]) simp
qed

lemma advance_follows_warm:
  assumes f: "follows K k l m" and W: "0 < l3_window_size l" and s: "advance_window c l = Some l'" and k: "k < 3"
  shows "\<exists>m'. advance_window c m = Some m' \<and> follows (Suc K) (Suc k) l' m' \<and> l3_current_schedule l' = l3_current_schedule l \<and>
    (\<exists>p q. l3_pending_commits l' = p @ [c] \<and> l3_pending_commits m' = q @ [c])"
proof -
  let ?m = "m\<lparr>l3_pending_commits := l3_pending_commits m @ [c]\<rparr>"
  have m: "advance_window c m = Some ?m" using f k advance_window_warm[of m k c] by (simp add: follows_def)
  have em: "l3_scores_entries m = []" using f k by (simp add: follows_def)
  have wm: "window_sums ?m" using f by (simp add: follows_def window_sums_def)
  show ?thesis
  proof (cases "K < 3")
    case True
    then have "l' = l\<lparr>l3_pending_commits := l3_pending_commits l @ [c]\<rparr>" using f s advance_window_warm[of l K c] by (simp add: follows_def)
    moreover have "window_sums l'" using f calculation by (simp add: follows_def window_sums_def)
    ultimately show ?thesis using m em wm f True k by (intro exI[of _ ?m]) (auto simp: follows_def)
  next
    case False
    have fl: "window_sums l" "length (l3_pending_commits l) = min 3 K" "3 \<le> K" "length (l3_scores_entries l) = min (l3_window_size l) (K - 3)"
      using f False by (simp_all add: follows_def)
    from advance_window_full[OF fl(1-3) W s] obtain e and l1 :: leader_schedule_v3 where
      l': "l3_scores_entries l1 = drop (length (l3_scores_entries l) - (l3_window_size l - 1)) (l3_scores_entries l)" "window_sums l'"
        "l3_context l' = l3_context l" "l3_current_schedule l' = l3_current_schedule l" "l3_scores_entries l' = l3_scores_entries l1 @ [e]"
        "l3_pending_commits l' = drop 1 (l3_pending_commits l) @ [c]" by (elim exE conjE) (rule that)
    have "length (l3_scores_entries l1) = min (l3_window_size l - 1) (K - 3)" unfolding l'(1) length_drop by (rule window_length[OF fl(4)])
    moreover
    have "suffix (drop 0 (l3_pending_commits m)) (drop 1 (l3_pending_commits l))"
      by (rule suffix_drop_drop) (use f k False in \<open>auto simp: follows_def\<close>)
    ultimately show ?thesis using m em wm f l'(2-) False k W by (intro exI[of _ ?m]) (auto simp: follows_def)
  qed
qed

lemma advance_follows_full:
  assumes f: "follows K k l m" and W: "0 < l3_window_size l" and s: "advance_window c l = Some l'" and k: "3 \<le> k"
  shows "\<exists>m'. advance_window c m = Some m' \<and> follows (Suc K) (Suc k) l' m' \<and> l3_current_schedule l' = l3_current_schedule l \<and>
    (\<exists>p q. l3_pending_commits l' = p @ [c] \<and> l3_pending_commits m' = q @ [c])"
proof -
  let ?W = "l3_window_size l"
  have fl: "window_sums l" "length (l3_pending_commits l) = min 3 K" "3 \<le> K" "length (l3_scores_entries l) = min ?W (K - 3)"
    "window_sums m" "length (l3_pending_commits m) = min 3 k" "length (l3_scores_entries m) = min ?W (k - 3)" "l3_context m = l3_context l" "k \<le> K"
    "suffix (l3_scores_entries m) (l3_scores_entries l)"
    using f k by (simp_all add: follows_def)
  have p: "l3_pending_commits m = l3_pending_commits l" by (rule suffix_eq) (use f k in \<open>simp_all add: follows_def\<close>)
  from advance_window_full[OF fl(1-3) W s] obtain e l1 l2 where
    a: "score_commit (l3_committee l) (l3_pending_commits l) c = Some e" "length (se_score_contributions e) = committee_size (l3_committee l)"
      "window_sums l1" "l3_context l1 = l3_context l" "l3_scores_entries l1 = drop (length (l3_scores_entries l) - (?W - 1)) (l3_scores_entries l)"
      "add_entry e l1 = Some l2" "window_sums l'" "l3_context l' = l3_context l" "l3_current_schedule l' = l3_current_schedule l"
      "l3_scores_entries l' = l3_scores_entries l1 @ [e]" "l3_pending_commits l' = drop 1 (l3_pending_commits l) @ [c]"
    by (elim exE conjE) (rule that)
  have ms: "m\<lparr>l3_scores_entries := l3_scores_entries m\<rparr> = m" by simp
  from evict_entries_spec[of "l3_scores_entries m" m, unfolded ms, OF fl(5) W] obtain m1 where
    m1: "evict_entries ?W (l3_scores_entries m) m = Some m1" "window_sums m1"
      "l3_scores_entries m1 = drop (length (l3_scores_entries m) - (?W - 1)) (l3_scores_entries m)"
      "l3_context m1 = l3_context m" "l3_pending_commits m1 = l3_pending_commits m" by auto
  have sf: "suffix (l3_scores_entries m1) (l3_scores_entries l1)"
    unfolding a(5) m1(3) by (rule suffix_drop_drop) (use fl in \<open>auto simp: min_def\<close>)
  from add_entry_smaller[OF a(3) m1(2) _ sf _ a(6)] a(2,4) m1(4) fl(8) obtain m2 where m2: "add_entry e m1 = Some m2" by auto
  have len: "length (se_score_contributions e) = committee_size (l3_committee m1)" using a(2) m1(4) fl(8) by simp
  note b = add_entry_spec[OF m1(2) len m2]
  define m' where "m' = m2\<lparr>l3_pending_commits := drop 1 (l3_pending_commits m2) @ [c]\<rparr>"
  have "advance_window c m = Some m'"
    using fl(6,8) k p a(1) m1(1) m2 by (simp add: advance_window_def MAX_PENDING_COMMITS_def m'_def)
  moreover have "window_sums m'" using b(1) by (simp add: m'_def window_sums_def)
  moreover have "l3_context m' = l3_context l" "l3_scores_entries m' = l3_scores_entries m1 @ [e]" "l3_pending_commits m' = drop 1 (l3_pending_commits l) @ [c]"
    using b m1 fl(8) p by (simp_all add: m'_def)
  moreover have "length (l3_scores_entries l1) = min (?W - 1) (K - 3)" "length (l3_scores_entries m1) = min (?W - 1) (k - 3)"
    unfolding a(5) m1(3) length_drop by (rule window_length[OF fl(4)], rule window_length[OF fl(7)])
  ultimately show ?thesis using a(7-11) fl sf k W by (intro exI[of _ m']) (auto simp: follows_def window_length_Suc)
qed

lemma advance_follows:
  assumes "follows K k l m" and "0 < l3_window_size l" and "advance_window c l = Some l'"
  shows "\<exists>m'. advance_window c m = Some m' \<and> follows (Suc K) (Suc k) l' m' \<and> l3_current_schedule l' = l3_current_schedule l \<and>
    (\<exists>p q. l3_pending_commits l' = p @ [c] \<and> l3_pending_commits m' = q @ [c])"
  using advance_follows_warm[OF assms] advance_follows_full[OF assms] by (cases "k < 3") (simp_all add: not_less)

lemma advance_context:
  assumes "follows K k l m" and "0 < l3_window_size l" and "advance_window c l = Some l'"
  shows "l3_context l' = l3_context l"
proof (cases "K < 3")
  case True
  then show ?thesis using assms(1,3) advance_window_warm[of l K c] by (auto simp: follows_def)
next
  case False
  then have "window_sums l" "length (l3_pending_commits l) = min 3 K" "3 \<le> K" using assms(1) by (simp_all add: follows_def)
  from advance_window_full[OF this assms(2,3)] show ?thesis by (elim exE conjE)
qed

text \<open>Choosing the allowed leaders never panics.\<close>

lemma pop_bad_nodes_total: "\<forall>x\<in>set xs. fst x < committee_size c \<Longrightarrow> \<exists>ys. pop_bad_nodes c cutoff xs acc = Some ys"
  by (induction xs arbitrary: acc) (auto simp: committee_stake_def committee_size_def)

lemma select_total:
  assumes "shuffle_ok sh" and "length (l3_total_scores_per_authority l) = committee_size (l3_committee l)"
  shows "\<exists>as. select_allowed_leaders sh l = Some as"
proof -
  let ?e = "enumerate 0 (l3_total_scores_per_authority l)"
  have i: "fst x < committee_size (l3_committee l)" if "x \<in> set ?e" for x
    using that assms(2) by (auto simp: in_set_enumerate_eq)
  then have m: "mapM (\<lambda>(i, score). do { a \<leftarrow> to_authority_index (l3_committee l) i; Some (a, score) }) ?e = Some (map id ?e)"
    by (intro mapM_total) (auto simp: to_authority_index_def committee_size_def)
  have "set (sh seed ?e) = set ?e" for seed using assms(1) by (metis shuffle_ok_def mset_eq_setD)
  then have "\<forall>x\<in>set (rev (sort_by_score_desc (sh seed ?e))). fst x < committee_size (l3_committee l)" for seed
    using i by (simp add: sort_by_score_desc_def)
  from pop_bad_nodes_total[OF this] have
    "\<exists>ys. pop_bad_nodes (l3_committee l) cutoff (rev (sort_by_score_desc (sh seed ?e))) 0 = Some ys" for cutoff seed by blast
  then show ?thesis unfolding select_allowed_leaders_def Let_def m bind.bind_lunit list.map_id by (metis bind.bind_lunit)
qed

lemma refresh_total:
  assumes "shuffle_ok sh" and "window_sums l"
  shows "\<exists>ns. refresh_current_schedule sh l = Some (l\<lparr>l3_current_schedule := ns\<rparr>)"
  using select_total[OF assms(1), of l] assms(2)
  by (auto simp: refresh_current_schedule_def compute_next_commit_leader_schedule_def window_sums_def)

lemma foldM_unit: "foldM (\<lambda>i _. f i) is () = Some () \<longleftrightarrow> (\<forall>i\<in>set is. f i = Some ())"
  by (induction "is") (auto simp: bind_Some_iff)

lemma report_metrics_smaller:
  assumes "report_metrics l = Some ()" and "follows K k l m"
  shows "report_metrics m = Some ()"
proof -
  from assms(2) obtain pre where "l3_scores_entries l = pre @ l3_scores_entries m" by (auto simp: follows_def suffix_def)
  then have "unat (l3_total_leader_stakes m) \<le> unat (l3_total_leader_stakes l)" using assms(2) by (simp add: follows_def window_sums_def)
  note mono = checked_mul_mono[OF _ this]
  have eq: "length (l3_total_scores_per_authority m) = length (l3_total_scores_per_authority l)" "l3_context m = l3_context l"
    using assms(2) by (simp_all add: follows_def window_sums_def)
  have "(do { a \<leftarrow> to_authority_index (l3_committee l) i; authority \<leftarrow> committee_authority (l3_committee l) a;
         if a_hostname authority = [] then Some () else do { _ \<leftarrow> checked_mul (l3_total_leader_stakes m) (c_total_stake (l3_committee l)); Some () } }) = Some ()"
    if "(do { a \<leftarrow> to_authority_index (l3_committee l) i; authority \<leftarrow> committee_authority (l3_committee l) a;
         if a_hostname authority = [] then Some () else do { _ \<leftarrow> checked_mul (l3_total_leader_stakes l) (c_total_stake (l3_committee l)); Some () } }) = Some ()" for i
    using that by (elim bind_SomeE) (auto split: if_splits elim!: bind_SomeE dest: mono)
  then show ?thesis using assms(1) unfolding report_metrics_def foldM_unit eq by blast
qed

lemma add_commit_follows:
  assumes f: "follows K k l m" and W: "0 < l3_window_size l" and sh: "shuffle_ok sh" and s: "l3_add_commit sh c l = Some l'"
  shows "\<exists>m'. l3_add_commit sh c m = Some m' \<and> follows (Suc K) (Suc k) l' m' \<and> l3_context l' = l3_context l \<and>
    (l3_window_size l + 3 \<le> Suc k \<and> pc_leader_schedule_update_interval (cx_protocol_config (l3_context l)) dvd cr_index (csd_commit_ref c) \<longrightarrow> m' = l')"
proof -
  let ?check = "\<lambda>l. case last_opt (l3_pending_commits l) of
         Some lst \<Rightarrow> assert_that (cr_index (csd_commit_ref c) = cr_index (csd_commit_ref lst) + 1) | None \<Rightarrow> Some ()"
  from s obtain l1 where l1: "?check l = Some ()" "advance_window c l = Some l1" "refresh_current_schedule sh l1 = Some l'" "report_metrics l' = Some ()"
    unfolding l3_add_commit_steps by (auto simp: bind_Some_iff)
  from advance_follows[OF f W l1(2)] obtain m1 p q where m1: "advance_window c m = Some m1" "follows (Suc K) (Suc k) l1 m1"
      "l3_pending_commits l1 = p @ [c]" "l3_pending_commits m1 = q @ [c]" by auto
  have ws: "window_sums l1" "window_sums m1" "l3_context m1 = l3_context l1" using m1(2) by (simp_all add: follows_def)
  from refresh_total[OF sh ws(1)] refresh_total[OF sh ws(2)] obtain ns ns' where
    r: "l' = l1\<lparr>l3_current_schedule := ns\<rparr>" "refresh_current_schedule sh m1 = Some (m1\<lparr>l3_current_schedule := ns'\<rparr>)" using l1(3) by auto
  let ?m = "m1\<lparr>l3_current_schedule := ns'\<rparr>"
  have f': "follows (Suc K) (Suc k) l' ?m" using m1(2) by (simp add: follows_def window_sums_def r(1))
  have "?check m = Some ()"
  proof (cases "l3_pending_commits m = []")
    case False
    from f obtain pre where "l3_pending_commits l = pre @ l3_pending_commits m" by (auto simp: follows_def suffix_def)
    then show ?thesis using l1(1) False by (simp add: last_opt_def)
  qed (simp add: last_opt_def)
  then have "l3_add_commit sh c m = Some ?m"
    unfolding l3_add_commit_steps using m1(1) r(2) report_metrics_smaller[OF l1(4) f'] by simp
  moreover have "?m = l'" if k: "l3_window_size l + 3 \<le> Suc k" and i: "pc_leader_schedule_update_interval (cx_protocol_config (l3_context l)) dvd cr_index (csd_commit_ref c)"
  proof -
    have cl: "l3_context l1 = l3_context l" using advance_context[OF f W l1(2)] .
    have "k \<le> K" using f by (simp add: follows_def)
    then have e: "l3_pending_commits m1 = l3_pending_commits l1" "l3_scores_entries m1 = l3_scores_entries l1"
      by (rule_tac suffix_eq; use m1(2) k cl in \<open>simp add: follows_def min_absorb1\<close>)+
    note t = window_sums_unique[OF ws(1,2,3) e(2)]
    have eq: "m1\<lparr>l3_current_schedule := ns\<rparr> = l1\<lparr>l3_current_schedule := ns\<rparr>" for ns using e t ws(3) by simp
    have same: "compute_next_commit_leader_schedule sh m1 = compute_next_commit_leader_schedule sh l1"
      unfolding compute_next_commit_leader_schedule_def select_allowed_leaders_def next_commit_index_def min_next_leader_round_def e t ws(3) ..
    have ix: "next_commit_index l1 - 1 = cr_index (csd_commit_ref c)" "next_commit_index m1 - 1 = cr_index (csd_commit_ref c)"
      by (simp_all add: next_commit_index_def m1(3,4) last_opt_def)
    have "refresh_current_schedule sh m1 = refresh_current_schedule sh l1"
      unfolding refresh_current_schedule_def ws(3) cl ix same eq using i by simp
    then show ?thesis using l1(3) r(2) by simp
  qed
  ultimately show ?thesis using f' advance_context[OF f W l1(2)] r(1) by (intro exI[of _ ?m]) simp
qed

lemma add_commits_follow:
  assumes "follows K k l m" and "0 < l3_window_size l" and "shuffle_ok sh" and "foldM (l3_add_commit sh) cs l = Some l'"
  shows "\<exists>m'. foldM (l3_add_commit sh) cs m = Some m' \<and> follows (K + length cs) (k + length cs) l' m' \<and> l3_context l' = l3_context l"
  using assms(1,2,4)
proof (induction cs arbitrary: K k l m)
  case (Cons c cs)
  from Cons.prems(3) obtain l1 where l1: "l3_add_commit sh c l = Some l1" "foldM (l3_add_commit sh) cs l1 = Some l'" by (auto simp: bind_Some_iff)
  from add_commit_follows[OF Cons.prems(1,2) assms(3) l1(1)] obtain m1 where
    m1: "l3_add_commit sh c m = Some m1" "follows (Suc K) (Suc k) l1 m1" "l3_context l1 = l3_context l" by auto
  from Cons.IH[OF m1(2) _ l1(2)] Cons.prems(2) m1(1,3) show ?case by auto
qed simp

lemma follows_new:
  assumes "l3_new sh ctx (replicate (committee_size (cx_committee ctx)) 0) = Some l"
  shows "l3_context l = ctx" and "l3_pending_commits l = []" and "l3_scores_entries l = []" and "window_sums l"
  using assms by (auto simp: l3_new_def bind_Some_iff window_sums_def Let_def)

text \<open>
  Replaying the commits from \<^verbatim>\<open>replay_start\<close> gives the state that processing all of them gives.
\<close>

lemma replay_suffix:
  assumes sh: "shuffle_ok sh" and W: "0 < pc_leader_schedule_window_size (cx_protocol_config ctx)"
    and ix: "\<forall>i<length cs. cr_index (csd_commit_ref (cs ! i)) = Suc i"
    and new: "l3_new sh ctx (replicate (committee_size (cx_committee ctx)) 0) = Some l0"
    and live: "foldM (l3_add_commit sh) cs l0 = Some l" and st: "replay_start ctx (length cs) = Some s"
  shows "foldM (l3_add_commit sh) (drop (s - 1) cs) l0 = Some l"
proof (cases "s = 1")
  case False
  let ?W = "pc_leader_schedule_window_size (cx_protocol_config ctx)" and ?I = "pc_leader_schedule_update_interval (cx_protocol_config ctx)"
  define u where "u = (length cs div ?I) * ?I"
  have I: "?I \<noteq> 0" and s: "s = u + 1 - (?W + 3)" "?W + 3 \<le> u" "1 < s" using st False
    by (auto simp: replay_start_def Let_def MAX_PENDING_COMMITS_def u_def bind_Some_iff max_def split: if_splits)
  have u: "u \<le> length cs" by (simp add: u_def)
  define A B b C where "A = take (s - 1) cs" and "B = take (?W + 2) (drop (s - 1) cs)" and "b = cs ! (u - 1)" and "C = drop u cs"
  have sp: "s - 1 + (?W + 2) = u - 1" "u - 1 < length cs" using s u W by auto
  then have "drop (s - 1) cs = B @ drop (u - 1) cs" unfolding B_def by (metis append_take_drop_id drop_drop add.commute)
  moreover have "drop (u - 1) cs = b # C" using sp(2) s(2) W unfolding b_def C_def by (metis Cons_nth_drop_Suc Suc_pred' add_gr_0 less_le_trans)
  ultimately have D: "drop (s - 1) cs = B @ b # C" by simp
  then have "cs = A @ B @ b # C" unfolding A_def by (metis append_take_drop_id)
  with live obtain lA lB lb where l: "foldM (l3_add_commit sh) A l0 = Some lA" "foldM (l3_add_commit sh) B lA = Some lB"
      "l3_add_commit sh b lB = Some lb" "foldM (l3_add_commit sh) C lb = Some l" by (auto simp: foldM_append bind_Some_iff)
  note n = follows_new[OF new]
  have "follows 0 0 l0 l0" using n by (simp add: follows_def)
  from add_commits_follow[OF this _ sh l(1)] W n(1) l(1) have fA: "follows (length A) (length A) lA lA" "l3_context lA = ctx" by auto
  then have "follows (length A) 0 lA l0" using n by (simp add: follows_def)
  from add_commits_follow[OF this _ sh l(2)] W fA(2) obtain mB where
    mB: "foldM (l3_add_commit sh) B l0 = Some mB" "follows (length A + length B) (length B) lB mB" "l3_context lB = ctx" by auto
  have "length B = ?W + 2" using sp by (simp add: B_def)
  moreover have "cr_index (csd_commit_ref b) = u" using ix sp(2) s(2) by (simp add: b_def)
  then have "?I dvd cr_index (csd_commit_ref b)" by (simp add: u_def)
  ultimately have "l3_add_commit sh b mB = Some lb" using add_commit_follows[OF mB(2) _ sh l(3)] W mB(3) by auto
  then show ?thesis unfolding D using mB(1) l(4) by (simp add: foldM_append)
qed (use live in simp)

subsection \<open>The flags of a recovered commit do not matter\<close>

definition strip :: "committed_sub_dag \<Rightarrow> committed_sub_dag" where
  "strip c = committed_sub_dag_new (csd_leader c) (csd_blocks c) 0 (csd_commit_ref c)"

definition strip_pending :: "leader_schedule_v3 \<Rightarrow> leader_schedule_v3" where
  "strip_pending l = l\<lparr>l3_pending_commits := map strip (l3_pending_commits l)\<rparr>"

lemma strip_sel [simp]: "csd_leader (strip c) = csd_leader c" "csd_blocks (strip c) = csd_blocks c" "csd_commit_ref (strip c) = csd_commit_ref c"
  by (simp_all add: strip_def committed_sub_dag_new_def)

lemma strip_pending_sel [simp]:
  "l3_context (strip_pending l) = l3_context l" "l3_total_scores_per_authority (strip_pending l) = l3_total_scores_per_authority l"
  "l3_total_leader_stakes (strip_pending l) = l3_total_leader_stakes l" "l3_total_num_leaders (strip_pending l) = l3_total_num_leaders l"
  "l3_scores_entries (strip_pending l) = l3_scores_entries l" "l3_current_schedule (strip_pending l) = l3_current_schedule l"
  "l3_pending_commits (strip_pending l) = map strip (l3_pending_commits l)"
  by (simp_all add: strip_pending_def)

lemma last_opt_map [simp]: "last_opt (map f xs) = map_option f (last_opt xs)"
  by (simp add: last_opt_def last_map)

lemma scan_strip: "scan_commits_until_leader_round_above (map strip xs) u = map_option (map strip) (scan_commits_until_leader_round_above xs u)"
  by (induction xs) (simp_all add: option.map_comp comp_def)

lemma blocks_at_strip [simp]: "blocks_at r (map strip xs) = blocks_at r xs"
  by (simp add: blocks_at_def comp_def)

lemma bind_map_option: "Option.bind (map_option f x) g = Option.bind x (\<lambda>y. g (f y))"
  by (cases x) simp_all

lemma score_commit_strip: "length p = 3 \<Longrightarrow> score_commit c (map strip p) (strip cn) = score_commit c p cn"
proof -
  assume p: "length p = 3"
  have d: "drop 1 (map strip p) @ [strip cn] = map strip (drop 1 p @ [cn])" by (simp add: drop_map)
  have n: "map strip p ! 0 = strip (p ! 0)" "map strip p ! 1 = strip (p ! 1)" "map strip p ! 2 = strip (p ! 2)" using p by simp_all
  show ?thesis unfolding score_commit_def Let_def d n scan_strip bind_map_option blocks_at_strip strip_sel ..
qed

lemma subtract_strip: "subtract_entry e (strip_pending l) = map_option strip_pending (subtract_entry e l)"
  by (cases "update_each checked_sub (se_score_contributions e) (l3_total_scores_per_authority l)";
      cases "se_num_leaders e \<le> l3_total_num_leaders l"; cases "checked_sub (l3_total_leader_stakes l) (se_leader_stakes e)")
    (simp_all add: subtract_entry_def strip_pending_def assert_that_def)

lemma evict_strip: "evict_entries w es (strip_pending l) = map_option strip_pending (evict_entries w es l)"
proof (induction es arbitrary: l)
  case Nil
  then show ?case by (simp add: strip_pending_def)
next
  case (Cons e es)
  have "(strip_pending l)\<lparr>l3_scores_entries := e # es\<rparr> = strip_pending (l\<lparr>l3_scores_entries := e # es\<rparr>)" by (simp add: strip_pending_def)
  then show ?case using Cons by (cases "subtract_entry e l") (simp_all add: subtract_strip)
qed

lemma add_entry_strip: "add_entry e (strip_pending l) = map_option strip_pending (add_entry e l)"
  by (cases "update_each checked_add (se_score_contributions e) (l3_total_scores_per_authority l)";
      cases "checked_add (l3_total_leader_stakes l) (se_leader_stakes e)")
    (simp_all add: add_entry_def strip_pending_def)

lemma refresh_strip: "refresh_current_schedule sh (strip_pending l) = map_option strip_pending (refresh_current_schedule sh l)"
proof -
  have ix: "next_commit_index (strip_pending l) = next_commit_index l" "min_next_leader_round (strip_pending l) = min_next_leader_round l"
    by (cases "last_opt (l3_pending_commits l)"; simp add: next_commit_index_def min_next_leader_round_def)+
  have "compute_next_commit_leader_schedule sh (strip_pending l) = compute_next_commit_leader_schedule sh l"
    by (cases "last_opt (l3_pending_commits l)") (simp_all add: compute_next_commit_leader_schedule_def ix select_allowed_leaders_def Let_def)
  moreover have "(strip_pending l)\<lparr>l3_current_schedule := ns\<rparr> = strip_pending (l\<lparr>l3_current_schedule := ns\<rparr>)" for ns
    by (rule leader_schedule_v3.equality) (simp_all add: strip_pending_def)
  ultimately show ?thesis
    by (cases "compute_next_commit_leader_schedule sh l") (simp_all add: refresh_current_schedule_def ix)
qed

lemma report_strip: "report_metrics (strip_pending l) = report_metrics l"
  by (simp only: report_metrics_def strip_pending_sel)

lemma advance_strip:
  assumes "length (l3_pending_commits l) \<le> 3"
  shows "advance_window (strip c) (strip_pending l) = map_option strip_pending (advance_window c l)"
proof (cases "length (l3_pending_commits l) < 3")
  case True
  then show ?thesis by (simp add: advance_window_def MAX_PENDING_COMMITS_def strip_pending_def)
next
  case False
  then have "length (l3_pending_commits l) = 3" using assms by simp
  then show ?thesis
    by (simp add: advance_window_def MAX_PENDING_COMMITS_def score_commit_strip evict_strip bind_map_option add_entry_strip map_option_bind comp_def)
      (simp add: strip_pending_def drop_map)
qed

lemma add_commit_strip:
  assumes "length (l3_pending_commits l) \<le> 3"
  shows "l3_add_commit sh (strip c) (strip_pending l) = map_option strip_pending (l3_add_commit sh c l)"
  by (cases "last_opt (l3_pending_commits l)")
    (simp_all add: l3_add_commit_steps advance_strip[OF assms] bind_map_option refresh_strip report_strip map_option_bind comp_def)

lemma add_commit_pending: "l3_add_commit sh c l = Some l' \<Longrightarrow> length (l3_pending_commits l) \<le> 3 \<Longrightarrow> length (l3_pending_commits l') \<le> 3"
proof -
  assume a: "l3_add_commit sh c l = Some l'" and l: "length (l3_pending_commits l) \<le> 3"
  have e: "evict_entries w es l1 = Some l2 \<Longrightarrow> l3_pending_commits l2 = l3_pending_commits l1" for w es l1 l2
    by (induction es arbitrary: l1) (auto simp: subtract_entry_def bind_Some_iff split: if_splits)
  have r: "refresh_current_schedule sh l1 = Some l2 \<Longrightarrow> l3_pending_commits l2 = l3_pending_commits l1" for l1 l2
    by (auto simp: refresh_current_schedule_def bind_Some_iff split: if_splits)
  from a obtain l1 where l1: "advance_window c l = Some l1" "refresh_current_schedule sh l1 = Some l'"
    by (auto simp: l3_add_commit_steps bind_Some_iff)
  then have "length (l3_pending_commits l1) \<le> 3" using l
    by (auto simp: advance_window_def MAX_PENDING_COMMITS_def add_entry_def bind_Some_iff split: if_splits dest!: e)
  with r[OF l1(2)] show ?thesis by simp
qed

lemma add_commits_strip:
  assumes "length (l3_pending_commits l) \<le> 3"
  shows "foldM (l3_add_commit sh) (map strip cs) (strip_pending l) = map_option strip_pending (foldM (l3_add_commit sh) cs l)"
  using assms
proof (induction cs arbitrary: l)
  case (Cons c cs)
  show ?case
  proof (cases "l3_add_commit sh c l")
    case (Some l')
    then show ?thesis using Cons.IH[of l'] add_commit_pending[OF Some Cons.prems] add_commit_strip[OF Cons.prems, of sh c] by simp
  qed (use add_commit_strip[OF Cons.prems, of sh c] in simp)
qed simp

subsection \<open>Properties\<close>

text \<open>A store that holds exactly the commits of a list, one per index from 1.\<close>

definition stored_commits :: "mem_store \<Rightarrow> trusted_commit list \<Rightarrow> bool" where
  "stored_commits ms tcs \<longleftrightarrow>
     sorted_list_of_fmap (ms_commits ms) = map (\<lambda>tc. ((tcm_index tc, tcm_digest tc), tc)) tcs \<and>
     map tcm_index tcs = [1..<Suc (length tcs)]"

lemma stored_commits_index: "stored_commits ms tcs \<Longrightarrow> i < length tcs \<Longrightarrow> tcm_index (tcs ! i) = Suc i"
proof -
  assume "stored_commits ms tcs" and i: "i < length tcs"
  then have "map tcm_index tcs ! i = [1..<Suc (length tcs)] ! i" by (simp only: stored_commits_def)
  then show ?thesis using i by (simp del: upt_Suc)
qed

lemma scan_stored_commits:
  assumes "stored_commits ms tcs" and "1 \<le> s" and "s \<le> length tcs" and "length tcs < u32_max"
  shows "ms_scan_commits ms (commit_range_new s (length tcs)) = Some (drop (s - 1) tcs)"
proof -
  let ?n = "length tcs"
  note ix = stored_commits_index[OF assms(1)]
  have dig: "d \<le> digest_max" for d :: digest by (simp add: digest_max_def)
  have in_range: "tcm_index tc \<le> ?n" if "tc \<in> set tcs" for tc using that ix by (auto simp: in_set_conv_nth)
  let ?P = "\<lambda>x :: (commit_index \<times> digest) \<times> trusted_commit. (s, 0) \<le> fst x \<and> fst x \<le> (?n, digest_max)"
  have "ms_scan_commits ms (commit_range_new s ?n) = Some (map snd (filter ?P (sorted_list_of_fmap (ms_commits ms))))"
    using assms(3,4) dig by (auto simp: ms_scan_commits_def range_incl_incl_def commit_range_new_def commit_range_end_def u32_saturating_add_def less_eq_prod_def)
  also have "map snd (filter ?P (sorted_list_of_fmap (ms_commits ms))) = filter (\<lambda>tc. s \<le> tcm_index tc) tcs"
    using assms(1) in_range dig by (auto simp: stored_commits_def filter_map comp_def less_eq_prod_def intro!: filter_cong)
  also have "\<dots> = filter (\<lambda>tc. s \<le> tcm_index tc) (take (s - 1) tcs) @ filter (\<lambda>tc. s \<le> tcm_index tc) (drop (s - 1) tcs)"
    by (metis append_take_drop_id filter_append)
  also have "filter (\<lambda>tc. s \<le> tcm_index tc) (take (s - 1) tcs) = []" using ix assms(2,3) by (auto simp: filter_empty_conv in_set_conv_nth)
  also have "filter (\<lambda>tc. s \<le> tcm_index tc) (drop (s - 1) tcs) = drop (s - 1) tcs" using ix assms(2,3) by (auto simp: filter_id_conv in_set_conv_nth)
  finally show ?thesis by simp
qed

lemma foldM_mapM: "mapM f xs = Some ys \<Longrightarrow> foldM (\<lambda>x s. Option.bind (f x) (\<lambda>y. g y s)) xs s = foldM g ys s"
  by (induction xs arbitrary: ys s) (auto simp: bind_Some_iff intro!: Option.bind_cong)

lemma mapM_drop: "mapM f xs = Some ys \<Longrightarrow> mapM f (drop n xs) = Some (drop n ys)"
  by (auto simp: mapM_Some_iff)

lemma load_commit_ref: "load_committed_subdag_from_store ms tc = Some sd \<Longrightarrow> csd_commit_ref sd = tcm_reference tc"
  by (auto simp: load_committed_subdag_from_store_def committed_sub_dag_new_def Let_def bind_Some_iff split: option.splits)

lemma from_store_replays:
  assumes sh: "shuffle_ok sh" and W: "0 < pc_leader_schedule_window_size (cx_protocol_config ctx)"
    and I: "0 < pc_leader_schedule_update_interval (cx_protocol_config ctx)"
    and st: "stored_commits (ds_store ds) tcs" "length tcs < u32_max" "ds_last_commit_index ds = length tcs"
    and ld: "mapM (load_committed_subdag_from_store (ds_store ds)) tcs = Some sds"
    and new: "l3_new sh ctx (replicate (committee_size (cx_committee ctx)) 0) = Some l0" and live: "foldM (l3_add_commit sh) sds l0 = Some l"
  shows "l3_from_store sh ctx ds = Some l"
proof (cases "tcs = []")
  case False
  have la: "list_all2 (\<lambda>tc sd. load_committed_subdag_from_store (ds_store ds) tc = Some sd) tcs sds" using ld by (simp add: mapM_Some_iff)
  have len: "length sds = length tcs" using mapM_length[OF ld] .
  have ix: "\<forall>i<length sds. cr_index (csd_commit_ref (sds ! i)) = Suc i"
  proof (intro allI impI)
    fix i assume i: "i < length sds"
    then have "csd_commit_ref (sds ! i) = tcm_reference (tcs ! i)" using load_commit_ref list_all2_nthD2[OF la i] by blast
    moreover have "tcm_index (tcs ! i) = Suc i" using stored_commits_index[OF st(1)] i len by simp
    ultimately show "cr_index (csd_commit_ref (sds ! i)) = Suc i" by (simp add: tcm_reference_def)
  qed
  obtain s where s: "replay_start ctx (length sds) = Some s" "1 \<le> s" "s \<le> length tcs"
  proof -
    let ?I = "pc_leader_schedule_update_interval (cx_protocol_config ctx)"
    let ?s = "length tcs div ?I * ?I + 1 - (pc_leader_schedule_window_size (cx_protocol_config ctx) + MAX_PENDING_COMMITS)"
    have "?s \<le> length tcs" unfolding MAX_PENDING_COMMITS_def using div_times_less_eq_dividend[of "length tcs" ?I] by linarith
    moreover have "1 \<le> length tcs" using False by (simp add: Suc_leI)
    moreover have "replay_start ctx (length sds) = Some (max ?s 1)" using I len by (simp add: replay_start_def Let_def)
    ultimately show ?thesis using that[of "max ?s 1"] by simp
  qed
  have "foldM (\<lambda>tc l. do { subdag \<leftarrow> load_committed_subdag_from_store (ds_store ds) tc; l3_add_commit sh subdag l }) (drop (s - 1) tcs) l0
      = foldM (l3_add_commit sh) (drop (s - 1) sds) l0" by (rule foldM_mapM[OF mapM_drop[OF ld]])
  also have "\<dots> = Some l" by (rule replay_suffix[OF sh W ix new live s(1)])
  finally show ?thesis using new s scan_stored_commits[OF st(1) s(2,3) st(2)] False len
    by (simp add: l3_from_store_def st(3))
qed (use assms in \<open>simp add: l3_from_store_def\<close>)

text \<open>
  C13. A restarted node recovers exactly the leader schedule of a node that never stopped: replaying the
  stored commits from \<^verbatim>\<open>replay_start\<close> does not panic and ends with the schedule, the totals and the window
  that processing every commit of the epoch gives, whatever the flags with which the commits were first delivered.
\<close>

theorem leader_schedule_recovered:
  assumes "shuffle_ok sh" and "0 < pc_leader_schedule_window_size (cx_protocol_config ctx)"
    and "0 < pc_leader_schedule_update_interval (cx_protocol_config ctx)"
    and "stored_commits (ds_store ds) tcs" and "length tcs < u32_max" and "ds_last_commit_index ds = length tcs"
    and "mapM (load_committed_subdag_from_store (ds_store ds)) tcs = Some sds" and "map strip cs = map strip sds"
    and "l3_new sh ctx (replicate (committee_size (cx_committee ctx)) 0) = Some l0" and "foldM (l3_add_commit sh) cs l0 = Some l"
  shows "\<exists>l'. l3_from_store sh ctx ds = Some l' \<and> l3_current_schedule l' = l3_current_schedule l \<and>
    l3_total_scores_per_authority l' = l3_total_scores_per_authority l \<and> l3_scores_entries l' = l3_scores_entries l \<and>
    l3_total_num_leaders l' = l3_total_num_leaders l \<and> l3_total_leader_stakes l' = l3_total_leader_stakes l \<and>
    map strip (l3_pending_commits l') = map strip (l3_pending_commits l)"
proof -
  have p: "length (l3_pending_commits l0) \<le> 3" using follows_new(2)[OF assms(9)] by simp
  have "map_option strip_pending (foldM (l3_add_commit sh) sds l0) = map_option strip_pending (foldM (l3_add_commit sh) cs l0)"
    using add_commits_strip[OF p, of sh sds] add_commits_strip[OF p, of sh cs] assms(8) by simp
  then obtain l' where l': "foldM (l3_add_commit sh) sds l0 = Some l'" "strip_pending l' = strip_pending l" using assms(10) by auto
  have "l3_from_store sh ctx ds = Some l'" by (rule from_store_replays[OF assms(1-7,9) l'(1)])
  then show ?thesis using l'(2) by (metis strip_pending_sel)
qed

text \<open>Seven commits of one block each, with a window of two and an update every three commits: replay starts at the second one.\<close>

lemma insort_key_order: "(\<And>y. f x \<le> f y \<longleftrightarrow> g x \<le> g y) \<Longrightarrow> insort_key f x xs = insort_key g x xs"
  by (induction xs) auto

lemma sort_key_order: "(\<And>x y. f x \<le> f y \<longleftrightarrow> g x \<le> g y) \<Longrightarrow> sort_key f xs = sort_key g xs"
proof (induction xs)
  case (Cons x xs)
  then show ?case using insort_key_order[of f x g "sort_key g xs"] by (simp add: sort_key_simps)
qed simp

lemma sort_by_score_desc_code [code]: "sort_by_score_desc xs = sort_key (\<lambda>e. - 1 - snd e) xs"
proof -
  have "unat (- 1 - a) = u64_max - unat a" for a :: u64
  proof -
    have "unat (- 1 :: u64) = u64_max" by (simp add: unsigned_minus_1_eq_mask mask_eq_exp_minus_1)
    moreover have "a \<le> - 1" by simp
    ultimately show ?thesis using unat_sub_u64[of a "- 1"] by (simp only: word_le_nat_alt)
  qed
  then show ?thesis unfolding sort_by_score_desc_def by (intro sort_key_order) (simp add: word_le_nat_alt)
qed

definition v3_block :: "nat \<Rightarrow> verified_block" where
  "v3_block i = sample_vb i (i mod 4) 1 0 [BlockRef (i - 1) ((i - 1) mod 4) 1]"

definition v3_commit :: "nat \<Rightarrow> trusted_commit" where
  "v3_commit i = \<lparr>tcm_inner = commit_new i 0 0 (reference (v3_block i)) [reference (v3_block i)], tcm_digest = of_nat i, tcm_serialized = []\<rparr>"

definition v3_store :: mem_store where
  "v3_store = mem_store_new\<lparr>ms_blocks := fmap_of_list (map (\<lambda>i. (reference (v3_block i), v3_block i)) [1..<8]),
     ms_commits := fmap_of_list (map (\<lambda>i. ((i, of_nat i), v3_commit i)) [1..<8])\<rparr>"

definition v3_subdag :: "nat \<Rightarrow> committed_sub_dag" where
  "v3_subdag i = (committed_sub_dag_new (reference (v3_block i)) [v3_block i] 0 (tcm_reference (v3_commit i)))\<lparr>csd_decided_with_local_blocks := False\<rparr>"

definition v3_dag :: dag_state where
  "v3_dag = (ds_fresh 0 sample_context [])\<lparr>ds_store := v3_store, ds_last_commit := Some (v3_commit 7)\<rparr>"

theorem leader_schedule_recovered_witness:
  "\<exists>l'. l3_from_store (\<lambda>_ xs. xs) sample_context v3_dag = Some l' \<and>
     l3_current_schedule l' = \<lparr>ns_next_commit_index = 8, ns_min_next_leader_round = 8, ns_allowed_leaders = [0, 3, 1, 2]\<rparr> \<and>
     l3_total_scores_per_authority l' = [1, 1, 0, 0]"
proof -
  let ?sh = "\<lambda>_ xs. xs" and ?sds = "map v3_subdag [1..<8]"
  have 1: "stored_commits v3_store (map v3_commit [1..<8])"
    and 2: "mapM (load_committed_subdag_from_store v3_store) (map v3_commit [1..<8]) = Some ?sds" by code_simp+
  have new: "\<exists>l0. l3_new ?sh sample_context (replicate 4 0) = Some l0 \<and> (\<exists>l. foldM (l3_add_commit ?sh) ?sds l0 = Some l \<and>
      l3_current_schedule l = \<lparr>ns_next_commit_index = 8, ns_min_next_leader_round = 8, ns_allowed_leaders = [0, 3, 1, 2]\<rparr> \<and>
      l3_total_scores_per_authority l = [1, 1, 0, 0])"
  proof -
    have "Option.bind (l3_new ?sh sample_context (replicate 4 0)) (\<lambda>l0. map_option (\<lambda>l. (l3_current_schedule l, l3_total_scores_per_authority l))
        (foldM (l3_add_commit ?sh) ?sds l0)) = Some (\<lparr>ns_next_commit_index = 8, ns_min_next_leader_round = 8, ns_allowed_leaders = [0, 3, 1, 2]\<rparr>, [1, 1, 0, 0])"
      by code_simp
    then show ?thesis by (auto simp: bind_Some_iff)
  qed
  then obtain l0 l where l: "l3_new ?sh sample_context (replicate (committee_size (cx_committee sample_context)) 0) = Some l0"
      "foldM (l3_add_commit ?sh) ?sds l0 = Some l"
      "l3_current_schedule l = \<lparr>ns_next_commit_index = 8, ns_min_next_leader_round = 8, ns_allowed_leaders = [0, 3, 1, 2]\<rparr>"
      "l3_total_scores_per_authority l = [1, 1, 0, 0]" by auto
  have p: "shuffle_ok ?sh" "0 < pc_leader_schedule_window_size (cx_protocol_config sample_context)"
    "0 < pc_leader_schedule_update_interval (cx_protocol_config sample_context)" "length (map v3_commit [1..<8]) < u32_max"
    "ds_last_commit_index v3_dag = length (map v3_commit [1..<8])" "ds_store v3_dag = v3_store"
    by (simp_all add: shuffle_ok_def sample_context_def u32_max_def v3_dag_def ds_last_commit_index_def v3_commit_def)
  from leader_schedule_recovered[OF p(1-3) _ p(4,5) _ refl l(1,2)] 1 2 p(6) l(3,4) show ?thesis by auto
qed

end
