(* ===== verification/Commit_Observer.thy ===== *)
theory Commit_Observer
  imports Commit_Sequence Transaction_Vote_Tracker Leader_Schedule_V3
begin

text \<open>
  The commit observer (\<^verbatim>\<open>consensus/core/src/commit_observer.rs\<close>): turning committed leaders into sub-dags, handing them to the
  commit finalizer, and replaying stored commits after a restart. The channel to the finalizer is the list of the sub-dags
  sent, with a flag that is false once the receiver is gone; metrics are left out.
\<close>

record commit_observer =
  ob_context :: consensus_context
  ob_sent :: "committed_sub_dag list"
  ob_open :: bool

definition finalizer_send :: "committed_sub_dag \<Rightarrow> commit_observer \<Rightarrow> commit_observer \<times> unit consensus_result" where
  "finalizer_send sd ob = (if ob_open ob then (ob\<lparr>ob_sent := ob_sent ob @ [sd]\<rparr>, Inr ()) else (ob, Inl Shutdown))"

fun finalizer_send_all :: "committed_sub_dag list \<Rightarrow> commit_observer \<Rightarrow> commit_observer \<times> unit consensus_result" where
  "finalizer_send_all [] ob = (ob, Inr ())"
| "finalizer_send_all (sd # sds) ob =
     (case finalizer_send sd ob of
        (ob, Inl e) \<Rightarrow> (ob, Inl e)
      | (ob, Inr _) \<Rightarrow> finalizer_send_all sds ob)"

definition observer_handle_commit ::
  "crypto \<Rightarrow> (commit \<Rightarrow> string + bytes) \<Rightarrow> verified_block list \<Rightarrow> bool \<Rightarrow> dag_state \<times> commit_observer \<Rightarrow>
   ((dag_state \<times> commit_observer) \<times> committed_sub_dag list consensus_result) option" where
  "observer_handle_commit cy bcs committed_leaders local = (\<lambda>(ds, ob). do {
     (ds, sub_dags) \<leftarrow> handle_commit cy bcs (ob_context ob) committed_leaders ds;
     let sub_dags = map (\<lambda>sd. sd\<lparr>csd_decided_with_local_blocks := local\<rparr>) sub_dags;
     case finalizer_send_all sub_dags ob of
       (ob, Inl e) \<Rightarrow> Some ((ds, ob), Inl e)
     | (ob, Inr _) \<Rightarrow> do {
         ds \<leftarrow> ds_add_scoring_subdags sub_dags ds;
         Some ((ds, ob), Inr sub_dags)
       }
   })"

subsection \<open>Recovery\<close>

definition COMMIT_RECOVERY_BATCH_SIZE :: nat where
  "COMMIT_RECOVERY_BATCH_SIZE = 250"

text \<open>What the recovery loop threads: the DAG state, the vote tracker, the channel, the last index sent and whether an unfinalized commit was seen.\<close>

record recovery_state =
  rc_dag_state :: dag_state
  rc_vote_tracker :: vote_tracker_state
  rc_observer :: commit_observer
  rc_last_sent_commit_index :: commit_index
  rc_seen_unfinalized_commit :: bool

definition recover_commit ::
  "(verified_block \<Rightarrow> transaction_index list consensus_result) \<Rightarrow> trusted_commit \<Rightarrow> recovery_state \<Rightarrow> recovery_state option" where
  "recover_commit vote commit rc = do {
     let last_sent = rc_last_sent_commit_index rc + 1;
     assert_that (tcm_index commit = last_sent);
     sub_dag \<leftarrow> load_committed_subdag_from_store (ds_store (rc_dag_state rc)) commit;
     let seen = (rc_seen_unfinalized_commit rc \<or> \<not> csd_recovered_rejected_transactions sub_dag);
     vt \<leftarrow> (if seen then do {
         assert_that (\<not> csd_recovered_rejected_transactions sub_dag);
         assert_that (\<not> csd_decided_with_local_blocks sub_dag);
         recover_and_vote_on_blocks vote (rc_dag_state rc) (csd_blocks sub_dag) (rc_vote_tracker rc)
       } else Some (rc_vote_tracker rc));
     (case finalizer_send sub_dag (rc_observer rc) of
        (ob, Inl e) \<Rightarrow> None
      | (ob, Inr _) \<Rightarrow> Some (rc\<lparr>rc_vote_tracker := vt, rc_observer := ob, rc_last_sent_commit_index := last_sent,
          rc_seen_unfinalized_commit := seen\<rparr>))
   }"

definition recover_batch ::
  "(verified_block \<Rightarrow> transaction_index list consensus_result) \<Rightarrow> commit_index \<Rightarrow> commit_index \<Rightarrow> recovery_state \<Rightarrow> recovery_state option" where
  "recover_batch vote last_commit_index start_index rc = do {
     let end_index = min (u32_saturating_add start_index (COMMIT_RECOVERY_BATCH_SIZE - 1)) last_commit_index;
     unsent_commits \<leftarrow> ms_scan_commits (ds_store (rc_dag_state rc)) (commit_range_new start_index end_index);
     assert_that (start_index \<le> end_index);
     assert_that (length unsent_commits = end_index - start_index + 1);
     let ds = ds_recover_commits_to_write unsent_commits (rc_dag_state rc);
     foldM (recover_commit vote) unsent_commits (rc\<lparr>rc_dag_state := ds\<rparr>)
   }"

text \<open>The start indices of the batches, \<^verbatim>\<open>(first..=last).step_by(size)\<close>.\<close>

definition batch_starts :: "commit_index \<Rightarrow> commit_index \<Rightarrow> commit_index list" where
  "batch_starts first_index last_index =
     map (\<lambda>k. first_index + k * COMMIT_RECOVERY_BATCH_SIZE) [0..<(last_index + COMMIT_RECOVERY_BATCH_SIZE - first_index) div COMMIT_RECOVERY_BATCH_SIZE]"

definition recover_and_send_commits ::
  "(verified_block \<Rightarrow> transaction_index list consensus_result) \<Rightarrow> commit_index \<Rightarrow> dag_state \<times> vote_tracker_state \<times> commit_observer \<Rightarrow>
   (dag_state \<times> vote_tracker_state \<times> commit_observer) option" where
  "recover_and_send_commits vote replay_after_commit_index = (\<lambda>(ds, vt, ob).
     case ms_read_last_commit (ds_store ds) of
       None \<Rightarrow> do { assert_that (replay_after_commit_index = 0); Some (ds, vt, ob) }
     | Some last_commit \<Rightarrow>
         (let last_commit_index = tcm_index last_commit in
          if last_commit_index = replay_after_commit_index then Some (ds, vt, ob)
          else do {
            assert_that (last_commit_index > replay_after_commit_index);
            ds_ensure_commits_to_write_is_empty ds;
            rc \<leftarrow> foldM (recover_batch vote last_commit_index) (batch_starts (replay_after_commit_index + 1) last_commit_index)
              \<lparr>rc_dag_state = ds, rc_vote_tracker = vt, rc_observer = ob,
               rc_last_sent_commit_index = replay_after_commit_index, rc_seen_unfinalized_commit = False\<rparr>;
            assert_that (rc_last_sent_commit_index rc = last_commit_index);
            Some (rc_dag_state rc, rc_vote_tracker rc, rc_observer rc)
          }))"

definition commit_observer_new ::
  "(verified_block \<Rightarrow> transaction_index list consensus_result) \<Rightarrow> consensus_context \<Rightarrow> commit_index \<Rightarrow> bool \<Rightarrow> dag_state \<times> vote_tracker_state \<Rightarrow>
   (dag_state \<times> vote_tracker_state \<times> commit_observer) option" where
  "commit_observer_new vote ctx replay_after_commit_index receiving = (\<lambda>(ds, vt). do {
     (ds, vt, ob) \<leftarrow> recover_and_send_commits vote replay_after_commit_index
       (ds, vt, \<lparr>ob_context = ctx, ob_sent = [], ob_open = receiving\<rparr>);
     vt \<leftarrow> recover_blocks_after_round vote ds (ds_gc_round ds) vt;
     Some (ds, vt, ob)
   })"

subsection \<open>What recovery sends\<close>

text \<open>The commits \<open>tcs\<close> were loaded and sent in order, with the indices after the last one sent.\<close>

definition resent :: "recovery_state \<Rightarrow> trusted_commit list \<Rightarrow> recovery_state \<Rightarrow> bool" where
  "resent rc tcs rc' \<longleftrightarrow>
     (\<exists>new. ob_sent (rc_observer rc') = ob_sent (rc_observer rc) @ new \<and> map csd_commit_ref new = map tcm_reference tcs) \<and>
     map tcm_index tcs = [rc_last_sent_commit_index rc + 1..<rc_last_sent_commit_index rc' + 1] \<and>
     rc_last_sent_commit_index rc \<le> rc_last_sent_commit_index rc'"

lemma resent_trans:
  assumes "resent a xs b" and "resent b ys c"
  shows "resent a (xs @ ys) c"
proof -
  let ?i = rc_last_sent_commit_index
  have "[?i a + 1..<?i b + 1] @ [?i b + 1..<?i c + 1] = [?i a + 1..<?i c + 1]"
    using upt_add_eq_append[of "?i a + 1" "?i b + 1" "?i c - ?i b"] assms by (simp add: resent_def del: upt_Suc)
  moreover obtain m n where "ob_sent (rc_observer b) = ob_sent (rc_observer a) @ m" "map csd_commit_ref m = map tcm_reference xs"
    "ob_sent (rc_observer c) = ob_sent (rc_observer b) @ n" "map csd_commit_ref n = map tcm_reference ys" using assms by (auto simp: resent_def)
  ultimately show ?thesis using assms unfolding resent_def
    by (intro conjI exI[of _ "m @ n"]) (simp_all del: upt_Suc)
qed

lemma recover_commit_resent:
  assumes "recover_commit vote tc rc = Some rc'"
  shows "resent rc [tc] rc' \<and> rc_dag_state rc' = rc_dag_state rc"
proof -
  from assms obtain sd vt ob where i: "tcm_index tc = rc_last_sent_commit_index rc + 1"
    and l: "load_committed_subdag_from_store (ds_store (rc_dag_state rc)) tc = Some sd"
    and o: "finalizer_send sd (rc_observer rc) = (ob, Inr ())"
    and rc': "rc' = rc\<lparr>rc_vote_tracker := vt, rc_observer := ob, rc_last_sent_commit_index := rc_last_sent_commit_index rc + 1,
      rc_seen_unfinalized_commit := rc_seen_unfinalized_commit rc \<or> \<not> csd_recovered_rejected_transactions sd\<rparr>"
    unfolding recover_commit_def Let_def by (elim bind_SomeE) (force split: prod.splits sum.splits)
  have "ob_sent ob = ob_sent (rc_observer rc) @ [sd]" using o by (auto simp: finalizer_send_def split: if_splits)
  then show ?thesis using i load_commit_ref[OF l] by (simp add: resent_def rc')
qed

lemma recover_commits_resent:
  assumes "foldM (recover_commit vote) tcs rc = Some rc'"
  shows "resent rc tcs rc' \<and> rc_dag_state rc' = rc_dag_state rc"
  using assms
proof (rule foldM_inv_prefix[where P = "\<lambda>xs s. resent rc xs s \<and> rc_dag_state s = rc_dag_state rc"])
  fix ys x zs s s' assume "resent rc ys s \<and> rc_dag_state s = rc_dag_state rc" "recover_commit vote x s = Some s'"
  then show "resent rc (ys @ [x]) s' \<and> rc_dag_state s' = rc_dag_state rc" using recover_commit_resent resent_trans by metis
qed (simp add: resent_def)

lemma recover_batch_resent:
  assumes "recover_batch vote hi lo rc = Some rc'"
  shows "\<exists>tcs. resent rc tcs rc' \<and> rc_dag_state rc' = ds_recover_commits_to_write tcs (rc_dag_state rc)"
proof -
  from assms obtain tcs where f: "foldM (recover_commit vote) tcs (rc\<lparr>rc_dag_state := ds_recover_commits_to_write tcs (rc_dag_state rc)\<rparr>) = Some rc'"
    by (auto simp: recover_batch_def Let_def elim!: bind_SomeE)
  show ?thesis using recover_commits_resent[OF f] by (auto simp: resent_def)
qed

lemma recover_batches_resent:
  assumes "foldM (recover_batch vote hi) los rc = Some rc'"
  shows "\<exists>tcs. resent rc tcs rc' \<and> rc_dag_state rc' = ds_recover_commits_to_write tcs (rc_dag_state rc)"
  using assms
proof (rule foldM_inv[where P = "\<lambda>s. \<exists>tcs. resent rc tcs s \<and> rc_dag_state s = ds_recover_commits_to_write tcs (rc_dag_state rc)"])
  show "\<exists>tcs. resent rc tcs rc \<and> rc_dag_state rc = ds_recover_commits_to_write tcs (rc_dag_state rc)"
    by (rule exI[of _ "[]"]) (simp add: resent_def ds_recover_commits_to_write_def)
  fix x s s' assume "\<exists>tcs. resent rc tcs s \<and> rc_dag_state s = ds_recover_commits_to_write tcs (rc_dag_state rc)" "recover_batch vote hi x s = Some s'"
  then obtain t1 t2 where "resent rc t1 s" "rc_dag_state s = ds_recover_commits_to_write t1 (rc_dag_state rc)" "resent s t2 s'"
    "rc_dag_state s' = ds_recover_commits_to_write t2 (rc_dag_state s)" using recover_batch_resent by metis
  then have "resent rc (t1 @ t2) s' \<and> rc_dag_state s' = ds_recover_commits_to_write (t1 @ t2) (rc_dag_state rc)"
    using resent_trans by (auto simp: ds_recover_commits_to_write_def)
  then show "\<exists>tcs. resent rc tcs s' \<and> rc_dag_state s' = ds_recover_commits_to_write tcs (rc_dag_state rc)" by blast
qed

text \<open>
  C22. After a restart the observer replays every stored commit after the requested index: when recovery returns, the sub-dags
  sent to the finalizer have the indices from the one after the requested index to the last stored commit, each once and in order, the commits
  loaded for them are buffered again for the finalizer to persist, and nothing else of the DAG state changes.
\<close>

theorem recovered_commits_resent:
  assumes "recover_and_send_commits vote replay (ds, vt, ob) = Some (ds', vt', ob')" and "ms_read_last_commit (ds_store ds) = Some last_commit"
  shows "\<exists>tcs new. ob_sent ob' = ob_sent ob @ new \<and> map csd_commit_ref new = map tcm_reference tcs \<and>
    map (cr_index \<circ> csd_commit_ref) new = [replay + 1..<tcm_index last_commit + 1] \<and>
    ds' = ds\<lparr>ds_commits_to_write := ds_commits_to_write ds @ tcs\<rparr>"
proof (cases "tcm_index last_commit = replay")
  case True
  then show ?thesis using assms by (intro exI[of _ "[]"]) (simp add: recover_and_send_commits_def)
next
  case False
  let ?rc = "\<lparr>rc_dag_state = ds, rc_vote_tracker = vt, rc_observer = ob, rc_last_sent_commit_index = replay, rc_seen_unfinalized_commit = False\<rparr>"
  from assms False obtain los rc where f: "foldM (recover_batch vote (tcm_index last_commit)) los ?rc = Some rc"
    and e: "rc_last_sent_commit_index rc = tcm_index last_commit" "ds' = rc_dag_state rc" "ob' = rc_observer rc"
    by (auto simp: recover_and_send_commits_def Let_def elim!: bind_SomeE)
  from recover_batches_resent[OF f] obtain tcs where t: "resent ?rc tcs rc" "rc_dag_state rc = ds_recover_commits_to_write tcs ds" by auto
  then obtain new where n: "ob_sent ob' = ob_sent ob @ new" "map csd_commit_ref new = map tcm_reference tcs"
    "map tcm_index tcs = [replay + 1..<tcm_index last_commit + 1]" using e by (auto simp: resent_def simp del: upt_Suc)
  have "map (cr_index \<circ> csd_commit_ref) new = map cr_index (map tcm_reference tcs)" using n(2) by (simp flip: map_map)
  also have "\<dots> = map tcm_index tcs" by (simp add: tcm_reference_def)
  finally show ?thesis using n t(2) e(2) by (auto simp: ds_recover_commits_to_write_def simp del: upt_Suc)
qed

text \<open>Seven stored commits, of which the last two are replayed.\<close>

definition replay_dag :: dag_state where
  "replay_dag = v3_dag\<lparr>ds_context := sample_context\<lparr>cx_protocol_config := (cx_protocol_config sample_context)\<lparr>pc_gc_depth := 0\<rparr>\<rparr>\<rparr>"

theorem recovered_commits_resent_witness:
  "\<exists>ds' vt' ob'. recover_and_send_commits (\<lambda>b. Inr []) 5 (replay_dag, vts_new sample_context, \<lparr>ob_context = sample_context, ob_sent = [], ob_open = True\<rparr>) =
     Some (ds', vt', ob') \<and> map (cr_index \<circ> csd_commit_ref) (ob_sent ob') = [6, 7]"
proof -
  let ?ob = "\<lparr>ob_context = sample_context, ob_sent = [], ob_open = True\<rparr>"
  have "map_option (\<lambda>_. ()) (recover_and_send_commits (\<lambda>b. Inr []) 5 (replay_dag, vts_new sample_context, ?ob)) = Some ()" by code_simp
  then obtain ds' vt' ob' where r: "recover_and_send_commits (\<lambda>b. Inr []) 5 (replay_dag, vts_new sample_context, ?ob) = Some (ds', vt', ob')" by auto
  have "map_option tcm_index (ms_read_last_commit (ds_store replay_dag)) = Some 7" by code_simp
  then obtain tc where tc: "ms_read_last_commit (ds_store replay_dag) = Some tc" "tcm_index tc = 7" by auto
  show ?thesis using recovered_commits_resent[OF r tc(1)] r tc(2) by (auto simp: upt_rec)
qed

end
