(* ===== verification/Round_Tracker.thy ===== *)
theory Round_Tracker
  imports Block_Types Weighted_Rank
begin

text \<open>
  The round tracker (\<^verbatim>\<open>consensus/core/src/round_tracker.rs\<close>): the rounds every authority is known to
  have accepted or received, learned from blocks and from probes, the quorum round
  of an authority and the propagation delay of this node's own blocks.
  Each of the matrices has a row per reporting authority and a column per authority reported on.
  \<^verbatim>\<open>zip_debug_eq\<close> is a plain zip in a release build.
\<close>

record round_tracker =
  rt_context :: consensus_context
  rt_block_accepted_rounds :: "round list list"
  rt_probed_accepted_rounds :: "round list list"
  rt_probed_received_rounds :: "round list list"
  rt_local_highest_received_rounds :: "round list"

subsection \<open>Operations\<close>

definition round_tracker_new :: "consensus_context \<Rightarrow> round list \<Rightarrow> round_tracker option" where
  "round_tracker_new ctx initial_received_rounds = do {
     let size = committee_size (cx_committee ctx);
     local_highest_received_rounds \<leftarrow>
       (if initial_received_rounds = [] then Some (replicate size 0)
        else do {
          assert_that (length initial_received_rounds = size);
          Some initial_received_rounds
        });
     Some \<lparr>rt_context = ctx,
       rt_block_accepted_rounds = replicate size (replicate size 0),
       rt_probed_accepted_rounds = replicate size (replicate size 0),
       rt_probed_received_rounds = replicate size (replicate size 0),
       rt_local_highest_received_rounds = local_highest_received_rounds\<rparr>
   }"

text \<open>The assignment \<^verbatim>\<open>rounds[a] = rounds[a].max(r)\<close>, on a vector and on a row of a matrix.\<close>

definition raise_round :: "authority_index \<Rightarrow> round \<Rightarrow> round list \<Rightarrow> round list option" where
  "raise_round a r rounds = do {
     old \<leftarrow> vec_get rounds a;
     vec_set rounds a (max old r)
   }"

definition raise_accepted :: "authority_index \<Rightarrow> authority_index \<Rightarrow> round \<Rightarrow> round list list \<Rightarrow> round list list option" where
  "raise_accepted author a r rows = do {
     row \<leftarrow> vec_get rows author;
     row' \<leftarrow> raise_round a r row;
     vec_set rows author row'
   }"

definition update_from_verified_block :: "extended_block \<Rightarrow> round_tracker \<Rightarrow> round_tracker option" where
  "update_from_verified_block eb rt = do {
     let block = eb_block eb;
     let author = vb_author block;
     received \<leftarrow> raise_round author (vb_round block) (rt_local_highest_received_rounds rt);
     rows \<leftarrow> raise_accepted author author (vb_round block) (rt_block_accepted_rounds rt);
     rows \<leftarrow> foldM (\<lambda>r. raise_accepted author (br_author r) (br_round r)) (vb_ancestors block) rows;
     rows \<leftarrow> foldM (\<lambda>r. raise_accepted author (br_author r) (br_round r)) (eb_excluded_ancestors eb) rows;
     Some (rt\<lparr>rt_local_highest_received_rounds := received, rt_block_accepted_rounds := rows\<rparr>)
   }"

definition update_from_probe :: "round list list \<Rightarrow> round list list \<Rightarrow> round_tracker \<Rightarrow> round_tracker" where
  "update_from_probe accepted_rounds received_rounds rt =
     rt\<lparr>rt_probed_accepted_rounds := accepted_rounds, rt_probed_received_rounds := received_rounds\<rparr>"

definition compute_quorum_round :: "committee \<Rightarrow> authority_index \<Rightarrow> round list list \<Rightarrow> (round \<times> round) option" where
  "compute_quorum_round c target_index highest_rounds = do {
     rounds_with_stake \<leftarrow> mapM (\<lambda>(rounds, authority). do {
         round \<leftarrow> vec_get rounds target_index;
         Some (round, a_stake authority)
       }) (zip highest_rounds (c_authorities c));
     let rounds_with_stake = sort rounds_with_stake;
     let low = (case first_reaching (c_quorum_threshold c) (rev rounds_with_stake) 0 of Some r \<Rightarrow> r | None \<Rightarrow> 0);
     let high = (case first_reaching (c_quorum_threshold c) rounds_with_stake 0 of Some r \<Rightarrow> r | None \<Rightarrow> 0);
     Some (low, high)
   }"

definition highest_accepted_rounds :: "round_tracker \<Rightarrow> round list list" where
  "highest_accepted_rounds rt =
     map (\<lambda>(probed_rounds, block_rounds). map (\<lambda>(p, b). max p b) (zip probed_rounds block_rounds))
       (zip (rt_probed_accepted_rounds rt) (rt_block_accepted_rounds rt))"

definition compute_accepted_quorum_rounds :: "round_tracker \<Rightarrow> (round \<times> round) list option" where
  "compute_accepted_quorum_rounds rt =
     (let c = cx_committee (rt_context rt) in
      mapM (\<lambda>peer. compute_quorum_round c peer (highest_accepted_rounds rt)) (authority_indices c))"

definition compute_received_quorum_rounds :: "round_tracker \<Rightarrow> (round \<times> round) list option" where
  "compute_received_quorum_rounds rt =
     (let c = cx_committee (rt_context rt) in
      mapM (\<lambda>peer. compute_quorum_round c peer (rt_probed_received_rounds rt)) (authority_indices c))"

definition calculate_propagation_delay :: "round \<Rightarrow> round_tracker \<Rightarrow> round option" where
  "calculate_propagation_delay last_proposed_round rt = do {
     let own_index = cx_own_index (rt_context rt);
     received_quorum_rounds \<leftarrow> compute_received_quorum_rounds rt;
     accepted_quorum_rounds \<leftarrow> compute_accepted_quorum_rounds rt;
     received \<leftarrow> vec_get received_quorum_rounds own_index;
     accepted \<leftarrow> vec_get accepted_quorum_rounds own_index;
     Some (min (last_proposed_round - fst received) (last_proposed_round - fst accepted))
   }"

subsection \<open>Well-formed trackers\<close>

definition square :: "nat \<Rightarrow> 'a list list \<Rightarrow> bool" where
  "square n rows \<longleftrightarrow> length rows = n \<and> (\<forall>row\<in>set rows. length row = n)"

definition round_tracker_wf :: "round_tracker \<Rightarrow> bool" where
  "round_tracker_wf rt \<longleftrightarrow> (let n = committee_size (cx_committee (rt_context rt)) in
     square n (rt_block_accepted_rounds rt) \<and> square n (rt_probed_accepted_rounds rt) \<and>
     square n (rt_probed_received_rounds rt) \<and> length (rt_local_highest_received_rounds rt) = n)"

lemma square_nth: "square n rows \<Longrightarrow> i < n \<Longrightarrow> length (rows ! i) = n"
  by (simp add: square_def)

lemma square_update: "square n rows \<Longrightarrow> length row = n \<Longrightarrow> square n (rows[i := row])"
  by (auto simp: square_def dest: set_update_subset_insert[THEN subsetD])

lemma round_tracker_new_wf: "round_tracker_new ctx init = Some rt \<Longrightarrow> round_tracker_wf rt"
  by (auto simp: round_tracker_new_def round_tracker_wf_def square_def Let_def panic_simps split: if_splits)

lemma raise_accepted_in:
  assumes "square n rows" and "author < n" and "a < n"
  shows "\<exists>rows'. raise_accepted author a r rows = Some rows' \<and> square n rows' \<and>
    (\<forall>i<n. \<forall>j<n. rows' ! i ! j = (if i = author \<and> j = a then max (rows ! i ! j) r else rows ! i ! j))"
proof -
  have l: "length rows = n" "length (rows ! author) = n" using assms by (simp_all add: square_def)
  let ?row = "(rows ! author)[a := max (rows ! author ! a) r]"
  have "raise_accepted author a r rows = Some (rows[author := ?row])"
    using assms(2,3) l by (simp add: raise_accepted_def raise_round_def)
  moreover have "square n (rows[author := ?row])" by (rule square_update) (use assms l in simp_all)
  ultimately show ?thesis using assms(2,3) l by (auto simp: nth_list_update)
qed

text \<open>Raising one row by a list of references sets each entry to the largest round reported for it.\<close>

definition reported :: "block_ref list \<Rightarrow> authority_index \<Rightarrow> round" where
  "reported refs a = Max (insert 0 (br_round ` {r \<in> set refs. br_author r = a}))"

lemma reported_simps [simp]: "reported [] a = 0"
  "reported (r # rs) a = (if br_author r = a then max (br_round r) (reported rs a) else reported rs a)"
proof -
  let ?S = "br_round ` {r \<in> set rs. br_author r = a}"
  show "reported [] a = 0" by (simp add: reported_def)
  have "br_round ` {x \<in> set (r # rs). br_author x = a} = (if br_author r = a then insert (br_round r) ?S else ?S)" by auto
  moreover have "finite (insert 0 ?S)" by simp
  then have "Max (insert (br_round r) (insert 0 ?S)) = max (br_round r) (Max (insert 0 ?S))" by (rule Max_insert) simp
  ultimately show "reported (r # rs) a = (if br_author r = a then max (br_round r) (reported rs a) else reported rs a)"
    by (simp add: reported_def insert_commute[of 0 "br_round r"])
qed

lemma raise_accepted_all:
  assumes "square n rows" and "author < n" and "\<forall>r\<in>set refs. br_author r < n"
  shows "\<exists>rows'. foldM (\<lambda>r. raise_accepted author (br_author r) (br_round r)) refs rows = Some rows' \<and> square n rows' \<and>
    (\<forall>i<n. \<forall>j<n. rows' ! i ! j = (if i = author then max (rows ! i ! j) (reported refs j) else rows ! i ! j))"
  using assms
proof (induction refs arbitrary: rows)
  case (Cons r refs)
  from raise_accepted_in[OF Cons.prems(1,2), of "br_author r" "br_round r"] Cons.prems(3) obtain rows1 where
    1: "raise_accepted author (br_author r) (br_round r) rows = Some rows1" "square n rows1"
      "\<forall>i<n. \<forall>j<n. rows1 ! i ! j = (if i = author \<and> j = br_author r then max (rows ! i ! j) (br_round r) else rows ! i ! j)" by auto
  from Cons.IH[OF 1(2) Cons.prems(2)] Cons.prems(3) obtain rows2 where
    2: "foldM (\<lambda>r. raise_accepted author (br_author r) (br_round r)) refs rows1 = Some rows2" "square n rows2"
      "\<forall>i<n. \<forall>j<n. rows2 ! i ! j = (if i = author then max (rows1 ! i ! j) (reported refs j) else rows1 ! i ! j)" by auto
  show ?case using 1 2 by (intro exI[of _ rows2]) (auto simp: max.assoc)
qed simp

lemma update_from_verified_block_spec:
  assumes wf: "round_tracker_wf rt" and n: "n = committee_size (cx_committee (rt_context rt))"
    and a: "vb_author (eb_block eb) < n" and anc: "\<forall>r\<in>set (vb_ancestors (eb_block eb)) \<union> set (eb_excluded_ancestors eb). br_author r < n"
  shows "\<exists>rt'. update_from_verified_block eb rt = Some rt' \<and> round_tracker_wf rt' \<and> rt_context rt' = rt_context rt \<and>
    rt_probed_accepted_rounds rt' = rt_probed_accepted_rounds rt \<and> rt_probed_received_rounds rt' = rt_probed_received_rounds rt \<and>
    (\<forall>i<n. \<forall>j<n. rt_block_accepted_rounds rt' ! i ! j = (if i = vb_author (eb_block eb)
       then max (rt_block_accepted_rounds rt ! i ! j) (reported (reference (eb_block eb) # vb_ancestors (eb_block eb) @ eb_excluded_ancestors eb) j)
       else rt_block_accepted_rounds rt ! i ! j))"
proof -
  let ?b = "eb_block eb" and ?f = "\<lambda>r. raise_accepted (vb_author (eb_block eb)) (br_author r) (br_round r)"
  let ?refs = "reference ?b # vb_ancestors ?b @ eb_excluded_ancestors eb"
  have s: "square n (rt_block_accepted_rounds rt)" "length (rt_local_highest_received_rounds rt) = n"
    using wf by (simp_all add: round_tracker_wf_def n Let_def)
  have "\<forall>r\<in>set ?refs. br_author r < n" using a anc by auto
  from raise_accepted_all[OF s(1) a this] obtain rows where
    rows: "foldM ?f ?refs (rt_block_accepted_rounds rt) = Some rows" "square n rows"
      "\<forall>i<n. \<forall>j<n. rows ! i ! j = (if i = vb_author ?b then max (rt_block_accepted_rounds rt ! i ! j) (reported ?refs j)
         else rt_block_accepted_rounds rt ! i ! j)" by blast
  from rows(1) obtain r1 r2 where r: "raise_accepted (vb_author ?b) (vb_author ?b) (vb_round ?b) (rt_block_accepted_rounds rt) = Some r1"
      "foldM ?f (vb_ancestors ?b) r1 = Some r2" "foldM ?f (eb_excluded_ancestors eb) r2 = Some rows"
    by (simp add: foldM_append bind_Some_iff del: reported_simps) blast
  have "update_from_verified_block eb rt = Some (rt\<lparr>rt_local_highest_received_rounds :=
      (rt_local_highest_received_rounds rt)[vb_author ?b := max (rt_local_highest_received_rounds rt ! vb_author ?b) (vb_round ?b)],
      rt_block_accepted_rounds := rows\<rparr>)"
    using r s(2) a by (simp add: update_from_verified_block_def raise_round_def Let_def)
  moreover define rt' where "rt' = rt\<lparr>rt_local_highest_received_rounds :=
      (rt_local_highest_received_rounds rt)[vb_author ?b := max (rt_local_highest_received_rounds rt ! vb_author ?b) (vb_round ?b)],
      rt_block_accepted_rounds := rows\<rparr>"
  moreover have "round_tracker_wf rt'" using wf rows(2) by (simp add: round_tracker_wf_def Let_def n rt'_def)
  ultimately show ?thesis using rows(3) by (intro exI[of _ rt']) simp
qed

subsection \<open>Quorum rounds\<close>

lemma quorum_pairs:
  assumes "square (committee_size c) M" and "t < committee_size c"
  shows "mapM (\<lambda>(rounds, authority). do { round \<leftarrow> vec_get rounds t; Some (round, a_stake authority) }) (zip M (c_authorities c))
    = Some (zip (map (\<lambda>row. row ! t) M) (map a_stake (c_authorities c)))"
proof -
  have "mapM (\<lambda>(rounds, authority). do { round \<leftarrow> vec_get rounds t; Some (round, a_stake authority) }) (zip M (c_authorities c))
      = Some (map (\<lambda>(rounds, authority). (rounds ! t, a_stake authority)) (zip M (c_authorities c)))"
    by (rule mapM_total) (use assms in \<open>auto simp: square_def dest: set_zip_leftD\<close>)
  then show ?thesis by (simp add: zip_map_map case_prod_unfold)
qed

lemma compute_quorum_round_spec:
  assumes wf: "committee_wf c" and M: "square (committee_size c) M" and t: "t < committee_size c"
  shows "\<exists>low high. compute_quorum_round c t M = Some (low, high) \<and>
    unat (c_quorum_threshold c) \<le> set_stake c {i. i < committee_size c \<and> low \<le> M ! i ! t} \<and>
    set_stake c {i. i < committee_size c \<and> low < M ! i ! t} < unat (c_quorum_threshold c) \<and>
    unat (c_quorum_threshold c) \<le> set_stake c {i. i < committee_size c \<and> M ! i ! t \<le> high} \<and>
    set_stake c {i. i < committee_size c \<and> M ! i ! t < high} < unat (c_quorum_threshold c)"
proof -
  let ?vs = "map (\<lambda>row. row ! t) M"
  have l: "length ?vs = committee_size c" using M by (simp add: square_def)
  have n: "{i. i < committee_size c \<and> P (?vs ! i)} = {i. i < committee_size c \<and> P (M ! i ! t)}" for P using l by auto
  note n = n[of "\<lambda>r. r \<le> v" for v] n[of "\<lambda>r. r < v" for v] n[of "\<lambda>r. v \<le> r" for v] n[of "\<lambda>r. v < r" for v]
  from first_reaching_descending[OF wf l] first_reaching_ascending[OF wf l] quorum_pairs[OF M t] show ?thesis
    unfolding n by (auto simp: compute_quorum_round_def)
qed

lemma highest_accepted_rounds_square:
  assumes "round_tracker_wf rt" and "n = committee_size (cx_committee (rt_context rt))"
  shows "square n (highest_accepted_rounds rt)"
    and "i < n \<Longrightarrow> j < n \<Longrightarrow> highest_accepted_rounds rt ! i ! j = max (rt_probed_accepted_rounds rt ! i ! j) (rt_block_accepted_rounds rt ! i ! j)"
proof -
  have s: "square n (rt_probed_accepted_rounds rt)" "square n (rt_block_accepted_rounds rt)"
    using assms by (simp_all add: round_tracker_wf_def Let_def)
  then have "length a = n \<and> length b = n"
    if "(a, b) \<in> set (zip (rt_probed_accepted_rounds rt) (rt_block_accepted_rounds rt))" for a b
    using set_zip_leftD[OF that] set_zip_rightD[OF that] by (simp add: square_def)
  then show "square n (highest_accepted_rounds rt)" using s by (auto simp: square_def highest_accepted_rounds_def)
  assume "i < n" "j < n"
  then show "highest_accepted_rounds rt ! i ! j = max (rt_probed_accepted_rounds rt ! i ! j) (rt_block_accepted_rounds rt ! i ! j)"
    using s by (simp add: square_def highest_accepted_rounds_def)
qed

lemma quorum_rounds_nth:
  assumes "committee_wf c" and "square (committee_size c) M" and "t < committee_size c"
  shows "\<exists>qs. mapM (\<lambda>peer. compute_quorum_round c peer M) (authority_indices c) = Some qs \<and> t < length qs \<and>
    (\<forall>r. r \<le> fst (qs ! t) \<longleftrightarrow> unat (c_quorum_threshold c) \<le> set_stake c {i. i < committee_size c \<and> r \<le> M ! i ! t})"
proof -
  have ix: "authority_indices c = [0..<committee_size c]" by (simp add: authority_indices_def committee_size_def)
  have "\<exists>y. compute_quorum_round c x M = Some y" if "x \<in> set (authority_indices c)" for x
    using compute_quorum_round_spec[OF assms(1,2), of x] that ix by auto
  from mapM_ex[of "authority_indices c" "\<lambda>peer. compute_quorum_round c peer M", OF this] obtain qs where qs: "mapM (\<lambda>peer. compute_quorum_round c peer M) (authority_indices c) = Some qs" by blast
  then have la: "list_all2 (\<lambda>x y. compute_quorum_round c x M = Some y) [0..<committee_size c] qs" by (simp add: mapM_Some_iff ix)
  then have l: "length qs = committee_size c" using list_all2_lengthD by fastforce
  have e: "compute_quorum_round c t M = Some (qs ! t)" using list_all2_nthD2[OF la, of t] l assms(3) by simp
  obtain low high where qt: "qs ! t = (low, high)" by (cases "qs ! t")
  from compute_quorum_round_spec[OF assms] have
    "unat (c_quorum_threshold c) \<le> set_stake c {i. i < committee_size c \<and> low \<le> M ! i ! t}"
    "set_stake c {i. i < committee_size c \<and> low < M ! i ! t} < unat (c_quorum_threshold c)" by (auto simp: e qt)
  from quorum_rank[OF this] qs l assms(3) show ?thesis by (simp add: qt)
qed

text \<open>
  C18. A quorum round is a Byzantine fault tolerant range: for every target authority the
  computation returns bounds with \<open>low \<le> high\<close>, and with faulty stake within the budget both bounds lie between
  the rounds that two correct authorities report.
\<close>

theorem quorum_round_between_honest:
  assumes "committee_wf c" and "square (committee_size c) M" and "t < committee_size c"
    and "set_stake c F \<le> fault_budget c"
  shows "\<exists>low high. compute_quorum_round c t M = Some (low, high) \<and> low \<le> high \<and>
    (\<exists>i < committee_size c. i \<notin> F \<and> M ! i ! t \<le> low) \<and> (\<exists>j < committee_size c. j \<notin> F \<and> high \<le> M ! j ! t)"
proof -
  let ?vs = "map (\<lambda>i. M ! i ! t) [0..<committee_size c]"
  from compute_quorum_round_spec[OF assms(1-3)] obtain low high where
    r: "compute_quorum_round c t M = Some (low, high)"
      "unat (c_quorum_threshold c) \<le> set_stake c {i. i < committee_size c \<and> low \<le> M ! i ! t}"
      "set_stake c {i. i < committee_size c \<and> low < M ! i ! t} < unat (c_quorum_threshold c)"
      "unat (c_quorum_threshold c) \<le> set_stake c {i. i < committee_size c \<and> M ! i ! t \<le> high}"
      "set_stake c {i. i < committee_size c \<and> M ! i ! t < high} < unat (c_quorum_threshold c)" by auto
  have n: "{i. i < committee_size c \<and> P (?vs ! i)} = {i. i < committee_size c \<and> P (M ! i ! t)}" for P by auto
  note n = n[of "\<lambda>r. r \<le> v" for v] n[of "\<lambda>r. r < v" for v] n[of "\<lambda>r. v \<le> r" for v] n[of "\<lambda>r. v < r" for v]
  from quorum_values_between[OF assms(1,4), of low ?vs high] r(2-) show ?thesis unfolding n
    by (intro exI[of _ low] exI[of _ high]) (auto simp: r(1))
qed

text \<open>Four authorities of stake 1; the last one reports absurd rounds.\<close>

definition sample_rounds :: "round list list" where
  "sample_rounds = [[5, 3, 4, 0], [4, 3, 4, 0], [3, 2, 5, 1], [900, 900, 900, 900]]"

theorem quorum_round_between_honest_witness:
  "compute_quorum_round committee4 0 sample_rounds = Some (4, 5) \<and>
   (\<exists>low high. compute_quorum_round committee4 0 sample_rounds = Some (low, high) \<and> low \<le> high \<and>
    (\<exists>i < committee_size committee4. i \<notin> {3} \<and> sample_rounds ! i ! 0 \<le> low) \<and>
    (\<exists>j < committee_size committee4. j \<notin> {3} \<and> high \<le> sample_rounds ! j ! 0))"
proof
  show "compute_quorum_round committee4 0 sample_rounds = Some (4, 5)" by code_simp
  show "\<exists>low high. compute_quorum_round committee4 0 sample_rounds = Some (low, high) \<and> low \<le> high \<and>
    (\<exists>i < committee_size committee4. i \<notin> {3} \<and> sample_rounds ! i ! 0 \<le> low) \<and>
    (\<exists>j < committee_size committee4. j \<notin> {3} \<and> high \<le> sample_rounds ! j ! 0)"
    by (rule quorum_round_between_honest[OF committee4_wf])
      (simp_all add: square_def sample_rounds_def committee4_set_stake committee4_budget)
qed

text \<open>
  C26. The propagation delay is exact: it is at most \<open>k\<close> exactly when a quorum reports to have received,
  or a quorum is known to have accepted, a block of this node at most \<open>k\<close> rounds below the last proposed one.
\<close>

theorem propagation_delay_exact:
  assumes "round_tracker_wf rt" and "c = cx_committee (rt_context rt)" and "committee_wf c"
    and "own = cx_own_index (rt_context rt)" and "own < committee_size c"
  shows "\<exists>d. calculate_propagation_delay proposed rt = Some d \<and>
    (\<forall>k. d \<le> k \<longleftrightarrow>
       unat (c_quorum_threshold c) \<le> set_stake c {i. i < committee_size c \<and> proposed - k \<le> rt_probed_received_rounds rt ! i ! own} \<or>
       unat (c_quorum_threshold c) \<le> set_stake c {i. i < committee_size c \<and>
         proposed - k \<le> max (rt_probed_accepted_rounds rt ! i ! own) (rt_block_accepted_rounds rt ! i ! own)})"
proof -
  have r: "square (committee_size c) (rt_probed_received_rounds rt)" using assms(1,2) by (simp add: round_tracker_wf_def Let_def)
  note a = highest_accepted_rounds_square[OF assms(1), of "committee_size c", unfolded assms(2), OF refl, folded assms(2)]
  have n: "{i. i < committee_size c \<and> k \<le> highest_accepted_rounds rt ! i ! own} = {i. i < committee_size c \<and>
      k \<le> max (rt_probed_accepted_rounds rt ! i ! own) (rt_block_accepted_rounds rt ! i ! own)}" for k
    using a(2)[OF _ assms(5)] by auto
  from quorum_rounds_nth[OF assms(3) r assms(5)] quorum_rounds_nth[OF assms(3) a(1) assms(5)] obtain qs qs' where
    q: "compute_received_quorum_rounds rt = Some qs" "own < length qs" "compute_accepted_quorum_rounds rt = Some qs'" "own < length qs'"
    "\<forall>r. r \<le> fst (qs ! own) \<longleftrightarrow> unat (c_quorum_threshold c) \<le> set_stake c {i. i < committee_size c \<and> r \<le> rt_probed_received_rounds rt ! i ! own}"
    "\<forall>r. r \<le> fst (qs' ! own) \<longleftrightarrow> unat (c_quorum_threshold c) \<le> set_stake c {i. i < committee_size c \<and> r \<le> highest_accepted_rounds rt ! i ! own}"
    by (auto simp: compute_received_quorum_rounds_def compute_accepted_quorum_rounds_def Let_def assms(2))
  have "calculate_propagation_delay proposed rt = Some (min (proposed - fst (qs ! own)) (proposed - fst (qs' ! own)))"
    using q(1-4) by (simp add: calculate_propagation_delay_def assms(4) Let_def)
  moreover have "min (proposed - fst (qs ! own)) (proposed - fst (qs' ! own)) \<le> k \<longleftrightarrow>
      proposed - k \<le> fst (qs ! own) \<or> proposed - k \<le> fst (qs' ! own)" for k by (simp add: min_le_iff_disj) linarith
  ultimately show ?thesis unfolding n[symmetric] q(5)[rule_format, symmetric] q(6)[rule_format, symmetric] by blast
qed

definition sample_tracker :: round_tracker where
  "sample_tracker = \<lparr>rt_context = sample_context, rt_block_accepted_rounds = replicate 4 [7, 0, 0, 0],
     rt_probed_accepted_rounds = replicate 4 (replicate 4 0), rt_probed_received_rounds = sample_rounds,
     rt_local_highest_received_rounds = [0, 0, 0, 0]\<rparr>"

theorem propagation_delay_exact_witness:
  "calculate_propagation_delay 9 sample_tracker = Some 2 \<and>
   (\<exists>d. calculate_propagation_delay 9 sample_tracker = Some d \<and>
    (\<forall>k. d \<le> k \<longleftrightarrow>
       unat (c_quorum_threshold committee4) \<le> set_stake committee4 {i. i < committee_size committee4 \<and> 9 - k \<le> rt_probed_received_rounds sample_tracker ! i ! 0} \<or>
       unat (c_quorum_threshold committee4) \<le> set_stake committee4 {i. i < committee_size committee4 \<and>
         9 - k \<le> max (rt_probed_accepted_rounds sample_tracker ! i ! 0) (rt_block_accepted_rounds sample_tracker ! i ! 0)}))"
proof
  show "calculate_propagation_delay 9 sample_tracker = Some 2" by code_simp
  show "\<exists>d. calculate_propagation_delay 9 sample_tracker = Some d \<and>
    (\<forall>k. d \<le> k \<longleftrightarrow>
       unat (c_quorum_threshold committee4) \<le> set_stake committee4 {i. i < committee_size committee4 \<and> 9 - k \<le> rt_probed_received_rounds sample_tracker ! i ! 0} \<or>
       unat (c_quorum_threshold committee4) \<le> set_stake committee4 {i. i < committee_size committee4 \<and>
         9 - k \<le> max (rt_probed_accepted_rounds sample_tracker ! i ! 0) (rt_block_accepted_rounds sample_tracker ! i ! 0)})"
    by (rule propagation_delay_exact)
      (simp_all add: sample_tracker_def round_tracker_wf_def square_def sample_rounds_def committee4_wf, simp add: sample_context_def)
qed

end
