(* ===== verification/Ancestor.thy ===== *)
theory Ancestor
  imports Dag_Invariant Weighted_Rank
begin

text \<open>
  The ancestor state manager (\<^verbatim>\<open>consensus/core/src/ancestor.rs\<close>): which authorities a new block includes
  as ancestors, from propagation scores and quorum rounds, with a bound on the stake that may be excluded
  at a time. The DAG state that the manager holds a handle to is an argument \<open>ds\<close>.
\<close>

subsection \<open>Data\<close>

datatype ancestor_state = Include | Exclude u64

record ancestor_info =
  ai_state :: ancestor_state
  ai_lock_until_round :: round

definition ancestor_info_new :: ancestor_info where
  "ancestor_info_new = \<lparr>ai_state = Include, ai_lock_until_round = 0\<rparr>"

definition is_locked :: "round \<Rightarrow> ancestor_info \<Rightarrow> bool" where
  "is_locked current_clock_round info \<longleftrightarrow> ai_lock_until_round info \<ge> current_clock_round"

definition set_lock :: "round \<Rightarrow> ancestor_info \<Rightarrow> ancestor_info" where
  "set_lock r info = info\<lparr>ai_lock_until_round := r\<rparr>"

record state_transition =
  st_authority_id :: authority_index
  st_score :: u64
  st_stake :: u64
  st_high_quorum_round :: round

record ancestor_state_manager =
  am_context :: consensus_context
  am_state_map :: "ancestor_info list"
  am_excluded_nodes_stake_threshold :: u64
  am_total_excluded_stake :: stake
  am_propagation_scores :: reputation_scores

definition STATE_LOCK_CLOCK_ROUNDS :: nat where
  "STATE_LOCK_CLOCK_ROUNDS = 450"

definition SCORE_EXCLUSION_THRESHOLD_PERCENTAGE :: u64 where
  "SCORE_EXCLUSION_THRESHOLD_PERCENTAGE = 20"

subsection \<open>Operations\<close>

definition am_new :: "consensus_context \<Rightarrow> ancestor_state_manager" where
  "am_new ctx =
     (let percentage = 2 * pc_bad_nodes_stake_threshold (cx_protocol_config ctx) div 3
      in \<lparr>am_context = ctx, am_state_map = replicate (committee_size (cx_committee ctx)) ancestor_info_new,
          am_excluded_nodes_stake_threshold = (percentage * c_total_stake (cx_committee ctx)) div 100,
          am_total_excluded_stake = 0, am_propagation_scores = reputation_scores_default\<rparr>)"

definition set_propagation_scores :: "reputation_scores \<Rightarrow> ancestor_state_manager \<Rightarrow> ancestor_state_manager" where
  "set_propagation_scores scores am = am\<lparr>am_propagation_scores := scores\<rparr>"

definition get_ancestor_states :: "ancestor_state_manager \<Rightarrow> ancestor_state list" where
  "get_ancestor_states am = map ai_state (am_state_map am)"

definition calculate_network_high_quorum_round :: "ancestor_state_manager \<Rightarrow> (round \<times> round) list \<Rightarrow> round" where
  "calculate_network_high_quorum_round am accepted_quorum_rounds =
     (let c = cx_committee (am_context am);
          with_stake = sort (zip (map snd accepted_quorum_rounds) (map a_stake (c_authorities c)))
      in case first_reaching (c_quorum_threshold c) with_stake 0 of Some r \<Rightarrow> r | None \<Rightarrow> 0)"

definition apply_state_change ::
  "state_transition \<Rightarrow> ancestor_state \<Rightarrow> round \<Rightarrow> ancestor_state_manager \<Rightarrow> ancestor_state_manager option" where
  "apply_state_change t new_state current_clock_round am = do {
     _ \<leftarrow> committee_authority (cx_committee (am_context am)) (st_authority_id t);
     info \<leftarrow> vec_get (am_state_map am) (st_authority_id t);
     total \<leftarrow> (case (ai_state info, new_state) of
         (Exclude _, Include) \<Rightarrow> checked_sub (am_total_excluded_stake am) (st_stake t)
       | (Include, Exclude _) \<Rightarrow> Some (am_total_excluded_stake am + st_stake t)
       | _ \<Rightarrow> None);
     let info = set_lock (current_clock_round + STATE_LOCK_CLOCK_ROUNDS) (info\<lparr>ai_state := new_state\<rparr>);
     Some (am\<lparr>am_total_excluded_stake := total, am_state_map := (am_state_map am)[st_authority_id t := info]\<rparr>)
   }"

text \<open>The body of the loop that collects the transitions (to include, to exclude) for one authority.\<close>

definition collect_transition ::
  "ancestor_state_manager \<Rightarrow> (round \<times> round) list \<Rightarrow> round \<Rightarrow> round \<Rightarrow> u64 \<Rightarrow> nat \<times> u64 \<Rightarrow>
   state_transition list \<times> state_transition list \<Rightarrow> (state_transition list \<times> state_transition list) option" where
  "collect_transition am accepted_quorum_rounds network_high_quorum_round current_clock_round low_score_threshold =
     (\<lambda>(idx, score) (exclude_to_include, include_to_exclude). do {
       authority_id \<leftarrow> to_authority_index (cx_committee (am_context am)) idx;
       info \<leftarrow> vec_get (am_state_map am) idx;
       (_, authority_high_quorum_round) \<leftarrow> vec_get accepted_quorum_rounds idx;
       authority \<leftarrow> committee_authority (cx_committee (am_context am)) authority_id;
       let t = \<lparr>st_authority_id = authority_id, st_score = score, st_stake = a_stake authority,
                st_high_quorum_round = authority_high_quorum_round\<rparr>;
       if is_locked current_clock_round info then Some (exclude_to_include, include_to_exclude)
       else case ai_state info of
         Include \<Rightarrow> if score \<le> low_score_threshold
           then Some (exclude_to_include, include_to_exclude @ [t])
           else Some (exclude_to_include, include_to_exclude)
       | Exclude _ \<Rightarrow> if score > low_score_threshold \<or> authority_high_quorum_round \<ge> network_high_quorum_round
           then Some (exclude_to_include @ [t], include_to_exclude)
           else Some (exclude_to_include, include_to_exclude)
     })"

definition update_all_ancestors_state ::
  "(round \<times> round) list \<Rightarrow> dag_state \<Rightarrow> ancestor_state_manager \<Rightarrow> ancestor_state_manager option" where
  "update_all_ancestors_state accepted_quorum_rounds ds am = do {
     let network_high_quorum_round = calculate_network_high_quorum_round am accepted_quorum_rounds;
     let current_clock_round = ds_threshold_clock_round ds;
     let low_score_threshold = (highest_score (am_propagation_scores am) * SCORE_EXCLUSION_THRESHOLD_PERCENTAGE) div 100;
     (exclude_to_include, include_to_exclude) \<leftarrow>
       foldM (collect_transition am accepted_quorum_rounds network_high_quorum_round current_clock_round low_score_threshold)
         (enumerate 0 (rs_scores_per_authority (am_propagation_scores am))) ([], []);
     am \<leftarrow> foldM (\<lambda>t. apply_state_change t Include current_clock_round) exclude_to_include am;
     foldM (\<lambda>t am. if am_total_excluded_stake am + st_stake t \<le> am_excluded_nodes_stake_threshold am
         then apply_state_change t (Exclude (st_score t)) current_clock_round am
         else Some am)
       (sort_key st_score include_to_exclude) am
   }"

subsection \<open>The stake that is excluded\<close>

definition excluded :: "ancestor_state_manager \<Rightarrow> authority_index set" where
  "excluded am = {i. i < length (am_state_map am) \<and> ai_state (am_state_map am ! i) \<noteq> Include}"

definition am_inv :: "committee \<Rightarrow> ancestor_state_manager \<Rightarrow> bool" where
  "am_inv c am \<longleftrightarrow> cx_committee (am_context am) = c \<and> length (am_state_map am) = committee_size c \<and>
     unat (am_total_excluded_stake am) = set_stake c (excluded am) \<and>
     am_total_excluded_stake am \<le> am_excluded_nodes_stake_threshold am"

definition transition_of :: "committee \<Rightarrow> state_transition \<Rightarrow> bool" where
  "transition_of c t \<longleftrightarrow> st_authority_id t < committee_size c \<and> st_stake t = a_stake (c_authorities c ! st_authority_id t)"

lemma am_inv_new: "am_inv (cx_committee ctx) (am_new ctx)"
proof -
  have "excluded (am_new ctx) = {}" by (auto simp: excluded_def am_new_def ancestor_info_new_def Let_def)
  then show ?thesis by (simp add: am_inv_def am_new_def Let_def)
qed

lemma am_inv_scores [simp]: "am_inv c (set_propagation_scores s am) \<longleftrightarrow> am_inv c am"
  "am_excluded_nodes_stake_threshold (set_propagation_scores s am) = am_excluded_nodes_stake_threshold am"
  "rs_scores_per_authority (am_propagation_scores (set_propagation_scores s am)) = rs_scores_per_authority s"
  by (simp_all add: am_inv_def set_propagation_scores_def excluded_def)

lemma set_stake_remove: "i < committee_size c \<Longrightarrow> i \<in> E \<Longrightarrow> set_stake c E = stake_of c i + set_stake c (E - {i})"
  using set_stake_insert[of i c "E - {i}"] by (simp add: insert_absorb)

lemma transition_stake: "transition_of c t \<Longrightarrow> unat (st_stake t) = stake_of c (st_authority_id t)"
  by (simp add: transition_of_def stake_of_def)

text \<open>One change moves one authority between the two states and keeps the account.\<close>

lemma apply_include:
  assumes inv: "am_inv c am" and t: "transition_of c t" and e: "st_authority_id t \<in> excluded am"
  shows "\<exists>am'. apply_state_change t Include clock am = Some am' \<and> am_inv c am' \<and> excluded am' = excluded am - {st_authority_id t} \<and>
    am_excluded_nodes_stake_threshold am' = am_excluded_nodes_stake_threshold am"
proof -
  let ?i = "st_authority_id t" and ?m = "am_state_map am" and ?T = "am_total_excluded_stake am"
  have i: "?i < committee_size c" "?i < length ?m" "length ?m = committee_size c" "cx_committee (am_context am) = c"
    using inv t by (auto simp: am_inv_def transition_of_def)
  from e obtain s where s: "ai_state (?m ! ?i) = Exclude s" by (cases "ai_state (?m ! ?i)") (auto simp: excluded_def)
  have w: "set_stake c (excluded am) = unat (st_stake t) + set_stake c (excluded am - {?i})"
    using set_stake_remove[OF i(1) e] transition_stake[OF t] by simp
  then have le: "st_stake t \<le> ?T" using inv by (simp add: am_inv_def word_le_nat_alt)
  let ?am = "am\<lparr>am_total_excluded_stake := ?T - st_stake t, am_state_map :=
      ?m[?i := set_lock (clock + STATE_LOCK_CLOCK_ROUNDS) ((?m ! ?i)\<lparr>ai_state := Include\<rparr>)]\<rparr>"
  have "apply_state_change t Include clock am = Some ?am"
    using i s le by (simp add: apply_state_change_def committee_authority_def committee_size_def checked_sub_def)
  moreover have ex: "excluded ?am = excluded am - {?i}"
    using i(2) by (auto simp: excluded_def nth_list_update set_lock_def)
  moreover have u: "unat (?T - st_stake t) = unat ?T - unat (st_stake t)" by (rule unat_sub_u64) (use le in \<open>simp add: word_le_nat_alt\<close>)
  moreover have "am_inv c ?am" using inv w ex u by (simp add: am_inv_def word_le_nat_alt)
  ultimately show ?thesis by (intro exI[of _ ?am]) simp
qed

lemma apply_exclude:
  assumes inv: "am_inv c am" and wf: "auths_total (c_authorities c) < 2 ^ 64" and t: "transition_of c t"
    and e: "st_authority_id t \<notin> excluded am" and b: "am_total_excluded_stake am + st_stake t \<le> am_excluded_nodes_stake_threshold am"
  shows "\<exists>am'. apply_state_change t (Exclude s) clock am = Some am' \<and> am_inv c am' \<and>
    excluded am' = insert (st_authority_id t) (excluded am) \<and>
    am_excluded_nodes_stake_threshold am' = am_excluded_nodes_stake_threshold am"
proof -
  let ?i = "st_authority_id t" and ?m = "am_state_map am" and ?T = "am_total_excluded_stake am"
  have i: "?i < committee_size c" "?i < length ?m" "length ?m = committee_size c" "cx_committee (am_context am) = c"
    using inv t by (auto simp: am_inv_def transition_of_def)
  have s: "ai_state (?m ! ?i) = Include" using e i(2) by (simp add: excluded_def)
  have w: "set_stake c (insert ?i (excluded am)) = unat (st_stake t) + unat ?T"
    using set_stake_insert[OF i(1) e] transition_stake[OF t] inv by (simp add: am_inv_def)
  then have "unat ?T + unat (st_stake t) < 2 ^ 64" using set_stake_le_total[of c "insert ?i (excluded am)"] wf by simp
  then have u: "unat (?T + st_stake t) = unat ?T + unat (st_stake t)" by (rule unat_add_u64)
  let ?am = "am\<lparr>am_total_excluded_stake := ?T + st_stake t, am_state_map :=
      ?m[?i := set_lock (clock + STATE_LOCK_CLOCK_ROUNDS) ((?m ! ?i)\<lparr>ai_state := Exclude s\<rparr>)]\<rparr>"
  have "apply_state_change t (Exclude s) clock am = Some ?am"
    using i s by (simp add: apply_state_change_def committee_authority_def committee_size_def)
  moreover have ex: "excluded ?am = insert ?i (excluded am)"
    using i(2) by (auto simp: excluded_def nth_list_update set_lock_def)
  moreover have "am_inv c ?am" using inv w ex u b by (simp add: am_inv_def)
  ultimately show ?thesis by (intro exI[of _ ?am]) simp
qed

lemma other_authority: "distinct (map st_authority_id (t # ts)) \<Longrightarrow> t' \<in> set ts \<Longrightarrow> st_authority_id t' \<noteq> st_authority_id t"
  by (metis distinct.simps(2) image_eqI list.map(2) list.set_map)

lemma include_all:
  assumes "am_inv c am" and "\<forall>t\<in>set ts. transition_of c t \<and> st_authority_id t \<in> excluded am" and "distinct (map st_authority_id ts)"
  shows "\<exists>am'. foldM (\<lambda>t. apply_state_change t Include clock) ts am = Some am' \<and> am_inv c am' \<and> excluded am' \<subseteq> excluded am \<and>
    am_excluded_nodes_stake_threshold am' = am_excluded_nodes_stake_threshold am"
  using assms
proof (induction ts arbitrary: am)
  case (Cons t ts)
  from apply_include[OF Cons.prems(1), of t clock] Cons.prems(2) obtain am1 where
    1: "apply_state_change t Include clock am = Some am1" "am_inv c am1" "excluded am1 = excluded am - {st_authority_id t}"
      "am_excluded_nodes_stake_threshold am1 = am_excluded_nodes_stake_threshold am" by auto
  have "\<forall>t'\<in>set ts. transition_of c t' \<and> st_authority_id t' \<in> excluded am1"
    using Cons.prems(2) other_authority[OF Cons.prems(3)] 1(3) by simp
  from Cons.IH[OF 1(2) this] Cons.prems(3) obtain am2 where
    "foldM (\<lambda>t. apply_state_change t Include clock) ts am1 = Some am2" "am_inv c am2" "excluded am2 \<subseteq> excluded am1"
      "am_excluded_nodes_stake_threshold am2 = am_excluded_nodes_stake_threshold am1" by auto
  then show ?case using 1 by auto
qed simp

lemma exclude_all:
  assumes "am_inv c am" and "auths_total (c_authorities c) < 2 ^ 64"
    and "\<forall>t\<in>set ts. transition_of c t \<and> st_authority_id t \<notin> excluded am" and "distinct (map st_authority_id ts)"
  shows "\<exists>am'. foldM (\<lambda>t am. if am_total_excluded_stake am + st_stake t \<le> am_excluded_nodes_stake_threshold am
         then apply_state_change t (Exclude (st_score t)) clock am else Some am) ts am = Some am' \<and> am_inv c am' \<and>
    am_excluded_nodes_stake_threshold am' = am_excluded_nodes_stake_threshold am"
  using assms
proof (induction ts arbitrary: am)
  case (Cons t ts)
  show ?case
  proof (cases "am_total_excluded_stake am + st_stake t \<le> am_excluded_nodes_stake_threshold am")
    case True
    from apply_exclude[OF Cons.prems(1,2) _ _ True, of "st_score t" clock] Cons.prems(3) obtain am1 where
      1: "apply_state_change t (Exclude (st_score t)) clock am = Some am1" "am_inv c am1" "excluded am1 = insert (st_authority_id t) (excluded am)"
        "am_excluded_nodes_stake_threshold am1 = am_excluded_nodes_stake_threshold am" by auto
    have "\<forall>t'\<in>set ts. transition_of c t' \<and> st_authority_id t' \<notin> excluded am1"
      using Cons.prems(3) other_authority[OF Cons.prems(4)] 1(3) by simp
    from Cons.IH[OF 1(2) Cons.prems(2) this] Cons.prems(4) 1 True show ?thesis by auto
  next
    case False
    then show ?thesis using Cons by simp
  qed
qed simp

text \<open>The transitions collected for the authorities below \<open>n\<close>.\<close>

definition collected :: "committee \<Rightarrow> ancestor_state_manager \<Rightarrow> nat \<Rightarrow> state_transition list \<times> state_transition list \<Rightarrow> bool" where
  "collected c am n = (\<lambda>(inc, exc).
     (\<forall>t\<in>set inc. transition_of c t \<and> st_authority_id t \<in> excluded am \<and> st_authority_id t < n) \<and> distinct (map st_authority_id inc) \<and>
     (\<forall>t\<in>set exc. transition_of c t \<and> st_authority_id t \<notin> excluded am \<and> st_authority_id t < n) \<and> distinct (map st_authority_id exc))"

lemma collect_step:
  assumes inv: "am_inv c am" and n: "n < committee_size c" "n < length qrs" and col: "collected c am n (inc, exc)"
  shows "\<exists>st. collect_transition am qrs network clock low (n, score) (inc, exc) = Some st \<and> collected c am (Suc n) st"
proof -
  let ?info = "am_state_map am ! n"
  let ?t = "\<lparr>st_authority_id = n, st_score = score, st_stake = a_stake (c_authorities c ! n), st_high_quorum_round = snd (qrs ! n)\<rparr>"
  have m: "n < length (am_state_map am)" "cx_committee (am_context am) = c" "n < length (c_authorities c)"
    using inv n by (simp_all add: am_inv_def committee_size_def)
  have ex: "n \<in> excluded am \<longleftrightarrow> ai_state ?info \<noteq> Include" using m(1) by (simp add: excluded_def)
  have t: "transition_of c ?t" using n by (simp add: transition_of_def)
  have fresh: "n \<notin> st_authority_id ` set inc" "n \<notin> st_authority_id ` set exc" using col by (auto simp: collected_def)
  have same: "collected c am (Suc n) (inc, exc)" using col by (auto simp: collected_def)
  have inc: "collected c am (Suc n) (inc @ [?t], exc)" if "n \<in> excluded am" using col t fresh that by (auto simp: collected_def)
  have exc: "collected c am (Suc n) (inc, exc @ [?t])" if "n \<notin> excluded am" using col t fresh that by (auto simp: collected_def)
  show ?thesis using same inc exc ex m n(2)
    by (cases "ai_state ?info") (simp_all add: collect_transition_def to_authority_index_def committee_authority_def Let_def case_prod_unfold)
qed

lemma collect_all:
  assumes "am_inv c am" and "n + length scores \<le> committee_size c" and "length qrs = committee_size c" and "collected c am n (inc, exc)"
  shows "\<exists>st. foldM (collect_transition am qrs network clock low) (enumerate n scores) (inc, exc) = Some st \<and>
    collected c am (n + length scores) st"
  using assms(2,4)
proof (induction scores arbitrary: n inc exc)
  case (Cons s scores)
  from collect_step[OF assms(1) _ _ Cons.prems(2), of qrs network clock low s] Cons.prems(1) assms(3) obtain inc1 exc1 where
    1: "collect_transition am qrs network clock low (n, s) (inc, exc) = Some (inc1, exc1)" "collected c am (Suc n) (inc1, exc1)" by auto
  from Cons.IH[OF _ 1(2)] Cons.prems(1) 1(1) show ?case by simp
qed simp

lemma update_all_spec:
  assumes inv: "am_inv c am" and wf: "committee_wf c" and l: "length (rs_scores_per_authority (am_propagation_scores am)) \<le> committee_size c"
    and q: "length qrs = committee_size c"
  shows "\<exists>am'. update_all_ancestors_state qrs ds am = Some am' \<and> am_inv c am' \<and>
    am_excluded_nodes_stake_threshold am' = am_excluded_nodes_stake_threshold am"
proof -
  let ?clock = "ds_threshold_clock_round ds" and ?low = "(highest_score (am_propagation_scores am) * SCORE_EXCLUSION_THRESHOLD_PERCENTAGE) div 100"
  let ?net = "calculate_network_high_quorum_round am qrs" and ?sc = "rs_scores_per_authority (am_propagation_scores am)"
  have "collected c am 0 ([], [])" by (simp add: collected_def)
  from collect_all[OF inv _ q this, of ?sc ?net ?clock ?low] l obtain inc exc where
    1: "foldM (collect_transition am qrs ?net ?clock ?low) (enumerate 0 ?sc) ([], []) = Some (inc, exc)" "collected c am (length ?sc) (inc, exc)" by auto
  from include_all[OF inv, of inc ?clock] 1(2) obtain am1 where
    2: "foldM (\<lambda>t. apply_state_change t Include ?clock) inc am = Some am1" "am_inv c am1" "excluded am1 \<subseteq> excluded am"
      "am_excluded_nodes_stake_threshold am1 = am_excluded_nodes_stake_threshold am" by (auto simp: collected_def)
  have "mset (map st_authority_id (sort_key st_score exc)) = mset (map st_authority_id exc)" by simp
  then have d: "distinct (map st_authority_id (sort_key st_score exc))" using 1(2) unfolding collected_def by (metis (no_types, lifting) case_prodD mset_eq_imp_distinct_iff)
  have "\<forall>t\<in>set (sort_key st_score exc). transition_of c t \<and> st_authority_id t \<notin> excluded am1"
    using 1(2) 2(3) by (auto simp: collected_def)
  from exclude_all[OF 2(2) _ this d, of ?clock] wf 1(1) 2(1,4) show ?thesis
    by (auto simp: update_all_ancestors_state_def Let_def committee_wf_def)
qed

subsection \<open>Properties\<close>

text \<open>What a node feeds the manager between two proposals: scores, quorum rounds and the DAG state.\<close>

definition ancestor_update ::
  "reputation_scores \<times> (round \<times> round) list \<times> dag_state \<Rightarrow> ancestor_state_manager \<Rightarrow> ancestor_state_manager option" where
  "ancestor_update = (\<lambda>(scores, qrs, ds) am. update_all_ancestors_state qrs ds (set_propagation_scores scores am))"

lemma ancestor_updates_inv:
  assumes "am_inv c am" and "committee_wf c"
    and "\<forall>(scores, qrs, ds)\<in>set us. length (rs_scores_per_authority scores) \<le> committee_size c \<and> length qrs = committee_size c"
  shows "\<exists>am'. foldM ancestor_update us am = Some am' \<and> am_inv c am' \<and>
    am_excluded_nodes_stake_threshold am' = am_excluded_nodes_stake_threshold am"
  using assms(1,3)
proof (induction us arbitrary: am)
  case (Cons u us)
  obtain scores qrs ds where u: "u = (scores, qrs, ds)" by (cases u)
  have inv: "am_inv c (set_propagation_scores scores am)" using Cons.prems(1) by simp
  from update_all_spec[OF inv assms(2), of qrs ds] Cons.prems(2) obtain am1 where
    1: "ancestor_update u am = Some am1" "am_inv c am1" "am_excluded_nodes_stake_threshold am1 = am_excluded_nodes_stake_threshold am"
    by (auto simp: u ancestor_update_def)
  from Cons.IH[OF 1(2)] Cons.prems(2) 1 show ?case by auto
qed simp

lemma excluded_below_third: "0 < n \<Longrightarrow> 22 * n div 100 \<le> (n - 1) div (3 :: nat)"
proof -
  assume n: "0 < n"
  define k where "k = 22 * n div 100"
  have "100 * k \<le> 22 * n" by (simp add: k_def)
  with n have "3 * k + 1 \<le> n" by (cases "k = 0") linarith+
  then have "k * 3 \<le> n - 1" by simp
  then show ?thesis by (simp add: k_def[symmetric] less_eq_div_iff_mult_less_eq)
qed

lemma excluded_threshold:
  assumes "auths_total (c_authorities c) < 2 ^ 57" and "unat (c_total_stake c) = auths_total (c_authorities c)"
    and "cx_committee ctx = c" and "unat (pc_bad_nodes_stake_threshold (cx_protocol_config ctx)) \<le> 33"
  shows "unat (am_excluded_nodes_stake_threshold (am_new ctx)) \<le> 22 * auths_total (c_authorities c) div 100"
proof -
  let ?b = "pc_bad_nodes_stake_threshold (cx_protocol_config ctx)" and ?t = "c_total_stake c"
  have b2: "unat (2 * ?b) = 2 * unat ?b" using unat_mult_u64[of 2 ?b] assms(4) by simp
  then have p: "unat (2 * ?b div 3) = 2 * unat ?b div 3" by (simp add: unat_div)
  then have p22: "unat (2 * ?b div 3) \<le> 22" using assms(4) by linarith
  have "unat (2 * ?b div 3) * unat ?t \<le> 22 * unat ?t" using p22 by (rule mult_le_mono1)
  also have "\<dots> < 2 ^ 64" using assms(1,2) by simp
  finally have m: "unat ((2 * ?b div 3) * ?t) = unat (2 * ?b div 3) * unat ?t" by (rule unat_mult_u64)
  have "am_excluded_nodes_stake_threshold (am_new ctx) = ((2 * ?b div 3) * ?t) div 100" using assms(3) by (simp add: am_new_def Let_def)
  then have "unat (am_excluded_nodes_stake_threshold (am_new ctx)) = unat (2 * ?b div 3) * unat ?t div 100" using m by (simp add: unat_div)
  also have "\<dots> \<le> 22 * unat ?t div 100" by (rule div_le_mono) (rule mult_le_mono1[OF p22])
  finally show ?thesis using assms(2) by simp
qed

text \<open>
  C17. For a committee that \<^verbatim>\<open>Committee::new\<close> builds from a total stake below \<open>2 ^ 57\<close>, and a bad node threshold
  within the 33 percent the leader schedule allows: however often the ancestor states are updated, and whatever the scores (at most one per
  authority) and quorum rounds (one per authority), no update panics, the running total is the stake of the excluded authorities, and
  the included authorities always hold a quorum, so excluding ancestors never leaves a node without enough parents. Committees of
  \<^verbatim>\<open>Committee::new_v3\<close> are not covered: their quorum threshold can exceed what the exclusion leaves.
\<close>

theorem included_ancestors_hold_quorum:
  assumes "committee_new ep auths = Some c" and "auths_total auths < 2 ^ 57" and "cx_committee ctx = c"
    and "unat (pc_bad_nodes_stake_threshold (cx_protocol_config ctx)) \<le> 33"
    and "\<forall>(scores, qrs, ds)\<in>set us. length (rs_scores_per_authority scores) \<le> committee_size c \<and> length qrs = committee_size c"
  shows "\<exists>am. foldM ancestor_update us (am_new ctx) = Some am \<and>
    unat (am_total_excluded_stake am) = set_stake c {i. i < committee_size c \<and> get_ancestor_states am ! i \<noteq> Include} \<and>
    unat (c_quorum_threshold c) \<le> set_stake c {i. i < committee_size c \<and> get_ancestor_states am ! i = Include}"
proof -
  have tot: "auths_total auths < 2 ^ 63" using assms(2) by simp
  note e = committee_new_exact[OF tot assms(1)] and wf = committee_new_wf[OF tot assms(1)]
  from ancestor_updates_inv[OF am_inv_new[of ctx, unfolded assms(3)] wf assms(5)] obtain am where
    am: "foldM ancestor_update us (am_new ctx) = Some am" "am_inv c am"
      "am_excluded_nodes_stake_threshold am = am_excluded_nodes_stake_threshold (am_new ctx)" by auto
  have ex: "excluded am = {i. i < committee_size c \<and> get_ancestor_states am ! i \<noteq> Include}"
    using am(2) by (auto simp: excluded_def am_inv_def get_ancestor_states_def)
  have "set_stake c (excluded am) \<le> 22 * auths_total auths div 100"
    using am(2,3) excluded_threshold[of c ctx] assms(2-4) e(1,3) by (simp add: am_inv_def word_le_nat_alt)
  moreover have "22 * auths_total auths div 100 \<le> (auths_total auths - 1) div 3" by (rule excluded_below_third[OF e(4)])
  moreover have "(auths_total auths - 1) div 3 < auths_total auths" using e(4) by linarith
  ultimately have "unat (c_quorum_threshold c) + set_stake c (excluded am) \<le> auths_total (c_authorities c)"
    unfolding e(1,5) by linarith
  then show ?thesis using am(1,2) set_stake_compl[of c "\<lambda>i. get_ancestor_states am ! i = Include"] ex
    by (intro exI[of _ am]) (simp add: am_inv_def)
qed

text \<open>Ten authorities of stake 10; two of them score low, and only one fits under the 13 percent that may be excluded.\<close>

definition committee10 :: committee where
  "committee10 = \<lparr>c_epoch = 0, c_authorities = replicate 10 (sample_authority 10), c_total_stake = 100,
     c_quorum_threshold = 67, c_certification_threshold = 67, c_validity_threshold = 34\<rparr>"

definition sample_scores :: reputation_scores where
  "sample_scores = reputation_scores_new commit_range_default [90, 100, 5, 100, 2, 100, 100, 100, 100, 100]"

theorem included_ancestors_hold_quorum_witness:
  "map_option am_total_excluded_stake (foldM ancestor_update [(sample_scores, replicate 10 (4, 6), sample_dag)]
     (am_new (sample_context\<lparr>cx_committee := committee10\<rparr>))) = Some 10 \<and>
   (\<exists>am. foldM ancestor_update [(sample_scores, replicate 10 (4, 6), sample_dag)] (am_new (sample_context\<lparr>cx_committee := committee10\<rparr>)) = Some am \<and>
    unat (am_total_excluded_stake am) = set_stake committee10 {i. i < committee_size committee10 \<and> get_ancestor_states am ! i \<noteq> Include} \<and>
    unat (c_quorum_threshold committee10) \<le> set_stake committee10 {i. i < committee_size committee10 \<and> get_ancestor_states am ! i = Include})"
proof
  show "map_option am_total_excluded_stake (foldM ancestor_update [(sample_scores, replicate 10 (4, 6), sample_dag)]
     (am_new (sample_context\<lparr>cx_committee := committee10\<rparr>))) = Some 10" by code_simp
  have c: "committee_new 0 (replicate 10 (sample_authority 10)) = Some committee10"
    by (simp add: committee_new_def Let_def sample_authority_def u32_max_def committee10_def sum_list_replicate)
  have t: "auths_total (replicate 10 (sample_authority 10)) < 2 ^ 57" by (simp add: auths_total_def sample_authority_def sum_list_replicate)
  have n: "committee_size committee10 = 10" by code_simp
  show "\<exists>am. foldM ancestor_update [(sample_scores, replicate 10 (4, 6), sample_dag)] (am_new (sample_context\<lparr>cx_committee := committee10\<rparr>)) = Some am \<and>
    unat (am_total_excluded_stake am) = set_stake committee10 {i. i < committee_size committee10 \<and> get_ancestor_states am ! i \<noteq> Include} \<and>
    unat (c_quorum_threshold committee10) \<le> set_stake committee10 {i. i < committee_size committee10 \<and> get_ancestor_states am ! i = Include}"
    by (rule included_ancestors_hold_quorum[OF c t]) (simp_all add: n sample_context_def sample_scores_def reputation_scores_new_def)
qed

end
