(* ===== verification/Transaction_Consumer.thy ===== *)
theory Transaction_Consumer
  imports Block_Verifier
begin

text \<open>
  Submission and consumption of transactions (\<^verbatim>\<open>consensus/core/src/transaction.rs\<close>): the client checks a bundle and
  puts it into a channel, the consumer takes bundles out for the next block and later reports the status of the block.
  The channel is the list of the bundles in it; waiting for room in it is not modelled. A one-shot channel
  is its identifier, and the messages sent on such channels are returned.
\<close>

subsection \<open>Data\<close>

record transactions_guard =
  tg_transactions :: "transaction list"
  tg_included_in_block_ack :: nat

record transaction_consumer =
  tc_tx_receiver :: "transactions_guard list"
  tc_max_transactions_in_block_bytes :: nat
  tc_max_num_transactions_in_block :: nat
  tc_pending_transactions :: "transactions_guard option"
  tc_block_status_subscribers :: "(block_ref, nat list) fmap"

datatype block_status = Sequenced block_ref | GarbageCollected block_ref

datatype limit_reached = MaxNumOfTransactions | MaxBytes | AllTransactionsIncluded

definition NUM_RESERVED_TRANSACTION_INDICES :: transaction_index where
  "NUM_RESERVED_TRANSACTION_INDICES = 8"

definition PING_TRANSACTION_INDEX :: transaction_index where
  "PING_TRANSACTION_INDEX = 65535"

subsection \<open>The consumer\<close>

definition transaction_consumer_new :: "transactions_guard list \<Rightarrow> consensus_context \<Rightarrow> transaction_consumer option" where
  "transaction_consumer_new tx_receiver ctx = do {
     let pc = cx_protocol_config ctx;
     assert_that (pc_max_num_transactions_in_block pc - 1 < 65535 - NUM_RESERVED_TRANSACTION_INDICES);
     Some \<lparr>tc_tx_receiver = tx_receiver,
       tc_max_transactions_in_block_bytes = pc_max_transactions_in_block_bytes pc,
       tc_max_num_transactions_in_block = pc_max_num_transactions_in_block pc,
       tc_pending_transactions = None, tc_block_status_subscribers = fmempty\<rparr>
   }"

text \<open>What the closure \<^verbatim>\<open>handle_txs\<close> of \<^verbatim>\<open>next\<close> captures.\<close>

record next_state =
  nx_transactions :: "transaction list"
  nx_acks :: "(nat \<times> transaction_index list) list"
  nx_total_bytes :: nat
  nx_limit_reached :: limit_reached

definition handle_txs :: "transaction_consumer \<Rightarrow> transactions_guard \<Rightarrow> next_state \<Rightarrow> next_state \<times> transactions_guard option" where
  "handle_txs tc t st =
     (let transactions_num = length (tg_transactions t) in
      if transactions_num = 0
      then (st\<lparr>nx_acks := nx_acks st @ [(tg_included_in_block_ack t, [PING_TRANSACTION_INDEX])]\<rparr>, None)
      else
        let transactions_bytes = sum_list (map (\<lambda>t. length (t_data t)) (tg_transactions t)) in
        if nx_total_bytes st + transactions_bytes > tc_max_transactions_in_block_bytes tc
        then (st\<lparr>nx_limit_reached := MaxBytes\<rparr>, Some t)
        else if length (nx_transactions st) + transactions_num > tc_max_num_transactions_in_block tc
        then (st\<lparr>nx_limit_reached := MaxNumOfTransactions\<rparr>, Some t)
        else
          let start_idx = length (nx_transactions st) mod 2 ^ 16;
              indices = [start_idx..<(start_idx + transactions_num mod 2 ^ 16) mod 2 ^ 16]
          in (st\<lparr>nx_total_bytes := nx_total_bytes st + transactions_bytes,
                 nx_acks := nx_acks st @ [(tg_included_in_block_ack t, indices)],
                 nx_transactions := nx_transactions st @ tg_transactions t\<rparr>, None))"

text \<open>The loop that receives until a bundle does not fit or the channel is empty.\<close>

fun receive_loop :: "transaction_consumer \<Rightarrow> transactions_guard list \<Rightarrow> next_state \<Rightarrow>
  transactions_guard list \<times> transactions_guard option \<times> next_state" where
  "receive_loop tc [] st = ([], None, st)"
| "receive_loop tc (t # ts) st =
     (case handle_txs tc t st of
        (st, None) \<Rightarrow> receive_loop tc ts st
      | (st, Some t) \<Rightarrow> (ts, Some t, st))"

text \<open>The transactions for the block, the acknowledgements to send once it has a reference, and the limit.\<close>

definition consumer_next :: "transaction_consumer \<Rightarrow>
  (transaction list \<times> (nat \<times> transaction_index list) list \<times> limit_reached) \<times> transaction_consumer" where
  "consumer_next tc =
     (let st = \<lparr>nx_transactions = [], nx_acks = [], nx_total_bytes = 0, nx_limit_reached = AllTransactionsIncluded\<rparr>;
          st = (case tc_pending_transactions tc of None \<Rightarrow> st | Some t \<Rightarrow> fst (handle_txs tc t st));
          (receiver, pending, st) = receive_loop tc (tc_tx_receiver tc) st
      in ((nx_transactions st, nx_acks st, nx_limit_reached st),
          tc\<lparr>tc_tx_receiver := receiver, tc_pending_transactions := pending\<rparr>))"

text \<open>The callback: it subscribes the submitters to the status of the block and sends them their indices.\<close>

definition ack_transactions :: "(nat \<times> transaction_index list) list \<Rightarrow> block_ref \<Rightarrow> transaction_consumer \<Rightarrow>
  transaction_consumer \<times> (nat \<times> block_ref \<times> transaction_index list) list" where
  "ack_transactions acks r tc =
     (tc\<lparr>tc_block_status_subscribers :=
        fold (\<lambda>(ack, _) m. fmupd r ((case fmlookup m r of Some s \<Rightarrow> s | None \<Rightarrow> []) @ [ack]) m) acks (tc_block_status_subscribers tc)\<rparr>,
      map (\<lambda>(ack, indices). (ack, r, indices)) acks)"

definition notify_committed :: "block_ref \<Rightarrow> (block_ref, nat list) fmap \<times> (nat \<times> block_status) list \<Rightarrow>
  (block_ref, nat list) fmap \<times> (nat \<times> block_status) list" where
  "notify_committed r = (\<lambda>(m, sent). case fmlookup m r of
      Some subscribers \<Rightarrow> (fmdrop r m, sent @ map (\<lambda>s. (s, Sequenced r)) subscribers)
    | None \<Rightarrow> (m, sent))"

text \<open>The loop over the smallest references, on the sorted list of the references in the map.\<close>

fun notify_gc :: "round \<Rightarrow> block_ref list \<Rightarrow> (block_ref, nat list) fmap \<times> (nat \<times> block_status) list \<Rightarrow>
  (block_ref, nat list) fmap \<times> (nat \<times> block_status) list" where
  "notify_gc gc_round [] (m, sent) = (m, sent)"
| "notify_gc gc_round (r # rs) (m, sent) =
     (if br_round r \<le> gc_round
      then notify_gc gc_round rs (fmdrop r m, sent @ map (\<lambda>s. (s, GarbageCollected r)) (case fmlookup m r of Some s \<Rightarrow> s | None \<Rightarrow> []))
      else (m, sent))"

definition notify_own_blocks_status :: "block_ref list \<Rightarrow> round \<Rightarrow> transaction_consumer \<Rightarrow>
  transaction_consumer \<times> (nat \<times> block_status) list" where
  "notify_own_blocks_status committed_blocks gc_round tc =
     (let (m, sent) = fold notify_committed committed_blocks (tc_block_status_subscribers tc, []);
          (m, sent) = notify_gc gc_round (sorted_list_of_fset (fmdom m)) (m, sent)
      in (tc\<lparr>tc_block_status_subscribers := m\<rparr>, sent))"

subsection \<open>The client\<close>

record transaction_client =
  cl_max_transaction_size :: nat
  cl_max_transactions_in_block_bytes :: nat
  cl_max_transactions_in_block_count :: nat

datatype client_error =
    OversizedTransaction nat nat
  | OversizedTransactionBundleBytes nat nat
  | OversizedTransactionBundleCount nat nat

definition transaction_client_new :: "consensus_context \<Rightarrow> transaction_client" where
  "transaction_client_new ctx =
     (let pc = cx_protocol_config ctx in
      \<lparr>cl_max_transaction_size = pc_max_transaction_size_bytes pc,
       cl_max_transactions_in_block_bytes = pc_max_transactions_in_block_bytes pc,
       cl_max_transactions_in_block_count = pc_max_num_transactions_in_block pc\<rparr>)"

fun check_bundle :: "transaction_client \<Rightarrow> nat \<Rightarrow> bytes list \<Rightarrow> client_error + unit" where
  "check_bundle cl bundle_size [] = Inr ()"
| "check_bundle cl bundle_size (t # ts) =
     (if length t > cl_max_transaction_size cl then Inl (OversizedTransaction (length t) (cl_max_transaction_size cl))
      else if bundle_size + length t > cl_max_transactions_in_block_bytes cl
      then Inl (OversizedTransactionBundleBytes (bundle_size + length t) (cl_max_transactions_in_block_bytes cl))
      else check_bundle cl (bundle_size + length t) ts)"

definition submit_no_wait :: "transaction_client \<Rightarrow> bytes list \<Rightarrow> nat \<Rightarrow> transactions_guard list \<Rightarrow> client_error + transactions_guard list" where
  "submit_no_wait cl transactions ack queue =
     (if length transactions > cl_max_transactions_in_block_count cl
      then Inl (OversizedTransactionBundleCount (length transactions) (cl_max_transactions_in_block_count cl))
      else case check_bundle cl 0 transactions of
        Inl e \<Rightarrow> Inl e
      | Inr _ \<Rightarrow> Inr (queue @ [\<lparr>tg_transactions = map (\<lambda>d. \<lparr>t_data = d\<rparr>) transactions, tg_included_in_block_ack = ack\<rparr>]))"

subsection \<open>What is submitted is what blocks carry\<close>

text \<open>
  The transactions of a block that an acknowledgement points to; \<open>None\<close> when it is the reserved index of a ping. A bundle
  without transactions expects the latter.
\<close>

definition acked :: "transaction list \<Rightarrow> nat \<times> transaction_index list \<Rightarrow> nat \<times> transaction list option" where
  "acked txs = (\<lambda>(ack, indices). (ack, if indices = [PING_TRANSACTION_INDEX] then None else Some (map (\<lambda>i. txs ! i) indices)))"

definition expected_ack :: "nat \<Rightarrow> transaction list \<Rightarrow> nat \<times> transaction list option" where
  "expected_ack ack txs = (ack, if txs = [] then None else Some txs)"

abbreviation guard_pair :: "transactions_guard \<Rightarrow> nat \<times> transaction list option" where
  "guard_pair g \<equiv> expected_ack (tg_included_in_block_ack g) (tg_transactions g)"

abbreviation txs_bytes :: "transaction list \<Rightarrow> nat" where
  "txs_bytes txs \<equiv> sum_list (map (\<lambda>t. length (t_data t)) txs)"

definition bundle_ok :: "transaction_consumer \<Rightarrow> transactions_guard \<Rightarrow> bool" where
  "bundle_ok tc g \<longleftrightarrow> length (tg_transactions g) \<le> tc_max_num_transactions_in_block tc \<and>
     txs_bytes (tg_transactions g) \<le> tc_max_transactions_in_block_bytes tc"

definition next_inv :: "transaction_consumer \<Rightarrow> transactions_guard list \<Rightarrow> next_state \<Rightarrow> bool" where
  "next_inv tc gs st \<longleftrightarrow> concat (map tg_transactions gs) = nx_transactions st \<and>
     map (acked (nx_transactions st)) (nx_acks st) = map guard_pair gs \<and>
     (\<forall>(ack, indices)\<in>set (nx_acks st). indices = [PING_TRANSACTION_INDEX] \<or> (\<forall>i\<in>set indices. i < length (nx_transactions st))) \<and>
     nx_total_bytes st = txs_bytes (nx_transactions st) \<and>
     length (nx_transactions st) \<le> tc_max_num_transactions_in_block tc \<and> nx_total_bytes st \<le> tc_max_transactions_in_block_bytes tc"

lemma acked_append:
  fixes txs :: "transaction list"
  assumes "indices = [PING_TRANSACTION_INDEX] \<or> (\<forall>i\<in>set indices. i < length txs)"
  shows "acked (txs @ txs2) (ack, indices) = acked txs (ack, indices)"
  using assms by (auto simp: acked_def nth_append)

lemma acked_ping [simp]: "acked txs (ack, [PING_TRANSACTION_INDEX]) = expected_ack ack []"
  by (simp add: acked_def expected_ack_def)

lemma handle_txs_fits:
  assumes lim: "tc_max_num_transactions_in_block tc \<le> 65527" and inv: "next_inv tc gs st" and f: "handle_txs tc g st = (st', None)"
  shows "next_inv tc (gs @ [g]) st'"
proof (cases "tg_transactions g = []")
  case True
  then show ?thesis using inv f by (auto simp: handle_txs_def next_inv_def)
next
  case False
  let ?n = "length (tg_transactions g)" and ?T = "nx_transactions st"
  have fit: "nx_total_bytes st + txs_bytes (tg_transactions g) \<le> tc_max_transactions_in_block_bytes tc"
    "length ?T + ?n \<le> tc_max_num_transactions_in_block tc"
    using f False by (auto simp: handle_txs_def Let_def split: if_splits)
  have m: "length ?T mod 2 ^ 16 = length ?T" "(length ?T + ?n mod 2 ^ 16) mod 2 ^ 16 = length ?T + ?n"
    using fit(2) lim by (simp_all add: mod_less)
  have st': "st' = st\<lparr>nx_total_bytes := nx_total_bytes st + txs_bytes (tg_transactions g),
      nx_acks := nx_acks st @ [(tg_included_in_block_ack g, [length ?T..<length ?T + ?n])], nx_transactions := ?T @ tg_transactions g\<rparr>"
    using f False fit m by (simp add: handle_txs_def Let_def split: if_splits)
  have "[length ?T..<length ?T + ?n] \<noteq> [PING_TRANSACTION_INDEX]"
  proof
    assume "[length ?T..<length ?T + ?n] = [PING_TRANSACTION_INDEX]"
    then have "PING_TRANSACTION_INDEX \<in> set [length ?T..<length ?T + ?n]" by simp
    then show False using fit(2) lim by (simp add: PING_TRANSACTION_INDEX_def)
  qed
  moreover have "map (\<lambda>i. (?T @ tg_transactions g) ! i) [length ?T..<length ?T + ?n] = tg_transactions g"
    by (rule nth_equalityI) (auto simp: nth_append)
  ultimately have new: "acked (?T @ tg_transactions g) (tg_included_in_block_ack g, [length ?T..<length ?T + ?n]) = guard_pair g"
    using False by (simp add: acked_def expected_ack_def)
  have "map (acked (?T @ tg_transactions g)) (nx_acks st) = map (acked ?T) (nx_acks st)"
  proof (rule map_cong[OF refl])
    fix x assume x: "x \<in> set (nx_acks st)"
    obtain ack indices where "x = (ack, indices)" by fastforce
    then show "acked (?T @ tg_transactions g) x = acked ?T x" using x inv acked_append[of indices ?T "tg_transactions g" ack]
      unfolding next_inv_def by blast
  qed
  also have "\<dots> = map guard_pair gs" using inv unfolding next_inv_def by blast
  finally have "map (acked (nx_transactions st')) (nx_acks st') = map guard_pair (gs @ [g])" using new unfolding st' by simp
  moreover have "\<forall>(ack, indices)\<in>set (nx_acks st'). indices = [PING_TRANSACTION_INDEX] \<or> (\<forall>i\<in>set indices. i < length (nx_transactions st'))"
    using inv unfolding st' by (force simp: next_inv_def)
  ultimately show ?thesis using inv fit unfolding next_inv_def st' by simp
qed

lemma handle_txs_full:
  "handle_txs tc g st = (st', Some t) \<Longrightarrow> t = g \<and> nx_transactions st' = nx_transactions st \<and> nx_acks st' = nx_acks st \<and> nx_total_bytes st' = nx_total_bytes st"
  by (auto simp: handle_txs_def Let_def split: if_splits)

lemma next_inv_full: "handle_txs tc g st = (st', Some t) \<Longrightarrow> next_inv tc gs st \<Longrightarrow> next_inv tc gs st'"
  by (drule handle_txs_full) (simp add: next_inv_def)

lemma receive_loop_inv:
  assumes "tc_max_num_transactions_in_block tc \<le> 65527" and "next_inv tc gs st" and "receive_loop tc ts st = (receiver, pending, st')"
  shows "\<exists>taken. ts = taken @ (case pending of Some t \<Rightarrow> [t] | None \<Rightarrow> []) @ receiver \<and> next_inv tc (gs @ taken) st'"
  using assms
proof (induction ts arbitrary: gs st)
  case (Cons t ts)
  obtain st1 p where h: "handle_txs tc t st = (st1, p)" by fastforce
  show ?case
  proof (cases p)
    case None
    from Cons.IH[OF Cons.prems(1) handle_txs_fits[OF Cons.prems(1,2)]] h None Cons.prems(3)
    obtain taken where "ts = taken @ (case pending of Some t \<Rightarrow> [t] | None \<Rightarrow> []) @ receiver" "next_inv tc ((gs @ [t]) @ taken) st'" by auto
    then show ?thesis by (intro exI[of _ "t # taken"]) simp
  next
    case (Some t')
    then show ?thesis using h Cons.prems handle_txs_full[of tc t st st1 t'] next_inv_full[of tc t st st1 t' gs] by (intro exI[of _ "[]"]) auto
  qed
qed simp

text \<open>The bundles a consumer holds, in the order it takes them.\<close>

definition held_bundles :: "transaction_consumer \<Rightarrow> transactions_guard list" where
  "held_bundles tc = (case tc_pending_transactions tc of Some t \<Rightarrow> [t] | None \<Rightarrow> []) @ tc_tx_receiver tc"

lemma fits_empty:
  assumes "bundle_ok tc g"
  shows "\<exists>st'. handle_txs tc g \<lparr>nx_transactions = [], nx_acks = [], nx_total_bytes = 0, nx_limit_reached = l\<rparr> = (st', None)"
  using assms by (auto simp: bundle_ok_def handle_txs_def Let_def)

lemma consumer_next_spec:
  assumes lim: "tc_max_num_transactions_in_block tc \<le> 65527" and ok: "\<forall>g\<in>set (held_bundles tc). bundle_ok tc g"
    and nxt: "consumer_next tc = ((txs, acks, l), tc')"
  shows "\<exists>taken. held_bundles tc = taken @ held_bundles tc' \<and> (held_bundles tc \<noteq> [] \<longrightarrow> taken \<noteq> []) \<and>
    txs = concat (map tg_transactions taken) \<and> map (acked txs) acks = map guard_pair taken \<and>
    length txs \<le> tc_max_num_transactions_in_block tc \<and> txs_bytes txs \<le> tc_max_transactions_in_block_bytes tc"
proof -
  let ?e = "\<lparr>nx_transactions = [], nx_acks = [], nx_total_bytes = 0, nx_limit_reached = AllTransactionsIncluded\<rparr>"
  have e: "next_inv tc [] ?e" by (simp add: next_inv_def)
  define st0 where "st0 = (case tc_pending_transactions tc of None \<Rightarrow> ?e | Some t \<Rightarrow> fst (handle_txs tc t ?e))"
  obtain receiver pending st where r: "receive_loop tc (tc_tx_receiver tc) st0 = (receiver, pending, st)" by (metis prod_cases3)
  have n: "txs = nx_transactions st" "acks = nx_acks st" "tc' = tc\<lparr>tc_tx_receiver := receiver, tc_pending_transactions := pending\<rparr>"
    using nxt r by (auto simp: consumer_next_def Let_def st0_def)
  define first where "first = (case tc_pending_transactions tc of Some t \<Rightarrow> [t] | None \<Rightarrow> [])"
  have i: "next_inv tc first st0"
  proof (cases "tc_pending_transactions tc")
    case (Some t)
    then have "bundle_ok tc t" using ok by (simp add: held_bundles_def)
    then show ?thesis using Some handle_txs_fits[OF lim e] fits_empty[of tc t] unfolding first_def st0_def by fastforce
  qed (simp add: e first_def st0_def)
  obtain taken where t: "tc_tx_receiver tc = taken @ (case pending of Some t \<Rightarrow> [t] | None \<Rightarrow> []) @ receiver" "next_inv tc (first @ taken) st"
    using receive_loop_inv[OF lim i r] by blast
  have held: "held_bundles tc = (first @ taken) @ held_bundles tc'" using t(1) by (simp add: held_bundles_def n(3) first_def)
  have "first @ taken \<noteq> []" if ne: "held_bundles tc \<noteq> []"
  proof (cases "tc_pending_transactions tc")
    case None
    then obtain g gs where q: "tc_tx_receiver tc = g # gs" using ne by (cases "tc_tx_receiver tc") (auto simp: held_bundles_def)
    then have "bundle_ok tc g" using ok by (simp add: held_bundles_def)
    then obtain st1 where "handle_txs tc g st0 = (st1, None)" using fits_empty[of tc g] None by (auto simp: st0_def)
    then have "receive_loop tc gs st1 = (receiver, pending, st)" using r q by simp
    with receive_loop_inv[OF lim handle_txs_fits[OF lim i \<open>handle_txs tc g st0 = (st1, None)\<close>]] obtain tk where
      "gs = tk @ (case pending of Some t \<Rightarrow> [t] | None \<Rightarrow> []) @ receiver" by blast
    then have "taken \<noteq> []" using t(1) q by (cases taken) (auto split: option.splits)
    then show ?thesis by simp
  qed (simp add: first_def)
  then show ?thesis using held t(2) unfolding n next_inv_def by (intro exI[of _ "first @ taken"]) auto
qed

text \<open>Making blocks one after the other until \<open>n\<close> blocks are made.\<close>

fun make_blocks :: "nat \<Rightarrow> transaction_consumer \<Rightarrow> (transaction list \<times> (nat \<times> transaction_index list) list) list \<times> transaction_consumer" where
  "make_blocks 0 tc = ([], tc)"
| "make_blocks (Suc n) tc =
     (let ((txs, acks, _), tc) = consumer_next tc; (bs, tc) = make_blocks n tc in ((txs, acks) # bs, tc))"

lemma consumer_next_limits:
  "consumer_next tc = (out, tc') \<Longrightarrow> tc_max_num_transactions_in_block tc' = tc_max_num_transactions_in_block tc \<and>
    tc_max_transactions_in_block_bytes tc' = tc_max_transactions_in_block_bytes tc"
  by (auto simp: consumer_next_def Let_def split: prod.splits)

lemma make_blocks_spec:
  assumes "tc_max_num_transactions_in_block tc \<le> 65527" and "\<forall>g\<in>set (held_bundles tc). bundle_ok tc g" and "length (held_bundles tc) \<le> n"
  shows "\<exists>blocks tc'. make_blocks n tc = (blocks, tc') \<and> held_bundles tc' = [] \<and>
    concat (map (\<lambda>(txs, acks). map (acked txs) acks) blocks) = map guard_pair (held_bundles tc) \<and>
    (\<forall>(txs, acks)\<in>set blocks. set txs \<subseteq> \<Union> (set ` tg_transactions ` set (held_bundles tc)) \<and>
       length txs \<le> tc_max_num_transactions_in_block tc \<and> txs_bytes txs \<le> tc_max_transactions_in_block_bytes tc)"
  using assms
proof (induction n arbitrary: tc)
  case (Suc n)
  obtain txs acks l tc1 where nx: "consumer_next tc = ((txs, acks, l), tc1)" by (metis surj_pair)
  obtain taken where t: "held_bundles tc = taken @ held_bundles tc1" "held_bundles tc \<noteq> [] \<longrightarrow> taken \<noteq> []"
    "txs = concat (map tg_transactions taken)" "map (acked txs) acks = map guard_pair taken"
    "length txs \<le> tc_max_num_transactions_in_block tc" "txs_bytes txs \<le> tc_max_transactions_in_block_bytes tc"
    using consumer_next_spec[OF Suc.prems(1,2) nx] by blast
  note lim = consumer_next_limits[OF nx]
  have ok: "\<forall>g\<in>set (held_bundles tc1). bundle_ok tc1 g" using Suc.prems(2) t(1) lim by (simp add: bundle_ok_def)
  have "length (held_bundles tc1) \<le> n" using Suc.prems(3) t(1,2) by (cases taken) auto
  from Suc.IH[OF _ ok this] Suc.prems(1) lim obtain blocks tc' where b: "make_blocks n tc1 = (blocks, tc')" "held_bundles tc' = []"
    "concat (map (\<lambda>(txs, acks). map (acked txs) acks) blocks) = map guard_pair (held_bundles tc1)"
    "\<forall>(txs, acks)\<in>set blocks. set txs \<subseteq> \<Union> (set ` tg_transactions ` set (held_bundles tc1)) \<and>
       length txs \<le> tc_max_num_transactions_in_block tc \<and> txs_bytes txs \<le> tc_max_transactions_in_block_bytes tc" by auto
  have "set txs \<subseteq> \<Union> (set ` tg_transactions ` set (held_bundles tc))" using t(1,3) by auto
  moreover have "\<Union> (set ` tg_transactions ` set (held_bundles tc1)) \<subseteq> \<Union> (set ` tg_transactions ` set (held_bundles tc))" using t(1) by auto
  ultimately have "\<forall>(txs, acks)\<in>set ((txs, acks) # blocks). set txs \<subseteq> \<Union> (set ` tg_transactions ` set (held_bundles tc)) \<and>
       length txs \<le> tc_max_num_transactions_in_block tc \<and> txs_bytes txs \<le> tc_max_transactions_in_block_bytes tc"
    using b(4) t(5,6) by fastforce
  then show ?case using nx b(1-3) t(1,4) by (intro exI[of _ "(txs, acks) # blocks"] exI[of _ tc']) simp
qed simp

text \<open>Clients submitting bundles, each with its own acknowledgement channel.\<close>

fun submit_all :: "transaction_client \<Rightarrow> (nat \<times> bytes list) list \<Rightarrow> transactions_guard list \<Rightarrow> client_error + transactions_guard list" where
  "submit_all cl [] queue = Inr queue"
| "submit_all cl ((ack, transactions) # subs) queue =
     (case submit_no_wait cl transactions ack queue of Inl e \<Rightarrow> Inl e | Inr queue \<Rightarrow> submit_all cl subs queue)"

lemma check_bundle_ok:
  "check_bundle cl n ts = Inr u \<Longrightarrow> (\<forall>t\<in>set ts. length t \<le> cl_max_transaction_size cl) \<and>
    (ts \<noteq> [] \<longrightarrow> n + sum_list (map length ts) \<le> cl_max_transactions_in_block_bytes cl)"
proof (induction ts arbitrary: n)
  case (Cons t ts)
  then have c: "length t \<le> cl_max_transaction_size cl" "n + length t \<le> cl_max_transactions_in_block_bytes cl" "check_bundle cl (n + length t) ts = Inr u"
    by (auto split: if_splits)
  from Cons.IH[OF c(3)] c(1,2) show ?case by (cases "ts = []") (simp_all add: add.assoc)
qed simp

definition sub_guard :: "nat \<times> bytes list \<Rightarrow> transactions_guard" where
  "sub_guard = (\<lambda>(ack, ts). \<lparr>tg_transactions = map (\<lambda>d. \<lparr>t_data = d\<rparr>) ts, tg_included_in_block_ack = ack\<rparr>)"

lemma submit_all_spec:
  assumes "submit_all cl subs queue = Inr q"
  shows "q = queue @ map sub_guard subs \<and> (\<forall>(ack, ts)\<in>set subs. length ts \<le> cl_max_transactions_in_block_count cl \<and>
    (\<forall>t\<in>set ts. length t \<le> cl_max_transaction_size cl) \<and> sum_list (map length ts) \<le> cl_max_transactions_in_block_bytes cl)"
  using assms
proof (induction subs arbitrary: queue)
  case (Cons sub subs)
  obtain ack ts where sub: "sub = (ack, ts)" by fastforce
  have c: "\<not> length ts > cl_max_transactions_in_block_count cl" "check_bundle cl 0 ts = Inr ()"
    using Cons.prems sub by (auto simp: submit_no_wait_def split: if_splits sum.splits)
  then have "submit_all cl subs (queue @ [sub_guard sub]) = Inr q" using Cons.prems sub by (simp add: submit_no_wait_def sub_guard_def)
  from Cons.IH[OF this] check_bundle_ok[OF c(2)] c(1) sub show ?case by (cases ts) auto
qed simp

text \<open>
  C16. What clients submit is what blocks carry. When bundles of transactions are accepted by the client and blocks are then
  made one after the other, every bundle is acknowledged exactly once and in order, the indices of its
  acknowledgement point to exactly its transactions in the block made, a bundle without transactions (a ping) is acknowledged
  with the reserved index alone and no other bundle is,
  nothing stays behind after as many blocks as bundles, and every block passes the verifier's checks on its transactions.
\<close>

theorem submitted_bundles_included:
  assumes "transaction_consumer_new queue ctx = Some tc" and "submit_all (transaction_client_new ctx) subs [] = Inr queue" and "length subs \<le> n"
  shows "\<exists>blocks tc'. make_blocks n tc = (blocks, tc') \<and> tc_tx_receiver tc' = [] \<and> tc_pending_transactions tc' = None \<and>
    concat (map (\<lambda>(txs, acks). map (acked txs) acks) blocks) = map (\<lambda>(ack, ts). expected_ack ack (map (\<lambda>d. \<lparr>t_data = d\<rparr>) ts)) subs \<and>
    (\<forall>(txs, acks)\<in>set blocks. check_transactions ctx (map t_data txs) = Inr ())"
proof -
  let ?pc = "cx_protocol_config ctx"
  have tc: "held_bundles tc = queue" "tc_max_num_transactions_in_block tc = pc_max_num_transactions_in_block ?pc"
    "tc_max_transactions_in_block_bytes tc = pc_max_transactions_in_block_bytes ?pc" "tc_max_num_transactions_in_block tc \<le> 65527"
    using assms(1) by (auto simp: transaction_consumer_new_def NUM_RESERVED_TRANSACTION_INDICES_def held_bundles_def Let_def panic_simps)
  have q: "queue = map sub_guard subs" "\<forall>(ack, ts)\<in>set subs. length ts \<le> pc_max_num_transactions_in_block ?pc \<and>
      (\<forall>t\<in>set ts. length t \<le> pc_max_transaction_size_bytes ?pc) \<and> sum_list (map length ts) \<le> pc_max_transactions_in_block_bytes ?pc"
    using submit_all_spec[OF assms(2)] by (simp_all add: transaction_client_new_def Let_def)
  have ok: "\<forall>g\<in>set (held_bundles tc). bundle_ok tc g" using q(2) unfolding tc(1) q(1) by (auto simp: bundle_ok_def tc sub_guard_def comp_def)
  have "length (held_bundles tc) \<le> n" using assms(3) tc(1) q(1) by simp
  from make_blocks_spec[OF tc(4) ok this] obtain blocks tc' where b: "make_blocks n tc = (blocks, tc')" "held_bundles tc' = []"
    "concat (map (\<lambda>(txs, acks). map (acked txs) acks) blocks) = map guard_pair queue"
    "\<forall>(txs, acks)\<in>set blocks. set txs \<subseteq> \<Union> (set ` tg_transactions ` set queue) \<and>
       length txs \<le> pc_max_num_transactions_in_block ?pc \<and> txs_bytes txs \<le> pc_max_transactions_in_block_bytes ?pc"
    unfolding tc by blast
  have size: "length (t_data t) \<le> pc_max_transaction_size_bytes ?pc" if "t \<in> \<Union> (set ` tg_transactions ` set queue)" for t
    using that q(2) unfolding q(1) by (fastforce simp: sub_guard_def)
  have "check_transactions ctx (map t_data txs) = Inr ()" if "(txs, acks) \<in> set blocks" for txs acks
  proof -
    have "set txs \<subseteq> \<Union> (set ` tg_transactions ` set queue)" "length txs \<le> pc_max_num_transactions_in_block ?pc"
      "txs_bytes txs \<le> pc_max_transactions_in_block_bytes ?pc" using b(4) that by blast+
    then show ?thesis using size unfolding check_transactions_ok transactions_within_limits_def Let_def by (auto simp: comp_def)
  qed
  moreover have "map guard_pair queue = map (\<lambda>(ack, ts). expected_ack ack (map (\<lambda>d. \<lparr>t_data = d\<rparr>) ts)) subs"
    unfolding q(1) by (auto simp: sub_guard_def)
  moreover have "tc_tx_receiver tc' = [] \<and> tc_pending_transactions tc' = None" using b(2) by (auto simp: held_bundles_def split: option.splits)
  ultimately show ?thesis using b(1,3) by auto
qed

text \<open>Three bundles, one of them a ping, against a limit of 12 bytes per block.\<close>

definition sample_submissions :: "(nat \<times> bytes list) list" where
  "sample_submissions = [(1, [[1, 2, 3], [4]]), (2, []), (3, [[5, 6, 7, 8, 9, 10, 11, 12, 13]])]"

theorem submitted_bundles_included_witness:
  "\<exists>queue tc. submit_all (transaction_client_new sample_context) sample_submissions [] = Inr queue \<and>
    transaction_consumer_new queue sample_context = Some tc \<and>
    (\<exists>blocks tc'. make_blocks 3 tc = (blocks, tc') \<and> tc_tx_receiver tc' = [] \<and>
      concat (map (\<lambda>(txs, acks). map (acked txs) acks) blocks) =
        [(1, Some [\<lparr>t_data = [1, 2, 3]\<rparr>, \<lparr>t_data = [4]\<rparr>]), (2, None), (3, Some [\<lparr>t_data = [5, 6, 7, 8, 9, 10, 11, 12, 13]\<rparr>])])"
proof -
  have "\<exists>queue. submit_all (transaction_client_new sample_context) sample_submissions [] = Inr queue"
    by (simp add: sample_submissions_def submit_no_wait_def transaction_client_new_def sample_context_def Let_def)
  then obtain queue where q: "submit_all (transaction_client_new sample_context) sample_submissions [] = Inr queue" by blast
  have "\<exists>tc. transaction_consumer_new queue sample_context = Some tc"
    by (simp add: transaction_consumer_new_def sample_context_def NUM_RESERVED_TRANSACTION_INDICES_def Let_def)
  then obtain tc where tc: "transaction_consumer_new queue sample_context = Some tc" by blast
  from submitted_bundles_included[OF tc q, of 3] q tc show ?thesis by (auto simp: sample_submissions_def expected_ack_def)
qed

end
