(* ===== verification/Proposer.thy ===== *)
theory Proposer
  imports Universal_Committer Leader_Schedule_V3 Round_Tracker Ancestor Transaction_Vote_Tracker Transaction_Consumer
begin

text \<open>
  Proposing blocks (\<^verbatim>\<open>consensus/core/src/proposer.rs\<close>). The proposer of a validator picks the ancestors of the next block,
  takes transactions and votes, signs the block, accepts it into the DAG and persists it. The shared DAG state, vote
  tracker and round tracker are arguments and results; the readings of the clock, the signing key and the random
  generator of the leader schedule are parameters. Metrics are left out except the look-ups that may panic.
\<close>

subsection \<open>State\<close>

definition MAX_COMMIT_VOTES_PER_BLOCK :: nat where
  "MAX_COMMIT_VOTES_PER_BLOCK = 100"

datatype proposal_leader_waiter = WaiterV2 universal_committer | WaiterV3 next_commit_leader_schedule

record validator_proposer =
  vp_context :: consensus_context
  vp_transaction_consumer :: transaction_consumer
  vp_propagation_delay :: round
  vp_last_included_ancestors :: "block_ref option list"
  vp_last_known_proposed_round :: "round option"
  vp_ancestor_state_manager :: ancestor_state_manager
  vp_leader_waiter :: proposal_leader_waiter

record shared_state =
  sh_dag_state :: dag_state
  sh_vote_tracker :: vote_tracker_state
  sh_round_tracker :: round_tracker

definition validator_proposer_new ::
  "consensus_context \<Rightarrow> transaction_consumer \<Rightarrow> round option \<Rightarrow> ancestor_state_manager \<Rightarrow> proposal_leader_waiter \<Rightarrow> validator_proposer" where
  "validator_proposer_new ctx consumer last_known_proposed_round am waiter =
     \<lparr>vp_context = ctx, vp_transaction_consumer = consumer, vp_propagation_delay = 0,
      vp_last_included_ancestors = replicate (committee_size (cx_committee ctx)) None,
      vp_last_known_proposed_round = last_known_proposed_round, vp_ancestor_state_manager = am, vp_leader_waiter = waiter\<rparr>"

definition last_proposed_block :: "dag_state \<Rightarrow> verified_block option" where
  "last_proposed_block ds = Option.bind (ds_get_last_proposed_block ds) id"

definition last_proposed_timestamp_ms :: "dag_state \<Rightarrow> timestamp_ms option" where
  "last_proposed_timestamp_ms ds = map_option vb_timestamp_ms (last_proposed_block ds)"

definition last_proposed_round :: "dag_state \<Rightarrow> round option" where
  "last_proposed_round ds = map_option vb_round (last_proposed_block ds)"

definition leader_slots_to_wait_for :: "rng \<Rightarrow> proposal_leader_waiter \<Rightarrow> round \<Rightarrow> slot list option" where
  "leader_slots_to_wait_for rg waiter r =
     (case waiter of
        WaiterV2 committer \<Rightarrow> map_option (map (Slot r)) (get_leaders rg committer r)
      | WaiterV3 schedule \<Rightarrow> Some (if r < ns_min_next_leader_round schedule then [] else map (Slot r) (ns_allowed_leaders schedule)))"

definition update_v3_schedule :: "next_commit_leader_schedule \<Rightarrow> proposal_leader_waiter \<Rightarrow> proposal_leader_waiter" where
  "update_v3_schedule schedule waiter = (case waiter of WaiterV3 _ \<Rightarrow> WaiterV3 schedule | WaiterV2 committer \<Rightarrow> WaiterV2 committer)"

subsection \<open>Setters\<close>

definition should_propose :: "dag_state \<Rightarrow> validator_proposer \<Rightarrow> bool" where
  "should_propose ds vp =
     (if vp_propagation_delay vp > pa_propagation_delay_stop_proposal_threshold (cx_parameters (vp_context vp)) then False
      else case vp_last_known_proposed_round vp of
        None \<Rightarrow> False
      | Some r \<Rightarrow> \<not> ds_threshold_clock_round ds \<le> r)"

definition set_propagation_delay :: "round \<Rightarrow> validator_proposer \<Rightarrow> validator_proposer" where
  "set_propagation_delay delay vp = vp\<lparr>vp_propagation_delay := delay\<rparr>"

definition set_last_known_proposed_round :: "round \<Rightarrow> validator_proposer \<Rightarrow> validator_proposer" where
  "set_last_known_proposed_round r vp = vp\<lparr>vp_last_known_proposed_round := Some r\<rparr>"

definition vp_set_propagation_scores :: "reputation_scores \<Rightarrow> validator_proposer \<Rightarrow> validator_proposer" where
  "vp_set_propagation_scores scores vp =
     vp\<lparr>vp_ancestor_state_manager := set_propagation_scores scores (vp_ancestor_state_manager vp)\<rparr>"

definition set_next_commit_leader_schedule :: "next_commit_leader_schedule \<Rightarrow> validator_proposer \<Rightarrow> validator_proposer" where
  "set_next_commit_leader_schedule schedule vp = vp\<lparr>vp_leader_waiter := update_v3_schedule schedule (vp_leader_waiter vp)\<rparr>"

definition notify_own_blocks_committed :: "block_ref list \<Rightarrow> round \<Rightarrow> validator_proposer \<Rightarrow> validator_proposer \<times> (nat \<times> block_status) list" where
  "notify_own_blocks_committed block_refs gc_round vp =
     (let (consumer, sent) = notify_own_blocks_status block_refs gc_round (vp_transaction_consumer vp)
      in (vp\<lparr>vp_transaction_consumer := consumer\<rparr>, sent))"

subsection \<open>Choosing ancestors\<close>

text \<open>The closure that filters the last blocks of the authorities: included, excluded by score, and never included.\<close>

definition select_ancestor ::
  "validator_proposer \<Rightarrow> ancestor_state list \<Rightarrow> verified_block \<times> block_ref list \<Rightarrow>
   verified_block list \<times> (u64 \<times> verified_block) list \<times> block_ref fset \<Rightarrow>
   (verified_block list \<times> (u64 \<times> verified_block) list \<times> block_ref fset) option" where
  "select_ancestor vp ancestor_state_map = (\<lambda>(ancestor, equivocating_ancestors) (included, pending_excluded, excluded).
     if vb_author ancestor = cx_own_index (vp_context vp) then Some (included, pending_excluded, excluded)
     else do {
       last_block_ref \<leftarrow> vec_get (vp_last_included_ancestors vp) (vb_author ancestor);
       if (case last_block_ref of Some r \<Rightarrow> br_round r \<ge> vb_round ancestor | None \<Rightarrow> False)
       then Some (included, pending_excluded, excluded)
       else do {
         let excluded = excluded |\<union>| fset_of_list equivocating_ancestors;
         state \<leftarrow> vec_get ancestor_state_map (vb_author ancestor);
         case state of
           Include \<Rightarrow> Some (included @ [ancestor], pending_excluded, excluded)
         | Exclude score \<Rightarrow> Some (included, pending_excluded @ [(score, ancestor)], excluded)
       }
     })"

text \<open>The loop that fills up the parent round from the ancestors with the best scores.\<close>

definition include_for_quorum ::
  "committee \<Rightarrow> round \<Rightarrow> u64 \<times> verified_block \<Rightarrow> stake_aggregator \<times> verified_block list \<times> (u64 \<times> verified_block) list \<Rightarrow>
   (stake_aggregator \<times> verified_block list \<times> (u64 \<times> verified_block) list) option" where
  "include_for_quorum c quorum_round = (\<lambda>(score, ancestor) (parent_round_quorum, to_propose, excluded_ancestors). do {
     _ \<leftarrow> committee_authority c (vb_author ancestor);
     if \<not> sa_reached_threshold QuorumThreshold c parent_round_quorum \<and> vb_round ancestor = quorum_round
     then do {
       (parent_round_quorum, _) \<leftarrow> sa_add QuorumThreshold (vb_author ancestor) c parent_round_quorum;
       Some (parent_round_quorum, to_propose @ [ancestor], excluded_ancestors)
     }
     else Some (parent_round_quorum, to_propose, excluded_ancestors @ [(score, ancestor)])
   })"

text \<open>The loop that includes what a quorum of the network has accepted of an excluded authority.\<close>

definition include_accepted ::
  "committee \<Rightarrow> dag_state \<Rightarrow> (round \<times> round) list \<Rightarrow> round \<Rightarrow> u64 \<times> verified_block \<Rightarrow>
   block_ref option list \<times> verified_block list \<times> block_ref fset \<Rightarrow>
   (block_ref option list \<times> verified_block list \<times> block_ref fset) option" where
  "include_accepted c ds accepted_quorum_rounds quorum_round = (\<lambda>(score, ancestor) (last_included, to_propose, excluded). do {
     let excluded_author = vb_author ancestor;
     _ \<leftarrow> committee_authority c excluded_author;
     (low, _) \<leftarrow> vec_get accepted_quorum_rounds excluded_author;
     let accepted_low_quorum_round = min low quorum_round;
     last_ref \<leftarrow> vec_get last_included excluded_author;
     let last_included_round = (case last_ref of Some r \<Rightarrow> br_round r | None \<Rightarrow> GENESIS_ROUND);
     if vb_round ancestor \<le> last_included_round then Some (last_included, to_propose, excluded)
     else if last_included_round \<ge> accepted_low_quorum_round
     then Some (last_included, to_propose, finsert (reference ancestor) excluded)
     else if vb_round ancestor \<le> accepted_low_quorum_round
     then Some (last_included[excluded_author := Some (reference ancestor)], to_propose @ [ancestor], excluded)
     else do {
       let excluded = finsert (reference ancestor) excluded;
       earlier \<leftarrow> ds_get_last_cached_block_in_range ds excluded_author (last_included_round + 1) (accepted_low_quorum_round + 1);
       case earlier of
         Some b \<Rightarrow> Some (last_included[excluded_author := Some (reference b)], to_propose @ [b], excluded)
       | None \<Rightarrow> Some (last_included, to_propose, excluded)
     }
   })"

definition add_parents :: "committee \<Rightarrow> round \<Rightarrow> verified_block list \<Rightarrow> stake_aggregator option" where
  "add_parents c quorum_round included =
     foldM (\<lambda>b sa. map_option fst (sa_add QuorumThreshold (vb_author b) c sa)) (filter (\<lambda>b. vb_round b = quorum_round) included) sa_new"

text \<open>No ancestors are returned when the proposer should wait for more of the good ones.\<close>

definition smart_ancestors_to_propose ::
  "round \<Rightarrow> bool \<Rightarrow> shared_state \<Rightarrow> validator_proposer \<Rightarrow> (validator_proposer \<times> verified_block list \<times> block_ref fset) option" where
  "smart_ancestors_to_propose clock_rd smart_select sh vp = do {
     let c = cx_committee (vp_context vp);
     let ds = sh_dag_state sh;
     all_ancestors \<leftarrow> ds_get_last_cached_block_per_authority ds clock_rd;
     assert_that (length all_ancestors = committee_size c);
     accepted_quorum_rounds \<leftarrow> compute_accepted_quorum_rounds (sh_round_tracker sh);
     am \<leftarrow> update_all_ancestors_state accepted_quorum_rounds ds (vp_ancestor_state_manager vp);
     let vp = vp\<lparr>vp_ancestor_state_manager := am\<rparr>;
     let quorum_round = clock_rd - 1;
     own \<leftarrow> last_proposed_block ds;
     (included, pending_excluded, excluded) \<leftarrow> foldM (select_ancestor vp (get_ancestor_states am)) all_ancestors ([own], [], {||});
     parent_round_quorum \<leftarrow> add_parents c quorum_round included;
     if smart_select \<and> \<not> sa_reached_threshold QuorumThreshold c parent_round_quorum then Some (vp, [], {||})
     else do {
       (parent_round_quorum, to_propose, excluded_ancestors) \<leftarrow>
         foldM (include_for_quorum c quorum_round) (sort_key (\<lambda>e. - uint (fst e)) pending_excluded) (parent_round_quorum, included, []);
       (last_included, to_propose, excluded) \<leftarrow>
         foldM (include_accepted c ds accepted_quorum_rounds quorum_round) excluded_ancestors (vp_last_included_ancestors vp, to_propose, excluded);
       assert_that (sa_reached_threshold QuorumThreshold c parent_round_quorum);
       Some (vp\<lparr>vp_last_included_ancestors := last_included\<rparr>, to_propose, excluded)
     }
   }"

subsection \<open>Making a block\<close>

definition compute_block_signature :: "crypto \<Rightarrow> (bytes \<Rightarrow> bytes) \<Rightarrow> block \<Rightarrow> bytes consensus_result" where
  "compute_block_signature cy sign b =
     (case compute_inner_block_digest cy b of
        Inl e \<Rightarrow> Inl e
      | Inr d \<Rightarrow> (case cy_bcs_intent cy d of
          Inl e \<Rightarrow> Inl (SerializationFailure e)
        | Inr message \<Rightarrow> Inr (sign message)))"

definition signed_block_new :: "crypto \<Rightarrow> (bytes \<Rightarrow> bytes) \<Rightarrow> block \<Rightarrow> signed_block consensus_result" where
  "signed_block_new cy sign b =
     (case compute_block_signature cy sign b of
        Inl e \<Rightarrow> Inl e
      | Inr signature \<Rightarrow> Inr \<lparr>sb_inner = b, sb_signature = signature\<rparr>)"

text \<open>The two readings of the wall clock, at the check of the minimum delay and for the block, and the monotonic clock.\<close>

record proposal_clock =
  pk_checked :: timestamp_ms
  pk_now :: timestamp_ms
  pk_instant :: nat

definition link_ancestors :: "verified_block list \<Rightarrow> dag_state \<Rightarrow> (dag_state \<times> block_ref list) option" where
  "link_ancestors ancestors ds =
     foldM (\<lambda>b (ds, linked). do {
         (ds, refs) \<leftarrow> ds_link_causal_history (reference b) ds;
         Some (ds, linked @ refs)
       }) ancestors (ds, [])"

definition new_block_content ::
  "consensus_context \<Rightarrow> round \<Rightarrow> timestamp_ms \<Rightarrow> block_ref list \<Rightarrow> transaction list \<Rightarrow> block_transaction_votes list \<Rightarrow> commit_ref list \<Rightarrow> block" where
  "new_block_content ctx r now ancestors transactions transaction_votes commit_votes =
     (if pc_transaction_voting_enabled (cx_protocol_config ctx)
      then V2 \<lparr>b2_epoch = c_epoch (cx_committee ctx), b2_round = r, b2_author = cx_own_index ctx, b2_timestamp_ms = now,
        b2_ancestors = ancestors, b2_transactions = transactions, b2_transaction_votes = transaction_votes,
        b2_commit_votes = commit_votes, b2_misbehavior_reports = []\<rparr>
      else V1 \<lparr>b1_epoch = c_epoch (cx_committee ctx), b1_round = r, b1_author = cx_own_index ctx, b1_timestamp_ms = now,
        b1_ancestors = ancestors, b1_transactions = transactions, b1_commit_votes = commit_votes, b1_misbehavior_reports = []\<rparr>)"

fun all_slots_cached :: "dag_state \<Rightarrow> slot list \<Rightarrow> bool option" where
  "all_slots_cached ds [] = Some True"
| "all_slots_cached ds (s # ss) = do {
     found \<leftarrow> ds_contains_cached_block_at_slot ds s;
     if found then all_slots_cached ds ss else Some False
   }"

text \<open>The conditions of \<^verbatim>\<open>try_new_block\<close> before the ancestors are chosen: the round and the leader slots to propose for.\<close>

definition proposal_round :: "rng \<Rightarrow> timestamp_ms \<Rightarrow> bool \<Rightarrow> dag_state \<Rightarrow> validator_proposer \<Rightarrow> (round \<times> slot list) option option" where
  "proposal_round rg checked force ds vp =
     (if \<not> should_propose ds vp then Some None
      else do {
        let clock_rd = ds_threshold_clock_round ds;
        last_round \<leftarrow> last_proposed_round ds;
        if clock_rd \<le> last_round then Some None
        else do {
          leader_slots \<leftarrow> leader_slots_to_wait_for rg (vp_leader_waiter vp) (clock_rd - 1);
          if force then Some (Some (clock_rd, leader_slots))
          else do {
            found \<leftarrow> all_slots_cached ds leader_slots;
            if \<not> found then Some None
            else do {
              last_ts \<leftarrow> last_proposed_timestamp_ms ds;
              Some (if checked - last_ts < pa_min_round_delay (cx_parameters (vp_context vp)) then None
                    else Some (clock_rd, leader_slots))
            }
          }
        }
      })"

text \<open>The votes on the blocks that the ancestors link for the first time; and the new block itself, which has no rejected transactions.\<close>

definition votes_on_ancestors ::
  "consensus_context \<Rightarrow> verified_block list \<Rightarrow> vote_tracker_state \<Rightarrow> dag_state \<Rightarrow> (dag_state \<times> block_transaction_votes list) option" where
  "votes_on_ancestors ctx ancestors vt ds =
     (if pc_transaction_voting_enabled (cx_protocol_config ctx)
      then do {
        (ds, new_causal_history) \<leftarrow> link_ancestors ancestors ds;
        votes \<leftarrow> get_own_votes new_causal_history vt;
        Some (ds, votes)
      }
      else Some (ds, []))"

definition track_own_block ::
  "consensus_context \<Rightarrow> verified_block \<Rightarrow> vote_tracker_state \<Rightarrow> dag_state \<Rightarrow> (dag_state \<times> vote_tracker_state) option" where
  "track_own_block ctx b vt ds =
     (if pc_transaction_voting_enabled (cx_protocol_config ctx)
      then do {
        vt \<leftarrow> add_voted_blocks [(b, [])] vt;
        (ds, _) \<leftarrow> ds_link_causal_history (reference b) ds;
        Some (ds, vt)
      }
      else Some (ds, vt))"

text \<open>From the ancestors to the block that is accepted and persisted; with the acknowledgements it sends.\<close>

definition propose_block ::
  "crypto \<Rightarrow> (bytes \<Rightarrow> bytes) \<Rightarrow> proposal_clock \<Rightarrow> round \<Rightarrow> slot list \<Rightarrow> verified_block list \<Rightarrow> block_ref list \<Rightarrow> shared_state \<times> validator_proposer \<Rightarrow>
   ((shared_state \<times> validator_proposer) \<times> extended_block \<times> (nat \<times> block_ref \<times> transaction_index list) list) option" where
  "propose_block cy sign clk clock_rd leader_slots ancestors excluded_ancestors = (\<lambda>(sh, vp). do {
     let ctx = vp_context vp;
     let c = cx_committee ctx;
     let ds = sh_dag_state sh;
     last_included \<leftarrow> foldM (\<lambda>b l. vec_set l (vb_author b) (Some (reference b))) ancestors (vp_last_included_ancestors vp);
     _ \<leftarrow> (if \<not> pc_enable_v3 (cx_protocol_config ctx)
         then do { s \<leftarrow> vec_get leader_slots 0; map_option (\<lambda>_. ()) (committee_authority c (slot_authority s)) } else Some ());
     _ \<leftarrow> mapM (\<lambda>b. committee_authority c (vb_author b)) ancestors;
     let ((transactions, acks, _), consumer) = consumer_next (vp_transaction_consumer vp);
     let (ds, commit_votes) = ds_take_commit_votes MAX_COMMIT_VOTES_PER_BLOCK ds;
     (ds, transaction_votes) \<leftarrow> votes_on_ancestors ctx ancestors (sh_vote_tracker sh) ds;
     signed_block \<leftarrow> (case signed_block_new cy sign (new_block_content ctx clock_rd (pk_now clk) (map reference ancestors) transactions transaction_votes commit_votes) of
         Inl e \<Rightarrow> None | Inr sb \<Rightarrow> Some sb);
     serialized \<leftarrow> (case cy_bcs_signed_block cy signed_block of Inl e \<Rightarrow> None | Inr ser \<Rightarrow> Some ser);
     let verified_block = new_verified cy signed_block serialized;
     _ \<leftarrow> last_proposed_block ds;
     ds \<leftarrow> ds_accept_block (pk_instant clk) verified_block ds;
     (ds, vt) \<leftarrow> track_own_block ctx verified_block (sh_vote_tracker sh) ds;
     ds \<leftarrow> ds_flush ds;
     let (consumer, sent) = ack_transactions acks (reference verified_block) consumer;
     let eb = \<lparr>eb_block = verified_block, eb_excluded_ancestors = excluded_ancestors\<rparr>;
     rt \<leftarrow> update_from_verified_block eb (sh_round_tracker sh);
     Some ((\<lparr>sh_dag_state = ds, sh_vote_tracker = vt, sh_round_tracker = rt\<rparr>,
            vp\<lparr>vp_last_included_ancestors := last_included, vp_transaction_consumer := consumer\<rparr>), eb, sent)
   })"

definition try_new_block ::
  "crypto \<Rightarrow> (bytes \<Rightarrow> bytes) \<Rightarrow> rng \<Rightarrow> proposal_clock \<Rightarrow> bool \<Rightarrow> shared_state \<times> validator_proposer \<Rightarrow>
   ((shared_state \<times> validator_proposer) \<times> (extended_block \<times> (nat \<times> block_ref \<times> transaction_index list) list) option) option" where
  "try_new_block cy sign rg clk force = (\<lambda>(sh, vp). do {
     next_round \<leftarrow> proposal_round rg (pk_checked clk) force (sh_dag_state sh) vp;
     case next_round of
       None \<Rightarrow> Some ((sh, vp), None)
     | Some (clock_rd, leader_slots) \<Rightarrow> do {
         (vp, ancestors, excluded) \<leftarrow> smart_ancestors_to_propose clock_rd (\<not> force) sh vp;
         if ancestors = [] then do {
           assert_that (\<not> force);
           Some ((sh, vp), None)
         }
         else do {
           let excluded_ancestors = take (committee_size (cx_committee (vp_context vp)) * 2) (sorted_list_of_fset excluded);
           ((sh, vp), eb, sent) \<leftarrow> propose_block cy sign clk clock_rd leader_slots ancestors excluded_ancestors (sh, vp);
           Some ((sh, vp), Some (eb, sent))
         }
       }
   })"

end
