(* ===== verification/Consensus_Core.thy ===== *)
theory Consensus_Core
  imports Commit_Observer Block_Manager Proposer
begin

text \<open>
  The core of a node (\<^verbatim>\<open>consensus/core/src/core.rs\<close>, with the certified commits of \<^verbatim>\<open>commit.rs\<close> and the loop of \<^verbatim>\<open>core_thread.rs\<close>): it feeds received blocks to the
  block manager, runs the commit rule, hands the commits to the observer, proposes blocks and signals new rounds. The
  channels are the lists of what was sent. The leader schedule is one object behind shared pointers in the source, so
  replacing its swap table changes it in the core, in its committers and in the proposer. The DAG state, vote tracker and
  round tracker are shared state; nothing else of the node runs during an operation.
\<close>

subsection \<open>Certified commits\<close>

text \<open>The commits a peer served with their blocks, and the blocks that vote for the last of them.\<close>

record certified_commits =
  ccs_commits :: "certified_commit list"
  ccs_votes :: "verified_block list"

subsection \<open>Signals\<close>

text \<open>The watch channel keeps every value it was set to, the last one being current; a broadcast without a receiver fails.\<close>

record core_signals =
  sg_context :: consensus_context
  sg_block_broadcast :: "extended_block list"
  sg_accepted_broadcast :: "verified_block list"
  sg_new_rounds :: "round list"
  sg_block_receivers :: bool
  sg_accepted_receivers :: bool

definition core_signals_new :: "consensus_context \<Rightarrow> core_signals" where
  "core_signals_new ctx = \<lparr>sg_context = ctx, sg_block_broadcast = [], sg_accepted_broadcast = [], sg_new_rounds = [0],
     sg_block_receivers = True, sg_accepted_receivers = True\<rparr>"

definition signal_new_block :: "extended_block \<Rightarrow> core_signals \<Rightarrow> core_signals \<times> unit consensus_result" where
  "signal_new_block eb sg =
     (if committee_size (cx_committee (sg_context sg)) > 1
      then if vb_round (eb_block eb) = GENESIS_ROUND then (sg, Inr ())
           else if sg_block_receivers sg then (sg\<lparr>sg_block_broadcast := sg_block_broadcast sg @ [eb]\<rparr>, Inr ())
           else (sg, Inl Shutdown)
      else (sg, Inr ()))"

definition signal_accepted_block :: "verified_block \<Rightarrow> core_signals \<Rightarrow> core_signals" where
  "signal_accepted_block b sg =
     (if sg_accepted_receivers sg then sg\<lparr>sg_accepted_broadcast := sg_accepted_broadcast sg @ [b]\<rparr> else sg)"

definition signal_new_round :: "round \<Rightarrow> core_signals \<Rightarrow> core_signals" where
  "signal_new_round r sg = sg\<lparr>sg_new_rounds := sg_new_rounds sg @ [r]\<rparr>"

subsection \<open>State\<close>

record core =
  co_context :: consensus_context
  co_block_manager :: block_manager
  co_committer :: universal_committer
  co_last_signaled_round :: round
  co_last_decided_leader :: slot
  co_leader_schedule :: leader_schedule
  co_leader_schedule_v3 :: "leader_schedule_v3 option"
  co_commit_observer :: commit_observer
  co_signals :: core_signals
  co_proposer :: "validator_proposer option"
  co_shared :: shared_state
  co_inclusion_acks :: "(nat \<times> block_ref \<times> transaction_index list) list"
  co_status_updates :: "(nat \<times> block_status) list"

abbreviation co_dag_state :: "core \<Rightarrow> dag_state" where
  "co_dag_state co \<equiv> sh_dag_state (co_shared co)"

definition with_dag_state :: "dag_state \<Rightarrow> core \<Rightarrow> core" where
  "with_dag_state ds co = co\<lparr>co_shared := (co_shared co)\<lparr>sh_dag_state := ds\<rparr>\<rparr>"

text \<open>What the core takes from outside: hashing, encoding and signing, and the random choices of the schedules.\<close>

record core_env =
  ce_crypto :: crypto
  ce_bcs_commit :: "commit \<Rightarrow> string + bytes"
  ce_sign :: "bytes \<Rightarrow> bytes"
  ce_rng :: rng
  ce_shuffle :: shuffle

subsection \<open>Accepting blocks\<close>

definition core_accept_blocks :: "nat \<Rightarrow> verified_block list \<Rightarrow> core \<Rightarrow> (core \<times> verified_block list \<times> block_ref fset) option" where
  "core_accept_blocks now blocks co = do {
     (ds, bm, accepted, missing) \<leftarrow> try_accept_blocks now blocks (co_dag_state co) (co_block_manager co);
     Some ((with_dag_state ds co)\<lparr>co_block_manager := bm, co_signals := fold signal_accepted_block accepted (co_signals co)\<rparr>, accepted, missing)
   }"

definition core_accept_committed_blocks :: "nat \<Rightarrow> verified_block list \<Rightarrow> core \<Rightarrow> (core \<times> verified_block list) option" where
  "core_accept_committed_blocks now blocks co = do {
     (ds, bm, accepted) \<leftarrow> try_accept_committed_blocks now blocks (co_dag_state co) (co_block_manager co);
     Some ((with_dag_state ds co)\<lparr>co_block_manager := bm, co_signals := fold signal_accepted_block accepted (co_signals co)\<rparr>, accepted)
   }"

definition core_check_block_refs :: "block_ref list \<Rightarrow> core \<Rightarrow> (core \<times> block_ref fset consensus_result) option" where
  "core_check_block_refs block_refs co = do {
     (bm, missing) \<leftarrow> try_find_blocks block_refs (co_dag_state co) (co_block_manager co);
     Some (co\<lparr>co_block_manager := bm\<rparr>, Inr missing)
   }"

definition core_get_missing_blocks :: "core \<Rightarrow> block_ref fset" where
  "core_get_missing_blocks co = bm_missing_blocks (co_block_manager co)"

definition try_signal_new_round :: "core \<Rightarrow> core" where
  "try_signal_new_round co =
     (let new_clock_round = ds_threshold_clock_round (co_dag_state co)
      in if new_clock_round \<le> co_last_signaled_round co then co
         else co\<lparr>co_signals := signal_new_round new_clock_round (co_signals co), co_last_signaled_round := new_clock_round\<rparr>)"

subsection \<open>The leader schedule\<close>

definition core_current_reputation_scores :: "core \<Rightarrow> reputation_scores option" where
  "core_current_reputation_scores co =
     (case co_leader_schedule_v3 co of
        Some l \<Rightarrow> current_reputation_scores l
      | None \<Rightarrow> Some (lst_reputation_scores (lsch_swap_table (co_leader_schedule co))))"

text \<open>The swap table is replaced inside the shared schedule: every holder of the schedule sees the new one.\<close>

definition committer_with_schedule :: "leader_schedule \<Rightarrow> universal_committer \<Rightarrow> universal_committer" where
  "committer_with_schedule ls uc = uc\<lparr>uc_committers := map (\<lambda>bc. bc\<lparr>bc_leader_schedule := ls\<rparr>) (uc_committers uc)\<rparr>"

fun waiter_with_schedule :: "leader_schedule \<Rightarrow> proposal_leader_waiter \<Rightarrow> proposal_leader_waiter" where
  "waiter_with_schedule ls (WaiterV2 uc) = WaiterV2 (committer_with_schedule ls uc)"
| "waiter_with_schedule ls (WaiterV3 s) = WaiterV3 s"

definition install_schedule :: "leader_schedule \<Rightarrow> core \<Rightarrow> core" where
  "install_schedule ls co = co\<lparr>co_leader_schedule := ls, co_committer := committer_with_schedule ls (co_committer co),
     co_proposer := map_option (\<lambda>vp. vp\<lparr>vp_leader_waiter := waiter_with_schedule ls (vp_leader_waiter vp)\<rparr>) (co_proposer co)\<rparr>"

text \<open>The beginning of an iteration of \<^verbatim>\<open>try_commit\<close>: the number of commits before the next change of schedule, which is never 0.\<close>

definition commits_before_schedule_change :: "core_env \<Rightarrow> core \<Rightarrow> (core \<times> nat) option" where
  "commits_before_schedule_change env co = do {
     commits_until_update \<leftarrow> commits_until_leader_schedule_update (co_leader_schedule co) (co_dag_state co);
     (co, commits_until_update) \<leftarrow> (if commits_until_update = 0 then do {
         (ls, ds) \<leftarrow> update_leader_schedule_v2 (ce_rng env) (co_leader_schedule co) (co_dag_state co);
         let co = install_schedule ls (with_dag_state ds co);
         scores \<leftarrow> core_current_reputation_scores co;
         let co = co\<lparr>co_proposer := map_option (vp_set_propagation_scores scores) (co_proposer co)\<rparr>;
         n \<leftarrow> commits_until_leader_schedule_update (co_leader_schedule co) (co_dag_state co);
         Some (co, n)
       } else Some (co, commits_until_update));
     assert_that (commits_until_update > 0);
     Some (co, commits_until_update)
   }"

subsection \<open>Committing\<close>

definition certified_leader :: "consensus_context \<Rightarrow> certified_commit \<Rightarrow> (decided_leader \<times> certified_commit) option" where
  "certified_leader ctx cc = do {
     leader \<leftarrow> last_opt (cc_blocks cc);
     assert_that (reference leader = tcm_leader (cc_commit cc));
     let d = DLCommit leader False;
     _ \<leftarrow> committee_authority (cx_committee ctx) (slot_authority (decided_slot d));
     Some (d, cc)
   }"

definition try_select_certified_leaders ::
  "consensus_context \<Rightarrow> certified_commit list \<Rightarrow> nat \<Rightarrow> ((decided_leader \<times> certified_commit) list \<times> certified_commit list) option" where
  "try_select_certified_leaders ctx certified_commits limit = do {
     assert_that (limit > 0);
     if certified_commits = [] then Some ([], [])
     else do {
       let (to_commit, rest) = (if length certified_commits \<ge> limit then (take limit certified_commits, drop limit certified_commits)
                                else (certified_commits, []));
       selected \<leftarrow> mapM (certified_leader ctx) to_commit;
       Some (selected, rest)
     }
   }"

text \<open>Which leaders to commit next, and whether the commit rule decided them.\<close>

definition next_decided_leaders :: "core_env \<Rightarrow> decided_leader list \<Rightarrow> nat \<Rightarrow> core \<Rightarrow> (decided_leader list \<times> bool) option" where
  "next_decided_leaders env certified_leaders commits_until_update co =
     (if certified_leaders = []
      then do {
        decided \<leftarrow> try_decide (ce_rng env) (co_committer co) (co_dag_state co) (co_last_decided_leader co);
        Some (if length decided \<ge> commits_until_update then take commits_until_update decided else decided, True)
      }
      else Some (certified_leaders, False))"

text \<open>The commits of one iteration: through the observer, and the blocks that garbage collection unblocks.\<close>

definition commit_leaders ::
  "core_env \<Rightarrow> nat \<Rightarrow> verified_block list \<Rightarrow> bool \<Rightarrow> core \<Rightarrow> (core \<times> committed_sub_dag list consensus_result) option" where
  "commit_leaders env now leaders local co = do {
     ((ds, ob), res) \<leftarrow> observer_handle_commit (ce_crypto env) (ce_bcs_commit env) leaders local (co_dag_state co, co_commit_observer co);
     let co = (with_dag_state ds co)\<lparr>co_commit_observer := ob\<rparr>;
     case res of
       Inl e \<Rightarrow> Some (co, Inl e)
     | Inr subdags \<Rightarrow> do {
         (ds, bm) \<leftarrow> try_unsuspend_blocks_for_latest_gc_round now (co_dag_state co) (co_block_manager co);
         Some ((with_dag_state ds co)\<lparr>co_block_manager := bm\<rparr>, Inr subdags)
       }
   }"

text \<open>An iteration of the loop up to its decided leaders: the schedule, the certified commits that fit and their blocks, the commit rule.\<close>

definition choose_leaders ::
  "core_env \<Rightarrow> nat \<Rightarrow> certified_commit list \<Rightarrow> core \<Rightarrow> (core \<times> certified_commit list \<times> decided_leader list \<times> bool) option" where
  "choose_leaders env now certified_commits co = do {
     (co, commits_until_update) \<leftarrow> commits_before_schedule_change env co;
     (selected, certified_commits) \<leftarrow> try_select_certified_leaders (co_context co) certified_commits commits_until_update;
     (co, _) \<leftarrow> core_accept_committed_blocks now (concat (map (cc_blocks \<circ> snd) selected)) co;
     (decided_leaders, local) \<leftarrow> next_decided_leaders env (map fst selected) commits_until_update co;
     Some (co, certified_commits, decided_leaders, local)
   }"

partial_function (option) commit_loop ::
  "core_env \<Rightarrow> nat \<Rightarrow> certified_commit list \<Rightarrow> committed_sub_dag list \<Rightarrow> core \<Rightarrow> (core \<times> committed_sub_dag list consensus_result) option" where
  "commit_loop env now certified_commits committed_sub_dags co = do {
     (co, certified_commits, decided_leaders, local) \<leftarrow> choose_leaders env now certified_commits co;
     if decided_leaders = [] then Some (co, Inr committed_sub_dags)
     else do {
       let co = co\<lparr>co_last_decided_leader := decided_slot (last decided_leaders)\<rparr>;
       let sequenced_leaders = List.map_filter into_committed_block decided_leaders;
       if sequenced_leaders = [] then Some (co, Inr committed_sub_dags)
       else do {
         (co, res) \<leftarrow> commit_leaders env now sequenced_leaders local co;
         case res of
           Inl e \<Rightarrow> Some (co, Inl e)
         | Inr subdags \<Rightarrow> commit_loop env now certified_commits (committed_sub_dags @ subdags) co
       }
     }
   }"

declare commit_loop.simps [code]

text \<open>The sanity check on certified commits, with the map of their references that the loop consumes.\<close>

definition check_certified ::
  "committed_sub_dag \<Rightarrow> (commit_index, commit_ref) fmap \<Rightarrow> (commit_index, commit_ref) fmap option" where
  "check_certified sub_dag m =
     (case fmlookup m (cr_index (csd_commit_ref sub_dag)) of
        Some r \<Rightarrow> do { assert_that (r = csd_commit_ref sub_dag); Some (fmdrop (cr_index (csd_commit_ref sub_dag)) m) }
      | None \<Rightarrow> Some m)"

definition certified_commits_map :: "certified_commit list \<Rightarrow> (commit_index, commit_ref) fmap" where
  "certified_commits_map = (\<lambda>ccs. fold (\<lambda>c m. fmupd (tcm_index (cc_commit c)) (tcm_reference (cc_commit c)) m) ccs fmempty)"

definition notify_own_committed :: "committed_sub_dag list \<Rightarrow> core \<Rightarrow> core" where
  "notify_own_committed sub_dags co =
     (let own = map reference (filter (\<lambda>b. vb_author b = cx_own_index (co_context co)) (concat (map csd_blocks sub_dags)))
      in case co_proposer co of
           None \<Rightarrow> co
         | Some vp \<Rightarrow> (let (vp, sent) = notify_own_blocks_committed own (ds_gc_round (co_dag_state co)) vp
                       in co\<lparr>co_proposer := Some vp, co_status_updates := co_status_updates co @ sent\<rparr>))"

definition core_try_commit ::
  "core_env \<Rightarrow> nat \<Rightarrow> certified_commit list \<Rightarrow> core \<Rightarrow> (core \<times> committed_sub_dag list consensus_result) option" where
  "core_try_commit env now certified_commits co = do {
     (co, res) \<leftarrow> commit_loop env now certified_commits [] co;
     case res of
       Inl e \<Rightarrow> Some (co, Inl e)
     | Inr sub_dags \<Rightarrow> do {
         _ \<leftarrow> foldM check_certified sub_dags (certified_commits_map certified_commits);
         Some (notify_own_committed sub_dags co, Inr sub_dags)
       }
   }"

definition filter_new_commits :: "certified_commit list \<Rightarrow> core \<Rightarrow> certified_commit list consensus_result" where
  "filter_new_commits commits co =
     (let last_commit_index = ds_last_commit_index (co_dag_state co);
          commits = filter (\<lambda>c. tcm_index (cc_commit c) > last_commit_index) commits
      in case commits of
           [] \<Rightarrow> Inr commits
         | c # _ \<Rightarrow> if tcm_index (cc_commit c) \<noteq> last_commit_index + 1
                    then Inl (UnexpectedCertifiedCommitIndex (last_commit_index + 1) (tcm_index (cc_commit c)))
                    else Inr commits)"

subsection \<open>Proposing\<close>

definition core_should_propose :: "core \<Rightarrow> bool" where
  "core_should_propose co = (case co_proposer co of Some vp \<Rightarrow> should_propose (co_dag_state co) vp | None \<Rightarrow> False)"

text \<open>The outer option is the panic, the inner one the value.\<close>

definition core_last_proposed_round :: "core \<Rightarrow> round option option" where
  "core_last_proposed_round co =
     (case co_proposer co of Some vp \<Rightarrow> map_option Some (last_proposed_round (co_dag_state co)) | None \<Rightarrow> Some None)"

definition core_set_propagation_delay :: "round \<Rightarrow> core \<Rightarrow> core" where
  "core_set_propagation_delay delay co = co\<lparr>co_proposer := map_option (set_propagation_delay delay) (co_proposer co)\<rparr>"

definition core_set_last_known_proposed_round :: "round \<Rightarrow> core \<Rightarrow> core option" where
  "core_set_last_known_proposed_round r co =
     (case co_proposer co of
        None \<Rightarrow> Some co
      | Some vp \<Rightarrow> do {
          assert_that (vp_last_known_proposed_round vp = None);
          Some (co\<lparr>co_proposer := Some (set_last_known_proposed_round r vp)\<rparr>)
        })"

definition core_try_propose ::
  "core_env \<Rightarrow> proposal_clock \<Rightarrow> bool \<Rightarrow> core \<Rightarrow> (core \<times> verified_block option consensus_result) option" where
  "core_try_propose env clk force co =
     (case co_proposer co of
        None \<Rightarrow> Some (co, Inr None)
      | Some vp \<Rightarrow> do {
          ((sh, vp), proposed) \<leftarrow> try_new_block (ce_crypto env) (ce_sign env) (ce_rng env) clk force (co_shared co, vp);
          let co = co\<lparr>co_shared := sh, co_proposer := Some vp\<rparr>;
          case proposed of
            None \<Rightarrow> Some (co, Inr None)
          | Some (eb, acks) \<Rightarrow>
              (let co = co\<lparr>co_inclusion_acks := co_inclusion_acks co @ acks\<rparr>
               in case signal_new_block eb (co_signals co) of
                    (sg, Inl e) \<Rightarrow> Some (co\<lparr>co_signals := sg\<rparr>, Inl e)
                  | (sg, Inr _) \<Rightarrow> do {
                      (co, res) \<leftarrow> core_try_commit env (pk_instant clk) [] (co\<lparr>co_signals := signal_accepted_block (eb_block eb) sg\<rparr>);
                      Some (co, case res of Inl e \<Rightarrow> Inl e | Inr _ \<Rightarrow> Inr (Some (eb_block eb)))
                    })
        })"

definition core_new_block ::
  "core_env \<Rightarrow> proposal_clock \<Rightarrow> round \<Rightarrow> bool \<Rightarrow> core \<Rightarrow> (core \<times> verified_block option consensus_result) option" where
  "core_new_block env clk r force co = do {
     last_round \<leftarrow> core_last_proposed_round co;
     if (case last_round of Some l \<Rightarrow> l < r | None \<Rightarrow> False)
     then do {
       (co, res) \<leftarrow> core_try_propose env clk force co;
       Some (try_signal_new_round co, res)
     }
     else Some (co, Inr None)
   }"

text \<open>Committing, proposing and signalling, as after every acceptance of blocks; an error returns at once.\<close>

definition commit_and_propose ::
  "core_env \<Rightarrow> proposal_clock \<Rightarrow> certified_commit list \<Rightarrow> core \<Rightarrow> (core \<times> unit consensus_result) option" where
  "commit_and_propose env clk commits co = do {
     (co, res) \<leftarrow> core_try_commit env (pk_instant clk) commits co;
     case res of
       Inl e \<Rightarrow> Some (co, Inl e)
     | Inr _ \<Rightarrow> do {
         (co, res) \<leftarrow> core_try_propose env clk False co;
         Some (case res of Inl e \<Rightarrow> (co, Inl e) | Inr _ \<Rightarrow> (try_signal_new_round co, Inr ()))
       }
   }"

definition core_add_blocks ::
  "core_env \<Rightarrow> proposal_clock \<Rightarrow> verified_block list \<Rightarrow> core \<Rightarrow> (core \<times> block_ref fset consensus_result) option" where
  "core_add_blocks env clk blocks co = do {
     (co, accepted, missing) \<leftarrow> core_accept_blocks (pk_instant clk) blocks co;
     if accepted = [] then Some (co, Inr missing)
     else do {
       (co, res) \<leftarrow> commit_and_propose env clk [] co;
       Some (co, case res of Inl e \<Rightarrow> Inl e | Inr _ \<Rightarrow> Inr missing)
     }
   }"

definition core_add_certified_commits ::
  "core_env \<Rightarrow> proposal_clock \<Rightarrow> certified_commits \<Rightarrow> core \<Rightarrow> (core \<times> block_ref fset consensus_result) option" where
  "core_add_certified_commits env clk certified co = do {
     commits \<leftarrow> (case filter_new_commits (ccs_commits certified) co of Inl e \<Rightarrow> None | Inr commits \<Rightarrow> Some commits);
     (co, _, missing) \<leftarrow> core_accept_blocks (pk_instant clk) (ccs_votes certified) co;
     (co, res) \<leftarrow> commit_and_propose env clk commits co;
     Some (co, case res of Inl e \<Rightarrow> Inl e | Inr _ \<Rightarrow> Inr missing)
   }"

subsection \<open>Starting\<close>

definition core_committer :: "consensus_context \<Rightarrow> leader_schedule \<Rightarrow> universal_committer" where
  "core_committer ctx ls =
     uc_build ctx ls DEFAULT_WAVE_LENGTH (case pc_num_leaders_per_round (cx_protocol_config ctx) of Some n \<Rightarrow> n | None \<Rightarrow> 1) True"

definition core_schedule_v3 :: "core_env \<Rightarrow> consensus_context \<Rightarrow> dag_state \<Rightarrow> leader_schedule_v3 option option" where
  "core_schedule_v3 env ctx ds =
     (if pc_enable_v3 (cx_protocol_config ctx) then map_option Some (l3_from_store (ce_shuffle env) ctx ds) else Some None)"

definition recover_observer :: "core_env \<Rightarrow> nat \<Rightarrow> core \<Rightarrow> core option" where
  "recover_observer env now co = do {
     (co, res) \<leftarrow> core_try_commit env now [] co;
     (case res of Inl e \<Rightarrow> None | Inr _ \<Rightarrow> Some (try_signal_new_round co))
   }"

definition rebroadcast_last_block :: "core \<Rightarrow> core option" where
  "rebroadcast_last_block co = do {
     vp \<leftarrow> co_proposer co;
     b \<leftarrow> last_proposed_block (co_dag_state co);
     assert_that (should_propose (co_dag_state co) vp \<longrightarrow> vb_round b > GENESIS_ROUND);
     case signal_new_block \<lparr>eb_block = b, eb_excluded_ancestors = []\<rparr> (co_signals co) of
       (sg, Inl e) \<Rightarrow> None
     | (sg, Inr _) \<Rightarrow> Some (co\<lparr>co_signals := sg\<rparr>)
   }"

definition recover_validator :: "core_env \<Rightarrow> proposal_clock \<Rightarrow> core \<Rightarrow> core option" where
  "recover_validator env clk co = do {
     (co, res) \<leftarrow> core_try_commit env (pk_instant clk) [] co;
     _ \<leftarrow> (case res of Inl e \<Rightarrow> None | Inr _ \<Rightarrow> Some ());
     (co, res) \<leftarrow> core_try_propose env clk True co;
     co \<leftarrow> (case res of Inl e \<Rightarrow> None | Inr (Some _) \<Rightarrow> Some co | Inr None \<Rightarrow> rebroadcast_last_block co);
     Some (try_signal_new_round co)
   }"

definition new_validator ::
  "core_env \<Rightarrow> proposal_clock \<Rightarrow> consensus_context \<Rightarrow> leader_schedule \<Rightarrow> transaction_consumer \<Rightarrow> block_manager \<Rightarrow> commit_observer \<Rightarrow>
   core_signals \<Rightarrow> bool \<Rightarrow> shared_state \<Rightarrow> core option" where
  "new_validator env clk ctx ls consumer bm ob sg sync_last_known_own_block sh = do {
     let ds = sh_dag_state sh;
     last_decided_leader \<leftarrow> ds_last_commit_leader ds;
     v3 \<leftarrow> core_schedule_v3 env ctx ds;
     let committer = core_committer ctx ls;
     last_block \<leftarrow> last_proposed_block ds;
     _ \<leftarrow> foldM (\<lambda>r l. vec_set l (br_author r) (Some r)) (vb_ancestors last_block) (replicate (committee_size (cx_committee ctx)) None);
     let waiter = (case v3 of Some l \<Rightarrow> WaiterV3 (l3_current_schedule l) | None \<Rightarrow> WaiterV2 committer);
     let vp = validator_proposer_new ctx consumer (if sync_last_known_own_block then None else Some 0) (am_new ctx) waiter;
     let co = \<lparr>co_context = ctx, co_block_manager = bm, co_committer = committer, co_last_signaled_round = vb_round last_block,
       co_last_decided_leader = last_decided_leader, co_leader_schedule = ls, co_leader_schedule_v3 = v3, co_commit_observer = ob,
       co_signals = sg, co_proposer = Some vp, co_shared = sh, co_inclusion_acks = [], co_status_updates = []\<rparr>;
     scores \<leftarrow> core_current_reputation_scores co;
     recover_validator env clk (co\<lparr>co_proposer := Some (vp_set_propagation_scores scores vp)\<rparr>)
   }"

definition new_observer ::
  "core_env \<Rightarrow> nat \<Rightarrow> consensus_context \<Rightarrow> leader_schedule \<Rightarrow> block_manager \<Rightarrow> commit_observer \<Rightarrow> core_signals \<Rightarrow> shared_state \<Rightarrow> core option" where
  "new_observer env now ctx ls bm ob sg sh = do {
     let ds = sh_dag_state sh;
     last_decided_leader \<leftarrow> ds_last_commit_leader ds;
     v3 \<leftarrow> core_schedule_v3 env ctx ds;
     recover_observer env now
       \<lparr>co_context = ctx, co_block_manager = bm, co_committer = core_committer ctx ls, co_last_signaled_round = ds_threshold_clock_round ds,
        co_last_decided_leader = last_decided_leader, co_leader_schedule = ls, co_leader_schedule_v3 = v3, co_commit_observer = ob,
        co_signals = sg, co_proposer = None, co_shared = sh, co_inclusion_acks = [], co_status_updates = []\<rparr>
   }"

subsection \<open>The core thread\<close>

text \<open>
  The loop of \<^verbatim>\<open>CoreThread::run\<close> (\<^verbatim>\<open>consensus/core/src/core_thread.rs\<close>): the commands and the two watched values it reacts to, with the clock
  readings of a reaction. The replies are dropped, and the loop ends at the first error.
\<close>

datatype core_event =
  AddBlocks "verified_block list"
| CheckBlockRefs "block_ref list"
| AddCertifiedCommits certified_commits
| NewBlock round bool
| GetMissing
| SetLastKnownProposedRound round
| SetPropagationDelay round

definition drop_result :: "(core \<times> 'a consensus_result) option \<Rightarrow> (core \<times> unit consensus_result) option" where
  "drop_result r = map_option (map_prod id (map_sum id (\<lambda>_. ()))) r"

definition core_step :: "core_env \<Rightarrow> proposal_clock \<Rightarrow> core_event \<Rightarrow> core \<Rightarrow> (core \<times> unit consensus_result) option" where
  "core_step env clk ev co =
     (case ev of
        AddBlocks bs \<Rightarrow> drop_result (core_add_blocks env clk bs co)
      | CheckBlockRefs rs \<Rightarrow> drop_result (core_check_block_refs rs co)
      | AddCertifiedCommits ccs \<Rightarrow> drop_result (core_add_certified_commits env clk ccs co)
      | NewBlock r force \<Rightarrow> drop_result (core_new_block env clk r force co)
      | GetMissing \<Rightarrow> Some (co, Inr ())
      | SetLastKnownProposedRound r \<Rightarrow> do {
          co \<leftarrow> core_set_last_known_proposed_round r co;
          drop_result (core_new_block env clk u32_max True co)
        }
      | SetPropagationDelay d \<Rightarrow>
          (let co' = core_set_propagation_delay d co
           in if \<not> core_should_propose co \<and> core_should_propose co' then drop_result (core_new_block env clk u32_max True co')
              else Some (co', Inr ())))"

fun core_run :: "core_env \<Rightarrow> (proposal_clock \<times> core_event) list \<Rightarrow> core \<Rightarrow> (core \<times> unit consensus_result) option" where
  "core_run env [] co = Some (co, Inr ())"
| "core_run env ((clk, ev) # evs) co = do {
     (co, res) \<leftarrow> core_step env clk ev co;
     case res of Inl e \<Rightarrow> Some (co, Inl e) | Inr _ \<Rightarrow> core_run env evs co
   }"

end
