(* ===== verification/Core_Ledger.thy ===== *)
theory Core_Ledger
  imports Consensus_Core
begin

text \<open>
  What the core promises its consumers, as a ledger: a sequence of sub-dags handed to the finalizer that only grows, with
  consecutive commit indices and timestamps that never go back, and a sequence of signalled rounds that only increases. Every
  operation of the core refines steps of the ledger. The theory also has the sharing invariant of the core's state, the
  errors its operations return, and that certified commits are committed as they were certified.
\<close>

subsection \<open>What leaves the last commit alone\<close>

lemma accept_block_last_commit: "ds_accept_block now b ds = Some ds' \<Longrightarrow> ds_last_commit ds' = ds_last_commit ds"
proof -
  assume a: "ds_accept_block now b ds = Some ds'"
  have "ds_last_commit ds1 = ds_last_commit ds" if "ds_update_block_metadata now b ds = Some ds1" for ds1
    using ds_update_block_metadata_same[OF that] ds_frame_sel(4)[of ds1 "ds_insert_cache b ds"]
    by (simp add: ds_same_cache_def ds_insert_cache_def)
  then show ?thesis using a by (auto simp: ds_accept_block_def Let_def bind_Some_iff split: if_splits)
qed

lemma accept_blocks_last_commit:
  assumes "ds_accept_blocks now bs ds = Some ds'"
  shows "ds_last_commit ds' = ds_last_commit ds"
  using assms unfolding ds_accept_blocks_def
  by (rule foldM_inv[where P = "\<lambda>s. ds_last_commit s = ds_last_commit ds"]) (simp_all add: accept_block_last_commit)

lemma accept_step_last_commit:
  assumes "accept_block_step now committed b (ds, bm, acc, missing) = Some (ds', rest)"
  shows "ds_last_commit ds' = ds_last_commit ds"
  using assms accept_blocks_last_commit
  by (auto elim!: bind_SomeE simp: accept_block_step_def try_accept_one_committed_block_def accept_with_children_def Let_def
      split: if_splits try_accept_result.splits)

lemma accept_internal_last_commit:
  assumes "try_accept_blocks_internal now bs committed ds bm = Some (ds', rest)"
  shows "ds_last_commit ds' = ds_last_commit ds"
  using foldM_inv[OF assms[unfolded try_accept_blocks_internal_def], of "\<lambda>s. ds_last_commit (fst s) = ds_last_commit ds"]
    accept_step_last_commit by fastforce

lemma gc_unsuspend_last_commit:
  assumes "gc_unsuspend_loop now gc ds bm = Some (ds', bm')"
  shows "ds_last_commit ds' = ds_last_commit ds"
proof -
  have "ds_last_commit (fst (ds', bm')) = ds_last_commit ds"
  proof (rule gc_unsuspend_loop.raw_induct[OF _ assms, where P = "\<lambda>now gc ds bm r. ds_last_commit (fst r) = ds_last_commit ds"], goal_cases)
    case (1 loop now gc ds bm r)
    from 1(2) show ?case
      by (auto simp: Let_def bind_Some_iff split: if_splits dest!: 1(1) accept_blocks_last_commit)
  qed
  then show ?thesis by simp
qed

lemma link_loop_last_commit:
  assumes "link_loop gc targets acc ds = Some (ds', refs)"
  shows "ds_last_commit ds' = ds_last_commit ds"
proof -
  have "ds_last_commit (fst (ds', refs)) = ds_last_commit ds"
  proof (rule link_loop.raw_induct[OF _ assms, where P = "\<lambda>gc targets acc ds r. ds_last_commit (fst r) = ds_last_commit ds"], goal_cases)
    case (1 loop gc targets acc ds r)
    from 1(2) show ?case
      by (auto split: list.splits if_splits option.splits dest!: 1(1))
  qed
  then show ?thesis by simp
qed

lemma link_ancestors_last_commit:
  assumes "link_ancestors bs ds = Some (ds', refs)"
  shows "ds_last_commit ds' = ds_last_commit ds"
  using foldM_inv[OF assms[unfolded link_ancestors_def], of "\<lambda>s. ds_last_commit (fst s) = ds_last_commit ds"] link_loop_last_commit
  by (fastforce simp: ds_link_causal_history_def bind_Some_iff)

lemma evict_last_commit: "ds_evict_authority a ds = Some ds' \<Longrightarrow> ds_last_commit ds' = ds_last_commit ds"
  by (auto elim!: bind_SomeE simp: ds_evict_authority_def split: prod.splits)

lemma flush_last_commit:
  assumes "ds_flush ds = Some ds'"
  shows "ds_last_commit ds' = ds_last_commit ds"
proof -
  have "ds_last_commit ds1 = ds_last_commit ds"
    if "foldM ds_evict_authority (authority_indices (ds_committee (ds_persist ds))) (ds_persist ds) = Some ds1" for ds1
    by (rule foldM_inv[OF that, where P = "\<lambda>s. ds_last_commit s = ds_last_commit ds"]) (simp_all add: evict_last_commit ds_persist_def)
  then show ?thesis using assms by (auto simp: ds_flush_eq bind_Some_iff split: if_splits)
qed

lemma track_last_commit: "track_own_block ctx b vt ds = Some (ds', vt') \<Longrightarrow> ds_last_commit ds' = ds_last_commit ds"
  by (auto simp: track_own_block_def bind_Some_iff ds_link_causal_history_def split: if_splits dest!: link_loop_last_commit)

lemma votes_last_commit: "votes_on_ancestors ctx bs vt ds = Some (ds', votes) \<Longrightarrow> ds_last_commit ds' = ds_last_commit ds"
  by (auto simp: votes_on_ancestors_def bind_Some_iff split: if_splits dest!: link_ancestors_last_commit)

lemma propose_last_commit:
  assumes "propose_block cy sign clk r slots bs ex (sh, vp) = Some ((sh', vp'), eb, acks)"
  shows "ds_last_commit (sh_dag_state sh') = ds_last_commit (sh_dag_state sh)"
proof -
  obtain txs acks l consumer where n: "consumer_next (vp_transaction_consumer vp) = ((txs, acks, l), consumer)" by (metis surj_pair)
  obtain ds0 cvs where v: "ds_take_commit_votes MAX_COMMIT_VOTES_PER_BLOCK (sh_dag_state sh) = (ds0, cvs)" by (metis surj_pair)
  then have t: "ds_last_commit ds0 = ds_last_commit (sh_dag_state sh)" by (auto simp: ds_take_commit_votes_def)
  from assms obtain ds1 votes b ds2 ds3 vt where
    "votes_on_ancestors (vp_context vp) bs (sh_vote_tracker sh) ds0 = Some (ds1, votes)" "ds_accept_block (pk_instant clk) b ds1 = Some ds2"
    "track_own_block (vp_context vp) b (sh_vote_tracker sh) ds2 = Some (ds3, vt)" "ds_flush ds3 = Some (sh_dag_state sh')"
    by (auto elim!: bind_SomeE simp: propose_block_def Let_def n v split_beta split: sum.splits)
  then show ?thesis using t by (auto dest!: flush_last_commit track_last_commit votes_last_commit accept_block_last_commit)
qed

lemma try_new_block_last_commit:
  assumes "try_new_block cy sign rg clk force (sh, vp) = Some ((sh', vp'), res)"
  shows "ds_last_commit (sh_dag_state sh') = ds_last_commit (sh_dag_state sh)"
  using assms by (auto simp: try_new_block_def bind_Some_iff Let_def split: option.splits if_splits dest!: propose_last_commit)

lemma add_scoring_last_commit: "ds_add_scoring_subdags sds ds = Some ds' \<Longrightarrow> ds_last_commit ds' = ds_last_commit ds"
  by (auto simp: ds_add_scoring_subdags_def bind_Some_iff)

lemma update_schedule_last_commit: "update_leader_schedule_v2 rg ls ds = Some (ls', ds') \<Longrightarrow> ds_last_commit ds' = ds_last_commit ds"
  by (auto simp: update_leader_schedule_v2_def ds_add_commit_info_def ds_clear_scoring_subdag_def bind_Some_iff)

lemma mark_committed_last_commit: "mark_committed b ds = Some ds' \<Longrightarrow> ds_last_commit ds' = ds_last_commit ds"
  by (auto simp: mark_committed_def ds_set_committed_def bind_Some_iff split: if_splits)

lemma linearize_last_commit:
  assumes "linearize_sub_dag l ds = Some (ds', bs)"
  shows "ds_last_commit ds' = ds_last_commit ds"
proof -
  have loop: "ds_last_commit (fst r) = ds_last_commit e" if r: "linearize_loop gc buf acc e = Some r" for gc buf acc e r
  proof (rule linearize_loop.raw_induct[OF _ r, where P = "\<lambda>gc buf acc e r. ds_last_commit (fst r) = ds_last_commit e"], goal_cases)
    case (1 loop gc buf acc e r)
    have "ds_last_commit e2 = ds_last_commit e" if "foldM mark_committed as e = Some e2" for as e2
      by (rule foldM_inv[OF that, where P = "\<lambda>s. ds_last_commit s = ds_last_commit e"]) (simp_all add: mark_committed_last_commit)
    then show ?case using 1(2) by (auto simp: bind_Some_iff split: list.split_asm dest!: 1(1))
  qed
  then show ?thesis using assms mark_committed_last_commit by (fastforce simp: linearize_sub_dag_def Let_def bind_Some_iff)
qed

subsection \<open>The ledger\<close>

text \<open>The tip of a ledger: index, digest and timestamp of the last commit.\<close>

type_synonym tip = "commit_index \<times> digest \<times> timestamp_ms"

definition tip_of :: "dag_state \<Rightarrow> tip" where
  "tip_of ds = (ds_last_commit_index ds, ds_last_commit_digest ds, ds_last_commit_timestamp_ms ds)"

definition sub_dag_tip :: "committed_sub_dag \<Rightarrow> tip" where
  "sub_dag_tip sd = (cr_index (csd_commit_ref sd), cr_digest (csd_commit_ref sd), csd_timestamp_ms sd)"

definition tip_next :: "tip \<Rightarrow> committed_sub_dag \<Rightarrow> bool" where
  "tip_next t sd \<longleftrightarrow> cr_index (csd_commit_ref sd) = fst t + 1 \<and> snd (snd t) \<le> csd_timestamp_ms sd"

fun chained :: "tip \<Rightarrow> committed_sub_dag list \<Rightarrow> tip \<Rightarrow> bool" where
  "chained t [] t' \<longleftrightarrow> t' = t"
| "chained t (sd # sds) t' \<longleftrightarrow> tip_next t sd \<and> chained (sub_dag_tip sd) sds t'"

record ledger =
  lg_sent :: "committed_sub_dag list"
  lg_tip :: tip
  lg_rounds :: "round list"

inductive ledger_step :: "ledger \<Rightarrow> ledger \<Rightarrow> bool" where
  append: "tip_next (lg_tip L) sd \<Longrightarrow> ledger_step L (L\<lparr>lg_sent := lg_sent L @ [sd], lg_tip := sub_dag_tip sd\<rparr>)"
| signal: "\<forall>r'\<in>set (lg_rounds L). r' < r \<Longrightarrow> ledger_step L (L\<lparr>lg_rounds := lg_rounds L @ [r]\<rparr>)"

lemma chained_trans: "chained t xs u \<Longrightarrow> chained u ys t' \<Longrightarrow> chained t (xs @ ys) t'"
  by (induction xs arbitrary: t) auto

lemma chained_indices:
  "chained t sds t' \<Longrightarrow> map (cr_index \<circ> csd_commit_ref) sds = [fst t + 1..<fst t + 1 + length sds] \<and> fst t' = fst t + length sds \<and>
     sorted (snd (snd t) # map csd_timestamp_ms sds)"
proof (induction sds arbitrary: t)
  case (Cons sd sds)
  then have n: "tip_next t sd" and c: "chained (sub_dag_tip sd) sds t'" by simp_all
  note ih = Cons.IH[OF c]
  have t: "fst (sub_dag_tip sd) = fst t + 1" "snd (snd (sub_dag_tip sd)) = csd_timestamp_ms sd" "cr_index (csd_commit_ref sd) = fst t + 1"
    "snd (snd t) \<le> csd_timestamp_ms sd" using n by (simp_all add: tip_next_def sub_dag_tip_def)
  have "[fst t + 1..<fst t + 1 + length (sd # sds)] = (fst t + 1) # [fst t + 1 + 1..<fst t + 1 + 1 + length sds]"
    by (simp add: upt_conv_Cons del: upt_Suc)
  then show ?case using ih t by (auto simp del: upt_Suc)
qed simp

lemma chained_local: "chained t (map (\<lambda>sd. sd\<lparr>csd_decided_with_local_blocks := v\<rparr>) sds) t' \<longleftrightarrow> chained t sds t'"
  by (induction sds arbitrary: t) (simp_all add: tip_next_def sub_dag_tip_def)

lemma handle_leader_chained:
  assumes "handle_leader cy bcs ctx l (ds, acc) = Some (ds', acc')"
  shows "\<exists>sd. acc' = acc @ [sd] \<and> csd_leader sd = reference l \<and> chained (tip_of ds) [sd] (tip_of ds')"
proof -
  from assms obtain e sd tc where c: "collect_sub_dag_and_commit cy bcs ctx l ds = Some (e, sd, tc)"
    and a: "ds_add_commit tc e = Some ds'" and acc: "acc' = acc @ [sd]"
    by (auto simp: handle_leader_def bind_Some_iff)
  from c obtain bs ts ser where l: "linearize_sub_dag l ds = Some (e, bs)"
    and ts: "calculate_commit_timestamp ctx e l (ds_last_commit_timestamp_ms ds) = Some ts"
    and tc: "tc = new_trusted cy (commit_new (ds_last_commit_index ds + 1) (ds_last_commit_digest ds) ts (reference l) (map reference bs)) ser"
    and sd: "sd = committed_sub_dag_new (reference l) bs ts (tcm_reference tc)"
    by (auto elim!: bind_SomeE simp: collect_sub_dag_and_commit_def Let_def split: sum.splits)
  have le: "ds_last_commit_timestamp_ms ds \<le> ts"
    using ts by (auto simp: calculate_commit_timestamp_def Let_def elim!: bind_SomeE split: sum.splits)
  have "ds_last_commit e = ds_last_commit ds" using linearize_last_commit[OF l] .
  then have "ds_last_commit ds' = Some tc"
    using a tc by (auto simp: ds_add_commit_def bind_Some_iff ds_last_commit_index_def split: option.split_asm if_splits)
  then have "tip_of ds' = sub_dag_tip sd"
    using tc sd by (simp add: tip_of_def sub_dag_tip_def committed_sub_dag_new_def tcm_reference_def ds_last_commit_index_def
        ds_last_commit_digest_def ds_last_commit_timestamp_ms_def)
  moreover have "tip_next (tip_of ds) sd"
    using tc sd le by (simp add: tip_of_def tip_next_def committed_sub_dag_new_def tcm_reference_def)
  ultimately show ?thesis using acc sd by (simp add: committed_sub_dag_new_def)
qed

lemma handle_commit_chained:
  assumes "handle_commit cy bcs ctx ls ds = Some (ds', sds)"
  shows "map csd_leader sds = map reference ls \<and> chained (tip_of ds) sds (tip_of ds')"
proof -
  have "foldM (handle_leader cy bcs ctx) ls (ds, []) = Some (ds', sds)" using assms by (auto simp: handle_commit_def split: if_splits)
  then have "map csd_leader (snd (ds', sds)) = map reference ls \<and> chained (tip_of ds) (snd (ds', sds)) (tip_of (fst (ds', sds)))"
  proof (rule foldM_inv_prefix[where P = "\<lambda>ys s. map csd_leader (snd s) = map reference ys \<and> chained (tip_of ds) (snd s) (tip_of (fst s))"])
    fix ys x zs s s' assume a: "map csd_leader (snd s) = map reference ys \<and> chained (tip_of ds) (snd s) (tip_of (fst s))"
      and h: "handle_leader cy bcs ctx x s = Some s'"
    obtain sd where "snd s' = snd s @ [sd]" "csd_leader sd = reference x" "chained (tip_of (fst s)) [sd] (tip_of (fst s'))"
      using handle_leader_chained[of cy bcs ctx x "fst s" "snd s" "fst s'" "snd s'"] h by auto
    then show "map csd_leader (snd s') = map reference (ys @ [x]) \<and> chained (tip_of ds) (snd s') (tip_of (fst s'))"
      using a chained_trans[of "tip_of ds" "snd s" "tip_of (fst s)" "[sd]" "tip_of (fst s')"] by simp
  qed simp
  then show ?thesis by simp
qed

lemma tip_of_last_commit: "ds_last_commit ds' = ds_last_commit ds \<Longrightarrow> tip_of ds' = tip_of ds"
  by (simp add: tip_of_def ds_last_commit_index_def ds_last_commit_digest_def ds_last_commit_timestamp_ms_def)

subsection \<open>The commits of the core\<close>

text \<open>
  What a part of an operation does to the outputs: sub-dags that continue the chain, rounds above the last one signalled, and
  the ends of the channels stay as they are.
\<close>

definition advances :: "core \<Rightarrow> committed_sub_dag list \<Rightarrow> core \<Rightarrow> bool" where
  "advances co sds co' \<longleftrightarrow> ob_sent (co_commit_observer co') = ob_sent (co_commit_observer co) @ sds \<and>
     chained (tip_of (co_dag_state co)) sds (tip_of (co_dag_state co')) \<and>
     (\<exists>rs. sg_new_rounds (co_signals co') = sg_new_rounds (co_signals co) @ rs \<and>
        sorted_wrt (<) (co_last_signaled_round co # rs) \<and> co_last_signaled_round co' = last (co_last_signaled_round co # rs)) \<and>
     ob_open (co_commit_observer co') = ob_open (co_commit_observer co) \<and>
     sg_block_receivers (co_signals co') = sg_block_receivers (co_signals co)"

definition quiet :: "core \<Rightarrow> core \<Rightarrow> bool" where
  "quiet co co' \<longleftrightarrow> co_commit_observer co' = co_commit_observer co \<and> ds_last_commit (co_dag_state co') = ds_last_commit (co_dag_state co) \<and>
     sg_new_rounds (co_signals co') = sg_new_rounds (co_signals co) \<and> co_last_signaled_round co' = co_last_signaled_round co \<and>
     sg_block_receivers (co_signals co') = sg_block_receivers (co_signals co)"

lemma quiet_advances: "quiet co co' \<Longrightarrow> advances co [] co'"
  using tip_of_last_commit[of "co_dag_state co'" "co_dag_state co"] by (simp add: quiet_def advances_def)

lemma last_upper: "sorted_wrt (<) xs \<Longrightarrow> x \<in> set xs \<Longrightarrow> x \<le> last xs" for xs :: "nat list"
  by (induction xs) (auto intro: less_imp_le)

lemma advances_trans:
  assumes "advances a xs b" and "advances b ys c"
  shows "advances a (xs @ ys) c"
proof -
  from assms obtain rs qs where
    r: "sg_new_rounds (co_signals b) = sg_new_rounds (co_signals a) @ rs" "sorted_wrt (<) (co_last_signaled_round a # rs)"
      "co_last_signaled_round b = last (co_last_signaled_round a # rs)"
    and q: "sg_new_rounds (co_signals c) = sg_new_rounds (co_signals b) @ qs" "sorted_wrt (<) (co_last_signaled_round b # qs)"
      "co_last_signaled_round c = last (co_last_signaled_round b # qs)" unfolding advances_def by auto
  let ?l = "co_last_signaled_round a # rs"
  have "x \<le> last ?l" if "x \<in> set ?l" for x using last_upper[OF r(2) that] .
  then have "sorted_wrt (<) (?l @ qs)" using r(2,3) q(2) unfolding sorted_wrt_append by fastforce
  moreover have "co_last_signaled_round c = last (?l @ qs)" using q(3) r(3) by (cases qs) simp_all
  ultimately have "sorted_wrt (<) (co_last_signaled_round a # rs @ qs) \<and> co_last_signaled_round c = last (co_last_signaled_round a # rs @ qs)"
    by (simp only: append_Cons)
  moreover have "sg_new_rounds (co_signals c) = sg_new_rounds (co_signals a) @ rs @ qs" using r(1) q(1) by simp
  ultimately have "\<exists>rs. sg_new_rounds (co_signals c) = sg_new_rounds (co_signals a) @ rs \<and>
    sorted_wrt (<) (co_last_signaled_round a # rs) \<and> co_last_signaled_round c = last (co_last_signaled_round a # rs)" by blast
  moreover have "chained (tip_of (co_dag_state a)) (xs @ ys) (tip_of (co_dag_state c))"
    using assms chained_trans unfolding advances_def by blast
  moreover have "ob_sent (co_commit_observer c) = ob_sent (co_commit_observer a) @ xs @ ys" "ob_open (co_commit_observer c) = ob_open (co_commit_observer a)"
    "sg_block_receivers (co_signals c) = sg_block_receivers (co_signals a)" using assms by (simp_all add: advances_def)
  ultimately show ?thesis unfolding advances_def by blast
qed

lemma signal_accepted_sel [simp]:
  "sg_new_rounds (signal_accepted_block b sg) = sg_new_rounds sg" "sg_block_receivers (signal_accepted_block b sg) = sg_block_receivers sg"
  by (simp_all add: signal_accepted_block_def)

lemma signals_accepted_sel [simp]:
  "sg_new_rounds (fold signal_accepted_block bs sg) = sg_new_rounds sg" "sg_block_receivers (fold signal_accepted_block bs sg) = sg_block_receivers sg"
  by (induction bs arbitrary: sg) simp_all

lemma signal_new_block_sel:
  assumes "signal_new_block eb sg = (sg', res)"
  shows "sg_new_rounds sg' = sg_new_rounds sg" "sg_block_receivers sg' = sg_block_receivers sg"
  using assms by (auto simp: signal_new_block_def split: if_splits)

lemma with_dag_state_sel [simp]:
  "co_dag_state (with_dag_state ds co) = ds" "co_commit_observer (with_dag_state ds co) = co_commit_observer co"
  "co_signals (with_dag_state ds co) = co_signals co" "co_last_signaled_round (with_dag_state ds co) = co_last_signaled_round co"
  "co_proposer (with_dag_state ds co) = co_proposer co" "co_block_manager (with_dag_state ds co) = co_block_manager co"
  "co_context (with_dag_state ds co) = co_context co" "co_committer (with_dag_state ds co) = co_committer co"
  "co_leader_schedule (with_dag_state ds co) = co_leader_schedule co" "co_leader_schedule_v3 (with_dag_state ds co) = co_leader_schedule_v3 co"
  "co_last_decided_leader (with_dag_state ds co) = co_last_decided_leader co"
  by (simp_all add: with_dag_state_def)

lemma accept_blocks_quiet: "core_accept_blocks now bs co = Some (co', res) \<Longrightarrow> quiet co co'"
  by (auto simp: core_accept_blocks_def try_accept_blocks_def quiet_def elim!: bind_SomeE dest!: accept_internal_last_commit)

lemma accept_committed_quiet: "core_accept_committed_blocks now bs co = Some (co', res) \<Longrightarrow> quiet co co'"
  by (auto simp: core_accept_committed_blocks_def try_accept_committed_blocks_def quiet_def elim!: bind_SomeE dest!: accept_internal_last_commit)

lemma install_schedule_sel [simp]:
  "co_shared (install_schedule ls co) = co_shared co" "co_commit_observer (install_schedule ls co) = co_commit_observer co"
  "co_signals (install_schedule ls co) = co_signals co" "co_last_signaled_round (install_schedule ls co) = co_last_signaled_round co"
  by (simp_all add: install_schedule_def)

lemma schedule_change_quiet: "commits_before_schedule_change env co = Some (co', n) \<Longrightarrow> quiet co co' \<and> 0 < n"
  by (auto simp: commits_before_schedule_change_def quiet_def Let_def elim!: bind_SomeE split: if_splits dest!: update_schedule_last_commit)

lemma finalizer_send_all_eq:
  "finalizer_send_all sds ob = (if sds = [] \<or> ob_open ob then (ob\<lparr>ob_sent := ob_sent ob @ sds\<rparr>, Inr ()) else (ob, Inl Shutdown))"
  by (induction sds arbitrary: ob) (simp_all add: finalizer_send_def)

lemma commit_leaders_advances:
  assumes "commit_leaders env now ls local co = Some (co', res)" and "ls \<noteq> []"
  shows "case res of Inr sds \<Rightarrow> advances co sds co' \<and> map csd_leader sds = map reference ls \<and> ob_open (co_commit_observer co)
    | Inl e \<Rightarrow> e = Shutdown \<and> \<not> ob_open (co_commit_observer co)"
proof -
  let ?ds = "co_dag_state co" and ?ob = "co_commit_observer co"
  from assms(1) obtain ds1 sds0 where h: "handle_commit (ce_crypto env) (ce_bcs_commit env) (ob_context ?ob) ls ?ds = Some (ds1, sds0)"
    by (auto elim!: bind_SomeE simp: commit_leaders_def observer_handle_commit_def)
  note c = handle_commit_chained[OF h]
  let ?sds = "map (\<lambda>sd. sd\<lparr>csd_decided_with_local_blocks := local\<rparr>) sds0"
  have ne: "?sds \<noteq> []" using c assms(2) by (metis Nil_is_map_conv)
  show ?thesis
  proof (cases "ob_open ?ob")
    case True
    with assms(1) h obtain ds2 ds3 bm where a: "ds_add_scoring_subdags ?sds ds1 = Some ds2"
      "gc_unsuspend_loop now (ds_gc_round ds2) ds2 (co_block_manager co) = Some (ds3, bm)" "res = Inr ?sds"
      "co' = (with_dag_state ds3 ((with_dag_state ds2 co)\<lparr>co_commit_observer := ?ob\<lparr>ob_sent := ob_sent ?ob @ ?sds\<rparr>\<rparr>))\<lparr>co_block_manager := bm\<rparr>"
      by (auto elim!: bind_SomeE simp: commit_leaders_def observer_handle_commit_def finalizer_send_all_eq try_unsuspend_blocks_for_latest_gc_round_def Let_def)
    have "tip_of ds3 = tip_of ds1"
      using tip_of_last_commit add_scoring_last_commit[OF a(1)] gc_unsuspend_last_commit[OF a(2)] by metis
    then have "advances co ?sds co'" using c by (simp add: advances_def a(4) chained_local)
    moreover have "map csd_leader ?sds = map reference ls" using c by (simp add: comp_def)
    ultimately show ?thesis using True a(3) by simp
  next
    case False
    then have "res = Inl Shutdown" using assms(1) h ne
      by (auto elim!: bind_SomeE simp: commit_leaders_def observer_handle_commit_def finalizer_send_all_eq Let_def)
    then show ?thesis using False by simp
  qed
qed

subsection \<open>The loop\<close>

lemma choose_leaders_quiet:
  assumes "choose_leaders env now certified co = Some (co', rest, decided, local)"
  shows "quiet co co'"
proof -
  from assms obtain co1 n bs x where "commits_before_schedule_change env co = Some (co1, n)" "core_accept_committed_blocks now bs co1 = Some (co', x)"
    by (auto simp: choose_leaders_def elim!: bind_SomeE)
  then show ?thesis using schedule_change_quiet accept_committed_quiet unfolding quiet_def by metis
qed

abbreviation leaders_of :: "decided_leader list \<Rightarrow> verified_block list" where
  "leaders_of \<equiv> List.map_filter into_committed_block"

definition note_decided :: "decided_leader list \<Rightarrow> core \<Rightarrow> core" where
  "note_decided decided co = (if decided = [] then co else co\<lparr>co_last_decided_leader := decided_slot (last decided)\<rparr>)"

lemma note_decided_quiet [simp]: "quiet co (note_decided decided co)"
  by (simp add: quiet_def note_decided_def)

text \<open>Induction over the iterations of a loop that returns: it stops, fails or starts over.\<close>

lemma commit_loop_induct [consumes 1, case_names stop fail again]:
  assumes "commit_loop env now certified acc co = Some r"
    and stop: "\<And>certified acc co co1 rest decided local. choose_leaders env now certified co = Some (co1, rest, decided, local) \<Longrightarrow>
      leaders_of decided = [] \<Longrightarrow> P certified acc co (note_decided decided co1, Inr acc)"
    and fail: "\<And>certified acc co co1 rest decided local co3 e. choose_leaders env now certified co = Some (co1, rest, decided, local) \<Longrightarrow>
      leaders_of decided \<noteq> [] \<Longrightarrow> commit_leaders env now (leaders_of decided) local (note_decided decided co1) = Some (co3, Inl e) \<Longrightarrow>
      P certified acc co (co3, Inl e)"
    and again: "\<And>certified acc co co1 rest decided local co3 sds r. choose_leaders env now certified co = Some (co1, rest, decided, local) \<Longrightarrow>
      leaders_of decided \<noteq> [] \<Longrightarrow> commit_leaders env now (leaders_of decided) local (note_decided decided co1) = Some (co3, Inr sds) \<Longrightarrow>
      P rest (acc @ sds) co3 r \<Longrightarrow> P certified acc co r"
  shows "P certified acc co r"
proof -
  have "env' = env \<longrightarrow> now' = now \<longrightarrow> P certified acc co r" if "commit_loop env' now' certified acc co = Some r" for env' now'
  proof (rule commit_loop.raw_induct[OF _ that, where P = "\<lambda>env' now' certified acc co r. env' = env \<longrightarrow> now' = now \<longrightarrow> P certified acc co r"], goal_cases)
    case (1 loop env' now' certified acc co r)
    show ?case
    proof (intro impI)
      assume e: "env' = env" "now' = now"
      from 1(2) e obtain co1 rest decided local where ch: "choose_leaders env now certified co = Some (co1, rest, decided, local)"
        by (auto elim!: bind_SomeE)
      have run: "(if leaders_of decided = [] then Some (note_decided decided co1, Inr acc)
        else do {
          (co3, r) \<leftarrow> commit_leaders env now (leaders_of decided) local (note_decided decided co1);
          case r of Inl e \<Rightarrow> Some (co3, Inl e) | Inr sds \<Rightarrow> loop env now rest (acc @ sds) co3
        }) = Some r"
        using 1(2) e by (cases "decided = []"; cases "leaders_of decided = []") (simp_all add: ch note_decided_def Let_def List.map_filter_simps)
      show "P certified acc co r"
      proof (cases "leaders_of decided = []")
        case True
        then show ?thesis using run stop[OF ch] by auto
      next
        case False
        with run obtain co3 r' where c: "commit_leaders env now (leaders_of decided) local (note_decided decided co1) = Some (co3, r')"
          "(case r' of Inl e \<Rightarrow> Some (co3, Inl e) | Inr sds \<Rightarrow> loop env now rest (acc @ sds) co3) = Some r" by (auto elim!: bind_SomeE)
        show ?thesis
        proof (cases r')
          case (Inl e)
          then show ?thesis using fail[OF ch False] c by auto
        next
          case (Inr sds)
          then have "loop env now rest (acc @ sds) co3 = Some r" using c(2) by simp
          from 1(1)[OF this] have "P rest (acc @ sds) co3 r" by simp
          then show ?thesis using again[OF ch False] c(1) Inr by blast
        qed
      qed
    qed
  qed
  then show ?thesis using assms(1) by blast
qed

lemma commit_loop_advances:
  assumes "commit_loop env now certified acc co = Some r"
  shows "case r of (co', Inr sds) \<Rightarrow> \<exists>new. sds = acc @ new \<and> advances co new co'
    | (co', Inl e) \<Rightarrow> e = Shutdown \<and> \<not> ob_open (co_commit_observer co)"
  using assms
proof (induction rule: commit_loop_induct)
  case (stop certified acc co co1 rest decided local)
  have "quiet co (note_decided decided co1)"
    using choose_leaders_quiet[OF stop(1)] note_decided_quiet[of co1 decided] unfolding quiet_def by simp
  then show ?case using quiet_advances by auto
next
  case (fail certified acc co co1 rest decided local co3 e)
  have "quiet co (note_decided decided co1)"
    using choose_leaders_quiet[OF fail(1)] note_decided_quiet[of co1 decided] unfolding quiet_def by simp
  then show ?case using commit_leaders_advances[OF fail(3,2)] by (simp add: quiet_def)
next
  case (again certified acc co co1 rest decided local co3 sds r)
  have q: "quiet co (note_decided decided co1)"
    using choose_leaders_quiet[OF again(1)] note_decided_quiet[of co1 decided] unfolding quiet_def by simp
  have "advances (note_decided decided co1) sds co3" using commit_leaders_advances[OF again(3,2)] by simp
  from advances_trans[OF quiet_advances[OF q] this] have a: "advances co sds co3" by simp
  then have "ob_open (co_commit_observer co3) = ob_open (co_commit_observer co)" by (simp add: advances_def)
  then show ?case using again(4) advances_trans[OF a] by (fastforce split: prod.splits sum.splits)
qed

subsection \<open>The operations\<close>

text \<open>
  What every operation of the core guarantees: on success it advances the outputs, and the only error is the end of a
  channel; a closed broadcast channel still leaves the outputs consistent.
\<close>

definition op_advances :: "core \<Rightarrow> core \<Rightarrow> 'a consensus_result \<Rightarrow> bool" where
  "op_advances co co' res \<longleftrightarrow> (case res of
      Inr _ \<Rightarrow> \<exists>new. advances co new co'
    | Inl e \<Rightarrow> e = Shutdown \<and> (\<not> ob_open (co_commit_observer co) \<or>
        \<not> sg_block_receivers (co_signals co) \<and> (\<exists>new. advances co new co')))"

lemma op_advances_sel [simp]:
  "op_advances co co' (Inr x) \<longleftrightarrow> (\<exists>new. advances co new co')"
  "op_advances co co' (Inl e) \<longleftrightarrow> e = Shutdown \<and> (\<not> ob_open (co_commit_observer co) \<or>
     \<not> sg_block_receivers (co_signals co) \<and> (\<exists>new. advances co new co'))"
  by (simp_all add: op_advances_def)

lemma advances_flags:
  "advances a new b \<Longrightarrow> ob_open (co_commit_observer b) = ob_open (co_commit_observer a) \<and> sg_block_receivers (co_signals b) = sg_block_receivers (co_signals a)"
  by (simp add: advances_def)

lemma op_advances_trans: "advances a new b \<Longrightarrow> op_advances b c res \<Longrightarrow> op_advances a c res"
  using advances_trans[of a new b] advances_flags[of a new b] by (cases res) fastforce+

lemma op_advances_then:
  assumes "\<exists>new. advances a new b" and "op_advances b c res"
  shows "op_advances a c res"
  using assms op_advances_trans by blast

lemma notify_quiet: "quiet co (notify_own_committed sds co)"
  by (simp add: quiet_def notify_own_committed_def Let_def split: option.splits prod.splits)

lemma try_commit_advances:
  assumes "core_try_commit env now certified co = Some (co', res)"
  shows "op_advances co co' res"
proof -
  from assms obtain co1 r where l: "commit_loop env now certified [] co = Some (co1, r)" by (auto simp: core_try_commit_def elim!: bind_SomeE)
  show ?thesis
  proof (cases r)
    case (Inl e)
    then show ?thesis using assms l commit_loop_advances[OF l] by (simp add: core_try_commit_def) (auto simp: Inl)
  next
    case (Inr sds)
    then have "co' = notify_own_committed sds co1" "res = Inr sds" using assms l by (auto simp: core_try_commit_def elim!: bind_SomeE)
    then show ?thesis using commit_loop_advances[OF l] Inr advances_trans[OF _ quiet_advances[OF notify_quiet[of co1 sds]]] by auto
  qed
qed

lemma try_propose_advances:
  assumes "core_try_propose env clk force co = Some (co', res)"
  shows "op_advances co co' res"
proof (cases "co_proposer co")
  case None
  then show ?thesis using assms quiet_advances[of co co] by (auto simp: core_try_propose_def quiet_def)
next
  case (Some vp)
  with assms obtain sh vp' proposed where n: "try_new_block (ce_crypto env) (ce_sign env) (ce_rng env) clk force (co_shared co, vp) = Some ((sh, vp'), proposed)"
    by (auto simp: core_try_propose_def elim!: bind_SomeE)
  let ?co = "co\<lparr>co_shared := sh, co_proposer := Some vp'\<rparr>"
  have q: "quiet co ?co" using try_new_block_last_commit[OF n] by (simp add: quiet_def)
  show ?thesis
  proof (cases proposed)
    case None
    then show ?thesis using assms n Some quiet_advances[OF q] by (auto simp: core_try_propose_def)
  next
    case (Some p)
    obtain eb acks where p: "p = (eb, acks)" by (cases p)
    obtain sg r where s: "signal_new_block eb (co_signals co) = (sg, r)" by (cases "signal_new_block eb (co_signals co)")
    let ?co2 = "?co\<lparr>co_inclusion_acks := co_inclusion_acks co @ acks, co_signals := sg\<rparr>"
    let ?co3 = "?co\<lparr>co_inclusion_acks := co_inclusion_acks co @ acks, co_signals := signal_accepted_block (eb_block eb) sg\<rparr>"
    have q2: "quiet co ?co2" "quiet co ?co3" using q signal_new_block_sel[OF s] by (simp_all add: quiet_def)
    show ?thesis
    proof (cases r)
      case (Inl e)
      then have "e = Shutdown" "\<not> sg_block_receivers (co_signals co)" using s by (auto simp: signal_new_block_def split: if_splits)
      moreover have "co' = ?co2" "res = Inl e" using assms n Some p s Inl \<open>co_proposer co = Some vp\<close> by (simp_all add: core_try_propose_def)
      ultimately show ?thesis using quiet_advances[OF q2(1)] by auto
    next
      case (Inr u)
      with assms n Some p s \<open>co_proposer co = Some vp\<close> obtain co4 r2 where c: "core_try_commit env (pk_instant clk) [] ?co3 = Some (co4, r2)"
        "co' = co4" "res = (case r2 of Inl e \<Rightarrow> Inl e | Inr _ \<Rightarrow> Inr (Some (eb_block eb)))" by (auto simp: core_try_propose_def elim!: bind_SomeE)
      have "op_advances co co4 r2" using op_advances_trans[OF quiet_advances[OF q2(2)] try_commit_advances[OF c(1)]] .
      then show ?thesis using c(2,3) by (cases r2) simp_all
    qed
  qed
qed

lemma signal_round_advances: "advances co [] (try_signal_new_round co)"
proof (cases "ds_threshold_clock_round (co_dag_state co) \<le> co_last_signaled_round co")
  case True
  then show ?thesis by (simp add: try_signal_new_round_def advances_def)
next
  case False
  then show ?thesis by (simp add: try_signal_new_round_def advances_def Let_def signal_new_round_def)
qed

lemma op_advances_map:
  assumes "op_advances co co' res"
  shows "op_advances co co' (case res of Inl e \<Rightarrow> Inl e | Inr x \<Rightarrow> Inr (f x))"
  using assms by (cases res) simp_all

lemma op_advances_signal:
  assumes "op_advances co co' res"
  shows "op_advances co (try_signal_new_round co') res"
  using assms advances_trans[OF _ signal_round_advances[of co']] by (cases res) auto

lemma commit_and_propose_advances:
  assumes "commit_and_propose env clk commits co = Some (co', res)"
  shows "op_advances co co' res"
proof -
  from assms obtain co1 r where c: "core_try_commit env (pk_instant clk) commits co = Some (co1, r)"
    by (auto simp: commit_and_propose_def elim!: bind_SomeE)
  note a = try_commit_advances[OF c]
  show ?thesis
  proof (cases r)
    case (Inl e)
    then show ?thesis using assms c a by (auto simp: commit_and_propose_def)
  next
    case (Inr sds)
    with assms c obtain co2 r2 where p: "core_try_propose env clk False co1 = Some (co2, r2)"
      and r: "(co', res) = (case r2 of Inl e \<Rightarrow> (co2, Inl e) | Inr _ \<Rightarrow> (try_signal_new_round co2, Inr ()))"
      by (auto simp: commit_and_propose_def elim!: bind_SomeE)
    have b: "op_advances co co2 r2" using op_advances_then[OF _ try_propose_advances[OF p]] a Inr by simp
    show ?thesis using r b op_advances_signal[OF b] by (cases r2) simp_all
  qed
qed

lemma add_blocks_advances:
  assumes "core_add_blocks env clk bs co = Some (co', res)"
  shows "op_advances co co' res"
proof -
  from assms obtain co1 acc missing where a: "core_accept_blocks (pk_instant clk) bs co = Some (co1, acc, missing)"
    by (auto simp: core_add_blocks_def elim!: bind_SomeE)
  note q = quiet_advances[OF accept_blocks_quiet[OF a]]
  show ?thesis
  proof (cases "acc = []")
    case True
    then show ?thesis using assms a q by (auto simp: core_add_blocks_def)
  next
    case False
    with assms a obtain r where c: "commit_and_propose env clk [] co1 = Some (co', r)" and r: "res = (case r of Inl e \<Rightarrow> Inl e | Inr _ \<Rightarrow> Inr missing)"
      by (auto simp: core_add_blocks_def elim!: bind_SomeE)
    show ?thesis unfolding r by (rule op_advances_map[OF op_advances_trans[OF q commit_and_propose_advances[OF c]]])
  qed
qed

lemma add_certified_advances:
  assumes "core_add_certified_commits env clk certified co = Some (co', res)"
  shows "op_advances co co' res"
proof -
  from assms obtain commits co1 acc missing r where a: "core_accept_blocks (pk_instant clk) (ccs_votes certified) co = Some (co1, acc, missing)"
    and c: "commit_and_propose env clk commits co1 = Some (co', r)" and r: "res = (case r of Inl e \<Rightarrow> Inl e | Inr _ \<Rightarrow> Inr missing)"
    by (auto simp: core_add_certified_commits_def elim!: bind_SomeE split: sum.splits)
  show ?thesis unfolding r
    by (rule op_advances_map[OF op_advances_trans[OF quiet_advances[OF accept_blocks_quiet[OF a]] commit_and_propose_advances[OF c]]])
qed

lemma new_block_advances:
  assumes "core_new_block env clk r force co = Some (co', res)"
  shows "op_advances co co' res"
proof -
  from assms obtain l where l: "core_last_proposed_round co = Some l" by (auto simp: core_new_block_def elim!: bind_SomeE)
  show ?thesis
  proof (cases "case l of Some l \<Rightarrow> l < r | None \<Rightarrow> False")
    case True
    with assms l obtain co1 where "core_try_propose env clk force co = Some (co1, res)" "co' = try_signal_new_round co1"
      by (auto simp: core_new_block_def elim!: bind_SomeE)
    then show ?thesis using op_advances_signal[OF try_propose_advances] by blast
  next
    case False
    then have "co' = co" "res = Inr None" using assms l by (simp_all add: core_new_block_def)
    then show ?thesis using quiet_advances[of co co] by (auto simp: quiet_def)
  qed
qed

subsection \<open>Runs\<close>

lemma op_advances_unit: "op_advances co co' res \<Longrightarrow> op_advances co co' (map_sum id (\<lambda>_. ()) res)"
  by (cases res) simp_all

lemma drop_result_Some: "drop_result r = Some (co, res) \<longleftrightarrow> (\<exists>x. r = Some (co, x) \<and> res = map_sum id (\<lambda>_. ()) x)"
  by (auto simp: drop_result_def)

lemma set_last_known_quiet: "core_set_last_known_proposed_round r co = Some co' \<Longrightarrow> quiet co co'"
  by (auto simp: core_set_last_known_proposed_round_def quiet_def elim!: bind_SomeE split: option.splits)

lemma core_step_advances:
  assumes "core_step env clk ev co = Some (co', res)"
  shows "op_advances co co' res"
proof (cases ev)
  case (AddBlocks bs)
  then show ?thesis using assms add_blocks_advances op_advances_unit by (fastforce simp: core_step_def drop_result_Some)
next
  case (AddCertifiedCommits ccs)
  then show ?thesis using assms add_certified_advances op_advances_unit by (fastforce simp: core_step_def drop_result_Some)
next
  case (CheckBlockRefs rs)
  with assms obtain bm where "co' = co\<lparr>co_block_manager := bm\<rparr>" "res = Inr ()"
    by (auto simp: core_step_def drop_result_Some core_check_block_refs_def elim!: bind_SomeE)
  then show ?thesis using quiet_advances[of co co'] by (auto simp: quiet_def)
next
  case (NewBlock r force)
  then show ?thesis using assms new_block_advances op_advances_unit by (fastforce simp: core_step_def drop_result_Some)
next
  case GetMissing
  then show ?thesis using assms quiet_advances[of co co] by (auto simp: core_step_def quiet_def)
next
  case (SetPropagationDelay d)
  let ?co = "core_set_propagation_delay d co"
  have q: "advances co [] ?co" by (rule quiet_advances) (simp add: core_set_propagation_delay_def quiet_def)
  have "op_advances ?co co' res"
    using SetPropagationDelay assms new_block_advances op_advances_unit quiet_advances[of ?co ?co]
    by (fastforce simp: core_step_def drop_result_Some Let_def quiet_def split: if_splits)
  then show ?thesis by (rule op_advances_trans[OF q])
next
  case (SetLastKnownProposedRound r)
  with assms obtain co1 x where c: "core_set_last_known_proposed_round r co = Some co1" "core_new_block env clk u32_max True co1 = Some (co', x)"
    "res = map_sum id (\<lambda>_. ()) x" by (auto simp: core_step_def drop_result_Some elim!: bind_SomeE)
  show ?thesis unfolding c(3)
    by (rule op_advances_unit[OF op_advances_trans[OF quiet_advances[OF set_last_known_quiet[OF c(1)]] new_block_advances[OF c(2)]]])
qed

lemma core_run_advances:
  assumes "core_run env evs co = Some (co', res)"
  shows "op_advances co co' res"
  using assms
proof (induction evs arbitrary: co)
  case Nil
  then show ?case using quiet_advances[of co co] by (auto simp: quiet_def)
next
  case (Cons e evs)
  obtain clk ev where e: "e = (clk, ev)" by (cases e)
  from Cons.prems e obtain co1 r where s: "core_step env clk ev co = Some (co1, r)"
    "(case r of Inl e \<Rightarrow> Some (co1, Inl e) | Inr _ \<Rightarrow> core_run env evs co1) = Some (co', res)" by (auto elim!: bind_SomeE)
  note a = core_step_advances[OF s(1)]
  show ?case
  proof (cases r)
    case (Inl x)
    then show ?thesis using s(2) a by auto
  next
    case (Inr u)
    then have "op_advances co1 co' res" using s(2) Cons.IH by simp
    from op_advances_then[OF _ this] show ?thesis using a Inr by simp
  qed
qed

subsection \<open>Refinement\<close>

definition ledger_of :: "core \<Rightarrow> ledger" where
  "ledger_of co = \<lparr>lg_sent = ob_sent (co_commit_observer co), lg_tip = tip_of (co_dag_state co), lg_rounds = sg_new_rounds (co_signals co)\<rparr>"

text \<open>The finalizer listens, and no round above the last signalled one was signalled.\<close>

definition core_ok :: "core \<Rightarrow> bool" where
  "core_ok co \<longleftrightarrow> ob_open (co_commit_observer co) \<and> (\<forall>r\<in>set (sg_new_rounds (co_signals co)). r \<le> co_last_signaled_round co)"

lemma ledger_appends: "chained (lg_tip L) sds t \<Longrightarrow> ledger_step\<^sup>*\<^sup>* L (L\<lparr>lg_sent := lg_sent L @ sds, lg_tip := t\<rparr>)"
proof (induction sds arbitrary: L)
  case (Cons sd sds)
  let ?L = "L\<lparr>lg_sent := lg_sent L @ [sd], lg_tip := sub_dag_tip sd\<rparr>"
  have "ledger_step L ?L" using Cons.prems by (intro ledger_step.append) simp
  moreover have "ledger_step\<^sup>*\<^sup>* ?L (?L\<lparr>lg_sent := lg_sent ?L @ sds, lg_tip := t\<rparr>)" using Cons.prems by (intro Cons.IH) simp
  ultimately show ?case by (simp add: converse_rtranclp_into_rtranclp)
qed simp

lemma ledger_signals:
  "sorted_wrt (<) (m # rs) \<Longrightarrow> \<forall>r\<in>set (lg_rounds L). r \<le> m \<Longrightarrow> ledger_step\<^sup>*\<^sup>* L (L\<lparr>lg_rounds := lg_rounds L @ rs\<rparr>)"
proof (induction rs arbitrary: L m)
  case (Cons r rs)
  let ?L = "L\<lparr>lg_rounds := lg_rounds L @ [r]\<rparr>"
  have "\<forall>r'\<in>set (lg_rounds L). r' < r" using Cons.prems by auto
  then have "ledger_step L ?L" by (rule ledger_step.signal)
  moreover have "ledger_step\<^sup>*\<^sup>* ?L (?L\<lparr>lg_rounds := lg_rounds ?L @ rs\<rparr>)" using Cons.prems by (intro Cons.IH[of r]) fastforce+
  ultimately show ?case by (simp add: converse_rtranclp_into_rtranclp)
qed simp

lemma advances_refines:
  assumes "advances co new co'" and "core_ok co"
  shows "ledger_step\<^sup>*\<^sup>* (ledger_of co) (ledger_of co') \<and> core_ok co'"
proof -
  let ?L = "ledger_of co"
  from assms(1) obtain rs where rs: "sg_new_rounds (co_signals co') = sg_new_rounds (co_signals co) @ rs"
    "sorted_wrt (<) (co_last_signaled_round co # rs)" "co_last_signaled_round co' = last (co_last_signaled_round co # rs)"
    unfolding advances_def by blast
  have a: "ob_sent (co_commit_observer co') = ob_sent (co_commit_observer co) @ new" "chained (lg_tip ?L) new (tip_of (co_dag_state co'))"
    "ob_open (co_commit_observer co') = ob_open (co_commit_observer co)" using assms(1) by (simp_all add: advances_def ledger_of_def)
  let ?M = "?L\<lparr>lg_sent := lg_sent ?L @ new, lg_tip := tip_of (co_dag_state co')\<rparr>"
  have old: "\<forall>r\<in>set (lg_rounds ?M). r \<le> co_last_signaled_round co" using assms(2) by (simp add: core_ok_def ledger_of_def)
  have "ledger_step\<^sup>*\<^sup>* ?L (?M\<lparr>lg_rounds := lg_rounds ?M @ rs\<rparr>)"
    using rtranclp_trans[OF ledger_appends[OF a(2)] ledger_signals[OF rs(2) old]] .
  moreover have "?M\<lparr>lg_rounds := lg_rounds ?M @ rs\<rparr> = ledger_of co'" using a(1) rs(1) by (simp add: ledger_of_def)
  moreover have "r \<le> co_last_signaled_round co'" if "r \<in> set (sg_new_rounds (co_signals co'))" for r
  proof -
    have "x \<le> co_last_signaled_round co'" if "x \<in> set (co_last_signaled_round co # rs)" for x using last_upper[OF rs(2) that] rs(3) by simp
    then show ?thesis using that rs(1) assms(2) unfolding core_ok_def by (fastforce intro: order_trans)
  qed
  ultimately show ?thesis using a(3) assms(2) by (simp add: core_ok_def)
qed

subsection \<open>Certified commits\<close>

lemma certified_leader_Some: "certified_leader ctx cc = Some (d, cc') \<Longrightarrow> cc' = cc \<and> (\<exists>b. d = DLCommit b False)"
  by (auto simp: certified_leader_def Let_def elim!: bind_SomeE)

lemma select_certified:
  assumes "try_select_certified_leaders ctx cs n = Some (sel, rest)"
  shows "0 < n \<and> rest = drop n cs \<and> length (leaders_of (map fst sel)) = min n (length cs)"
proof -
  have n: "0 < n" using assms by (auto simp: try_select_certified_leaders_def elim!: bind_SomeE)
  have t: "rest = drop n cs \<and> mapM (certified_leader ctx) (take n cs) = Some sel"
    using assms by (auto simp: try_select_certified_leaders_def Let_def elim!: bind_SomeE split: if_splits)
  have "mapM (certified_leader ctx) xs = Some sel \<Longrightarrow> length (leaders_of (map fst sel)) = length xs" for xs
  proof (induction xs arbitrary: sel)
    case (Cons x xs)
    then obtain d c sel' where "certified_leader ctx x = Some (d, c)" "mapM (certified_leader ctx) xs = Some sel'" "sel = (d, c) # sel'"
      by (auto elim!: bind_SomeE)
    then show ?case using Cons.IH certified_leader_Some[of ctx x d c] by (auto simp: List.map_filter_simps)
  qed (simp add: List.map_filter_simps)
  from this[of "take n cs"] t show ?thesis using n by (simp add: min.commute)
qed

lemma choose_leaders_certified:
  assumes "choose_leaders env now cs co = Some (co', rest, decided, local)"
  shows "\<exists>n>0. rest = drop n cs \<and> (cs \<noteq> [] \<longrightarrow> length (leaders_of decided) = min n (length cs))"
proof -
  from assms obtain ctx n sel co2 where s: "try_select_certified_leaders ctx cs n = Some (sel, rest)"
    and d: "next_decided_leaders env (map fst sel) n co2 = Some (decided, local)" by (auto simp: choose_leaders_def elim!: bind_SomeE)
  note c = select_certified[OF s]
  have "decided = map fst sel" if "cs \<noteq> []"
  proof -
    have "sel \<noteq> []" using c that by (auto simp: List.map_filter_simps min_def split: if_splits)
    then show ?thesis using d by (simp add: next_decided_leaders_def)
  qed
  then show ?thesis using c by auto
qed

lemma commit_loop_consumes:
  assumes "commit_loop env now cs acc co = Some r"
  shows "case snd r of Inr sds \<Rightarrow> length acc + length cs \<le> length sds | Inl e \<Rightarrow> True"
  using assms
proof (induction rule: commit_loop_induct)
  case (stop cs acc co co1 rest decided local)
  then show ?case using choose_leaders_certified[OF stop(1)] by (cases "cs = []") (auto simp: min_def split: if_splits)
next
  case (again cs acc co co1 rest decided local co3 sds r)
  have "map csd_leader sds = map reference (leaders_of decided)" using commit_leaders_advances[OF again(3,2)] by simp
  then have "length sds = length (leaders_of decided)" by (metis length_map)
  moreover obtain n where "rest = drop n cs" "cs \<noteq> [] \<longrightarrow> length (leaders_of decided) = min n (length cs)"
    using choose_leaders_certified[OF again(1)] by blast
  ultimately have "length cs \<le> length sds + length rest" by (cases "cs = []") auto
  then show ?case using again(4) by (cases "snd r") simp_all
qed simp

lemma check_certified_all:
  assumes "foldM check_certified sds m = Some m'" and "distinct (map (cr_index \<circ> csd_commit_ref) sds)" and "sd \<in> set sds"
    and "fmlookup m (cr_index (csd_commit_ref sd)) = Some r"
  shows "csd_commit_ref sd = r"
  using assms
proof (induction sds arbitrary: m)
  case (Cons x sds)
  from Cons.prems(1) obtain m1 where x: "check_certified x m = Some m1" "foldM check_certified sds m1 = Some m'" by (auto elim!: bind_SomeE)
  show ?case
  proof (cases "sd = x")
    case True
    then show ?thesis using x(1) Cons.prems(4) by (auto simp: check_certified_def elim!: bind_SomeE)
  next
    case False
    then have sd: "sd \<in> set sds" and "cr_index (csd_commit_ref x) \<noteq> cr_index (csd_commit_ref sd)" using Cons.prems(2,3) by force+
    then have "fmlookup m1 (cr_index (csd_commit_ref sd)) = Some r"
      using x(1) Cons.prems(4) by (auto simp: check_certified_def elim!: bind_SomeE split: option.splits)
    then show ?thesis using Cons.IH[OF x(2) _ sd] Cons.prems(2) by simp
  qed
qed simp

lemma certified_map_lookup:
  assumes "distinct (map (tcm_index \<circ> cc_commit) ccs)" and "c \<in> set ccs"
  shows "fmlookup (certified_commits_map ccs) (tcm_index (cc_commit c)) = Some (tcm_reference (cc_commit c))"
  using assms
proof (induction ccs rule: rev_induct)
  case (snoc x ccs)
  then show ?case by (cases "c = x") (force simp: certified_commits_map_def)+
qed simp

subsection \<open>Properties\<close>

text \<open>A node that only follows a committee of one member, and three blocks of that member.\<close>

definition solo_context :: consensus_context where
  "solo_context = sample_context\<lparr>cx_committee := \<lparr>c_epoch = 0, c_authorities = [sample_authority 1], c_total_stake = 1,
     c_quorum_threshold = 1, c_certification_threshold = 1, c_validity_threshold = 1\<rparr>\<rparr>"

definition solo_env :: core_env where
  "solo_env = \<lparr>ce_crypto = sample_crypto, ce_bcs_commit = (\<lambda>cm. Inr []), ce_sign = (\<lambda>m. [7]), ce_rng = sample_rng, ce_shuffle = (\<lambda>d xs. xs)\<rparr>"

definition solo_clock :: "nat \<Rightarrow> proposal_clock" where
  "solo_clock t = \<lparr>pk_checked = t, pk_now = t, pk_instant = t\<rparr>"

definition solo_core :: core where
  "solo_core =
     (let ls = leader_schedule_new solo_context leader_swap_table_default
      in \<lparr>co_context = solo_context, co_block_manager = block_manager_new solo_context, co_committer = core_committer solo_context ls,
        co_last_signaled_round = 1, co_last_decided_leader = Slot 0 0, co_leader_schedule = ls, co_leader_schedule_v3 = None,
        co_commit_observer = \<lparr>ob_context = solo_context, ob_sent = [], ob_open = True\<rparr>, co_signals = core_signals_new solo_context,
        co_proposer = None,
        co_shared = \<lparr>sh_dag_state = ds_fresh 0 solo_context (the (genesis_blocks sample_crypto solo_context)),
          sh_vote_tracker = vts_new solo_context, sh_round_tracker = the (round_tracker_new solo_context [])\<rparr>,
        co_inclusion_acks = [], co_status_updates = []\<rparr>)"

definition solo_block :: "round \<Rightarrow> verified_block" where
  "solo_block r = sample_vb r 0 1 (10 * r) [BlockRef (r - 1) 0 (if r = 1 then 0 else 1)]"

definition solo_events :: "(proposal_clock \<times> core_event) list" where
  "solo_events = [(solo_clock 0, AddBlocks [solo_block 3, solo_block 2]), (solo_clock 5, AddBlocks [solo_block 1])]"

definition solo_certified :: certified_commit where
  "solo_certified = \<lparr>cc_commit = new_trusted sample_crypto (commit_new 1 0 0 (reference (solo_block 1)) [reference (solo_block 1)]) [],
     cc_blocks = [solo_block 1]\<rparr>"

text \<open>The blocks arrive out of order; the last one releases the others and its member's first block is committed.\<close>

lemma solo_run:
  "\<exists>co'. core_run solo_env solo_events solo_core = Some (co', Inr ()) \<and> map csd_leader (ob_sent (co_commit_observer co')) = [BlockRef 1 0 1] \<and>
     sg_new_rounds (co_signals co') = [0, 4]"
proof -
  have "map_option (\<lambda>(co, res). (map csd_leader (ob_sent (co_commit_observer co)), sg_new_rounds (co_signals co), res)) (core_run solo_env solo_events solo_core) =
    Some ([BlockRef 1 0 1], [0, 4], Inr ())" by code_simp
  then show ?thesis by auto
qed

lemma solo_core_ok: "core_ok solo_core"
  by (simp add: core_ok_def solo_core_def core_signals_new_def Let_def)

text \<open>
  C3. The core refines the ledger. In every run of calls from a state whose finalizer listens, whatever blocks, certified
  commits and timeouts arrive, each change of the outputs is a sequence of ledger steps: sub-dags are only appended, with the index after
  the last commit and a timestamp that is not below its own, and rounds are only signalled in increasing order. So the sub-dags of
  the run continue the last commit without a gap.
\<close>

theorem core_refines_ledger:
  assumes "core_ok co" and "core_run env evs co = Some (co', res)"
  shows "ledger_step\<^sup>*\<^sup>* (ledger_of co) (ledger_of co') \<and> core_ok co' \<and>
    (\<exists>new. ob_sent (co_commit_observer co') = ob_sent (co_commit_observer co) @ new \<and>
       map (cr_index \<circ> csd_commit_ref) new = [ds_last_commit_index (co_dag_state co) + 1..<ds_last_commit_index (co_dag_state co') + 1] \<and>
       sorted (ds_last_commit_timestamp_ms (co_dag_state co) # map csd_timestamp_ms new))"
proof -
  obtain new where a: "advances co new co'"
    using core_run_advances[OF assms(2)] assms(1) by (cases res) (auto simp: core_ok_def)
  have c: "chained (tip_of (co_dag_state co)) new (tip_of (co_dag_state co'))" and s: "ob_sent (co_commit_observer co') = ob_sent (co_commit_observer co) @ new"
    using a by (simp_all add: advances_def)
  show ?thesis using advances_refines[OF a assms(1)] s chained_indices[OF c] by (auto simp: tip_of_def)
qed

theorem core_refines_ledger_witness:
  "\<exists>co'. core_run solo_env solo_events solo_core = Some (co', Inr ()) \<and> ledger_step\<^sup>*\<^sup>* (ledger_of solo_core) (ledger_of co') \<and>
     lg_rounds (ledger_of co') = [0, 4] \<and> map csd_leader (lg_sent (ledger_of co')) = [BlockRef 1 0 1]"
proof -
  obtain co' where r: "core_run solo_env solo_events solo_core = Some (co', Inr ())" "map csd_leader (ob_sent (co_commit_observer co')) = [BlockRef 1 0 1]"
    "sg_new_rounds (co_signals co') = [0, 4]" using solo_run by (elim exE conjE)
  have l: "ledger_step\<^sup>*\<^sup>* (ledger_of solo_core) (ledger_of co')" using core_refines_ledger[OF solo_core_ok r(1)] by (rule conjunct1)
  have "lg_rounds (ledger_of co') = [0, 4]" "map csd_leader (lg_sent (ledger_of co')) = [BlockRef 1 0 1]" using r(2,3) by (simp_all add: ledger_of_def)
  then show ?thesis using r(1) l by (intro exI[of _ co']) simp
qed

text \<open>
  C23. The calls of the core fail only when a channel has lost its receiver: a run that returns either succeeds or stops with
  \<^verbatim>\<open>Shutdown\<close>, and the latter only when the finalizer or every subscriber of the block broadcast is gone.
\<close>

theorem core_fails_only_on_shutdown:
  assumes "core_run env evs co = Some (co', res)"
  shows "res = Inr () \<or> res = Inl Shutdown \<and> (\<not> ob_open (co_commit_observer co) \<or> \<not> sg_block_receivers (co_signals co))"
  using core_run_advances[OF assms] by (cases res) auto

theorem core_fails_only_on_shutdown_witness:
  "\<exists>co' res. core_run solo_env solo_events solo_core = Some (co', res) \<and> ob_open (co_commit_observer solo_core) \<and>
     sg_block_receivers (co_signals solo_core) \<and> res = Inr ()"
proof -
  obtain co' res where r: "core_run solo_env solo_events solo_core = Some (co', res)" using solo_run by blast
  have o: "ob_open (co_commit_observer solo_core)" "sg_block_receivers (co_signals solo_core)" by (simp_all add: solo_core_def core_signals_new_def Let_def)
  show ?thesis using core_fails_only_on_shutdown[OF r] o r by blast
qed

text \<open>
  C11. Certified commits are committed as they were certified: when the commits given to \<^verbatim>\<open>try_commit\<close> have the indices
  after the last commit and the call succeeds, they are all committed, first and in order, and each sub-dag has the reference (index
  and digest) of its certified commit.
\<close>

theorem certified_commits_sequenced:
  assumes "map (tcm_index \<circ> cc_commit) ccs = [ds_last_commit_index (co_dag_state co) + 1..<ds_last_commit_index (co_dag_state co) + 1 + length ccs]"
    and "core_try_commit env now ccs co = Some (co', Inr sds)"
  shows "length ccs \<le> length sds \<and> map csd_commit_ref (take (length ccs) sds) = map (tcm_reference \<circ> cc_commit) ccs"
proof -
  let ?i = "ds_last_commit_index (co_dag_state co)"
  from assms(2) obtain co1 m where l: "commit_loop env now ccs [] co = Some (co1, Inr sds)"
    and f: "foldM check_certified sds (certified_commits_map ccs) = Some m"
    by (auto simp: core_try_commit_def elim!: bind_SomeE split: sum.splits)
  have len: "length ccs \<le> length sds" using commit_loop_consumes[OF l] by simp
  have "chained (tip_of (co_dag_state co)) sds (tip_of (co_dag_state co1))" using commit_loop_advances[OF l] by (auto simp: advances_def)
  from chained_indices[OF this] have ix: "map (cr_index \<circ> csd_commit_ref) sds = [?i + 1..<?i + 1 + length sds]" by (simp add: tip_of_def)
  have "csd_commit_ref (sds ! k) = tcm_reference (cc_commit (ccs ! k))" if k: "k < length ccs" for k
  proof (rule check_certified_all[OF f])
    show "distinct (map (cr_index \<circ> csd_commit_ref) sds)" unfolding ix by simp
    show "sds ! k \<in> set sds" using k len by simp
    have "cr_index (csd_commit_ref (sds ! k)) = ?i + 1 + k" using arg_cong[OF ix, of "\<lambda>xs. xs ! k"] k len by (simp del: upt_Suc)
    moreover have "tcm_index (cc_commit (ccs ! k)) = ?i + 1 + k" using arg_cong[OF assms(1), of "\<lambda>xs. xs ! k"] k by (simp del: upt_Suc)
    moreover have "distinct (map (tcm_index \<circ> cc_commit) ccs)" unfolding assms(1) by simp
    ultimately show "fmlookup (certified_commits_map ccs) (cr_index (csd_commit_ref (sds ! k))) = Some (tcm_reference (cc_commit (ccs ! k)))"
      using certified_map_lookup[of ccs "ccs ! k"] k by simp
  qed
  then show ?thesis using len by (auto intro!: nth_equalityI)
qed

theorem certified_commits_sequenced_witness:
  "\<exists>co' sds. core_try_commit solo_env 0 [solo_certified] solo_core = Some (co', Inr sds) \<and>
     map csd_commit_ref (take 1 sds) = [tcm_reference (cc_commit solo_certified)]"
proof -
  have "map_option (\<lambda>(co, res). isl res) (core_try_commit solo_env 0 [solo_certified] solo_core) = Some False" by code_simp
  then obtain co' res where "core_try_commit solo_env 0 [solo_certified] solo_core = Some (co', res)" "\<not> isl res" by auto
  then obtain sds where r: "core_try_commit solo_env 0 [solo_certified] solo_core = Some (co', Inr sds)" by (cases res) auto
  have i: "ds_last_commit_index (co_dag_state solo_core) = 0" "tcm_index (cc_commit solo_certified) = 1" by code_simp+
  then have "map (tcm_index \<circ> cc_commit) [solo_certified] =
    [ds_last_commit_index (co_dag_state solo_core) + 1..<ds_last_commit_index (co_dag_state solo_core) + 1 + length [solo_certified]]" by simp
  from certified_commits_sequenced[OF this r] show ?thesis using r by auto
qed

end
