(* ===== verification/Core_Sharing.thy ===== *)
theory Core_Sharing
  imports Core_Ledger
begin

text \<open>
  The representation of the core's shared objects. In the source the leader schedule, the committer and the context are behind shared pointers; in
  the model the core, its committers and its proposer each hold a copy. The lemmas show that the copies are equal from the start of a
  validator (\<open>new_validator_wf\<close>) through every run of calls (\<open>core_run_wf\<close>), so that reading any of them reads the shared object.
\<close>

definition core_wf :: "core \<Rightarrow> bool" where
  "core_wf co \<longleftrightarrow> uc_context (co_committer co) = co_context co \<and>
     (\<forall>bc\<in>set (uc_committers (co_committer co)). bc_leader_schedule bc = co_leader_schedule co \<and> bc_context bc = co_context co) \<and>
     lsch_context (co_leader_schedule co) = co_context co \<and> ob_context (co_commit_observer co) = co_context co \<and>
     sg_context (co_signals co) = co_context co \<and>
     (case co_proposer co of
        None \<Rightarrow> True
      | Some vp \<Rightarrow> vp_context vp = co_context co \<and>
          (case vp_leader_waiter vp of
             WaiterV2 uc \<Rightarrow> uc = co_committer co \<and> co_leader_schedule_v3 co = None
           | WaiterV3 _ \<Rightarrow> co_leader_schedule_v3 co \<noteq> None))"

text \<open>What the invariant reads.\<close>

definition shared_view :: "core \<Rightarrow> consensus_context \<times> universal_committer \<times> leader_schedule \<times> bool \<times> consensus_context \<times> consensus_context \<times>
    (consensus_context \<times> proposal_leader_waiter) option" where
  "shared_view co = (co_context co, co_committer co, co_leader_schedule co, co_leader_schedule_v3 co = None, ob_context (co_commit_observer co),
     sg_context (co_signals co), map_option (\<lambda>vp. (vp_context vp, vp_leader_waiter vp)) (co_proposer co))"

lemma core_wf_shared: "shared_view co' = shared_view co \<Longrightarrow> core_wf co \<Longrightarrow> core_wf co'"
  by (auto simp: shared_view_def core_wf_def split: option.splits proposal_leader_waiter.splits)

subsection \<open>Parts of operations\<close>

lemma accepted_context [simp]: "sg_context (fold signal_accepted_block bs sg) = sg_context sg"
  by (induction bs arbitrary: sg) (simp_all add: signal_accepted_block_def)

lemma accept_blocks_shared: "core_accept_blocks now bs co = Some (co', res) \<Longrightarrow> shared_view co' = shared_view co"
  by (auto simp: core_accept_blocks_def shared_view_def elim!: bind_SomeE)

lemma accept_committed_shared: "core_accept_committed_blocks now bs co = Some (co', res) \<Longrightarrow> shared_view co' = shared_view co"
  by (auto simp: core_accept_committed_blocks_def shared_view_def elim!: bind_SomeE)

lemma signal_round_shared: "shared_view (try_signal_new_round co) = shared_view co"
  by (simp add: try_signal_new_round_def shared_view_def Let_def signal_new_round_def)

lemma notify_shared: "shared_view (notify_own_committed sds co) = shared_view co"
  by (simp add: notify_own_committed_def shared_view_def Let_def notify_own_blocks_committed_def split: option.splits prod.splits)

lemma smart_ancestors_keeps:
  assumes "smart_ancestors_to_propose r b sh vp = Some (vp', bs, ex)"
  shows "vp_context vp' = vp_context vp \<and> vp_leader_waiter vp' = vp_leader_waiter vp"
  using assms by (auto simp: smart_ancestors_to_propose_def Let_def elim!: bind_SomeE split: if_splits)

lemma propose_block_keeps:
  assumes "propose_block cy sign clk r slots bs ex (sh, vp) = Some ((sh', vp'), eb, acks)"
  shows "vp_context vp' = vp_context vp \<and> vp_leader_waiter vp' = vp_leader_waiter vp"
  using assms by (auto elim!: bind_SomeE simp: propose_block_def Let_def split_beta)

lemma try_new_block_keeps:
  assumes "try_new_block cy sign rg clk force (sh, vp) = Some ((sh', vp'), res)"
  shows "vp_context vp' = vp_context vp \<and> vp_leader_waiter vp' = vp_leader_waiter vp"
  using assms
  by (auto simp: try_new_block_def Let_def elim!: bind_SomeE split: option.splits if_splits dest!: smart_ancestors_keeps propose_block_keeps)

lemma commit_leaders_shared: "commit_leaders env now ls local co = Some (co', res) \<Longrightarrow> shared_view co' = shared_view co"
  by (auto simp: commit_leaders_def observer_handle_commit_def finalizer_send_all_eq shared_view_def Let_def elim!: bind_SomeE
      split: sum.splits if_splits)

lemma update_schedule_context: "update_leader_schedule_v2 rg ls ds = Some (ls', ds') \<Longrightarrow> lsch_context ls' = lsch_context ls"
  by (auto simp: update_leader_schedule_v2_def update_leader_swap_table_def Let_def elim!: bind_SomeE)

text \<open>A new swap table reaches every holder of the schedule.\<close>

lemma install_schedule_wf:
  assumes "core_wf co" and "lsch_context ls = lsch_context (co_leader_schedule co)"
  shows "core_wf (install_schedule ls co)"
  using assms
  by (auto simp: core_wf_def install_schedule_def committer_with_schedule_def split: option.splits proposal_leader_waiter.splits)

lemma schedule_change_wf:
  assumes "commits_before_schedule_change env co = Some (co', n)" and "core_wf co"
  shows "core_wf co'"
proof -
  have scores: "core_wf (c\<lparr>co_proposer := map_option (vp_set_propagation_scores s) (co_proposer c)\<rparr>)" if "core_wf c" for c s
    by (rule core_wf_shared[OF _ that]) (simp add: shared_view_def vp_set_propagation_scores_def option.map_comp comp_def)
  have inst: "core_wf (install_schedule ls (with_dag_state ds co))" if "lsch_context ls = lsch_context (co_leader_schedule co)" for ls ds
  proof (rule install_schedule_wf)
    show "core_wf (with_dag_state ds co)" by (rule core_wf_shared[OF _ assms(2)]) (simp add: shared_view_def)
  qed (use that in simp)
  from assms show ?thesis
    by (auto simp: commits_before_schedule_change_def Let_def elim!: bind_SomeE split: if_splits intro!: scores inst
        dest!: update_schedule_context)
qed

lemma choose_leaders_wf:
  assumes "choose_leaders env now cs co = Some (co', rest, decided, local)" and "core_wf co"
  shows "core_wf co'"
proof -
  from assms(1) obtain co1 n bs x where "commits_before_schedule_change env co = Some (co1, n)" "core_accept_committed_blocks now bs co1 = Some (co', x)"
    by (auto simp: choose_leaders_def elim!: bind_SomeE)
  then show ?thesis using schedule_change_wf[OF _ assms(2)] core_wf_shared[OF accept_committed_shared] by blast
qed

lemma note_decided_wf: "core_wf co \<Longrightarrow> core_wf (note_decided decided co)"
  by (rule core_wf_shared) (simp_all add: shared_view_def note_decided_def)

lemma commit_loop_wf:
  assumes "commit_loop env now cs acc co = Some r" and "core_wf co"
  shows "core_wf (fst r)"
  using assms
proof (induction rule: commit_loop_induct)
  case (stop cs acc co co1 rest decided local)
  then show ?case using choose_leaders_wf note_decided_wf by simp
next
  case (fail cs acc co co1 rest decided local co3 e)
  then show ?case using core_wf_shared[OF commit_leaders_shared[OF fail(3)]] choose_leaders_wf note_decided_wf by simp
next
  case (again cs acc co co1 rest decided local co3 sds r)
  then show ?case using core_wf_shared[OF commit_leaders_shared[OF again(3)]] choose_leaders_wf note_decided_wf by blast
qed

subsection \<open>Operations\<close>

lemma try_commit_wf:
  assumes "core_try_commit env now cs co = Some (co', res)" and "core_wf co"
  shows "core_wf co'"
proof -
  from assms(1) obtain co1 r where l: "commit_loop env now cs [] co = Some (co1, r)" by (auto simp: core_try_commit_def elim!: bind_SomeE)
  have c: "co' = co1 \<or> (\<exists>sds. co' = notify_own_committed sds co1)"
    using assms(1) l by (auto simp: core_try_commit_def elim!: bind_SomeE split: sum.splits)
  have "core_wf co1" using commit_loop_wf[OF l assms(2)] by simp
  then show ?thesis using c core_wf_shared[OF notify_shared] by blast
qed

lemma try_propose_wf:
  assumes "core_try_propose env clk force co = Some (co', res)" and "core_wf co"
  shows "core_wf co'"
proof (cases "co_proposer co")
  case None
  then show ?thesis using assms by (simp add: core_try_propose_def)
next
  case (Some vp)
  with assms(1) obtain sh vp' p where n: "try_new_block (ce_crypto env) (ce_sign env) (ce_rng env) clk force (co_shared co, vp) = Some ((sh, vp'), p)"
    by (auto simp: core_try_propose_def elim!: bind_SomeE)
  have keep: "core_wf c" if "shared_view c = shared_view (co\<lparr>co_shared := sh, co_proposer := Some vp'\<rparr>)" for c
    by (rule core_wf_shared[OF _ assms(2)]) (use that Some try_new_block_keeps[OF n] in \<open>simp add: shared_view_def\<close>)
  have sg: "sg_context sg = sg_context (co_signals co)" if "signal_new_block eb (co_signals co) = (sg, r)" for eb sg r
    using that by (auto simp: signal_new_block_def split: if_splits)
  have acc: "sg_context (signal_accepted_block b sg) = sg_context sg" for b sg by (simp add: signal_accepted_block_def)
  show ?thesis
  proof (cases p)
    case None
    then show ?thesis using assms(1) n Some by (auto simp: core_try_propose_def intro!: keep)
  next
    case p: (Some q)
    obtain eb acks where q: "q = (eb, acks)" by (cases q)
    obtain sg r where s: "signal_new_block eb (co_signals co) = (sg, r)" by (cases "signal_new_block eb (co_signals co)")
    let ?co = "co\<lparr>co_shared := sh, co_proposer := Some vp', co_inclusion_acks := co_inclusion_acks co @ acks\<rparr>"
    show ?thesis
    proof (cases r)
      case (Inl e)
      then have "co' = ?co\<lparr>co_signals := sg\<rparr>" using assms(1) n Some p q s by (simp add: core_try_propose_def)
      then show ?thesis using sg[OF s] by (auto simp: shared_view_def intro!: keep)
    next
      case (Inr u)
      with assms(1) n Some p q s obtain r2 where c: "core_try_commit env (pk_instant clk) [] (?co\<lparr>co_signals := signal_accepted_block (eb_block eb) sg\<rparr>) = Some (co', r2)"
        by (auto simp: core_try_propose_def elim!: bind_SomeE)
      show ?thesis by (rule try_commit_wf[OF c keep]) (simp add: shared_view_def acc sg[OF s])
    qed
  qed
qed

lemma commit_and_propose_wf:
  assumes "commit_and_propose env clk cs co = Some (co', res)" and "core_wf co"
  shows "core_wf co'"
proof -
  from assms(1) obtain co1 r where c: "core_try_commit env (pk_instant clk) cs co = Some (co1, r)"
    by (auto simp: commit_and_propose_def elim!: bind_SomeE)
  note w = try_commit_wf[OF c assms(2)]
  show ?thesis
  proof (cases r)
    case (Inl e)
    then show ?thesis using assms(1) c w by (auto simp: commit_and_propose_def)
  next
    case (Inr sds)
    with assms(1) c obtain co2 r2 where p: "core_try_propose env clk False co1 = Some (co2, r2)" and "co' = co2 \<or> co' = try_signal_new_round co2"
      by (auto simp: commit_and_propose_def elim!: bind_SomeE split: sum.splits)
    then show ?thesis using try_propose_wf[OF p w] core_wf_shared[OF signal_round_shared] by blast
  qed
qed

lemma new_block_wf:
  assumes "core_new_block env clk r force co = Some (co', res)" and "core_wf co"
  shows "core_wf co'"
proof -
  from assms(1) have "co' = co \<or> (\<exists>co1 x. core_try_propose env clk force co = Some (co1, x) \<and> co' = try_signal_new_round co1)"
    by (auto simp: core_new_block_def elim!: bind_SomeE split: if_splits)
  then show ?thesis using try_propose_wf[OF _ assms(2)] core_wf_shared[OF signal_round_shared] assms(2) by blast
qed

lemma core_step_wf:
  assumes "core_step env clk ev co = Some (co', res)" and "core_wf co"
  shows "core_wf co'"
proof (cases ev)
  case (AddBlocks bs)
  with assms(1) obtain co1 x where a: "core_accept_blocks (pk_instant clk) bs co = Some (co1, x)"
    and "co' = co1 \<or> (\<exists>r. commit_and_propose env clk [] co1 = Some (co', r))"
    by (auto simp: core_step_def drop_result_Some core_add_blocks_def elim!: bind_SomeE split: if_splits)
  then show ?thesis using core_wf_shared[OF accept_blocks_shared[OF a] assms(2)] commit_and_propose_wf by blast
next
  case (AddCertifiedCommits ccs)
  with assms(1) obtain cs co1 x r where a: "core_accept_blocks (pk_instant clk) (ccs_votes ccs) co = Some (co1, x)"
    and "commit_and_propose env clk cs co1 = Some (co', r)"
    by (auto simp: core_step_def drop_result_Some core_add_certified_commits_def elim!: bind_SomeE split: sum.splits)
  then show ?thesis using core_wf_shared[OF accept_blocks_shared[OF a] assms(2)] commit_and_propose_wf by blast
next
  case (CheckBlockRefs rs)
  with assms(1) obtain bm where "co' = co\<lparr>co_block_manager := bm\<rparr>"
    by (auto simp: core_step_def drop_result_Some core_check_block_refs_def elim!: bind_SomeE)
  then show ?thesis using core_wf_shared[of co' co] assms(2) by (simp add: shared_view_def)
next
  case (NewBlock r force)
  then show ?thesis using assms new_block_wf by (auto simp: core_step_def drop_result_Some)
next
  case GetMissing
  then show ?thesis using assms by (simp add: core_step_def)
next
  case (SetPropagationDelay d)
  have "shared_view (core_set_propagation_delay d co) = shared_view co"
    by (simp add: core_set_propagation_delay_def shared_view_def set_propagation_delay_def option.map_comp comp_def)
  from core_wf_shared[OF this assms(2)] show ?thesis
    using SetPropagationDelay assms(1) new_block_wf by (auto simp: core_step_def drop_result_Some Let_def split: if_splits)
next
  case (SetLastKnownProposedRound r)
  with assms(1) obtain co1 x where c: "core_set_last_known_proposed_round r co = Some co1" "core_new_block env clk u32_max True co1 = Some (co', x)"
    by (auto simp: core_step_def drop_result_Some elim!: bind_SomeE)
  have "shared_view co1 = shared_view co" using c(1)
    by (auto simp: core_set_last_known_proposed_round_def shared_view_def set_last_known_proposed_round_def elim!: bind_SomeE split: option.splits)
  then show ?thesis using new_block_wf[OF c(2)] core_wf_shared assms(2) by blast
qed

lemma core_run_wf:
  assumes "core_run env evs co = Some (co', res)" and "core_wf co"
  shows "core_wf co'"
  using assms
proof (induction evs arbitrary: co)
  case (Cons e evs)
  obtain clk ev where e: "e = (clk, ev)" by (cases e)
  from Cons.prems(1) e obtain co1 r where s: "core_step env clk ev co = Some (co1, r)" and c: "co' = co1 \<or> core_run env evs co1 = Some (co', res)"
    by (auto elim!: bind_SomeE split: sum.splits)
  then show ?case using Cons.IH core_step_wf[OF s Cons.prems(2)] by blast
qed simp

subsection \<open>Starting\<close>

lemma core_committer_shares:
  "uc_context (core_committer ctx ls) = ctx" "bc \<in> set (uc_committers (core_committer ctx ls)) \<Longrightarrow> bc_leader_schedule bc = ls \<and> bc_context bc = ctx"
  by (auto simp: core_committer_def uc_build_def base_committer_new_def Let_def)

lemma recover_validator_wf:
  assumes "recover_validator env clk co = Some co'" and "core_wf co"
  shows "core_wf co'"
proof -
  from assms(1) obtain co1 r1 co2 r2 co3 where c: "core_try_commit env (pk_instant clk) [] co = Some (co1, r1)" "core_try_propose env clk True co1 = Some (co2, r2)"
    "(case r2 of Inl e \<Rightarrow> None | Inr (Some _) \<Rightarrow> Some co2 | Inr None \<Rightarrow> rebroadcast_last_block co2) = Some co3" "co' = try_signal_new_round co3"
    by (auto simp: recover_validator_def elim!: bind_SomeE)
  have "shared_view co3 = shared_view co2" using c(3)
    by (auto simp: rebroadcast_last_block_def shared_view_def signal_new_block_def elim!: bind_SomeE split: if_splits sum.splits option.splits)
  then show ?thesis using c core_wf_shared signal_round_shared try_propose_wf[OF c(2) try_commit_wf[OF c(1) assms(2)]] by metis
qed

lemma new_validator_wf:
  assumes "new_validator env clk ctx ls consumer bm ob sg sync sh = Some co" and "lsch_context ls = ctx" "ob_context ob = ctx" "sg_context sg = ctx"
  shows "core_wf co"
  using assms(1) unfolding new_validator_def Let_def
  by (elim bind_SomeE, elim recover_validator_wf)
    (use assms(2-4) core_committer_shares[where ctx = ctx and ls = ls] in \<open>auto simp: core_wf_def validator_proposer_new_def vp_set_propagation_scores_def split: option.splits\<close>)

end
