(* ===== verification/Commit_Finalizer.thy ===== *)
theory Commit_Finalizer
  imports Transaction_Vote_Tracker
begin

text \<open>
  The commit finalizer (\<^verbatim>\<open>consensus/core/src/commit_finalizer.rs\<close>): it buffers committed sub-dags until every transaction
  in them is finalized or rejected and outputs them in commit order. The DAG state and the vote tracker it holds
  handles to are the arguments \<open>ds\<close> and \<open>vt\<close>. The tasks that check chunks of blocks in parallel only read
  shared state, so they are one map over the blocks; their cancellation at shutdown, the metrics and the channels
  are not modelled: a step returns the commits it sends.
\<close>

subsection \<open>Data\<close>

definition INDIRECT_REJECT_DEPTH :: round where
  "INDIRECT_REJECT_DEPTH = 3"

record commit_state =
  cs_commit :: committed_sub_dag
  cs_pending_blocks :: "(block_ref, nat) fmap"
  cs_pending_transactions :: "(block_ref, transaction_index fset) fmap"
  cs_rejected_transactions :: "(block_ref, transaction_index fset) fmap"

record block_state =
  bs_block :: verified_block
  bs_children :: "block_ref fset"
  bs_reject_votes :: "(block_ref, transaction_index fset) fmap"
  bs_origin_descendants :: "block_ref list"
  bs_commit_index :: commit_index

record commit_finalizer =
  cf_context :: consensus_context
  cf_last_processed_commit :: "commit_index option"
  cf_pending_commits :: "commit_state list"
  cf_blocks :: "(block_ref, block_state) fmap"

abbreviation cf_committee :: "commit_finalizer \<Rightarrow> committee" where
  "cf_committee cf \<equiv> cx_committee (cf_context cf)"

abbreviation cs_leader_round :: "commit_state \<Rightarrow> round" where
  "cs_leader_round cs \<equiv> br_round (csd_leader (cs_commit cs))"

abbreviation cs_index :: "commit_state \<Rightarrow> commit_index" where
  "cs_index cs \<equiv> cr_index (csd_commit_ref (cs_commit cs))"

definition commit_finalizer_new :: "consensus_context \<Rightarrow> commit_finalizer" where
  "commit_finalizer_new ctx = \<lparr>cf_context = ctx, cf_last_processed_commit = None, cf_pending_commits = [], cf_blocks = fmempty\<rparr>"

text \<open>Collecting into a map keeps the last of two pairs with the same key.\<close>

definition commit_state_new :: "committed_sub_dag \<Rightarrow> commit_state option" where
  "commit_state_new commit = do {
     let pending_blocks = fmap_of_list (rev (map (\<lambda>b. (reference b, length (block_transactions (sb_inner (vb_block b))))) (csd_blocks commit)));
     assert_that (pending_blocks \<noteq> fmempty);
     Some \<lparr>cs_commit = commit, cs_pending_blocks = pending_blocks, cs_pending_transactions = fmempty,
           cs_rejected_transactions = fmempty\<rparr>
   }"

definition block_state_new :: "verified_block \<Rightarrow> commit_index \<Rightarrow> block_state" where
  "block_state_new b i = \<lparr>bs_block = b, bs_children = {||},
     bs_reject_votes = fmap_of_list (rev (map (\<lambda>v. (btv_block_ref v, fset_of_list (btv_rejects v))) (vb_transaction_votes b))),
     bs_origin_descendants = [], bs_commit_index = i\<rparr>"

text \<open>\<^verbatim>\<open>entry(r).or_default().extend(ts)\<close>.\<close>

definition extend_entry :: "block_ref \<Rightarrow> transaction_index list \<Rightarrow> (block_ref, transaction_index fset) fmap \<Rightarrow> (block_ref, transaction_index fset) fmap" where
  "extend_entry r ts m = fmupd r ((case fmlookup m r of Some s \<Rightarrow> s | None \<Rightarrow> {||}) |\<union>| fset_of_list ts) m"

definition add_pending :: "block_ref \<Rightarrow> transaction_index list \<Rightarrow> commit_state \<Rightarrow> commit_state" where
  "add_pending r ts cs = cs\<lparr>cs_pending_transactions := extend_entry r ts (cs_pending_transactions cs)\<rparr>"

definition add_rejected :: "block_ref \<Rightarrow> transaction_index list \<Rightarrow> commit_state \<Rightarrow> commit_state" where
  "add_rejected r ts cs = cs\<lparr>cs_rejected_transactions := extend_entry r ts (cs_rejected_transactions cs)\<rparr>"

definition remove_pending_transactions :: "block_ref \<Rightarrow> transaction_index list \<Rightarrow> commit_state \<Rightarrow> commit_state" where
  "remove_pending_transactions r ts cs =
     (case fmlookup (cs_pending_transactions cs) r of
        None \<Rightarrow> cs
      | Some txns \<Rightarrow>
          let txns = txns |-| fset_of_list ts
          in cs\<lparr>cs_pending_transactions :=
               (if txns = {||} then fmdrop r (cs_pending_transactions cs) else fmupd r txns (cs_pending_transactions cs))\<rparr>)"

subsection \<open>Direct finalization\<close>

text \<open>The body of the loop over the pending blocks of a commit; transaction indices are \<^verbatim>\<open>u16\<close>.\<close>

definition direct_finalize_block ::
  "committee \<Rightarrow> vote_tracker_state \<Rightarrow> round \<Rightarrow> block_ref \<times> nat \<Rightarrow> commit_state \<Rightarrow> commit_state option" where
  "direct_finalize_block c vt vote_gc_round = (\<lambda>(r, num_transactions) cs.
     if br_round r \<le> vote_gc_round \<and> num_transactions > 0
     then do {
       _ \<leftarrow> committee_authority c (br_author r);
       Some (add_pending r [0..<num_transactions mod 2 ^ 16] cs)
     }
     else do {
       reject_votes \<leftarrow> get_reject_votes r vt;
       _ \<leftarrow> committee_authority c (br_author r);
       Some (fold (\<lambda>(i, stake) cs. if stake < c_quorum_threshold c then add_pending r [i] cs else add_rejected r [i] cs) reject_votes cs)
     })"

definition try_direct_finalize_commit :: "dag_state \<Rightarrow> vote_tracker_state \<Rightarrow> nat \<Rightarrow> commit_finalizer \<Rightarrow> commit_finalizer option" where
  "try_direct_finalize_commit ds vt index cf = do {
     cs \<leftarrow> vec_get (cf_pending_commits cf) index;
     let vote_gc_round = ds_calculate_gc_round ds (cs_leader_round cs + INDIRECT_REJECT_DEPTH);
     assert_that (cs_pending_blocks cs \<noteq> fmempty);
     cs' \<leftarrow> foldM (direct_finalize_block (cf_committee cf) vt vote_gc_round) (sorted_list_of_fmap (cs_pending_blocks cs))
       (cs\<lparr>cs_pending_blocks := fmempty\<rparr>);
     Some (cf\<lparr>cf_pending_commits := (cf_pending_commits cf)[index := cs']\<rparr>)
   }"

text \<open>The loop over the indices of the pending commits, with its \<^verbatim>\<open>continue\<close> and \<^verbatim>\<open>break\<close>.\<close>

fun direct_loop :: "dag_state \<Rightarrow> vote_tracker_state \<Rightarrow> nat list \<Rightarrow> commit_finalizer \<Rightarrow> commit_finalizer option" where
  "direct_loop ds vt [] cf = Some cf"
| "direct_loop ds vt (i # is) cf = do {
     cs \<leftarrow> vec_get (cf_pending_commits cf) i;
     if cs_pending_blocks cs = fmempty then direct_loop ds vt is cf
     else do {
       lst \<leftarrow> last_opt (cf_pending_commits cf);
       if \<not> csd_decided_with_local_blocks (cs_commit cs) \<and> cs_leader_round cs + DEFAULT_WAVE_LENGTH > cs_leader_round lst
       then Some cf
       else do {
         cf \<leftarrow> try_direct_finalize_commit ds vt i cf;
         direct_loop ds vt is cf
       }
     }
   }"

subsection \<open>Linking the blocks of the last commit\<close>

definition link_ancestor :: "block_ref \<Rightarrow> block_ref \<Rightarrow> (block_ref, block_state) fmap \<Rightarrow> (block_ref, block_state) fmap" where
  "link_ancestor r ancestor m = (case fmlookup m ancestor of
      Some bs \<Rightarrow> fmupd ancestor (bs\<lparr>bs_children := finsert r (bs_children bs)\<rparr>) m
    | None \<Rightarrow> m)"

definition link_block :: "commit_index \<Rightarrow> verified_block \<Rightarrow> (block_ref, block_state) fmap \<Rightarrow> (block_ref, block_state) fmap" where
  "link_block i b m =
     (let m = fold (link_ancestor (reference b)) (vb_ancestors b) m
      in case fmlookup m (reference b) of Some _ \<Rightarrow> m | None \<Rightarrow> fmupd (reference b) (block_state_new b i) m)"

definition link_blocks_in_last_commit :: "commit_finalizer \<Rightarrow> commit_finalizer option" where
  "link_blocks_in_last_commit cf = do {
     cs \<leftarrow> last_opt (cf_pending_commits cf);
     Some (cf\<lparr>cf_blocks := fold (link_block (cs_index cs)) (sort_key vb_round (csd_blocks (cs_commit cs))) (cf_blocks cf)\<rparr>)
   }"

text \<open>Following the chain of own ancestors; not returning is \<open>None\<close>, as a panic.\<close>

partial_function (option) append_origin ::
  "block_ref \<Rightarrow> block_ref \<Rightarrow> (block_ref, block_state) fmap \<Rightarrow> (block_ref, block_state) fmap option" where
  "append_origin committed origin_ancestor m =
     (if br_author origin_ancestor \<noteq> br_author committed then Some m
      else case fmlookup m origin_ancestor of
        None \<Rightarrow> Some m
      | Some bs \<Rightarrow>
          (case vb_ancestors (bs_block bs) of
             [] \<Rightarrow> None
           | a # _ \<Rightarrow> append_origin committed a
               (fmupd origin_ancestor (bs\<lparr>bs_origin_descendants := bs_origin_descendants bs @ [committed]\<rparr>) m)))"

declare append_origin.simps [code]

definition append_origin_descendants_from_last_commit :: "commit_finalizer \<Rightarrow> commit_finalizer option" where
  "append_origin_descendants_from_last_commit cf = do {
     cs \<leftarrow> last_opt (cf_pending_commits cf);
     m \<leftarrow> foldM (\<lambda>b m. do {
         bs \<leftarrow> fmlookup m (reference b);
         first \<leftarrow> vec_get (vb_ancestors (bs_block bs)) 0;
         append_origin (reference b) first m
       }) (sort_key vb_round (csd_blocks (cs_commit cs))) (cf_blocks cf);
     Some (cf\<lparr>cf_blocks := m\<rparr>)
   }"

subsection \<open>Indirect finalization of one block\<close>

definition gced_transaction_votes_for_pending_block ::
  "(commit_index \<times> round) list \<Rightarrow> round \<Rightarrow> commit_index \<Rightarrow> commit_index \<Rightarrow> bool option" where
  "gced_transaction_votes_for_pending_block gc_rounds pending_block_round pending_commit_index current_commit_index = do {
     assert_that (pending_commit_index \<le> current_commit_index);
     if pending_commit_index = current_commit_index then Some False
     else do {
       (i, gc_round) \<leftarrow> vec_get gc_rounds (current_commit_index - 1 - pending_commit_index);
       assert_that (i = current_commit_index - 1);
       Some (pending_block_round \<le> gc_round)
     }
   }"

record indirect_state =
  id_accept_votes :: "(transaction_index, stake_aggregator) fmap"
  id_finalized :: "transaction_index list"
  id_to_visit :: "block_ref fset"
  id_visited :: "block_ref fset"
  id_ignored :: "block_ref fset"

text \<open>The loop over the transactions without quorum yet, with the author of the current block.\<close>

definition count_accept_votes ::
  "committee \<Rightarrow> authority_index \<Rightarrow> transaction_index fset \<Rightarrow> (transaction_index, stake_aggregator) fmap \<Rightarrow>
   ((transaction_index, stake_aggregator) fmap \<times> transaction_index list) option" where
  "count_accept_votes c author rejects accept_votes =
     foldM (\<lambda>(i, sa) (m, newly).
         if i |\<in>| rejects then Some (m, newly)
         else do {
           (sa, reached) \<leftarrow> sa_add QuorumThreshold author c sa;
           Some (fmupd i sa m, if reached then newly @ [i] else newly)
         }) (sorted_list_of_fmap accept_votes) (accept_votes, [])"

datatype visit_outcome = Continue indirect_state | Break indirect_state

definition visit_children :: "block_state \<Rightarrow> indirect_state \<Rightarrow> indirect_state" where
  "visit_children bs st = st\<lparr>id_to_visit := id_to_visit st |\<union>| ffilter (\<lambda>r. r |\<notin>| id_visited st) (bs_children bs)\<rparr>"

definition visit_block ::
  "committee \<Rightarrow> (commit_index \<times> round) list \<Rightarrow> block_ref \<Rightarrow> commit_index \<Rightarrow> block_ref \<Rightarrow> block_state \<Rightarrow> indirect_state \<Rightarrow> visit_outcome option" where
  "visit_block c gc_rounds pending_block_ref pending_commit_index current bs st = do {
     votes_gced \<leftarrow> gced_transaction_votes_for_pending_block gc_rounds (br_round pending_block_ref) pending_commit_index (bs_commit_index bs);
     if current |\<notin>| id_ignored st
     then do {
       let st = st\<lparr>id_ignored := finsert current (id_ignored st) |\<union>| fset_of_list (bs_origin_descendants bs)\<rparr>;
       if votes_gced
       then do {
         _ \<leftarrow> committee_authority c (br_author pending_block_ref);
         Some (Continue st)
       }
       else do {
         let rejects = (case fmlookup (bs_reject_votes bs) pending_block_ref of Some s \<Rightarrow> s | None \<Rightarrow> {||});
         (accept_votes, newly) \<leftarrow> count_accept_votes c (br_author current) rejects (id_accept_votes st);
         let accept_votes = fold fmdrop newly accept_votes;
         let st = st\<lparr>id_accept_votes := accept_votes, id_finalized := id_finalized st @ newly\<rparr>;
         if accept_votes = fmempty then Some (Break st) else Some (Continue (visit_children bs st))
       }
     }
     else Some (Continue (visit_children bs st))
   }"

lemma visit_block_visited:
  assumes "visit_block c gc_rounds p i current bs st = Some (Continue st')"
  shows "id_visited st' = id_visited st"
proof -
  have "id_visited (visit_children bs x) = id_visited x" for x by (simp add: visit_children_def)
  then show ?thesis using assms
    by (auto simp: visit_block_def Let_def bind_Some_iff split: if_splits)
qed

text \<open>The \<^verbatim>\<open>while let\<close> loop over the blocks to visit, smallest reference first.\<close>

function (sequential) visit_loop ::
  "committee \<Rightarrow> (block_ref, block_state) fmap \<Rightarrow> (commit_index \<times> round) list \<Rightarrow> block_ref \<Rightarrow> commit_index \<Rightarrow> indirect_state \<Rightarrow> transaction_index list option" where
  "visit_loop c m gc_rounds p i st =
     (if id_to_visit st = {||} then Some (id_finalized st)
      else
        let current = fMin (id_to_visit st);
            st = st\<lparr>id_to_visit := id_to_visit st |-| {|current|}\<rparr>
        in if current |\<in>| id_visited st then visit_loop c m gc_rounds p i st
           else (case fmlookup m current of
               None \<Rightarrow> None
             | Some bs \<Rightarrow>
                 (case visit_block c gc_rounds p i current bs (st\<lparr>id_visited := finsert current (id_visited st)\<rparr>) of
                    None \<Rightarrow> None
                  | Some (Break st) \<Rightarrow> Some (id_finalized st)
                  | Some (Continue st) \<Rightarrow> visit_loop c m gc_rounds p i st)))"
  by pat_completeness auto

termination
proof (relation "inv_image (less_than <*lex*> less_than)
    (\<lambda>(c, m, gc_rounds, p, i, st). (fcard (fmdom m |-| id_visited st), fcard (id_to_visit st)))", goal_cases)
  case (2 c m gc_rounds p i st current st')
  then have "fcard (id_to_visit st |-| {|current|}) < fcard (id_to_visit st)"
    by (metis fMin_in fcard_fminus1_less)
  then show ?case using 2 by simp
next
  case (3 c m gc_rounds p i st current st' bs out st'')
  have v: "id_visited st'' = finsert current (id_visited st)" using visit_block_visited 3 by fastforce
  have "current |\<in>| fmdom m |-| id_visited st" using 3 by (auto intro: fmdomI)
  then have "fcard ((fmdom m |-| id_visited st) |-| {|current|}) < fcard (fmdom m |-| id_visited st)" by (rule fcard_fminus1_less)
  moreover have "(fmdom m |-| id_visited st) |-| {|current|} = fmdom m |-| finsert current (id_visited st)" by auto
  ultimately show ?case using v by simp
qed auto

declare visit_loop.simps [simp del]

definition try_indirect_finalize_pending_transactions_in_block ::
  "committee \<Rightarrow> (block_ref, block_state) fmap \<Rightarrow> (commit_index \<times> round) list \<Rightarrow> block_ref \<Rightarrow> transaction_index fset \<Rightarrow> transaction_index list option" where
  "try_indirect_finalize_pending_transactions_in_block c m gc_rounds pending_block_ref pending_transactions =
     (if pending_transactions = {||} then Some []
      else do {
        bs \<leftarrow> fmlookup m pending_block_ref;
        visit_loop c m gc_rounds pending_block_ref (bs_commit_index bs)
          \<lparr>id_accept_votes = fmap_of_list (map (\<lambda>i. (i, sa_new)) (sorted_list_of_fset pending_transactions)),
           id_finalized = [], id_to_visit = bs_children bs, id_visited = {||}, id_ignored = {||}\<rparr>
      })"

subsection \<open>Indirect finalization of the first commit\<close>

definition update_first_commit :: "commit_state \<Rightarrow> commit_finalizer \<Rightarrow> commit_finalizer" where
  "update_first_commit cs cf = cf\<lparr>cf_pending_commits := (cf_pending_commits cf)[0 := cs]\<rparr>"

definition check_pending_transactions_in_first_commit :: "vote_tracker_state \<Rightarrow> commit_finalizer \<Rightarrow> commit_finalizer option" where
  "check_pending_transactions_in_first_commit vt cf = do {
     cs \<leftarrow> vec_get (cf_pending_commits cf) 0;
     all_rejected \<leftarrow> mapM (\<lambda>(r, pending). do {
         votes \<leftarrow> get_reject_votes r vt;
         Some (r, filter (\<lambda>i. \<not> (case map_of votes i of Some s \<Rightarrow> s | None \<Rightarrow> 0) < c_quorum_threshold (cf_committee cf))
                   (sorted_list_of_fset pending))
       }) (sorted_list_of_fmap (cs_pending_transactions cs));
     Some (update_first_commit
       (fold (\<lambda>(r, ts) cs. add_rejected r ts (remove_pending_transactions r ts cs)) (filter (\<lambda>(r, ts). ts \<noteq> []) all_rejected) cs) cf)
   }"

definition try_indirect_finalize_pending_transactions_in_first_commit :: "dag_state \<Rightarrow> commit_finalizer \<Rightarrow> commit_finalizer option" where
  "try_indirect_finalize_pending_transactions_in_first_commit ds cf = do {
     cs \<leftarrow> vec_get (cf_pending_commits cf) 0;
     let gc_rounds = map (\<lambda>cs. (cs_index cs, ds_calculate_gc_round ds (cs_leader_round cs))) (cf_pending_commits cf);
     all_finalized \<leftarrow> mapM (\<lambda>(r, pending). do {
         finalized \<leftarrow> try_indirect_finalize_pending_transactions_in_block (cf_committee cf) (cf_blocks cf) gc_rounds r pending;
         Some (r, finalized)
       }) (sorted_list_of_fmap (cs_pending_transactions cs));
     Some (update_first_commit
       (fold (\<lambda>(r, ts) cs. remove_pending_transactions r ts cs) (filter (\<lambda>(r, ts). ts \<noteq> []) all_finalized) cs) cf)
   }"

definition try_indirect_reject_pending_transactions_in_first_commit :: "commit_finalizer \<Rightarrow> commit_finalizer option" where
  "try_indirect_reject_pending_transactions_in_first_commit cf = do {
     cs \<leftarrow> vec_get (cf_pending_commits cf) 0;
     lst \<leftarrow> last_opt (cf_pending_commits cf);
     if cs_leader_round cs + INDIRECT_REJECT_DEPTH \<le> cs_leader_round lst
     then do {
       assert_that (cs_pending_blocks cs = fmempty);
       Some (update_first_commit
         (fold (\<lambda>(r, pending) cs. add_rejected r (sorted_list_of_fset pending) cs) (sorted_list_of_fmap (cs_pending_transactions cs))
           (cs\<lparr>cs_pending_transactions := fmempty\<rparr>)) cf)
     }
     else Some cf
   }"

definition try_indirect_finalize_first_commit :: "dag_state \<Rightarrow> vote_tracker_state \<Rightarrow> commit_finalizer \<Rightarrow> commit_finalizer option" where
  "try_indirect_finalize_first_commit ds vt cf = do {
     assert_that (cf_pending_commits cf \<noteq> []);
     assert_that (cs_pending_blocks (cf_pending_commits cf ! 0) = fmempty);
     cf \<leftarrow> check_pending_transactions_in_first_commit vt cf;
     cf \<leftarrow> try_indirect_finalize_pending_transactions_in_first_commit ds cf;
     try_indirect_reject_pending_transactions_in_first_commit cf
   }"

subsection \<open>Output\<close>

definition finalized_commit :: "commit_state \<Rightarrow> committed_sub_dag" where
  "finalized_commit cs =
     (let commit = cs_commit cs
      in commit\<lparr>csd_rejected_transactions_by_block :=
           fold (\<lambda>(r, ts) m. fmupd r (sorted_list_of_fset ts) m) (sorted_list_of_fmap (cs_rejected_transactions cs))
             (csd_rejected_transactions_by_block commit)\<rparr>)"

fun pop_loop :: "commit_state list \<Rightarrow> (block_ref, block_state) fmap \<Rightarrow> commit_state list \<times> (block_ref, block_state) fmap \<times> committed_sub_dag list" where
  "pop_loop [] m = ([], m, [])"
| "pop_loop (cs # css) m =
     (if cs_pending_blocks cs \<noteq> fmempty \<or> cs_pending_transactions cs \<noteq> fmempty then (cs # css, m, [])
      else
        let (css', m', out) = pop_loop css (fold (\<lambda>b m. fmdrop (reference b) m) (csd_blocks (cs_commit cs)) m)
        in (css', m', finalized_commit cs # out))"

definition pop_finalized_commits :: "commit_finalizer \<Rightarrow> commit_finalizer \<times> committed_sub_dag list" where
  "pop_finalized_commits cf =
     (let (css, m, out) = pop_loop (cf_pending_commits cf) (cf_blocks cf)
      in (cf\<lparr>cf_pending_commits := css, cf_blocks := m\<rparr>, out))"

lemma pop_loop_length: "pop_loop css m = (css', m', out) \<Longrightarrow> length css = length out + length css'"
  by (induction css arbitrary: m css' m' out) (auto split: if_splits prod.splits)

lemma update_first_length [simp]: "length (cf_pending_commits (update_first_commit cs cf)) = length (cf_pending_commits cf)"
  by (simp add: update_first_commit_def)

lemma try_indirect_length:
  assumes "try_indirect_finalize_first_commit ds vt cf = Some cf'"
  shows "length (cf_pending_commits cf') = length (cf_pending_commits cf)"
  using assms
  by (auto simp: try_indirect_finalize_first_commit_def check_pending_transactions_in_first_commit_def
      try_indirect_finalize_pending_transactions_in_first_commit_def try_indirect_reject_pending_transactions_in_first_commit_def
      Let_def bind_Some_iff split: if_splits)

text \<open>The loop that finalizes a prefix of the buffered commits indirectly.\<close>

function indirect_loop :: "dag_state \<Rightarrow> vote_tracker_state \<Rightarrow> commit_finalizer \<Rightarrow> (commit_finalizer \<times> committed_sub_dag list) option" where
  "indirect_loop ds vt cf =
     (if length (cf_pending_commits cf) \<le> 1 \<or> cs_pending_blocks (cf_pending_commits cf ! 0) \<noteq> fmempty then Some (cf, [])
      else (case try_indirect_finalize_first_commit ds vt cf of
          None \<Rightarrow> None
        | Some cf1 \<Rightarrow>
            let popped = pop_finalized_commits cf1
            in if snd popped = [] then Some (fst popped, [])
               else map_option (\<lambda>(cf2, out). (cf2, snd popped @ out)) (indirect_loop ds vt (fst popped))))"
  by pat_completeness auto

termination
proof (relation "measure (\<lambda>(ds, vt, cf). length (cf_pending_commits cf))", goal_cases)
  case (2 ds vt cf cf1 popped)
  obtain css m out where p: "pop_loop (cf_pending_commits cf1) (cf_blocks cf1) = (css, m, out)"
    by (cases "pop_loop (cf_pending_commits cf1) (cf_blocks cf1)")
  then have "popped = (cf1\<lparr>cf_pending_commits := css, cf_blocks := m\<rparr>, out)" using 2 by (simp add: pop_finalized_commits_def)
  moreover from this have "out \<noteq> []" using 2(4) by simp
  ultimately show ?case using pop_loop_length[OF p] try_indirect_length[OF 2(2)] by (cases out) auto
qed simp

declare indirect_loop.simps [simp del]

definition process_commit :: "dag_state \<Rightarrow> vote_tracker_state \<Rightarrow> committed_sub_dag \<Rightarrow> commit_finalizer \<Rightarrow> (commit_finalizer \<times> committed_sub_dag list) option" where
  "process_commit ds vt committed_sub_dag cf = do {
     _ \<leftarrow> (case cf_last_processed_commit cf of
         Some i \<Rightarrow> assert_that (i + 1 = cr_index (csd_commit_ref committed_sub_dag))
       | None \<Rightarrow> Some ());
     cs \<leftarrow> commit_state_new committed_sub_dag;
     let cf = cf\<lparr>cf_last_processed_commit := Some (cr_index (csd_commit_ref committed_sub_dag)),
                 cf_pending_commits := cf_pending_commits cf @ [cs]\<rparr>;
     cf \<leftarrow> direct_loop ds vt [0..<length (cf_pending_commits cf)] cf;
     let (cf, direct) = pop_finalized_commits cf;
     if cf_pending_commits cf = [] then Some (cf, direct)
     else do {
       cf \<leftarrow> link_blocks_in_last_commit cf;
       cf \<leftarrow> append_origin_descendants_from_last_commit cf;
       (cf, indirect) \<leftarrow> indirect_loop ds vt cf;
       Some (cf, direct @ indirect)
     }
   }"

definition try_update_gc_round :: "dag_state \<Rightarrow> round \<Rightarrow> vote_tracker_state \<Rightarrow> vote_tracker_state option" where
  "try_update_gc_round ds last_finalized_commit_round vt = run_gc ds (ds_calculate_gc_round ds last_finalized_commit_round) vt"

text \<open>One iteration of \<^verbatim>\<open>run\<close>: the commits sent to the commit handler are returned.\<close>

definition finalizer_run_step ::
  "committed_sub_dag \<Rightarrow> commit_finalizer \<times> vote_tracker_state \<times> dag_state \<Rightarrow>
   ((commit_finalizer \<times> vote_tracker_state \<times> dag_state) \<times> committed_sub_dag list) option" where
  "finalizer_run_step committed_sub_dag = (\<lambda>(cf, vt, ds). do {
     let already_finalized = (\<not> pc_transaction_voting_enabled (cx_protocol_config (cf_context cf)) \<or>
       csd_recovered_rejected_transactions committed_sub_dag);
     (cf, finalized_commits) \<leftarrow> (if \<not> already_finalized then process_commit ds vt committed_sub_dag cf
                                else Some (cf, [committed_sub_dag]));
     if finalized_commits = [] then Some ((cf, vt, ds), [])
     else do {
       vt \<leftarrow> try_update_gc_round ds (br_round (csd_leader (last finalized_commits))) vt;
       let ds = (if \<not> already_finalized
         then fold (\<lambda>commit ds. ds_add_finalized_commit (csd_commit_ref commit) (csd_rejected_transactions_by_block commit) ds) finalized_commits ds
         else ds);
       ds \<leftarrow> ds_flush ds;
       Some ((cf, vt, ds), finalized_commits)
     }
   })"

end
