(* ===== verification/Finalization.thy ===== *)
theory Finalization
  imports Commit_Finalizer Dag_Invariant
begin

text \<open>
  Correctness of the commit finalizer: an invariant of the buffered commits and the map of their blocks,
  that processing a commit never panics, outputs commits in order, and leaves only commits
  buffered whose leader is less than three rounds below the last one.
\<close>

subsection \<open>Valid commits\<close>

definition block_valid :: "committee \<Rightarrow> verified_block \<Rightarrow> bool" where
  "block_valid c b \<longleftrightarrow> vb_author b < committee_size c \<and> vb_ancestors b \<noteq> [] \<and> br_round (hd (vb_ancestors b)) < vb_round b"

definition commit_valid :: "committee \<Rightarrow> committed_sub_dag \<Rightarrow> bool" where
  "commit_valid c sd \<longleftrightarrow> csd_blocks sd \<noteq> [] \<and> (\<forall>b\<in>set (csd_blocks sd). block_valid c b) \<and> distinct (map reference (csd_blocks sd))"

abbreviation csd_refs :: "committed_sub_dag \<Rightarrow> block_ref set" where
  "csd_refs sd \<equiv> reference ` set (csd_blocks sd)"

abbreviation cs_refs :: "commit_state \<Rightarrow> block_ref set" where
  "cs_refs cs \<equiv> csd_refs (cs_commit cs)"

definition cs_ok :: "committee \<Rightarrow> commit_state \<Rightarrow> bool" where
  "cs_ok c cs \<longleftrightarrow> commit_valid c (cs_commit cs) \<and> fset (fmdom (cs_pending_blocks cs)) \<subseteq> cs_refs cs \<and>
     fset (fmdom (cs_pending_transactions cs)) \<subseteq> cs_refs cs"

lemma cs_ok_author: "cs_ok c cs \<Longrightarrow> r \<in> cs_refs cs \<Longrightarrow> br_author r < committee_size c"
  by (auto simp: cs_ok_def commit_valid_def block_valid_def)

lemma committee_authority_in: "a < committee_size c \<Longrightarrow> \<exists>x. committee_authority c a = Some x"
  by (simp add: committee_authority_def committee_size_def)

text \<open>What the operations on one commit state change.\<close>

lemma extend_entry_dom [simp]: "fmdom (extend_entry r ts m) = finsert r (fmdom m)"
  by (simp add: extend_entry_def)

lemma add_pending_sel [simp]:
  "cs_commit (add_pending r ts cs) = cs_commit cs" "cs_pending_blocks (add_pending r ts cs) = cs_pending_blocks cs"
  "fmdom (cs_pending_transactions (add_pending r ts cs)) = finsert r (fmdom (cs_pending_transactions cs))"
  by (simp_all add: add_pending_def)

lemma add_rejected_sel [simp]:
  "cs_commit (add_rejected r ts cs) = cs_commit cs" "cs_pending_blocks (add_rejected r ts cs) = cs_pending_blocks cs"
  "cs_pending_transactions (add_rejected r ts cs) = cs_pending_transactions cs"
  by (simp_all add: add_rejected_def)

lemma remove_pending_sel [simp]:
  "cs_commit (remove_pending_transactions r ts cs) = cs_commit cs" "cs_pending_blocks (remove_pending_transactions r ts cs) = cs_pending_blocks cs"
  "fset (fmdom (cs_pending_transactions (remove_pending_transactions r ts cs))) \<subseteq> fset (fmdom (cs_pending_transactions cs))"
  by (auto simp: remove_pending_transactions_def Let_def fmdom_notI split: option.splits intro: fmdomI)

definition cs_same :: "commit_state \<Rightarrow> commit_state \<Rightarrow> bool" where
  "cs_same cs cs' \<longleftrightarrow> cs_commit cs' = cs_commit cs \<and> cs_pending_blocks cs' = cs_pending_blocks cs \<and>
     fset (fmdom (cs_pending_transactions cs')) \<subseteq> fset (fmdom (cs_pending_transactions cs)) \<union> cs_refs cs"

lemma cs_same_refl [simp]: "cs_same cs cs"
  by (simp add: cs_same_def)

lemma cs_same_trans: "cs_same a b \<Longrightarrow> cs_same b d \<Longrightarrow> cs_same a d"
  by (auto simp: cs_same_def)

lemma cs_same_remove: "cs_same cs (remove_pending_transactions r ts cs)"
  using remove_pending_sel[of r ts cs] unfolding cs_same_def by blast

lemma cs_same_add_rejected: "cs_same cs cs' \<Longrightarrow> cs_same cs (add_rejected r ts cs')"
  by (simp add: cs_same_def)

lemma cs_same_fold: "(\<And>x cs. x \<in> set xs \<Longrightarrow> cs_commit cs = C \<Longrightarrow> cs_same cs (f x cs)) \<Longrightarrow> cs_commit cs = C \<Longrightarrow> cs_same cs (fold f xs cs)"
proof (induction xs arbitrary: cs)
  case (Cons x xs)
  have 1: "cs_same cs (f x cs)" using Cons.prems by simp
  then have "cs_commit (f x cs) = C" using Cons.prems(2) by (simp add: cs_same_def)
  then have "cs_same (f x cs) (fold f xs (f x cs))" using Cons by simp
  with 1 show ?case using cs_same_trans by simp
qed simp

lemma cs_ok_same: "cs_ok c cs \<Longrightarrow> cs_same cs cs' \<Longrightarrow> cs_ok c cs'"
  by (auto simp: cs_ok_def cs_same_def)

subsection \<open>Direct finalization\<close>

lemma direct_finalize_block_same:
  assumes "cs_commit cs = C" and "r \<in> csd_refs C" and "br_author r < committee_size c" and "get_reject_votes r vt \<noteq> None"
  shows "\<exists>cs'. direct_finalize_block c vt g (r, n) cs = Some cs' \<and> cs_same cs cs'"
proof -
  from committee_authority_in[OF assms(3)] obtain au where au: "committee_authority c (br_author r) = Some au" by blast
  from assms(4) obtain votes where v: "get_reject_votes r vt = Some votes" by blast
  have "cs_same cs (fold (\<lambda>(i, stake) cs. if stake < c_quorum_threshold c then add_pending r [i] cs else add_rejected r [i] cs) votes cs)"
    by (rule cs_same_fold[OF _ assms(1)]) (use assms(2) in \<open>auto simp: cs_same_def split: if_splits\<close>)
  moreover have "cs_same cs (add_pending r [0..<n mod 2 ^ 16] cs)" using assms(1,2) by (simp add: cs_same_def)
  ultimately show ?thesis using au v by (simp add: direct_finalize_block_def)
qed

lemma direct_finalize_blocks_same:
  assumes "cs_commit cs = C" and "\<forall>x\<in>set xs. fst x \<in> csd_refs C \<and> br_author (fst x) < committee_size c \<and> get_reject_votes (fst x) vt \<noteq> None"
  shows "\<exists>cs'. foldM (direct_finalize_block c vt g) xs cs = Some cs' \<and> cs_same cs cs'"
  using assms
proof (induction xs arbitrary: cs)
  case (Cons x xs)
  obtain r n where x: "x = (r, n)" by (cases x)
  from direct_finalize_block_same[OF Cons.prems(1), of r c vt g n] Cons.prems(2) obtain cs1 where
    1: "direct_finalize_block c vt g x cs = Some cs1" "cs_same cs cs1" by (auto simp: x)
  then have "cs_commit cs1 = C" using Cons.prems(1) by (simp add: cs_same_def)
  from Cons.IH[OF this] Cons.prems(2) obtain cs2 where
    2: "foldM (direct_finalize_block c vt g) xs cs1 = Some cs2" "cs_same cs1 cs2" by auto
  show ?case using 1(1) 2(1) cs_same_trans[OF 1(2) 2(2)] by simp
qed simp

text \<open>The commits a finalizer buffers, in order.\<close>

definition commits_ok :: "committee \<Rightarrow> commit_state list \<Rightarrow> bool" where
  "commits_ok c css \<longleftrightarrow> (\<forall>cs\<in>set css. cs_ok c cs) \<and> (\<forall>i<length css. cs_index (css ! i) = cs_index (css ! 0) + i) \<and>
     sorted_wrt (\<lambda>a b. cs_leader_round a < cs_leader_round b \<and> cs_refs a \<inter> cs_refs b = {}) css"

abbreviation votes_known :: "vote_tracker_state \<Rightarrow> commit_state list \<Rightarrow> bool" where
  "votes_known vt css \<equiv> \<forall>cs\<in>set css. \<forall>r\<in>cs_refs cs. get_reject_votes r vt \<noteq> None"

definition same_commits :: "commit_state list \<Rightarrow> commit_state list \<Rightarrow> bool" where
  "same_commits css css' \<longleftrightarrow> map cs_commit css' = map cs_commit css"

lemma same_commits_refl [simp]: "same_commits css css"
  by (simp add: same_commits_def)

lemma same_commits_length: "same_commits css css' \<Longrightarrow> length css' = length css"
  by (metis same_commits_def length_map)

lemma same_commits_nth: "same_commits css css' \<Longrightarrow> i < length css \<Longrightarrow> cs_commit (css' ! i) = cs_commit (css ! i)"
  by (metis same_commits_def length_map nth_map)

lemma same_commits_update: "i < length css \<Longrightarrow> cs_commit cs = cs_commit (css ! i) \<Longrightarrow> same_commits css (css[i := cs])"
  by (simp add: same_commits_def map_update) (metis list_update_id nth_map)

lemma same_commits_trans: "same_commits a b \<Longrightarrow> same_commits b d \<Longrightarrow> same_commits a d"
  by (simp add: same_commits_def)

lemma same_commits_last: "same_commits css css' \<Longrightarrow> css \<noteq> [] \<Longrightarrow> cs_commit (last css') = cs_commit (last css)"
  by (metis last_map map_is_Nil_conv same_commits_def)

lemma commits_ok_same:
  assumes "commits_ok c css" and "same_commits css css'" and "\<forall>cs\<in>set css'. cs_ok c cs"
  shows "commits_ok c css'"
proof -
  have l: "length css' = length css" by (rule same_commits_length[OF assms(2)])
  have n: "cs_commit (css' ! i) = cs_commit (css ! i)" if "i < length css" for i using same_commits_nth[OF assms(2) that] .
  have "cs_index (css' ! i) = cs_index (css' ! 0) + i" if "i < length css" for i
  proof -
    have "0 < length css" using that by (cases css) auto
    moreover have "cs_index (css ! i) = cs_index (css ! 0) + i" using assms(1) that unfolding commits_ok_def by blast
    ultimately show ?thesis using n[of 0] n[OF that] by metis
  qed
  moreover have "cs_leader_round (css' ! i) < cs_leader_round (css' ! j) \<and> cs_refs (css' ! i) \<inter> cs_refs (css' ! j) = {}"
    if "i < j" "j < length css" for i j
    using assms(1) n[of i] n[of j] that unfolding commits_ok_def sorted_wrt_iff_nth_less by simp
  ultimately show ?thesis using assms(3) l unfolding commits_ok_def sorted_wrt_iff_nth_less by simp
qed

lemma votes_known_same: "votes_known vt css \<Longrightarrow> same_commits css css' \<Longrightarrow> votes_known vt css'"
proof -
  assume v: "votes_known vt css" and s: "same_commits css css'"
  have "cs_commit ` set css' = cs_commit ` set css" by (metis s same_commits_def set_map)
  then have "\<exists>x\<in>set css. cs_commit x = cs_commit cs" if "cs \<in> set css'" for cs using that by (metis image_iff)
  with v show ?thesis by metis
qed

lemma try_direct_spec:
  assumes "cf_committee cf = c" and "\<forall>cs\<in>set (cf_pending_commits cf). cs_ok c cs" and "votes_known vt (cf_pending_commits cf)"
    and "i < length (cf_pending_commits cf)" and "cs_pending_blocks (cf_pending_commits cf ! i) \<noteq> fmempty"
  shows "\<exists>cs'. try_direct_finalize_commit ds vt i cf = Some (cf\<lparr>cf_pending_commits := (cf_pending_commits cf)[i := cs']\<rparr>) \<and>
    cs_commit cs' = cs_commit (cf_pending_commits cf ! i) \<and> cs_pending_blocks cs' = fmempty \<and> cs_ok c cs'"
proof -
  let ?cs = "cf_pending_commits cf ! i"
  let ?empty = "?cs\<lparr>cs_pending_blocks := fmempty\<rparr>"
  have ok: "cs_ok c ?cs" "\<forall>r\<in>cs_refs ?cs. get_reject_votes r vt \<noteq> None" using assms(2-4) by (auto dest: nth_mem)
  have d: "\<forall>x\<in>set (sorted_list_of_fmap (cs_pending_blocks ?cs)). fst x \<in> fset (fmdom (cs_pending_blocks ?cs))"
    by (auto simp: sorted_list_of_fmap_def)
  have "\<forall>x\<in>set (sorted_list_of_fmap (cs_pending_blocks ?cs)). fst x \<in> cs_refs ?cs \<and> br_author (fst x) < committee_size c \<and> get_reject_votes (fst x) vt \<noteq> None"
    using d ok cs_ok_author[OF ok(1)] unfolding cs_ok_def by blast
  from direct_finalize_blocks_same[OF _ this, of ?empty "ds_calculate_gc_round ds (cs_leader_round ?cs + INDIRECT_REJECT_DEPTH)"] obtain cs' where
    1: "foldM (direct_finalize_block c vt (ds_calculate_gc_round ds (cs_leader_round ?cs + INDIRECT_REJECT_DEPTH)))
      (sorted_list_of_fmap (cs_pending_blocks ?cs)) ?empty = Some cs'" "cs_same ?empty cs'" by auto
  have "cs_ok c ?empty" using ok(1) by (simp add: cs_ok_def)
  then have "cs_ok c cs'" by (rule cs_ok_same[OF _ 1(2)])
  then show ?thesis using 1 assms(1,4,5)
    by (intro exI[of _ cs']) (simp add: try_direct_finalize_commit_def cs_same_def Let_def)
qed


lemma commits_ok_leader_mono:
  assumes "commits_ok c css" and "i \<le> j" and "j < length css"
  shows "cs_leader_round (css ! i) \<le> cs_leader_round (css ! j)"
  using assms unfolding commits_ok_def sorted_wrt_iff_nth_less by (cases "i = j") (auto simp: less_imp_le)

definition direct_inv :: "committee \<Rightarrow> vote_tracker_state \<Rightarrow> commit_finalizer \<Rightarrow> bool" where
  "direct_inv c vt cf \<longleftrightarrow> cf_committee cf = c \<and> cf_pending_commits cf \<noteq> [] \<and> commits_ok c (cf_pending_commits cf) \<and>
     votes_known vt (cf_pending_commits cf)"

lemma direct_inv_update:
  assumes "direct_inv c vt cf" and "i < length (cf_pending_commits cf)" and "cs_commit cs' = cs_commit (cf_pending_commits cf ! i)" and "cs_ok c cs'"
  shows "direct_inv c vt (cf\<lparr>cf_pending_commits := (cf_pending_commits cf)[i := cs']\<rparr>)"
proof -
  have s: "same_commits (cf_pending_commits cf) ((cf_pending_commits cf)[i := cs'])" by (rule same_commits_update[OF assms(2,3)])
  have "\<forall>cs\<in>set ((cf_pending_commits cf)[i := cs']). cs_ok c cs"
    using assms(1,4) set_update_subset_insert[of "cf_pending_commits cf" i cs'] by (auto simp: direct_inv_def commits_ok_def)
  from commits_ok_same[OF _ s this] votes_known_same[OF _ s] assms(1) show ?thesis by (simp add: direct_inv_def)
qed

text \<open>After the loop, only a suffix of young commits still has blocks that are not processed.\<close>

definition young :: "round \<Rightarrow> commit_state \<Rightarrow> bool" where
  "young l cs \<longleftrightarrow> l < cs_leader_round cs + INDIRECT_REJECT_DEPTH"

lemma direct_loop_spec:
  assumes "direct_inv c vt cf" and "k \<le> length (cf_pending_commits cf)"
    and "\<forall>i<k. cs_pending_blocks (cf_pending_commits cf ! i) = fmempty"
  shows "\<exists>css. direct_loop ds vt [k..<length (cf_pending_commits cf)] cf = Some (cf\<lparr>cf_pending_commits := css\<rparr>) \<and>
    same_commits (cf_pending_commits cf) css \<and> direct_inv c vt (cf\<lparr>cf_pending_commits := css\<rparr>) \<and>
    (\<forall>cs\<in>set css. cs_pending_blocks cs \<noteq> fmempty \<longrightarrow> young (cs_leader_round (last css)) cs)"
  using assms
proof (induction "length (cf_pending_commits cf) - k" arbitrary: k cf)
  case 0
  then have "\<forall>cs\<in>set (cf_pending_commits cf). cs_pending_blocks cs = fmempty" by (simp add: all_set_conv_all_nth)
  then show ?case using 0 by (intro exI[of _ "cf_pending_commits cf"]) simp
next
  case (Suc d)
  let ?css = "cf_pending_commits cf"
  have k: "k < length ?css" "[k..<length ?css] = k # [Suc k..<length ?css]" using Suc.hyps(2) by (simp_all add: upt_rec)
  show ?case
  proof (cases "cs_pending_blocks (?css ! k) = fmempty")
    case True
    then have "\<forall>i<Suc k. cs_pending_blocks (?css ! i) = fmempty" using Suc.prems(3) by (simp add: less_Suc_eq)
    from Suc.hyps(1)[OF _ Suc.prems(1) _ this] Suc.hyps(2) k True show ?thesis by simp
  next
    case False
    note l = Suc.prems(1)[unfolded direct_inv_def]
    show ?thesis
    proof (cases "\<not> csd_decided_with_local_blocks (cs_commit (?css ! k)) \<and> cs_leader_round (?css ! k) + DEFAULT_WAVE_LENGTH > cs_leader_round (last ?css)")
      case True
      have "young (cs_leader_round (last ?css)) (?css ! i)" if "k \<le> i" "i < length ?css" for i
        using commits_ok_leader_mono[of c ?css k i] l that True by (auto simp: young_def DEFAULT_WAVE_LENGTH_def MINIMUM_WAVE_LENGTH_def INDIRECT_REJECT_DEPTH_def)
      then have "\<forall>cs\<in>set ?css. cs_pending_blocks cs \<noteq> fmempty \<longrightarrow> young (cs_leader_round (last ?css)) cs"
        using Suc.prems(3) by (auto simp: all_set_conv_all_nth) (metis not_le)
      then show ?thesis using k l False True Suc.prems(1) by (intro exI[of _ ?css]) (simp add: last_opt_def)
    next
      case no_break: False
      from try_direct_spec[of cf c vt k ds] l k False obtain cs' where
        cs': "try_direct_finalize_commit ds vt k cf = Some (cf\<lparr>cf_pending_commits := ?css[k := cs']\<rparr>)"
          "cs_commit cs' = cs_commit (?css ! k)" "cs_pending_blocks cs' = fmempty" "cs_ok c cs'" by (auto simp: commits_ok_def)
      let ?cf = "cf\<lparr>cf_pending_commits := ?css[k := cs']\<rparr>"
      have i: "direct_inv c vt ?cf" by (rule direct_inv_update[OF Suc.prems(1) k(1) cs'(2,4)])
      have s: "same_commits ?css (?css[k := cs'])" by (rule same_commits_update[OF k(1) cs'(2)])
      have "\<forall>i<Suc k. cs_pending_blocks (cf_pending_commits ?cf ! i) = fmempty"
        using Suc.prems(3) cs'(3) k(1) by (simp add: less_Suc_eq)
      moreover have "d = length (cf_pending_commits ?cf) - Suc k" "Suc k \<le> length (cf_pending_commits ?cf)" using Suc.hyps(2) k(1) by simp_all
      ultimately have "\<exists>css. direct_loop ds vt [Suc k..<length (cf_pending_commits ?cf)] ?cf = Some (?cf\<lparr>cf_pending_commits := css\<rparr>) \<and>
        same_commits (cf_pending_commits ?cf) css \<and> direct_inv c vt (?cf\<lparr>cf_pending_commits := css\<rparr>) \<and>
        (\<forall>cs\<in>set css. cs_pending_blocks cs \<noteq> fmempty \<longrightarrow> young (cs_leader_round (last css)) cs)"
        by (intro Suc.hyps(1)[OF _ i])
      then obtain css where
        css: "direct_loop ds vt [Suc k..<length ?css] ?cf = Some (cf\<lparr>cf_pending_commits := css\<rparr>)" "same_commits ?css css"
        "direct_inv c vt (cf\<lparr>cf_pending_commits := css\<rparr>)"
        "\<forall>cs\<in>set css. cs_pending_blocks cs \<noteq> fmempty \<longrightarrow> young (cs_leader_round (last css)) cs"
        using same_commits_trans[OF s] by auto
      have "direct_loop ds vt [k..<length ?css] cf = Some (cf\<lparr>cf_pending_commits := css\<rparr>)"
        using k l False no_break cs'(1) css(1) by (auto simp: last_opt_def)
      with css(2-4) show ?thesis by blast
    qed
  qed
qed


subsection \<open>The map of the buffered blocks\<close>

definition blocks_inv :: "committee \<Rightarrow> block_ref set \<Rightarrow> (block_ref \<Rightarrow> commit_index) \<Rightarrow> (block_ref, block_state) fmap \<Rightarrow> bool" where
  "blocks_inv c D ix m \<longleftrightarrow> (\<forall>r. fmlookup m r \<noteq> None \<longleftrightarrow> r \<in> D) \<and>
     (\<forall>r bs. fmlookup m r = Some bs \<longrightarrow> reference (bs_block bs) = r \<and> block_valid c (bs_block bs) \<and> bs_commit_index bs = ix r \<and>
        (\<forall>x. x |\<in>| bs_children bs \<longrightarrow> x \<in> D \<and> ix r \<le> ix x))"

lemma blocks_invD:
  assumes "blocks_inv c D ix m" and "r \<in> D"
  obtains bs where "fmlookup m r = Some bs" "reference (bs_block bs) = r" "block_valid c (bs_block bs)" "bs_commit_index bs = ix r"
    "\<And>x. x |\<in>| bs_children bs \<Longrightarrow> x \<in> D \<and> ix r \<le> ix x"
  using assms unfolding blocks_inv_def by blast

lemma blocks_inv_author: "blocks_inv c D ix m \<Longrightarrow> r \<in> D \<Longrightarrow> br_author r < committee_size c"
  by (erule blocks_invD) (auto simp: block_valid_def)

lemma blocks_inv_cong: "blocks_inv c D ix m \<Longrightarrow> (\<And>r. r \<in> D \<Longrightarrow> ix' r = ix r) \<Longrightarrow> blocks_inv c D ix' m"
  unfolding blocks_inv_def by (metis option.discI)

lemma link_ancestors_lookup:
  "fmlookup (fold (link_ancestor r) as m) x =
     map_option (\<lambda>bs. if x \<in> set as then bs\<lparr>bs_children := finsert r (bs_children bs)\<rparr> else bs) (fmlookup m x)"
proof (induction as arbitrary: m)
  case Nil
  then show ?case by (cases "fmlookup m x") auto
next
  case (Cons a as)
  have "fmlookup (link_ancestor r a m) x = map_option (\<lambda>bs. if x = a then bs\<lparr>bs_children := finsert r (bs_children bs)\<rparr> else bs) (fmlookup m x)"
    by (cases "fmlookup m a"; cases "fmlookup m x") (auto simp: link_ancestor_def)
  then show ?case unfolding fold.simps comp_def Cons.IH by (cases "fmlookup m x") auto
qed

lemma link_block_inv:
  assumes "blocks_inv c D ix m" and "reference b \<notin> D" and "ix (reference b) = i" and "\<forall>r\<in>D. ix r \<le> i" and "block_valid c b"
  shows "blocks_inv c (insert (reference b) D) ix (link_block i b m)"
proof -
  let ?m = "fold (link_ancestor (reference b)) (vb_ancestors b) m"
  have none: "fmlookup m (reference b) = None" using assms(1,2) unfolding blocks_inv_def by blast
  then have eq: "link_block i b m = fmupd (reference b) (block_state_new b i) ?m"
    by (simp add: link_block_def link_ancestors_lookup)
  have new: "bs_block (block_state_new b i) = b" "bs_children (block_state_new b i) = {||}" "bs_commit_index (block_state_new b i) = i"
    by (simp_all add: block_state_new_def)
  show ?thesis unfolding blocks_inv_def
  proof (intro conjI allI impI, goal_cases)
    case (1 r)
    show ?case using assms(1) by (auto simp: eq link_ancestors_lookup blocks_inv_def)
  next
    case (2 r bs)
    then show ?case using assms(1) new by (auto simp: eq link_ancestors_lookup blocks_inv_def split: if_splits)
  next
    case (3 r bs)
    then show ?case using assms(1,5) new by (auto simp: eq link_ancestors_lookup blocks_inv_def split: if_splits)
  next
    case (4 r bs)
    then show ?case using assms(1,3) new by (auto simp: eq link_ancestors_lookup blocks_inv_def split: if_splits)
  next
    case (5 r bs x)
    then show ?case using assms(1) new by (auto simp: eq link_ancestors_lookup blocks_inv_def split: if_splits)
  next
    case (6 r bs x)
    then have "r \<noteq> reference b" using new by (auto simp: eq)
    with 6 obtain bs' where bs': "fmlookup m r = Some bs'" "x |\<in>| bs_children bs' \<or> x = reference b"
      by (auto simp: eq link_ancestors_lookup split: if_splits)
    then have "r \<in> D" using assms(1) unfolding blocks_inv_def by blast
    then show ?case using bs' assms(1,3,4) unfolding blocks_inv_def by blast
  qed
qed

lemma link_blocks_inv:
  assumes "blocks_inv c D ix m" and "distinct (map reference bs)" and "\<forall>b\<in>set bs. reference b \<notin> D \<and> ix (reference b) = i \<and> block_valid c b"
    and "\<forall>r\<in>D. ix r \<le> i"
  shows "blocks_inv c (reference ` set bs \<union> D) ix (fold (link_block i) bs m)"
  using assms
proof (induction bs arbitrary: D m)
  case (Cons b bs)
  have "blocks_inv c (insert (reference b) D) ix (link_block i b m)" using Cons.prems by (intro link_block_inv) auto
  from Cons.IH[OF this] Cons.prems show ?case by (simp add: image_iff) (metis Un_insert_right)
qed simp

text \<open>Appending origin descendants changes nothing else.\<close>

definition same_links :: "(block_ref, block_state) fmap \<Rightarrow> (block_ref, block_state) fmap \<Rightarrow> bool" where
  "same_links m m' \<longleftrightarrow> (\<forall>r. map_option (\<lambda>bs. (bs_block bs, bs_children bs, bs_commit_index bs)) (fmlookup m' r) =
     map_option (\<lambda>bs. (bs_block bs, bs_children bs, bs_commit_index bs)) (fmlookup m r))"

lemma same_links_Some:
  assumes "same_links m m'" and "fmlookup m' r = Some bs'"
  obtains bs where "fmlookup m r = Some bs" "bs_block bs' = bs_block bs" "bs_children bs' = bs_children bs" "bs_commit_index bs' = bs_commit_index bs"
proof -
  have "map_option (\<lambda>bs. (bs_block bs, bs_children bs, bs_commit_index bs)) (fmlookup m' r) =
     map_option (\<lambda>bs. (bs_block bs, bs_children bs, bs_commit_index bs)) (fmlookup m r)" using assms(1) by (simp only: same_links_def)
  then show ?thesis using assms(2) that by (cases "fmlookup m r") auto
qed

lemma same_links_None:
  assumes "same_links m m'"
  shows "fmlookup m' r = None \<longleftrightarrow> fmlookup m r = None"
proof -
  have "map_option (\<lambda>bs. (bs_block bs, bs_children bs, bs_commit_index bs)) (fmlookup m' r) =
     map_option (\<lambda>bs. (bs_block bs, bs_children bs, bs_commit_index bs)) (fmlookup m r)" using assms by (simp only: same_links_def)
  then show ?thesis by (cases "fmlookup m r"; cases "fmlookup m' r") simp_all
qed

lemma blocks_inv_links: "blocks_inv c D ix m \<Longrightarrow> same_links m m' \<Longrightarrow> blocks_inv c D ix m'"
proof -
  assume i: "blocks_inv c D ix m" and s: "same_links m m'"
  have "\<forall>r. fmlookup m' r \<noteq> None \<longleftrightarrow> r \<in> D" using i same_links_None[OF s] unfolding blocks_inv_def by simp
  moreover have "reference (bs_block bs') = r \<and> block_valid c (bs_block bs') \<and> bs_commit_index bs' = ix r \<and>
        (\<forall>x. x |\<in>| bs_children bs' \<longrightarrow> x \<in> D \<and> ix r \<le> ix x)" if "fmlookup m' r = Some bs'" for r bs'
    using same_links_Some[OF s that] i unfolding blocks_inv_def by metis
  ultimately show ?thesis unfolding blocks_inv_def by simp
qed

lemma append_origin_links:
  assumes "blocks_inv c D ix m"
  shows "\<exists>m'. append_origin r a m = Some m' \<and> same_links m m'"
  using assms
proof (induction "br_round a" arbitrary: a m rule: less_induct)
  case less
  show ?case
  proof (cases "br_author a \<noteq> br_author r \<or> fmlookup m a = None")
    case True
    then show ?thesis by (auto simp: append_origin.simps[of r a m] same_links_def)
  next
    case False
    then obtain bs where bs: "fmlookup m a = Some bs" "br_author a = br_author r" by auto
    then have v: "reference (bs_block bs) = a" "block_valid c (bs_block bs)" using less.prems unfolding blocks_inv_def by blast+
    then obtain x xs where x: "vb_ancestors (bs_block bs) = x # xs" "br_round x < br_round a"
      by (cases "vb_ancestors (bs_block bs)") (auto simp: block_valid_def)
    let ?m = "fmupd a (bs\<lparr>bs_origin_descendants := bs_origin_descendants bs @ [r]\<rparr>) m"
    have s: "same_links m ?m" using bs by (simp add: same_links_def)
    from less.hyps[OF x(2) blocks_inv_links[OF less.prems s]] obtain m' where "append_origin r x ?m = Some m'" "same_links ?m m'" by blast
    then show ?thesis using s bs x by (auto simp: append_origin.simps[of r a m] same_links_def)
  qed
qed


lemma same_links_trans: "same_links a b \<Longrightarrow> same_links b d \<Longrightarrow> same_links a d"
  by (simp add: same_links_def)

lemma append_origins_links:
  assumes "blocks_inv c D ix m" and "reference ` set bs \<subseteq> D"
  shows "\<exists>m'. foldM (\<lambda>b m. do {
         bs \<leftarrow> fmlookup m (reference b);
         first \<leftarrow> vec_get (vb_ancestors (bs_block bs)) 0;
         append_origin (reference b) first m
       }) bs m = Some m' \<and> same_links m m'"
proof (rule foldM_total[of "same_links m" m bs])
  show "same_links m m" by (simp add: same_links_def)
next
  fix b m' assume b: "b \<in> set bs" and s: "same_links m m'"
  have i: "blocks_inv c D ix m'" by (rule blocks_inv_links[OF assms(1) s])
  obtain bs where bs: "fmlookup m' (reference b) = Some bs" "block_valid c (bs_block bs)"
    using blocks_invD[OF i, of "reference b"] assms(2) b by blast
  obtain m'' where "append_origin (reference b) (vb_ancestors (bs_block bs) ! 0) m' = Some m''" "same_links m' m''"
    using append_origin_links[OF i] by blast
  then show "\<exists>t. do {
         bs \<leftarrow> fmlookup m' (reference b);
         first \<leftarrow> vec_get (vb_ancestors (bs_block bs)) 0;
         append_origin (reference b) first m'
       } = Some t \<and> same_links m t"
    using bs same_links_trans[OF s] by (auto simp: block_valid_def)
qed

subsection \<open>Visiting the descendants of a block\<close>

lemma count_accept_votes_total:
  assumes "a < committee_size c"
  shows "\<exists>m' newly. count_accept_votes c a rejects m = Some (m', newly)"
proof -
  have "\<exists>t. foldM (\<lambda>(i, sa) (m, newly).
         if i |\<in>| rejects then Some (m, newly)
         else do {
           (sa, reached) \<leftarrow> sa_add QuorumThreshold a c sa;
           Some (fmupd i sa m, if reached then newly @ [i] else newly)
         }) (sorted_list_of_fmap m) (m, []) = Some t \<and> True"
    by (rule foldM_total) (auto simp: sa_add_eq[OF assms])
  then show ?thesis by (auto simp: count_accept_votes_def)
qed

text \<open>The rounds of garbage collection known for the commits after the first one.\<close>

definition gc_rounds_ok :: "commit_index \<Rightarrow> (commit_index \<times> round) list \<Rightarrow> bool" where
  "gc_rounds_ok i gc_rounds \<longleftrightarrow> (\<forall>j<length gc_rounds. fst (gc_rounds ! j) = i + j)"

lemma gced_total:
  assumes "gc_rounds_ok i gc_rounds" and "i \<le> j" and "j < i + length gc_rounds"
  shows "\<exists>b. gced_transaction_votes_for_pending_block gc_rounds r i j = Some b"
proof (cases "i = j")
  case False
  then have "j - 1 - i < length gc_rounds" "i < j" using assms by auto
  moreover from this have "fst (gc_rounds ! (j - 1 - i)) = j - 1" using assms(1) by (simp add: gc_rounds_ok_def)
  ultimately show ?thesis using False by (auto simp: gced_transaction_votes_for_pending_block_def split: prod.splits)
qed (auto simp: gced_transaction_votes_for_pending_block_def)

definition visit_ok :: "block_ref set \<Rightarrow> (block_ref \<Rightarrow> commit_index) \<Rightarrow> commit_index \<Rightarrow> indirect_state \<Rightarrow> bool" where
  "visit_ok D ix i st \<longleftrightarrow> (\<forall>r. r |\<in>| id_to_visit st \<longrightarrow> r \<in> D \<and> i \<le> ix r)"

lemma visit_block_total:
  assumes gc: "gc_rounds_ok i gc_rounds" and ix: "i \<le> bs_commit_index bs" "bs_commit_index bs < i + length gc_rounds"
    and au: "br_author p < committee_size c" "br_author cur < committee_size c"
    and ch: "\<And>x. x |\<in>| bs_children bs \<Longrightarrow> x \<in> D \<and> i \<le> ix x" and v: "visit_ok D ix i st"
  obtains st' where "visit_block c gc_rounds p i cur bs st = Some (Continue st')" "visit_ok D ix i st'"
    | st' where "visit_block c gc_rounds p i cur bs st = Some (Break st')"
proof -
  obtain g where g: "gced_transaction_votes_for_pending_block gc_rounds (br_round p) i (bs_commit_index bs) = Some g"
    using gced_total[OF gc ix] by blast
  obtain pa where pa: "committee_authority c (br_author p) = Some pa" using committee_authority_in[OF au(1)] by blast
  have vc: "visit_ok D ix i (visit_children bs s)" if "id_to_visit s = id_to_visit st" for s
    using v ch that by (auto simp: visit_ok_def visit_children_def)
  obtain m' newly where n: "count_accept_votes c (br_author cur)
      (case fmlookup (bs_reject_votes bs) p of Some s \<Rightarrow> s | None \<Rightarrow> {||}) (id_accept_votes st) = Some (m', newly)"
    using count_accept_votes_total[OF au(2)] by blast
  consider "cur |\<in>| id_ignored st" | "cur |\<notin>| id_ignored st" g | "cur |\<notin>| id_ignored st" "\<not> g" "fold fmdrop newly m' = fmempty"
    | "cur |\<notin>| id_ignored st" "\<not> g" "fold fmdrop newly m' \<noteq> fmempty" by blast
  then show ?thesis
  proof cases
    case 1
    then show ?thesis using that(1)[of "visit_children bs st"] g vc[of st] by (simp add: visit_block_def)
  next
    case 2
    then show ?thesis using that(1) g pa v by (simp add: visit_block_def visit_ok_def Let_def)
  next
    case 3
    then show ?thesis using that(2) g n by (simp add: visit_block_def Let_def)
  next
    case 4
    then show ?thesis using that(1) g n vc by (simp add: visit_block_def Let_def)
  qed
qed

lemma visit_loop_total:
  assumes "blocks_inv c D ix m" and "gc_rounds_ok i gc_rounds" and "\<forall>r\<in>D. ix r < i + length gc_rounds"
    and "br_author p < committee_size c" and "visit_ok D ix i st"
  shows "\<exists>ts. visit_loop c m gc_rounds p i st = Some ts"
  using assms
proof (induction c m gc_rounds p i st rule: visit_loop.induct)
  case (1 c m gc_rounds p i st)
  show ?case
  proof (cases "id_to_visit st = {||}")
    case False
    let ?cur = "fMin (id_to_visit st)" and ?st = "st\<lparr>id_to_visit := id_to_visit st |-| {|fMin (id_to_visit st)|}\<rparr>"
    have cur: "?cur \<in> D" "i \<le> ix ?cur" using 1(7) fMin_in[OF False] by (auto simp: visit_ok_def)
    have st: "visit_ok D ix i ?st" "visit_ok D ix i (?st\<lparr>id_visited := finsert ?cur (id_visited ?st)\<rparr>)" using 1(7) by (auto simp: visit_ok_def)
    show ?thesis
    proof (cases "?cur |\<in>| id_visited st")
      case True
      then have "\<exists>ts. visit_loop c m gc_rounds p i ?st = Some ts" using 1(1)[OF False refl refl] 1(3-6) st(1) by simp
      then show ?thesis using True False by (simp add: visit_loop.simps[of c m gc_rounds p i st] Let_def)
    next
      case new: False
      obtain bs where bs: "fmlookup m ?cur = Some bs" "bs_commit_index bs = ix ?cur" "\<And>x. x |\<in>| bs_children bs \<Longrightarrow> x \<in> D \<and> ix ?cur \<le> ix x"
        using blocks_invD[OF 1(3) cur(1)] by blast
      have ch: "x \<in> D \<and> i \<le> ix x" if "x |\<in>| bs_children bs" for x using bs(3)[OF that] cur(2) by simp
      have c: "i \<le> bs_commit_index bs" "bs_commit_index bs < i + length gc_rounds" using bs(2) cur 1(5) by simp_all
      let ?vst = "?st\<lparr>id_visited := finsert ?cur (id_visited ?st)\<rparr>"
      consider (go) st' where "visit_block c gc_rounds p i ?cur bs ?vst = Some (Continue st')" "visit_ok D ix i st'"
        | (stop) st' where "visit_block c gc_rounds p i ?cur bs ?vst = Some (Break st')"
        by (rule visit_block_total[OF 1(4) c 1(6) blocks_inv_author[OF 1(3) cur(1)] ch st(2)])
      then show ?thesis
      proof cases
        case (go st')
        then have "\<exists>ts. visit_loop c m gc_rounds p i st' = Some ts"
          using 1(2)[OF False refl refl _ bs(1)] new 1(3-6) by simp
        then show ?thesis using go new False bs(1) by (simp add: visit_loop.simps[of c m gc_rounds p i st] Let_def)
      next
        case (stop st')
        with new False bs(1) show ?thesis by (simp add: visit_loop.simps[of c m gc_rounds p i st] Let_def)
      qed
    qed
  qed (simp add: visit_loop.simps)
qed


subsection \<open>Indirect finalization of the first commit\<close>

definition blocks_ok :: "committee \<Rightarrow> commit_state list \<Rightarrow> (block_ref, block_state) fmap \<Rightarrow> bool" where
  "blocks_ok c css m \<longleftrightarrow> (\<exists>ix. blocks_inv c (\<Union>cs\<in>set css. cs_refs cs) ix m \<and> (\<forall>cs\<in>set css. \<forall>r\<in>cs_refs cs. ix r = cs_index cs))"

lemma blocks_ok_same: "blocks_ok c css m \<Longrightarrow> same_commits css css' \<Longrightarrow> blocks_ok c css' m"
proof -
  assume b: "blocks_ok c css m" and s: "same_commits css css'"
  have e: "cs_commit ` set css' = cs_commit ` set css" by (metis s same_commits_def set_map)
  have "(\<Union>cs\<in>set css'. cs_refs cs) = \<Union> (csd_refs ` cs_commit ` set css')" by auto
  also have "\<dots> = (\<Union>cs\<in>set css. cs_refs cs)" unfolding e by auto
  finally have 1: "(\<Union>cs\<in>set css'. cs_refs cs) = (\<Union>cs\<in>set css. cs_refs cs)" .
  have "\<exists>x\<in>set css. cs_commit x = cs_commit cs" if "cs \<in> set css'" for cs using that e by (metis image_iff)
  with b show ?thesis unfolding blocks_ok_def 1 by metis
qed

definition buffer_ok :: "committee \<Rightarrow> vote_tracker_state \<Rightarrow> commit_finalizer \<Rightarrow> bool" where
  "buffer_ok c vt cf \<longleftrightarrow> direct_inv c vt cf \<and> blocks_ok c (cf_pending_commits cf) (cf_blocks cf)"

lemma buffer_ok_update:
  assumes "buffer_ok c vt cf" and "cs_same (cf_pending_commits cf ! 0) cs'"
  shows "buffer_ok c vt (update_first_commit cs' cf)"
proof -
  have ne: "0 < length (cf_pending_commits cf)" "cs_ok c (cf_pending_commits cf ! 0)" using assms(1) by (auto simp: buffer_ok_def direct_inv_def commits_ok_def)
  have e: "cs_commit cs' = cs_commit (cf_pending_commits cf ! 0)" using assms(2) by (simp add: cs_same_def)
  show ?thesis
    using direct_inv_update[OF _ ne(1) e cs_ok_same[OF ne(2) assms(2)], of vt] blocks_ok_same[OF _ same_commits_update[OF ne(1) e]] assms(1)
    by (simp add: buffer_ok_def update_first_commit_def)
qed

lemma sorted_list_of_fmap_fst: "x \<in> set (sorted_list_of_fmap m) \<Longrightarrow> fst x |\<in>| fmdom m"
  by (auto simp: sorted_list_of_fmap_def)

lemma buffer_ok_first:
  assumes "buffer_ok c vt cf"
  shows "cf_pending_commits cf \<noteq> []" "cf_committee cf = c" "cs_ok c (cf_pending_commits cf ! 0)"
    "\<And>r. r |\<in>| fmdom (cs_pending_transactions (cf_pending_commits cf ! 0)) \<Longrightarrow> r \<in> cs_refs (cf_pending_commits cf ! 0)"
  using assms by (auto simp: buffer_ok_def direct_inv_def commits_ok_def cs_ok_def)

lemma check_pending_same:
  assumes "buffer_ok c vt cf"
  shows "\<exists>cs'. check_pending_transactions_in_first_commit vt cf = Some (update_first_commit cs' cf) \<and> cs_same (cf_pending_commits cf ! 0) cs'"
proof -
  let ?cs = "cf_pending_commits cf ! 0"
  note first = buffer_ok_first[OF assms]
  have v: "\<exists>y. get_reject_votes r vt = Some y" if "r \<in> cs_refs ?cs" for r
    using assms that first(1) by (auto simp: buffer_ok_def direct_inv_def)
  have "\<exists>ys. mapM (\<lambda>(r, pending). do {
         votes \<leftarrow> get_reject_votes r vt;
         Some (r, filter (\<lambda>i. \<not> (case map_of votes i of Some s \<Rightarrow> s | None \<Rightarrow> 0) < c_quorum_threshold (cf_committee cf))
                   (sorted_list_of_fset pending))
       }) (sorted_list_of_fmap (cs_pending_transactions ?cs)) = Some ys"
    by (rule mapM_ex) (auto dest!: sorted_list_of_fmap_fst first(4) v)
  then obtain ys where ys: "mapM (\<lambda>(r, pending). do {
         votes \<leftarrow> get_reject_votes r vt;
         Some (r, filter (\<lambda>i. \<not> (case map_of votes i of Some s \<Rightarrow> s | None \<Rightarrow> 0) < c_quorum_threshold (cf_committee cf))
                   (sorted_list_of_fset pending))
       }) (sorted_list_of_fmap (cs_pending_transactions ?cs)) = Some ys" by blast
  have "cs_same ?cs (fold (\<lambda>(r, ts) cs. add_rejected r ts (remove_pending_transactions r ts cs)) (filter (\<lambda>(r, ts). ts \<noteq> []) ys) ?cs)"
    by (rule cs_same_fold[OF _ refl]) (auto intro: cs_same_add_rejected cs_same_remove)
  then show ?thesis using ys first(1) by (auto simp: check_pending_transactions_in_first_commit_def)
qed

lemma commits_ok_index:
  "commits_ok c css \<Longrightarrow> i < length css \<Longrightarrow> cs_index (css ! i) = cs_index (css ! 0) + i"
  unfolding commits_ok_def by blast

lemma indirect_block_total:
  assumes "buffer_ok c vt cf" and "r \<in> cs_refs (cf_pending_commits cf ! 0)"
  shows "\<exists>ts. try_indirect_finalize_pending_transactions_in_block c (cf_blocks cf)
    (map (\<lambda>cs. (cs_index cs, ds_calculate_gc_round ds (cs_leader_round cs))) (cf_pending_commits cf)) r pending = Some ts"
proof -
  let ?css = "cf_pending_commits cf" and ?D = "\<Union>cs\<in>set (cf_pending_commits cf). cs_refs cs"
  let ?gc = "map (\<lambda>cs. (cs_index cs, ds_calculate_gc_round ds (cs_leader_round cs))) ?css"
  have ok: "commits_ok c ?css" "?css \<noteq> []" using assms(1) by (simp_all add: buffer_ok_def direct_inv_def)
  obtain ix where i: "blocks_inv c ?D ix (cf_blocks cf)" and ix: "\<forall>cs\<in>set ?css. \<forall>r\<in>cs_refs cs. ix r = cs_index cs"
    using assms(1) unfolding buffer_ok_def blocks_ok_def by blast
  have r: "r \<in> ?D" "ix r = cs_index (?css ! 0)" using assms(2) ok(2) ix by (auto intro!: bexI[of _ "?css ! 0"])
  obtain bs where bs: "fmlookup (cf_blocks cf) r = Some bs" "bs_commit_index bs = cs_index (?css ! 0)"
    "\<And>x. x |\<in>| bs_children bs \<Longrightarrow> x \<in> ?D \<and> cs_index (?css ! 0) \<le> ix x"
    using blocks_invD[OF i r(1)] r(2) by metis
  have gc: "gc_rounds_ok (cs_index (?css ! 0)) ?gc" using commits_ok_index[OF ok(1)] by (auto simp: gc_rounds_ok_def)
  have "ix x < cs_index (?css ! 0) + length ?gc" if x: "x \<in> ?D" for x
  proof -
    from x obtain cs where cs: "cs \<in> set ?css" "x \<in> cs_refs cs" by blast
    then have "ix x = cs_index cs" using ix by blast
    moreover from cs(1) obtain j where "j < length ?css" "cs = ?css ! j" by (metis in_set_conv_nth)
    ultimately show ?thesis using commits_ok_index[OF ok(1), of j] by simp
  qed
  then have lt: "\<forall>x\<in>?D. ix x < cs_index (?css ! 0) + length ?gc" by blast
  show ?thesis
  proof (cases "pending = {||}")
    case False
    have "visit_ok ?D ix (cs_index (?css ! 0))
       \<lparr>id_accept_votes = fmap_of_list (map (\<lambda>i. (i, sa_new)) (sorted_list_of_fset pending)),
           id_finalized = [], id_to_visit = bs_children bs, id_visited = {||}, id_ignored = {||}\<rparr>" using bs(3) by (simp add: visit_ok_def)
    from visit_loop_total[OF i gc lt blocks_inv_author[OF i r(1)] this] show ?thesis
      using False bs(1,2) by (simp add: try_indirect_finalize_pending_transactions_in_block_def)
  qed (simp add: try_indirect_finalize_pending_transactions_in_block_def)
qed

lemma try_indirect_pending_same:
  assumes "buffer_ok c vt cf"
  shows "\<exists>cs'. try_indirect_finalize_pending_transactions_in_first_commit ds cf = Some (update_first_commit cs' cf) \<and>
    cs_same (cf_pending_commits cf ! 0) cs'"
proof -
  let ?cs = "cf_pending_commits cf ! 0"
  let ?f = "\<lambda>(r, pending). do {
         finalized \<leftarrow> try_indirect_finalize_pending_transactions_in_block (cf_committee cf) (cf_blocks cf)
            (map (\<lambda>cs. (cs_index cs, ds_calculate_gc_round ds (cs_leader_round cs))) (cf_pending_commits cf)) r pending;
         Some (r, finalized)
       }"
  note first = buffer_ok_first[OF assms]
  have "\<exists>y. ?f x = Some y" if "x \<in> set (sorted_list_of_fmap (cs_pending_transactions ?cs))" for x
    using indirect_block_total[OF assms first(4)[OF sorted_list_of_fmap_fst[OF that]], of ds "snd x"] first(2) by (auto split: prod.splits)
  then obtain ys where ys: "mapM ?f (sorted_list_of_fmap (cs_pending_transactions ?cs)) = Some ys"
    using mapM_ex[of "sorted_list_of_fmap (cs_pending_transactions ?cs)" ?f] by blast
  have "cs_same ?cs (fold (\<lambda>(r, ts) cs. remove_pending_transactions r ts cs) (filter (\<lambda>(r, ts). ts \<noteq> []) ys) ?cs)"
    by (rule cs_same_fold[OF _ refl]) (auto intro: cs_same_add_rejected cs_same_remove)
  then show ?thesis using ys first(1) by (auto simp: try_indirect_finalize_pending_transactions_in_first_commit_def Let_def)
qed

lemma reject_pending_fold:
  "cs_commit (fold (\<lambda>(r, pending) cs. add_rejected r (sorted_list_of_fset pending) cs) xs cs) = cs_commit cs \<and>
   cs_pending_blocks (fold (\<lambda>(r, pending) cs. add_rejected r (sorted_list_of_fset pending) cs) xs cs) = cs_pending_blocks cs \<and>
   cs_pending_transactions (fold (\<lambda>(r, pending) cs. add_rejected r (sorted_list_of_fset pending) cs) xs cs) = cs_pending_transactions cs"
  by (induction xs arbitrary: cs) auto

lemma update_first_twice [simp]: "update_first_commit b (update_first_commit a cf) = update_first_commit b cf"
  by (simp add: update_first_commit_def)

lemma try_reject_pending_same:
  assumes "buffer_ok c vt cf" and "cs_pending_blocks (cf_pending_commits cf ! 0) = fmempty"
  shows "\<exists>cs'. try_indirect_reject_pending_transactions_in_first_commit cf = Some (update_first_commit cs' cf) \<and>
    cs_same (cf_pending_commits cf ! 0) cs' \<and>
    (\<not> young (cs_leader_round (last (cf_pending_commits cf))) (cf_pending_commits cf ! 0) \<longrightarrow> cs_pending_transactions cs' = fmempty)"
proof (cases "young (cs_leader_round (last (cf_pending_commits cf))) (cf_pending_commits cf ! 0)")
  case True
  have "update_first_commit (cf_pending_commits cf ! 0) cf = cf" by (simp add: update_first_commit_def)
  then show ?thesis using True buffer_ok_first(1)[OF assms(1)]
    by (intro exI[of _ "cf_pending_commits cf ! 0"]) (simp add: try_indirect_reject_pending_transactions_in_first_commit_def young_def last_opt_def)
next
  case False
  then show ?thesis using buffer_ok_first(1)[OF assms(1)] assms(2)
    by (auto simp: try_indirect_reject_pending_transactions_in_first_commit_def young_def last_opt_def cs_same_def reject_pending_fold)
qed


lemma first_update [simp]: "cf_pending_commits cf \<noteq> [] \<Longrightarrow> cf_pending_commits (update_first_commit cs cf) ! 0 = cs"
  by (simp add: update_first_commit_def)

lemma last_update_first:
  assumes "cf_pending_commits cf \<noteq> []" and "cs_commit cs = cs_commit (cf_pending_commits cf ! 0)"
  shows "cs_commit (last (cf_pending_commits (update_first_commit cs cf))) = cs_commit (last (cf_pending_commits cf))"
  using same_commits_last[OF same_commits_update[of 0 "cf_pending_commits cf" cs]] assms by (simp add: update_first_commit_def)

lemma try_indirect_spec:
  assumes "buffer_ok c vt cf" and "cs_pending_blocks (cf_pending_commits cf ! 0) = fmempty"
  shows "\<exists>cs'. try_indirect_finalize_first_commit ds vt cf = Some (update_first_commit cs' cf) \<and>
    cs_same (cf_pending_commits cf ! 0) cs' \<and>
    (\<not> young (cs_leader_round (last (cf_pending_commits cf))) (cf_pending_commits cf ! 0) \<longrightarrow> cs_pending_transactions cs' = fmempty)"
proof -
  have ne: "cf_pending_commits cf \<noteq> []" by (rule buffer_ok_first(1)[OF assms(1)])
  obtain cs1 where 1: "check_pending_transactions_in_first_commit vt cf = Some (update_first_commit cs1 cf)" "cs_same (cf_pending_commits cf ! 0) cs1"
    using check_pending_same[OF assms(1)] by blast
  note b1 = buffer_ok_update[OF assms(1) 1(2)]
  obtain cs2 where 2: "try_indirect_finalize_pending_transactions_in_first_commit ds (update_first_commit cs1 cf) = Some (update_first_commit cs2 cf)" "cs_same cs1 cs2"
    using try_indirect_pending_same[OF b1, of ds] ne by auto
  have s2: "cs_same (cf_pending_commits cf ! 0) cs2" by (rule cs_same_trans[OF 1(2) 2(2)])
  note b2 = buffer_ok_update[OF assms(1) s2]
  have e: "cs_commit cs2 = cs_commit (cf_pending_commits cf ! 0)" "cs_pending_blocks cs2 = fmempty" using s2 assms(2) by (simp_all add: cs_same_def)
  obtain cs3 where 3: "try_indirect_reject_pending_transactions_in_first_commit (update_first_commit cs2 cf) = Some (update_first_commit cs3 cf)"
    "cs_same cs2 cs3" "\<not> young (cs_leader_round (last (cf_pending_commits (update_first_commit cs2 cf)))) cs2 \<longrightarrow> cs_pending_transactions cs3 = fmempty"
    using try_reject_pending_same[OF b2] ne e(2) by auto
  have "try_indirect_finalize_first_commit ds vt cf = Some (update_first_commit cs3 cf)"
    using 1(1) 2(1) 3(1) ne assms(2) by (simp add: try_indirect_finalize_first_commit_def)
  then show ?thesis using cs_same_trans[OF s2 3(2)] 3(3) e(1) last_update_first[OF ne e(1)] by (auto simp: young_def)
qed

subsection \<open>Output\<close>

lemma drop_refs_lookup:
  "fmlookup (fold (\<lambda>b m. fmdrop (reference b) m) bs m) r = (if r \<in> reference ` set bs then None else fmlookup m r)"
  by (induction bs arbitrary: m) auto

lemma finalized_commit_ref [simp]: "csd_commit_ref (finalized_commit cs) = csd_commit_ref (cs_commit cs)"
  by (simp add: finalized_commit_def Let_def)

lemma pop_loop_spec:
  assumes "pop_loop css m = (css', m', out)"
  shows "\<exists>done. css = done @ css' \<and> out = map finalized_commit done \<and>
    (\<forall>r. fmlookup m' r = (if r \<in> (\<Union>cs\<in>set done. cs_refs cs) then None else fmlookup m r)) \<and>
    (css' \<noteq> [] \<longrightarrow> cs_pending_blocks (hd css') \<noteq> fmempty \<or> cs_pending_transactions (hd css') \<noteq> fmempty)"
  using assms
proof (induction css arbitrary: m css' m' out)
  case (Cons cs css)
  show ?case
  proof (cases "cs_pending_blocks cs \<noteq> fmempty \<or> cs_pending_transactions cs \<noteq> fmempty")
    case True
    then show ?thesis using Cons.prems by (intro exI[of _ "[]"]) auto
  next
    case False
    obtain css1 m1 out1 where p: "pop_loop css (fold (\<lambda>b m. fmdrop (reference b) m) (csd_blocks (cs_commit cs)) m) = (css1, m1, out1)"
      by (metis prod_cases3)
    with False Cons.prems have e: "css' = css1" "m' = m1" "out = finalized_commit cs # out1" by auto
    from Cons.IH[OF p] obtain ds where d: "css = ds @ css1" "out1 = map finalized_commit ds"
      "\<forall>r. fmlookup m1 r = (if r \<in> (\<Union>cs\<in>set ds. cs_refs cs) then None
         else fmlookup (fold (\<lambda>b m. fmdrop (reference b) m) (csd_blocks (cs_commit cs)) m) r)"
      "css1 \<noteq> [] \<longrightarrow> cs_pending_blocks (hd css1) \<noteq> fmempty \<or> cs_pending_transactions (hd css1) \<noteq> fmempty" by blast
    have "\<forall>r. fmlookup m1 r = (if r \<in> (\<Union>cs\<in>set (cs # ds). cs_refs cs) then None else fmlookup m r)"
      using d(3) unfolding drop_refs_lookup by simp
    then show ?thesis using d(1,2,4) unfolding e by (intro exI[of _ "cs # ds"]) simp
  qed
qed simp

lemma commits_ok_append: "commits_ok c (xs @ ys) \<Longrightarrow> commits_ok c ys"
proof -
  assume a: "commits_ok c (xs @ ys)"
  have "cs_index (ys ! i) = cs_index (ys ! 0) + i" if "i < length ys" for i
    using commits_ok_index[OF a, of "length xs + i"] commits_ok_index[OF a, of "length xs"] that by (cases ys) (auto simp: nth_append)
  then show ?thesis using a unfolding commits_ok_def sorted_wrt_append by simp
qed

text \<open>Blocks of popped commits are no children of blocks that stay.\<close>

lemma blocks_ok_pop:
  assumes "commits_ok c (xs @ ys)" and "blocks_ok c (xs @ ys) m"
    and "\<forall>r. fmlookup m' r = (if r \<in> (\<Union>cs\<in>set xs. cs_refs cs) then None else fmlookup m r)"
  shows "blocks_ok c ys m'"
proof -
  let ?X = "\<Union>cs\<in>set xs. cs_refs cs" and ?Y = "\<Union>cs\<in>set ys. cs_refs cs"
  obtain ix where i: "blocks_inv c (?X \<union> ?Y) ix m" and ix: "\<forall>cs\<in>set (xs @ ys). \<forall>r\<in>cs_refs cs. ix r = cs_index cs"
    using assms(2) unfolding blocks_ok_def by auto
  have disj: "?X \<inter> ?Y = {}" using assms(1) unfolding commits_ok_def sorted_wrt_append by blast
  have lt: "ix x < ix y" if x: "x \<in> ?X" and y: "y \<in> ?Y" for x y
  proof -
    obtain a b where ab: "a \<in> set xs" "x \<in> cs_refs a" "b \<in> set ys" "y \<in> cs_refs b" using x y by blast
    then have "ix x = cs_index a" "ix y = cs_index b" using ix by auto
    moreover obtain j k where "j < length xs" "a = xs ! j" "k < length ys" "b = ys ! k" using ab by (metis in_set_conv_nth)
    ultimately show ?thesis
      using commits_ok_index[OF assms(1), of j] commits_ok_index[OF assms(1), of "length xs + k"] by (simp add: nth_append)
  qed
  have "\<forall>r. fmlookup m' r \<noteq> None \<longleftrightarrow> r \<in> ?Y" using i assms(3) disj unfolding blocks_inv_def by auto
  moreover have "reference (bs_block bs) = r \<and> block_valid c (bs_block bs) \<and> bs_commit_index bs = ix r \<and>
        (\<forall>x. x |\<in>| bs_children bs \<longrightarrow> x \<in> ?Y \<and> ix r \<le> ix x)" if l: "fmlookup m' r = Some bs" for r bs
  proof -
    have r: "r \<notin> ?X" "fmlookup m r = Some bs" using l assms(3) by (auto split: if_splits)
    then have b: "reference (bs_block bs) = r \<and> block_valid c (bs_block bs) \<and> bs_commit_index bs = ix r \<and>
        (\<forall>x. x |\<in>| bs_children bs \<longrightarrow> x \<in> ?X \<union> ?Y \<and> ix r \<le> ix x)" "r \<in> ?Y" using i unfolding blocks_inv_def by blast+
    then show ?thesis using lt[OF _ b(2)] by (meson Un_iff leD)
  qed
  ultimately have "blocks_inv c ?Y ix m'" unfolding blocks_inv_def by blast
  then show ?thesis using ix unfolding blocks_ok_def by auto
qed


lemma young_all:
  assumes "commits_ok c css" and "css \<noteq> []" and "young l (css ! 0)"
  shows "\<forall>cs\<in>set css. young l cs"
proof
  fix cs assume "cs \<in> set css"
  then obtain i where "i < length css" "cs = css ! i" by (metis in_set_conv_nth)
  then show "young l cs" using commits_ok_leader_mono[OF assms(1), of 0 i] assms(3) by (simp add: young_def)
qed

abbreviation commit_refs :: "commit_state list \<Rightarrow> commit_ref list" where
  "commit_refs css \<equiv> map (\<lambda>cs. csd_commit_ref (cs_commit cs)) css"

lemma same_commits_refs: "same_commits css css' \<Longrightarrow> commit_refs css' = commit_refs css"
proof -
  assume "same_commits css css'"
  then have "map csd_commit_ref (map cs_commit css') = map csd_commit_ref (map cs_commit css)" by (simp only: same_commits_def)
  then show ?thesis by (simp add: comp_def)
qed

definition finalizer_inv :: "committee \<Rightarrow> commit_finalizer \<Rightarrow> bool" where
  "finalizer_inv c cf \<longleftrightarrow> cf_committee cf = c \<and> commits_ok c (cf_pending_commits cf) \<and> blocks_ok c (cf_pending_commits cf) (cf_blocks cf)"

lemma buffer_ok_iff: "buffer_ok c vt cf \<longleftrightarrow> finalizer_inv c cf \<and> cf_pending_commits cf \<noteq> [] \<and> votes_known vt (cf_pending_commits cf)"
  by (auto simp: buffer_ok_def direct_inv_def finalizer_inv_def)

text \<open>What popping the finalized prefix leaves.\<close>

lemma pop_spec:
  assumes "finalizer_inv c cf"
  obtains css m out where "pop_finalized_commits cf = (cf\<lparr>cf_pending_commits := css, cf_blocks := m\<rparr>, out)"
    "finalizer_inv c (cf\<lparr>cf_pending_commits := css, cf_blocks := m\<rparr>)" "\<exists>popped. cf_pending_commits cf = popped @ css"
    "map csd_commit_ref out @ commit_refs css = commit_refs (cf_pending_commits cf)"
    "css \<noteq> [] \<longrightarrow> cs_pending_blocks (css ! 0) \<noteq> fmempty \<or> cs_pending_transactions (css ! 0) \<noteq> fmempty"
    "out = [] \<longleftrightarrow> css = cf_pending_commits cf"
proof -
  obtain css m out where p: "pop_loop (cf_pending_commits cf) (cf_blocks cf) = (css, m, out)" by (metis prod_cases3)
  from pop_loop_spec[OF p] obtain popped where d: "cf_pending_commits cf = popped @ css" "out = map finalized_commit popped"
    "\<forall>r. fmlookup m r = (if r \<in> (\<Union>cs\<in>set popped. cs_refs cs) then None else fmlookup (cf_blocks cf) r)"
    "css \<noteq> [] \<longrightarrow> cs_pending_blocks (hd css) \<noteq> fmempty \<or> cs_pending_transactions (hd css) \<noteq> fmempty" by blast
  have ok: "commits_ok c (popped @ css)" "blocks_ok c (popped @ css) (cf_blocks cf)" using assms d(1) by (simp_all add: finalizer_inv_def)
  have "finalizer_inv c (cf\<lparr>cf_pending_commits := css, cf_blocks := m\<rparr>)"
    using assms commits_ok_append[OF ok(1)] blocks_ok_pop[OF ok d(3)] by (simp add: finalizer_inv_def)
  then show ?thesis using d p by (intro that[of m css out]) (auto simp: pop_finalized_commits_def hd_conv_nth comp_def)
qed

definition old_processed :: "round \<Rightarrow> commit_state list \<Rightarrow> bool" where
  "old_processed l css \<longleftrightarrow> (\<forall>cs\<in>set css. cs_pending_blocks cs \<noteq> fmempty \<longrightarrow> young l cs)"

text \<open>One round of the loop: the first commit is tried and the finalized prefix popped.\<close>

lemma indirect_round:
  assumes inv: "finalizer_inv c cf" "votes_known vt (cf_pending_commits cf)" and op: "old_processed l (cf_pending_commits cf)"
    and lst: "cs_leader_round (last (cf_pending_commits cf)) = l" and ne: "cf_pending_commits cf \<noteq> []"
    and first: "cs_pending_blocks (cf_pending_commits cf ! 0) = fmempty"
  obtains cs' css m out where "try_indirect_finalize_first_commit ds vt cf = Some (update_first_commit cs' cf)"
    "pop_finalized_commits (update_first_commit cs' cf) = (cf\<lparr>cf_pending_commits := css, cf_blocks := m\<rparr>, out)"
    "finalizer_inv c (cf\<lparr>cf_pending_commits := css, cf_blocks := m\<rparr>)" "votes_known vt css" "old_processed l css"
    "css \<noteq> [] \<longrightarrow> cs_leader_round (last css) = l"
    "map csd_commit_ref out @ commit_refs css = commit_refs (cf_pending_commits cf)"
    "out = [] \<longrightarrow> (\<forall>cs\<in>set css. young l cs)"
proof -
  let ?css = "cf_pending_commits cf"
  have b: "buffer_ok c vt cf" using inv ne by (simp add: buffer_ok_iff)
  obtain cs' where t: "try_indirect_finalize_first_commit ds vt cf = Some (update_first_commit cs' cf)" "cs_same (?css ! 0) cs'"
    "\<not> young (cs_leader_round (last ?css)) (?css ! 0) \<longrightarrow> cs_pending_transactions cs' = fmempty"
    using try_indirect_spec[OF b first, of ds] by blast
  let ?cf = "update_first_commit cs' cf"
  have e: "cs_commit cs' = cs_commit (?css ! 0)" "cs_pending_blocks cs' = fmempty" using t(2) first by (simp_all add: cs_same_def)
  have u: "cf_pending_commits ?cf = ?css[0 := cs']" by (simp add: update_first_commit_def)
  have sc: "same_commits ?css (cf_pending_commits ?cf)" using same_commits_update[of 0 ?css cs'] ne e(1) u by simp
  have i: "finalizer_inv c ?cf" "votes_known vt (cf_pending_commits ?cf)" using buffer_ok_update[OF b t(2)] by (simp_all add: buffer_ok_iff)
  obtain css m out where pop: "pop_finalized_commits ?cf = (?cf\<lparr>cf_pending_commits := css, cf_blocks := m\<rparr>, out)"
    "finalizer_inv c (?cf\<lparr>cf_pending_commits := css, cf_blocks := m\<rparr>)" "\<exists>popped. cf_pending_commits ?cf = popped @ css"
    "map csd_commit_ref out @ commit_refs css = commit_refs (cf_pending_commits ?cf)"
    "css \<noteq> [] \<longrightarrow> cs_pending_blocks (css ! 0) \<noteq> fmempty \<or> cs_pending_transactions (css ! 0) \<noteq> fmempty"
    "out = [] \<longleftrightarrow> css = cf_pending_commits ?cf" by (rule pop_spec[OF i(1)])
  have cf2: "?cf\<lparr>cf_pending_commits := css, cf_blocks := m\<rparr> = cf\<lparr>cf_pending_commits := css, cf_blocks := m\<rparr>" by (simp add: update_first_commit_def)
  have sub: "set css \<subseteq> set (cf_pending_commits ?cf)" "css \<noteq> [] \<longrightarrow> last css = last (cf_pending_commits ?cf)" using pop(3) by auto
  have "old_processed l css"
    using op e(2) set_update_subset_insert[of ?css 0 cs'] sub(1) unfolding old_processed_def u by auto
  moreover have "css \<noteq> [] \<longrightarrow> cs_leader_round (last css) = l" using sub(2) same_commits_last[OF sc ne] lst by simp
  moreover have "votes_known vt css" using i(2) sub(1) by blast
  moreover have "\<forall>cs\<in>set css. young l cs" if "out = []"
  proof -
    have css: "css ! 0 = cs'" "css \<noteq> []" using that pop(6) u ne by auto
    then have "young l cs'" using pop(5) t(3) lst e by (auto simp: young_def)
    moreover have "commits_ok c css" using pop(2) by (simp add: finalizer_inv_def)
    ultimately show ?thesis using young_all css by blast
  qed
  ultimately show ?thesis using t(1) pop(1,2,4) same_commits_refs[OF sc] unfolding cf2 by (intro that) auto
qed

lemma indirect_loop_spec:
  assumes "finalizer_inv c cf" and "votes_known vt (cf_pending_commits cf)" and "old_processed l (cf_pending_commits cf)"
    and "cf_pending_commits cf \<noteq> [] \<longrightarrow> cs_leader_round (last (cf_pending_commits cf)) = l"
  shows "\<exists>css m out. indirect_loop ds vt cf = Some (cf\<lparr>cf_pending_commits := css, cf_blocks := m\<rparr>, out) \<and>
    finalizer_inv c (cf\<lparr>cf_pending_commits := css, cf_blocks := m\<rparr>) \<and>
    map csd_commit_ref out @ commit_refs css = commit_refs (cf_pending_commits cf) \<and> (\<forall>cs\<in>set css. young l cs)"
  using assms
proof (induction ds vt cf rule: indirect_loop.induct)
  case (1 ds vt cf)
  let ?css = "cf_pending_commits cf"
  show ?case
  proof (cases "length ?css \<le> 1 \<or> cs_pending_blocks (?css ! 0) \<noteq> fmempty")
    case True
    have "young l (?css ! 0)" if "?css \<noteq> []"
    proof (cases "length ?css \<le> 1")
      case True
      with that have "last ?css = ?css ! 0" by (simp add: last_conv_nth)
      then show ?thesis using 1(5) that by (simp add: young_def INDIRECT_REJECT_DEPTH_def)
    next
      case False
      with True that 1(4) show ?thesis by (simp add: old_processed_def)
    qed
    then have "\<forall>cs\<in>set ?css. young l cs" using young_all[of c ?css l] 1(2) by (cases "?css = []") (auto simp: finalizer_inv_def)
    then show ?thesis using True 1(2) by (intro exI[of _ ?css] exI[of _ "cf_blocks cf"]) (simp add: indirect_loop.simps[of ds vt cf])
  next
    case False
    then have ne: "?css \<noteq> []" "cs_pending_blocks (?css ! 0) = fmempty" "cs_leader_round (last ?css) = l" using 1(5) by auto
    obtain cs' css m out where r: "try_indirect_finalize_first_commit ds vt cf = Some (update_first_commit cs' cf)"
      "pop_finalized_commits (update_first_commit cs' cf) = (cf\<lparr>cf_pending_commits := css, cf_blocks := m\<rparr>, out)"
      "finalizer_inv c (cf\<lparr>cf_pending_commits := css, cf_blocks := m\<rparr>)" "votes_known vt css" "old_processed l css"
      "css \<noteq> [] \<longrightarrow> cs_leader_round (last css) = l" "map csd_commit_ref out @ commit_refs css = commit_refs ?css"
      "out = [] \<longrightarrow> (\<forall>cs\<in>set css. young l cs)"
      by (rule indirect_round[OF 1(2-4) ne(3,1,2)])
    show ?thesis
    proof (cases "out = []")
      case True
      then show ?thesis using r False
        by (intro exI[of _ css] exI[of _ m] exI[of _ "[]"]) (simp add: indirect_loop.simps[of ds vt cf])
    next
      case more: False
      let ?cf2 = "cf\<lparr>cf_pending_commits := css, cf_blocks := m\<rparr>"
      from 1(1)[OF False r(1) refl] more r(2-6) obtain css' m' out' where
        s: "indirect_loop ds vt ?cf2 = Some (cf\<lparr>cf_pending_commits := css', cf_blocks := m'\<rparr>, out')"
        "finalizer_inv c (cf\<lparr>cf_pending_commits := css', cf_blocks := m'\<rparr>)"
        "map csd_commit_ref out' @ commit_refs css' = commit_refs css" "\<forall>cs\<in>set css'. young l cs" by auto
      show ?thesis using s r(1,2,7) False more
        by (intro exI[of _ css'] exI[of _ m'] exI[of _ "out @ out'"]) (simp add: indirect_loop.simps[of ds vt cf])
    qed
  qed
qed


subsection \<open>Processing a commit\<close>

lemma commits_ok_prefix: "commits_ok c (xs @ ys) \<Longrightarrow> commits_ok c xs"
proof -
  assume a: "commits_ok c (xs @ ys)"
  have "cs_index (xs ! i) = cs_index (xs ! 0) + i" if "i < length xs" for i
  proof -
    have "(xs @ ys) ! i = xs ! i" "(xs @ ys) ! 0 = xs ! 0" using that by (simp_all add: nth_append) (cases xs, auto)
    then show ?thesis using commits_ok_index[OF a, of i] that by simp
  qed
  then show ?thesis using a unfolding commits_ok_def sorted_wrt_append by simp
qed

lemma link_last_commit:
  assumes ok: "commits_ok c (ys @ [z])" and m: "blocks_ok c ys m" and cf: "cf_pending_commits cf = ys @ [z]" "cf_blocks cf = m"
  shows "\<exists>m'. Option.bind (link_blocks_in_last_commit cf) append_origin_descendants_from_last_commit = Some (cf\<lparr>cf_blocks := m'\<rparr>) \<and>
    blocks_ok c (ys @ [z]) m'"
proof -
  let ?D = "\<Union>cs\<in>set ys. cs_refs cs" and ?bs = "sort_key vb_round (csd_blocks (cs_commit z))"
  obtain ix where i: "blocks_inv c ?D ix m" and ix: "\<forall>cs\<in>set ys. \<forall>r\<in>cs_refs cs. ix r = cs_index cs"
    using m unfolding blocks_ok_def by blast
  define jx where "jx = (\<lambda>r. if r \<in> cs_refs z then cs_index z else ix r)"
  have "\<forall>x\<in>set ys. cs_refs x \<inter> cs_refs z = {}" using ok unfolding commits_ok_def sorted_wrt_append by simp
  then have disj: "r \<notin> cs_refs z" if "r \<in> ?D" for r using that by blast
  have "jx r = cs_index cs" if "cs \<in> set (ys @ [z])" "r \<in> cs_refs cs" for cs r
  proof (cases "cs = z")
    case False
    then have "r \<in> ?D" "ix r = cs_index cs" using that ix by auto
    then show ?thesis using disj by (simp add: jx_def)
  qed (use that in \<open>simp add: jx_def\<close>)
  then have jx: "\<forall>cs\<in>set (ys @ [z]). \<forall>r\<in>cs_refs cs. jx r = cs_index cs" by blast
  have "jx r \<le> cs_index z" if r: "r \<in> ?D" for r
  proof -
    obtain a where a: "a \<in> set ys" "r \<in> cs_refs a" using r by blast
    then have "jx r = cs_index a" using jx by auto
    moreover obtain j where "j < length ys" "a = ys ! j" using a(1) by (metis in_set_conv_nth)
    ultimately show ?thesis using commits_ok_index[OF ok, of j] commits_ok_index[OF ok, of "length ys"] by (simp add: nth_append)
  qed
  then have le: "\<forall>r\<in>?D. jx r \<le> cs_index z" by blast
  have v: "commit_valid c (cs_commit z)" using ok by (simp add: commits_ok_def cs_ok_def)
  have d: "distinct (map reference ?bs)" using v by (simp add: commit_valid_def distinct_map)
  have "\<forall>b\<in>set ?bs. reference b \<notin> ?D \<and> jx (reference b) = cs_index z \<and> block_valid c b"
    using v disj by (auto simp: jx_def commit_valid_def)
  from link_blocks_inv[OF blocks_inv_cong[OF i, of jx] d this le] disj
  have l: "blocks_inv c (cs_refs z \<union> ?D) jx (fold (link_block (cs_index z)) ?bs m)" by (auto simp: jx_def)
  obtain m' where m': "foldM (\<lambda>b m. do {
         bs \<leftarrow> fmlookup m (reference b);
         first \<leftarrow> vec_get (vb_ancestors (bs_block bs)) 0;
         append_origin (reference b) first m
       }) ?bs (fold (link_block (cs_index z)) ?bs m) = Some m'" "same_links (fold (link_block (cs_index z)) ?bs m) m'"
    using append_origins_links[OF l, of ?bs] by auto
  have "(\<Union>cs\<in>set (ys @ [z]). cs_refs cs) = cs_refs z \<union> ?D" by auto
  then have "blocks_ok c (ys @ [z]) m'" unfolding blocks_ok_def using blocks_inv_links[OF l m'(2)] jx by auto
  then show ?thesis using cf m'(1)
    by (intro exI[of _ m']) (simp add: link_blocks_in_last_commit_def append_origin_descendants_from_last_commit_def last_opt_def)
qed

text \<open>Popping before the last commit is linked.\<close>

lemma pop_unlinked:
  assumes ok: "commits_ok c (ys @ [z])" and m: "blocks_ok c ys m" and cf: "cf_pending_commits cf = ys @ [z]" "cf_blocks cf = m"
  obtains css m' out where "pop_finalized_commits cf = (cf\<lparr>cf_pending_commits := css, cf_blocks := m'\<rparr>, out)"
    "map csd_commit_ref out @ commit_refs css = commit_refs (ys @ [z])"
    "css = [] \<and> blocks_ok c [] m' \<or> (\<exists>xs. css = xs @ [z] \<and> set xs \<subseteq> set ys \<and> commits_ok c css \<and> blocks_ok c xs m')"
proof -
  obtain css m' out where p: "pop_loop (ys @ [z]) m = (css, m', out)" by (metis prod_cases3)
  from pop_loop_spec[OF p] obtain popped where d: "ys @ [z] = popped @ css" "out = map finalized_commit popped"
    "\<forall>r. fmlookup m' r = (if r \<in> (\<Union>cs\<in>set popped. cs_refs cs) then None else fmlookup m r)" by blast
  have "css = [] \<and> blocks_ok c [] m' \<or> (\<exists>xs. css = xs @ [z] \<and> set xs \<subseteq> set ys \<and> commits_ok c css \<and> blocks_ok c xs m')"
  proof (cases "css = []")
    case True
    obtain ix where i: "blocks_inv c (\<Union>cs\<in>set ys. cs_refs cs) ix m" using m unfolding blocks_ok_def by blast
    have po: "set popped = insert z (set ys)" using d(1) True by (metis append_Nil2 list.set(2) rotate1.simps(2) set_rotate1)
    have "fmlookup m' r = None" for r
    proof (cases "r \<in> (\<Union>cs\<in>set ys. cs_refs cs)")
      case False
      then have "fmlookup m r = None" using i unfolding blocks_inv_def by blast
      then show ?thesis using d(3) by simp
    qed (use d(3) po in auto)
    then show ?thesis using True by (simp add: blocks_ok_def blocks_inv_def)
  next
    case False
    then obtain xs where xs: "css = xs @ [z]" "ys = popped @ xs" using d(1) by (metis append_butlast_last_id append_assoc butlast_snoc last_snoc last_appendR)
    have "commits_ok c (popped @ xs)" using ok commits_ok_prefix[of c ys "[z]"] xs(2) by simp
    then have "blocks_ok c xs m'" using blocks_ok_pop[OF _ _ d(3)] m xs(2) by simp
    moreover have "commits_ok c css" using commits_ok_append[of c popped css] ok d(1) by simp
    ultimately show ?thesis using xs by auto
  qed
  moreover have "pop_finalized_commits cf = (cf\<lparr>cf_pending_commits := css, cf_blocks := m'\<rparr>, out)" using p cf by (simp add: pop_finalized_commits_def)
  moreover have "map csd_commit_ref out @ commit_refs css = commit_refs (ys @ [z])" unfolding d(1) using d(2) by (simp add: comp_def)
  ultimately show ?thesis using that by blast
qed


lemma commit_state_new_ok:
  assumes "commit_valid c sd"
  obtains cs where "commit_state_new sd = Some cs" "cs_commit cs = sd" "cs_ok c cs"
proof -
  let ?l = "rev (map (\<lambda>b. (reference b, length (block_transactions (sb_inner (vb_block b))))) (csd_blocks sd))"
  have d: "fset (fmdom (fmap_of_list ?l)) = csd_refs sd" by (auto simp: fmdom_fmap_of_list fset_of_list_elem image_image)
  moreover have "csd_refs sd \<noteq> {}" using assms by (simp add: commit_valid_def)
  ultimately have "fmap_of_list ?l \<noteq> fmempty" by (metis fmdom_empty bot_fset.rep_eq)
  then show ?thesis using that d assms by (simp add: commit_state_new_def cs_ok_def Let_def)
qed

lemma commits_ok_snoc:
  assumes "commits_ok c css" and "cs_ok c cs" and "\<forall>x\<in>set css. cs_leader_round x < cs_leader_round cs \<and> cs_refs x \<inter> cs_refs cs = {}"
    and "css \<noteq> [] \<longrightarrow> cs_index cs = cs_index (last css) + 1"
  shows "commits_ok c (css @ [cs])"
proof -
  have "cs_index ((css @ [cs]) ! i) = cs_index ((css @ [cs]) ! 0) + i" if "i < length (css @ [cs])" for i
  proof (cases "i = length css")
    case True
    show ?thesis
    proof (cases "css = []")
      case False
      then have "cs_index (last css) = cs_index (css ! 0) + (length css - 1)"
        using commits_ok_index[OF assms(1), of "length css - 1"] by (simp add: last_conv_nth[OF False])
      then show ?thesis using True False assms(4) by (simp add: nth_append)
    qed (use True in simp)
  next
    case False
    then have "i < length css" "0 < length css" using that by auto
    then show ?thesis using commits_ok_index[OF assms(1), of i] by (simp add: nth_append)
  qed
  moreover have "sorted_wrt (\<lambda>a b. cs_leader_round a < cs_leader_round b \<and> cs_refs a \<inter> cs_refs b = {}) (css @ [cs])"
    using assms(1,3) unfolding commits_ok_def sorted_wrt_append by simp
  moreover have "\<forall>x\<in>set (css @ [cs]). cs_ok c x" using assms(1,2) unfolding commits_ok_def by simp
  ultimately show ?thesis unfolding commits_ok_def by blast
qed

text \<open>
  What the finalizer is fed: commits with consecutive indices and growing leader rounds over new blocks, while the
  vote tracker still knows the blocks of the buffered commits.
\<close>

definition next_commit_ok :: "vote_tracker_state \<Rightarrow> commit_finalizer \<Rightarrow> committed_sub_dag \<Rightarrow> bool" where
  "next_commit_ok vt cf sd \<longleftrightarrow> commit_valid (cf_committee cf) sd \<and>
     (case cf_last_processed_commit cf of Some i \<Rightarrow> cr_index (csd_commit_ref sd) = i + 1 | None \<Rightarrow> True) \<and>
     (\<forall>cs\<in>set (cf_pending_commits cf). cs_leader_round cs < br_round (csd_leader sd) \<and> cs_refs cs \<inter> csd_refs sd = {}) \<and>
     votes_known vt (cf_pending_commits cf) \<and> (\<forall>b\<in>set (csd_blocks sd). get_reject_votes (reference b) vt \<noteq> None)"

definition last_inv :: "commit_finalizer \<Rightarrow> bool" where
  "last_inv cf \<longleftrightarrow> (cf_pending_commits cf \<noteq> [] \<longrightarrow> cf_last_processed_commit cf = Some (cs_index (last (cf_pending_commits cf))))"

lemma process_tail:
  assumes c: "cf_committee cf = c" and ok: "commits_ok c (ys @ [z])" "votes_known vt (ys @ [z])" "blocks_ok c ys (cf_blocks cf)"
    and cf: "cf_pending_commits cf = ys @ [z]" and op: "old_processed (cs_leader_round z) (ys @ [z])"
  shows "\<exists>css m out. (let (cf, direct) = pop_finalized_commits cf in
     if cf_pending_commits cf = [] then Some (cf, direct)
     else do {
       cf \<leftarrow> link_blocks_in_last_commit cf;
       cf \<leftarrow> append_origin_descendants_from_last_commit cf;
       (cf, indirect) \<leftarrow> indirect_loop ds vt cf;
       Some (cf, direct @ indirect)
     }) = Some (cf\<lparr>cf_pending_commits := css, cf_blocks := m\<rparr>, out) \<and>
    finalizer_inv c (cf\<lparr>cf_pending_commits := css, cf_blocks := m\<rparr>) \<and>
    map csd_commit_ref out @ commit_refs css = commit_refs (ys @ [z]) \<and> (\<forall>cs\<in>set css. young (cs_leader_round z) cs)"
proof -
  obtain css m out where pop: "pop_finalized_commits cf = (cf\<lparr>cf_pending_commits := css, cf_blocks := m\<rparr>, out)"
    "map csd_commit_ref out @ commit_refs css = commit_refs (ys @ [z])"
    "css = [] \<and> blocks_ok c [] m \<or> (\<exists>xs. css = xs @ [z] \<and> set xs \<subseteq> set ys \<and> commits_ok c css \<and> blocks_ok c xs m)"
    by (rule pop_unlinked[OF ok(1,3) cf refl])
  let ?cf = "cf\<lparr>cf_pending_commits := css, cf_blocks := m\<rparr>"
  from pop(3) show ?thesis
  proof (elim disjE exE conjE)
    assume e: "css = []" "blocks_ok c [] m"
    then have "finalizer_inv c ?cf" using c by (simp add: finalizer_inv_def commits_ok_def)
    then show ?thesis using pop(1,2) e(1) by (intro exI[of _ css] exI[of _ m] exI[of _ out]) simp
  next
    fix xs assume xs: "css = xs @ [z]" "set xs \<subseteq> set ys" "commits_ok c css" "blocks_ok c xs m"
    obtain m1 where l: "Option.bind (link_blocks_in_last_commit ?cf) append_origin_descendants_from_last_commit = Some (?cf\<lparr>cf_blocks := m1\<rparr>)"
      "blocks_ok c css m1" using link_last_commit[of c xs z m ?cf] xs by auto
    let ?cf1 = "?cf\<lparr>cf_blocks := m1\<rparr>"
    have i: "finalizer_inv c ?cf1" using c xs(3) l(2) by (simp add: finalizer_inv_def)
    have v: "votes_known vt (cf_pending_commits ?cf1)" using ok(2) xs(1,2) by auto
    have o: "old_processed (cs_leader_round z) (cf_pending_commits ?cf1)" using op xs(1,2) by (auto simp: old_processed_def)
    obtain css2 m2 out2 where r: "indirect_loop ds vt ?cf1 = Some (?cf1\<lparr>cf_pending_commits := css2, cf_blocks := m2\<rparr>, out2)"
      "finalizer_inv c (?cf1\<lparr>cf_pending_commits := css2, cf_blocks := m2\<rparr>)"
      "map csd_commit_ref out2 @ commit_refs css2 = commit_refs (cf_pending_commits ?cf1)" "\<forall>cs\<in>set css2. young (cs_leader_round z) cs"
      using indirect_loop_spec[OF i v o, of ds] xs(1) by auto
    have "Option.bind (link_blocks_in_last_commit ?cf) (\<lambda>cf. Option.bind (append_origin_descendants_from_last_commit cf)
        (\<lambda>cf. Option.bind (indirect_loop ds vt cf) (\<lambda>(cf, indirect). Some (cf, out @ indirect))))
      = Some (cf\<lparr>cf_pending_commits := css2, cf_blocks := m2\<rparr>, out @ out2)"
      using l(1) r(1) by (auto simp: bind_Some_iff)
    then show ?thesis using pop(1,2) xs(1) r(2-4)
      by (intro exI[of _ css2] exI[of _ m2] exI[of _ "out @ out2"]) simp
  qed
qed

lemma process_commit_spec:
  assumes inv: "finalizer_inv c cf" "last_inv cf" and nxt: "next_commit_ok vt cf sd"
  shows "\<exists>cf' out. process_commit ds vt sd cf = Some (cf', out) \<and> finalizer_inv c cf' \<and> last_inv cf' \<and>
    cf_context cf' = cf_context cf \<and> map csd_commit_ref out @ commit_refs (cf_pending_commits cf') = commit_refs (cf_pending_commits cf) @ [csd_commit_ref sd] \<and>
    (\<forall>cs\<in>set (cf_pending_commits cf'). young (br_round (csd_leader sd)) cs)"
proof -
  let ?p = "cf_pending_commits cf"
  have i: "cf_committee cf = c" "commits_ok c ?p" "blocks_ok c ?p (cf_blocks cf)" using inv(1) by (simp_all add: finalizer_inv_def)
  have n: "commit_valid c sd" "\<forall>cs\<in>set ?p. cs_leader_round cs < br_round (csd_leader sd) \<and> cs_refs cs \<inter> csd_refs sd = {}"
    "votes_known vt ?p" "\<forall>b\<in>set (csd_blocks sd). get_reject_votes (reference b) vt \<noteq> None"
    using nxt i(1) by (simp_all add: next_commit_ok_def)
  obtain cs where cs: "commit_state_new sd = Some cs" "cs_commit cs = sd" "cs_ok c cs" using commit_state_new_ok[OF n(1)] .
  let ?cf = "cf\<lparr>cf_last_processed_commit := Some (cr_index (csd_commit_ref sd)), cf_pending_commits := ?p @ [cs]\<rparr>"
  have "?p \<noteq> [] \<longrightarrow> cs_index cs = cs_index (last ?p) + 1" using inv(2) nxt cs(2) by (auto simp: last_inv_def next_commit_ok_def)
  then have "commits_ok c (?p @ [cs])" using commits_ok_snoc[OF i(2) cs(3)] n(2) cs(2) by simp
  then have d: "direct_inv c vt ?cf" using i(1) n(3,4) cs(2) by (auto simp: direct_inv_def)
  obtain css where l: "direct_loop ds vt [0..<length (?p @ [cs])] ?cf = Some (?cf\<lparr>cf_pending_commits := css\<rparr>)" "same_commits (?p @ [cs]) css"
    "direct_inv c vt (?cf\<lparr>cf_pending_commits := css\<rparr>)" "old_processed (cs_leader_round (last css)) css"
    using direct_loop_spec[OF d, of 0 ds] by (auto simp: old_processed_def)
  from l(2) have "map cs_commit css = map cs_commit ?p @ [sd]" using cs(2) by (simp add: same_commits_def)
  then obtain ys z where css: "css = ys @ [z]" "same_commits ?p ys" "cs_commit z = sd" by (auto simp: same_commits_def map_eq_append_conv)
  let ?cf1 = "?cf\<lparr>cf_pending_commits := css\<rparr>"
  have t: "cf_committee ?cf1 = c" "commits_ok c (ys @ [z])" "votes_known vt (ys @ [z])" "old_processed (cs_leader_round z) (ys @ [z])"
    using l(3,4) css(1) by (simp_all add: direct_inv_def)
  have b: "blocks_ok c ys (cf_blocks ?cf1)" using blocks_ok_same[OF i(3) css(2)] by simp
  have chk: "(case cf_last_processed_commit cf of Some i \<Rightarrow> assert_that (i + 1 = cr_index (csd_commit_ref sd)) | None \<Rightarrow> Some ()) = Some ()"
    using nxt by (auto simp: next_commit_ok_def split: option.splits)
  obtain css' m out where r: "process_commit ds vt sd cf = Some (?cf1\<lparr>cf_pending_commits := css', cf_blocks := m\<rparr>, out)"
    "finalizer_inv c (?cf1\<lparr>cf_pending_commits := css', cf_blocks := m\<rparr>)"
    "map csd_commit_ref out @ commit_refs css' = commit_refs (ys @ [z])" "\<forall>cs\<in>set css'. young (cs_leader_round z) cs"
    using process_tail[OF t(1-3) b _ t(4), of ds] css(1) l(1) cs(1) chk by (auto simp: process_commit_def Let_def)
  have refs: "commit_refs (ys @ [z]) = commit_refs ?p @ [csd_commit_ref sd]" using same_commits_refs[OF css(2)] css(3) by simp
  then have "css' \<noteq> [] \<Longrightarrow> csd_commit_ref (cs_commit (last css')) = csd_commit_ref sd"
    using r(3) by (metis (no_types, lifting) last_appendR last_map last_snoc map_is_Nil_conv)
  then have "last_inv (?cf1\<lparr>cf_pending_commits := css', cf_blocks := m\<rparr>)" by (simp add: last_inv_def)
  then show ?thesis using r refs css(3) by auto
qed


text \<open>The runs of a finalizer: the commits processed so far, its state, and the commits it sent.\<close>

inductive finalizes :: "consensus_context \<Rightarrow> committed_sub_dag list \<Rightarrow> commit_finalizer \<Rightarrow> committed_sub_dag list \<Rightarrow> bool" where
  start: "finalizes ctx [] (commit_finalizer_new ctx) []"
| process: "finalizes ctx fed cf sent \<Longrightarrow> next_commit_ok vt cf sd \<Longrightarrow> process_commit ds vt sd cf = Some (cf', out) \<Longrightarrow>
    finalizes ctx (fed @ [sd]) cf' (sent @ out)"

lemma finalizer_new_inv: "finalizer_inv (cx_committee ctx) (commit_finalizer_new ctx)" "last_inv (commit_finalizer_new ctx)"
  by (simp_all add: finalizer_inv_def commit_finalizer_new_def commits_ok_def blocks_ok_def blocks_inv_def last_inv_def)

lemma finalizes_inv:
  assumes "finalizes ctx fed cf sent"
  shows "finalizer_inv (cx_committee ctx) cf \<and> last_inv cf \<and> map csd_commit_ref sent @ commit_refs (cf_pending_commits cf) = map csd_commit_ref fed"
  using assms
proof induction
  case (start ctx)
  then show ?case using finalizer_new_inv[of ctx] by (simp add: commit_finalizer_new_def)
next
  case (process ctx fed cf sent vt sd ds cf' out)
  then show ?case using process_commit_spec[of "cx_committee ctx" cf vt sd ds] by auto
qed

text \<open>
  C5. The finalizer never panics and never stalls: after any run, processing the next commit in order returns, with all
  its loops ending and every assertion and \<^verbatim>\<open>unwrap\<close> holding, provided the vote tracker knows the blocks of the buffered commits.
  The commits sent so far followed by those still buffered are exactly the commits received, in their order,
  and a commit is buffered only while its leader is less than \<open>INDIRECT_REJECT_DEPTH\<close> rounds below the leader of the last one.
\<close>

theorem process_commit_progress:
  assumes "finalizes ctx fed cf sent" and "next_commit_ok vt cf sd"
  shows "\<exists>cf' out. process_commit ds vt sd cf = Some (cf', out) \<and>
    map csd_commit_ref (sent @ out) @ map (\<lambda>cs. csd_commit_ref (cs_commit cs)) (cf_pending_commits cf') = map csd_commit_ref (fed @ [sd]) \<and>
    (\<forall>cs\<in>set (cf_pending_commits cf'). br_round (csd_leader sd) < br_round (csd_leader (cs_commit cs)) + INDIRECT_REJECT_DEPTH)"
  using process_commit_spec[of "cx_committee ctx" cf vt sd ds] finalizes_inv[OF assms(1)] assms(2) by (auto simp: young_def)

definition sample_buffered :: committed_sub_dag where
  "sample_buffered = committed_sub_dag_new sample_target [sample_vb 4 0 0 0 [BlockRef 3 0 0]] 0 (\<lparr>cr_index = 1, cr_digest = 0\<rparr>)"

definition sample_votes :: vote_tracker_state where
  "sample_votes = the (foldM vote_step sample_events (vts_new sample_context))"

theorem process_commit_progress_witness:
  "finalizes sample_context [] (commit_finalizer_new sample_context) [] \<and>
   next_commit_ok sample_votes (commit_finalizer_new sample_context) sample_buffered \<and>
   (\<exists>cf' out. process_commit sample_dag sample_votes sample_buffered (commit_finalizer_new sample_context) = Some (cf', out) \<and>
    map csd_commit_ref out @ map (\<lambda>cs. csd_commit_ref (cs_commit cs)) (cf_pending_commits cf') = [\<lparr>cr_index = 1, cr_digest = 0\<rparr>])"
proof -
  have v: "get_reject_votes sample_target sample_votes = Some [(7, 2), (9, 1)]" by code_simp
  have "next_commit_ok sample_votes (commit_finalizer_new sample_context) sample_buffered"
    using v by (simp add: next_commit_ok_def commit_finalizer_new_def sample_buffered_def committed_sub_dag_new_def commit_valid_def
        block_valid_def sample_target_def[symmetric])
  moreover have "csd_commit_ref sample_buffered = \<lparr>cr_index = 1, cr_digest = 0\<rparr>" by (simp add: sample_buffered_def committed_sub_dag_new_def)
  ultimately show ?thesis
    using process_commit_progress[OF finalizes.start[of sample_context], of sample_votes sample_buffered sample_dag] finalizes.start[of sample_context] by auto
qed

end
