(* ===== verification/Causal_Link.thy ===== *)
theory Causal_Link
  imports Sample_Dag
begin

text \<open>
  The correctness of \<^verbatim>\<open>DagState::link_causal_history\<close> (\<^verbatim>\<open>consensus/core/src/dag_state.rs\<close>): the breadth-first loop over a queue of
  references terminates without a panic, and returns each block of the causal history that was not linked before exactly once.
\<close>

subsection \<open>Linked blocks\<close>

definition linked :: "dag_state \<Rightarrow> block_ref \<Rightarrow> bool" where
  "linked ds r \<longleftrightarrow> ds_has_been_included ds r = Some True"

lemma linked_iff: "linked ds r \<longleftrightarrow> (\<exists>bi. fmlookup (ds_recent_blocks ds) r = Some bi \<and> bi_included bi)"
  by (auto simp: linked_def ds_has_been_included_def)

text \<open>The links between blocks above the garbage collection round.\<close>

definition live_parent :: "dag_state \<Rightarrow> block_ref \<Rightarrow> block_ref \<Rightarrow> bool" where
  "live_parent ds x y \<longleftrightarrow> ds_parent ds x y \<and> ds_gc_round ds < br_round x \<and> ds_gc_round ds < br_round y"

definition linked_closed :: "dag_state \<Rightarrow> bool" where
  "linked_closed ds \<longleftrightarrow> (\<forall>x y. linked ds x \<and> live_parent ds x y \<longrightarrow> linked ds y)"

lemma same_cache_live: "ds_same_cache ds ds' \<Longrightarrow> live_parent ds' = live_parent ds"
  using ds_frame_sel(8)[of ds' ds] ds_same_cache_get[of ds ds'] by (simp add: fun_eq_iff live_parent_def ds_parent_def ds_same_cache_def)

lemma same_cache_complete: "ds_same_cache ds ds' \<Longrightarrow> ds_complete ds' = ds_complete ds"
  using ds_frame_sel(8)[of ds' ds] ds_same_cache_get[of ds ds'] by (simp add: ds_complete_def ds_parent_def ds_same_cache_def)

lemma live_cached:
  assumes "ds_inv ds" and "ds_gc_round ds < br_round r" and "ds_get_block ds r = Some b"
  shows "ds_cached ds r = Some b"
proof -
  have "br_round r \<noteq> GENESIS_ROUND" using assms(2) by (simp add: GENESIS_ROUND_def)
  then show ?thesis using assms ds_inv_stored[OF assms(1), of r b]
    by (auto simp: ds_get_block_eq ds_stored_ok_def split: option.splits)
qed

definition unlinked :: "dag_state \<Rightarrow> block_ref set" where
  "unlinked ds = {r. ds_cached ds r \<noteq> None \<and> \<not> linked ds r}"

lemma finite_unlinked: "finite (unlinked ds)"
proof (rule finite_subset)
  show "unlinked ds \<subseteq> fset (fmdom (ds_recent_blocks ds))" by (auto simp: unlinked_def ds_cached_def fmlookup_dom_iff)
qed simp

text \<open>Marking one block.\<close>

lemma mark_block:
  assumes "fmlookup (ds_recent_blocks ds) r = Some bi"
  defines "ds1 \<equiv> ds\<lparr>ds_recent_blocks := fmupd r (bi\<lparr>bi_included := True\<rparr>) (ds_recent_blocks ds)\<rparr>"
  shows "ds_same_cache ds ds1" and "linked ds1 x \<longleftrightarrow> linked ds x \<or> x = r" and "\<not> bi_included bi \<Longrightarrow> card (unlinked ds1) < card (unlinked ds)"
proof -
  show s: "ds_same_cache ds ds1" unfolding ds1_def by (rule ds_same_cache_upd[OF assms(1)]) simp
  have l: "linked ds1 x \<longleftrightarrow> linked ds x \<or> x = r" for x by (auto simp: linked_iff ds1_def)
  then show "linked ds1 x \<longleftrightarrow> linked ds x \<or> x = r" .
  assume n: "\<not> bi_included bi"
  have "unlinked ds1 = unlinked ds - {r}" using s l by (auto simp: unlinked_def ds_same_cache_def)
  moreover have "r \<in> unlinked ds" using assms(1) n by (simp add: unlinked_def ds_cached_def linked_iff)
  ultimately show "card (unlinked ds1) < card (unlinked ds)" using finite_unlinked card_Diff1_less by metis
qed

subsection \<open>The loop\<close>

definition link_result :: "dag_state \<Rightarrow> block_ref list \<Rightarrow> dag_state \<times> block_ref list \<Rightarrow> bool" where
  "link_result ds targets = (\<lambda>(ds', new). ds_same_cache ds ds' \<and> distinct new \<and> (\<forall>r. linked ds' r \<longleftrightarrow> linked ds r \<or> r \<in> set new) \<and>
     (\<forall>r\<in>set new. \<not> linked ds r \<and> (\<exists>t\<in>set targets. ds_gc_round ds < br_round t \<and> (live_parent ds)\<^sup>*\<^sup>* t r)) \<and>
     (\<forall>t\<in>set targets. ds_gc_round ds < br_round t \<longrightarrow> linked ds' t) \<and>
     (\<forall>x\<in>set new. \<forall>y. live_parent ds x y \<longrightarrow> linked ds' y))"

lemma link_result_skip:
  assumes "link_result ds rest (ds', new)" and "ds_gc_round ds < br_round r \<Longrightarrow> linked ds r"
  shows "link_result ds (r # rest) (ds', new)"
  using assms by (auto simp: link_result_def)

lemma link_result_step:
  assumes bi: "fmlookup (ds_recent_blocks ds) r = Some bi" "\<not> bi_included bi" and r: "ds_gc_round ds < br_round r" "ds_get_block ds r = Some (bi_block bi)"
    and ds1: "ds1 = ds\<lparr>ds_recent_blocks := fmupd r (bi\<lparr>bi_included := True\<rparr>) (ds_recent_blocks ds)\<rparr>"
    and res: "link_result ds1 (rest @ vb_ancestors (bi_block bi)) (ds', new)"
  shows "link_result ds (r # rest) (ds', r # new)"
proof -
  note m = mark_block(1,2)[OF bi(1), folded ds1]
  have live: "live_parent ds1 = live_parent ds" "ds_gc_round ds1 = ds_gc_round ds"
    using same_cache_live[OF m(1)] ds_frame_sel(8)[of ds1 ds] m(1) by (simp_all add: ds_same_cache_def)
  have R: "ds_same_cache ds1 ds'" "distinct new" "\<And>x. linked ds' x \<longleftrightarrow> linked ds x \<or> x = r \<or> x \<in> set new"
    "\<And>x. x \<in> set new \<Longrightarrow> \<not> linked ds x \<and> x \<noteq> r" "\<And>x. x \<in> set new \<Longrightarrow>
      \<exists>t\<in>set rest \<union> set (vb_ancestors (bi_block bi)). ds_gc_round ds < br_round t \<and> (live_parent ds)\<^sup>*\<^sup>* t x"
    "\<And>t. t \<in> set rest \<union> set (vb_ancestors (bi_block bi)) \<Longrightarrow> ds_gc_round ds < br_round t \<Longrightarrow> linked ds' t"
    "\<And>x y. x \<in> set new \<Longrightarrow> live_parent ds x y \<Longrightarrow> linked ds' y"
    using res unfolding link_result_def live prod.case by (auto simp: m(2))
  have lr: "live_parent ds r t" if "t \<in> set (vb_ancestors (bi_block bi))" "ds_gc_round ds < br_round t" for t
    using that r by (auto simp: live_parent_def ds_parent_def)
  have "\<exists>t\<in>set (r # rest). ds_gc_round ds < br_round t \<and> (live_parent ds)\<^sup>*\<^sup>* t x" if "x \<in> set (r # new)" for x
  proof (cases "x = r")
    case False
    then have "x \<in> set new" using that by simp
    from R(5)[OF this] obtain t where
      t: "t \<in> set rest \<union> set (vb_ancestors (bi_block bi))" "ds_gc_round ds < br_round t" "(live_parent ds)\<^sup>*\<^sup>* t x" by blast
    show ?thesis
    proof (cases "t \<in> set rest")
      case False
      then have "(live_parent ds)\<^sup>*\<^sup>* r x" using t lr[of t] by (meson UnE converse_rtranclp_into_rtranclp)
      then show ?thesis using r(1) by auto
    qed (use t in auto)
  qed (use r(1) in auto)
  moreover have "linked ds' y" if "x \<in> set (r # new)" "live_parent ds x y" for x y
  proof (cases "x = r")
    case True
    then have "y \<in> set (vb_ancestors (bi_block bi))" "ds_gc_round ds < br_round y" using that(2) r(2) by (auto simp: live_parent_def ds_parent_def)
    then show ?thesis using R(6) by blast
  qed (use that R(7) in auto)
  moreover have "\<not> linked ds r" using bi by (simp add: linked_iff)
  moreover have "r \<notin> set new" using R(4) by blast
  ultimately show ?thesis unfolding link_result_def prod.case using ds_same_cache_trans[OF m(1) R(1)] R(2-4,6) by simp
qed

lemma link_loop_spec:
  assumes "ds_inv ds" and "ds_complete ds" and "\<forall>t\<in>set targets. ds_gc_round ds < br_round t \<longrightarrow> ds_get_block ds t \<noteq> None"
  shows "\<exists>ds' new. link_loop (ds_gc_round ds) targets acc ds = Some (ds', acc @ new) \<and> link_result ds targets (ds', new)"
  using assms
proof (induction "card (unlinked ds)" arbitrary: ds targets acc rule: less_induct)
  case less
  from less.prems(3) show ?case
  proof (induction targets arbitrary: acc)
    case Nil
    then show ?case by (subst link_loop.simps) (auto simp: link_result_def)
  next
    case (Cons r rest)
    note inner = Cons.IH[of acc]
    consider "br_round r \<le> ds_gc_round ds" | bi where "ds_gc_round ds < br_round r" "fmlookup (ds_recent_blocks ds) r = Some bi"
      "ds_get_block ds r = Some (bi_block bi)"
      using Cons.prems live_cached[OF less.prems(1), of r] by (fastforce simp: ds_cached_def)
    then show ?case
    proof cases
      case 1
      have e: "link_loop (ds_gc_round ds) (r # rest) acc ds = link_loop (ds_gc_round ds) rest acc ds" using 1 by (subst link_loop.simps) simp
      obtain ds' new where "link_loop (ds_gc_round ds) rest acc ds = Some (ds', acc @ new)" "link_result ds rest (ds', new)"
        using inner Cons.prems by auto
      then show ?thesis using link_result_skip[of ds rest ds' new r] e 1 by fastforce
    next
      case 2
      show ?thesis
      proof (cases "bi_included bi")
        case True
        have e: "link_loop (ds_gc_round ds) (r # rest) acc ds = link_loop (ds_gc_round ds) rest acc ds" using 2 True by (subst link_loop.simps) simp
        obtain ds' new where "link_loop (ds_gc_round ds) rest acc ds = Some (ds', acc @ new)" "link_result ds rest (ds', new)"
          using inner Cons.prems by auto
        then show ?thesis using link_result_skip[of ds rest ds' new r] e 2 True by (auto simp: linked_iff)
      next
        case False
        define ds1 where "ds1 = ds\<lparr>ds_recent_blocks := fmupd r (bi\<lparr>bi_included := True\<rparr>) (ds_recent_blocks ds)\<rparr>"
        note m = mark_block(1,3)[OF 2(2), folded ds1_def]
        have g: "ds_gc_round ds1 = ds_gc_round ds" "ds_get_block ds1 = ds_get_block ds"
          using ds_frame_sel(8)[of ds1 ds] ds_same_cache_get[OF m(1)] m(1) by (simp_all add: ds_same_cache_def)
        have e: "link_loop (ds_gc_round ds) (r # rest) acc ds = link_loop (ds_gc_round ds) (rest @ vb_ancestors (bi_block bi)) (acc @ [r]) ds1"
          using 2 False by (subst link_loop.simps) (simp add: ds1_def)
        have "\<forall>t\<in>set (rest @ vb_ancestors (bi_block bi)). ds_gc_round ds1 < br_round t \<longrightarrow> ds_get_block ds1 t \<noteq> None"
          using Cons.prems ds_completeD(2)[OF less.prems(2) 2(3)] by (auto simp: g)
        from less.hyps[OF m(2)[OF False] ds_same_cache_inv[OF m(1) less.prems(1)] _ this, of "acc @ [r]"] same_cache_complete[OF m(1)] less.prems(2)
        obtain ds' new where "link_loop (ds_gc_round ds) (rest @ vb_ancestors (bi_block bi)) (acc @ [r]) ds1 = Some (ds', (acc @ [r]) @ new)"
          "link_result ds1 (rest @ vb_ancestors (bi_block bi)) (ds', new)" unfolding g by blast
        then show ?thesis using e link_result_step[OF 2(2) False 2(1,3) ds1_def] by fastforce
      qed
    qed
  qed
qed

subsection \<open>The causal history\<close>

lemma live_reach_iff:
  assumes "ds_complete ds" and "ds_gc_round ds < br_round y"
  shows "(live_parent ds)\<^sup>*\<^sup>* x y \<longleftrightarrow> (ds_parent ds)\<^sup>*\<^sup>* x y"
proof
  show "(live_parent ds)\<^sup>*\<^sup>* x y \<Longrightarrow> (ds_parent ds)\<^sup>*\<^sup>* x y"
    by (rule rtranclp_mono[THEN predicate2D]) (auto simp: live_parent_def)
  show "(ds_parent ds)\<^sup>*\<^sup>* x y \<Longrightarrow> (live_parent ds)\<^sup>*\<^sup>* x y"
  proof (induction rule: converse_rtranclp_induct)
    case (step x z)
    have "ds_gc_round ds < br_round z" if "(ds_parent ds)\<^sup>*\<^sup>* z y" for z
      using that assms(2) ds_parent_trancl_round[OF assms(1), of z y] by (metis less_trans rtranclpD)
    moreover have "(ds_parent ds)\<^sup>*\<^sup>* x y" using step by (meson converse_rtranclp_into_rtranclp)
    ultimately have "live_parent ds x z" using step(1,2) by (simp add: live_parent_def)
    then show ?case using step(3) by (rule converse_rtranclp_into_rtranclp)
  qed simp
qed

lemma link_result_closed:
  assumes "linked_closed ds" and "link_result ds targets (ds', new)"
  shows "linked_closed ds'"
proof -
  have s: "ds_same_cache ds ds'" "\<And>r. linked ds' r \<longleftrightarrow> linked ds r \<or> r \<in> set new" "\<And>x y. x \<in> set new \<Longrightarrow> live_parent ds x y \<Longrightarrow> linked ds' y"
    using assms(2) by (auto simp: link_result_def)
  have "linked ds' y" if "linked ds' x" "live_parent ds x y" for x y
  proof (cases "x \<in> set new")
    case False
    then have "linked ds y" using that assms(1) s(2) by (auto simp: linked_closed_def)
    then show ?thesis using s(2) by blast
  qed (use that s(3) in blast)
  then show ?thesis unfolding linked_closed_def same_cache_live[OF s(1)] by blast
qed

lemma link_history_total:
  assumes inv: "ds_inv ds" and c: "ds_complete ds" and cl: "linked_closed ds" and root: "ds_get_block ds root \<noteq> None"
  shows "\<exists>ds' refs. ds_link_causal_history root ds = Some (ds', refs) \<and> distinct refs \<and>
    set refs = {r. ds_gc_round ds < br_round r \<and> (ds_parent ds)\<^sup>*\<^sup>* root r \<and> \<not> linked ds r} \<and>
    (\<forall>r. linked ds' r \<longleftrightarrow> linked ds r \<or> r \<in> set refs) \<and> linked_closed ds' \<and> ds_same_cache ds ds'"
proof -
  from link_loop_spec[OF inv c, of "[root]" "[]"] root obtain ds' new where
    l: "ds_link_causal_history root ds = Some (ds', new)" and res: "link_result ds [root] (ds', new)"
    by (auto simp: ds_link_causal_history_def)
  note cl' = link_result_closed[OF cl res]
  have R: "ds_same_cache ds ds'" "distinct new" "\<And>x. linked ds' x \<longleftrightarrow> linked ds x \<or> x \<in> set new"
    "\<And>x. x \<in> set new \<Longrightarrow> \<not> linked ds x \<and> ds_gc_round ds < br_round root \<and> (live_parent ds)\<^sup>*\<^sup>* root x"
    "ds_gc_round ds < br_round root \<Longrightarrow> linked ds' root"
    using res by (auto simp: link_result_def)
  have gc: "ds_gc_round ds < br_round x" if "(live_parent ds)\<^sup>*\<^sup>* root x" "ds_gc_round ds < br_round root" for x
    using that by (induction rule: rtranclp_induct) (auto simp: live_parent_def)
  have "r \<in> set new" if r: "ds_gc_round ds < br_round r" "(ds_parent ds)\<^sup>*\<^sup>* root r" "\<not> linked ds r" for r
  proof -
    have "ds_gc_round ds < br_round root" using r(1,2) ds_parent_trancl_round[OF c, of root r] by (metis less_trans rtranclpD)
    moreover have "(live_parent ds)\<^sup>*\<^sup>* root r" using live_reach_iff[OF c r(1)] r(2) by blast
    moreover have "linked ds' x" if "(live_parent ds)\<^sup>*\<^sup>* root x" "linked ds' root" for x
      using that by (induction rule: rtranclp_induct) (use cl' same_cache_live[OF R(1)] in \<open>auto simp: linked_closed_def\<close>)
    ultimately have "linked ds' r" using R(5) by blast
    then show ?thesis using R(3) r(3) by blast
  qed
  then have "set new = {r. ds_gc_round ds < br_round r \<and> (ds_parent ds)\<^sup>*\<^sup>* root r \<and> \<not> linked ds r}"
    using R(4) gc live_reach_iff[OF c] by blast
  then show ?thesis using l R(1-3) cl' by blast
qed

subsection \<open>Accepting a block links nothing\<close>

lemma update_child_linked: "ds_update_child b a ds = Some ds' \<Longrightarrow> linked ds' = linked ds"
  by (auto simp: ds_update_child_def bind_Some_iff linked_iff fun_eq_iff split: if_splits)

lemma update_votes_linked:
  assumes "ds_update_votes b ds = Some ds'"
  shows "linked ds' = linked ds"
proof (cases "pc_enable_v3 (cx_protocol_config (ds_context ds))")
  case True
  with assms obtain ds1 where s: "foldM (ds_update_child b) (vb_ancestors b) ds = Some ds1" "ds_update_round_info b ds1 = Some ds'"
    by (auto simp: ds_update_votes_def bind_Some_iff)
  have "linked ds1 = linked ds" by (rule foldM_inv[OF s(1), of "\<lambda>d. linked d = linked ds"]) (auto dest: update_child_linked)
  moreover have "ds_recent_blocks ds' = ds_recent_blocks ds1"
    using s(2) unfolding ds_update_round_info_def Let_def by (simp only: bind_Some_iff split: if_splits) (auto simp: bind_Some_iff)
  ultimately show ?thesis by (simp add: fun_eq_iff linked_iff)
qed (use assms in \<open>simp add: ds_update_votes_def\<close>)

lemma accept_linked:
  assumes inv: "ds_inv ds" and a: "vb_author b < ds_size ds" and acc: "ds_accept_block now b ds = Some ds'"
  shows "linked ds' = linked ds"
proof (cases "ds' = ds")
  case False
  note c = ds_accept_block_cases[OF inv a acc]
  with False have new: "ds_get_block ds (reference b) = None" "0 < vb_round b" by auto
  from acc False obtain ds1 where ds1: "ds_update_block_metadata now b ds = Some ds1" "ds_recent_blocks ds' = ds_recent_blocks ds1"
    by (auto simp: ds_accept_block_def Let_def bind_Some_iff split: if_splits)
  then obtain ds2 where ds2: "ds_update_votes b (ds_insert_cache b ds) = Some ds2" "ds_recent_blocks ds1 = ds_recent_blocks ds2"
    by (auto simp: ds_update_block_metadata_eq bind_Some_iff split: if_splits)
  have "linked (ds_insert_cache b ds) = linked ds"
  proof -
    have "ds_cached ds (reference b) = None" using new by (auto simp: ds_get_block_eq GENESIS_ROUND_def split: option.splits)
    then have "fmlookup (ds_recent_blocks ds) (reference b) = None" by (simp add: ds_cached_def)
    then show ?thesis by (auto simp: fun_eq_iff linked_iff ds_insert_cache_def block_info_new_def)
  qed
  then show ?thesis using update_votes_linked[OF ds2(1)] ds1(2) ds2(2) by (simp add: fun_eq_iff linked_iff)
qed simp

lemma accept_context:
  assumes "ds_inv ds" and "vb_author b < ds_size ds" and "ds_accept_block now b ds = Some ds'"
  shows "ds_context ds' = ds_context ds" "ds_genesis ds' = ds_genesis ds"
  using ds_accept_block_cases[OF assms] ds_frame_sel(1,2)[of ds' "ds_admit b ds"] by (auto simp: ds_same_cache_def ds_admit_def)

lemma sample_view_unlinked: "\<not> linked (sample_view n) r"
proof -
  let ?P = "\<lambda>d. ds_inv d \<and> ds_context d = sample_context \<and> (\<forall>r. \<not> linked d r)"
  have "?P (sample_view n)"
  proof (rule foldM_inv[OF sample_view_ok(1)[unfolded ds_accept_blocks_def], of ?P], goal_cases)
    case 1
    then show ?case using sample_dag_inv by (simp add: linked_iff)
  next
    case (2 b d d')
    then have a: "vb_author b < ds_size d" by (auto simp: set_sample_layers)
    have inv: "ds_inv d" using 2(2) by blast
    show ?case using ds_accept_block_inv(1)[OF inv a 2(3)] accept_context(1)[OF inv a 2(3)] accept_linked[OF inv a 2(3)] 2(2) by simp
  qed
  then show ?thesis by blast
qed

subsection \<open>Properties\<close>

text \<open>
  C14. Linking the causal history of a block returns each of its blocks exactly once over all calls: it terminates without a panic, the
  references it returns are distinct and are exactly the blocks reachable from the root above the garbage collection
  round that no earlier call returned; they count as linked afterwards, the linked blocks stay closed under
  ancestors, and what the state serves does not change.
\<close>

theorem link_causal_history_exact:
  assumes "ds_inv ds" and "ds_complete ds" and "linked_closed ds" and "ds_get_block ds root \<noteq> None"
  shows "\<exists>ds' refs. ds_link_causal_history root ds = Some (ds', refs) \<and> distinct refs \<and>
    set refs = {r. ds_gc_round ds < br_round r \<and> (ds_parent ds)\<^sup>*\<^sup>* root r \<and> ds_has_been_included ds r \<noteq> Some True} \<and>
    (\<forall>r. ds_has_been_included ds' r = Some True \<longleftrightarrow> ds_has_been_included ds r = Some True \<or> r \<in> set refs) \<and>
    linked_closed ds' \<and> ds_get_block ds' = ds_get_block ds"
  using link_history_total[OF assms] ds_same_cache_get unfolding linked_def by blast

theorem link_causal_history_exact_witness:
  "\<exists>ds' refs. ds_link_causal_history (sample_ref 2 0) (sample_view 2) = Some (ds', refs) \<and> distinct refs \<and>
    sample_ref 2 0 \<in> set refs \<and> sample_ref 1 3 \<in> set refs \<and> sample_ref 0 3 \<notin> set refs \<and> ds_has_been_included ds' (sample_ref 1 3) = Some True"
proof -
  have v: "view_ok committee4 (sample_view 2)" by (rule sample_view_view_ok)
  have l: "ds_has_been_included (sample_view 2) r \<noteq> Some True" for r using sample_view_unlinked[of 2 r] by (simp add: linked_def)
  have root: "ds_get_block (sample_view 2) (sample_ref 2 0) = Some (sample_layer_block 2 0)" by (simp add: sample_view_ok(5) sample_universe_def)
  have "ds_parent (sample_view 2) (sample_ref 2 0) (sample_ref 1 3)" using root by (simp add: ds_parent_def set_sample_links)
  moreover have "linked_closed (sample_view 2)" using sample_view_unlinked by (simp add: linked_closed_def)
  ultimately show ?thesis
    using link_causal_history_exact[OF view_okD(1,2)[OF v], of "sample_ref 2 0"] root l by (auto intro: r_into_rtranclp)
qed

end
