(* ===== verification/Proposal.thy ===== *)
theory Proposal
  imports Proposer Causal_Link
begin

text \<open>
  Lemmas about proposing (\<^verbatim>\<open>consensus/core/src/proposer.rs\<close>): the last blocks of the authorities, the ancestors that are chosen from them,
  and what making a block of them does to the shared state.
\<close>

subsection \<open>The last blocks of the authorities\<close>

lemma last_and_equivocations_rest:
  "last_round \<noteq> 0 \<Longrightarrow> last_and_equivocations ds rs last_round latest eqs = Some (latest, eqs @ takeWhile (\<lambda>r. \<not> br_round r < last_round) rs)"
  by (induction rs arbitrary: eqs) auto

lemma last_and_equivocations_eq:
  assumes "\<forall>r\<in>set rs. 0 < br_round r"
  shows "last_and_equivocations ds rs 0 None [] =
    (case rs of [] \<Rightarrow> Some (None, [])
     | r # rs' \<Rightarrow> map_option (\<lambda>bi. (Some (bi_block bi), takeWhile (\<lambda>x. \<not> br_round x < br_round r) rs')) (fmlookup (ds_recent_blocks ds) r))"
  using assms by (cases rs; cases "fmlookup (ds_recent_blocks ds) (hd rs)") (auto simp: last_and_equivocations_rest)

definition genesis_of :: "crypto \<Rightarrow> dag_state \<Rightarrow> verified_block list \<Rightarrow> bool" where
  "genesis_of cy ds gs \<longleftrightarrow> genesis_blocks cy (ds_context ds) = Some gs \<and> ds_genesis ds = genesis_map gs"

lemma genesis_of_nth:
  assumes "genesis_of cy ds gs"
  shows "length gs = ds_size ds" and "a < ds_size ds \<Longrightarrow> vb_round (gs ! a) = 0 \<and> vb_author (gs ! a) = a"
  using genesis_blocks_nth[of cy "ds_context ds" gs] assms by (auto simp: genesis_of_def GENESIS_ROUND_def)

lemma genesis_refs_sorted:
  assumes "genesis_of cy ds gs"
  shows "sorted (map reference gs)" "distinct (map reference gs)"
proof -
  note g = genesis_of_nth[OF assms]
  have "reference (gs ! i) < reference (gs ! j)" if "i < j" "j < length gs" for i j
    using that g(2)[of i] g(2)[of j] g(1) by (simp add: reference_def less_block_ref_def)
  then have s: "sorted_wrt (<) (map reference gs)" by (simp add: sorted_wrt_iff_nth_less)
  show "sorted (map reference gs)" "distinct (map reference gs)"
    using s strict_sorted_iff by blast+
qed

lemma genesis_map_sorted:
  assumes "genesis_of cy ds gs"
  shows "map snd (sorted_list_of_fmap (ds_genesis ds)) = gs"
proof -
  note g = genesis_refs_sorted[OF assms]
  have l: "fmlookup (genesis_map gs) (reference b) = Some b" if "b \<in> set gs" for b
  proof -
    from that have "reference b |\<in>| fmdom (genesis_map gs)" by (simp add: genesis_map_dom)
    then obtain b' where b': "fmlookup (genesis_map gs) (reference b) = Some b'" by (auto simp: fmlookup_dom_iff)
    with genesis_map_lookup[of gs "\<lambda>b. b \<in> set gs", OF _ b'] have "reference b' = reference b" "b' \<in> set gs" by auto
    then show ?thesis using b' g(2) that by (metis distinct_map inj_onD)
  qed
  have "sorted_list_of_fset (fmdom (genesis_map gs)) = map reference gs"
    using g by (simp add: sorted_list_of_fset.rep_eq genesis_map_dom) (metis list.set_map sorted_distinct_set_unique sorted_list_of_set.distinct_sorted_key_list_of_set sorted_list_of_set.set_sorted_key_list_of_set sorted_sorted_list_of_set List.finite_set)
  then have "sorted_list_of_fmap (genesis_map gs) = map (\<lambda>b. (reference b, b)) gs"
    by (simp add: sorted_list_of_fmap_def l comp_def)
  then show ?thesis using assms by (simp add: genesis_of_def comp_def)
qed

text \<open>The body of the loop over the authorities.\<close>

definition last_cached_step ::
  "dag_state \<Rightarrow> round \<Rightarrow> nat \<times> block_ref fset \<Rightarrow> verified_block list \<times> block_ref list list \<Rightarrow> (verified_block list \<times> block_ref list list) option" where
  "last_cached_step ds end_round = (\<lambda>(a, refs) (blocks, equivocating). do {
           a \<leftarrow> to_authority_index (ds_committee ds) a;
           evicted \<leftarrow> vec_get (ds_evicted_rounds ds) a;
           assert_that (\<not> end_round - 1 \<le> evicted);
           rs \<leftarrow> range_incl_excl id (BlockRef (evicted + 1) a 0) (BlockRef end_round a 0) (sorted_list_of_fset refs);
           (latest, eqs) \<leftarrow> last_and_equivocations ds (rev rs) 0 None [];
           blocks \<leftarrow> (case latest of None \<Rightarrow> Some blocks | Some b \<Rightarrow> vec_set blocks a b);
           es \<leftarrow> vec_get equivocating a;
           equivocating \<leftarrow> vec_set equivocating a (es @ eqs);
           Some (blocks, equivocating)
         })"

definition cached_refs :: "dag_state \<Rightarrow> round \<Rightarrow> authority_index \<Rightarrow> block_ref list" where
  "cached_refs ds end_round a =
     filter (\<lambda>r. BlockRef (ds_evicted_rounds ds ! a + 1) a 0 \<le> r \<and> r < BlockRef end_round a 0) (sorted_list_of_fset (ds_recent_refs_by_authority ds ! a))"

lemma cached_refs_in:
  assumes "ds_inv ds" and "a < ds_size ds"
  shows "r \<in> set (cached_refs ds end_round a) \<longleftrightarrow>
    ds_cached ds r \<noteq> None \<and> br_author r = a \<and> ds_evicted_rounds ds ! a < br_round r \<and> br_round r < end_round"
proof -
  have "BlockRef (e + 1) a 0 \<le> r \<longleftrightarrow> e < br_round r" if "br_author r = a" for e
    using that by (auto simp: less_eq_block_ref_def less_eq_prod_def)
  moreover have "r < BlockRef end_round a 0 \<longleftrightarrow> br_round r < end_round" if "br_author r = a"
    using that by (auto simp: less_block_ref_def less_prod_def)
  ultimately show ?thesis using ds_inv_refs[OF assms] by (auto simp: cached_refs_def)
qed

lemma last_cached_step_eq:
  assumes inv: "ds_inv ds" and a: "a < ds_size ds" and len: "length blocks = ds_size ds" "length eqs = ds_size ds"
    and ev: "ds_evicted_rounds ds ! a < end_round - 1"
  shows "last_cached_step ds end_round (a, ds_recent_refs_by_authority ds ! a) (blocks, eqs) =
    (case rev (cached_refs ds end_round a) of
       [] \<Rightarrow> Some (blocks, eqs)
     | r # rs \<Rightarrow> Some (blocks[a := the (ds_cached ds r)], eqs[a := eqs ! a @ takeWhile (\<lambda>x. \<not> br_round x < br_round r) rs]))"
proof -
  have l: "a < length (ds_evicted_rounds ds)" using inv a by (simp add: ds_inv_def ds_static_def)
  have t: "to_authority_index (ds_committee ds) a = Some a" using a by (simp add: to_authority_index_def committee_size_def)
  have r: "range_incl_excl id (BlockRef (ds_evicted_rounds ds ! a + 1) a 0) (BlockRef end_round a 0) (sorted_list_of_fset (ds_recent_refs_by_authority ds ! a))
      = Some (cached_refs ds end_round a)"
    using ev by (auto simp: range_incl_excl_def cached_refs_def less_block_ref_def less_prod_def)
  have c: "ds_cached ds x \<noteq> None \<and> 0 < br_round x" if "x \<in> set (rev (cached_refs ds end_round a))" for x
    using that cached_refs_in[OF inv a] by auto
  then have pos: "\<forall>x\<in>set (rev (cached_refs ds end_round a)). 0 < br_round x" by blast
  show ?thesis
  proof (cases "rev (cached_refs ds end_round a)")
    case Nil
    then show ?thesis using l t r ev len a last_and_equivocations_eq[OF pos, of ds] by (simp add: last_cached_step_def vec_set_def)
  next
    case (Cons x xs)
    then obtain bi where bi: "fmlookup (ds_recent_blocks ds) x = Some bi" using c[of x] by (auto simp: ds_cached_def)
    then have "ds_cached ds x = Some (bi_block bi)" by (simp add: ds_cached_def)
    then show ?thesis using Cons bi l t r ev len a last_and_equivocations_eq[OF pos, of ds] by (simp add: last_cached_step_def vec_set_def)
  qed
qed

text \<open>A last block of an authority: its genesis block, or a cached one below the round; and cached equivocations.\<close>

definition last_block_ok :: "dag_state \<Rightarrow> verified_block list \<Rightarrow> round \<Rightarrow> authority_index \<Rightarrow> verified_block \<Rightarrow> bool" where
  "last_block_ok ds gs end_round a b \<longleftrightarrow> vb_author b = a \<and> vb_round b < end_round \<and> (b = gs ! a \<or> ds_cached ds (reference b) = Some b)"

definition last_blocks_ok :: "dag_state \<Rightarrow> verified_block list \<Rightarrow> round \<Rightarrow> verified_block list \<times> block_ref list list \<Rightarrow> bool" where
  "last_blocks_ok ds gs end_round = (\<lambda>(blocks, eqs). length blocks = ds_size ds \<and> length eqs = ds_size ds \<and>
     (\<forall>a<ds_size ds. last_block_ok ds gs end_round a (blocks ! a) \<and> (\<forall>e\<in>set (eqs ! a). br_author e = a \<and> ds_cached ds e \<noteq> None)))"

lemma genesis_last_blocks_ok:
  assumes "genesis_of cy ds gs" and "0 < end_round"
  shows "last_blocks_ok ds gs end_round (gs, replicate (ds_size ds) [])"
  using genesis_of_nth[OF assms(1)] assms(2) by (simp add: last_blocks_ok_def last_block_ok_def)

lemma last_cached_step_Some:
  assumes "last_cached_step ds end_round (a, refs) s = Some s'"
  shows "a < ds_size ds \<and> ds_evicted_rounds ds ! a < end_round - 1"
  using assms by (cases s) (auto simp: last_cached_step_def bind_Some_iff to_authority_index_def committee_size_def split: if_splits)

lemma last_cached_step_ok:
  assumes inv: "ds_inv ds" and ok: "last_blocks_ok ds gs end_round s" and a: "a < ds_size ds"
    and step: "last_cached_step ds end_round (a, ds_recent_refs_by_authority ds ! a) s = Some s'"
  shows "last_blocks_ok ds gs end_round s'"
proof -
  obtain blocks eqs where s: "s = (blocks, eqs)" by fastforce
  have len: "length blocks = ds_size ds" "length eqs = ds_size ds" using ok s by (simp_all add: last_blocks_ok_def)
  note eq = last_cached_step_eq[OF inv a len, of end_round] last_cached_step_Some[OF step]
  show ?thesis
  proof (cases "rev (cached_refs ds end_round a)")
    case Nil
    then show ?thesis using eq step ok s by simp
  next
    case (Cons r rs)
    have in_refs: "x \<in> set (cached_refs ds end_round a)" if "x = r \<or> x \<in> set rs" for x using that Cons by (metis list.set_intros set_rev)
    obtain b where b: "ds_cached ds r = Some b" using in_refs[of r] cached_refs_in[OF inv a] by auto
    have "last_block_ok ds gs end_round a b"
    proof -
      have "br_author r = a" "br_round r < end_round" "reference b = r"
        using in_refs[of r] cached_refs_in[OF inv a, of r end_round] ds_inv_cached[OF inv b] by blast+
      then show ?thesis using b by (auto simp: last_block_ok_def)
    qed
    moreover have "br_author e = a \<and> ds_cached ds e \<noteq> None" if "e \<in> set (eqs ! a @ takeWhile (\<lambda>x. \<not> br_round x < br_round r) rs)" for e
      using that ok s a in_refs[of e] cached_refs_in[OF inv a, of e] by (auto simp: last_blocks_ok_def dest: set_takeWhileD)
    ultimately have new: "last_block_ok ds gs end_round i (blocks[a := b] ! i) \<and>
        (\<forall>e\<in>set (eqs[a := eqs ! a @ takeWhile (\<lambda>x. \<not> br_round x < br_round r) rs] ! i). br_author e = i \<and> ds_cached ds e \<noteq> None)" if "i < ds_size ds" for i
      using ok s len a that by (cases "i = a") (simp_all add: last_blocks_ok_def)
    have "s' = (blocks[a := b], eqs[a := eqs ! a @ takeWhile (\<lambda>x. \<not> br_round x < br_round r) rs])" using eq step s Cons b by simp
    then show ?thesis using new len by (simp add: last_blocks_ok_def)
  qed
qed

lemma last_cached_fold:
  "ds_get_last_cached_block_per_authority ds end_round =
    (if end_round = 0 then None else if end_round = 1 then Some (map (\<lambda>b. (b, [])) (map snd (sorted_list_of_fmap (ds_genesis ds))))
     else map_option (\<lambda>(blocks, eqs). zip blocks eqs) (foldM (last_cached_step ds end_round) (enumerate 0 (ds_recent_refs_by_authority ds))
       (map snd (sorted_list_of_fmap (ds_genesis ds)), replicate (ds_size ds) [])))"
proof -
  have "Option.bind x (\<lambda>(blocks, eqs). Some (zip blocks eqs)) = map_option (\<lambda>(blocks, eqs). zip blocks eqs) x" for x :: "(verified_block list \<times> block_ref list list) option"
    by (cases x) auto
  then show ?thesis
    unfolding ds_get_last_cached_block_per_authority_def last_cached_step_def Let_def GENESIS_ROUND_def
    by (cases "end_round = 0") (simp_all add: assert_that_def)
qed

lemma last_cached_spec:
  assumes inv: "ds_inv ds" and g: "genesis_of cy ds gs" and r: "ds_get_last_cached_block_per_authority ds end_round = Some xs"
  shows "\<exists>blocks eqs. xs = zip blocks eqs \<and> last_blocks_ok ds gs end_round (blocks, eqs)"
proof -
  note sorted = genesis_map_sorted[OF g]
  have pos: "0 < end_round" using r by (auto simp: last_cached_fold split: if_splits)
  note ok = genesis_last_blocks_ok[OF g pos]
  show ?thesis
  proof (cases "end_round = 1")
    case True
    then have "xs = zip gs (replicate (ds_size ds) [])" using r genesis_of_nth(1)[OF g]
      by (simp add: last_cached_fold sorted zip_replicate2)
    then show ?thesis using ok by blast
  next
    case False
    then obtain t where t: "foldM (last_cached_step ds end_round) (enumerate 0 (ds_recent_refs_by_authority ds)) (gs, replicate (ds_size ds) []) = Some t"
      "xs = (\<lambda>(blocks, eqs). zip blocks eqs) t" using r pos by (auto simp: last_cached_fold sorted)
    have "last_blocks_ok ds gs end_round t"
    proof (rule foldM_inv[OF t(1), of "last_blocks_ok ds gs end_round", OF ok], goal_cases)
      case (1 x s s')
      obtain a refs where "x = (a, refs)" by fastforce
      then have "x = (a, ds_recent_refs_by_authority ds ! a)" using 1(1) by (simp add: in_set_enumerate_eq)
      then show ?case using last_cached_step_ok[OF inv 1(2)] last_cached_step_Some 1(3) by blast
    qed
    then show ?thesis using t(2) by (cases t) auto
  qed
qed

subsection \<open>Choosing ancestors\<close>

definition ancestor_ok :: "dag_state \<Rightarrow> verified_block list \<Rightarrow> round \<Rightarrow> verified_block \<Rightarrow> bool" where
  "ancestor_ok ds gs r b \<longleftrightarrow> vb_author b < ds_size ds \<and> last_block_ok ds gs r (vb_author b) b"

abbreviation already_included :: "validator_proposer \<Rightarrow> verified_block \<Rightarrow> bool" where
  "already_included vp b \<equiv> \<exists>r. vp_last_included_ancestors vp ! vb_author b = Some r \<and> vb_round b \<le> br_round r"

lemma select_ancestor_step:
  assumes "vb_author b < length (vp_last_included_ancestors vp)" and "vb_author b < length states"
  shows "\<exists>inc pend exc. select_ancestor vp states (b, eqs) (inc0, pend0, exc0) = Some (inc0 @ inc, pend0 @ pend, exc) \<and>
    fset exc \<subseteq> fset exc0 \<union> set eqs \<and>
    (if vb_author b = cx_own_index (vp_context vp) \<or> already_included vp b then inc = [] \<and> pend = [] else inc @ map snd pend = [b])"
proof (cases "vb_author b = cx_own_index (vp_context vp) \<or> already_included vp b")
  case True
  then have "select_ancestor vp states (b, eqs) (inc0, pend0, exc0) = Some (inc0, pend0, exc0)"
    using assms by (auto simp: select_ancestor_def)
  with True show ?thesis by (intro exI[of _ "[]"] exI[of _ exc0]) simp
next
  case False
  then show ?thesis using assms
    by (cases "vp_last_included_ancestors vp ! vb_author b"; cases "states ! vb_author b")
      (auto simp: select_ancestor_def fset_of_list.rep_eq)
qed

lemma select_ancestors_total:
  assumes "length (vp_last_included_ancestors vp) = n" and "length states = n" and "\<forall>x\<in>set xs. vb_author (fst x) < n"
    and "distinct (map (\<lambda>x. vb_author (fst x)) xs)"
  shows "\<exists>inc pend exc. foldM (select_ancestor vp states) xs (inc0, pend0, exc0) = Some (inc0 @ inc, pend0 @ pend, exc) \<and>
    distinct (map vb_author (inc @ map snd pend)) \<and>
    set inc \<union> snd ` set pend \<subseteq> {b \<in> fst ` set xs. vb_author b \<noteq> cx_own_index (vp_context vp)} \<and>
    (\<forall>b\<in>fst ` set xs. b \<in> set inc \<union> snd ` set pend \<or> vb_author b = cx_own_index (vp_context vp) \<or> already_included vp b) \<and>
    fset exc \<subseteq> fset exc0 \<union> \<Union> (set ` snd ` set xs)"
  using assms(3,4)
proof (induction xs arbitrary: inc0 pend0 exc0)
  case (Cons x xs)
  obtain b eqs where x: "x = (b, eqs)" by fastforce
  have b: "vb_author b < n" "vb_author b \<notin> vb_author ` fst ` set xs" using Cons.prems x by (auto simp: image_image)
  have len: "vb_author b < length (vp_last_included_ancestors vp)" "vb_author b < length states" using b(1) assms(1,2) by simp_all
  from select_ancestor_step[OF len, of eqs inc0 pend0 exc0] obtain inc1 pend1 exc1 where
    s: "select_ancestor vp states x (inc0, pend0, exc0) = Some (inc0 @ inc1, pend0 @ pend1, exc1)" "fset exc1 \<subseteq> fset exc0 \<union> set eqs"
    "if vb_author b = cx_own_index (vp_context vp) \<or> already_included vp b then inc1 = [] \<and> pend1 = [] else inc1 @ map snd pend1 = [b]"
    unfolding x by blast
  from Cons.IH[of "inc0 @ inc1" "pend0 @ pend1" exc1] Cons.prems obtain inc pend exc where
    i: "foldM (select_ancestor vp states) xs (inc0 @ inc1, pend0 @ pend1, exc1) = Some ((inc0 @ inc1) @ inc, (pend0 @ pend1) @ pend, exc)"
    "distinct (map vb_author (inc @ map snd pend))"
    "set inc \<union> snd ` set pend \<subseteq> {b \<in> fst ` set xs. vb_author b \<noteq> cx_own_index (vp_context vp)}"
    "\<forall>b\<in>fst ` set xs. b \<in> set inc \<union> snd ` set pend \<or> vb_author b = cx_own_index (vp_context vp) \<or> already_included vp b"
    "fset exc \<subseteq> fset exc1 \<union> \<Union> (set ` snd ` set xs)" by auto
  have new: "vb_author b \<notin> vb_author ` (set inc \<union> snd ` set pend)" using i(3) b(2) by blast
  have "distinct (map vb_author ((inc1 @ inc) @ map snd (pend1 @ pend)))"
    using i(2) new s(3) by (cases inc1; cases pend1) (auto simp: image_Un split: if_splits)
  moreover have "set (inc1 @ inc) \<union> snd ` set (pend1 @ pend) \<subseteq> {b \<in> fst ` set (x # xs). vb_author b \<noteq> cx_own_index (vp_context vp)}"
    using i(3) s(3) x by (cases inc1; cases pend1) (auto split: if_splits)
  moreover have "\<forall>b\<in>fst ` set (x # xs). b \<in> set (inc1 @ inc) \<union> snd ` set (pend1 @ pend) \<or> vb_author b = cx_own_index (vp_context vp) \<or> already_included vp b"
    using i(4) s(3) x by (cases inc1; cases pend1) (auto split: if_splits)
  ultimately show ?case using i(1,5) s(1,2) x by (intro exI[of _ "inc1 @ inc"] exI[of _ "pend1 @ pend"] exI[of _ exc]) auto
qed simp

lemma add_parents_eq:
  assumes "\<forall>b\<in>set bs. vb_author b < committee_size c"
  shows "add_parents c q bs = Some (sa_feed c (map vb_author (filter (\<lambda>b. vb_round b = q) bs)) sa_new)"
proof -
  have "foldM (\<lambda>b sa. map_option fst (sa_add QuorumThreshold (vb_author b) c sa)) xs sa = Some (sa_feed c (map vb_author xs) sa)"
    if "\<forall>b\<in>set xs. vb_author b < committee_size c" for xs sa
    using that by (induction xs arbitrary: sa) (auto simp: sa_add_eq)
  then show ?thesis using assms by (simp add: add_parents_def)
qed

lemma include_for_quorum_total:
  assumes "committee_wf c" and "\<forall>x\<in>set ps. vb_author (snd x) < committee_size c" and "sa_inv c sa"
  shows "\<exists>sa' tp' ex'. foldM (include_for_quorum c q) ps (sa, tp, ex) = Some (sa', tp @ tp', ex @ ex') \<and> sa_inv c sa' \<and>
    fset (sa_votes sa') = fset (sa_votes sa) \<union> vb_author ` set tp' \<and> mset (map snd ps) = mset (tp' @ map snd ex') \<and>
    (\<forall>b\<in>set tp'. vb_round b = q) \<and> (sa_reached_threshold QuorumThreshold c sa' \<or> (\<forall>x\<in>set ex'. vb_round (snd x) \<noteq> q))"
  using assms(2,3)
proof (induction ps arbitrary: sa tp ex)
  case (Cons x ps)
  obtain sc b where x: "x = (sc, b)" by fastforce
  have b: "vb_author b < committee_size c" "\<exists>au. committee_authority c (vb_author b) = Some au"
    using Cons.prems(1) x by (auto simp: committee_authority_def committee_size_def)
  show ?case
  proof (cases "\<not> sa_reached_threshold QuorumThreshold c sa \<and> vb_round b = q")
    case True
    let ?sa = "sa_insert c (vb_author b) sa"
    have i: "sa_inv c ?sa" by (rule sa_inv_insert[OF assms(1) Cons.prems(2) b(1)])
    have s: "include_for_quorum c q x (sa, tp, ex) = Some (?sa, tp @ [b], ex)" using True b x by (auto simp: include_for_quorum_def sa_add_eq)
    from Cons.IH[OF _ i, of "tp @ [b]" ex] Cons.prems(1) obtain sa' tp' ex' where
      r: "foldM (include_for_quorum c q) ps (?sa, tp @ [b], ex) = Some (sa', (tp @ [b]) @ tp', ex @ ex')" "sa_inv c sa'"
      "fset (sa_votes sa') = fset (sa_votes ?sa) \<union> vb_author ` set tp'" "mset (map snd ps) = mset (tp' @ map snd ex')"
      "\<forall>b\<in>set tp'. vb_round b = q" "sa_reached_threshold QuorumThreshold c sa' \<or> (\<forall>x\<in>set ex'. vb_round (snd x) \<noteq> q)" by auto
    then show ?thesis using s True x by (intro exI[of _ sa'] exI[of _ "b # tp'"] exI[of _ ex']) auto
  next
    case False
    have s: "include_for_quorum c q x (sa, tp, ex) = Some (sa, tp, ex @ [x])" using False b x by (auto simp: include_for_quorum_def)
    from Cons.IH[OF _ Cons.prems(2), of tp "ex @ [x]"] Cons.prems(1) obtain sa' tp' ex' where
      r: "foldM (include_for_quorum c q) ps (sa, tp, ex @ [x]) = Some (sa', tp @ tp', (ex @ [x]) @ ex')" "sa_inv c sa'"
      "fset (sa_votes sa') = fset (sa_votes sa) \<union> vb_author ` set tp'" "mset (map snd ps) = mset (tp' @ map snd ex')"
      "\<forall>b\<in>set tp'. vb_round b = q" "sa_reached_threshold QuorumThreshold c sa' \<or> (\<forall>x\<in>set ex'. vb_round (snd x) \<noteq> q)" by auto
    have "sa_reached_threshold QuorumThreshold c sa'" if "sa_reached_threshold QuorumThreshold c sa"
      using that sa_reached_iff[OF Cons.prems(2)] sa_reached_iff[OF r(2)] r(3) set_stake_mono[of "fset (sa_votes sa)" "fset (sa_votes sa')" c] by auto
    then have "sa_reached_threshold QuorumThreshold c sa' \<or> (\<forall>y\<in>set (x # ex'). vb_round (snd y) \<noteq> q)" using r(6) False x by auto
    then show ?thesis using s r(1-5) x by (intro exI[of _ sa'] exI[of _ tp'] exI[of _ "x # ex'"]) auto
  qed
qed simp

lemma last_cached_in_range_total:
  assumes inv: "ds_inv ds" and a: "a < ds_size ds" and r: "lo < hi"
  shows "\<exists>x. ds_get_last_cached_block_in_range ds a lo hi = Some x \<and>
    (\<forall>b. x = Some b \<longrightarrow> ds_cached ds (reference b) = Some b \<and> vb_author b = a \<and> vb_round b < hi)"
proof -
  define rs where "rs = filter (\<lambda>r. BlockRef lo a 0 \<le> r \<and> r < BlockRef hi 0 0) (sorted_list_of_fset (ds_recent_refs_by_authority ds ! a))"
  have l: "a < length (ds_recent_refs_by_authority ds)" using inv a by (simp add: ds_inv_def ds_static_def)
  have rg: "range_incl_excl id (BlockRef lo a 0) (BlockRef hi 0 0) (sorted_list_of_fset (ds_recent_refs_by_authority ds ! a)) = Some rs"
    using r by (auto simp: range_incl_excl_def rs_def less_block_ref_def less_prod_def)
  have in_rs: "ds_cached ds x \<noteq> None \<and> br_author x = a \<and> br_round x < hi" if "x \<in> set rs" for x
    using that ds_inv_refs[OF inv a] by (auto simp: rs_def less_block_ref_def less_prod_def)
  show ?thesis
  proof (cases "rs = []")
    case True
    then show ?thesis using r l rg by (simp add: ds_get_last_cached_block_in_range_def last_opt_def)
  next
    case False
    note k = in_rs[OF last_in_set[OF False]]
    then obtain bi where bi: "fmlookup (ds_recent_blocks ds) (last rs) = Some bi" "ds_cached ds (last rs) = Some (bi_block bi)"
      by (auto simp: ds_cached_def)
    have e: "reference (bi_block bi) = last rs" using ds_inv_cached[OF inv bi(2)] by blast
    have "vb_author (bi_block bi) = a" "vb_round (bi_block bi) < hi" using k unfolding e[symmetric] by simp_all
    then show ?thesis using r l rg False bi e by (simp add: ds_get_last_cached_block_in_range_def last_opt_def)
  qed
qed

lemma include_accepted_step:
  assumes inv: "ds_inv ds" and c: "c = ds_committee ds" and b: "ancestor_ok ds gs r b" and q: "q < r"
    and len: "length qrs = ds_size ds" "length li = ds_size ds"
  shows "\<exists>li' tp' exc'. include_accepted c ds qrs q (sc, b) (li, tp, exc) = Some (li', tp @ tp', exc') \<and> length li' = ds_size ds \<and>
    (tp' = [] \<or> (\<exists>b'. tp' = [b'] \<and> vb_author b' = vb_author b \<and> ancestor_ok ds gs r b')) \<and> fset exc' \<subseteq> insert (reference b) (fset exc)"
proof -
  let ?a = "vb_author b"
  have a: "?a < ds_size ds" using b by (simp add: ancestor_ok_def)
  then obtain au where au: "committee_authority c ?a = Some au" unfolding c by (auto simp: committee_authority_def committee_size_def)
  define low where "low = min (fst (qrs ! ?a)) q"
  define lst where "lst = (case li ! ?a of Some r \<Rightarrow> br_round r | None \<Rightarrow> GENESIS_ROUND)"
  have eq: "include_accepted c ds qrs q (sc, b) (li, tp, exc) =
     (if vb_round b \<le> lst then Some (li, tp, exc)
      else if lst \<ge> low then Some (li, tp, finsert (reference b) exc)
      else if vb_round b \<le> low then Some (li[?a := Some (reference b)], tp @ [b], exc)
      else do {
        earlier \<leftarrow> ds_get_last_cached_block_in_range ds ?a (lst + 1) (low + 1);
        case earlier of
          Some b' \<Rightarrow> Some (li[?a := Some (reference b')], tp @ [b'], finsert (reference b) exc)
        | None \<Rightarrow> Some (li, tp, finsert (reference b) exc)
      })"
    using a au len by (simp add: include_accepted_def low_def lst_def Let_def split: prod.splits)
  show ?thesis
  proof (cases "vb_round b \<le> lst \<or> lst \<ge> low \<or> vb_round b \<le> low")
    case True
    then show ?thesis unfolding eq using b len by auto
  next
    case False
    then obtain x where x: "ds_get_last_cached_block_in_range ds ?a (lst + 1) (low + 1) = Some x"
      "\<forall>b'. x = Some b' \<longrightarrow> ds_cached ds (reference b') = Some b' \<and> vb_author b' = ?a \<and> vb_round b' < low + 1"
      using last_cached_in_range_total[OF inv a, of "lst + 1" "low + 1"] by auto
    have "low < r" using q by (simp add: low_def)
    then have "ancestor_ok ds gs r b'" if "x = Some b'" for b' using x(2) that a by (auto simp: ancestor_ok_def last_block_ok_def)
    then show ?thesis unfolding eq using False x len by (cases x) auto
  qed
qed

lemma include_accepted_total:
  assumes inv: "ds_inv ds" and c: "c = ds_committee ds" and q: "q < r" and len: "length qrs = ds_size ds"
    and ps: "\<forall>x\<in>set ps. ancestor_ok ds gs r (snd x)" "distinct (map (\<lambda>x. vb_author (snd x)) ps)" and li: "length li = ds_size ds"
  shows "\<exists>li' tp' exc'. foldM (include_accepted c ds qrs q) ps (li, tp, exc) = Some (li', tp @ tp', exc') \<and> length li' = ds_size ds \<and>
    distinct (map vb_author tp') \<and> vb_author ` set tp' \<subseteq> vb_author ` snd ` set ps \<and> (\<forall>b\<in>set tp'. ancestor_ok ds gs r b) \<and>
    fset exc' \<subseteq> fset exc \<union> reference ` snd ` set ps"
  using ps li
proof (induction ps arbitrary: li tp exc)
  case (Cons x ps)
  obtain sc b where x: "x = (sc, b)" by fastforce
  have b: "ancestor_ok ds gs r b" "vb_author b \<notin> vb_author ` snd ` set ps" using Cons.prems x by (auto simp: image_image)
  obtain li1 tp1 exc1 where s: "include_accepted c ds qrs q x (li, tp, exc) = Some (li1, tp @ tp1, exc1)" "length li1 = ds_size ds"
    "tp1 = [] \<or> (\<exists>b'. tp1 = [b'] \<and> vb_author b' = vb_author b \<and> ancestor_ok ds gs r b')" "fset exc1 \<subseteq> insert (reference b) (fset exc)"
    using include_accepted_step[OF inv c b(1) q len Cons.prems(3), of sc tp exc] x by blast
  from Cons.IH[OF _ _ s(2), of "tp @ tp1" exc1] Cons.prems obtain li' tp' exc' where
    r: "foldM (include_accepted c ds qrs q) ps (li1, tp @ tp1, exc1) = Some (li', (tp @ tp1) @ tp', exc')" "length li' = ds_size ds"
    "distinct (map vb_author tp')" "vb_author ` set tp' \<subseteq> vb_author ` snd ` set ps" "\<forall>b\<in>set tp'. ancestor_ok ds gs r b"
    "fset exc' \<subseteq> fset exc1 \<union> reference ` snd ` set ps" by auto
  have "vb_author b \<notin> vb_author ` set tp'" using b(2) r(4) by blast
  then have "distinct (map vb_author (tp1 @ tp'))" "vb_author ` set (tp1 @ tp') \<subseteq> vb_author ` snd ` set (x # ps)" "\<forall>b\<in>set (tp1 @ tp'). ancestor_ok ds gs r b"
    using s(3) r(3-5) x by auto
  then show ?case using s(1,4) r(1,2,6) x by (intro exI[of _ li'] exI[of _ "tp1 @ tp'"] exI[of _ exc']) auto
qed simp

subsection \<open>The last own block\<close>

lemma ds_get_last_block_spec:
  assumes inv: "ds_inv ds" and g: "genesis_of cy ds gs" and a: "a < ds_size ds"
  shows "\<exists>b. ds_get_last_block_for_authority ds a = Some b \<and> vb_author b = a \<and> (b = gs ! a \<or> ds_cached ds (reference b) = Some b) \<and>
    (\<forall>r. ds_get_block ds r \<noteq> None \<and> br_author r = a \<longrightarrow> br_round r \<le> vb_round b)"
proof -
  let ?refs = "ds_recent_refs_by_authority ds ! a"
  note n = genesis_of_nth[OF g]
  have v: "vec_get (ds_recent_refs_by_authority ds) a = Some ?refs" using inv a by (simp add: ds_inv_def ds_static_def)
  have served: "br_round r = 0 \<or> (\<exists>r'. ds_cached ds r' \<noteq> None \<and> br_author r' = a \<and> br_round r \<le> br_round r')"
    if "ds_get_block ds r \<noteq> None" "br_author r = a" for r
    using that inv by (auto simp: ds_get_block_eq ds_inv_def ds_stored_ok_def GENESIS_ROUND_def split: if_splits option.splits)
  show ?thesis
  proof (cases "?refs = {||}")
    case True
    have gm: "sorted_list_of_fmap (ds_genesis ds) = zip (map fst (sorted_list_of_fmap (ds_genesis ds))) gs"
      using genesis_map_sorted[OF g] by (metis zip_map_fst_snd)
    have "find (\<lambda>e. br_author (fst e) = a) (sorted_list_of_fmap (ds_genesis ds)) \<noteq> None"
      using ds_last_block_total[OF inv a] True v by (auto simp: ds_get_last_block_for_authority_def)
    then obtain e where e: "find (\<lambda>e. br_author (fst e) = a) (sorted_list_of_fmap (ds_genesis ds)) = Some e" by blast
    then have e2: "e \<in> set (sorted_list_of_fmap (ds_genesis ds))" "br_author (fst e) = a" by (auto simp: find_Some_iff)
    then have l: "fmlookup (ds_genesis ds) (fst e) = Some (snd e)" using set_sorted_list_of_fmap[of "fst e" "snd e"] by simp
    have "reference (snd e) = fst e" using l inv by (auto simp: ds_inv_def ds_static_def)
    then have "vb_author (snd e) = a" using e2(2) reference_sel(2) by metis
    moreover have "snd e \<in> set gs" using e2(1) genesis_map_sorted[OF g] by (metis image_eqI set_map)
    ultimately have sg: "snd e = gs ! a" using n a by (metis in_set_conv_nth)
    have "\<forall>r. ds_get_block ds r \<noteq> None \<and> br_author r = a \<longrightarrow> br_round r \<le> vb_round (gs ! a)"
    proof (intro allI impI, elim conjE)
      fix r assume "ds_get_block ds r \<noteq> None" "br_author r = a"
      from served[OF this] have "br_round r = 0" using True ds_inv_refs[OF inv a] by fastforce
      then show "br_round r \<le> vb_round (gs ! a)" by simp
    qed
    then show ?thesis using True v e sg n(2)[OF a] by (simp add: ds_get_last_block_for_authority_def)
  next
    case False
    have m: "ds_cached ds (fMax ?refs) \<noteq> None" "br_author (fMax ?refs) = a" using ds_inv_refs[OF inv a] fMax_in[OF False] by auto
    then obtain bi where bi: "fmlookup (ds_recent_blocks ds) (fMax ?refs) = Some bi" "ds_cached ds (fMax ?refs) = Some (bi_block bi)"
      by (auto simp: ds_cached_def)
    note ref = ds_inv_cached[OF inv bi(2)]
    have "br_round r' \<le> vb_round (bi_block bi)" if "ds_cached ds r' \<noteq> None" "br_author r' = a" for r'
    proof -
      have "r' |\<in>| ?refs" using that ds_inv_refs[OF inv a] by auto
      then have "r' \<le> reference (bi_block bi)" using ref fMax_ge by metis
      then show ?thesis using block_ref_le_round by fastforce
    qed
    then have "\<forall>r. ds_get_block ds r \<noteq> None \<and> br_author r = a \<longrightarrow> br_round r \<le> vb_round (bi_block bi)"
      using served by (metis le0 le_trans)
    moreover have "vb_author (bi_block bi) = a" using ref m(2) reference_sel(2) by metis
    ultimately show ?thesis using False v bi ref by (simp add: ds_get_last_block_for_authority_def)
  qed
qed

lemma last_proposed_spec:
  assumes "ds_inv ds" and "genesis_of cy ds gs" and "context_is_validator (ds_context ds)"
  obtains own where "last_proposed_block ds = Some own" "vb_author own = cx_own_index (ds_context ds)"
    "own = gs ! cx_own_index (ds_context ds) \<or> ds_cached ds (reference own) = Some own"
    "\<And>r. ds_get_block ds r \<noteq> None \<Longrightarrow> br_author r = cx_own_index (ds_context ds) \<Longrightarrow> br_round r \<le> vb_round own"
proof -
  have a: "cx_own_index (ds_context ds) < ds_size ds" using assms(3) by (simp add: context_is_validator_def is_valid_index_def)
  from ds_get_last_block_spec[OF assms(1,2) a] obtain b where "ds_get_last_block_for_authority ds (cx_own_index (ds_context ds)) = Some b"
    "vb_author b = cx_own_index (ds_context ds)" "b = gs ! cx_own_index (ds_context ds) \<or> ds_cached ds (reference b) = Some b"
    "\<forall>r. ds_get_block ds r \<noteq> None \<and> br_author r = cx_own_index (ds_context ds) \<longrightarrow> br_round r \<le> vb_round b" by blast
  then show ?thesis using that[of b] assms(3) by (simp add: last_proposed_block_def ds_get_last_proposed_block_def)
qed

subsection \<open>The ancestors of a proposal\<close>

definition proposer_ok :: "crypto \<Rightarrow> verified_block list \<Rightarrow> shared_state \<Rightarrow> validator_proposer \<Rightarrow> bool" where
  "proposer_ok cy gs sh vp \<longleftrightarrow> (let ds = sh_dag_state sh in
     ds_inv ds \<and> genesis_of cy ds gs \<and> vp_context vp = ds_context ds \<and> rt_context (sh_round_tracker sh) = ds_context ds \<and>
     context_is_validator (ds_context ds) \<and> round_tracker_wf (sh_round_tracker sh) \<and>
     length (vp_last_included_ancestors vp) = ds_size ds \<and> am_inv (ds_committee ds) (vp_ancestor_state_manager vp) \<and>
     length (rs_scores_per_authority (am_propagation_scores (vp_ancestor_state_manager vp))) \<le> ds_size ds)"

lemma update_all_scores:
  assumes "update_all_ancestors_state qrs ds am = Some am'"
  shows "am_propagation_scores am' = am_propagation_scores am"
proof -
  have keep: "am_propagation_scores z = am_propagation_scores y" if "apply_state_change t st clock y = Some z" for t st clock y z
    using that by (auto simp: apply_state_change_def bind_Some_iff Let_def split: ancestor_state.splits if_splits)
  from assms obtain inc exc am1 where
    1: "foldM (\<lambda>t. apply_state_change t Include (ds_threshold_clock_round ds)) inc am = Some am1"
    and 2: "foldM (\<lambda>t am. if am_total_excluded_stake am + st_stake t \<le> am_excluded_nodes_stake_threshold am
      then apply_state_change t (Exclude (st_score t)) (ds_threshold_clock_round ds) am else Some am) (sort_key st_score exc) am1 = Some am'"
    by (auto simp: update_all_ancestors_state_def Let_def bind_Some_iff)
  let ?P = "\<lambda>x. am_propagation_scores x = am_propagation_scores am"
  have "?P am1" by (rule foldM_inv[OF 1, of ?P]) (auto dest: keep)
  then show ?thesis by (rule foldM_inv[OF 2, of ?P]) (auto dest: keep split: if_splits)
qed

lemma accepted_quorum_rounds_total:
  assumes "round_tracker_wf rt" and "committee_wf (cx_committee (rt_context rt))"
  shows "\<exists>qrs. compute_accepted_quorum_rounds rt = Some qrs \<and> length qrs = committee_size (cx_committee (rt_context rt))"
proof -
  let ?c = "cx_committee (rt_context rt)"
  have ix: "authority_indices ?c = [0..<committee_size ?c]" by (simp add: authority_indices_def committee_size_def)
  have "\<exists>y. compute_quorum_round ?c x (highest_accepted_rounds rt) = Some y" if "x \<in> set (authority_indices ?c)" for x
    using compute_quorum_round_spec[OF assms(2) highest_accepted_rounds_square(1)[OF assms(1) refl], of x] that ix by auto
  from mapM_ex[of "authority_indices ?c" "\<lambda>peer. compute_quorum_round ?c peer (highest_accepted_rounds rt)", OF this]
  obtain qs where qs: "mapM (\<lambda>peer. compute_quorum_round ?c peer (highest_accepted_rounds rt)) (authority_indices ?c) = Some qs" by blast
  then have "length qs = committee_size ?c" using list_all2_lengthD by (fastforce simp: mapM_Some_iff ix)
  then show ?thesis using qs by (simp add: compute_accepted_quorum_rounds_def Let_def)
qed

definition proposal_ancestors :: "dag_state \<Rightarrow> verified_block list \<Rightarrow> round \<Rightarrow> verified_block \<Rightarrow> verified_block list \<Rightarrow> bool" where
  "proposal_ancestors ds gs r own as \<longleftrightarrow> as \<noteq> [] \<and> hd as = own \<and> distinct (map vb_author as) \<and> (\<forall>b\<in>set as. ancestor_ok ds gs r b) \<and>
     unat (c_quorum_threshold (ds_committee ds)) \<le> set_stake (ds_committee ds) (vb_author ` {b \<in> set as. vb_round b = r - 1})"

lemma selection_total:
  assumes ok: "proposer_ok cy gs sh vp" and ds: "ds = sh_dag_state sh" and r: "0 < r"
    and xs: "ds_get_last_cached_block_per_authority ds r = Some xs"
    and own: "ancestor_ok ds gs r own" "vb_author own = cx_own_index (ds_context ds)" and st: "length states = ds_size ds"
  shows "length xs = ds_size ds" and "\<exists>inc pend exc. foldM (select_ancestor vp states) xs ([own], [], {||}) = Some (own # inc, pend, exc) \<and>
    distinct (map vb_author (own # inc @ map snd pend)) \<and> (\<forall>b\<in>set (own # inc @ map snd pend). ancestor_ok ds gs r b) \<and>
    (\<forall>b\<in>fst ` set xs. b \<in> set (inc @ map snd pend) \<or> vb_author b = cx_own_index (ds_context ds) \<or> already_included vp b) \<and>
    (\<forall>e\<in>fset exc. br_author e < ds_size ds)"
proof -
  have vp: "ds_inv ds" "genesis_of cy ds gs" "vp_context vp = ds_context ds" "length (vp_last_included_ancestors vp) = ds_size ds"
    using ok by (simp_all add: proposer_ok_def ds Let_def)
  from last_cached_spec[OF vp(1,2) xs] obtain blocks eqs where b: "xs = zip blocks eqs" "last_blocks_ok ds gs r (blocks, eqs)" by blast
  have len: "length blocks = ds_size ds" "length eqs = ds_size ds" using b(2) by (simp_all add: last_blocks_ok_def)
  show "length xs = ds_size ds" using b(1) len by simp
  have author: "vb_author (blocks ! a) = a" if "a < ds_size ds" for a using b(2) that by (auto simp: last_blocks_ok_def last_block_ok_def)
  have "map (\<lambda>x. vb_author (fst x)) xs = map vb_author (map fst xs)" by (simp add: comp_def)
  also have "\<dots> = [0..<ds_size ds]" using b(1) len author by (intro nth_equalityI) simp_all
  finally have d: "distinct (map (\<lambda>x. vb_author (fst x)) xs)" by simp
  have in_xs: "ancestor_ok ds gs r (fst x) \<and> (\<forall>e\<in>set (snd x). br_author e < ds_size ds)" if "x \<in> set xs" for x
  proof -
    from that b(1) len obtain a where "a < ds_size ds" "x = (blocks ! a, eqs ! a)" by (metis in_set_conv_nth length_zip min.idem nth_zip)
    then show ?thesis using b(2) author by (auto simp: last_blocks_ok_def ancestor_ok_def)
  qed
  from select_ancestors_total[OF vp(4) st _ d, of "[own]" "[]" "{||}"] in_xs obtain inc pend exc where
    s: "foldM (select_ancestor vp states) xs ([own], [], {||}) = Some ([own] @ inc, [] @ pend, exc)"
    "distinct (map vb_author (inc @ map snd pend))"
    "set inc \<union> snd ` set pend \<subseteq> {b \<in> fst ` set xs. vb_author b \<noteq> cx_own_index (vp_context vp)}"
    "\<forall>b\<in>fst ` set xs. b \<in> set inc \<union> snd ` set pend \<or> vb_author b = cx_own_index (vp_context vp) \<or> already_included vp b"
    "fset exc \<subseteq> fset {||} \<union> \<Union> (set ` snd ` set xs)" by (auto simp: ancestor_ok_def)
  have "\<forall>b\<in>set (own # inc @ map snd pend). ancestor_ok ds gs r b" using s(3) in_xs own by auto
  moreover have "distinct (map vb_author (own # inc @ map snd pend))" using s(2,3) own(2) vp(3) by auto
  moreover have "\<forall>e\<in>fset exc. br_author e < ds_size ds" using s(5) in_xs by auto
  ultimately show "\<exists>inc pend exc. foldM (select_ancestor vp states) xs ([own], [], {||}) = Some (own # inc, pend, exc) \<and>
    distinct (map vb_author (own # inc @ map snd pend)) \<and> (\<forall>b\<in>set (own # inc @ map snd pend). ancestor_ok ds gs r b) \<and>
    (\<forall>b\<in>fst ` set xs. b \<in> set (inc @ map snd pend) \<or> vb_author b = cx_own_index (ds_context ds) \<or> already_included vp b) \<and>
    (\<forall>e\<in>fset exc. br_author e < ds_size ds)"
    using s(1,4) vp(3) by (intro exI[of _ inc] exI[of _ pend] exI[of _ exc]) auto
qed

lemma filling_total:
  assumes inv: "ds_inv ds" and c: "c = ds_committee ds" and r: "0 < r" and len: "length qrs = ds_size ds" "length li = ds_size ds"
    and all: "distinct (map vb_author (as @ map snd pend))" "\<forall>b\<in>set (as @ map snd pend). ancestor_ok ds gs r b"
  shows "\<exists>sa0 sa tp ex li' tp' exc'. add_parents c (r - 1) as = Some sa0 \<and>
    foldM (include_for_quorum c (r - 1)) (sort_key (\<lambda>e. - uint (fst e)) pend) (sa0, as, []) = Some (sa, as @ tp, ex) \<and>
    foldM (include_accepted c ds qrs (r - 1)) ex (li, as @ tp, exc) = Some (li', as @ tp @ tp', exc') \<and> length li' = ds_size ds \<and>
    distinct (map vb_author (as @ tp @ tp')) \<and> (\<forall>b\<in>set (as @ tp @ tp'). ancestor_ok ds gs r b) \<and>
    (sa_reached_threshold QuorumThreshold c sa \<longrightarrow>
      unat (c_quorum_threshold c) \<le> set_stake c (vb_author ` {b \<in> set (as @ tp @ tp'). vb_round b = r - 1})) \<and>
    (\<not> sa_reached_threshold QuorumThreshold c sa \<longrightarrow>
      set_stake c (vb_author ` {b \<in> set (as @ map snd pend). vb_round b = r - 1}) < unat (c_quorum_threshold c)) \<and>
    fset exc' \<subseteq> fset exc \<union> reference ` snd ` set pend"
proof -
  have wf: "committee_wf c" using inv c by (simp add: ds_inv_def ds_static_def)
  have lt: "vb_author b < committee_size c" if "b \<in> set (as @ map snd pend)" for b using all(2) that c by (simp add: ancestor_ok_def)
  define ps where "ps = sort_key (\<lambda>e. - uint (fst e)) pend"
  define sa0 where "sa0 = sa_feed c (map vb_author (filter (\<lambda>b. vb_round b = r - 1) as)) sa_new"
  have 0: "add_parents c (r - 1) as = Some sa0" using add_parents_eq[of as c "r - 1"] lt by (simp add: sa0_def)
  have i0: "sa_inv c sa0" unfolding sa0_def using lt wf by (intro sa_inv_feed) (auto simp: members_def)
  have v0: "fset (sa_votes sa0) = vb_author ` {b \<in> set as. vb_round b = r - 1}" by (simp add: sa0_def sa_feed_votes sa_new_def)
  have ps: "set ps = set pend" "mset (map snd ps) = mset (map snd pend)" by (simp_all add: ps_def)
  from include_for_quorum_total[OF wf _ i0, of ps "r - 1" as "[]"] lt ps(1) obtain sa tp ex where
    q: "foldM (include_for_quorum c (r - 1)) ps (sa0, as, []) = Some (sa, as @ tp, [] @ ex)" "sa_inv c sa"
    "fset (sa_votes sa) = fset (sa_votes sa0) \<union> vb_author ` set tp" "mset (map snd ps) = mset (tp @ map snd ex)"
    "\<forall>b\<in>set tp. vb_round b = r - 1" "sa_reached_threshold QuorumThreshold c sa \<or> (\<forall>x\<in>set ex. vb_round (snd x) \<noteq> r - 1)" by auto
  have m: "mset (tp @ map snd ex) = mset (map snd pend)" using q(4) ps(2) by simp
  from mset_eq_setD[OF m] have sets: "set tp \<union> snd ` set ex = snd ` set pend" by simp
  have "mset (map vb_author (as @ tp @ map snd ex)) = mset (map vb_author (as @ map snd pend))" using m by (metis mset_append mset_map)
  then have d: "distinct (map vb_author (as @ tp @ map snd ex))" using all(1) mset_eq_imp_distinct_iff by blast
  have okx: "\<forall>x\<in>set ex. ancestor_ok ds gs r (snd x)" "distinct (map (\<lambda>x. vb_author (snd x)) ex)"
  proof -
    have "snd x \<in> set (as @ map snd pend)" if "x \<in> set ex" for x using that sets by fastforce
    then show "\<forall>x\<in>set ex. ancestor_ok ds gs r (snd x)" using all(2) by blast
    show "distinct (map (\<lambda>x. vb_author (snd x)) ex)" using d by (simp add: comp_def)
  qed
  from include_accepted_total[OF inv c _ len(1) okx len(2), of "r - 1" "as @ tp" exc] r obtain li' tp' exc' where
    a: "foldM (include_accepted c ds qrs (r - 1)) ex (li, as @ tp, exc) = Some (li', (as @ tp) @ tp', exc')" "length li' = ds_size ds"
    "distinct (map vb_author tp')" "vb_author ` set tp' \<subseteq> vb_author ` snd ` set ex" "\<forall>b\<in>set tp'. ancestor_ok ds gs r b"
    "fset exc' \<subseteq> fset exc \<union> reference ` snd ` set ex" by auto
  have "distinct (map vb_author (as @ tp @ tp'))"
  proof -
    have "vb_author ` set (as @ tp) \<inter> vb_author ` set (map snd ex) = {}" "distinct (map vb_author (as @ tp))" using d by (auto simp: image_Un)
    then have "vb_author ` set (as @ tp) \<inter> vb_author ` set tp' = {}" "distinct (map vb_author (as @ tp))" using a(4) by fastforce+
    then show ?thesis using a(3) by (auto simp: image_Un)
  qed
  moreover have "\<forall>b\<in>set (as @ tp @ tp'). ancestor_ok ds gs r b" using all(2) equalityD1[OF sets] a(5) by auto
  moreover have votes: "fset (sa_votes sa) \<subseteq> vb_author ` {b \<in> set (as @ tp @ tp'). vb_round b = r - 1}" using q(3,5) v0 by auto
  moreover have "unat (c_quorum_threshold c) \<le> set_stake c (vb_author ` {b \<in> set (as @ tp @ tp'). vb_round b = r - 1})"
    if "sa_reached_threshold QuorumThreshold c sa"
    using that sa_reached_iff[OF q(2), of QuorumThreshold] set_stake_mono[OF votes, of c] by simp
  moreover have "set_stake c (vb_author ` {b \<in> set (as @ map snd pend). vb_round b = r - 1}) < unat (c_quorum_threshold c)"
    if n: "\<not> sa_reached_threshold QuorumThreshold c sa"
  proof -
    have "b \<in> set as \<union> set tp" if "b \<in> set (as @ map snd pend)" "vb_round b = r - 1" for b
    proof (cases "b \<in> set as")
      case False
      then have "b \<in> set tp \<union> snd ` set ex" using that(1) unfolding sets by simp
      moreover have "b \<notin> snd ` set ex" using n q(6) that(2) by blast
      ultimately show ?thesis by blast
    qed simp
    then have "{b \<in> set (as @ map snd pend). vb_round b = r - 1} \<subseteq> {b \<in> set as. vb_round b = r - 1} \<union> set tp" by blast
    then have "vb_author ` {b \<in> set (as @ map snd pend). vb_round b = r - 1} \<subseteq> fset (sa_votes sa)" using q(3) v0 by blast
    from set_stake_mono[OF this, of c] n sa_reached_iff[OF q(2), of QuorumThreshold] show ?thesis by simp
  qed
  moreover have "fset exc' \<subseteq> fset exc \<union> reference ` snd ` set pend"
    by (rule order_trans[OF a(6) Un_mono[OF order_refl image_mono[OF order_trans[OF Un_upper2 equalityD1[OF sets]]]]])
  ultimately show ?thesis using 0 q(1) a(1,2) unfolding ps_def
    by (intro exI[of _ sa0] exI[of _ sa] exI[of _ tp] exI[of _ ex] exI[of _ li'] exI[of _ tp'] exI[of _ exc']) simp
qed

lemma smart_ancestors_total:
  assumes ok: "proposer_ok cy gs sh vp" and ds: "ds = sh_dag_state sh" and r: "0 < r"
    and xs: "ds_get_last_cached_block_per_authority ds r = Some xs" and own: "last_proposed_block ds = Some own" "vb_round own < r"
  shows "\<exists>am li as exc reached0 reached. am_inv (ds_committee ds) am \<and>
    am_propagation_scores am = am_propagation_scores (vp_ancestor_state_manager vp) \<and> length li = ds_size ds \<and>
    smart_ancestors_to_propose r smart_select sh vp =
      (if smart_select \<and> \<not> reached0 then Some (vp\<lparr>vp_ancestor_state_manager := am\<rparr>, [], {||})
       else if reached then Some (vp\<lparr>vp_ancestor_state_manager := am, vp_last_included_ancestors := li\<rparr>, as, exc) else None) \<and>
    (reached \<longrightarrow> proposal_ancestors ds gs r own as) \<and>
    (\<not> reached \<longrightarrow> set_stake (ds_committee ds) (vb_author ` {b. (b = own \<or> b \<in> fst ` set xs \<and>
       vb_author b \<noteq> cx_own_index (ds_context ds) \<and> \<not> already_included vp b) \<and> vb_round b = r - 1}) < unat (c_quorum_threshold (ds_committee ds))) \<and>
    (\<forall>e\<in>fset exc. br_author e < ds_size ds)"
proof -
  let ?c = "ds_committee ds" and ?am0 = "vp_ancestor_state_manager vp" and ?rt = "sh_round_tracker sh" and ?q = "r - 1"
  have vp: "ds_inv ds" "genesis_of cy ds gs" "vp_context vp = ds_context ds" "length (vp_last_included_ancestors vp) = ds_size ds"
    "rt_context ?rt = ds_context ds" "round_tracker_wf ?rt" "context_is_validator (ds_context ds)" "am_inv ?c ?am0"
    "length (rs_scores_per_authority (am_propagation_scores ?am0)) \<le> ds_size ds"
    using ok by (simp_all add: proposer_ok_def ds Let_def)
  have wf: "committee_wf ?c" using vp(1) by (simp add: ds_inv_def ds_static_def)
  obtain qrs where qrs: "compute_accepted_quorum_rounds ?rt = Some qrs" "length qrs = ds_size ds"
    using accepted_quorum_rounds_total[OF vp(6)] vp(5) wf by auto
  obtain am where am: "update_all_ancestors_state qrs ds ?am0 = Some am" "am_inv ?c am"
    using update_all_spec[OF vp(8) wf vp(9) qrs(2)] by blast
  have o: "ancestor_ok ds gs r own" "vb_author own = cx_own_index (ds_context ds)"
  proof -
    obtain own' where "last_proposed_block ds = Some own'" "vb_author own' = cx_own_index (ds_context ds)"
      "own' = gs ! cx_own_index (ds_context ds) \<or> ds_cached ds (reference own') = Some own'" by (rule last_proposed_spec[OF vp(1,2,7)])
    moreover have "cx_own_index (ds_context ds) < ds_size ds" using vp(7) by (simp add: context_is_validator_def is_valid_index_def)
    ultimately show "ancestor_ok ds gs r own" "vb_author own = cx_own_index (ds_context ds)"
      using own by (simp_all add: ancestor_ok_def last_block_ok_def)
  qed
  let ?vp = "vp\<lparr>vp_ancestor_state_manager := am\<rparr>"
  have ok': "proposer_ok cy gs sh ?vp" using ok am(2) update_all_scores[OF am(1)] by (simp add: proposer_ok_def ds Let_def)
  have st: "length (get_ancestor_states am) = ds_size ds" using am(2) by (simp add: am_inv_def get_ancestor_states_def)
  note l = selection_total(1)[OF ok' ds r xs o st]
  from selection_total(2)[OF ok' ds r xs o st] obtain inc pend exc0 where
    s: "foldM (select_ancestor ?vp (get_ancestor_states am)) xs ([own], [], {||}) = Some (own # inc, pend, exc0)"
    "distinct (map vb_author ((own # inc) @ map snd pend))" "\<forall>b\<in>set ((own # inc) @ map snd pend). ancestor_ok ds gs r b"
    "\<forall>b\<in>fst ` set xs. b \<in> set (inc @ map snd pend) \<or> vb_author b = cx_own_index (ds_context ds) \<or> already_included vp b"
    "\<forall>e\<in>fset exc0. br_author e < ds_size ds" by auto
  from filling_total[OF vp(1) refl r qrs(2) vp(4) s(2,3), of exc0] obtain sa0 sa tp ex li tp' exc where
    f: "add_parents ?c ?q (own # inc) = Some sa0"
    "foldM (include_for_quorum ?c ?q) (sort_key (\<lambda>e. - uint (fst e)) pend) (sa0, own # inc, []) = Some (sa, (own # inc) @ tp, ex)"
    "foldM (include_accepted ?c ds qrs ?q) ex (vp_last_included_ancestors vp, (own # inc) @ tp, exc0) = Some (li, (own # inc) @ tp @ tp', exc)"
    "length li = ds_size ds"
    "distinct (map vb_author ((own # inc) @ tp @ tp'))" "\<forall>b\<in>set ((own # inc) @ tp @ tp'). ancestor_ok ds gs r b"
    "sa_reached_threshold QuorumThreshold ?c sa \<longrightarrow> unat (c_quorum_threshold ?c) \<le> set_stake ?c (vb_author ` {b \<in> set ((own # inc) @ tp @ tp'). vb_round b = ?q})"
    "\<not> sa_reached_threshold QuorumThreshold ?c sa \<longrightarrow> set_stake ?c (vb_author ` {b \<in> set ((own # inc) @ map snd pend). vb_round b = ?q}) < unat (c_quorum_threshold ?c)"
    "fset exc \<subseteq> fset exc0 \<union> reference ` snd ` set pend" by blast
  define anc where "anc = (own # inc) @ tp @ tp'"
  have eq: "smart_ancestors_to_propose r smart_select sh vp =
      (if smart_select \<and> \<not> sa_reached_threshold QuorumThreshold ?c sa0 then Some (?vp, [], {||})
       else if sa_reached_threshold QuorumThreshold ?c sa then Some (?vp\<lparr>vp_last_included_ancestors := li\<rparr>, anc, exc) else None)"
    using xs l qrs(1) am(1) own(1) s(1) f(1-3) vp(3)
    by (simp add: smart_ancestors_to_propose_def Let_def ds[symmetric] anc_def[symmetric] assert_that_def del: append_Cons)
  have "proposal_ancestors ds gs r own anc" if "sa_reached_threshold QuorumThreshold ?c sa"
    using that f(5-7) by (simp add: proposal_ancestors_def anc_def)
  moreover have "set_stake ?c (vb_author ` {b. (b = own \<or> b \<in> fst ` set xs \<and> vb_author b \<noteq> cx_own_index (ds_context ds) \<and> \<not> already_included vp b) \<and>
      vb_round b = ?q}) < unat (c_quorum_threshold ?c)" if n: "\<not> sa_reached_threshold QuorumThreshold ?c sa"
  proof -
    have "{b. (b = own \<or> b \<in> fst ` set xs \<and> vb_author b \<noteq> cx_own_index (ds_context ds) \<and> \<not> already_included vp b) \<and> vb_round b = ?q} \<subseteq>
      {b \<in> set ((own # inc) @ map snd pend). vb_round b = ?q}" using s(4) by auto
    from le_less_trans[OF set_stake_mono[OF image_mono[OF this]] f(8)[rule_format, OF n]] show ?thesis .
  qed
  moreover have "br_author e < ds_size ds" if "e \<in> fset exc" for e
  proof -
    from that f(9) consider "e \<in> fset exc0" | b where "b \<in> snd ` set pend" "e = reference b" by blast
    then show ?thesis using s(3,5) by cases (auto simp: ancestor_ok_def)
  qed
  ultimately show ?thesis using am(2) update_all_scores[OF am(1)] f(4) eq
    by (intro exI[of _ am] exI[of _ li] exI[of _ anc] exI[of _ exc] exI[of _ "sa_reached_threshold QuorumThreshold ?c sa0"]
        exI[of _ "sa_reached_threshold QuorumThreshold ?c sa"]) simp
qed

subsection \<open>The block\<close>

lemma link_loop_same:
  assumes "link_loop gc targets acc ds = Some y"
  shows "ds_same_cache ds (fst y)"
proof (rule link_loop.raw_induct[OF _ assms, where P = "\<lambda>gc targets acc ds y. ds_same_cache ds (fst y)"], goal_cases)
  case (1 loop gc targets acc ds y)
  show ?case
  proof (cases targets)
    case (Cons r rest)
    show ?thesis
    proof (cases "br_round r \<le> gc")
      case False
      with 1(2) Cons obtain bi where bi: "fmlookup (ds_recent_blocks ds) r = Some bi" by (auto split: option.splits)
      show ?thesis
      proof (cases "bi_included bi")
        case ni: False
        let ?ds = "ds\<lparr>ds_recent_blocks := fmupd r (bi\<lparr>bi_included := True\<rparr>) (ds_recent_blocks ds)\<rparr>"
        have "ds_same_cache ds ?ds" by (rule ds_same_cache_upd[OF bi]) simp
        moreover have "ds_same_cache ?ds (fst y)"
          by (rule 1(1)[of gc "rest @ vb_ancestors (bi_block bi)" "acc @ [r]"]) (use 1(2) Cons False bi ni in simp)
        ultimately show ?thesis by (rule ds_same_cache_trans)
      qed (use 1 Cons False bi in simp)
    qed (use 1 Cons in simp)
  qed (use 1(2) in auto)
qed

lemma link_same: "ds_link_causal_history root ds = Some (ds', refs) \<Longrightarrow> ds_same_cache ds ds'"
  using link_loop_same[of "ds_gc_round ds" "[root]" "[]" ds "(ds', refs)"] by (simp add: ds_link_causal_history_def)

lemma link_ancestors_same:
  assumes "link_ancestors as ds = Some (ds', refs)"
  shows "ds_same_cache ds ds'"
proof -
  have "ds_same_cache ds (fst (ds', refs))"
    by (rule foldM_inv[OF assms[unfolded link_ancestors_def], of "\<lambda>s. ds_same_cache ds (fst s)"])
      (auto simp: bind_Some_iff dest!: link_same intro: ds_same_cache_trans)
  then show ?thesis by simp
qed

text \<open>Two states that serve the same blocks.\<close>

definition same_view :: "dag_state \<Rightarrow> dag_state \<Rightarrow> bool" where
  "same_view ds ds' \<longleftrightarrow> ds_inv ds' \<and> ds_get_block ds' = ds_get_block ds \<and> ds_context ds' = ds_context ds \<and> ds_genesis ds' = ds_genesis ds"

lemma same_cache_view: "ds_inv ds \<Longrightarrow> ds_same_cache ds ds' \<Longrightarrow> same_view ds ds'"
proof -
  assume inv: "ds_inv ds" and s: "ds_same_cache ds ds'"
  have "ds_frame ds' = ds_frame ds" using s by (simp add: ds_same_cache_def)
  from ds_frame_sel(1,2)[OF this] show ?thesis using ds_same_cache_inv[OF s inv] ds_same_cache_get[OF s] by (simp add: same_view_def)
qed

lemma same_view_trans: "same_view ds ds1 \<Longrightarrow> same_view ds1 ds2 \<Longrightarrow> same_view ds ds2"
  by (simp add: same_view_def)

lemma take_votes_view: "ds_inv ds \<Longrightarrow> same_view ds (fst (ds_take_commit_votes k ds))"
proof -
  assume inv: "ds_inv ds"
  let ?ds = "fst (ds_take_commit_votes k ds)"
  have c: "ds_cached ?ds = ds_cached ds" by (simp add: ds_take_commit_votes_def ds_cached_def fun_eq_iff)
  have gc: "ds_gc_round ?ds = ds_gc_round ds" by (simp add: ds_take_commit_votes_def ds_gc_round_def ds_calculate_gc_round_def ds_last_commit_round_def)
  have k: "ds_context ?ds = ds_context ds" "ds_genesis ?ds = ds_genesis ds" "ds_store ?ds = ds_store ds" "ds_cached_rounds ?ds = ds_cached_rounds ds"
    "ds_recent_refs_by_authority ?ds = ds_recent_refs_by_authority ds" "ds_evicted_rounds ?ds = ds_evicted_rounds ds"
    "ds_blocks_to_write ?ds = ds_blocks_to_write ds" by (simp_all add: ds_take_commit_votes_def)
  have "ds_inv ?ds" using inv unfolding ds_inv_def ds_static_def ds_cache_ok_def ds_stored_ok_def ds_buffer_ok_def c gc k .
  moreover have "ds_get_block ?ds = ds_get_block ds" by (simp add: fun_eq_iff ds_get_block_eq c k cong: option.case_cong)
  ultimately show ?thesis by (simp add: same_view_def k)
qed

lemma flush_view:
  assumes inv: "ds_inv ds" and f: "ds_flush ds = Some ds'"
  shows "same_view ds ds'"
proof -
  let ?P = "\<lambda>x. ds_context x = ds_context ds \<and> ds_genesis x = ds_genesis ds"
  have e: "?P y" if "ds_evict_authority a x = Some y" "?P x" for a x y
    using that by (auto elim!: bind_SomeE simp: ds_evict_authority_def Let_def case_prod_beta)
  have p: "?P (ds_persist ds)" by (simp add: ds_persist_def)
  have "?P ds'"
  proof (cases "ds_flush ds = Some ds \<and> ds' = ds")
    case False
    with f obtain d where d: "foldM ds_evict_authority (authority_indices (ds_committee (ds_persist ds))) (ds_persist ds) = Some d"
      "ds' = d\<lparr>ds_round_info := dropWhile (\<lambda>info. ri_round info \<le> ds_gc_round d) (ds_round_info d)\<rparr>"
      by (auto simp: ds_flush_eq bind_Some_iff split: if_splits)
    have "?P d" by (rule foldM_inv[OF d(1), of ?P, OF p]) (use e in blast)
    then show ?thesis using d(2) by simp
  qed simp
  moreover obtain ds1 where "ds_flush ds = Some ds1 \<and> ds_inv ds1 \<and> ds_get_block ds1 = ds_get_block ds" using ds_flush_correct[OF inv] by blast
  ultimately show ?thesis using f by (simp add: same_view_def)
qed

lemma propose_block_steps:
  assumes "propose_block cy sign clk r slots as excl (sh, vp) = Some ((sh', vp'), eb, sent)"
  obtains li txs acks l consumer ds1 votes cvs sb ser ds2 vt ds3 ds4 rt consumer' where
    "foldM (\<lambda>b l. vec_set l (vb_author b) (Some (reference b))) as (vp_last_included_ancestors vp) = Some li"
    "consumer_next (vp_transaction_consumer vp) = ((txs, acks, l), consumer)"
    "ds_inv (sh_dag_state sh) \<longrightarrow> same_view (sh_dag_state sh) ds1"
    "signed_block_new cy sign (new_block_content (vp_context vp) r (pk_now clk) (map reference as) txs votes cvs) = Inr sb"
    "cy_bcs_signed_block cy sb = Inr ser"
    "ds_accept_block (pk_instant clk) (new_verified cy sb ser) ds1 = Some ds2"
    "ds_inv ds2 \<longrightarrow> same_view ds2 ds3" "ds_flush ds3 = Some ds4"
    "eb = \<lparr>eb_block = new_verified cy sb ser, eb_excluded_ancestors = excl\<rparr>"
    "update_from_verified_block eb (sh_round_tracker sh) = Some rt"
    "sh' = \<lparr>sh_dag_state = ds4, sh_vote_tracker = vt, sh_round_tracker = rt\<rparr>"
    "vp' = vp\<lparr>vp_last_included_ancestors := li, vp_transaction_consumer := consumer'\<rparr>"
proof -
  obtain txs acks l consumer where n: "consumer_next (vp_transaction_consumer vp) = ((txs, acks, l), consumer)" by (metis surj_pair)
  let ?ds = "sh_dag_state sh" and ?v = "pc_transaction_voting_enabled (cx_protocol_config (vp_context vp))"
  obtain ds0 cvs where v: "ds_take_commit_votes MAX_COMMIT_VOTES_PER_BLOCK ?ds = (ds0, cvs)" by (metis surj_pair)
  from assms obtain li ds1 votes sb ser ds2 ds3 vt ds4 rt consumer' where
    s: "foldM (\<lambda>b l. vec_set l (vb_author b) (Some (reference b))) as (vp_last_included_ancestors vp) = Some li"
    and l1: "votes_on_ancestors (vp_context vp) as (sh_vote_tracker sh) ds0 = Some (ds1, votes)"
    and b: "signed_block_new cy sign (new_block_content (vp_context vp) r (pk_now clk) (map reference as) txs votes cvs) = Inr sb" "cy_bcs_signed_block cy sb = Inr ser"
    and a: "ds_accept_block (pk_instant clk) (new_verified cy sb ser) ds1 = Some ds2"
    and l2: "track_own_block (vp_context vp) (new_verified cy sb ser) (sh_vote_tracker sh) ds2 = Some (ds3, vt)"
    and f: "ds_flush ds3 = Some ds4" "eb = \<lparr>eb_block = new_verified cy sb ser, eb_excluded_ancestors = excl\<rparr>"
      "update_from_verified_block eb (sh_round_tracker sh) = Some rt"
      "sh' = \<lparr>sh_dag_state = ds4, sh_vote_tracker = vt, sh_round_tracker = rt\<rparr>"
      "vp' = vp\<lparr>vp_last_included_ancestors := li, vp_transaction_consumer := consumer'\<rparr>"
    by (auto elim!: bind_SomeE simp: propose_block_def Let_def n v split_beta split: sum.splits)
  have "same_view ?ds ds1" if inv: "ds_inv ?ds"
  proof -
    have t: "same_view ?ds ds0" using take_votes_view[OF inv, of MAX_COMMIT_VOTES_PER_BLOCK] v by simp
    have "ds_same_cache ds0 ds1" using l1 by (auto simp: votes_on_ancestors_def bind_Some_iff split: if_splits dest!: link_ancestors_same)
    then have "same_view ds0 ds1" using t by (intro same_cache_view) (simp_all add: same_view_def)
    then show ?thesis by (rule same_view_trans[OF t])
  qed
  moreover have "ds_inv ds2 \<Longrightarrow> same_view ds2 ds3"
    using l2 by (auto simp: track_own_block_def bind_Some_iff split: if_splits dest!: link_same intro: same_cache_view)
  ultimately show ?thesis using that[OF s n _ b a _ f] by blast
qed

lemma content_sel [simp]:
  "block_epoch (new_block_content ctx r now as txs votes cvs) = c_epoch (cx_committee ctx)"
  "block_round (new_block_content ctx r now as txs votes cvs) = r"
  "block_author (new_block_content ctx r now as txs votes cvs) = cx_own_index ctx"
  "block_ancestors (new_block_content ctx r now as txs votes cvs) = as"
  "block_transactions (new_block_content ctx r now as txs votes cvs) = txs"
  by (simp_all add: new_block_content_def)

lemma signed_block_new_inner: "signed_block_new cy sign b = Inr sb \<Longrightarrow> sb_inner sb = b"
  by (auto simp: signed_block_new_def split: sum.splits)

lemma set_included_length:
  assumes "foldM (\<lambda>b l. vec_set l (vb_author b) (Some (reference b))) as li = Some li'"
  shows "length li' = length li"
  by (rule foldM_inv[OF assms, of "\<lambda>l. length l = length li"]) (auto simp: vec_set_def split: if_splits)

lemma propose_block_spec:
  assumes ok: "proposer_ok cy gs sh vp" and ds: "ds = sh_dag_state sh" and as: "proposal_ancestors ds gs r own as"
    and ex: "\<forall>e\<in>set excl. br_author e < ds_size ds"
    and p: "propose_block cy sign clk r slots as excl (sh, vp) = Some ((sh', vp'), eb, sent)"
  shows "\<exists>txs acks l consumer votes cvs. consumer_next (vp_transaction_consumer vp) = ((txs, acks, l), consumer) \<and>
      signed_block_new cy sign (new_block_content (vp_context vp) r (pk_now clk) (map reference as) txs votes cvs) = Inr (vb_block (eb_block eb))"
    and "proposer_ok cy gs sh' vp'"
    and "ds_get_block (sh_dag_state sh') = (\<lambda>x. if x = reference (eb_block eb) \<and> ds_get_block ds x = None then Some (eb_block eb) else ds_get_block ds x)"
    and "vb_round (eb_block eb) = r" and "vb_author (eb_block eb) = cx_own_index (ds_context ds)"
    and "ds_context (sh_dag_state sh') = ds_context ds" and "vp_context vp' = vp_context vp"
proof -
  have vp: "ds_inv ds" "genesis_of cy ds gs" "vp_context vp = ds_context ds" "context_is_validator (ds_context ds)" "rt_context (sh_round_tracker sh) = ds_context ds"
    "round_tracker_wf (sh_round_tracker sh)" using ok by (simp_all add: proposer_ok_def ds Let_def)
  obtain li txs acks l consumer ds1 votes cvs sb ser ds2 vt ds3 ds4 rt consumer' where
    s: "foldM (\<lambda>b l. vec_set l (vb_author b) (Some (reference b))) as (vp_last_included_ancestors vp) = Some li"
    and n: "consumer_next (vp_transaction_consumer vp) = ((txs, acks, l), consumer)"
    and v1: "ds_inv (sh_dag_state sh) \<longrightarrow> same_view (sh_dag_state sh) ds1"
    and b: "signed_block_new cy sign (new_block_content (vp_context vp) r (pk_now clk) (map reference as) txs votes cvs) = Inr sb"
    and ser: "cy_bcs_signed_block cy sb = Inr ser"
    and acc: "ds_accept_block (pk_instant clk) (new_verified cy sb ser) ds1 = Some ds2"
    and v2: "ds_inv ds2 \<longrightarrow> same_view ds2 ds3" and fl: "ds_flush ds3 = Some ds4"
    and eb: "eb = \<lparr>eb_block = new_verified cy sb ser, eb_excluded_ancestors = excl\<rparr>"
    and rt: "update_from_verified_block eb (sh_round_tracker sh) = Some rt"
    and sh': "sh' = \<lparr>sh_dag_state = ds4, sh_vote_tracker = vt, sh_round_tracker = rt\<rparr>"
    and vp': "vp' = vp\<lparr>vp_last_included_ancestors := li, vp_transaction_consumer := consumer'\<rparr>"
    by (rule propose_block_steps[OF p])
  let ?b = "new_verified cy sb ser"
  have sb: "vb_block ?b = sb" "vb_round ?b = r" "vb_author ?b = cx_own_index (ds_context ds)" "vb_ancestors ?b = map reference as"
    using signed_block_new_inner[OF b] vp(3) by (simp_all add: new_verified_def vb_round_def vb_author_def vb_ancestors_def)
  have a: "vb_author ?b < ds_size ds" using sb(3) vp(4) by (simp add: context_is_validator_def is_valid_index_def)
  have 1: "same_view ds ds1" using v1 vp(1) ds by simp
  then have inv1: "ds_inv ds1" and a1: "vb_author ?b < ds_size ds1" using a by (simp_all add: same_view_def)
  note acc2 = ds_accept_block_inv[OF inv1 a1 acc] accept_context[OF inv1 a1 acc]
  have 3: "same_view ds2 ds3" using v2 acc2(1) by simp
  have 4: "same_view ds2 ds4" using same_view_trans[OF 3] flush_view[OF _ fl] 3 by (simp add: same_view_def)
  have ctx: "ds_context ds4 = ds_context ds" "ds_genesis ds4 = ds_genesis ds" "ds_inv ds4" using 1 4 acc2 by (simp_all add: same_view_def)
  show "\<exists>txs acks l consumer votes cvs. consumer_next (vp_transaction_consumer vp) = ((txs, acks, l), consumer) \<and>
      signed_block_new cy sign (new_block_content (vp_context vp) r (pk_now clk) (map reference as) txs votes cvs) = Inr (vb_block (eb_block eb))"
    using n b sb(1) eb by auto
  show "ds_get_block (sh_dag_state sh') = (\<lambda>x. if x = reference (eb_block eb) \<and> ds_get_block ds x = None then Some (eb_block eb) else ds_get_block ds x)"
  proof -
    have g: "ds_get_block ds4 = ds_get_block ds2" "ds_get_block ds1 = ds_get_block ds" using 1 4 by (simp_all add: same_view_def)
    show ?thesis unfolding sh' eb shared_state.simps extended_block.simps g(1) acc2(2) g(2) ..
  qed
  show "vb_round (eb_block eb) = r" "vb_author (eb_block eb) = cx_own_index (ds_context ds)" using sb eb by simp_all
  show "ds_context (sh_dag_state sh') = ds_context ds" "vp_context vp' = vp_context vp" using ctx sh' vp' by simp_all
  have "\<forall>x\<in>set (vb_ancestors ?b) \<union> set excl. br_author x < ds_size ds" using as ex sb(4) by (auto simp: proposal_ancestors_def ancestor_ok_def)
  then have "round_tracker_wf rt \<and> rt_context rt = rt_context (sh_round_tracker sh)"
    using update_from_verified_block_spec[OF vp(6) refl, of eb] a eb rt vp(5) by auto
  then show "proposer_ok cy gs sh' vp'" using ok ctx set_included_length[OF s] vp(2) by (simp add: proposer_ok_def sh' vp' ds[symmetric] Let_def genesis_of_def)
qed

subsection \<open>A proposal\<close>

lemma try_new_block_spec:
  assumes ok: "proposer_ok cy gs sh vp" and ds: "ds = sh_dag_state sh"
    and t: "try_new_block cy sign rg clk force (sh, vp) = Some ((sh', vp'), Some (eb, sent))"
  shows "\<exists>as own vp1 slots excl. proposal_ancestors ds gs (ds_threshold_clock_round ds) own as \<and> vb_author own = cx_own_index (ds_context ds) \<and> proposer_ok cy gs sh vp1 \<and>
      vp_transaction_consumer vp1 = vp_transaction_consumer vp \<and> vp_context vp1 = vp_context vp \<and> (\<forall>e\<in>set excl. br_author e < ds_size ds) \<and>
      propose_block cy sign clk (ds_threshold_clock_round ds) slots as excl (sh, vp1) = Some ((sh', vp'), eb, sent)"
    and "\<And>r. ds_get_block ds r \<noteq> None \<Longrightarrow> br_author r = cx_own_index (ds_context ds) \<Longrightarrow> br_round r < ds_threshold_clock_round ds"
proof -
  let ?r = "ds_threshold_clock_round ds"
  have vp: "ds_inv ds" "genesis_of cy ds gs" "vp_context vp = ds_context ds" "context_is_validator (ds_context ds)"
    using ok by (simp_all add: proposer_ok_def ds Let_def)
  from t obtain slots vp1 as exc where
    pr: "proposal_round rg (pk_checked clk) force ds vp = Some (Some (?r, slots))"
    and sm: "smart_ancestors_to_propose ?r (\<not> force) sh vp = Some (vp1, as, exc)" "as \<noteq> []"
    and pb: "propose_block cy sign clk ?r slots as (take (committee_size (cx_committee (vp_context vp1)) * 2) (sorted_list_of_fset exc)) (sh, vp1) =
      Some ((sh', vp'), eb, sent)"
  proof -
    from t obtain nr where nr: "proposal_round rg (pk_checked clk) force ds vp = Some (Some nr)"
      by (auto simp: try_new_block_def ds bind_Some_iff split: option.splits)
    obtain slots where "nr = (?r, slots)"
      using nr by (auto simp: proposal_round_def Let_def bind_Some_iff split: if_splits)
    then show ?thesis using t nr that
      by (auto simp: try_new_block_def ds[symmetric] bind_Some_iff Let_def split: if_splits)
  qed
  obtain own where own: "last_proposed_block ds = Some own" "vb_author own = cx_own_index (ds_context ds)"
    "\<And>r. ds_get_block ds r \<noteq> None \<Longrightarrow> br_author r = cx_own_index (ds_context ds) \<Longrightarrow> br_round r \<le> vb_round own"
    by (rule last_proposed_spec[OF vp(1,2,4)]) blast
  have lt: "vb_round own < ?r" using pr own(1) by (auto simp: proposal_round_def last_proposed_round_def Let_def bind_Some_iff split: if_splits)
  from own(3) lt show "\<And>r. ds_get_block ds r \<noteq> None \<Longrightarrow> br_author r = cx_own_index (ds_context ds) \<Longrightarrow> br_round r < ?r" by fastforce
  have xs: "\<exists>xs. ds_get_last_cached_block_per_authority ds ?r = Some xs"
    using sm(1) unfolding smart_ancestors_to_propose_def Let_def ds[symmetric] by (elim bind_SomeE) blast
  then obtain xs where xs: "ds_get_last_cached_block_per_authority ds ?r = Some xs" by blast
  have pos: "0 < ?r" using lt by simp
  from smart_ancestors_total[OF ok ds pos xs own(1) lt, of "\<not> force"] obtain am li as' exc' reached0 reached where
    a: "am_inv (ds_committee ds) am" "am_propagation_scores am = am_propagation_scores (vp_ancestor_state_manager vp)" "length li = ds_size ds"
    "smart_ancestors_to_propose ?r (\<not> force) sh vp =
      (if \<not> force \<and> \<not> reached0 then Some (vp\<lparr>vp_ancestor_state_manager := am\<rparr>, [], {||})
       else if reached then Some (vp\<lparr>vp_ancestor_state_manager := am, vp_last_included_ancestors := li\<rparr>, as', exc') else None)"
    "reached \<longrightarrow> proposal_ancestors ds gs ?r own as'" "\<forall>e\<in>fset exc'. br_author e < ds_size ds" by blast
  have e: "reached" "vp1 = vp\<lparr>vp_ancestor_state_manager := am, vp_last_included_ancestors := li\<rparr>" "as = as'" "exc = exc'"
    using a(4) sm by (auto split: if_splits)
  have ok1: "proposer_ok cy gs sh vp1" using ok a(1-3) by (simp add: proposer_ok_def e(2) ds[symmetric] Let_def)
  have "\<forall>e\<in>set (take k (sorted_list_of_fset exc)). br_author e < ds_size ds" for k
    using a(6) e(4) by (auto dest!: in_set_takeD simp: sorted_list_of_fset.rep_eq)
  then show "\<exists>as own vp1 slots excl. proposal_ancestors ds gs ?r own as \<and> vb_author own = cx_own_index (ds_context ds) \<and> proposer_ok cy gs sh vp1 \<and>
      vp_transaction_consumer vp1 = vp_transaction_consumer vp \<and> vp_context vp1 = vp_context vp \<and> (\<forall>e\<in>set excl. br_author e < ds_size ds) \<and>
      propose_block cy sign clk ?r slots as excl (sh, vp1) = Some ((sh', vp'), eb, sent)"
    using a(5) e ok1 pb own(2) by (intro exI[of _ as] exI[of _ own] exI[of _ vp1]) auto
qed

text \<open>What the client accepts and the consumer holds; and the contract of the signing key: what it signs verifies with the public key.\<close>

definition consumer_ok :: "consensus_context \<Rightarrow> transaction_consumer \<Rightarrow> bool" where
  "consumer_ok ctx tc \<longleftrightarrow> (let pc = cx_protocol_config ctx in
     tc_max_num_transactions_in_block tc = pc_max_num_transactions_in_block pc \<and> tc_max_num_transactions_in_block tc \<le> 65527 \<and>
     tc_max_transactions_in_block_bytes tc = pc_max_transactions_in_block_bytes pc \<and>
     (\<forall>g\<in>set (held_bundles tc). bundle_ok tc g \<and> (\<forall>t\<in>set (tg_transactions g). length (t_data t) \<le> pc_max_transaction_size_bytes pc)))"

definition signs_for :: "crypto \<Rightarrow> (bytes \<Rightarrow> bytes) \<Rightarrow> bytes \<Rightarrow> bool" where
  "signs_for cy sign key \<longleftrightarrow> (\<forall>m. \<exists>sig u. cy_signature_from_bytes cy (sign m) = Inr sig \<and> cy_verify cy key m sig = Inr u)"

lemma signed_block_verifies:
  assumes "signed_block_new cy sign b = Inr sb" and "signs_for cy sign (a_protocol_key (c_authorities (cx_committee ctx) ! block_author b))"
    and "is_valid_index (cx_committee ctx) (block_author b)"
  shows "verify_signature cy ctx sb = Inr ()"
proof -
  obtain d m where d: "compute_inner_block_digest cy b = Inr d" "cy_bcs_intent cy d = Inr m" "sb = \<lparr>sb_inner = b, sb_signature = sign m\<rparr>"
    using assms(1) by (auto simp: signed_block_new_def compute_block_signature_def split: sum.splits)
  obtain sig u where "cy_signature_from_bytes cy (sign m) = Inr sig" "cy_verify cy (a_protocol_key (c_authorities (cx_committee ctx) ! block_author b)) m sig = Inr u"
    using assms(2) by (auto simp: signs_for_def)
  then show ?thesis using d assms(3) by (simp add: verify_signature_def verify_block_signature_def Let_def)
qed

lemma consumer_transactions_ok:
  assumes "consumer_ok ctx tc" and "consumer_next tc = ((txs, acks, l), tc')"
  shows "check_transactions ctx (map t_data txs) = Inr ()"
proof -
  let ?pc = "cx_protocol_config ctx"
  have c: "tc_max_num_transactions_in_block tc = pc_max_num_transactions_in_block ?pc" "tc_max_num_transactions_in_block tc \<le> 65527"
    "tc_max_transactions_in_block_bytes tc = pc_max_transactions_in_block_bytes ?pc" "\<forall>g\<in>set (held_bundles tc). bundle_ok tc g"
    "\<And>g t. g \<in> set (held_bundles tc) \<Longrightarrow> t \<in> set (tg_transactions g) \<Longrightarrow> length (t_data t) \<le> pc_max_transaction_size_bytes ?pc"
    using assms(1) by (auto simp: consumer_ok_def Let_def)
  from consumer_next_spec[OF c(2,4) assms(2)] obtain taken where
    t: "held_bundles tc = taken @ held_bundles tc'" "txs = concat (map tg_transactions taken)"
    "length txs \<le> pc_max_num_transactions_in_block ?pc" "txs_bytes txs \<le> pc_max_transactions_in_block_bytes ?pc" unfolding c(1,3) by blast
  have "length (t_data x) \<le> pc_max_transaction_size_bytes ?pc" if "x \<in> set txs" for x using that t(1,2) c(5) by fastforce
  then show ?thesis using t(3,4) by (simp add: check_transactions_ok transactions_within_limits_def Let_def comp_def)
qed

lemma proposal_ancestors_wf:
  assumes ok: "proposer_ok cy gs sh vp" and ds: "ds = sh_dag_state sh" and as: "proposal_ancestors ds gs r own as"
    and own: "vb_author own = cx_own_index (ds_context ds)"
  shows "ancestors_wf (ds_committee ds) (cx_own_index (ds_context ds)) r (map reference as)"
    and "own_ancestor_first (cx_own_index (ds_context ds)) (map reference as)"
    and "\<forall>a\<in>set (map reference as). br_round a = GENESIS_ROUND \<longrightarrow> a \<in> reference ` set gs"
proof -
  have inv: "ds_inv ds" "length gs = ds_size ds" using ok genesis_of_nth(1) by (auto simp: proposer_ok_def ds Let_def)
  have a: "vb_author b < ds_size ds" "vb_round b < r" "b = gs ! vb_author b \<or> ds_cached ds (reference b) = Some b" if "b \<in> set as" for b
    using as that by (auto simp: proposal_ancestors_def ancestor_ok_def last_block_ok_def)
  have img: "br_author ` {a \<in> reference ` set as. br_round a = r - 1} = vb_author ` {b \<in> set as. vb_round b = r - 1}" by force
  show "ancestors_wf (ds_committee ds) (cx_own_index (ds_context ds)) r (map reference as)"
    using as a(1,2) img by (auto simp: ancestors_wf_def proposal_ancestors_def is_valid_index_def comp_def)
  show "own_ancestor_first (cx_own_index (ds_context ds)) (map reference as)"
  proof -
    obtain rest where rest: "as = own # rest" using as by (cases as) (auto simp: proposal_ancestors_def)
    then have "vb_author own \<notin> vb_author ` set rest" using as by (simp add: proposal_ancestors_def)
    then have "\<forall>b\<in>set rest. vb_author b \<noteq> vb_author own" by (metis imageI)
    then show ?thesis using rest own by (simp add: own_ancestor_first_def)
  qed
  show "\<forall>a\<in>set (map reference as). br_round a = GENESIS_ROUND \<longrightarrow> a \<in> reference ` set gs"
  proof (intro ballI impI)
    fix x assume "x \<in> set (map reference as)" "br_round x = GENESIS_ROUND"
    then obtain b where b: "b \<in> set as" "x = reference b" "vb_round b = 0" by (auto simp: GENESIS_ROUND_def)
    then have "b = gs ! vb_author b" using a(3)[OF b(1)] ds_inv_cached[OF inv(1), of "reference b" b] by auto
    then show "x \<in> reference ` set gs" using b(2) a(1)[OF b(1)] inv(2) by (metis image_eqI nth_mem)
  qed
qed

end
