(* ===== verification/Proposal_Progress.thy ===== *)
theory Proposal_Progress
  imports Proposal Commit_Safety
begin

text \<open>
  Properties of proposing (\<^verbatim>\<open>consensus/core/src/proposer.rs\<close>): a forced proposal succeeds when a quorum of parents is cached, a proposed
  block passes the verifier of every other authority, and a validator never proposes twice for a round.
\<close>

subsection \<open>The last blocks are complete\<close>

definition has_block_at :: "dag_state \<Rightarrow> round \<Rightarrow> authority_index \<Rightarrow> bool" where
  "has_block_at ds r a \<longleftrightarrow> r = 0 \<or> (\<exists>x. ds_cached ds x \<noteq> None \<and> br_author x = a \<and> br_round x = r)"

lemma cached_refs_last:
  assumes inv: "ds_inv ds" and a: "a < ds_size ds" and ev: "ds_evicted_rounds ds ! a < r - 1" and h: "has_block_at ds (r - 1) a"
  shows "\<exists>x xs b. rev (cached_refs ds r a) = x # xs \<and> ds_cached ds x = Some b \<and> vb_author b = a \<and> vb_round b = r - 1"
proof -
  let ?l = "cached_refs ds r a"
  obtain y where y: "ds_cached ds y \<noteq> None" "br_author y = a" "br_round y = r - 1" using h ev by (auto simp: has_block_at_def)
  have yin: "y \<in> set ?l" using cached_refs_in[OF inv a] y ev by simp
  have "sorted ?l" by (simp add: cached_refs_def sorted_wrt_filter)
  obtain x xs where x: "rev ?l = x # xs" using yin by (cases "rev ?l") auto
  then have l: "?l = rev xs @ [x]" by (metis rev.simps(2) rev_rev_ident)
  then have "y \<le> x" using \<open>sorted ?l\<close> yin by (auto simp: sorted_append)
  then have "br_round y \<le> br_round x" by (rule block_ref_le_round)
  moreover have xin: "ds_cached ds x \<noteq> None" "br_author x = a" "br_round x < r" using cached_refs_in[OF inv a, of x r] l by auto
  ultimately have "br_round x = r - 1" using y(3) by simp
  moreover obtain b where b: "ds_cached ds x = Some b" using xin(1) by blast
  ultimately show ?thesis using x xin(2) ds_inv_cached[OF inv b] by auto
qed

lemma last_cached_steps:
  assumes inv: "ds_inv ds" and g: "genesis_of cy ds gs" and ev: "\<forall>a<ds_size ds. ds_evicted_rounds ds ! a < r - 1" and k: "k \<le> ds_size ds"
  shows "\<exists>blocks eqs. foldM (last_cached_step ds r) (map (\<lambda>a. (a, ds_recent_refs_by_authority ds ! a)) [0..<k]) (gs, replicate (ds_size ds) []) = Some (blocks, eqs) \<and>
    length blocks = ds_size ds \<and> length eqs = ds_size ds \<and>
    (\<forall>a<k. has_block_at ds (r - 1) a \<longrightarrow> vb_author (blocks ! a) = a \<and> vb_round (blocks ! a) = r - 1)"
  using k
proof (induction k)
  case 0
  then show ?case using genesis_of_nth(1)[OF g] by simp
next
  case (Suc k)
  then obtain blocks eqs where s: "foldM (last_cached_step ds r) (map (\<lambda>a. (a, ds_recent_refs_by_authority ds ! a)) [0..<k]) (gs, replicate (ds_size ds) []) = Some (blocks, eqs)"
    "length blocks = ds_size ds" "length eqs = ds_size ds"
    "\<forall>a<k. has_block_at ds (r - 1) a \<longrightarrow> vb_author (blocks ! a) = a \<and> vb_round (blocks ! a) = r - 1" by auto
  have k: "k < ds_size ds" using Suc.prems by simp
  note e = last_cached_step_eq[OF inv k s(2,3) ev[rule_format, OF k]]
  have f: "foldM (last_cached_step ds r) (map (\<lambda>a. (a, ds_recent_refs_by_authority ds ! a)) [0..<Suc k]) (gs, replicate (ds_size ds) []) =
    last_cached_step ds r (k, ds_recent_refs_by_authority ds ! k) (blocks, eqs)" 
    using s(1) by (cases "last_cached_step ds r (k, ds_recent_refs_by_authority ds ! k) (blocks, eqs)") (simp_all add: foldM_append)
  show ?case
  proof (cases "rev (cached_refs ds r k)")
    case Nil
    then have "\<not> has_block_at ds (r - 1) k" using cached_refs_last[OF inv k ev[rule_format, OF k]] by auto
    then show ?thesis unfolding f e Nil using s(2-4) by (auto simp: less_Suc_eq)
  next
    case (Cons x xs)
    then have "has_block_at ds (r - 1) k \<Longrightarrow> vb_author (the (ds_cached ds x)) = k \<and> vb_round (the (ds_cached ds x)) = r - 1"
      using cached_refs_last[OF inv k ev[rule_format, OF k]] by auto
    then show ?thesis unfolding f e Cons using s(2-4) k by (auto simp: less_Suc_eq nth_list_update)
  qed
qed

lemma last_cached_complete:
  assumes inv: "ds_inv ds" and g: "genesis_of cy ds gs" and r: "0 < r" and ev: "1 < r \<longrightarrow> (\<forall>a<ds_size ds. ds_evicted_rounds ds ! a < r - 1)"
  shows "\<exists>xs. ds_get_last_cached_block_per_authority ds r = Some xs \<and>
    (\<forall>a<ds_size ds. has_block_at ds (r - 1) a \<longrightarrow> (\<exists>b\<in>fst ` set xs. vb_author b = a \<and> vb_round b = r - 1))"
proof (cases "r = 1")
  case True
  have "\<exists>b\<in>set gs. vb_author b = a \<and> vb_round b = 0" if "a < ds_size ds" for a using genesis_of_nth[OF g] that by (metis nth_mem)
  then show ?thesis using True by (force simp: last_cached_fold genesis_map_sorted[OF g])
next
  case False
  have len: "length (ds_recent_refs_by_authority ds) = ds_size ds" using inv by (simp add: ds_inv_def ds_static_def)
  have en: "enumerate 0 (ds_recent_refs_by_authority ds) = map (\<lambda>a. (a, ds_recent_refs_by_authority ds ! a)) [0..<ds_size ds]"
    by (rule nth_equalityI) (simp_all add: len nth_enumerate_eq)
  have ev': "\<forall>a<ds_size ds. ds_evicted_rounds ds ! a < r - 1" using ev r False by simp
  from last_cached_steps[OF inv g ev' order_refl] obtain blocks eqs where
    s: "foldM (last_cached_step ds r) (enumerate 0 (ds_recent_refs_by_authority ds)) (gs, replicate (ds_size ds) []) = Some (blocks, eqs)"
    "length blocks = ds_size ds" "length eqs = ds_size ds"
    "\<forall>a<ds_size ds. has_block_at ds (r - 1) a \<longrightarrow> vb_author (blocks ! a) = a \<and> vb_round (blocks ! a) = r - 1" unfolding en by blast
  have "ds_get_last_cached_block_per_authority ds r = Some (zip blocks eqs)"
    using s(1) r False by (simp add: last_cached_fold genesis_map_sorted[OF g])
  moreover have z: "fst ` set (zip blocks eqs) = set blocks" using s(2,3) by (metis list.set_map map_fst_zip)
  moreover have "\<exists>b\<in>fst ` set (zip blocks eqs). vb_author b = a \<and> vb_round b = r - 1" if "a < ds_size ds" "has_block_at ds (r - 1) a" for a
    unfolding z using that s(2,4) by (metis nth_mem)
  ultimately show ?thesis by blast
qed

subsection \<open>A quorum of parents is enough\<close>

text \<open>What was included in own blocks is below the last own block.\<close>

definition included_below :: "shared_state \<Rightarrow> validator_proposer \<Rightarrow> bool" where
  "included_below sh vp \<longleftrightarrow> (\<forall>own a r. last_proposed_block (sh_dag_state sh) = Some own \<and> a < length (vp_last_included_ancestors vp) \<and>
     vp_last_included_ancestors vp ! a = Some r \<longrightarrow> br_round r < vb_round own)"

definition parents_cached :: "dag_state \<Rightarrow> round \<Rightarrow> bool" where
  "parents_cached ds r \<longleftrightarrow> (1 < r \<longrightarrow> (\<forall>a<ds_size ds. ds_evicted_rounds ds ! a < r - 1)) \<and>
     unat (c_quorum_threshold (ds_committee ds)) \<le> set_stake (ds_committee ds) {a. a < ds_size ds \<and> has_block_at ds (r - 1) a}"

lemma forced_ancestors:
  assumes ok: "proposer_ok cy gs sh vp" and ds: "ds = sh_dag_state sh" and inc: "included_below sh vp" and par: "parents_cached ds r"
    and own: "last_proposed_block ds = Some own" "vb_round own < r"
  shows "\<exists>am li as exc. smart_ancestors_to_propose r False sh vp =
      Some (vp\<lparr>vp_ancestor_state_manager := am, vp_last_included_ancestors := li\<rparr>, as, exc) \<and>
    proposal_ancestors ds gs r own as \<and> proposer_ok cy gs sh (vp\<lparr>vp_ancestor_state_manager := am, vp_last_included_ancestors := li\<rparr>) \<and>
    (\<forall>e\<in>fset exc. br_author e < ds_size ds)"
proof -
  have vp: "ds_inv ds" "genesis_of cy ds gs" "length (vp_last_included_ancestors vp) = ds_size ds" "context_is_validator (ds_context ds)"
    using ok by (simp_all add: proposer_ok_def ds Let_def)
  have pos: "0 < r" using own(2) by simp
  let ?c = "ds_committee ds" and ?me = "cx_own_index (ds_context ds)"
  from last_cached_complete[OF vp(1,2) pos] par obtain xs where
    xs: "ds_get_last_cached_block_per_authority ds r = Some xs"
    "\<And>a. a < ds_size ds \<Longrightarrow> has_block_at ds (r - 1) a \<Longrightarrow> \<exists>b\<in>fst ` set xs. vb_author b = a \<and> vb_round b = r - 1"
    unfolding parents_cached_def by blast
  from smart_ancestors_total[OF ok ds pos xs(1) own, of False] obtain am li as exc reached0 reached where
    s: "am_inv ?c am" "am_propagation_scores am = am_propagation_scores (vp_ancestor_state_manager vp)" "length li = ds_size ds"
    "smart_ancestors_to_propose r False sh vp =
      (if False \<and> \<not> reached0 then Some (vp\<lparr>vp_ancestor_state_manager := am\<rparr>, [], {||})
       else if reached then Some (vp\<lparr>vp_ancestor_state_manager := am, vp_last_included_ancestors := li\<rparr>, as, exc) else None)"
    "reached \<longrightarrow> proposal_ancestors ds gs r own as" "\<forall>e\<in>fset exc. br_author e < ds_size ds"
    "\<not> reached \<longrightarrow> set_stake ?c (vb_author ` {b. (b = own \<or> b \<in> fst ` set xs \<and> vb_author b \<noteq> ?me \<and> \<not> already_included vp b) \<and> vb_round b = r - 1})
      < unat (c_quorum_threshold ?c)" by blast
  have me: "vb_author own = ?me" "\<And>x. ds_get_block ds x \<noteq> None \<Longrightarrow> br_author x = ?me \<Longrightarrow> br_round x \<le> vb_round own"
    using last_proposed_spec[OF vp(1,2,4)] own(1) by (metis option.inject)+
  have "a \<in> vb_author ` {b. (b = own \<or> b \<in> fst ` set xs \<and> vb_author b \<noteq> ?me \<and> \<not> already_included vp b) \<and> vb_round b = r - 1}"
    if a: "a < ds_size ds" "has_block_at ds (r - 1) a" for a
  proof (cases "a = ?me")
    case True
    have "r - 1 \<le> vb_round own"
    proof (cases "r - 1 = 0")
      case False
      then obtain x where x: "ds_cached ds x \<noteq> None" "br_author x = ?me" "br_round x = r - 1" using a(2) True by (auto simp: has_block_at_def)
      then have "ds_get_block ds x \<noteq> None" using False by (auto simp: ds_get_block_eq GENESIS_ROUND_def)
      then show ?thesis using me(2) x(2,3) by fastforce
    qed simp
    then show ?thesis using True me(1) own(2) by (intro image_eqI[of _ _ own]) auto
  next
    case False
    obtain b where b: "b \<in> fst ` set xs" "vb_author b = a" "vb_round b = r - 1" using xs(2)[OF a] by blast
    have "\<not> already_included vp b"
    proof
      assume "already_included vp b"
      then obtain x where x: "vp_last_included_ancestors vp ! a = Some x" "r - 1 \<le> br_round x" using b by auto
      then have "br_round x < vb_round own" using inc own(1) a(1) vp(3) unfolding included_below_def ds[symmetric] by simp
      then show False using own(2) x(2) by simp
    qed
    then show ?thesis using b False by (intro image_eqI[of _ _ b]) auto
  qed
  then have "{a. a < ds_size ds \<and> has_block_at ds (r - 1) a} \<subseteq>
    vb_author ` {b. (b = own \<or> b \<in> fst ` set xs \<and> vb_author b \<noteq> ?me \<and> \<not> already_included vp b) \<and> vb_round b = r - 1}" by blast
  from set_stake_mono[OF this, of ?c] par s(7) have "reached" by (auto simp: parents_cached_def)
  moreover have "proposer_ok cy gs sh (vp\<lparr>vp_ancestor_state_manager := am, vp_last_included_ancestors := li\<rparr>)"
    using ok s(1-3) by (simp add: proposer_ok_def ds[symmetric] Let_def)
  ultimately show ?thesis using s(4-6) by auto
qed

subsection \<open>Making the block does not panic\<close>

lemma set_included_total:
  assumes "\<forall>b\<in>set as. vb_author b < length li"
  shows "\<exists>li'. foldM (\<lambda>b l. vec_set l (vb_author b) (Some (reference b))) as li = Some li'"
  using assms by (induction as arbitrary: li) (auto simp: vec_set_def)

lemma authorities_total:
  assumes "\<forall>b\<in>set as. vb_author b < committee_size c"
  shows "\<exists>ys. mapM (\<lambda>b. committee_authority c (vb_author b)) as = Some ys"
  by (rule mapM_ex) (use assms in \<open>auto simp: committee_authority_def committee_size_def\<close>)

lemma add_reject_vote_total: "author < committee_size c \<Longrightarrow> \<exists>info'. add_reject_vote c author i info = Some info'"
  by (auto simp: add_reject_vote_def sa_add_unique_eq)

lemma add_block_votes_total:
  assumes "author < committee_size c"
  shows "\<exists>votes'. add_block_votes c g author bv votes = Some votes'"
proof -
  have "\<exists>info'. foldM (add_reject_vote c author) is info = Some info'" for "is" info
    using add_reject_vote_total[OF assms] by (induction "is" arbitrary: info) (auto, metis bind.bind_lunit)
  then obtain info where "foldM (add_reject_vote c author) (btv_rejects bv) (vote_entry (btv_block_ref bv) votes) = Some info" by blast
  then show ?thesis by (simp add: add_block_votes_def Let_def)
qed

lemma add_voted_block_total:
  assumes "vb_author b < committee_size (vts_committee vt)"
  shows "\<exists>vt'. add_voted_blocks [(b, rs)] vt = Some vt'"
proof -
  have f: "\<exists>v'. foldM (add_block_votes (vts_committee vt) (vts_gc_round vt) (vb_author b)) bvs v = Some v'" for bvs v
    using add_block_votes_total[OF assms] by (induction bvs arbitrary: v) (auto, metis bind.bind_lunit)
  obtain au where "committee_authority (vts_committee vt) (vb_author b) = Some au" using assms by (auto simp: committee_authority_def committee_size_def)
  then show ?thesis using f by (auto simp: add_voted_blocks_def add_voted_block_def Let_def bind_Some_iff)
qed

text \<open>The blocks not linked yet are complete and tracked, so that votes on them exist.\<close>

definition votes_ready :: "shared_state \<Rightarrow> bool" where
  "votes_ready sh \<longleftrightarrow> (let ds = sh_dag_state sh; vt = sh_vote_tracker sh in
     ds_complete ds \<and> linked_closed ds \<and> vts_context vt = ds_context ds \<and>
     (\<forall>r. ds_gc_round ds < br_round r \<and> ds_get_block ds r \<noteq> None \<and> \<not> linked ds r \<longrightarrow> br_round r \<le> vts_gc_round vt \<or> r |\<in>| fmdom (vts_votes vt)))"

lemma same_cache_gc: "ds_same_cache ds ds' \<Longrightarrow> ds_gc_round ds' = ds_gc_round ds"
  using ds_frame_sel(8)[of ds' ds] by (simp add: ds_same_cache_def)

lemma link_ancestors_total:
  assumes "ds_inv ds" and "ds_complete ds" and "linked_closed ds" and "\<forall>b\<in>set as. ds_get_block ds (reference b) \<noteq> None"
  shows "\<exists>ds' refs. link_ancestors as ds = Some (ds', refs) \<and> ds_same_cache ds ds' \<and> linked_closed ds' \<and>
    (\<forall>r\<in>set refs. ds_gc_round ds < br_round r \<and> ds_get_block ds r \<noteq> None \<and> \<not> linked ds r)"
proof -
  let ?f = "\<lambda>b (ds, linked). do { (ds, refs) \<leftarrow> ds_link_causal_history (reference b) ds; Some (ds, linked @ refs) }"
  have "\<exists>ds' refs. foldM ?f as (ds, acc) = Some (ds', acc @ refs) \<and> ds_same_cache ds ds' \<and> linked_closed ds' \<and>
    (\<forall>r\<in>set refs. ds_gc_round ds < br_round r \<and> ds_get_block ds r \<noteq> None \<and> \<not> linked ds r)" for acc
    using assms
  proof (induction as arbitrary: ds acc)
    case (Cons b as)
    from link_history_total[OF Cons.prems(1-3), of "reference b"] Cons.prems(4) obtain ds1 refs1 where
      1: "ds_link_causal_history (reference b) ds = Some (ds1, refs1)"
      "set refs1 = {r. ds_gc_round ds < br_round r \<and> (ds_parent ds)\<^sup>*\<^sup>* (reference b) r \<and> \<not> linked ds r}"
      "\<forall>r. linked ds1 r \<longleftrightarrow> linked ds r \<or> r \<in> set refs1" "linked_closed ds1" "ds_same_cache ds ds1" by auto
    note g = ds_same_cache_get[OF 1(5)] same_cache_gc[OF 1(5)]
    have c: "ds_complete ds1" "\<forall>b\<in>set as. ds_get_block ds1 (reference b) \<noteq> None"
      using same_cache_complete[OF 1(5)] Cons.prems(2,4) by (simp_all add: g)
    from Cons.IH[OF ds_same_cache_inv[OF 1(5) Cons.prems(1)] c(1) 1(4) c(2), of "acc @ refs1"] obtain ds' refs where
      2: "foldM ?f as (ds1, acc @ refs1) = Some (ds', (acc @ refs1) @ refs)" "ds_same_cache ds1 ds'" "linked_closed ds'"
      "\<forall>r\<in>set refs. ds_gc_round ds < br_round r \<and> ds_get_block ds r \<noteq> None \<and> \<not> linked ds1 r" by (auto simp: g)
    have "ds_get_block ds r \<noteq> None" if "r \<in> set refs1" for r
    proof (cases "r = reference b")
      case False
      then have "(ds_parent ds)\<^sup>+\<^sup>+ (reference b) r" using that 1(2) by (auto dest: rtranclpD)
      then show ?thesis using ds_parent_served[OF Cons.prems(2)] that 1(2) by fastforce
    qed (use Cons.prems(4) in simp)
    then show ?case using 1 2 ds_same_cache_trans[OF 1(5) 2(2)] by (intro exI[of _ ds'] exI[of _ "refs1 @ refs"]) auto
  qed simp
  from this[of "[]"] show ?thesis by (simp add: link_ancestors_def)
qed

lemma get_own_votes_total:
  assumes "\<forall>r\<in>set refs. br_round r \<le> vts_gc_round vt \<or> r |\<in>| fmdom (vts_votes vt)"
  shows "\<exists>votes. get_own_votes refs vt = Some votes"
proof -
  let ?f = "\<lambda>r votes. if br_round r \<le> vts_gc_round vt then Some votes
         else do {
           info \<leftarrow> fmlookup (vts_votes vt) r;
           Some (if vi_own_reject_txn_votes info \<noteq> []
                 then votes @ [\<lparr>btv_block_ref = r, btv_rejects = vi_own_reject_txn_votes info\<rparr>] else votes)
         }"
  have "\<exists>votes. foldM ?f refs acc = Some votes" for acc
    using assms
  proof (induction refs arbitrary: acc)
    case (Cons r refs)
    then have "\<exists>x. ?f r acc = Some x" by (auto simp: fmlookup_dom_iff)
    then show ?case using Cons by auto
  qed simp
  then show ?thesis by (simp add: get_own_votes_def)
qed

lemma votes_on_ancestors_total:
  assumes "ds_inv ds" and "votes_ready sh" and "ds = sh_dag_state sh" and "\<forall>b\<in>set as. ds_get_block ds (reference b) \<noteq> None"
    and t: "ds_take_commit_votes k ds = (ds0, cvs)"
  shows "\<exists>ds1 votes. votes_on_ancestors ctx as (sh_vote_tracker sh) ds0 = Some (ds1, votes) \<and> ds_same_cache ds0 ds1 \<and> linked_closed ds1 \<and> ds_complete ds1 \<and> ds_inv ds1"
proof -
  have d: "ds0 = ds\<lparr>ds_pending_commit_votes := drop k (ds_pending_commit_votes ds)\<rparr>" using t by (simp add: ds_take_commit_votes_def)
  have v: "ds_inv ds0" "ds_get_block ds0 = ds_get_block ds" using take_votes_view[OF assms(1), of k] t by (simp_all add: same_view_def)
  have gc: "ds_gc_round ds0 = ds_gc_round ds" by (simp add: d ds_gc_round_def ds_calculate_gc_round_def ds_last_commit_round_def)
  have l: "linked ds0 = linked ds" by (simp add: d fun_eq_iff linked_iff)
  have p: "ds_parent ds0 = ds_parent ds" by (simp add: fun_eq_iff ds_parent_def v(2))
  have "ds_complete ds0 = ds_complete ds" "linked_closed ds0 = linked_closed ds"
    unfolding ds_complete_def linked_closed_def live_parent_def p v(2) gc l by (rule refl)+
  then have r: "ds_complete ds0" "linked_closed ds0" using assms(2,3) by (simp_all add: votes_ready_def Let_def)
  show ?thesis
  proof (cases "pc_transaction_voting_enabled (cx_protocol_config ctx)")
    case True
    from link_ancestors_total[OF v(1) r, of as] assms(4) v(2) obtain ds1 refs where
      a: "link_ancestors as ds0 = Some (ds1, refs)" "ds_same_cache ds0 ds1" "linked_closed ds1"
      "\<forall>r\<in>set refs. ds_gc_round ds < br_round r \<and> ds_get_block ds r \<noteq> None \<and> \<not> linked ds r" unfolding gc l by auto
    have "\<forall>r\<in>set refs. br_round r \<le> vts_gc_round (sh_vote_tracker sh) \<or> r |\<in>| fmdom (vts_votes (sh_vote_tracker sh))"
      using a(4) assms(2,3) unfolding votes_ready_def Let_def by blast
    from get_own_votes_total[OF this] obtain votes where "get_own_votes refs (sh_vote_tracker sh) = Some votes" by blast
    then show ?thesis using True a r(1) same_cache_complete[OF a(2)] ds_same_cache_inv[OF a(2) v(1)] by (simp add: votes_on_ancestors_def)
  qed (use r v(1) in \<open>simp add: votes_on_ancestors_def\<close>)
qed

lemma accept_keeps_links:
  assumes inv: "ds_inv ds" and c: "ds_complete ds" and cl: "linked_closed ds" and a: "vb_author b < ds_size ds"
    and new: "ds_get_block ds (reference b) = None" and acc: "ds_accept_block now b ds = Some ds'"
    and anc: "\<forall>x\<in>set (vb_ancestors b). br_round x < vb_round b \<and> (ds_gc_round ds < br_round x \<longrightarrow> ds_get_block ds x \<noteq> None)"
  shows "ds_complete ds'" and "linked_closed ds'" and "ds_get_block ds' (reference b) = Some b"
proof -
  have "ds_same_cache (ds_admit b ds) ds'" using ds_accept_block_cases[OF inv a acc] new by blast
  then have gc: "ds_gc_round ds' = ds_gc_round ds" using same_cache_gc by (simp add: ds_admit_def)
  note get = ds_accept_block_inv(2)[OF inv a acc]
  show "ds_get_block ds' (reference b) = Some b" using new by (simp add: get)
  have p: "ds_parent ds' x y \<longleftrightarrow> (if x = reference b then y \<in> set (vb_ancestors b) else ds_parent ds x y)" for x y
    using new by (auto simp: ds_parent_def get)
  show "ds_complete ds'" unfolding ds_complete_def
  proof (intro allI impI)
    fix x y assume "ds_parent ds' x y"
    then have "br_round y < br_round x \<and> (ds_gc_round ds < br_round y \<longrightarrow> ds_get_block ds y \<noteq> None)"
      using c anc by (cases "x = reference b") (auto simp: p ds_complete_def)
    then show "br_round y < br_round x \<and> (ds_gc_round ds' < br_round y \<longrightarrow> ds_get_block ds' y \<noteq> None)" by (auto simp: get gc)
  qed
  have "linked ds y" if l: "linked ds x" and lp: "live_parent ds' x y" for x y
  proof -
    have "ds_cached ds x \<noteq> None" using l by (auto simp: linked_iff ds_cached_def)
    then have "ds_get_block ds x \<noteq> None" using ds_inv_cached[OF inv, of x] by (auto simp: ds_get_block_eq GENESIS_ROUND_def)
    then have "live_parent ds x y" using lp new by (auto simp: live_parent_def gc p split: if_splits)
    then show ?thesis using cl l by (auto simp: linked_closed_def)
  qed
  then show "linked_closed ds'" unfolding linked_closed_def accept_linked[OF inv a acc] by blast
qed

text \<open>The serialization of blocks and messages does not fail.\<close>

definition serializes :: "crypto \<Rightarrow> bool" where
  "serializes cy \<longleftrightarrow> (\<forall>b. \<exists>s. cy_bcs_block cy b = Inr s) \<and> (\<forall>sb. \<exists>s. cy_bcs_signed_block cy sb = Inr s) \<and> (\<forall>d. \<exists>s. cy_bcs_intent cy d = Inr s)"

lemma signed_block_new_total: "serializes cy \<Longrightarrow> \<exists>sb. signed_block_new cy sign b = Inr sb"
  unfolding serializes_def signed_block_new_def compute_block_signature_def compute_inner_block_digest_def by (metis sum.case(2))

lemma ancestor_served:
  assumes inv: "ds_inv ds" and g: "genesis_of cy ds gs" and b: "ancestor_ok ds gs r b"
  shows "ds_get_block ds (reference b) = Some b"
proof -
  have b': "vb_author b < ds_size ds" "b = gs ! vb_author b \<or> ds_cached ds (reference b) = Some b" using b by (auto simp: ancestor_ok_def last_block_ok_def)
  show ?thesis
  proof (cases "ds_cached ds (reference b) = Some b")
    case True
    then show ?thesis using ds_inv_cached[OF inv True] by (simp add: ds_get_block_eq GENESIS_ROUND_def)
  next
    case False
    then have "b \<in> set gs" "vb_round b = 0" using b' genesis_of_nth[OF g] by (metis nth_mem)+
    then obtain k where "(k, b) \<in> set (sorted_list_of_fmap (ds_genesis ds))" using genesis_map_sorted[OF g] by (metis (no_types, lifting) imageE list.set_map prod.collapse)
    then have k: "fmlookup (ds_genesis ds) k = Some b" by (simp add: set_sorted_list_of_fmap)
    then have rk: "reference b = k" using inv by (auto simp: ds_inv_def ds_static_def)
    then have "br_round k = 0" using \<open>vb_round b = 0\<close> by auto
    then show ?thesis using k rk by (simp add: ds_get_block_eq GENESIS_ROUND_def)
  qed
qed

lemma propose_block_total:
  assumes ok: "proposer_ok cy gs sh vp" and ds: "ds = sh_dag_state sh" and as: "proposal_ancestors ds gs r own as" and r: "0 < r"
    and ex: "\<forall>e\<in>set excl. br_author e < ds_size ds" and ser: "serializes cy" and vr: "votes_ready sh"
    and v3: "\<not> pc_enable_v3 (cx_protocol_config (ds_context ds))" and slots: "slots \<noteq> []" "slot_authority (hd slots) < ds_size ds"
    and below: "\<And>x. ds_get_block ds x \<noteq> None \<Longrightarrow> br_author x = cx_own_index (ds_context ds) \<Longrightarrow> br_round x < r"
  shows "\<exists>sh' vp' eb sent. propose_block cy sign clk r slots as excl (sh, vp) = Some ((sh', vp'), eb, sent)"
proof -
  have vp: "ds_inv ds" "genesis_of cy ds gs" "vp_context vp = ds_context ds" "context_is_validator (ds_context ds)" "rt_context (sh_round_tracker sh) = ds_context ds"
    "round_tracker_wf (sh_round_tracker sh)" "length (vp_last_included_ancestors vp) = ds_size ds" using ok by (simp_all add: proposer_ok_def ds Let_def)
  let ?c = "ds_committee ds"
  have a: "\<forall>b\<in>set as. vb_author b < ds_size ds" "\<forall>b\<in>set as. ds_get_block ds (reference b) = Some b \<and> vb_round b < r"
    using as ancestor_served[OF vp(1,2)] by (auto simp: proposal_ancestors_def ancestor_ok_def last_block_ok_def)
  obtain li where li: "foldM (\<lambda>b l. vec_set l (vb_author b) (Some (reference b))) as (vp_last_included_ancestors vp) = Some li"
    using set_included_total[of as "vp_last_included_ancestors vp"] a(1) vp(7) by auto
  obtain au where au: "committee_authority ?c (slot_authority (slots ! 0)) = Some au"
    using slots by (auto simp: committee_authority_def committee_size_def hd_conv_nth)
  obtain ys where ys: "mapM (\<lambda>b. committee_authority ?c (vb_author b)) as = Some ys" using authorities_total[OF a(1)] by blast
  obtain txs acks l consumer where n: "consumer_next (vp_transaction_consumer vp) = ((txs, acks, l), consumer)" by (metis surj_pair)
  obtain ds0 cvs where t: "ds_take_commit_votes MAX_COMMIT_VOTES_PER_BLOCK ds = (ds0, cvs)" by (metis surj_pair)
  from votes_on_ancestors_total[OF vp(1) vr ds _ t, of as "ds_context ds"] a(2) obtain ds1 votes where
    d1: "votes_on_ancestors (ds_context ds) as (sh_vote_tracker sh) ds0 = Some (ds1, votes)" "ds_same_cache ds0 ds1" "linked_closed ds1" "ds_complete ds1" "ds_inv ds1" by auto
  have v0: "same_view ds ds0" using take_votes_view[OF vp(1), of MAX_COMMIT_VOTES_PER_BLOCK] t by simp
  have v1: "same_view ds ds1" using same_view_trans[OF v0] same_cache_view[OF _ d1(2)] v0 by (simp add: same_view_def)
  have g1: "ds_get_block ds1 = ds_get_block ds" "ds_context ds1 = ds_context ds" "ds_genesis ds1 = ds_genesis ds" using v1 by (simp_all add: same_view_def)
  obtain sb where sb: "signed_block_new cy sign (new_block_content (ds_context ds) r (pk_now clk) (map reference as) txs votes cvs) = Inr sb"
    using signed_block_new_total[OF ser] by blast
  obtain s where s: "cy_bcs_signed_block cy sb = Inr s" using ser unfolding serializes_def by blast
  define b where "b = new_verified cy sb s"
  have b: "vb_round b = r" "vb_author b = cx_own_index (ds_context ds)" "vb_ancestors b = map reference as"
    using signed_block_new_inner[OF sb] by (simp_all add: b_def new_verified_def vb_round_def vb_author_def vb_ancestors_def)
  have ba: "vb_author b < ds_size ds1" using vp(4) b(2) by (simp add: g1 context_is_validator_def is_valid_index_def)
  have "genesis_of cy ds1 gs" "context_is_validator (ds_context ds1)" using vp(2,4) g1(2,3) by (simp_all add: genesis_of_def)
  then obtain own1 where lp: "last_proposed_block ds1 = Some own1" by (rule last_proposed_spec[OF d1(5)]) blast
  have new: "ds_get_block ds1 x = None" if "slot_from x = slot_from (reference b)" for x
  proof (rule ccontr)
    assume "ds_get_block ds1 x \<noteq> None"
    moreover have "br_author x = cx_own_index (ds_context ds)" "br_round x = r" using that b by (cases x, simp add: slot_from_def)+
    ultimately show False using below[of x] by (simp add: g1)
  qed
  obtain ds2 where d2: "ds_accept_block (pk_instant clk) b ds1 = Some ds2"
    using ds_accept_block_total[OF d1(5) ba] v3 r b(1) no_uncommitted_at_slot[OF d1(5) new] by (auto simp: g1)
  note acc = accept_keeps_links[OF d1(5,4,3) ba new[OF refl] d2]
  have "\<forall>x\<in>set (vb_ancestors b). br_round x < vb_round b \<and> (ds_gc_round ds1 < br_round x \<longrightarrow> ds_get_block ds1 x \<noteq> None)"
    using a(2) b by (auto simp: g1)
  note acc = acc[OF this] and inv2 = ds_accept_block_inv(1)[OF d1(5) ba d2]
  obtain ds3 vt where d3: "track_own_block (ds_context ds) b (sh_vote_tracker sh) ds2 = Some (ds3, vt)" "ds_inv ds3"
  proof (cases "pc_transaction_voting_enabled (cx_protocol_config (ds_context ds))")
    case True
    have "vts_context (sh_vote_tracker sh) = ds_context ds" using vr ds by (simp add: votes_ready_def Let_def)
    then obtain vt where vt: "add_voted_blocks [(b, [])] (sh_vote_tracker sh) = Some vt" using add_voted_block_total[of b "sh_vote_tracker sh" "[]"] ba g1(2) by auto
    from link_history_total[OF inv2 acc(1,2), of "reference b"] acc(3) obtain ds3 refs where
      "ds_link_causal_history (reference b) ds2 = Some (ds3, refs)" "ds_same_cache ds2 ds3" by auto
    then show ?thesis using that[of ds3 vt] True vt ds_same_cache_inv[OF _ inv2] by (simp add: track_own_block_def)
  qed (use that[of ds2 "sh_vote_tracker sh"] inv2 in \<open>simp add: track_own_block_def\<close>)
  obtain ds4 where d4: "ds_flush ds3 = Some ds4" using ds_flush_correct[OF d3(2)] by blast
  have "\<forall>x\<in>set (vb_ancestors b) \<union> set excl. br_author x < ds_size ds" using a(1) ex b(3) by auto
  then obtain rt where rt: "update_from_verified_block \<lparr>eb_block = b, eb_excluded_ancestors = excl\<rparr> (sh_round_tracker sh) = Some rt"
    using update_from_verified_block_spec[OF vp(6) refl, of "\<lparr>eb_block = b, eb_excluded_ancestors = excl\<rparr>"] ba g1(2) vp(5) by auto
  obtain consumer' sent where ack: "ack_transactions acks (reference b) consumer = (consumer', sent)" by (metis surj_pair)
  show ?thesis
    by (simp add: propose_block_def Let_def vp(3) ds[symmetric] li v3 slots(1) au ys n t d1(1) sb s b_def[symmetric] lp d2 d3(1) d4 rt ack)
qed

lemma forced_proposal:
  assumes ok: "proposer_ok cy gs sh vp" and ds: "ds = sh_dag_state sh" and inc: "included_below sh vp" and vr: "votes_ready sh" and ser: "serializes cy"
    and par: "parents_cached ds (ds_threshold_clock_round ds)" and v3: "\<not> pc_enable_v3 (cx_protocol_config (ds_context ds))"
    and due: "should_propose ds vp" "\<exists>r. last_proposed_round ds = Some r \<and> r < ds_threshold_clock_round ds"
    and slots: "leader_slots_to_wait_for rg (vp_leader_waiter vp) (ds_threshold_clock_round ds - 1) = Some slots" "slots \<noteq> []" "slot_authority (hd slots) < ds_size ds"
  shows "\<exists>sh' vp' eb sent. try_new_block cy sign rg clk True (sh, vp) = Some ((sh', vp'), Some (eb, sent)) \<and> vb_round (eb_block eb) = ds_threshold_clock_round ds"
proof -
  let ?r = "ds_threshold_clock_round ds"
  have vp: "ds_inv ds" "genesis_of cy ds gs" "context_is_validator (ds_context ds)" using ok by (simp_all add: proposer_ok_def ds Let_def)
  from due(2) obtain own where own: "last_proposed_block ds = Some own" "vb_round own < ?r" by (auto simp: last_proposed_round_def)
  have below: "br_round x < ?r" if "ds_get_block ds x \<noteq> None" "br_author x = cx_own_index (ds_context ds)" for x
    using last_proposed_spec[OF vp] that own by (metis le_less_trans option.inject)
  from forced_ancestors[OF ok ds inc par own] obtain am li as exc where
    f: "smart_ancestors_to_propose ?r False sh vp = Some (vp\<lparr>vp_ancestor_state_manager := am, vp_last_included_ancestors := li\<rparr>, as, exc)"
    "proposal_ancestors ds gs ?r own as" "proposer_ok cy gs sh (vp\<lparr>vp_ancestor_state_manager := am, vp_last_included_ancestors := li\<rparr>)"
    "\<forall>e\<in>fset exc. br_author e < ds_size ds" by blast
  let ?vp = "vp\<lparr>vp_ancestor_state_manager := am, vp_last_included_ancestors := li\<rparr>"
  define excl where "excl = take (committee_size (cx_committee (vp_context ?vp)) * 2) (sorted_list_of_fset exc)"
  have ex: "\<forall>e\<in>set excl. br_author e < ds_size ds" using f(4) by (auto simp: excl_def sorted_list_of_fset.rep_eq dest!: in_set_takeD)
  have pos: "0 < ?r" using own(2) by simp
  from propose_block_total[OF f(3) ds f(2) pos ex ser vr v3 slots(2,3) below, of sign clk] obtain sh' vp' eb sent where
    p: "propose_block cy sign clk ?r slots as excl (sh, ?vp) = Some ((sh', vp'), eb, sent)" by blast
  have "proposal_round rg (pk_checked clk) True ds vp = Some (Some (?r, slots))"
    using due(1) own slots(1) by (simp add: proposal_round_def last_proposed_round_def Let_def)
  moreover have "as \<noteq> []" using f(2) by (simp add: proposal_ancestors_def)
  ultimately have "try_new_block cy sign rg clk True (sh, vp) = Some ((sh', vp'), Some (eb, sent))"
    using f(1) p by (simp add: try_new_block_def ds[symmetric] Let_def excl_def)
  then show ?thesis using propose_block_spec(4)[OF f(3) ds f(2) ex p] by blast
qed

subsection \<open>A first proposal\<close>

definition sample_shared :: shared_state where
  "sample_shared = \<lparr>sh_dag_state = sample_dag, sh_vote_tracker = vts_new sample_context, sh_round_tracker = the (round_tracker_new sample_context [])\<rparr>"

definition sample_proposer :: validator_proposer where
  "sample_proposer = validator_proposer_new sample_context
     \<lparr>tc_tx_receiver = [\<lparr>tg_transactions = [\<lparr>t_data = [1, 2, 3]\<rparr>], tg_included_in_block_ack = 1\<rparr>], tc_max_transactions_in_block_bytes = 12,
      tc_max_num_transactions_in_block = 5, tc_pending_transactions = None, tc_block_status_subscribers = fmempty\<rparr>
     (Some 0) (am_new sample_context)
     (WaiterV2 (uc_build sample_context (leader_schedule_new sample_context leader_swap_table_default) DEFAULT_WAVE_LENGTH 1 True))"

abbreviation sample_genesis_list :: "verified_block list" where
  "sample_genesis_list \<equiv> map sample_genesis [0, 1, 2, 3]"

lemma sample_genesis_of: "genesis_of sample_crypto sample_dag sample_genesis_list"
  unfolding genesis_of_def using sample_genesis_blocks by (simp add: sample_dag_def ds_fresh_def)

lemma sample_proposer_ok: "proposer_ok sample_crypto sample_genesis_list sample_shared sample_proposer"
proof -
  obtain rt where rt: "round_tracker_new sample_context [] = Some rt" "rt_context rt = sample_context" by (simp add: round_tracker_new_def Let_def)
  have "length (rs_scores_per_authority (am_propagation_scores (am_new sample_context))) \<le> 4" by (simp add: am_new_def reputation_scores_default_def Let_def)
  moreover have "cx_own_index sample_context = 0" by (simp add: sample_context_def)
  ultimately show ?thesis using sample_dag_inv sample_genesis_of rt round_tracker_new_wf[OF rt(1)] am_inv_new[of sample_context]
    by (simp add: proposer_ok_def sample_shared_def sample_proposer_def validator_proposer_new_def Let_def context_is_validator_def is_valid_index_def)
qed

lemma sample_slots:
  "\<exists>a<4. leader_slots_to_wait_for sample_rng (vp_leader_waiter sample_proposer) 0 = Some [Slot 0 a]"
proof -
  obtain a where a: "elect_leader sample_rng (leader_schedule_new sample_context leader_swap_table_default) 0 0 = Some a" "a < 4"
    using sample_election[of 0] by (auto simp: is_valid_index_def)
  have u: "[0..<3] = [0, 1, 2 :: nat]" by (simp add: upt_conv_Cons)
  show ?thesis using a
    by (simp add: sample_proposer_def validator_proposer_new_def leader_slots_to_wait_for_def get_leaders_def uc_build_def DEFAULT_WAVE_LENGTH_def MINIMUM_WAVE_LENGTH_def u
        bc_elect_leader_def base_committer_new_def bc_wave_number_def bc_leader_round_def List.map_filter_def Let_def)
qed

lemma sample_clock [simp]: "ds_threshold_clock_round sample_dag = 1"
  by (simp add: ds_threshold_clock_round_def sample_dag_def ds_fresh_def tc_new_def)

lemma sample_proposal_ready:
  shows "included_below sample_shared sample_proposer" and "votes_ready sample_shared" and "serializes sample_crypto"
    and "parents_cached (sh_dag_state sample_shared) (ds_threshold_clock_round (sh_dag_state sample_shared))"
    and "\<not> pc_enable_v3 (cx_protocol_config (vp_context sample_proposer))" and "should_propose (sh_dag_state sample_shared) sample_proposer"
    and "\<exists>r. last_proposed_round (sh_dag_state sample_shared) = Some r \<and> r < ds_threshold_clock_round (sh_dag_state sample_shared)"
proof -
  have vp: "vp_last_included_ancestors sample_proposer = replicate 4 None" "vp_context sample_proposer = sample_context"
    "vp_propagation_delay sample_proposer = 0" "vp_last_known_proposed_round sample_proposer = Some 0"
    by (simp_all add: sample_proposer_def validator_proposer_new_def)
  have sh: "sh_dag_state sample_shared = sample_dag" "sh_vote_tracker sample_shared = vts_new sample_context" by (simp_all add: sample_shared_def)
  show "included_below sample_shared sample_proposer" by (auto simp: included_below_def vp)
  show "serializes sample_crypto" by (simp add: serializes_def sample_crypto_def)
  show "\<not> pc_enable_v3 (cx_protocol_config (vp_context sample_proposer))" by (simp add: vp sample_context_def)
  show "should_propose (sh_dag_state sample_shared) sample_proposer" by (simp add: should_propose_def vp sh sample_context_def)
  have "\<not> ds_parent sample_dag r a" for r a
  proof
    assume p: "ds_parent sample_dag r a"
    then have "br_round r = 0" using sample_dag_get[of r] by (cases "br_round r") (auto simp: ds_parent_def)
    then have "a \<in> set (vb_ancestors (sample_genesis (br_author r)))" using p sample_dag_genesis[of r] by (auto simp: ds_parent_def sample_universe_def split: if_splits)
    then show False by (simp add: sample_genesis_def vb_ancestors_def new_verified_def new_genesis_def genesis_block_v2_def)
  qed
  then show "votes_ready sample_shared"
    by (auto simp: votes_ready_def sh Let_def ds_complete_def linked_closed_def live_parent_def vts_new_def sample_dag_get)
  have "unat (c_quorum_threshold committee4) \<le> set_stake committee4 {a. a < 4}" using sample_quorum by (simp add: lessThan_def)
  then show "parents_cached (sh_dag_state sample_shared) (ds_threshold_clock_round (sh_dag_state sample_shared))"
    by (simp add: parents_cached_def sh has_block_at_def)
  have val: "context_is_validator (ds_context sample_dag)" by (simp add: context_is_validator_def is_valid_index_def) (simp add: sample_context_def)
  obtain own where own: "last_proposed_block sample_dag = Some own" "own = sample_genesis_list ! cx_own_index (ds_context sample_dag) \<or> ds_cached sample_dag (reference own) = Some own"
    by (rule last_proposed_spec[OF sample_dag_inv sample_genesis_of val]) blast
  have "ds_cached sample_dag (reference own) = None" by (simp add: ds_cached_def)
  then have "vb_round own = 0" using own(2) genesis_of_nth(2)[OF sample_genesis_of, of "cx_own_index sample_context"] val
    by (simp add: context_is_validator_def is_valid_index_def)
  then show "\<exists>r. last_proposed_round (sh_dag_state sample_shared) = Some r \<and> r < ds_threshold_clock_round (sh_dag_state sample_shared)"
    using own(1) by (simp add: sh last_proposed_round_def)
qed

lemma sample_proposal:
  "\<exists>sh' vp' eb sent. try_new_block sample_crypto (\<lambda>m. [7]) sample_rng \<lparr>pk_checked = 0, pk_now = 9, pk_instant = 0\<rparr> True (sample_shared, sample_proposer) =
    Some ((sh', vp'), Some (eb, sent))"
proof -
  obtain a where a: "a < 4" "leader_slots_to_wait_for sample_rng (vp_leader_waiter sample_proposer) 0 = Some [Slot 0 a]" using sample_slots by blast
  have sh: "sh_dag_state sample_shared = sample_dag" by (simp add: sample_shared_def)
  have ctx: "vp_context sample_proposer = sample_context" by (simp add: sample_proposer_def validator_proposer_new_def)
  note r = sample_proposal_ready[unfolded sh ctx]
  from forced_proposal[OF sample_proposer_ok sh[symmetric] r(1-4) _ r(6,7), of sample_rng "[Slot 0 a]" "\<lambda>m. [7]" "\<lparr>pk_checked = 0, pk_now = 9, pk_instant = 0\<rparr>"] r(5) a
  show ?thesis by auto
qed

subsection \<open>Properties\<close>

text \<open>
  C6. Every block a validator proposes passes the verification of every other authority: its ancestors begin with the own last block,
  have distinct authors, are of lower rounds and hold a quorum of parents, its transactions are within the limits and its
  signature verifies. The premises are the invariants of the shared state and of the consumer, and the contract of the signing key.
\<close>

theorem proposed_block_verifies:
  assumes "proposer_ok cy gs sh vp" and "consumer_ok (vp_context vp) (vp_transaction_consumer vp)"
    and "signs_for cy sign (a_protocol_key (c_authorities (cx_committee (vp_context vp)) ! cx_own_index (vp_context vp)))"
    and "signed_block_verifier_new cy ((vp_context vp)\<lparr>cx_own_index := peer, cx_parameters := params\<rparr>) = Some sv"
    and "try_new_block cy sign rg clk force (sh, vp) = Some ((sh', vp'), Some (eb, sent))"
  shows "verify_block cy sv (vb_block (eb_block eb)) = Inr ()"
proof -
  define ds where "ds = sh_dag_state sh"
  let ?ctx = "vp_context vp" and ?r = "ds_threshold_clock_round ds"
  let ?c = "cx_committee ?ctx"
  from try_new_block_spec(1)[OF assms(1) ds_def assms(5)] obtain as own vp1 slots excl where
    a: "proposal_ancestors ds gs ?r own as" "vb_author own = cx_own_index (ds_context ds)" "proposer_ok cy gs sh vp1"
      "vp_transaction_consumer vp1 = vp_transaction_consumer vp" "vp_context vp1 = ?ctx" "\<forall>e\<in>set excl. br_author e < ds_size ds"
      "propose_block cy sign clk ?r slots as excl (sh, vp1) = Some ((sh', vp'), eb, sent)" by blast
  from propose_block_spec(1)[OF a(3) ds_def a(1,6,7)] a(4,5) obtain txs acks l consumer votes cvs where
    b: "consumer_next (vp_transaction_consumer vp) = ((txs, acks, l), consumer)"
      "signed_block_new cy sign (new_block_content ?ctx ?r (pk_now clk) (map reference as) txs votes cvs) = Inr (vb_block (eb_block eb))" by auto
  have vp: "?ctx = ds_context ds" "ds_inv ds" "genesis_of cy ds gs" "context_is_validator ?ctx"
    using assms(1) by (simp_all add: proposer_ok_def ds_def Let_def)
  have wf: "committee_wf ?c" using vp(1,2) by (simp add: ds_inv_def ds_static_def)
  have valid: "is_valid_index ?c (cx_own_index ?ctx)" using vp(4) by (simp add: context_is_validator_def)
  let ?peer = "?ctx\<lparr>cx_own_index := peer, cx_parameters := params\<rparr>" and ?b = "sb_inner (vb_block (eb_block eb))"
  have inner: "?b = new_block_content ?ctx ?r (pk_now clk) (map reference as) txs votes cvs" by (rule signed_block_new_inner[OF b(2)])
  have "genesis_blocks cy ?peer = genesis_blocks cy ?ctx"
  proof -
    have v: "genesis_block_v1 ?peer = genesis_block_v1 ?ctx" "genesis_block_v2 ?peer = genesis_block_v2 ?ctx"
      by (simp_all add: genesis_block_v1_def genesis_block_v2_def fun_eq_iff)
    have "genesis_block cy ?peer = genesis_block cy ?ctx" unfolding genesis_block_def v by simp
    then show ?thesis by (simp add: genesis_blocks_def)
  qed
  then have sv: "sv = \<lparr>sv_context = ?peer, sv_genesis = fset_of_list (map reference gs)\<rparr>"
    using assms(4) vp(1,3) by (simp add: signed_block_verifier_new_def genesis_of_def)
  note w = proposal_ancestors_wf[OF a(3) ds_def a(1,2)]
  have "0 < ?r" using a(1) by (cases as) (auto simp: proposal_ancestors_def ancestor_ok_def last_block_ok_def)
  moreover have "verify_signature cy ?peer (vb_block (eb_block eb)) = Inr ()"
    by (rule signed_block_verifies[OF b(2)]) (use assms(3) valid in simp_all)
  moreover have "check_transactions ?peer (block_transactions_data ?b) = Inr ()"
    using consumer_transactions_ok[OF assms(2) b(1)] by (simp add: block_transactions_data_def inner check_transactions_def Let_def)
  moreover have "length (map reference as) \<le> committee_size ?c" using ancestors_wf_length[OF w(1)] vp(1) by simp
  moreover have "\<exists>s. verify_ancestors ?c (sv_genesis sv) ?b 0 (map reference as) (replicate (committee_size ?c) False) 0 = Inr s \<and> reached_quorum ?c s"
    using verify_ancestors_reached[OF wf, of "sv_genesis sv" ?b "map reference as"] w vp(1) sv by (auto simp: inner fset_of_list.rep_eq)
  moreover have "as \<noteq> []" using a(1) by (simp add: proposal_ancestors_def)
  ultimately show ?thesis using valid by (auto simp: verify_block_def Let_def sv inner split: sum.splits)
qed

theorem proposed_block_verifies_witness:
  "\<exists>sv sh' vp' eb sent. signed_block_verifier_new sample_crypto (sample_context\<lparr>cx_own_index := 2, cx_parameters := cx_parameters sample_context\<rparr>) = Some sv \<and>
    try_new_block sample_crypto (\<lambda>m. [7]) sample_rng \<lparr>pk_checked = 0, pk_now = 9, pk_instant = 0\<rparr> True (sample_shared, sample_proposer) = Some ((sh', vp'), Some (eb, sent)) \<and>
    verify_block sample_crypto sv (vb_block (eb_block eb)) = Inr ()"
proof -
  let ?peer = "sample_context\<lparr>cx_own_index := 2, cx_parameters := cx_parameters sample_context\<rparr>"
  obtain sh' vp' eb sent where t: "try_new_block sample_crypto (\<lambda>m. [7]) sample_rng \<lparr>pk_checked = 0, pk_now = 9, pk_instant = 0\<rparr> True (sample_shared, sample_proposer) =
    Some ((sh', vp'), Some (eb, sent))" using sample_proposal by blast
  have ctx: "vp_context sample_proposer = sample_context" by (simp add: sample_proposer_def validator_proposer_new_def)
  have "\<exists>gs. genesis_blocks sample_crypto ?peer = Some gs"
    by (simp add: genesis_blocks_def authority_indices_def committee4_def genesis_block_def sample_crypto_def Let_def upt_conv_Cons)
  then obtain sv where sv: "signed_block_verifier_new sample_crypto ((vp_context sample_proposer)\<lparr>cx_own_index := 2, cx_parameters := cx_parameters sample_context\<rparr>) = Some sv"
    unfolding ctx by (auto simp: signed_block_verifier_new_def)
  have c: "consumer_ok (vp_context sample_proposer) (vp_transaction_consumer sample_proposer)"
    unfolding ctx by (simp add: consumer_ok_def sample_proposer_def validator_proposer_new_def held_bundles_def bundle_ok_def sample_context_def Let_def)
  have k: "signs_for sample_crypto (\<lambda>m. [7]) key" for key by (simp add: signs_for_def sample_crypto_def)
  from proposed_block_verifies[OF sample_proposer_ok c k sv t] t sv show ?thesis unfolding ctx by blast
qed

text \<open>
  C7. A validator never proposes twice for a round: when a proposal from a state satisfying the proposer invariant returns a block, the
  block is its own, its round is the round of the threshold clock and is above the round of every block of its own that the DAG
  serves; the new block is served afterwards, next to everything served before, and the invariant holds again, so this
  goes on for all later proposals.
\<close>

theorem proposals_never_equivocate:
  assumes "proposer_ok cy gs sh vp" and "try_new_block cy sign rg clk force (sh, vp) = Some ((sh', vp'), Some (eb, sent))"
  shows "proposer_ok cy gs sh' vp' \<and> vb_author (eb_block eb) = cx_own_index (vp_context vp) \<and>
    vb_round (eb_block eb) = ds_threshold_clock_round (sh_dag_state sh) \<and>
    (\<forall>r b. ds_get_block (sh_dag_state sh) r = Some b \<and> vb_author b = cx_own_index (vp_context vp) \<longrightarrow> vb_round b < vb_round (eb_block eb)) \<and>
    ds_get_block (sh_dag_state sh') = (ds_get_block (sh_dag_state sh))(reference (eb_block eb) \<mapsto> eb_block eb)"
proof -
  define ds where "ds = sh_dag_state sh"
  from try_new_block_spec(1)[OF assms(1) ds_def assms(2)] obtain as own vp1 slots excl where
    a: "proposal_ancestors ds gs (ds_threshold_clock_round ds) own as" "proposer_ok cy gs sh vp1"
      "vp_context vp1 = vp_context vp" "\<forall>e\<in>set excl. br_author e < ds_size ds"
      "propose_block cy sign clk (ds_threshold_clock_round ds) slots as excl (sh, vp1) = Some ((sh', vp'), eb, sent)" by blast
  note below = try_new_block_spec(2)[OF assms(1) ds_def assms(2)]
  note p = propose_block_spec[OF a(2) ds_def a(1,4,5)]
  have vp: "vp_context vp = ds_context ds" "ds_inv ds" using assms(1) by (simp_all add: proposer_ok_def ds_def Let_def)
  have "vb_round b < vb_round (eb_block eb)" if s: "ds_get_block (sh_dag_state sh) r = Some b" "vb_author b = cx_own_index (vp_context vp)" for r b
  proof -
    have "reference b = r" using ds_get_block_reference[OF vp(2)] s(1) by (simp add: ds_def)
    then show ?thesis using below[of r] s p(4) vp(1) by (auto simp: ds_def)
  qed
  moreover have "ds_get_block ds (reference (eb_block eb)) = None" using below[of "reference (eb_block eb)"] p(4,5) by fastforce
  then have "ds_get_block (sh_dag_state sh') = (ds_get_block (sh_dag_state sh))(reference (eb_block eb) \<mapsto> eb_block eb)"
    using p(3) by (auto simp: fun_eq_iff ds_def)
  ultimately show ?thesis using p(2,4,5) vp(1) by (auto simp: ds_def)
qed

theorem proposals_never_equivocate_witness:
  "\<exists>sh' vp' eb sent. try_new_block sample_crypto (\<lambda>m. [7]) sample_rng \<lparr>pk_checked = 0, pk_now = 9, pk_instant = 0\<rparr> True (sample_shared, sample_proposer) =
      Some ((sh', vp'), Some (eb, sent)) \<and>
    proposer_ok sample_crypto sample_genesis_list sh' vp' \<and> vb_round (eb_block eb) = ds_threshold_clock_round (sh_dag_state sample_shared) \<and>
    ds_get_block (sh_dag_state sh') (reference (eb_block eb)) = Some (eb_block eb)"
proof -
  obtain sh' vp' eb sent where t: "try_new_block sample_crypto (\<lambda>m. [7]) sample_rng \<lparr>pk_checked = 0, pk_now = 9, pk_instant = 0\<rparr> True (sample_shared, sample_proposer) =
    Some ((sh', vp'), Some (eb, sent))" using sample_proposal by blast
  from proposals_never_equivocate[OF sample_proposer_ok t] t show ?thesis by auto
qed

text \<open>
  C8. A forced proposal (the leader timeout) succeeds when v3 is off and the state is ready for it. Ready means: the proposer
  invariant holds; the ancestors recorded as included lie below the last own block; the DAG is causally complete, its linked blocks are
  closed under ancestors, and the vote tracker has each block that is not linked and above its garbage collection round; BCS
  serialization does not fail; the cache of no authority was evicted up to the parent round, and authorities with a quorum of
  stake have a block there; the validator may propose, and its last block is below the round of the threshold clock; the schedule
  names leader slots for the parent round, the first for a committee member. Then neither choosing the ancestors nor making,
  accepting, tracking and persisting the block panics, however the ancestors are scored, and a block for the round of the
  threshold clock is returned.
\<close>

theorem forced_proposal_succeeds:
  assumes "proposer_ok cy gs sh vp" and "included_below sh vp" and "votes_ready sh" and "serializes cy"
    and "parents_cached (sh_dag_state sh) (ds_threshold_clock_round (sh_dag_state sh))" and "\<not> pc_enable_v3 (cx_protocol_config (vp_context vp))"
    and "should_propose (sh_dag_state sh) vp"
    and "\<exists>r. last_proposed_round (sh_dag_state sh) = Some r \<and> r < ds_threshold_clock_round (sh_dag_state sh)"
    and "leader_slots_to_wait_for rg (vp_leader_waiter vp) (ds_threshold_clock_round (sh_dag_state sh) - 1) = Some slots"
    and "slots \<noteq> []" and "is_valid_index (cx_committee (vp_context vp)) (slot_authority (hd slots))"
  shows "\<exists>sh' vp' eb sent. try_new_block cy sign rg clk True (sh, vp) = Some ((sh', vp'), Some (eb, sent)) \<and>
    vb_round (eb_block eb) = ds_threshold_clock_round (sh_dag_state sh)"
proof -
  have "vp_context vp = ds_context (sh_dag_state sh)" using assms(1) by (simp add: proposer_ok_def Let_def)
  then show ?thesis using forced_proposal[OF assms(1) refl assms(2-5) _ assms(7-10)] assms(6,11) by (simp add: is_valid_index_def)
qed

theorem forced_proposal_succeeds_witness:
  "\<exists>sh' vp' eb sent. try_new_block sample_crypto (\<lambda>m. [7]) sample_rng \<lparr>pk_checked = 0, pk_now = 9, pk_instant = 0\<rparr> True (sample_shared, sample_proposer) =
      Some ((sh', vp'), Some (eb, sent)) \<and> vb_round (eb_block eb) = 1"
proof -
  obtain a where a: "a < 4" "leader_slots_to_wait_for sample_rng (vp_leader_waiter sample_proposer) 0 = Some [Slot 0 a]" using sample_slots by blast
  have sh: "sh_dag_state sample_shared = sample_dag" by (simp add: sample_shared_def)
  have ctx: "vp_context sample_proposer = sample_context" by (simp add: sample_proposer_def validator_proposer_new_def)
  from forced_proposal_succeeds[OF sample_proposer_ok sample_proposal_ready, of sample_rng "[Slot 0 a]" "\<lambda>m. [7]" "\<lparr>pk_checked = 0, pk_now = 9, pk_instant = 0\<rparr>"] a
  show ?thesis by (simp add: sh ctx is_valid_index_def)
qed

end
