(* ===== verification/Spec2Isabelle.thy ===== *)
theory Spec2Isabelle
  imports Block_Acceptance Commit_Vote_Monitor Core_Sharing Finalization Proposal_Progress
begin

text \<open>
  A verification library for the Mysticeti consensus of the Sui validator: the crates
  \<^verbatim>\<open>consensus/config\<close>, \<^verbatim>\<open>consensus/types\<close> and \<^verbatim>\<open>consensus/core\<close> under \<^verbatim>\<open>src/consensus\<close>.

  \<^bold>\<open>The program.\<close> Authorities of a committee with stakes propose one signed block per round, each linking to a quorum of
  blocks of the round before. A node verifies the blocks it receives, holds those with missing ancestors back, adds the
  others to its DAG, decides leader blocks from the patterns of the DAG alone, and expands every committed leader into the
  sub-dag of its uncommitted history. Committed sub-dags are finalized, which settles the votes that reject transactions,
  and handed to the consumer in order. The scores of past commits choose later leaders and the ancestors of own blocks.

  \<^bold>\<open>Conventions.\<close> \<open>Prelude\<close> has them. A Rust panic and a loop that does not end are \<open>None\<close> of an option; a
  \<^verbatim>\<open>ConsensusResult\<close> is a sum with \<open>consensus_error\<close> on the left. Stakes, scores and thresholds are 64-bit words and wrap or
  panic as in the source; rounds, indices and timestamps are natural numbers, with the bounds of the source's types written
  out where the code depends on them (an addition to a round or an index that would leave 32 bits is not an overflow in the model); digests are 256-bit words. Ordered maps and sets are finite maps and sets, iterated in
  the order of their keys. Hashing, BCS encoding and signatures (\<open>crypto\<close>), the seeded generators of the rand crate
  (\<open>rng\<close>, \<open>shuffle\<close>), the transaction verifier and the clocks are parameters, the contracts they need being named predicates such
  as \<open>rng_ok\<close> and \<open>shuffle_ok\<close>. Metrics and logging are left out, except look-ups that may panic.

  \<^bold>\<open>Data.\<close> \<open>Committee\<close> (\<^verbatim>\<open>committee.rs\<close>: \<^verbatim>\<open>Committee::new\<close>, \<^verbatim>\<open>new_v3\<close>; exactly when construction panics, the thresholds,
  quorum intersection as a locale), \<open>Block_Types\<close> (\<^verbatim>\<open>block.rs\<close>, \<^verbatim>\<open>context.rs\<close>, \<^verbatim>\<open>error.rs\<close>), \<open>Commit_Types\<close> (\<^verbatim>\<open>commit.rs\<close>),
  \<open>Stake_Aggregator\<close> (\<^verbatim>\<open>stake_aggregator.rs\<close>: the sum is the stake of the voters and cannot overflow), \<open>Threshold_Clock\<close>
  (\<^verbatim>\<open>threshold_clock.rs\<close>), \<open>Weighted_Rank\<close> (the loop over stake-weighted sorted values that several components share).

  \<^bold>\<open>The DAG.\<close> \<open>Storage\<close> (\<^verbatim>\<open>storage/mem_store.rs\<close>: the store behind a locale of block stores), \<open>Dag_State\<close> (\<^verbatim>\<open>dag_state.rs\<close>: its record
  is \<^verbatim>\<open>struct DagState\<close>, its operations have the prefix \<open>ds_\<close>), \<open>Dag_Invariant\<close> (the invariant \<open>ds_inv\<close>, preserved by acceptance and
  flush; the blocks a state serves are the partial map \<open>ds_get_block\<close>, which acceptance extends by one block and a flush leaves
  alone), \<open>Dag_Traversal\<close> and \<open>Causal_Link\<close> (\<^verbatim>\<open>ancestors_at_round\<close> and \<^verbatim>\<open>link_causal_history\<close> return, with exactly the reachable
  blocks), \<open>Block_Verifier\<close> (\<^verbatim>\<open>block_verifier.rs\<close>: accepted blocks are characterised), \<open>Block_Manager\<close>, \<open>Suspension\<close> and
  \<open>Block_Acceptance\<close> (\<^verbatim>\<open>block_manager.rs\<close>, with v3 off: an invariant of its three maps; after any deliveries exactly the causally connected
  blocks are accepted and exactly their missing ancestors are asked for; a commit that advances garbage collection releases what it unblocks).

  \<^bold>\<open>Committing.\<close> \<open>Leader_Scoring\<close>, \<open>Leader_Schedule\<close>, \<open>Leader_Schedule_V3\<close> (\<^verbatim>\<open>leader_scoring.rs\<close>, \<^verbatim>\<open>leader_schedule.rs\<close>,
  \<^verbatim>\<open>leader_schedule_v3.rs\<close>: scores that are exactly the stake linking to votes, bad leaders replaced within the stake bound, recovery equal to the running state),
  \<open>Base_Committer\<close>, \<open>Universal_Committer\<close>, \<open>Commit_Rule\<close>, \<open>Commit_Safety\<close> (\<^verbatim>\<open>base_committer.rs\<close>, \<^verbatim>\<open>universal_committer.rs\<close>: the
  operations as patterns of the DAG, agreement of two nodes under the fault budget, commit of a supported leader),
  \<open>Linearizer\<close>, \<open>Commit_Sequence\<close> (\<^verbatim>\<open>linearizer.rs\<close>: a sub-dag is exactly the uncommitted history, the same in every view; the
  commits form a gap-free chain without repeated blocks; a restart from the in-memory store right after a schedule update panics), \<open>Transaction_Vote_Tracker\<close>, \<open>Commit_Finalizer\<close>, \<open>Finalization\<close>
  (\<^verbatim>\<open>transaction_vote_tracker.rs\<close>, \<^verbatim>\<open>commit_finalizer.rs\<close>: exact reject votes, commits finalized in order and not delayed for ever),
  \<open>Commit_Vote_Monitor\<close> (\<^verbatim>\<open>commit_vote_monitor.rs\<close>).

  \<^bold>\<open>Proposing.\<close> \<open>Round_Tracker\<close>, \<open>Ancestor\<close>, \<open>Transaction_Consumer\<close> (\<^verbatim>\<open>round_tracker.rs\<close>, \<^verbatim>\<open>ancestor.rs\<close>, \<^verbatim>\<open>transaction.rs\<close>: quorum
  rounds lie between those of honest authorities, the authorities not excluded hold a quorum in committees of \<^verbatim>\<open>Committee::new\<close>, submitted bundles are included),
  \<open>Proposer\<close>, \<open>Proposal\<close>, \<open>Proposal_Progress\<close> (\<^verbatim>\<open>proposer.rs\<close>: own blocks pass the verifier, never equivocate, and a forced
  proposal over a quorum of cached parents succeeds without v3). \<open>Sample_Dag\<close> has the concrete views that the witnesses evaluate.

  \<^bold>\<open>Composition.\<close> \<open>Commit_Observer\<close> (\<^verbatim>\<open>commit_observer.rs\<close>: after a restart every stored commit after the requested index is sent
  once, in order), \<open>Consensus_Core\<close> (\<^verbatim>\<open>core.rs\<close> and the loop of \<^verbatim>\<open>core_thread.rs\<close>: the record \<open>core\<close> is \<^verbatim>\<open>struct Core\<close>, \<open>core_step\<close> a
  reaction of \<^verbatim>\<open>CoreThread::run\<close>), \<open>Core_Ledger\<close> (an abstract ledger, which the core refines: sub-dags are only appended, without
  gaps, and signalled rounds increase; errors come from closed channels only; certified commits are committed as
  certified), \<open>Core_Sharing\<close> (objects behind shared pointers in the source are copies in the model, which \<open>install_schedule\<close> updates
  together; the lemmas show that they stay equal).

  \<^bold>\<open>Loops.\<close> There is no fuel. Loops over a worklist are \<open>partial_function (option)\<close>: \<open>ancestors_loop\<close>, \<open>link_loop\<close>,
  \<open>linearize_loop\<close>, \<open>unsuspend_loop\<close>, \<open>gc_unsuspend_loop\<close>, \<open>scan_support\<close> and \<open>append_origin\<close>; the theorems about the operations
  that use them show that they return. The loop of \<^verbatim>\<open>try_commit\<close>, \<open>commit_loop\<close>, is one too; the theorems about the core are about
  calls that return, and the witnesses evaluate such calls. Every other loop is structural recursion or a fold.

  \<^bold>\<open>Not modelled.\<close> That \<^verbatim>\<open>try_commit\<close> always returns is not proved. The commit rule of \<^verbatim>\<open>leader_slot_decider.rs\<close> is used by its own
  tests only. The RocksDB store, the synchronisers, round prober, subscribers, network, authority service, leader timeout and
  the dispatcher of the core thread are asynchronous tasks over channels, timers and third-party crates; what they do to the modelled state
  is a sequence of calls, which the events of \<open>core_run\<close> stand for. The finalizer and the core share the DAG state behind a lock and
  run concurrently; the model runs a call of either without interruption, so interleavings between the accesses of one call are
  left out. Metrics are counters only. The other crates of the repository are separate programs.
\<close>

end
